(* ===== verification/Prelude.thy ===== *)
theory Prelude
  imports Main "HOL-Library.Word" "HOL-Library.Monad_Syntax"
begin

unbundle bit_operations_syntax

section \<open>Shared vocabulary of the development\<close>

text \<open>
  What every component theory uses: C's 32 bit unsigned arithmetic on \<open>nat\<close> with the
  wrap-around written out, C arrays as lists with checked access (an access outside the array
  is \<open>None\<close>, the undefined behaviour of C), circular offsets, and the theorem collections the
  component theories fill.
\<close>

named_theorems wf_simps \<open>projections of the well-formedness predicates\<close>
named_theorems c_array \<open>reads and writes of C arrays\<close>

subsection \<open>Unsigned 32 bit arithmetic\<close>

definition u32 :: "nat \<Rightarrow> nat" where
  "u32 n = n mod 2 ^ 32"

lemma u32_small [simp]: "n < 4294967296 \<Longrightarrow> u32 n = n"
  by (simp add: u32_def)

lemma u32_bound: "u32 n < 4294967296"
  by (simp add: u32_def)

text \<open>The conversion to \<^verbatim>\<open>int\<close>, which wraps as gcc does.\<close>

definition to_int32 :: "nat \<Rightarrow> int" where
  "to_int32 v = (let r = int (v mod 2 ^ 32) in if r < 2 ^ 31 then r else r - 2 ^ 32)"

lemma to_int32_small [simp]: "n < 2147483648 \<Longrightarrow> to_int32 n = int n"
  by (simp add: to_int32_def Let_def)

subsection \<open>Arrays\<close>

definition arr_get :: "'a list \<Rightarrow> int \<Rightarrow> 'a option" where
  "arr_get xs i = (if 0 \<le> i \<and> i < int (length xs) then Some (xs ! nat i) else None)"

definition arr_set :: "'a list \<Rightarrow> int \<Rightarrow> 'a \<Rightarrow> 'a list option" where
  "arr_set xs i x = (if 0 \<le> i \<and> i < int (length xs) then Some (xs[nat i := x]) else None)"

lemma arr_get_some: "0 \<le> i \<Longrightarrow> i < int (length xs) \<Longrightarrow> arr_get xs i = Some (xs ! nat i)"
  by (simp add: arr_get_def)

lemma arr_get_nat [simp, c_array]: "i < length xs \<Longrightarrow> arr_get xs (int i) = Some (xs ! i)"
  by (simp add: arr_get_def)

lemma arr_set_nat [simp, c_array]: "i < length xs \<Longrightarrow> arr_set xs (int i) x = Some (xs[i := x])"
  by (simp add: arr_set_def)

lemma arr_get_None: "arr_get xs i = None \<longleftrightarrow> i < 0 \<or> int (length xs) \<le> i"
  by (auto simp: arr_get_def)

lemma arr_get_Some: "arr_get xs i = Some x \<longleftrightarrow> 0 \<le> i \<and> nat i < length xs \<and> x = xs ! nat i"
  by (auto simp: arr_get_def)

lemma arr_set_length: "arr_set xs i x = Some ys \<Longrightarrow> length ys = length xs"
  by (auto simp: arr_set_def split: if_splits)

subsection \<open>Circular offsets\<close>

text \<open>\<open>off n s j\<close> is how many slots after \<open>s\<close> the slot \<open>j\<close> comes in a ring of \<open>n\<close> slots.\<close>

definition off :: "nat \<Rightarrow> nat \<Rightarrow> nat \<Rightarrow> nat" where
  "off n s j = (j + n - s) mod n"

lemma off_less: "0 < n \<Longrightarrow> off n s j < n"
  by (simp add: off_def)

lemma off_at:
  assumes "s < n" "t < n"
  shows "off n s ((s + t) mod n) = t"
proof (cases "s + t < n")
  case True
  then show ?thesis using assms by (simp add: off_def)
next
  case False
  then have "(s + t) mod n = s + t - n"
    using assms by (simp add: mod_if)
  then show ?thesis using assms False by (simp add: off_def)
qed

lemma at_off:
  assumes "s < n" "j < n"
  shows "(s + off n s j) mod n = j"
proof (cases "s \<le> j")
  case True
  then have "off n s j = j - s"
    using assms by (simp add: off_def mod_if)
  then show ?thesis using assms True by simp
next
  case False
  then have "off n s j = j + n - s"
    using assms by (simp add: off_def)
  then show ?thesis using assms False by simp
qed

lemma off_inj: "s < n \<Longrightarrow> i < n \<Longrightarrow> j < n \<Longrightarrow> off n s i = off n s j \<longleftrightarrow> i = j"
  by (metis at_off)

lemma ring_unique: "s < n \<Longrightarrow> t < n \<Longrightarrow> j < n \<Longrightarrow> (s + t) mod n = j \<longleftrightarrow> off n s j = t"
  by (metis at_off off_at)

subsection \<open>Consecutive ranges\<close>

text \<open>Monotone boundaries cut an interval into ranges: every point lies in exactly one of them.\<close>

lemma steps_partition:
  fixes b :: "nat \<Rightarrow> 'a :: linorder"
  assumes "\<And>j k. j \<le> k \<Longrightarrow> b j \<le> b k" "b 0 = lo" "b m = hi"
  shows "lo \<le> p \<and> p < hi \<longleftrightarrow> (\<exists>!k. k < m \<and> b k \<le> p \<and> p < b (Suc k))"
proof
  assume p: "lo \<le> p \<and> p < hi"
  have "\<exists>k<m. b k \<le> p \<and> p < b (Suc k)" using p assms(2,3)
  proof (induction m arbitrary: hi)
    case 0
    then show ?case by auto
  next
    case (Suc m)
    show ?case
    proof (cases "p < b m")
      case True
      then obtain k where "k < m \<and> b k \<le> p \<and> p < b (Suc k)" using Suc.IH [of "b m"] Suc.prems by blast
      then show ?thesis using less_SucI by blast
    next
      case False
      then show ?thesis using Suc.prems by (intro exI [of _ m]) auto
    qed
  qed
  moreover have "j = k" if "b j \<le> p" "p < b (Suc j)" "b k \<le> p" "p < b (Suc k)" for j k
  proof (rule ccontr)
    assume "j \<noteq> k"
    then consider "Suc j \<le> k" | "Suc k \<le> j" by linarith
    then show False
    proof cases
      case 1
      then show False using assms(1) [OF 1] that by auto
    next
      case 2
      then show False using assms(1) [OF 2] that by auto
    qed
  qed
  ultimately show "\<exists>!k. k < m \<and> b k \<le> p \<and> p < b (Suc k)" by blast
next
  assume "\<exists>!k. k < m \<and> b k \<le> p \<and> p < b (Suc k)"
  then obtain k where k: "k < m" "b k \<le> p" "p < b (Suc k)" by blast
  have "lo \<le> b k" "b (Suc k) \<le> hi" using assms(1) [of 0 k] assms(1) [of "Suc k" m] assms(2,3) k(1) by auto
  then show "lo \<le> p \<and> p < hi" using k by auto
qed

end
