(* ===== verification/QFlow.thy ===== *)
theory QFlow
  imports Prelude
begin

section \<open>Queue selection options: common/qflow.h\<close>

text \<open>
  The options shared by nf-chain and mica. \<^verbatim>\<open>unsigned long\<close> has 64 bits, \<^verbatim>\<open>int\<close> and
  \<^verbatim>\<open>uint32_t\<close> 32; conversions wrap as gcc does. \<open>strtoul10\<close> is the C library's \<open>strtoul\<close> with
  base 10: the value and the unparsed rest. Messages are not modelled.
\<close>

subsection \<open>Options\<close>

datatype qflow_mode = QFLOW_SINGLE | QFLOW_PARTITIONED | QFLOW_SHARED

record qflow_opts =
  o_aggressive :: bool
  o_penalty :: bool
  o_penalty_turns :: nat
  o_latency :: bool
  o_latency_queue :: int
  o_latency_period :: int
  o_mode :: qflow_mode

definition QFLOW_MAX_CONSECUTIVE_POLLS :: nat where [simp]: "QFLOW_MAX_CONSECUTIVE_POLLS = 100"
definition QFLOW_DEFAULT_PENALTY :: nat where [simp]: "QFLOW_DEFAULT_PENALTY = 5"
definition QFLOW_DEFAULT_LATENCY_PERIOD :: int where [simp]: "QFLOW_DEFAULT_LATENCY_PERIOD = 4"

definition qflow_opts_init :: qflow_opts where
  "qflow_opts_init = \<lparr>o_aggressive = False, o_penalty = False, o_penalty_turns = QFLOW_DEFAULT_PENALTY,
     o_latency = False, o_latency_queue = 0, o_latency_period = QFLOW_DEFAULT_LATENCY_PERIOD,
     o_mode = QFLOW_SINGLE\<rparr>"

subsection \<open>Numbers\<close>

definition isspace :: "char \<Rightarrow> bool" where
  "isspace c \<longleftrightarrow> c = CHR '' '' \<or> (9 \<le> (of_char c :: nat) \<and> (of_char c :: nat) \<le> 13)"

definition isdigit :: "char \<Rightarrow> bool" where
  "isdigit c \<longleftrightarrow> 48 \<le> (of_char c :: nat) \<and> (of_char c :: nat) \<le> 57"

definition digits_val :: "string \<Rightarrow> nat" where
  "digits_val ds = foldl (\<lambda>v c. 10 * v + (of_char c - 48)) 0 ds"

definition strtoul10 :: "string \<Rightarrow> nat \<times> string" where
  "strtoul10 s =
     (let t = dropWhile isspace s;
          neg = (t \<noteq> [] \<and> hd t = CHR ''-'');
          u = (if t \<noteq> [] \<and> (hd t = CHR ''-'' \<or> hd t = CHR ''+'') then tl t else t);
          ds = takeWhile isdigit u;
          v = digits_val ds
      in if ds = [] then (0, s)
         else (if 2 ^ 64 \<le> v then 2 ^ 64 - 1 else if neg then (2 ^ 64 - v) mod 2 ^ 64 else v,
               dropWhile isdigit u))"

definition qflow_parse_uint :: "string \<Rightarrow> int \<times> nat" where
  "qflow_parse_uint arg =
     (let (v, rest) = strtoul10 arg in (if arg = [] \<or> rest \<noteq> [] then - 1 else 0, v))"

definition qflow_parse_long_opt :: "qflow_opts \<Rightarrow> string \<Rightarrow> string \<Rightarrow> int \<times> qflow_opts" where
  "qflow_parse_long_opt o1 name arg =
     (if name = ''policy'' then
        let o2 = o1\<lparr>o_aggressive := False, o_penalty := False\<rparr>
        in if arg = ''baseline'' then (1, o2)
           else if arg = ''aggressive'' then (1, o2\<lparr>o_aggressive := True\<rparr>)
           else if arg = ''penalty'' then (1, o2\<lparr>o_penalty := True\<rparr>)
           else if arg = ''aggressive+penalty'' then (1, o2\<lparr>o_aggressive := True, o_penalty := True\<rparr>)
           else (- 1, o2)
      else if name = ''penalty'' then
        let (r, v) = qflow_parse_uint arg
        in if r < 0 \<or> v = 0 then (- 1, o1) else (1, o1\<lparr>o_penalty_turns := v mod 2 ^ 32\<rparr>)
      else if name = ''latency-queue'' then
        let (r, v) = qflow_parse_uint arg
        in if r < 0 then (- 1, o1) else (1, o1\<lparr>o_latency := True, o_latency_queue := to_int32 v\<rparr>)
      else if name = ''latency-period'' then
        let (r, v) = qflow_parse_uint arg
        in if r < 0 \<or> v = 0 then (- 1, o1) else (1, o1\<lparr>o_latency_period := to_int32 v\<rparr>)
      else if name = ''multicore'' then
        if arg = ''partitioned'' then (1, o1\<lparr>o_mode := QFLOW_PARTITIONED\<rparr>)
        else if arg = ''shared'' then (1, o1\<lparr>o_mode := QFLOW_SHARED\<rparr>)
        else (- 1, o1)
      else (0, o1))"

definition qflow_check :: "qflow_opts \<Rightarrow> nat \<Rightarrow> nat \<Rightarrow> int" where
  "qflow_check opts queues nb_lcores =
     (if o_mode opts = QFLOW_SINGLE \<and> 1 < nb_lcores then - 1
      else if o_mode opts = QFLOW_PARTITIONED \<and> queues < nb_lcores then - 1
      else if o_latency opts \<and> int queues \<le> o_latency_queue opts mod 2 ^ 32 then - 1
      else 0)"

definition qflow_mode_name :: "qflow_mode \<Rightarrow> string" where
  "qflow_mode_name m =
     (case m of QFLOW_PARTITIONED \<Rightarrow> ''partitioned'' | QFLOW_SHARED \<Rightarrow> ''shared'' | _ \<Rightarrow> ''single'')"

text \<open>\<open>parse_queues\<close> of both programs, whose result is then stored in a \<open>uint16_t\<close>.\<close>

definition parse_queues :: "string \<Rightarrow> nat" where
  "parse_queues q_arg =
     (let (n, rest) = strtoul10 q_arg
      in if q_arg = [] \<or> rest \<noteq> [] then 0 else if n = 0 then 0 else n mod 2 ^ 32)"

subsection \<open>Decimal numerals\<close>

fun dec :: "nat \<Rightarrow> string" where
  "dec n = (if n < 10 then [char_of (48 + n)] else dec (n div 10) @ [char_of (48 + n mod 10)])"

declare dec.simps [simp del]

lemma digit_char: "n < 10 \<Longrightarrow> (of_char (char_of (48 + n) :: char) :: nat) = 48 + n"
  by (simp add: of_char_of)

lemma dec_digits: "c \<in> set (dec n) \<Longrightarrow> isdigit c"
proof (induction n rule: dec.induct)
  case (1 n)
  show ?case
  proof (cases "n < 10")
    case True
    then show ?thesis using 1 by (simp add: dec.simps [of n] isdigit_def digit_char)
  next
    case False
    then show ?thesis using 1 by (auto simp add: dec.simps [of n] isdigit_def digit_char)
  qed
qed

lemma digits_val_append: "digits_val (xs @ [c]) = 10 * digits_val xs + (of_char c - 48)"
  by (simp add: digits_val_def)

lemma digits_val_dec: "digits_val (dec n) = n"
proof (induction n rule: dec.induct)
  case (1 n)
  show ?case
  proof (cases "n < 10")
    case True
    then show ?thesis by (simp add: dec.simps [of n] digits_val_def digit_char)
  next
    case False
    then show ?thesis using 1 by (simp add: dec.simps [of n] digits_val_append digit_char)
  qed
qed

lemma dec_not_Nil: "dec n \<noteq> []"
  by (simp add: dec.simps [of n])

lemma isdigit_not_special: "isdigit c \<Longrightarrow> \<not> isspace c \<and> c \<noteq> CHR ''-'' \<and> c \<noteq> CHR ''+''"
  by (auto simp: isdigit_def isspace_def)

lemma strtoul10_dec:
  assumes "n < 2 ^ 64"
  shows "strtoul10 (dec n) = (n, [])"
proof -
  obtain c cs where d: "dec n = c # cs" using dec_not_Nil [of n] by (cases "dec n") auto
  then have c: "isdigit c" "\<not> isspace c" "c \<noteq> CHR ''-''" "c \<noteq> CHR ''+''"
    using dec_digits [of c n] isdigit_not_special by auto
  have all: "\<forall>x \<in> set (dec n). isdigit x" using dec_digits by blast
  then have tw: "takeWhile isdigit (dec n) = dec n" "dropWhile isdigit (dec n) = []"
    by (simp_all add: takeWhile_eq_all_conv dropWhile_eq_Nil_conv)
  have sp: "dropWhile isspace (dec n) = dec n" using c d by simp
  have "hd (dec n) = c" using d by simp
  then show ?thesis
    using assms c(3,4) dec_not_Nil [of n] tw digits_val_dec [of n]
    unfolding strtoul10_def Let_def sp by (simp del: takeWhile_eq_all_conv dropWhile_eq_Nil_conv)
qed

subsection \<open>Properties\<close>

text \<open>Numbers on the command line. The decimal numeral of any 64 bit number is accepted and parsed to that
  number, as a penalty, a latency period or a latency queue.\<close>

theorem qflow_parse_uint_decimal:
  assumes "n < 2 ^ 64"
  shows "qflow_parse_uint (dec n) = (0, n) \<and>
    (0 < n \<longrightarrow> n < 2 ^ 32 \<longrightarrow>
       qflow_parse_long_opt opts ''penalty'' (dec n) = (1, opts\<lparr>o_penalty_turns := n\<rparr>)) \<and>
    (0 < n \<longrightarrow> n < 2 ^ 31 \<longrightarrow>
       qflow_parse_long_opt opts ''latency-period'' (dec n) = (1, opts\<lparr>o_latency_period := int n\<rparr>)) \<and>
    (n < 2 ^ 31 \<longrightarrow> qflow_parse_long_opt opts ''latency-queue'' (dec n) =
       (1, opts\<lparr>o_latency := True, o_latency_queue := int n\<rparr>))"
proof -
  have p: "qflow_parse_uint (dec n) = (0, n)"
    using strtoul10_dec [OF assms] dec_not_Nil [of n] by (simp add: qflow_parse_uint_def)
  have "to_int32 n = int n" if "n < 2 ^ 31" using that by (simp add: to_int32_def Let_def)
  then show ?thesis using p by (simp add: qflow_parse_long_opt_def Let_def)
qed

theorem qflow_parse_uint_decimal_witness:
  "qflow_parse_uint ''42'' = (0, 42)"
proof -
  have "dec 42 = ''42''" by (simp add: dec.simps char_of_def bit_iff_odd)
  then show ?thesis using qflow_parse_uint_decimal [of 42 qflow_opts_init] by simp
qed

text \<open>The penalty is tested before it is cut to 32 bits: 4294967296 is accepted and stores zero turns,
  which turns the Penalty policy off.\<close>

theorem qflow_penalty_truncated:
  "qflow_parse_long_opt opts ''penalty'' ''4294967296'' = (1, opts\<lparr>o_penalty_turns := 0\<rparr>)"
proof -
  have "dec 4294967296 = ''4294967296''" by (simp add: dec.simps char_of_def bit_iff_odd)
  then have "qflow_parse_uint ''4294967296'' = (0, 4294967296)"
    using strtoul10_dec [of 4294967296] by (simp add: qflow_parse_uint_def)
  then show ?thesis by (simp add: qflow_parse_long_opt_def)
qed

text \<open>The final check accepts exactly the option sets the polling loop can run: one lcore without
  a multicore policy, at least one queue per lcore with Partitioned, an existing latency queue.\<close>

theorem qflow_check_accepts:
  assumes "queues < 2 ^ 31" "- (2 ^ 31) \<le> o_latency_queue opts" "o_latency_queue opts < 2 ^ 31"
  shows "qflow_check opts queues nb_lcores = 0 \<longleftrightarrow>
    (o_mode opts = QFLOW_SINGLE \<longrightarrow> nb_lcores \<le> 1) \<and>
    (o_mode opts = QFLOW_PARTITIONED \<longrightarrow> nb_lcores \<le> queues) \<and>
    (o_latency opts \<longrightarrow> 0 \<le> o_latency_queue opts \<and> o_latency_queue opts < int queues)"
proof -
  have "int queues \<le> o_latency_queue opts mod 2 ^ 32 \<longleftrightarrow>
    \<not> (0 \<le> o_latency_queue opts \<and> o_latency_queue opts < int queues)"
  proof (cases "0 \<le> o_latency_queue opts")
    case True
    then have "o_latency_queue opts mod 2 ^ 32 = o_latency_queue opts" using assms(3) by simp
    then show ?thesis using True by linarith
  next
    case False
    then have "(o_latency_queue opts + 2 ^ 32) mod 2 ^ 32 = o_latency_queue opts + 2 ^ 32"
      using assms(2) by (intro mod_pos_pos_trivial) simp_all
    then have "o_latency_queue opts mod 2 ^ 32 = o_latency_queue opts + 2 ^ 32" by simp
    then show ?thesis using False assms by simp
  qed
  then show ?thesis by (auto simp: qflow_check_def)
qed

theorem qflow_check_accepts_witness:
  "qflow_check (qflow_opts_init\<lparr>o_mode := QFLOW_SHARED, o_latency := True, o_latency_queue := 3\<rparr>) 8 4 = 0"
  using qflow_check_accepts [of 8 "qflow_opts_init\<lparr>o_mode := QFLOW_SHARED, o_latency := True, o_latency_queue := 3\<rparr>" 4]
  by (simp add: qflow_opts_init_def)

end
