(* ===== verification/C_Strings.thy ===== *)
theory C_Strings
  imports QFlow
begin

section \<open>Numbers and tokens in C strings\<close>

text \<open>
  What the parsers of rule files use of the C library. A string ends where the list ends, so the character at
  the end of a string is NUL. \<open>strtoul\<close> gives the value, the unparsed rest and whether \<^verbatim>\<open>errno\<close> was set;
  \<open>strtok\<close> the next token and the rest; \<open>num\<close> is what \<^verbatim>\<open>printf\<close> writes for a number.
\<close>

subsection \<open>Digits\<close>

definition NUL :: char where
  "NUL = CHR 0x00"

definition char_at :: "string \<Rightarrow> char" where
  "char_at s = (case s of [] \<Rightarrow> NUL | c # _ \<Rightarrow> c)"

definition digit_value :: "char \<Rightarrow> nat" where
  "digit_value c = (let n = of_char c :: nat in
     if 48 \<le> n \<and> n \<le> 57 then n - 48
     else if 97 \<le> n \<and> n \<le> 122 then n - 87
     else if 65 \<le> n \<and> n \<le> 90 then n - 55 else 99)"

definition digits :: "nat \<Rightarrow> string \<Rightarrow> nat" where
  "digits b ds = foldl (\<lambda>v c. b * v + digit_value c) 0 ds"

definition strtoul_base :: "nat \<Rightarrow> string \<Rightarrow> nat \<times> string" where
  "strtoul_base base u =
     (let hex = (2 \<le> length u \<and> u ! 0 = CHR ''0'' \<and> (u ! 1 = CHR ''x'' \<or> u ! 1 = CHR ''X'') \<and>
                 digit_value (char_at (drop 2 u)) < 16)
      in if (base = 0 \<or> base = 16) \<and> hex then (16, drop 2 u)
         else if base = 0 then (if char_at u = CHR ''0'' then 8 else 10, u)
         else (base, u))"

definition strtoul :: "nat \<Rightarrow> string \<Rightarrow> nat \<times> string \<times> bool" where
  "strtoul base s =
     (let t = dropWhile isspace s;
          neg = (char_at t = CHR ''-'');
          u = (if char_at t = CHR ''-'' \<or> char_at t = CHR ''+'' then tl t else t);
          (b, w) = strtoul_base base u;
          ds = takeWhile (\<lambda>c. digit_value c < b) w;
          v = digits b ds
      in if ds = [] then (0, s, False)
         else if 2 ^ 64 \<le> v then (2 ^ 64 - 1, dropWhile (\<lambda>c. digit_value c < b) w, True)
         else (if neg then (2 ^ 64 - v) mod 2 ^ 64 else v, dropWhile (\<lambda>c. digit_value c < b) w, False))"

subsection \<open>Printing\<close>

definition digit_char :: "nat \<Rightarrow> char" where
  "digit_char d = char_of (if d < 10 then 48 + d else 87 + d)"

fun num :: "nat \<Rightarrow> nat \<Rightarrow> string" where
  "num b n = (if n < b \<or> b < 2 then [digit_char n] else num b (n div b) @ [digit_char (n mod b)])"

declare num.simps [simp del]

lemma digit_value_char: "d < 36 \<Longrightarrow> digit_value (digit_char d) = d"
  by (auto simp: digit_value_def digit_char_def Let_def of_char_of)

lemma num_digits: "2 \<le> b \<Longrightarrow> b \<le> 36 \<Longrightarrow> c \<in> set (num b n) \<Longrightarrow> digit_value c < b"
proof (induction b n rule: num.induct)
  case (1 b n)
  show ?case
  proof (cases "n < b")
    case True
    then show ?thesis using 1 by (simp add: num.simps [of b n] digit_value_char)
  next
    case False
    have "n mod b < 36" using 1 mod_less_divisor [of b n] by linarith
    then show ?thesis using 1 False by (auto simp add: num.simps [of b n] digit_value_char)
  qed
qed

lemma digits_num: "2 \<le> b \<Longrightarrow> b \<le> 36 \<Longrightarrow> digits b (num b n) = n"
proof (induction b n rule: num.induct)
  case (1 b n)
  show ?case
  proof (cases "n < b")
    case True
    then show ?thesis using 1 by (simp add: num.simps [of b n] digits_def digit_value_char)
  next
    case False
    have "n mod b < 36" using 1 mod_less_divisor [of b n] by linarith
    then show ?thesis using 1 False by (simp add: num.simps [of b n] digits_def digit_value_char)
  qed
qed

lemma num_not_Nil [simp]: "num b n \<noteq> []"
  by (simp add: num.simps [of b n])

text \<open>The first digit of a positive number is not 0.\<close>

lemma num_first: "2 \<le> b \<Longrightarrow> b \<le> 36 \<Longrightarrow> 0 < n \<Longrightarrow> \<exists>d < b. 0 < d \<and> hd (num b n) = digit_char d"
proof (induction b n rule: num.induct)
  case (1 b n)
  show ?case
  proof (cases "n < b")
    case True
    then show ?thesis using 1 by (auto simp add: num.simps [of b n])
  next
    case False
    then have "0 < n div b" using 1 by (simp add: div_greater_zero_iff)
    then show ?thesis using 1 False by (auto simp add: num.simps [of b n])
  qed
qed

lemma digit_not_special:
  assumes "digit_value c < 36"
  shows "\<not> isspace c" "c \<noteq> CHR ''-''" "c \<noteq> CHR ''+''" "c \<noteq> NUL"
  using assms by (auto simp: digit_value_def isspace_def NUL_def Let_def split: if_splits)

lemma char_at_append [simp]: "xs \<noteq> [] \<Longrightarrow> char_at (xs @ ys) = hd xs"
  by (cases xs) (auto simp: char_at_def)

lemma char_at_simps [simp]: "char_at (c # cs) = c" "char_at [] = NUL"
  by (simp_all add: char_at_def)

subsection \<open>Reading back\<close>

lemma strtoul_digits:
  assumes u: "char_at u \<noteq> CHR ''-''" "char_at u \<noteq> CHR ''+''" "dropWhile isspace u = u"
    and b: "strtoul_base base u = (b, ds @ r)" "ds \<noteq> []" "\<forall>c \<in> set ds. digit_value c < b" and n: "digits b ds < 2 ^ 64"
    and r: "r = [] \<or> b \<le> digit_value (hd r)"
  shows "strtoul base u = (digits b ds, r, False)"
proof -
  have "takeWhile (\<lambda>c. digit_value c < b) r = []" "dropWhile (\<lambda>c. digit_value c < b) r = r"
    using r by (cases r; auto)+
  then have "takeWhile (\<lambda>c. digit_value c < b) (ds @ r) = ds"
    "dropWhile (\<lambda>c. digit_value c < b) (ds @ r) = r"
    using b(3) by (simp_all add: takeWhile_append2 dropWhile_append2)
  then show ?thesis using u b(1,2) n by (simp add: strtoul_def Let_def)
qed

lemma strtoul_num:
  assumes u: "char_at u \<noteq> CHR ''-''" "char_at u \<noteq> CHR ''+''" "dropWhile isspace u = u"
    and b: "strtoul_base base u = (b, num b n @ r)" "2 \<le> b" "b \<le> 36" and n: "n < 2 ^ 64"
    and r: "r = [] \<or> b \<le> digit_value (hd r)"
  shows "strtoul base u = (n, r, False)"
  using strtoul_digits [OF u b(1) num_not_Nil _ _ r] num_digits [OF b(2,3)] digits_num [OF b(2,3), of n] n by auto

text \<open>Decimal and hexadecimal numerals with the base left to \<open>strtoul\<close>, hexadecimal ones with base 16.\<close>

lemma num_first_char:
  assumes "2 \<le> b" "b \<le> 36"
  shows "\<exists>c cs. num b n = c # cs \<and> digit_value c < b \<and> (0 < n \<longrightarrow> c \<noteq> CHR ''0'') \<and> (n = 0 \<longrightarrow> cs = [] \<and> c = CHR ''0'')"
proof -
  obtain c cs where c: "num b n = c # cs" by (cases "num b n") auto
  have "c \<noteq> CHR ''0''" if n: "0 < n"
  proof
    assume z: "c = CHR ''0''"
    obtain d where d: "d < b" "0 < d" "hd (num b n) = digit_char d" using num_first [OF assms n] by blast
    then have "digit_value (CHR ''0'') = d" using c z digit_value_char [of d] assms by simp
    then show False using d by (simp add: digit_value_def)
  qed
  moreover have "cs = [] \<and> c = CHR ''0''" if "n = 0"
    using c that assms by (auto simp: num.simps [of b 0] digit_char_def char_of_def bit_iff_odd)
  ultimately show ?thesis using c num_digits [OF assms, of c n] by auto
qed

lemma strtoul_dec:
  assumes "n < 2 ^ 64" "r = [] \<or> 36 \<le> digit_value (hd r)"
  shows "strtoul 0 (num 10 n @ r) = (n, r, False)"
proof -
  obtain c cs where c: "num 10 n = c # cs" "digit_value c < 10" "0 < n \<longrightarrow> c \<noteq> CHR ''0''" "n = 0 \<longrightarrow> cs = [] \<and> c = CHR ''0''"
    using num_first_char [of 10 n] by auto
  note s = digit_not_special [of c]
  show ?thesis
  proof (cases "n = 0")
    case True
    have "r = [] \<or> hd r \<noteq> CHR ''x'' \<and> hd r \<noteq> CHR ''X''" using assms(2) by (auto simp: digit_value_def)
    then have "strtoul_base 0 (num 10 n @ r) = (8, num 8 n @ r)"
      using c(1,4) True by (cases r) (auto simp: strtoul_base_def Let_def num.simps [of 8 0] num.simps [of 10 0] digit_char_def)
    then show ?thesis using assms c(1,2) s by (intro strtoul_num [where b = 8]) auto
  next
    case False
    then have "strtoul_base 0 (num 10 n @ r) = (10, num 10 n @ r)"
      using c by (simp add: strtoul_base_def Let_def)
    then show ?thesis using assms c(1,2) s by (intro strtoul_num [where b = 10]) auto
  qed
qed

lemma strtoul_hex0:
  assumes "n < 2 ^ 64" "r = [] \<or> 36 \<le> digit_value (hd r)"
  shows "strtoul 0 (''0x'' @ num 16 n @ r) = (n, r, False)"
proof -
  obtain c cs where c: "num 16 n = c # cs" "digit_value c < 16" using num_first_char [of 16 n] by auto
  have "strtoul_base 0 (''0x'' @ num 16 n @ r) = (16, num 16 n @ r)"
    using c by (simp add: strtoul_base_def Let_def)
  then show ?thesis using assms by (intro strtoul_num [where b = 16]) (auto simp: isspace_def)
qed

text \<open>Two hexadecimal digits for a byte, as printed by the format \<^verbatim>\<open>%.2x\<close>.\<close>

definition hex2 :: "nat \<Rightarrow> string" where
  "hex2 x = [digit_char (x div 16), digit_char (x mod 16)]"

lemma strtoul_hex2:
  assumes "x < 256" "y < 256" "r = [] \<or> 36 \<le> digit_value (hd r)"
  shows "strtoul 16 (hex2 x @ hex2 y @ r) = (256 * x + y, r, False)"
proof -
  let ?ds = "hex2 x @ hex2 y"
  have d: "x div 16 < 16" using assms(1) by (simp add: less_mult_imp_div_less)
  have e: "y div 16 < 16" using assms(2) by (simp add: less_mult_imp_div_less)
  have dg: "\<forall>c \<in> set ?ds. digit_value c < 16" using d e by (simp add: hex2_def digit_value_char)
  have "16 * (16 * (16 * (x div 16) + x mod 16) + y div 16) + y mod 16 = 256 * x + y" by simp
  then have v: "digits 16 ?ds = 256 * x + y" using d e by (simp add: hex2_def digits_def digit_value_char)
  have c: "char_at (?ds @ r) = digit_char (x div 16)" "dropWhile isspace (?ds @ r) = ?ds @ r"
    using digit_not_special [of "digit_char (x div 16)"] d by (simp_all add: hex2_def digit_value_char)
  have "digit_value (digit_char (x mod 16)) = x mod 16" "x mod 16 < 16" by (simp_all add: digit_value_char less_trans [of _ 16])
  then have "digit_char (x mod 16) \<noteq> CHR ''x''" "digit_char (x mod 16) \<noteq> CHR ''X''"
    by (auto simp: digit_value_def)
  then have "strtoul_base 16 (?ds @ r) = (16, ?ds @ r)" by (simp add: strtoul_base_def hex2_def Let_def)
  from strtoul_digits [OF _ _ c(2) this _ dg] show ?thesis
    using digit_not_special [of "digit_char (x div 16)"] d c(1) v assms by (auto simp: hex2_def digit_value_char)
qed

subsection \<open>Tokens\<close>

definition strtok :: "string \<Rightarrow> string \<Rightarrow> (string \<times> string) option" where
  "strtok dlm s =
     (let t = dropWhile (\<lambda>c. c \<in> set dlm) s
      in if t = [] then None
         else Some (takeWhile (\<lambda>c. c \<notin> set dlm) t, tl (dropWhile (\<lambda>c. c \<notin> set dlm) t)))"

lemma strtok_word:
  assumes "w \<noteq> []" "\<forall>c \<in> set w. c \<notin> set dlm" "d \<in> set dlm"
  shows "strtok dlm (w @ d # r) = Some (w, r)"
proof -
  have "dropWhile (\<lambda>c. c \<in> set dlm) (w @ d # r) = w @ d # r" using assms by (cases w) auto
  moreover have "takeWhile (\<lambda>c. c \<notin> set dlm) (w @ d # r) = w" "dropWhile (\<lambda>c. c \<notin> set dlm) (w @ d # r) = d # r"
    using assms by (simp_all add: takeWhile_append2 dropWhile_append2)
  ultimately show ?thesis using assms(1) by (simp add: strtok_def)
qed

end
