(* ===== verification/Acl_Rules.thy ===== *)
theory Acl_Rules
  imports C_Strings
begin

section \<open>Access control rules: parsing and printing\<close>

text \<open>
  The parsers and printers of single rules of \<^verbatim>\<open>nf-chain/src/main.c\<close>. A rule is a DPDK \<^verbatim>\<open>rte_acl_rule\<close>: the
  user data and an array of fields with a value and a mask or upper bound; a field is written whole, since the
  limits of \<open>GET_CB_FIELD\<close> are those of its type. An error (\<^verbatim>\<open>-EINVAL\<close>) is \<open>None\<close>. \<open>RTE_IPV4\<close> of DPDK is the
  argument \<open>rte_ipv4\<close>. Printers return what they print.
\<close>

subsection \<open>The code\<close>

record acl_field =
  fvalue :: nat
  fmask :: nat

record acl_rule =
  category_mask :: nat
  priority :: int
  userdata :: nat
  field :: "acl_field list"

definition set_field :: "acl_rule \<Rightarrow> nat \<Rightarrow> nat \<Rightarrow> nat \<Rightarrow> acl_rule" where
  "set_field v k x m = v\<lparr>field := (field v)[k := \<lparr>fvalue = x, fmask = m\<rparr>]\<rparr>"

definition GET_CB_FIELD :: "string \<Rightarrow> nat \<Rightarrow> nat \<Rightarrow> char \<Rightarrow> (nat \<times> string) option" where
  "GET_CB_FIELD inp base lim dlm =
     (let (val, rest, err) = strtoul base inp
      in if err \<or> char_at rest \<noteq> dlm \<or> lim < val then None else Some (val, tl rest))"

definition parse_ipv4_net :: "(nat \<Rightarrow> nat \<Rightarrow> nat \<Rightarrow> nat \<Rightarrow> nat) \<Rightarrow> string \<Rightarrow> (nat \<times> nat) option" where
  "parse_ipv4_net rte_ipv4 inp = do {
     (a, inp) \<leftarrow> GET_CB_FIELD inp 0 255 CHR ''.'';
     (b, inp) \<leftarrow> GET_CB_FIELD inp 0 255 CHR ''.'';
     (c, inp) \<leftarrow> GET_CB_FIELD inp 0 255 CHR ''.'';
     (d, inp) \<leftarrow> GET_CB_FIELD inp 0 255 CHR ''/'';
     (m, inp) \<leftarrow> GET_CB_FIELD inp 0 32 NUL;
     Some (rte_ipv4 a b c d, m)
   }"

definition PROTO_FIELD_IPV4 :: nat where [simp]: "PROTO_FIELD_IPV4 = 0"
definition SRC_FIELD_IPV4 :: nat where [simp]: "SRC_FIELD_IPV4 = 1"
definition DST_FIELD_IPV4 :: nat where [simp]: "DST_FIELD_IPV4 = 2"
definition SRCP_FIELD_IPV4 :: nat where [simp]: "SRCP_FIELD_IPV4 = 3"
definition DSTP_FIELD_IPV4 :: nat where [simp]: "DSTP_FIELD_IPV4 = 4"

definition CB_FLD_USERDATA :: nat where [simp]: "CB_FLD_USERDATA = 9"
definition CB_FLD_NUM :: nat where [simp]: "CB_FLD_NUM = 10"

text \<open>The loop over \<open>strtok_r\<close>.\<close>

fun cb_tokens :: "nat \<Rightarrow> string \<Rightarrow> string list option" where
  "cb_tokens 0 s = Some []"
| "cb_tokens (Suc n) s = do {
     (w, s) \<leftarrow> strtok [CHR '' '', CHR 0x09, CHR 0x0A] s;
     ws \<leftarrow> cb_tokens n s;
     Some (w # ws)
   }"

text \<open>The parts common to both parsers: the ports; then the protocol and the user data. The fields have the
  indices \<open>sp\<close>, \<open>dp\<close> and \<open>pr\<close>.\<close>

definition parse_cb_ports :: "string list \<Rightarrow> (nat \<times> nat \<times> nat \<times> nat) option" where
  "parse_cb_ports ins = do {
     (splow, _) \<leftarrow> GET_CB_FIELD (ins ! 2) 0 65535 NUL;
     (sphigh, _) \<leftarrow> GET_CB_FIELD (ins ! 4) 0 65535 NUL;
     if ins ! 3 \<noteq> '':'' then None else do {
     (dplow, _) \<leftarrow> GET_CB_FIELD (ins ! 5) 0 65535 NUL;
     (dphigh, _) \<leftarrow> GET_CB_FIELD (ins ! 7) 0 65535 NUL;
     if ins ! 6 \<noteq> '':'' then None
     else if sphigh < splow \<or> dphigh < dplow then None
     else Some (splow, sphigh, dplow, dphigh)
   }}"

definition parse_cb_proto :: "string list \<Rightarrow> (nat \<times> nat) option" where
  "parse_cb_proto ins = do {
     (proto, rest) \<leftarrow> GET_CB_FIELD (ins ! 8) 0 255 CHR ''/'';
     (pmask, _) \<leftarrow> GET_CB_FIELD rest 0 255 NUL;
     Some (proto, pmask)
   }"

definition parse_cb_tail ::
  "nat \<Rightarrow> nat \<Rightarrow> nat \<Rightarrow> string list \<Rightarrow> acl_rule \<Rightarrow> bool \<Rightarrow> acl_rule option" where
  "parse_cb_tail sp dp pr ins v has_userdata = do {
     (splow, sphigh, dplow, dphigh) \<leftarrow> parse_cb_ports ins;
     (proto, pmask) \<leftarrow> parse_cb_proto ins;
     let v = set_field (set_field (set_field v sp splow sphigh) dp dplow dphigh) pr proto pmask;
     if has_userdata then do {
       (ud, _) \<leftarrow> GET_CB_FIELD (ins ! 9) 0 4294967295 NUL;
       Some (v\<lparr>userdata := ud\<rparr>)
     } else Some v
   }"

definition parse_cb_ipv4vlan_rule ::
  "(nat \<Rightarrow> nat \<Rightarrow> nat \<Rightarrow> nat \<Rightarrow> nat) \<Rightarrow> string \<Rightarrow> acl_rule \<Rightarrow> bool \<Rightarrow> acl_rule option" where
  "parse_cb_ipv4vlan_rule rte_ipv4 str v has_userdata = do {
     ins \<leftarrow> cb_tokens (if has_userdata then CB_FLD_NUM else CB_FLD_USERDATA) str;
     (saddr, smask) \<leftarrow> parse_ipv4_net rte_ipv4 (ins ! 0);
     (daddr, dmask) \<leftarrow> parse_ipv4_net rte_ipv4 (ins ! 1);
     parse_cb_tail SRCP_FIELD_IPV4 DSTP_FIELD_IPV4 PROTO_FIELD_IPV4 ins
       (set_field (set_field v SRC_FIELD_IPV4 saddr smask) DST_FIELD_IPV4 daddr dmask) has_userdata
   }"

definition parse_ipv6_addr :: "string \<Rightarrow> char \<Rightarrow> (string \<times> nat list) option" where
  "parse_ipv6_addr inp dlm = do {
     (a0, inp) \<leftarrow> GET_CB_FIELD inp 16 65535 CHR '':'';
     (a1, inp) \<leftarrow> GET_CB_FIELD inp 16 65535 CHR '':'';
     (a2, inp) \<leftarrow> GET_CB_FIELD inp 16 65535 CHR '':'';
     (a3, inp) \<leftarrow> GET_CB_FIELD inp 16 65535 CHR '':'';
     (a4, inp) \<leftarrow> GET_CB_FIELD inp 16 65535 CHR '':'';
     (a5, inp) \<leftarrow> GET_CB_FIELD inp 16 65535 CHR '':'';
     (a6, inp) \<leftarrow> GET_CB_FIELD inp 16 65535 CHR '':'';
     (a7, inp) \<leftarrow> GET_CB_FIELD inp 16 65535 dlm;
     Some (inp, [u32 (a0 * 2 ^ 16 + a1), u32 (a2 * 2 ^ 16 + a3), u32 (a4 * 2 ^ 16 + a5), u32 (a6 * 2 ^ 16 + a7)])
   }"

text \<open>\<open>field\<close> of the source is the field with index \<open>k\<close>.\<close>

definition ipv6_word_mask :: "nat \<Rightarrow> nat \<Rightarrow> nat" where
  "ipv6_word_mask m i = (if (i + 1) * 32 \<le> m then 32 else if i * 32 < m then m - i * 32 else 0)"

definition parse_ipv6_net :: "string \<Rightarrow> nat \<Rightarrow> acl_rule \<Rightarrow> acl_rule option" where
  "parse_ipv6_net inp k r = do {
     (mp, v) \<leftarrow> parse_ipv6_addr inp CHR ''/'';
     (m, mp) \<leftarrow> GET_CB_FIELD mp 0 128 NUL;
     Some (foldl (\<lambda>r i. set_field r (k + i) (v ! i) (ipv6_word_mask m i)) r [0..<4])
   }"

definition PROTO_FIELD_IPV6 :: nat where [simp]: "PROTO_FIELD_IPV6 = 0"
definition SRC1_FIELD_IPV6 :: nat where [simp]: "SRC1_FIELD_IPV6 = 1"
definition DST1_FIELD_IPV6 :: nat where [simp]: "DST1_FIELD_IPV6 = 5"
definition SRCP_FIELD_IPV6 :: nat where [simp]: "SRCP_FIELD_IPV6 = 9"
definition DSTP_FIELD_IPV6 :: nat where [simp]: "DSTP_FIELD_IPV6 = 10"

definition parse_cb_ipv6_rule :: "string \<Rightarrow> acl_rule \<Rightarrow> bool \<Rightarrow> acl_rule option" where
  "parse_cb_ipv6_rule str v has_userdata = do {
     ins \<leftarrow> cb_tokens (if has_userdata then CB_FLD_NUM else CB_FLD_USERDATA) str;
     v \<leftarrow> parse_ipv6_net (ins ! 0) SRC1_FIELD_IPV6 v;
     v \<leftarrow> parse_ipv6_net (ins ! 1) DST1_FIELD_IPV6 v;
     parse_cb_tail SRCP_FIELD_IPV6 DSTP_FIELD_IPV6 PROTO_FIELD_IPV6 ins v has_userdata
   }"

subsection \<open>The printers\<close>

definition uint32_t_to_char :: "nat \<Rightarrow> nat \<times> nat \<times> nat \<times> nat" where
  "uint32_t_to_char ip = (ip div 2 ^ 24 mod 256, ip div 2 ^ 16 mod 256, ip div 2 ^ 8 mod 256, ip mod 256)"

definition print_ipv4_net :: "acl_field \<Rightarrow> string" where
  "print_ipv4_net f = (let (a, b, c, d) = uint32_t_to_char (fvalue f)
     in num 10 a @ ''.'' @ num 10 b @ ''.'' @ num 10 c @ ''.'' @ num 10 d @ ''/'' @ num 10 (fmask f) @ '' '')"

definition print_tail :: "acl_field \<Rightarrow> acl_field \<Rightarrow> acl_field \<Rightarrow> string" where
  "print_tail s d p = num 10 (fvalue s mod 65536) @ '' : '' @ num 10 (fmask s mod 65536) @ '' '' @
     num 10 (fvalue d mod 65536) @ '' : '' @ num 10 (fmask d mod 65536) @ '' 0x'' @
     num 16 (fvalue p mod 256) @ ''/0x'' @ num 16 (fmask p mod 256) @ '' ''"

definition print_extra :: "acl_rule \<Rightarrow> string" where
  "print_extra rule = ''0x'' @ num 16 (category_mask rule) @ ''-0x'' @ num 16 (nat (priority rule mod 2 ^ 32)) @
     ''-0x'' @ num 16 (userdata rule) @ '' ''"

definition print_one_ipv4_rule :: "acl_rule \<Rightarrow> bool \<Rightarrow> string" where
  "print_one_ipv4_rule rule extra =
     print_ipv4_net (field rule ! SRC_FIELD_IPV4) @ print_ipv4_net (field rule ! DST_FIELD_IPV4) @
     print_tail (field rule ! SRCP_FIELD_IPV4) (field rule ! DSTP_FIELD_IPV4) (field rule ! PROTO_FIELD_IPV4) @
     (if extra then print_extra rule else '''')"

definition print_ipv6_word :: "acl_field \<Rightarrow> string" where
  "print_ipv6_word f = (let (a, b, c, d) = uint32_t_to_char (fvalue f) in hex2 a @ hex2 b @ '':'' @ hex2 c @ hex2 d)"

definition print_ipv6_net :: "acl_rule \<Rightarrow> nat \<Rightarrow> string" where
  "print_ipv6_net rule k =
     print_ipv6_word (field rule ! k) @ '':'' @ print_ipv6_word (field rule ! (k + 1)) @ '':'' @
     print_ipv6_word (field rule ! (k + 2)) @ '':'' @ print_ipv6_word (field rule ! (k + 3)) @ ''/'' @
     num 10 (u32 (fmask (field rule ! k) + fmask (field rule ! (k + 1)) + fmask (field rule ! (k + 2)) + fmask (field rule ! (k + 3)))) @ '' ''"

definition print_one_ipv6_rule :: "acl_rule \<Rightarrow> bool \<Rightarrow> string" where
  "print_one_ipv6_rule rule extra =
     print_ipv6_net rule SRC1_FIELD_IPV6 @ print_ipv6_net rule DST1_FIELD_IPV6 @
     print_tail (field rule ! SRCP_FIELD_IPV6) (field rule ! DSTP_FIELD_IPV6) (field rule ! PROTO_FIELD_IPV6) @
     (if extra then print_extra rule else '''')"

subsection \<open>Fields\<close>

lemma GET_CB_FIELD_limit: "GET_CB_FIELD s b lim dlm = Some (x, r) \<Longrightarrow> x \<le> lim"
  by (auto simp: GET_CB_FIELD_def Let_def split: prod.splits if_splits)

lemma delimiters [simp]:
  "digit_value (CHR ''.'') = 99" "digit_value (CHR ''/'') = 99" "digit_value (CHR '':'') = 99" "digit_value NUL = 99"
  by (simp_all add: digit_value_def NUL_def)

lemma cb_dec:
  assumes "n \<le> lim" "lim < 2 ^ 64"
  shows "36 \<le> digit_value dlm \<Longrightarrow> GET_CB_FIELD (num 10 n @ dlm # r) 0 lim dlm = Some (n, r)"
    "GET_CB_FIELD (num 10 n) 0 lim NUL = Some (n, [])"
  using assms strtoul_dec [of n "dlm # r"] strtoul_dec [of n "[]"] by (simp_all add: GET_CB_FIELD_def)

lemma cb_hex:
  assumes "n \<le> lim" "lim < 2 ^ 64"
  shows "36 \<le> digit_value dlm \<Longrightarrow> GET_CB_FIELD (''0x'' @ num 16 n @ dlm # r) 0 lim dlm = Some (n, r)"
    "GET_CB_FIELD (''0x'' @ num 16 n) 0 lim NUL = Some (n, [])"
  using assms strtoul_hex0 [of n "dlm # r"] strtoul_hex0 [of n "[]"] by (simp_all add: GET_CB_FIELD_def)

lemma cb_hex2:
  assumes "x < 256" "y < 256" "36 \<le> digit_value dlm"
  shows "GET_CB_FIELD (hex2 x @ hex2 y @ dlm # r) 16 65535 dlm = Some (256 * x + y, r)"
  using strtoul_hex2 [of x y "dlm # r"] assms by (simp add: GET_CB_FIELD_def)

text \<open>Four bytes of an address.\<close>

definition be32 :: "(nat \<Rightarrow> nat \<Rightarrow> nat \<Rightarrow> nat \<Rightarrow> nat) \<Rightarrow> bool" where
  "be32 rte_ipv4 \<longleftrightarrow> (\<forall>a < 256. \<forall>b < 256. \<forall>c < 256. \<forall>d < 256.
     rte_ipv4 a b c d = a * 2 ^ 24 + b * 2 ^ 16 + c * 2 ^ 8 + d)"

lemma char_bytes:
  assumes "ip < 2 ^ 32" "uint32_t_to_char ip = (a, b, c, d)"
  shows "a < 256" "b < 256" "c < 256" "d < 256" "a * 2 ^ 24 + b * 2 ^ 16 + c * 2 ^ 8 + d = ip"
proof -
  have v: "a = ip div 2 ^ 24 mod 256" "b = ip div 2 ^ 16 mod 256" "c = ip div 2 ^ 8 mod 256" "d = ip mod 256"
    using assms(2) by (auto simp: uint32_t_to_char_def)
  then show "a < 256" "b < 256" "c < 256" "d < 256" by simp_all
  have "ip div 2 ^ 24 < 256" using assms(1) by (simp add: less_mult_imp_div_less)
  then have "a = ip div 2 ^ 8 div 256 div 256" using v(1) by (simp flip: div_mult2_eq)
  moreover have "b = ip div 2 ^ 8 div 256 mod 256" using v(2) by (simp flip: div_mult2_eq)
  ultimately have "a * 256 + b = ip div 2 ^ 8 div 256" by simp
  then have "(a * 256 + b) * 256 + c = ip div 2 ^ 8" using v(3) by simp
  then have "((a * 256 + b) * 256 + c) * 256 + d = ip" using v(4) by simp
  then show "a * 2 ^ 24 + b * 2 ^ 16 + c * 2 ^ 8 + d = ip" by simp
qed

definition ipv4_word :: "acl_field \<Rightarrow> string" where
  "ipv4_word f = (let (a, b, c, d) = uint32_t_to_char (fvalue f)
     in num 10 a @ CHR ''.'' # num 10 b @ CHR ''.'' # num 10 c @ CHR ''.'' # num 10 d @ CHR ''/'' # num 10 (fmask f))"

lemma parse_ipv4_word:
  assumes "be32 rte" "fvalue f < 2 ^ 32" "fmask f \<le> 32"
  shows "parse_ipv4_net rte (ipv4_word f) = Some (fvalue f, fmask f)"
proof -
  obtain a b c d where u: "uint32_t_to_char (fvalue f) = (a, b, c, d)" by (cases "uint32_t_to_char (fvalue f)")
  note v = char_bytes [OF assms(2) u]
  have "rte a b c d = fvalue f" using assms(1) v unfolding be32_def by metis
  then show ?thesis using v(1-4) assms(3) by (simp add: parse_ipv4_net_def ipv4_word_def u cb_dec)
qed

lemma parse_ipv4_net_type:
  assumes "be32 rte" "parse_ipv4_net rte s = Some (x, m)"
  shows "x < 2 ^ 32" "m \<le> 32"
proof -
  obtain a b c d s1 s2 s3 s4 s5 where g: "GET_CB_FIELD s 0 255 CHR ''.'' = Some (a, s1)" "GET_CB_FIELD s1 0 255 CHR ''.'' = Some (b, s2)"
    "GET_CB_FIELD s2 0 255 CHR ''.'' = Some (c, s3)" "GET_CB_FIELD s3 0 255 CHR ''/'' = Some (d, s4)"
    "GET_CB_FIELD s4 0 32 NUL = Some (m, s5)" "x = rte a b c d"
    using assms(2) by (auto simp: parse_ipv4_net_def bind_eq_Some_conv)
  note l = g(1-5) [THEN GET_CB_FIELD_limit]
  show "m \<le> 32" by (rule l(5))
  have "x = a * 2 ^ 24 + b * 2 ^ 16 + c * 2 ^ 8 + d" using assms(1) g(6) l unfolding be32_def by simp
  then show "x < 2 ^ 32" using l by simp
qed

subsection \<open>Tokens of a printed rule\<close>

definition word :: "string \<Rightarrow> bool" where
  "word w \<longleftrightarrow> w \<noteq> [] \<and> (\<forall>c \<in> set w. c \<notin> {CHR '' '', CHR 0x09, CHR 0x0A})"

lemma word_char: "digit_value c < 36 \<Longrightarrow> c \<notin> {CHR '' '', CHR 0x09, CHR 0x0A}"
  by (auto simp: digit_value_def)

lemma word_num [simp]: "word (num 10 n)" "word (num 16 n)"
proof -
  have "word (num b n)" if "2 \<le> b" "b \<le> 36" for b
  proof -
    have "c \<notin> {CHR '' '', CHR 0x09, CHR 0x0A}" if "c \<in> set (num b n)" for c
    proof (rule word_char)
      show "digit_value c < 36" using num_digits [of b c n] that \<open>2 \<le> b\<close> \<open>b \<le> 36\<close> by simp
    qed
    then show ?thesis by (auto simp: word_def)
  qed
  then show "word (num 10 n)" "word (num 16 n)" by simp_all
qed

lemma word_hex2: "x < 256 \<Longrightarrow> word (hex2 x)"
proof -
  assume "x < 256"
  then have "digit_value (digit_char (x div 16)) < 36" "digit_value (digit_char (x mod 16)) < 36"
    by (simp_all add: digit_value_char less_mult_imp_div_less less_trans [of _ 16])
  from this [THEN word_char] show ?thesis by (simp add: word_def hex2_def)
qed

lemma word_append: "word xs \<Longrightarrow> word ys \<Longrightarrow> word (xs @ ys)"
  by (auto simp: word_def)

lemma word_Cons: "c \<notin> {CHR '' '', CHR 0x09, CHR 0x0A} \<Longrightarrow> word ys \<Longrightarrow> word (c # ys)"
  by (auto simp: word_def)

lemma word_ipv4: "word (ipv4_word f)"
  by (auto simp: ipv4_word_def intro!: word_append word_Cons split: prod.splits)

lemma cb_tokens_word:
  assumes "word w" "cb_tokens n r = Some ws"
  shows "cb_tokens (Suc n) (w @ CHR '' '' # r) = Some (w # ws)"
proof -
  have "strtok [CHR '' '', CHR 0x09, CHR 0x0A] (w @ CHR '' '' # r) = Some (w, r)"
    by (rule strtok_word) (use assms(1) in \<open>auto simp: word_def\<close>)
  then show ?thesis using assms(2) by simp
qed

subsection \<open>Well-formed rules\<close>

definition ports_ok :: "acl_field \<Rightarrow> bool" where
  "ports_ok f \<longleftrightarrow> fvalue f \<le> fmask f \<and> fmask f \<le> 65535"

definition proto_ok :: "acl_field \<Rightarrow> bool" where
  "proto_ok f \<longleftrightarrow> fvalue f \<le> 255 \<and> fmask f \<le> 255"

definition rule4_wf :: "acl_rule \<Rightarrow> bool" where
  "rule4_wf r \<longleftrightarrow> length (field r) = 5 \<and> proto_ok (field r ! PROTO_FIELD_IPV4) \<and>
     (\<forall>k \<in> {SRC_FIELD_IPV4, DST_FIELD_IPV4}. fvalue (field r ! k) < 2 ^ 32 \<and> fmask (field r ! k) \<le> 32) \<and>
     ports_ok (field r ! SRCP_FIELD_IPV4) \<and> ports_ok (field r ! DSTP_FIELD_IPV4) \<and> userdata r < 2 ^ 32"

text \<open>The masks of the four words of an address are those of one prefix.\<close>

definition rule6_wf :: "acl_rule \<Rightarrow> bool" where
  "rule6_wf r \<longleftrightarrow> length (field r) = 11 \<and> proto_ok (field r ! PROTO_FIELD_IPV6) \<and>
     (\<forall>k \<in> {SRC1_FIELD_IPV6, DST1_FIELD_IPV6}. \<exists>m \<le> 128. \<forall>i < 4.
        fvalue (field r ! (k + i)) < 2 ^ 32 \<and> fmask (field r ! (k + i)) = ipv6_word_mask m i) \<and>
     ports_ok (field r ! SRCP_FIELD_IPV6) \<and> ports_ok (field r ! DSTP_FIELD_IPV6) \<and> userdata r < 2 ^ 32"

lemma parse_cb_ports_type:
  assumes "parse_cb_ports ins = Some (s1, s2, d1, d2)"
  shows "s1 \<le> s2" "s2 \<le> 65535" "d1 \<le> d2" "d2 \<le> 65535"
  using assms
  by (auto simp: parse_cb_ports_def bind_eq_Some_conv dest: GET_CB_FIELD_limit split: if_splits)

lemma parse_cb_proto_type:
  assumes "parse_cb_proto ins = Some (p, m)"
  shows "p \<le> 255" "m \<le> 255"
  using assms by (auto simp: parse_cb_proto_def bind_eq_Some_conv dest: GET_CB_FIELD_limit)

lemma parse_cb_tail_cases:
  assumes "parse_cb_tail sp dp pr ins v ud = Some r"
  obtains s1 s2 d1 d2 p m u where "s1 \<le> s2" "s2 \<le> 65535" "d1 \<le> d2" "d2 \<le> 65535" "p \<le> 255" "m \<le> 255" "u < 2 ^ 32"
    "r = (set_field (set_field (set_field v sp s1 s2) dp d1 d2) pr p m)\<lparr>userdata := if ud then u else userdata v\<rparr>"
proof -
  obtain s1 s2 d1 d2 where g: "parse_cb_ports ins = Some (s1, s2, d1, d2)"
    using assms by (cases "parse_cb_ports ins") (auto simp: parse_cb_tail_def)
  obtain p m where h: "parse_cb_proto ins = Some (p, m)"
    using assms g by (cases "parse_cb_proto ins") (auto simp: parse_cb_tail_def)
  let ?v = "set_field (set_field (set_field v sp s1 s2) dp d1 d2) pr p m"
  have "\<exists>u < 2 ^ 32. r = ?v\<lparr>userdata := if ud then u else userdata v\<rparr>"
  proof (cases ud)
    case True
    then obtain x t7 where x: "GET_CB_FIELD (ins ! 9) 0 4294967295 NUL = Some (x, t7)" "r = ?v\<lparr>userdata := x\<rparr>"
      using assms g h by (auto simp: parse_cb_tail_def bind_eq_Some_conv)
    then show ?thesis using True GET_CB_FIELD_limit [OF x(1)] by (intro exI [of _ x]) auto
  next
    case False
    then show ?thesis using assms g h by (intro exI [of _ 0]) (auto simp: parse_cb_tail_def set_field_def)
  qed
  then obtain u where u: "u < 2 ^ 32" "r = ?v\<lparr>userdata := if ud then u else userdata v\<rparr>" by blast
  show ?thesis by (rule that [OF parse_cb_ports_type [OF g] parse_cb_proto_type [OF h] u])
qed

lemma set_field_simps [simp]:
  "field (set_field v k x m) = (field v)[k := \<lparr>fvalue = x, fmask = m\<rparr>]" "userdata (set_field v k x m) = userdata v"
  by (simp_all add: set_field_def)

lemma parse_rule4_wf:
  assumes "be32 rte" "length (field v) = 5" "userdata v < 2 ^ 32" "parse_cb_ipv4vlan_rule rte str v ud = Some r"
  shows "rule4_wf r"
proof -
  obtain ins sa sm da dm where p: "parse_ipv4_net rte (ins ! 0) = Some (sa, sm)" "parse_ipv4_net rte (ins ! 1) = Some (da, dm)"
    "parse_cb_tail 3 4 0 ins (set_field (set_field v 1 sa sm) 2 da dm) ud = Some r"
    using assms(4) by (auto simp: parse_cb_ipv4vlan_rule_def bind_eq_Some_conv)
  note t = parse_ipv4_net_type [OF assms(1) p(1)] parse_ipv4_net_type [OF assms(1) p(2)]
  from p(3) show ?thesis
    by (rule parse_cb_tail_cases) (use t assms(2,3) in \<open>simp add: rule4_wf_def proto_ok_def ports_ok_def nth_list_update\<close>)
qed

lemma parse_ipv6_addr_type:
  assumes "parse_ipv6_addr s dlm = Some (t, v)"
  shows "length v = 4" "i < 4 \<Longrightarrow> v ! i < 2 ^ 32"
proof -
  obtain a b c d where v: "v = [u32 a, u32 b, u32 c, u32 d]"
    using assms by (auto simp: parse_ipv6_addr_def bind_eq_Some_conv)
  then show "length v = 4" by simp
  assume "i < 4"
  then have "i = 0 \<or> i = 1 \<or> i = 2 \<or> i = 3" by auto
  then show "v ! i < 2 ^ 32" using v by (auto simp: u32_def)
qed

lemma ipv6_words:
  "foldl (\<lambda>r i. set_field r (k + i) (x i) (y i)) r [0..<4] =
     set_field (set_field (set_field (set_field r k (x 0) (y 0)) (k + 1) (x 1) (y 1)) (k + 2) (x 2) (y 2)) (k + 3) (x 3) (y 3)"
  by (simp add: upt_rec numeral_2_eq_2 numeral_3_eq_3)

lemma parse_ipv6_net_cases:
  assumes "parse_ipv6_net s k r = Some r'"
  obtains x :: "nat \<Rightarrow> nat" and m where "m \<le> 128" "\<forall>i < 4. x i < 2 ^ 32"
    "r' = set_field (set_field (set_field (set_field r k (x 0) (ipv6_word_mask m 0)) (k + 1) (x 1) (ipv6_word_mask m 1))
       (k + 2) (x 2) (ipv6_word_mask m 2)) (k + 3) (x 3) (ipv6_word_mask m 3)"
proof -
  obtain mp v m t where p: "parse_ipv6_addr s CHR ''/'' = Some (mp, v)" "GET_CB_FIELD mp 0 128 NUL = Some (m, t)"
    "r' = foldl (\<lambda>r i. set_field r (k + i) (v ! i) (ipv6_word_mask m i)) r [0..<4]"
    using assms by (auto simp: parse_ipv6_net_def bind_eq_Some_conv)
  show ?thesis
    using that [of m "\<lambda>i. v ! i"] GET_CB_FIELD_limit [OF p(2)] parse_ipv6_addr_type(2) [OF p(1)] p(3)
    by (simp only: ipv6_words) blast
qed

lemma parse_rule6_wf:
  assumes "length (field v) = 11" "userdata v < 2 ^ 32" "parse_cb_ipv6_rule str v ud = Some r"
  shows "rule6_wf r"
proof -
  obtain ins v1 v2 where p: "parse_ipv6_net (ins ! 0) 1 v = Some v1" "parse_ipv6_net (ins ! 1) 5 v1 = Some v2"
    "parse_cb_tail 9 10 0 ins v2 ud = Some r"
    using assms(3) by (auto simp: parse_cb_ipv6_rule_def bind_eq_Some_conv)
  obtain x :: "nat \<Rightarrow> nat" and m where x: "m \<le> 128" "\<forall>i < 4. x i < 2 ^ 32"
    "v1 = set_field (set_field (set_field (set_field v 1 (x 0) (ipv6_word_mask m 0)) (1 + 1) (x 1) (ipv6_word_mask m 1))
       (1 + 2) (x 2) (ipv6_word_mask m 2)) (1 + 3) (x 3) (ipv6_word_mask m 3)"
    using p(1) by (rule parse_ipv6_net_cases)
  obtain y :: "nat \<Rightarrow> nat" and n where y: "n \<le> 128" "\<forall>i < 4. y i < 2 ^ 32"
    "v2 = set_field (set_field (set_field (set_field v1 5 (y 0) (ipv6_word_mask n 0)) (5 + 1) (y 1) (ipv6_word_mask n 1))
       (5 + 2) (y 2) (ipv6_word_mask n 2)) (5 + 3) (y 3) (ipv6_word_mask n 3)"
    using p(2) by (rule parse_ipv6_net_cases)
  have four: "(\<forall>i < 4 :: nat. P i) \<longleftrightarrow> P 0 \<and> P 1 \<and> P 2 \<and> P 3" for P
    by (auto simp: less_Suc_eq numeral_eq_Suc)
  from p(3) show ?thesis
  proof (rule parse_cb_tail_cases)
    fix s1 s2 d1 d2 q z u
    assume b: "s1 \<le> s2" "s2 \<le> 65535" "d1 \<le> d2" "d2 \<le> 65535" "q \<le> 255" "z \<le> 255" "u < 2 ^ 32"
      and r: "r = (set_field (set_field (set_field v2 9 s1 s2) 10 d1 d2) 0 q z)\<lparr>userdata := if ud then u else userdata v2\<rparr>"
    have "userdata v2 = userdata v" "length (field r) = 11" using r x(3) y(3) assms(1) by simp_all
    moreover have "\<forall>i < 4. fvalue (field r ! (1 + i)) < 2 ^ 32 \<and> fmask (field r ! (1 + i)) = ipv6_word_mask m i"
      unfolding four r x(3) y(3) using assms(1) x(2) by (simp add: four nth_list_update)
    moreover have "\<forall>i < 4. fvalue (field r ! (5 + i)) < 2 ^ 32 \<and> fmask (field r ! (5 + i)) = ipv6_word_mask n i"
      unfolding four r x(3) y(3) using assms(1) y(2) by (simp add: four nth_list_update)
    moreover have "proto_ok (field r ! 0)" "ports_ok (field r ! 9)" "ports_ok (field r ! 10)"
      unfolding r x(3) y(3) proto_ok_def ports_ok_def using assms(1) b by (simp_all add: nth_list_update)
    ultimately show "rule6_wf r" using x(1) y(1) b(7) assms(2) r by (auto simp: rule6_wf_def)
  qed
qed

subsection \<open>Reading back a printed rule\<close>

definition proto_word :: "acl_field \<Rightarrow> string" where
  "proto_word p = ''0x'' @ num 16 (fvalue p) @ CHR ''/'' # ''0x'' @ num 16 (fmask p)"

lemma print_tail_tokens:
  assumes "word w0" "word w1" "ports_ok s" "ports_ok d" "proto_ok p" "cb_tokens n e = Some ws"
  shows "cb_tokens (n + 9) (w0 @ CHR '' '' # w1 @ CHR '' '' # print_tail s d p @ e) =
    Some ([w0, w1, num 10 (fvalue s), '':'', num 10 (fmask s), num 10 (fvalue d), '':'', num 10 (fmask d), proto_word p] @ ws)"
proof -
  have m: "fvalue s mod 65536 = fvalue s" "fmask s mod 65536 = fmask s" "fvalue d mod 65536 = fvalue d" "fmask d mod 65536 = fmask d"
    "fvalue p mod 256 = fvalue p" "fmask p mod 256 = fmask p"
    using assms(3-5) by (simp_all add: ports_ok_def proto_ok_def)
  have c: "word '':''" by (simp add: word_def)
  have pw: "word (proto_word p)" unfolding proto_word_def by (auto intro!: word_append word_Cons)
  have str: "print_tail s d p @ e = num 10 (fvalue s) @ CHR '' '' # '':'' @ CHR '' '' # num 10 (fmask s) @ CHR '' '' #
      num 10 (fvalue d) @ CHR '' '' # '':'' @ CHR '' '' # num 10 (fmask d) @ CHR '' '' # proto_word p @ CHR '' '' # e"
    by (simp add: print_tail_def proto_word_def m)
  have nine: "n + 9 = Suc (Suc (Suc (Suc (Suc (Suc (Suc (Suc (Suc n))))))))" by simp
  show ?thesis unfolding append_Cons append_Nil unfolding str nine
    by (intro cb_tokens_word assms(1,2,6) c pw word_num)
qed

lemma parse_tail_printed:
  assumes "ports_ok s" "ports_ok d" "proto_ok p"
    and "ins = [w0, w1, num 10 (fvalue s), '':'', num 10 (fmask s), num 10 (fvalue d), '':'', num 10 (fmask d), proto_word p] @ ws"
    and "ud \<Longrightarrow> ws = [num 10 u] \<and> u < 2 ^ 32"
  shows "parse_cb_tail sp dp pr ins v ud =
    Some (let v = set_field (set_field (set_field v sp (fvalue s) (fmask s)) dp (fvalue d) (fmask d)) pr (fvalue p) (fmask p)
      in if ud then v\<lparr>userdata := u\<rparr> else v)"
proof -
  have "parse_cb_ports ins = Some (fvalue s, fmask s, fvalue d, fmask d)"
    using assms(1,2) unfolding assms(4) parse_cb_ports_def ports_ok_def by (simp add: cb_dec)
  moreover have "parse_cb_proto ins = Some (fvalue p, fmask p)"
    using assms(3) unfolding assms(4) parse_cb_proto_def proto_ok_def proto_word_def
    by (simp add: cb_hex(1) [simplified] cb_hex(2) [simplified])
  moreover have "ud \<Longrightarrow> GET_CB_FIELD (ins ! 9) 0 4294967295 NUL = Some (u, [])"
    using assms(5) unfolding assms(4) by (simp add: cb_dec)
  ultimately show ?thesis by (cases ud) (simp_all add: parse_cb_tail_def Let_def)
qed

text \<open>The text of a number and its token.\<close>

lemma cb_tokens_num: "cb_tokens 1 (num 10 u @ '' '') = Some [num 10 u]"
  using cb_tokens_word [OF word_num(1), of 0 "[]" "[]"] by simp

lemma print_ipv4_net: "print_ipv4_net f = ipv4_word f @ '' ''"
  by (simp add: print_ipv4_net_def ipv4_word_def split: prod.splits)

lemma field_eta: "\<lparr>fvalue = fvalue f, fmask = fmask f\<rparr> = (f :: acl_field)"
  by simp

lemma ipv4_roundtrip:
  assumes "be32 rte" "rule4_wf r" "length (field v) = 5"
  shows "parse_cb_ipv4vlan_rule rte (print_one_ipv4_rule r extra) v False = Some (v\<lparr>field := field r\<rparr>)"
    and "u < 2 ^ 32 \<Longrightarrow>
      parse_cb_ipv4vlan_rule rte (print_one_ipv4_rule r False @ num 10 u @ '' '') v True = Some (v\<lparr>field := field r, userdata := u\<rparr>)"
proof -
  have l: "length (field r) = 5" using assms(2) by (simp add: rule4_wf_def)
  then obtain p s d sp dp where f: "field r = [p, s, d, sp, dp]" by (auto simp: length_Suc_conv numeral_eq_Suc)
  obtain p' s' d' sp' dp' where g: "field v = [p', s', d', sp', dp']" using assms(3) by (auto simp: length_Suc_conv numeral_eq_Suc)
  have wf: "proto_ok p" "ports_ok sp" "ports_ok dp" "fvalue s < 2 ^ 32" "fmask s \<le> 32" "fvalue d < 2 ^ 32" "fmask d \<le> 32"
    using assms(2) f by (simp_all add: rule4_wf_def)
  have str: "print_one_ipv4_rule r extra =
      ipv4_word s @ CHR '' '' # ipv4_word d @ CHR '' '' # print_tail sp dp p @ (if extra then print_extra r else '''')" for extra
    by (simp add: print_one_ipv4_rule_def print_ipv4_net f)
  note tok = print_tail_tokens [OF word_ipv4 word_ipv4 wf(2,3,1)]
  note ps = parse_ipv4_word [OF assms(1) wf(4,5)] parse_ipv4_word [OF assms(1) wf(6,7)]
  let ?ws = "[ipv4_word s, ipv4_word d, num 10 (fvalue sp), '':'', num 10 (fmask sp), num 10 (fvalue dp), '':'',
    num 10 (fmask dp), proto_word p]"
  have t0: "cb_tokens CB_FLD_USERDATA (print_one_ipv4_rule r extra) = Some (?ws @ [])"
    unfolding str CB_FLD_USERDATA_def using tok [of 0 "if extra then print_extra r else ''''" "[]"] by simp
  show "parse_cb_ipv4vlan_rule rte (print_one_ipv4_rule r extra) v False = Some (v\<lparr>field := field r\<rparr>)"
    unfolding parse_cb_ipv4vlan_rule_def if_False t0
    using parse_tail_printed [OF wf(2,3,1) refl, where ud = False] ps by (simp add: set_field_def f g)
  have t1: "cb_tokens CB_FLD_NUM (print_one_ipv4_rule r False @ num 10 u @ '' '') = Some (?ws @ [num 10 u])"
    unfolding str CB_FLD_NUM_def using tok [OF cb_tokens_num [of u]] by simp
  show "parse_cb_ipv4vlan_rule rte (print_one_ipv4_rule r False @ num 10 u @ '' '') v True = Some (v\<lparr>field := field r, userdata := u\<rparr>)"
    if "u < 2 ^ 32"
    unfolding parse_cb_ipv4vlan_rule_def if_True t1
    using parse_tail_printed [OF wf(2,3,1) refl, where ud = True and ws = "[num 10 u]" and u = u] ps that by (simp add: set_field_def f g)
qed

text \<open>The word of an IPv6 network.\<close>

definition ipv6_word :: "acl_rule \<Rightarrow> nat \<Rightarrow> nat \<Rightarrow> string" where
  "ipv6_word r k m = print_ipv6_word (field r ! k) @ CHR '':'' # print_ipv6_word (field r ! (k + 1)) @ CHR '':'' #
     print_ipv6_word (field r ! (k + 2)) @ CHR '':'' # print_ipv6_word (field r ! (k + 3)) @ CHR ''/'' # num 10 m"

lemma print_ipv6_word_bytes:
  assumes "fvalue f < 2 ^ 32"
  obtains a b c d where "a < 256" "b < 256" "c < 256" "d < 256" "print_ipv6_word f = hex2 a @ hex2 b @ CHR '':'' # hex2 c @ hex2 d"
    "u32 ((256 * a + b) * 2 ^ 16 + (256 * c + d)) = fvalue f"
proof -
  obtain a b c d where u: "uint32_t_to_char (fvalue f) = (a, b, c, d)" by (cases "uint32_t_to_char (fvalue f)")
  note v = char_bytes [OF assms u]
  have "(256 * a + b) * 2 ^ 16 + (256 * c + d) = fvalue f" using v(5) by simp
  then have "u32 ((256 * a + b) * 2 ^ 16 + (256 * c + d)) = fvalue f" using assms by (simp only: u32_small) simp
  then show ?thesis using that v u by (simp add: print_ipv6_word_def)
qed

lemma parse_ipv6_word:
  assumes "\<forall>i < 4. fvalue (field r ! (k + i)) < 2 ^ 32"
  shows "parse_ipv6_addr (ipv6_word r k m) CHR ''/'' = Some (num 10 m, map (\<lambda>i. fvalue (field r ! (k + i))) [0..<4])"
proof -
  have v: "fvalue (field r ! k) < 2 ^ 32" "fvalue (field r ! (k + 1)) < 2 ^ 32" "fvalue (field r ! (k + 2)) < 2 ^ 32"
    "fvalue (field r ! (k + 3)) < 2 ^ 32"
    using assms [rule_format, of 0] assms [rule_format, of 1] assms [rule_format, of 2] assms [rule_format, of 3] by simp_all
  obtain a0 b0 c0 d0 where w0: "a0 < 256" "b0 < 256" "c0 < 256" "d0 < 256"
    "print_ipv6_word (field r ! k) = hex2 a0 @ hex2 b0 @ CHR '':'' # hex2 c0 @ hex2 d0"
    "u32 ((256 * a0 + b0) * 2 ^ 16 + (256 * c0 + d0)) = fvalue (field r ! k)" by (rule print_ipv6_word_bytes [OF v(1)])
  obtain a1 b1 c1 d1 where w1: "a1 < 256" "b1 < 256" "c1 < 256" "d1 < 256"
    "print_ipv6_word (field r ! (k + 1)) = hex2 a1 @ hex2 b1 @ CHR '':'' # hex2 c1 @ hex2 d1"
    "u32 ((256 * a1 + b1) * 2 ^ 16 + (256 * c1 + d1)) = fvalue (field r ! (k + 1))" by (rule print_ipv6_word_bytes [OF v(2)])
  obtain a2 b2 c2 d2 where w2: "a2 < 256" "b2 < 256" "c2 < 256" "d2 < 256"
    "print_ipv6_word (field r ! (k + 2)) = hex2 a2 @ hex2 b2 @ CHR '':'' # hex2 c2 @ hex2 d2"
    "u32 ((256 * a2 + b2) * 2 ^ 16 + (256 * c2 + d2)) = fvalue (field r ! (k + 2))" by (rule print_ipv6_word_bytes [OF v(3)])
  obtain a3 b3 c3 d3 where w3: "a3 < 256" "b3 < 256" "c3 < 256" "d3 < 256"
    "print_ipv6_word (field r ! (k + 3)) = hex2 a3 @ hex2 b3 @ CHR '':'' # hex2 c3 @ hex2 d3"
    "u32 ((256 * a3 + b3) * 2 ^ 16 + (256 * c3 + d3)) = fvalue (field r ! (k + 3))" by (rule print_ipv6_word_bytes [OF v(4)])
  have str: "ipv6_word r k m = hex2 a0 @ hex2 b0 @ CHR '':'' # hex2 c0 @ hex2 d0 @ CHR '':'' # hex2 a1 @ hex2 b1 @ CHR '':'' # hex2 c1 @ hex2 d1 @ CHR '':'' #
      hex2 a2 @ hex2 b2 @ CHR '':'' # hex2 c2 @ hex2 d2 @ CHR '':'' # hex2 a3 @ hex2 b3 @ CHR '':'' # hex2 c3 @ hex2 d3 @ CHR ''/'' # num 10 m"
    unfolding ipv6_word_def w0(5) w1(5) w2(5) w3(5) by simp
  have four: "[0..<4] = [0, 1, 2, 3 :: nat]" by (simp add: upt_rec)
  show ?thesis unfolding str parse_ipv6_addr_def four
    using w0(1-4,6) w1(1-4,6) w2(1-4,6) w3(1-4,6) by (simp add: cb_hex2)
qed

lemma word_ipv6:
  assumes "\<forall>i < 4. fvalue (field r ! (k + i)) < 2 ^ 32"
  shows "word (ipv6_word r k m)"
proof -
  have "word (print_ipv6_word f)" if "fvalue f < 2 ^ 32" for f
    by (rule print_ipv6_word_bytes [OF that]) (auto intro!: word_append word_Cons word_hex2)
  then show ?thesis using assms [rule_format, of 0] assms [rule_format, of 1] assms [rule_format, of 2] assms [rule_format, of 3]
    unfolding ipv6_word_def by (intro word_append word_Cons) (auto simp del: One_nat_def)
qed

lemma ipv6_mask_sum:
  assumes "m \<le> 128"
  shows "u32 (ipv6_word_mask m 0 + ipv6_word_mask m 1 + ipv6_word_mask m 2 + ipv6_word_mask m 3) = m"
  using assms by (auto simp: ipv6_word_mask_def)

lemma print_ipv6_net:
  assumes "m \<le> 128" "\<forall>i < 4. fmask (field r ! (k + i)) = ipv6_word_mask m i"
  shows "print_ipv6_net r k = ipv6_word r k m @ '' ''"
proof -
  have "fmask (field r ! k) = ipv6_word_mask m 0" "fmask (field r ! (k + 1)) = ipv6_word_mask m 1"
    "fmask (field r ! (k + 2)) = ipv6_word_mask m 2" "fmask (field r ! (k + 3)) = ipv6_word_mask m 3"
    using assms(2) [rule_format, of 0] assms(2) [rule_format, of 1] assms(2) [rule_format, of 2] assms(2) [rule_format, of 3] by simp_all
  then show ?thesis unfolding print_ipv6_net_def ipv6_word_def by (simp only: ipv6_mask_sum [OF assms(1)]) simp
qed

lemma parse_ipv6_net_word:
  assumes "m \<le> 128" "\<forall>i < 4. fvalue (field r ! (k + i)) < 2 ^ 32 \<and> fmask (field r ! (k + i)) = ipv6_word_mask m i"
  shows "parse_ipv6_net (ipv6_word r k m) j v =
    Some (v\<lparr>field := (field v)[j := field r ! k, j + 1 := field r ! (k + 1), j + 2 := field r ! (k + 2), j + 3 := field r ! (k + 3)]\<rparr>)"
proof -
  have b: "\<forall>i < 4. fvalue (field r ! (k + i)) < 2 ^ 32" using assms(2) by blast
  have f: "\<lparr>fvalue = fvalue (field r ! (k + i)), fmask = ipv6_word_mask m i\<rparr> = field r ! (k + i)" if "i < 4" for i
    using assms(2) that by (metis acl_field.surjective old.unit.exhaust)
  have four: "[0..<4] = [0, 1, 2, 3 :: nat]" by (simp add: upt_rec)
  have "GET_CB_FIELD (num 10 m) 0 128 NUL = Some (m, [])" using assms(1) by (simp add: cb_dec)
  then show ?thesis unfolding parse_ipv6_net_def parse_ipv6_word [OF b]
    using f [of 0] f [of 1] f [of 2] f [of 3] by (simp add: four set_field_def)
qed

lemma ipv6_roundtrip:
  assumes "rule6_wf r" "length (field v) = 11"
  shows "parse_cb_ipv6_rule (print_one_ipv6_rule r extra) v False = Some (v\<lparr>field := field r\<rparr>)"
    and "u < 2 ^ 32 \<Longrightarrow> parse_cb_ipv6_rule (print_one_ipv6_rule r False @ num 10 u @ '' '') v True = Some (v\<lparr>field := field r, userdata := u\<rparr>)"
proof -
  have wf: "proto_ok (field r ! 0)" "ports_ok (field r ! 9)" "ports_ok (field r ! 10)"
    using assms(1) by (simp_all add: rule6_wf_def)
  obtain m where m: "m \<le> 128" "\<forall>i < 4. fvalue (field r ! (1 + i)) < 2 ^ 32 \<and> fmask (field r ! (1 + i)) = ipv6_word_mask m i"
    using assms(1) unfolding rule6_wf_def SRC1_FIELD_IPV6_def by blast
  obtain n where n: "n \<le> 128" "\<forall>i < 4. fvalue (field r ! (5 + i)) < 2 ^ 32 \<and> fmask (field r ! (5 + i)) = ipv6_word_mask n i"
    using assms(1) unfolding rule6_wf_def DST1_FIELD_IPV6_def by blast
  have w: "word (ipv6_word r 1 m)" "word (ipv6_word r 5 n)" using m(2) n(2) by (auto intro!: word_ipv6)
  have str: "print_one_ipv6_rule r extra = ipv6_word r 1 m @ CHR '' '' # ipv6_word r 5 n @ CHR '' '' #
      print_tail (field r ! 9) (field r ! 10) (field r ! 0) @ (if extra then print_extra r else '''')" for extra
    unfolding print_one_ipv6_rule_def SRC1_FIELD_IPV6_def DST1_FIELD_IPV6_def
    using print_ipv6_net [OF m(1), of r 1] print_ipv6_net [OF n(1), of r 5] m(2) n(2) by simp
  have l: "length (field r) = 11" using assms(1) by (simp add: rule6_wf_def)
  obtain a0 a1 a2 a3 a4 a5 a6 a7 a8 a9 a10 where f: "field r = [a0, a1, a2, a3, a4, a5, a6, a7, a8, a9, a10]"
    using l by (auto simp: length_Suc_conv numeral_eq_Suc)
  obtain b0 b1 b2 b3 b4 b5 b6 b7 b8 b9 b10 where g: "field v = [b0, b1, b2, b3, b4, b5, b6, b7, b8, b9, b10]"
    using assms(2) by (auto simp: length_Suc_conv numeral_eq_Suc)
  note tok = print_tail_tokens [OF w wf(2,3,1)]
  let ?ws = "[ipv6_word r 1 m, ipv6_word r 5 n, num 10 (fvalue (field r ! 9)), '':'', num 10 (fmask (field r ! 9)),
    num 10 (fvalue (field r ! 10)), '':'', num 10 (fmask (field r ! 10)), proto_word (field r ! 0)]"
  have t0: "cb_tokens CB_FLD_USERDATA (print_one_ipv6_rule r extra) = Some (?ws @ [])"
    unfolding str CB_FLD_USERDATA_def using tok [of 0 "if extra then print_extra r else ''''" "[]"] by simp
  show "parse_cb_ipv6_rule (print_one_ipv6_rule r extra) v False = Some (v\<lparr>field := field r\<rparr>)"
    unfolding parse_cb_ipv6_rule_def if_False t0
    using parse_tail_printed [OF wf(2,3,1) refl, where ud = False] parse_ipv6_net_word [OF m] parse_ipv6_net_word [OF n]
    by (simp add: set_field_def f g)
  have t1: "cb_tokens CB_FLD_NUM (print_one_ipv6_rule r False @ num 10 u @ '' '') = Some (?ws @ [num 10 u])"
    unfolding str CB_FLD_NUM_def using tok [OF cb_tokens_num [of u]] by simp
  show "parse_cb_ipv6_rule (print_one_ipv6_rule r False @ num 10 u @ '' '') v True = Some (v\<lparr>field := field r, userdata := u\<rparr>)"
    if "u < 2 ^ 32"
    unfolding parse_cb_ipv6_rule_def if_True t1
    using parse_tail_printed [OF wf(2,3,1) refl, where ud = True and ws = "[num 10 u]" and u = u] parse_ipv6_net_word [OF m] parse_ipv6_net_word [OF n] that
    by (simp add: set_field_def f g)
qed

subsection \<open>Examples\<close>

definition zero_rule :: "nat \<Rightarrow> acl_rule" where
  "zero_rule n = \<lparr>category_mask = 0, priority = 0, userdata = 0, field = replicate n \<lparr>fvalue = 0, fmask = 0\<rparr>\<rparr>"

definition plain_ipv4 :: "nat \<Rightarrow> nat \<Rightarrow> nat \<Rightarrow> nat \<Rightarrow> nat" where
  "plain_ipv4 a b c d = a * 2 ^ 24 + b * 2 ^ 16 + c * 2 ^ 8 + d"

lemma plain_ipv4: "be32 plain_ipv4"
  by (simp add: be32_def plain_ipv4_def)

definition demo_rule4 :: acl_rule where
  "demo_rule4 = \<lparr>category_mask = 1, priority = 7, userdata = 9, field = [\<lparr>fvalue = 6, fmask = 255\<rparr>,
     \<lparr>fvalue = 167772160, fmask = 8\<rparr>, \<lparr>fvalue = 0, fmask = 0\<rparr>, \<lparr>fvalue = 0, fmask = 65535\<rparr>, \<lparr>fvalue = 80, fmask = 80\<rparr>]\<rparr>"

definition demo_rule6 :: acl_rule where
  "demo_rule6 = \<lparr>category_mask = 1, priority = 7, userdata = 9, field = [\<lparr>fvalue = 6, fmask = 255\<rparr>,
     \<lparr>fvalue = 536939960, fmask = 32\<rparr>, \<lparr>fvalue = 1, fmask = 16\<rparr>, \<lparr>fvalue = 0, fmask = 0\<rparr>, \<lparr>fvalue = 0, fmask = 0\<rparr>,
     \<lparr>fvalue = 0, fmask = 0\<rparr>, \<lparr>fvalue = 0, fmask = 0\<rparr>, \<lparr>fvalue = 0, fmask = 0\<rparr>, \<lparr>fvalue = 0, fmask = 0\<rparr>,
     \<lparr>fvalue = 0, fmask = 65535\<rparr>, \<lparr>fvalue = 80, fmask = 80\<rparr>]\<rparr>"

lemma demo_rules: "rule4_wf demo_rule4" "rule6_wf demo_rule6"
proof -
  have four: "(\<forall>i < 4 :: nat. P i) \<longleftrightarrow> P 0 \<and> P 1 \<and> P 2 \<and> P 3" for P
    by (auto simp: less_Suc_eq numeral_eq_Suc)
  show "rule4_wf demo_rule4" by (simp add: rule4_wf_def demo_rule4_def proto_ok_def ports_ok_def)
  have "\<exists>m \<le> 128. \<forall>i < 4. fvalue (field demo_rule6 ! (1 + i)) < 2 ^ 32 \<and> fmask (field demo_rule6 ! (1 + i)) = ipv6_word_mask m i"
    by (rule exI [of _ 48]) (simp add: four demo_rule6_def ipv6_word_mask_def)
  moreover have "\<exists>m \<le> 128. \<forall>i < 4. fvalue (field demo_rule6 ! (5 + i)) < 2 ^ 32 \<and> fmask (field demo_rule6 ! (5 + i)) = ipv6_word_mask m i"
    by (rule exI [of _ 0]) (simp add: four demo_rule6_def ipv6_word_mask_def)
  ultimately show "rule6_wf demo_rule6"
    unfolding rule6_wf_def by (simp add: demo_rule6_def proto_ok_def ports_ok_def)
qed

subsection \<open>Properties\<close>

text \<open>C28. Types of rules. Whatever line the parsers accept, the rule has prefix lengths of at most 32 bits (for
  IPv6 the four word masks are those of one prefix of at most 128 bits), 32 bit addresses and user data,
  port ranges that are not empty and a protocol of 8 bits.\<close>

theorem acl_parsers_typed:
  assumes "be32 rte_ipv4" "length (field v4) = 5" "userdata v4 < 2 ^ 32" "length (field v6) = 11" "userdata v6 < 2 ^ 32"
  shows "(\<forall>r. parse_cb_ipv4vlan_rule rte_ipv4 str v4 ud = Some r \<longrightarrow> rule4_wf r) \<and>
    (\<forall>r. parse_cb_ipv6_rule str v6 ud = Some r \<longrightarrow> rule6_wf r)"
  using parse_rule4_wf [OF assms(1-3)] parse_rule6_wf [OF assms(4,5)] by blast

theorem acl_parsers_typed_witness:
  "\<exists>r. parse_cb_ipv4vlan_rule plain_ipv4 (print_one_ipv4_rule demo_rule4 False) (zero_rule 5) False = Some r \<and> rule4_wf r"
proof -
  have "parse_cb_ipv4vlan_rule plain_ipv4 (print_one_ipv4_rule demo_rule4 False) (zero_rule 5) False =
      Some ((zero_rule 5)\<lparr>field := field demo_rule4\<rparr>)"
    using ipv4_roundtrip(1) [OF plain_ipv4 demo_rules(1), of "zero_rule 5" False] by (simp add: zero_rule_def)
  then show ?thesis using acl_parsers_typed [OF plain_ipv4, of "zero_rule 5" "zero_rule 11" _ False] by (simp add: zero_rule_def)
qed

text \<open>C11. Round trip. What \<open>print_one_ipv4_rule\<close> and \<open>print_one_ipv6_rule\<close> print for a well-formed rule, the parser of rules
  without user data reads back as the same fields, whether the extra data are printed or not; with the number of a port behind it, the same
  line is read as a route to that port.\<close>

theorem acl_print_parse:
  assumes "be32 rte_ipv4" "rule4_wf r4" "rule6_wf r6" "length (field v4) = 5" "length (field v6) = 11" "u < 2 ^ 32"
  shows "parse_cb_ipv4vlan_rule rte_ipv4 (print_one_ipv4_rule r4 extra) v4 False = Some (v4\<lparr>field := field r4\<rparr>) \<and>
    parse_cb_ipv6_rule (print_one_ipv6_rule r6 extra) v6 False = Some (v6\<lparr>field := field r6\<rparr>) \<and>
    parse_cb_ipv4vlan_rule rte_ipv4 (print_one_ipv4_rule r4 False @ num 10 u @ '' '') v4 True = Some (v4\<lparr>field := field r4, userdata := u\<rparr>) \<and>
    parse_cb_ipv6_rule (print_one_ipv6_rule r6 False @ num 10 u @ '' '') v6 True = Some (v6\<lparr>field := field r6, userdata := u\<rparr>)"
  using ipv4_roundtrip [OF assms(1,2,4)] ipv6_roundtrip [OF assms(3,5)] assms(6) by blast

theorem acl_print_parse_witness:
  "parse_cb_ipv4vlan_rule plain_ipv4 (print_one_ipv4_rule demo_rule4 True) (zero_rule 5) False =
    Some ((zero_rule 5)\<lparr>field := field demo_rule4\<rparr>)"
  using acl_print_parse [OF plain_ipv4 demo_rules, of "zero_rule 5" "zero_rule 11" 0 True] by (simp add: zero_rule_def)

text \<open>Numbers may be missing: an empty component is read as 0.\<close>

lemma empty_components:
  assumes "be32 rte_ipv4"
  shows "parse_ipv4_net rte_ipv4 ''.../'' = Some (0, 0)"
proof -
  have "GET_CB_FIELD (c # s) 0 lim c = Some (0, s)" if "c = CHR ''.'' \<or> c = CHR ''/''" for c s lim
    using that by (elim disjE) (simp_all add: GET_CB_FIELD_def strtoul_def strtoul_base_def isspace_def)
  moreover have "GET_CB_FIELD [] 0 32 NUL = Some (0, [])"
    by (simp add: GET_CB_FIELD_def strtoul_def strtoul_base_def NUL_def)
  ultimately have "parse_ipv4_net rte_ipv4 ''.../'' = Some (rte_ipv4 0 0 0 0, 0)" by (simp add: parse_ipv4_net_def)
  then show ?thesis using assms by (simp add: be32_def)
qed

end
