(* ===== verification/Acl_Files.thy ===== *)
theory Acl_Files
  imports Acl_Rules
begin

section \<open>Loading of access control rules\<close>

text \<open>
  \<open>add_rules\<close> of \<^verbatim>\<open>nf-chain/src/main.c\<close>: a first pass over the file counts the route lines (\<open>R\<close>) and the access control
  lines (\<open>@\<close>), a second one parses each into its array. The result is \<open>None\<close> for undefined behaviour, \<open>Some None\<close> where
  the code calls \<^verbatim>\<open>rte_exit\<close>. What \<^verbatim>\<open>fopen\<close>, \<^verbatim>\<open>fseek\<close> and \<^verbatim>\<open>calloc\<close> gave are arguments, as is \<open>RTE_ACL_MAX_PRIORITY\<close>
  of DPDK; \<open>nfields\<close> is the number of fields behind \<^verbatim>\<open>rule_size\<close>.
\<close>

subsection \<open>The code\<close>

definition NEWLINE :: char where
  "NEWLINE = CHR 0x0A"

text \<open>One call of \<open>fgets\<close> with \<^verbatim>\<open>LINE_MAX\<close>, at most 2047 characters.\<close>

definition fgets_line :: "string \<Rightarrow> string \<times> string" where
  "fgets_line s =
     (let k = take 2047 s; w = takeWhile (\<lambda>c. c \<noteq> NEWLINE) k
      in if length w < length k then (w @ [NEWLINE], drop (length w + 1) s) else (k, drop 2047 s))"

function fgets_lines :: "string \<Rightarrow> string list" where
  "fgets_lines s = (if s = [] then [] else fst (fgets_line s) # fgets_lines (snd (fgets_line s)))"
  by pat_completeness auto
termination
  by (relation "measure length") (auto simp: fgets_line_def Let_def)

declare fgets_lines.simps [simp del]

definition ROUTE_LEAD_CHAR :: char where "ROUTE_LEAD_CHAR = CHR ''R''"
definition ACL_LEAD_CHAR :: char where "ACL_LEAD_CHAR = CHR ''@''"
definition COMMENT_LEAD_CHAR :: char where "COMMENT_LEAD_CHAR = CHR ''#''"
definition ACL_DENY_SIGNATURE :: nat where "ACL_DENY_SIGNATURE = 0xf0000000"
definition FWD_PORT_SHIFT :: nat where "FWD_PORT_SHIFT = 1"

fun blank_line :: "string \<Rightarrow> bool" where
  "blank_line [] = True"
| "blank_line (c # cs) = (if \<not> isspace c then False else blank_line cs)"

definition is_bypass_line :: "string \<Rightarrow> bool" where
  "is_bypass_line buff = (if char_at buff = COMMENT_LEAD_CHAR then True else blank_line buff)"

fun count_rules :: "string list \<Rightarrow> nat \<Rightarrow> nat \<Rightarrow> nat \<times> nat" where
  "count_rules [] route_num acl_num = (route_num, acl_num)"
| "count_rules (buff # ls) route_num acl_num =
     (if char_at buff = ROUTE_LEAD_CHAR then count_rules ls (u32 (route_num + 1)) acl_num
      else if char_at buff = ACL_LEAD_CHAR then count_rules ls route_num (u32 (acl_num + 1))
      else count_rules ls route_num acl_num)"

record rule_loader =
  route_rules :: "acl_rule list"
  acl_rules :: "acl_rule list"
  route_cnt :: nat
  acl_cnt :: nat
  total_num :: nat

type_synonym rule_parser = "string \<Rightarrow> acl_rule \<Rightarrow> bool \<Rightarrow> acl_rule option"

text \<open>The common end of the body of the second loop.\<close>

definition finish_rule :: "nat \<Rightarrow> nat \<Rightarrow> acl_rule \<Rightarrow> acl_rule" where
  "finish_rule max_priority n rule =
     rule\<lparr>priority := to_int32 (u32 (max_priority + 2 ^ 32 - n)), category_mask := 2 ^ 32 - 1\<rparr>"

text \<open>A shift by 32 or more is undefined.\<close>

definition load_rule ::
  "rule_parser \<Rightarrow> nat \<Rightarrow> nat \<Rightarrow> string \<Rightarrow> rule_loader \<Rightarrow> rule_loader option option" where
  "load_rule parser enabled_port_mask max_priority buff st =
     (if is_bypass_line buff then Some (Some st)
      else if char_at buff = ROUTE_LEAD_CHAR then do {
        slot \<leftarrow> arr_get (route_rules st) (int (route_cnt st));
        case parser (tl buff) slot True of
          None \<Rightarrow> Some None
        | Some rule \<Rightarrow>
            if 32 \<le> userdata rule then None
            else if enabled_port_mask AND 2 ^ userdata rule = 0 then Some None
            else let rule = finish_rule max_priority (total_num st)
                   (rule\<lparr>userdata := u32 (userdata rule + FWD_PORT_SHIFT)\<rparr>)
              in Some (Some (st\<lparr>route_rules := (route_rules st)[route_cnt st := rule],
                   route_cnt := u32 (route_cnt st + 1), total_num := u32 (total_num st + 1)\<rparr>))
      }
      else if char_at buff = ACL_LEAD_CHAR then do {
        slot \<leftarrow> arr_get (acl_rules st) (int (acl_cnt st));
        case parser (tl buff) slot False of
          None \<Rightarrow> Some None
        | Some rule \<Rightarrow>
            let rule = finish_rule max_priority (total_num st)
              (rule\<lparr>userdata := u32 (ACL_DENY_SIGNATURE + acl_cnt st)\<rparr>)
            in Some (Some (st\<lparr>acl_rules := (acl_rules st)[acl_cnt st := rule],
                 acl_cnt := u32 (acl_cnt st + 1), total_num := u32 (total_num st + 1)\<rparr>))
      }
      else Some None)"

fun load_rules :: "rule_parser \<Rightarrow> nat \<Rightarrow> nat \<Rightarrow> string list \<Rightarrow> rule_loader \<Rightarrow> rule_loader option option" where
  "load_rules parser enabled_port_mask max_priority [] st = Some (Some st)"
| "load_rules parser enabled_port_mask max_priority (buff # ls) st =
     Option.bind (load_rule parser enabled_port_mask max_priority buff st) (\<lambda>r.
       case r of None \<Rightarrow> Some None | Some st' \<Rightarrow> load_rules parser enabled_port_mask max_priority ls st')"

text \<open>The result: the route rules and their number, the access control rules and their number.\<close>

definition add_rules ::
  "string option \<Rightarrow> bool \<Rightarrow> bool \<Rightarrow> bool \<Rightarrow> nat \<Rightarrow> rule_parser \<Rightarrow> nat \<Rightarrow> nat
    \<Rightarrow> (acl_rule list \<times> nat \<times> acl_rule list \<times> nat) option option" where
  "add_rules file seek_ok acl_calloc_ok route_calloc_ok nfields parser enabled_port_mask max_priority =
     (case file of
        None \<Rightarrow> Some None
      | Some contents \<Rightarrow>
          let (route_num, acl_num) = count_rules (fgets_lines contents) 0 0
          in if route_num = 0 then Some None
             else if \<not> seek_ok then Some None
             else if \<not> acl_calloc_ok then Some None
             else if \<not> route_calloc_ok then Some None
             else Option.bind (load_rules parser enabled_port_mask max_priority (fgets_lines contents)
               \<lparr>route_rules = replicate route_num (zero_rule nfields), acl_rules = replicate acl_num (zero_rule nfields),
                route_cnt = 0, acl_cnt = 0, total_num = 0\<rparr>) (\<lambda>r.
               case r of
                 None \<Rightarrow> Some None
               | Some st \<Rightarrow> Some (Some (route_rules st, route_cnt st, acl_rules st, acl_num))))"

subsection \<open>The lines\<close>

definition is_route :: "string \<Rightarrow> bool" where "is_route e \<longleftrightarrow> char_at e = ROUTE_LEAD_CHAR"
definition is_acl :: "string \<Rightarrow> bool" where "is_acl e \<longleftrightarrow> char_at e = ACL_LEAD_CHAR"

text \<open>The lines that are not bypassed, and the number of lines of a kind before the line \<open>j\<close>.\<close>

definition entries :: "string list \<Rightarrow> string list" where
  "entries ls = filter (\<lambda>e. \<not> is_bypass_line e) ls"

definition before :: "(string \<Rightarrow> bool) \<Rightarrow> string list \<Rightarrow> nat \<Rightarrow> nat" where
  "before P es j = length (filter P (take j es))"

lemma lead_chars:
  "is_route e \<Longrightarrow> \<not> is_bypass_line e" "is_acl e \<Longrightarrow> \<not> is_bypass_line e" "is_acl e \<Longrightarrow> \<not> is_route e"
  by (cases e; simp add: is_route_def is_acl_def is_bypass_line_def ROUTE_LEAD_CHAR_def ACL_LEAD_CHAR_def
      COMMENT_LEAD_CHAR_def isspace_def NUL_def)+

lemma entries_kinds: "filter is_route (entries ls) = filter is_route ls" "filter is_acl (entries ls) = filter is_acl ls"
  unfolding entries_def filter_filter using lead_chars(1,2) by (metis (mono_tags, lifting) filter_cong)+

lemma count_rules:
  "r + length (filter is_route ls) < 2 ^ 32 \<Longrightarrow> a + length (filter is_acl ls) < 2 ^ 32 \<Longrightarrow>
   count_rules ls r a = (r + length (filter is_route ls), a + length (filter is_acl ls))"
proof (induction ls arbitrary: r a)
  case (Cons e ls)
  then show ?case using lead_chars(3) [of e] by (auto simp: is_route_def is_acl_def)
qed simp

lemma before_less: "j < length es \<Longrightarrow> P (es ! j) \<Longrightarrow> before P es j < length (filter P es)"
proof -
  assume j: "j < length es" "P (es ! j)"
  then have "filter P (take (Suc j) es) = filter P (take j es) @ [es ! j]" by (simp add: take_Suc_conv_app_nth)
  moreover have "length (filter P (take (Suc j) es)) \<le> length (filter P es)"
    by (metis append_take_drop_id filter_append le_add1 length_append)
  ultimately show ?thesis by (simp add: before_def)
qed

lemma before_append [simp]: "j \<le> length es \<Longrightarrow> before P (es @ fs) j = before P es j"
  by (simp add: before_def)

lemma before_end [simp]: "before P (es @ fs) (length es) = length (filter P es)"
  by (simp add: before_def)

subsection \<open>The second loop\<close>

text \<open>The entry \<open>j\<close> has been loaded.\<close>

definition loaded ::
  "rule_parser \<Rightarrow> acl_rule \<Rightarrow> nat \<Rightarrow> string list \<Rightarrow> acl_rule list \<Rightarrow> acl_rule list \<Rightarrow> nat \<Rightarrow> bool" where
  "loaded parser zero max_priority es routes acls j \<longleftrightarrow>
     (if is_route (es ! j)
      then \<exists>r. parser (tl (es ! j)) zero True = Some r \<and>
        routes ! before is_route es j = finish_rule max_priority j (r\<lparr>userdata := u32 (userdata r + FWD_PORT_SHIFT)\<rparr>)
      else is_acl (es ! j) \<and> (\<exists>r. parser (tl (es ! j)) zero False = Some r \<and>
        acls ! before is_acl es j =
          finish_rule max_priority j (r\<lparr>userdata := u32 (ACL_DENY_SIGNATURE + before is_acl es j)\<rparr>)))"

definition loader_inv ::
  "rule_parser \<Rightarrow> acl_rule \<Rightarrow> nat \<Rightarrow> nat \<Rightarrow> nat \<Rightarrow> string list \<Rightarrow> rule_loader \<Rightarrow> bool" where
  "loader_inv parser zero max_priority rn an es st \<longleftrightarrow>
     length (route_rules st) = rn \<and> length (acl_rules st) = an \<and>
     route_cnt st = length (filter is_route es) \<and> acl_cnt st = length (filter is_acl es) \<and> total_num st = length es \<and>
     (\<forall>k. route_cnt st \<le> k \<longrightarrow> k < rn \<longrightarrow> route_rules st ! k = zero) \<and>
     (\<forall>k. acl_cnt st \<le> k \<longrightarrow> k < an \<longrightarrow> acl_rules st ! k = zero) \<and>
     (\<forall>j < length es. loaded parser zero max_priority es (route_rules st) (acl_rules st) j)"

text \<open>Writing behind the loaded rules and adding an entry keeps what is loaded.\<close>

lemma loaded_keep:
  assumes "loaded parser zero mp es routes acls j" "j < length es"
    and "\<forall>k < length (filter is_route es). routes' ! k = routes ! k" "\<forall>k < length (filter is_acl es). acls' ! k = acls ! k"
  shows "loaded parser zero mp (es @ [e]) routes' acls' j"
proof (cases "is_route (es ! j)")
  case True
  then show ?thesis using assms before_less [of j es is_route] by (auto simp: loaded_def nth_append)
next
  case False
  then have "is_acl (es ! j)" using assms(1) by (simp add: loaded_def)
  then show ?thesis using assms False before_less [of j es is_acl] by (auto simp: loaded_def nth_append)
qed

definition bad_port :: "rule_parser \<Rightarrow> acl_rule \<Rightarrow> string \<Rightarrow> bool" where
  "bad_port parser zero e \<longleftrightarrow> is_route e \<and> (\<exists>r. parser (tl e) zero True = Some r \<and> 32 \<le> userdata r)"

definition good_entry :: "rule_parser \<Rightarrow> acl_rule \<Rightarrow> nat \<Rightarrow> string \<Rightarrow> bool" where
  "good_entry parser zero pm e \<longleftrightarrow>
     (if is_route e then \<exists>r. parser (tl e) zero True = Some r \<and> userdata r < 32 \<and> pm AND 2 ^ userdata r \<noteq> 0
      else is_acl e \<and> (\<exists>r. parser (tl e) zero False = Some r))"

lemma load_route:
  assumes inv: "loader_inv parser zero mp rn an es st" and e: "is_route e" "route_cnt st < rn"
    and sz: "length es + 1 < 2 ^ 32" "rn < 2 ^ 32"
  shows "load_rule parser pm mp e st = None \<Longrightarrow> bad_port parser zero e"
    "load_rule parser pm mp e st = Some (Some st') \<Longrightarrow> loader_inv parser zero mp rn an (es @ [e]) st'"
    "good_entry parser zero pm e \<Longrightarrow> \<exists>st'. load_rule parser pm mp e st = Some (Some st')"
proof -
  note i = inv [unfolded loader_inv_def]
  have g: "arr_get (route_rules st) (int (route_cnt st)) = Some zero" using i e(2) by simp
  have l: "char_at e = ROUTE_LEAD_CHAR" "\<not> is_bypass_line e" using e(1) lead_chars(1) by (auto simp: is_route_def)
  have na: "\<not> is_acl e" using lead_chars(3) e(1) by blast
  have res: "load_rule parser pm mp e st = (case parser (tl e) zero True of None \<Rightarrow> Some None
      | Some r \<Rightarrow> if 32 \<le> userdata r then None else if pm AND 2 ^ userdata r = 0 then Some None
        else Some (Some (st\<lparr>route_rules := (route_rules st)[route_cnt st :=
            finish_rule mp (total_num st) (r\<lparr>userdata := u32 (userdata r + FWD_PORT_SHIFT)\<rparr>)],
          route_cnt := u32 (route_cnt st + 1), total_num := u32 (total_num st + 1)\<rparr>)))"
    using l g by (cases "parser (tl e) zero True") (simp_all add: load_rule_def Let_def)
  show "load_rule parser pm mp e st = None \<Longrightarrow> bad_port parser zero e"
    unfolding res bad_port_def using e(1) by (auto split: option.splits if_splits)
  show "good_entry parser zero pm e \<Longrightarrow> \<exists>st'. load_rule parser pm mp e st = Some (Some st')"
    unfolding res good_entry_def using e(1) by auto
  assume r: "load_rule parser pm mp e st = Some (Some st')"
  then obtain r where p: "parser (tl e) zero True = Some r" and st': "st' = st\<lparr>route_rules := (route_rules st)[route_cnt st :=
      finish_rule mp (total_num st) (r\<lparr>userdata := u32 (userdata r + FWD_PORT_SHIFT)\<rparr>)],
      route_cnt := route_cnt st + 1, total_num := total_num st + 1\<rparr>"
    unfolding res using i e(2) sz by (auto split: option.splits if_splits)
  have "loaded parser zero mp (es @ [e]) (route_rules st') (acl_rules st') j" if j: "j < length (es @ [e])" for j
  proof (cases "j < length es")
    case True
    show ?thesis by (rule loaded_keep [OF _ True]) (use i True st' in auto)
  next
    case False
    then have "j = length es" using j by simp
    then show ?thesis using p i e st' by (simp add: loaded_def)
  qed
  then show "loader_inv parser zero mp rn an (es @ [e]) st'" using i e na st' by (auto simp: loader_inv_def)
qed

lemma load_acl:
  assumes inv: "loader_inv parser zero mp rn an es st" and e: "is_acl e" "acl_cnt st < an"
    and sz: "length es + 1 < 2 ^ 32" "an < 2 ^ 32"
  shows "load_rule parser pm mp e st \<noteq> None"
    "load_rule parser pm mp e st = Some (Some st') \<Longrightarrow> loader_inv parser zero mp rn an (es @ [e]) st'"
    "good_entry parser zero pm e \<Longrightarrow> \<exists>st'. load_rule parser pm mp e st = Some (Some st')"
proof -
  note i = inv [unfolded loader_inv_def]
  have g: "arr_get (acl_rules st) (int (acl_cnt st)) = Some zero" using i e(2) by simp
  have nr: "\<not> is_route e" using lead_chars(3) e(1) by blast
  then have l: "char_at e = ACL_LEAD_CHAR" "char_at e \<noteq> ROUTE_LEAD_CHAR" "\<not> is_bypass_line e"
    using e(1) lead_chars(2) by (auto simp: is_acl_def is_route_def)
  have res: "load_rule parser pm mp e st = (case parser (tl e) zero False of None \<Rightarrow> Some None
      | Some r \<Rightarrow> Some (Some (st\<lparr>acl_rules := (acl_rules st)[acl_cnt st :=
            finish_rule mp (total_num st) (r\<lparr>userdata := u32 (ACL_DENY_SIGNATURE + acl_cnt st)\<rparr>)],
          acl_cnt := u32 (acl_cnt st + 1), total_num := u32 (total_num st + 1)\<rparr>)))"
    using l g by (cases "parser (tl e) zero False") (simp_all add: load_rule_def Let_def)
  show "load_rule parser pm mp e st \<noteq> None" unfolding res by (simp split: option.splits)
  show "good_entry parser zero pm e \<Longrightarrow> \<exists>st'. load_rule parser pm mp e st = Some (Some st')"
    unfolding res good_entry_def using nr by auto
  assume r: "load_rule parser pm mp e st = Some (Some st')"
  then obtain r where p: "parser (tl e) zero False = Some r" and st': "st' = st\<lparr>acl_rules := (acl_rules st)[acl_cnt st :=
      finish_rule mp (total_num st) (r\<lparr>userdata := u32 (ACL_DENY_SIGNATURE + acl_cnt st)\<rparr>)],
      acl_cnt := acl_cnt st + 1, total_num := total_num st + 1\<rparr>"
    unfolding res using i e(2) sz by (auto split: option.splits)
  have "loaded parser zero mp (es @ [e]) (route_rules st') (acl_rules st') j" if j: "j < length (es @ [e])" for j
  proof (cases "j < length es")
    case True
    show ?thesis by (rule loaded_keep [OF _ True]) (use i True st' in auto)
  next
    case False
    then have "j = length es" using j by simp
    then show ?thesis using p i e nr st' by (simp add: loaded_def)
  qed
  then show "loader_inv parser zero mp rn an (es @ [e]) st'" using i e nr st' by (auto simp: loader_inv_def)
qed

lemma load_bypass: "is_bypass_line e \<Longrightarrow> load_rule parser pm mp e st = Some (Some st)"
  by (simp add: load_rule_def)

lemma load_illegal: "\<not> is_bypass_line e \<Longrightarrow> \<not> is_route e \<Longrightarrow> \<not> is_acl e \<Longrightarrow> load_rule parser pm mp e st = Some None"
  by (simp add: load_rule_def is_route_def is_acl_def)

lemma load_rules_loaded:
  assumes "loader_inv parser zero mp rn an es st"
    and "length (filter is_route (es @ entries ls)) \<le> rn" "length (filter is_acl (es @ entries ls)) \<le> an"
    and "length (es @ entries ls) < 2 ^ 32" "rn < 2 ^ 32" "an < 2 ^ 32"
  shows "(load_rules parser pm mp ls st = None \<longrightarrow> (\<exists>e \<in> set ls. bad_port parser zero e)) \<and>
    (\<forall>st'. load_rules parser pm mp ls st = Some (Some st') \<longrightarrow> loader_inv parser zero mp rn an (es @ entries ls) st') \<and>
    ((\<forall>e \<in> set (entries ls). good_entry parser zero pm e) \<longrightarrow> (\<exists>st'. load_rules parser pm mp ls st = Some (Some st')))"
  using assms
proof (induction ls arbitrary: es st)
  case Nil
  then show ?case by (simp add: entries_def)
next
  case (Cons e ls)
  note i = Cons.prems(1) [unfolded loader_inv_def]
  consider "is_bypass_line e" | "\<not> is_bypass_line e" "is_route e" | "\<not> is_bypass_line e" "is_acl e"
    | "\<not> is_bypass_line e" "\<not> is_route e" "\<not> is_acl e" by blast
  then show ?case
  proof cases
    case 1
    then have "entries (e # ls) = entries ls" by (simp add: entries_def)
    then show ?thesis using Cons.IH [OF Cons.prems(1)] Cons.prems load_bypass [OF 1] by auto
  next
    case 2
    then have en: "entries (e # ls) = e # entries ls" by (simp add: entries_def)
    have room: "route_cnt st < rn" "length es + 1 < 2 ^ 32" using Cons.prems(2,4) i 2 en by simp_all
    note step = load_route [OF Cons.prems(1) 2(2) room Cons.prems(5)]
    have pre: "length (filter is_route ((es @ [e]) @ entries ls)) \<le> rn" "length (filter is_acl ((es @ [e]) @ entries ls)) \<le> an"
      "length ((es @ [e]) @ entries ls) < 2 ^ 32" using Cons.prems(2-4) en by simp_all
    show ?thesis
    proof (cases "load_rule parser pm mp e st")
      case None
      then have "\<not> good_entry parser zero pm e" using step(3) [of pm] by auto
      then show ?thesis using None step(1) [of pm] en by auto
    next
      case (Some o1)
      then show ?thesis
      proof (cases o1)
        case None
        then have "\<not> good_entry parser zero pm e" using Some step(3) [of pm] by auto
        then show ?thesis using None Some en by auto
      next
        case (Some st1)
        have l1: "load_rule parser pm mp e st = Some (Some st1)" using \<open>load_rule parser pm mp e st = Some o1\<close> Some by simp
        show ?thesis using Cons.IH [OF step(2) [OF l1] pre Cons.prems(5,6)] l1 en by auto
      qed
    qed
  next
    case 3
    then have en: "entries (e # ls) = e # entries ls" by (simp add: entries_def)
    have room: "acl_cnt st < an" "length es + 1 < 2 ^ 32" using Cons.prems(3,4) i 3 en by simp_all
    note step = load_acl [OF Cons.prems(1) 3(2) room Cons.prems(6)]
    have pre: "length (filter is_route ((es @ [e]) @ entries ls)) \<le> rn" "length (filter is_acl ((es @ [e]) @ entries ls)) \<le> an"
      "length ((es @ [e]) @ entries ls) < 2 ^ 32" using Cons.prems(2-4) en by simp_all
    obtain o1 where o1: "load_rule parser pm mp e st = Some o1" using step(1) by blast
    show ?thesis
    proof (cases o1)
      case None
      then have "\<not> good_entry parser zero pm e" using o1 step(3) [of pm] by auto
      then show ?thesis using None o1 en by auto
    next
      case (Some st1)
      have l1: "load_rule parser pm mp e st = Some (Some st1)" using o1 Some by simp
      show ?thesis using Cons.IH [OF step(2) [OF l1] pre Cons.prems(5,6)] l1 en by auto
    qed
  next
    case 4
    then have "\<not> good_entry parser zero pm e" "entries (e # ls) = e # entries ls"
      by (simp_all add: good_entry_def entries_def)
    then show ?thesis using load_illegal [OF 4] by auto
  qed
qed

subsection \<open>A whole file\<close>

definition file_entries :: "string \<Rightarrow> string list" where
  "file_entries contents = entries (fgets_lines contents)"

lemma add_rules_cases:
  assumes "length (fgets_lines contents) < 2 ^ 32"
  shows "(add_rules (Some contents) sk ac rc n parser pm mp = None \<longrightarrow> (\<exists>e \<in> set (fgets_lines contents). bad_port parser (zero_rule n) e)) \<and>
    (\<forall>rs r as a. add_rules (Some contents) sk ac rc n parser pm mp = Some (Some (rs, r, as, a)) \<longrightarrow>
       r = length rs \<and> a = length as \<and> r = length (filter is_route (file_entries contents)) \<and>
       a = length (filter is_acl (file_entries contents)) \<and>
       (\<forall>j < length (file_entries contents). loaded parser (zero_rule n) mp (file_entries contents) rs as j)) \<and>
    (sk \<longrightarrow> ac \<longrightarrow> rc \<longrightarrow> (\<exists>e \<in> set (file_entries contents). is_route e) \<longrightarrow>
       (\<forall>e \<in> set (file_entries contents). good_entry parser (zero_rule n) pm e) \<longrightarrow>
       (\<exists>x. add_rules (Some contents) sk ac rc n parser pm mp = Some (Some x)))"
proof -
  let ?ls = "fgets_lines contents" and ?z = "zero_rule n"
  let ?rn = "length (filter is_route ?ls)" and ?an = "length (filter is_acl ?ls)"
  have le: "?rn < 2 ^ 32" "?an < 2 ^ 32" "length (entries ?ls) < 2 ^ 32"
    unfolding entries_def using assms length_filter_le le_less_trans by blast+
  have cnt: "count_rules ?ls 0 0 = (?rn, ?an)" using count_rules [of 0 ?ls 0] le by simp
  let ?st = "\<lparr>route_rules = replicate ?rn ?z, acl_rules = replicate ?an ?z, route_cnt = 0, acl_cnt = 0, total_num = 0\<rparr>"
  have inv: "loader_inv parser ?z mp ?rn ?an [] ?st" by (simp add: loader_inv_def)
  have sz: "length (filter is_route ([] @ entries ?ls)) \<le> ?rn" "length (filter is_acl ([] @ entries ?ls)) \<le> ?an"
    "length ([] @ entries ?ls) < 2 ^ 32" using le by (simp_all add: entries_kinds)
  note L = load_rules_loaded [OF inv sz le(1,2), of pm, simplified, folded file_entries_def]
  let ?L = "load_rules parser pm mp ?ls ?st"
  have eq: "add_rules (Some contents) sk ac rc n parser pm mp =
    (if ?rn = 0 \<or> \<not> sk \<or> \<not> ac \<or> \<not> rc then Some None
     else Option.bind ?L (\<lambda>r. case r of None \<Rightarrow> Some None | Some st \<Rightarrow> Some (Some (route_rules st, route_cnt st, acl_rules st, ?an))))"
    by (simp add: add_rules_def cnt)
  have "r = length rs \<and> a = length as \<and> r = length (filter is_route (file_entries contents)) \<and>
      a = length (filter is_acl (file_entries contents)) \<and>
      (\<forall>j < length (file_entries contents). loaded parser ?z mp (file_entries contents) rs as j)"
    if ok: "add_rules (Some contents) sk ac rc n parser pm mp = Some (Some (rs, r, as, a))" for rs r as a
  proof -
    obtain st where st: "?L = Some (Some st)" "rs = route_rules st" "r = route_cnt st" "as = acl_rules st" "a = ?an"
      using ok unfolding eq by (auto simp: bind_eq_Some_conv split: if_splits option.splits)
    have "loader_inv parser ?z mp ?rn ?an (file_entries contents) st" using L st(1) by blast
    then show ?thesis using st(2-5) entries_kinds [of ?ls] by (simp add: loader_inv_def file_entries_def)
  qed
  moreover have "\<exists>e \<in> set ?ls. bad_port parser ?z e" if "add_rules (Some contents) sk ac rc n parser pm mp = None"
  proof -
    have "?L = None" using that unfolding eq by (auto simp: bind_eq_None_conv split: if_splits option.splits)
    then show ?thesis using L by blast
  qed
  moreover have "\<exists>x. add_rules (Some contents) sk ac rc n parser pm mp = Some (Some x)"
    if f: "sk" "ac" "rc" "\<exists>e \<in> set (file_entries contents). is_route e"
      "\<forall>e \<in> set (file_entries contents). good_entry parser ?z pm e"
  proof -
    have "filter is_route ?ls \<noteq> []" using f(4) unfolding entries_kinds(1) [of ?ls, symmetric] file_entries_def [symmetric]
      by (simp add: filter_empty_conv)
    moreover obtain st where "?L = Some (Some st)" using L f(5) by blast
    ultimately show ?thesis using f(1-3) unfolding eq by simp
  qed
  ultimately show ?thesis by blast
qed

lemma bad_port_entry: "bad_port parser z e \<Longrightarrow> e \<in> set ls \<Longrightarrow> e \<in> set (entries ls)"
  using lead_chars(1) by (auto simp: bad_port_def entries_def)

subsection \<open>Properties\<close>


definition demo_file :: string where
  "demo_file = ''#rules'' @ [NEWLINE] @ ''@a'' @ [NEWLINE] @ ''Rb'' @ [NEWLINE] @ [NEWLINE] @ ''@c'' @ [NEWLINE]"

text \<open>A parser for lines of one letter; the user data of a route is 3.\<close>

definition demo_parser :: rule_parser where
  "demo_parser s v ud = (if ud then Some (v\<lparr>userdata := 3\<rparr>) else Some v)"

lemma demo_file: "fgets_lines demo_file = [''#rules'' @ [NEWLINE], ''@a'' @ [NEWLINE], ''Rb'' @ [NEWLINE], [NEWLINE], ''@c'' @ [NEWLINE]]"
  by (simp add: demo_file_def fgets_lines.simps fgets_line_def NEWLINE_def)

lemma demo_entries: "file_entries demo_file = [''@a'' @ [NEWLINE], ''Rb'' @ [NEWLINE], ''@c'' @ [NEWLINE]]"
  by (simp add: file_entries_def demo_file entries_def is_bypass_line_def COMMENT_LEAD_CHAR_def isspace_def NEWLINE_def)


text \<open>No file of fewer than \<open>2 ^ 32\<close> lines makes the load leave its arrays: its only undefined behaviour is the
  shift by the port number of a route of 32 or more, which the code makes before it knows the port to be legal.\<close>

theorem add_rules_in_bounds:
  assumes "length (fgets_lines contents) < 2 ^ 32"
    and "add_rules (Some contents) sk ac rc n parser pm mp = None"
  shows "\<exists>e \<in> set (file_entries contents). is_route e \<and>
    (\<exists>r. parser (tl e) (zero_rule n) True = Some r \<and> 32 \<le> userdata r)"
  using add_rules_cases [OF assms(1), of sk ac rc n parser pm mp] assms(2) bad_port_entry
  unfolding file_entries_def bad_port_def by blast

theorem add_rules_in_bounds_witness:
  "add_rules (Some demo_file) True True True 5 (\<lambda>s v ud. Some (v\<lparr>userdata := 40\<rparr>)) 8 100 = None \<and>
    (\<exists>e \<in> set (file_entries demo_file). is_route e)"
proof -
  have "add_rules (Some demo_file) True True True 5 (\<lambda>s v ud. Some (v\<lparr>userdata := 40\<rparr>)) 8 100 = None"
    unfolding add_rules_def option.case demo_file
    by (simp add: ROUTE_LEAD_CHAR_def ACL_LEAD_CHAR_def COMMENT_LEAD_CHAR_def load_rule_def is_bypass_line_def
        isspace_def NEWLINE_def finish_rule_def)
  then show ?thesis using add_rules_in_bounds [of demo_file True True True 5 "\<lambda>s v ud. Some (v\<lparr>userdata := 40\<rparr>)" 8 100]
    by (auto simp: demo_file)
qed

end
