(* ===== verification/Lcore_Config.thy ===== *)
theory Lcore_Config
  imports C_Strings
begin

section \<open>Assignment of receive queues to lcores\<close>

text \<open>
  The option \<open>config\<close> of \<^verbatim>\<open>nf-chain/src/main.c\<close>, a list of \<open>(port,queue,lcore)\<close>: its parser, the checks of the
  triples and the queue lists of the lcores. \<open>rte_strsplit\<close> and what is known of lcores and ports come from DPDK and
  are arguments. An access outside an array and a shift by 32 or more are \<open>None\<close>.
\<close>

subsection \<open>The code\<close>

record lcore_params =
  port_id :: nat
  queue_id :: nat
  lcore_id :: nat

record lcore_conf =
  n_rx_queue :: nat
  rx_queue_list :: "(nat \<times> nat) list"

text \<open>The configuration without an option.\<close>

definition lcore_params_array_default :: "lcore_params list" where
  "lcore_params_array_default = map (\<lambda>(p, q, l). \<lparr>port_id = p, queue_id = q, lcore_id = l\<rparr>)
     [(0, 0, 2), (0, 1, 2), (0, 2, 2), (1, 0, 2), (1, 1, 2), (1, 2, 2), (2, 0, 2), (3, 0, 3), (3, 1, 3)]"

definition MAX_RX_QUEUE_PER_LCORE :: nat where "MAX_RX_QUEUE_PER_LCORE = 2048"
definition MAX_RX_QUEUE_PER_PORT :: nat where "MAX_RX_QUEUE_PER_PORT = 2048"
definition MAX_LCORE_PARAMS :: nat where "MAX_LCORE_PARAMS = 1024"

definition strchr :: "string \<Rightarrow> char \<Rightarrow> string option" where
  "strchr s c = (let r = dropWhile (\<lambda>x. x \<noteq> c) s in if r = [] then None else Some r)"

lemma strchr_length: "strchr s c = Some r \<Longrightarrow> length r \<le> length s \<and> r \<noteq> []"
  using length_dropWhile_le by (auto simp: strchr_def Let_def split: if_splits)

text \<open>The loop over the fields: each is a number of at most 255.\<close>

fun config_fields :: "string list \<Rightarrow> nat list option" where
  "config_fields [] = Some []"
| "config_fields (fld # flds) =
     (let (v, rest, err) = strtoul 0 fld
      in if err \<or> rest = fld \<or> 255 < v then None
         else Option.bind (config_fields flds) (\<lambda>vs. Some (v # vs)))"

text \<open>The result and the triples stored so far, whose number is \<open>nb_lcore_params\<close>.\<close>

function parse_config_from ::
  "(string \<Rightarrow> nat \<Rightarrow> char \<Rightarrow> string list) \<Rightarrow> string \<Rightarrow> lcore_params list \<Rightarrow> int \<times> lcore_params list" where
  "parse_config_from rte_strsplit p0 params =
     (case strchr p0 CHR ''('' of
        None \<Rightarrow> (0, params)
      | Some p \<Rightarrow>
          (case strchr (tl p) CHR '')'' of
             None \<Rightarrow> (- 1, params)
           | Some p0' \<Rightarrow>
               let size = length (tl p) - length p0'; s = take size (tl p); str_fld = rte_strsplit s 3 CHR '',''
               in if 256 \<le> size then (- 1, params)
                  else if length str_fld \<noteq> 3 then (- 1, params)
                  else case config_fields str_fld of
                    None \<Rightarrow> (- 1, params)
                  | Some int_fld \<Rightarrow>
                      if MAX_LCORE_PARAMS \<le> length params then (- 1, params)
                      else parse_config_from rte_strsplit p0' (params @
                        [\<lparr>port_id = int_fld ! 0, queue_id = int_fld ! 1, lcore_id = int_fld ! 2\<rparr>])))"
  by pat_completeness auto
termination
proof (relation "measure (\<lambda>(f, p0, params). length p0)")
  fix f p0 params p p0' and x xa :: nat and y ya vs
  assume a: "strchr p0 CHR ''('' = Some p" "strchr (tl p) CHR '')'' = Some p0'"
  have "length p \<le> length p0" "p \<noteq> []" "length p0' \<le> length (tl p)"
    using a [THEN strchr_length] by blast+
  then have "length p0' < length p0" by (cases p) auto
  then show "((f, p0', params @ [\<lparr>port_id = vs ! 0, queue_id = vs ! 1, lcore_id = vs ! 2\<rparr>]), f, p0, params)
    \<in> measure (\<lambda>(f, p0, params). length p0)" by simp
qed simp

declare parse_config_from.simps [simp del]

definition parse_config ::
  "(string \<Rightarrow> nat \<Rightarrow> char \<Rightarrow> string list) \<Rightarrow> string \<Rightarrow> int \<times> lcore_params list" where
  "parse_config rte_strsplit q_arg = parse_config_from rte_strsplit q_arg []"

fun check_lcore_params :: "(nat \<Rightarrow> bool) \<Rightarrow> lcore_params list \<Rightarrow> int" where
  "check_lcore_params lcore_is_enabled [] = 0"
| "check_lcore_params lcore_is_enabled (p # ps) =
     (if MAX_RX_QUEUE_PER_PORT \<le> queue_id p then - 1
      else if \<not> lcore_is_enabled (lcore_id p) then - 1
      else check_lcore_params lcore_is_enabled ps)"

fun check_port_config :: "nat \<Rightarrow> (nat \<Rightarrow> bool) \<Rightarrow> lcore_params list \<Rightarrow> int option" where
  "check_port_config enabled_port_mask is_valid_port [] = Some 0"
| "check_port_config enabled_port_mask is_valid_port (p # ps) =
     (if 32 \<le> port_id p then None
      else if enabled_port_mask AND 2 ^ port_id p = 0 then Some (- 1)
      else if \<not> is_valid_port (port_id p) then Some (- 1)
      else check_port_config enabled_port_mask is_valid_port ps)"

fun highest_queue :: "nat \<Rightarrow> lcore_params list \<Rightarrow> int \<Rightarrow> int" where
  "highest_queue port [] queue = queue"
| "highest_queue port (p # ps) queue =
     (if port_id p = port \<and> queue < int (queue_id p) then highest_queue port ps (int (queue_id p))
      else highest_queue port ps queue)"

definition get_port_n_rx_queues :: "nat \<Rightarrow> lcore_params list \<Rightarrow> nat" where
  "get_port_n_rx_queues port params = nat ((highest_queue port params (- 1) + 1) mod 256)"

fun init_lcore_rx_queues :: "lcore_params list \<Rightarrow> lcore_conf list \<Rightarrow> (int \<times> lcore_conf list) option" where
  "init_lcore_rx_queues [] confs = Some (0, confs)"
| "init_lcore_rx_queues (p # ps) confs = do {
     conf \<leftarrow> arr_get confs (int (lcore_id p));
     let nb_rx_queue = n_rx_queue conf;
     if MAX_RX_QUEUE_PER_LCORE \<le> nb_rx_queue then Some (- 1, confs)
     else do {
       queues \<leftarrow> arr_set (rx_queue_list conf) (int nb_rx_queue) (port_id p, queue_id p);
       init_lcore_rx_queues ps
         (confs[lcore_id p := conf\<lparr>rx_queue_list := queues, n_rx_queue := (n_rx_queue conf + 1) mod 2 ^ 16\<rparr>])
     }
   }"

subsection \<open>Reading a configuration\<close>

definition triple_text :: "lcore_params \<Rightarrow> string" where
  "triple_text p = num 10 (port_id p) @ CHR '','' # num 10 (queue_id p) @ CHR '','' # num 10 (lcore_id p)"

fun config_text :: "lcore_params list \<Rightarrow> string" where
  "config_text [] = []"
| "config_text (p # ps) = CHR ''('' # triple_text p @ CHR '')'' # (if ps = [] then [] else [CHR '','']) @ config_text ps"

text \<open>What \<open>rte_strsplit\<close> is documented to do with three fields.\<close>

definition splits_triples :: "(string \<Rightarrow> nat \<Rightarrow> char \<Rightarrow> string list) \<Rightarrow> bool" where
  "splits_triples rte_strsplit \<longleftrightarrow> (\<forall>a b c. a \<noteq> [] \<and> b \<noteq> [] \<and> c \<noteq> [] \<and> CHR '','' \<notin> set (a @ b @ c) \<longrightarrow>
     rte_strsplit (a @ CHR '','' # b @ CHR '','' # c) 3 CHR '','' = [a, b, c])"

definition byte_triple :: "lcore_params \<Rightarrow> bool" where
  "byte_triple p \<longleftrightarrow> port_id p \<le> 255 \<and> queue_id p \<le> 255 \<and> lcore_id p \<le> 255"

lemma num_chars: "c \<in> set (num 10 n) \<Longrightarrow> c \<noteq> CHR '','' \<and> c \<noteq> CHR ''('' \<and> c \<noteq> CHR '')''"
  using num_digits [of 10 c n] by (auto simp: digit_value_def)

lemma num_length: "n \<le> 255 \<Longrightarrow> length (num 10 n) \<le> 3"
  by (simp add: num.simps [of 10 n] num.simps [of 10 "n div 10"] num.simps [of 10 "n div 10 div 10"])

lemma config_fields_num:
  assumes "a \<le> 255" "b \<le> 255" "c \<le> 255"
  shows "config_fields [num 10 a, num 10 b, num 10 c] = Some [a, b, c]"
  using assms strtoul_dec [of a "[]"] strtoul_dec [of b "[]"] strtoul_dec [of c "[]"] num_not_Nil
  by (simp add: neq_commute [of "[]"])

lemma strchr_skip: "c \<notin> set xs \<Longrightarrow> strchr (xs @ c # ys) c = Some (c # ys)"
proof -
  assume "c \<notin> set xs"
  then have "dropWhile (\<lambda>x. x \<noteq> c) (xs @ c # ys) = c # ys" by (subst dropWhile_append2) auto
  then show ?thesis by (simp add: strchr_def)
qed

lemma parse_config_step:
  assumes sp: "splits_triples rte_strsplit" and p: "byte_triple p" and pre: "CHR ''('' \<notin> set pre" and room: "length params < MAX_LCORE_PARAMS"
  shows "parse_config_from rte_strsplit (pre @ CHR ''('' # triple_text p @ CHR '')'' # rest) params =
    parse_config_from rte_strsplit (CHR '')'' # rest) (params @ [p])"
proof -
  have c: "CHR '')'' \<notin> set (triple_text p)" "CHR '','' \<notin> set (num 10 (port_id p) @ num 10 (queue_id p) @ num 10 (lcore_id p))"
    using num_chars by (auto simp: triple_text_def)
  have l: "length (triple_text p) < 256"
    using num_length [of "port_id p"] num_length [of "queue_id p"] num_length [of "lcore_id p"] p
    by (simp add: triple_text_def byte_triple_def)
  have f: "rte_strsplit (triple_text p) 3 CHR '','' = [num 10 (port_id p), num 10 (queue_id p), num 10 (lcore_id p)]"
    using sp c(2) unfolding splits_triples_def triple_text_def by simp
  note s1 = strchr_skip [OF pre, of "triple_text p @ CHR '')'' # rest"]
  note s2 = strchr_skip [OF c(1), of rest]
  have g: "config_fields [num 10 (port_id p), num 10 (queue_id p), num 10 (lcore_id p)] = Some [port_id p, queue_id p, lcore_id p]"
    using p by (intro config_fields_num) (simp_all add: byte_triple_def)
  show ?thesis
    using s1 s2 f g l room by (cases p, subst parse_config_from.simps) (simp del: config_fields.simps)
qed

lemma parse_config_text:
  assumes sp: "splits_triples rte_strsplit"
  shows "\<forall>p \<in> set ps. byte_triple p \<Longrightarrow> length params + length ps \<le> MAX_LCORE_PARAMS \<Longrightarrow> CHR ''('' \<notin> set pre \<Longrightarrow>
    parse_config_from rte_strsplit (pre @ config_text ps) params = (0, params @ ps)"
proof (induction ps arbitrary: params pre)
  case Nil
  then have "strchr pre CHR ''('' = None" by (auto simp: strchr_def Let_def dropWhile_eq_Nil_conv)
  then show ?case by (simp add: parse_config_from.simps [of _ pre])
next
  case (Cons p ps)
  let ?pre = "CHR '')'' # (if ps = [] then [] else [CHR '',''])"
  have "parse_config_from rte_strsplit (pre @ config_text (p # ps)) params =
      parse_config_from rte_strsplit (?pre @ config_text ps) (params @ [p])"
    using parse_config_step [OF sp _ Cons.prems(3), of p params] Cons.prems(1,2) by simp
  also have "\<dots> = (0, (params @ [p]) @ ps)"
    by (rule Cons.IH) (use Cons.prems in auto)
  finally show ?case by simp
qed

text \<open>Whatever is read, the triples fit their types and their array.\<close>

lemma config_fields_type: "config_fields xs = Some ys \<Longrightarrow> length ys = length xs \<and> (\<forall>y \<in> set ys. y \<le> 255)"
  by (induction xs arbitrary: ys) (auto simp: Let_def bind_eq_Some_conv split: prod.splits if_splits)

definition params_ok :: "lcore_params list \<Rightarrow> bool" where
  "params_ok ps \<longleftrightarrow> length ps \<le> MAX_LCORE_PARAMS \<and> (\<forall>p \<in> set ps. byte_triple p)"

lemma lcore_params_array_default_ok: "params_ok lcore_params_array_default"
  by (simp add: params_ok_def lcore_params_array_default_def byte_triple_def MAX_LCORE_PARAMS_def)

lemma parse_config_type:
  "params_ok params \<Longrightarrow> params_ok (snd (parse_config_from rte_strsplit s params))"
proof (induction rte_strsplit s params rule: parse_config_from.induct)
  case (1 f p0 params)
  have "params_ok (params @ [\<lparr>port_id = vs ! 0, queue_id = vs ! 1, lcore_id = vs ! 2\<rparr>])"
    if "config_fields (f t 3 c) = Some vs" "length (f t 3 c) = 3" "length params < MAX_LCORE_PARAMS" for vs t c
  proof -
    have "length vs = 3" "\<forall>y \<in> set vs. y \<le> 255" using config_fields_type [OF that(1)] that(2) by auto
    then show ?thesis using 1(2) that(3) by (auto simp: params_ok_def byte_triple_def)
  qed
  then show ?case using 1
    by (subst parse_config_from.simps) (auto simp: Let_def split: option.split)
qed

subsection \<open>The queues of the lcores\<close>

text \<open>The queues that a configuration gives to an lcore, in its order.\<close>

definition queues_of :: "nat \<Rightarrow> lcore_params list \<Rightarrow> (nat \<times> nat) list" where
  "queues_of l ps = map (\<lambda>p. (port_id p, queue_id p)) (filter (\<lambda>p. lcore_id p = l) ps)"

definition confs_hold :: "lcore_params list \<Rightarrow> lcore_conf list \<Rightarrow> bool" where
  "confs_hold ps confs \<longleftrightarrow> (\<forall>l < length confs. length (rx_queue_list (confs ! l)) = MAX_RX_QUEUE_PER_LCORE \<and>
     n_rx_queue (confs ! l) = length (queues_of l ps) \<and>
     take (n_rx_queue (confs ! l)) (rx_queue_list (confs ! l)) = queues_of l ps)"

lemma queues_of_snoc [simp]:
  "queues_of l (ps @ [p]) = queues_of l ps @ (if lcore_id p = l then [(port_id p, queue_id p)] else [])"
  by (simp add: queues_of_def)

lemma length_queues_of: "length (queues_of l ps) \<le> length ps"
  by (simp add: queues_of_def)

lemma init_lcore_rx_queues_fills:
  assumes "confs_hold qs confs" "length (qs @ ps) \<le> MAX_LCORE_PARAMS" "\<forall>p \<in> set ps. lcore_id p < length confs"
  shows "\<exists>confs'. init_lcore_rx_queues ps confs = Some (0, confs') \<and> length confs' = length confs \<and> confs_hold (qs @ ps) confs'"
  using assms
proof (induction ps arbitrary: qs confs)
  case Nil
  then show ?case by simp
next
  case (Cons p ps)
  let ?l = "lcore_id p" and ?x = "(port_id p, queue_id p)"
  let ?c = "confs ! lcore_id p"
  have l: "?l < length confs" using Cons.prems(3) by simp
  have c: "length (rx_queue_list ?c) = MAX_RX_QUEUE_PER_LCORE" "n_rx_queue ?c = length (queues_of ?l qs)"
    "take (n_rx_queue ?c) (rx_queue_list ?c) = queues_of ?l qs"
    using Cons.prems(1) l by (auto simp: confs_hold_def)
  have room: "n_rx_queue ?c < 1024"
    using c(2) length_queues_of [of ?l qs] Cons.prems(2) by (simp add: MAX_LCORE_PARAMS_def)
  let ?confs = "confs[?l := ?c\<lparr>rx_queue_list := (rx_queue_list ?c)[n_rx_queue ?c := ?x], n_rx_queue := n_rx_queue ?c + 1\<rparr>]"
  have step: "init_lcore_rx_queues (p # ps) confs = init_lcore_rx_queues ps ?confs"
    using l room c(1) by (simp add: Let_def MAX_RX_QUEUE_PER_LCORE_def)
  have "take (n_rx_queue ?c + 1) ((rx_queue_list ?c)[n_rx_queue ?c := ?x]) = queues_of ?l qs @ [?x]"
    using room c(1,3) by (simp add: take_Suc_conv_app_nth MAX_RX_QUEUE_PER_LCORE_def)
  then have "confs_hold (qs @ [p]) ?confs"
    using Cons.prems(1) l c by (auto simp: confs_hold_def nth_list_update)
  from Cons.IH [OF this] show ?case using Cons.prems(2,3) step by simp
qed

lemma check_lcore_params_ok:
  "check_lcore_params enabled ps = 0 \<Longrightarrow> p \<in> set ps \<Longrightarrow> enabled (lcore_id p)"
  by (induction ps) (auto split: if_splits)

lemma highest_queue_max: "highest_queue port ps q = Max (insert q ((\<lambda>p. int (queue_id p)) ` {p \<in> set ps. port_id p = port}))"
proof (induction ps arbitrary: q)
  case (Cons p ps)
  let ?S = "(\<lambda>p. int (queue_id p)) ` {p \<in> set ps. port_id p = port}"
  have f: "finite ?S" by simp
  show ?case
  proof (cases "port_id p = port")
    case True
    then have "{x \<in> set (p # ps). port_id x = port} = insert p {x \<in> set ps. port_id x = port}" by auto
    then have s: "insert q ((\<lambda>p. int (queue_id p)) ` {x \<in> set (p # ps). port_id x = port}) = insert q (insert (int (queue_id p)) ?S)" by simp
    have m: "finite S \<Longrightarrow> Max (insert a (insert b S)) = Max (insert (max a b) S)" for S :: "int set" and a b
      by (cases "S = {}") (simp_all add: max.assoc)
    show ?thesis unfolding s m [OF f] using Cons [of "int (queue_id p)"] Cons [of q] True by (simp add: max_def)
  next
    case False
    then have "{x \<in> set (p # ps). port_id x = port} = {x \<in> set ps. port_id x = port}" by auto
    then show ?thesis using Cons [of q] False by simp
  qed
qed simp

subsection \<open>Properties\<close>

text \<open>C29. The text of any configuration with at most 1024 triples of numbers up to 255 is read back as that
  configuration; and whatever text is read, accepted or not, the triples stored fit their array and their types.\<close>

theorem parse_config_roundtrip:
  assumes "splits_triples rte_strsplit" "params_ok ps"
  shows "parse_config rte_strsplit (config_text ps) = (0, ps) \<and> params_ok (snd (parse_config rte_strsplit q_arg))"
proof -
  have "parse_config_from rte_strsplit ([] @ config_text ps) [] = (0, [] @ ps)"
    by (rule parse_config_text [OF assms(1)]) (use assms(2) in \<open>auto simp: params_ok_def\<close>)
  moreover have "params_ok []" by (simp add: params_ok_def)
  ultimately show ?thesis using parse_config_type by (simp add: parse_config_def)
qed

text \<open>A splitter at every delimiter.\<close>

fun split_at :: "string \<Rightarrow> char \<Rightarrow> string \<Rightarrow> string list" where
  "split_at acc d [] = [acc]"
| "split_at acc d (c # cs) = (if c = d then acc # split_at [] d cs else split_at (acc @ [c]) d cs)"

lemma split_at_skip: "d \<notin> set xs \<Longrightarrow> split_at acc d (xs @ ys) = split_at (acc @ xs) d ys"
  by (induction xs arbitrary: acc) auto

lemma split_at_triples: "splits_triples (\<lambda>s n d. split_at [] d s)"
  unfolding splits_triples_def
proof (intro allI impI, elim conjE)
  fix a b c
  assume "CHR '','' \<notin> set (a @ b @ c)"
  then show "split_at [] CHR '','' (a @ CHR '','' # b @ CHR '','' # c) = [a, b, c]"
    using split_at_skip [of "CHR '',''" c "[]" "[]"] by (simp add: split_at_skip)
qed

definition demo_params :: "lcore_params list" where
  "demo_params = [\<lparr>port_id = 0, queue_id = 3, lcore_id = 1\<rparr>, \<lparr>port_id = 2, queue_id = 0, lcore_id = 0\<rparr>, \<lparr>port_id = 0, queue_id = 4, lcore_id = 1\<rparr>]"

theorem parse_config_roundtrip_witness:
  "parse_config (\<lambda>s n d. split_at [] d s) (config_text demo_params) = (0, demo_params)"
proof -
  have "params_ok demo_params" by (simp add: params_ok_def demo_params_def byte_triple_def MAX_LCORE_PARAMS_def)
  then show ?thesis using parse_config_roundtrip [OF split_at_triples] by blast
qed

text \<open>When the triples read from the command line pass \<open>check_lcore_params\<close>, their distribution never leaves an array and
  never fails, and afterwards every lcore lists exactly the queues configured for it, in their order.\<close>

theorem lcore_queues_assigned:
  assumes "snd (parse_config rte_strsplit q_arg) = ps" "check_lcore_params enabled ps = 0"
    and "\<forall>l. enabled l \<longrightarrow> l < length confs"
    and "\<forall>c \<in> set confs. n_rx_queue c = 0 \<and> length (rx_queue_list c) = MAX_RX_QUEUE_PER_LCORE"
  shows "\<exists>confs'. init_lcore_rx_queues ps confs = Some (0, confs') \<and> length confs' = length confs \<and>
    (\<forall>l < length confs'. take (n_rx_queue (confs' ! l)) (rx_queue_list (confs' ! l)) = queues_of l ps)"
proof -
  have "params_ok []" by (simp add: params_ok_def)
  then have "params_ok ps" using parse_config_type assms(1) by (auto simp: parse_config_def)
  then have len: "length ([] @ ps) \<le> MAX_LCORE_PARAMS" by (simp add: params_ok_def)
  have in_range: "\<forall>p \<in> set ps. lcore_id p < length confs" using check_lcore_params_ok [OF assms(2)] assms(3) by blast
  have "confs_hold [] confs" using assms(4) by (simp add: confs_hold_def queues_of_def)
  from init_lcore_rx_queues_fills [OF this len in_range] show ?thesis by (auto simp: confs_hold_def)
qed

theorem lcore_queues_assigned_witness:
  "\<exists>confs'. init_lcore_rx_queues demo_params (replicate 4 \<lparr>n_rx_queue = 0, rx_queue_list = replicate 2048 (0, 0)\<rparr>) = Some (0, confs') \<and>
    take (n_rx_queue (confs' ! 1)) (rx_queue_list (confs' ! 1)) = [(0, 3), (0, 4)]"
proof -
  have "params_ok demo_params" by (simp add: params_ok_def demo_params_def byte_triple_def MAX_LCORE_PARAMS_def)
  then have p: "snd (parse_config (\<lambda>s n d. split_at [] d s) (config_text demo_params)) = demo_params"
    using parse_config_text [OF split_at_triples, of demo_params "[]" "[]"] by (simp add: parse_config_def params_ok_def)
  have c: "check_lcore_params (\<lambda>l. l < 4) demo_params = 0"
    by (simp add: demo_params_def MAX_RX_QUEUE_PER_PORT_def)
  have q: "queues_of 1 demo_params = [(0, 3), (0, 4)]" by (simp add: queues_of_def demo_params_def)
  let ?confs = "replicate 4 \<lparr>n_rx_queue = 0, rx_queue_list = replicate 2048 (0 :: nat, 0 :: nat)\<rparr>"
  obtain confs' where "init_lcore_rx_queues demo_params ?confs = Some (0, confs')" "length confs' = length ?confs"
    "\<forall>l < length confs'. take (n_rx_queue (confs' ! l)) (rx_queue_list (confs' ! l)) = queues_of l demo_params"
    using lcore_queues_assigned [OF p c, of ?confs] by (auto simp: MAX_RX_QUEUE_PER_LCORE_def)
  then show ?thesis using q by (intro exI [of _ confs']) simp
qed

text \<open>The number of queues of a port is the highest queue plus one, cut to 8 bits: a port with queue 255 has none.\<close>

lemma get_port_n_rx_queues_max:
  assumes "\<exists>p \<in> set ps. port_id p = port"
  shows "get_port_n_rx_queues port ps = (Max (queue_id ` {p \<in> set ps. port_id p = port}) + 1) mod 256"
proof -
  let ?Q = "queue_id ` {p \<in> set ps. port_id p = port}"
  have ne: "?Q \<noteq> {}" "finite ?Q" using assms by auto
  have "(\<lambda>p. int (queue_id p)) ` {p \<in> set ps. port_id p = port} = int ` ?Q" by (simp add: image_image)
  then have "highest_queue port ps (- 1) = Max (insert (- 1) (int ` ?Q))" using highest_queue_max by simp
  also have "\<dots> = max (- 1) (Max (int ` ?Q))" using ne by simp
  also have "Max (int ` ?Q) = int (Max ?Q)" using mono_Max_commute [of int ?Q] ne by (simp add: mono_def)
  finally have "highest_queue port ps (- 1) = int (Max ?Q)" by simp
  then show ?thesis by (simp add: get_port_n_rx_queues_def nat_mod_as_int add.commute)
qed

end
