(* ===== verification/Vector.thy ===== *)
theory Vector
  imports Prelude
begin

section \<open>Memory blocks and struct Vector: vector.c\<close>

text \<open>
  A memory block is a list of bytes; a pointer into it is an offset. Loads and stores are
  checked: an access that is not entirely inside the block is \<open>None\<close>. Multi-byte integers are
  little endian, as on the x86 targets of DPDK.

  A \<open>struct Vector\<close> is one block of \<open>capacity\<close> slots of \<open>elem_size\<close> bytes; \<open>vector_borrow\<close>
  hands out the pointer of a slot and \<open>vector_return\<close> does nothing.
\<close>

type_synonym bytes = "8 word list"

definition load_bytes :: "bytes \<Rightarrow> int \<Rightarrow> nat \<Rightarrow> bytes option" where
  "load_bytes d p k =
     (if 0 \<le> p \<and> p + int k \<le> int (length d) then Some (take k (drop (nat p) d)) else None)"

definition store_bytes :: "bytes \<Rightarrow> int \<Rightarrow> bytes \<Rightarrow> bytes option" where
  "store_bytes d p bs =
     (if 0 \<le> p \<and> p + int (length bs) \<le> int (length d)
      then Some (take (nat p) d @ bs @ drop (nat p + length bs) d) else None)"

fun le_val :: "bytes \<Rightarrow> nat" where
  "le_val [] = 0"
| "le_val (b # bs) = unat b + 256 * le_val bs"

fun le_bytes :: "nat \<Rightarrow> nat \<Rightarrow> bytes" where
  "le_bytes 0 v = []"
| "le_bytes (Suc k) v = word_of_nat (v mod 256) # le_bytes k (v div 256)"

definition load_u16 :: "bytes \<Rightarrow> int \<Rightarrow> nat option" where
  "load_u16 d p = map_option le_val (load_bytes d p 2)"

definition load_u32 :: "bytes \<Rightarrow> int \<Rightarrow> nat option" where
  "load_u32 d p = map_option le_val (load_bytes d p 4)"

definition store_u32 :: "bytes \<Rightarrow> int \<Rightarrow> nat \<Rightarrow> bytes option" where
  "store_u32 d p v = store_bytes d p (le_bytes 4 v)"

text \<open>Network order fields, as host integers.\<close>

definition load_be16 :: "bytes \<Rightarrow> int \<Rightarrow> nat option" where
  "load_be16 d p = map_option (le_val \<circ> rev) (load_bytes d p 2)"

definition load_be32 :: "bytes \<Rightarrow> int \<Rightarrow> nat option" where
  "load_be32 d p = map_option (le_val \<circ> rev) (load_bytes d p 4)"

lemma length_le_bytes [simp]: "length (le_bytes k v) = k"
  by (induction k arbitrary: v) auto

lemma le_val_le_bytes: "le_val (le_bytes k v) = v mod 256 ^ k"
proof (induction k arbitrary: v)
  case (Suc k)
  have "unat (word_of_nat (v mod 256) :: 8 word) = v mod 256"
    by (simp add: unat_of_nat take_bit_eq_mod)
  moreover have "v mod 256 + 256 * (v div 256 mod 256 ^ k) = v mod (256 * 256 ^ k)"
    by (simp add: mod_mult2_eq)
  ultimately show ?case using Suc [of "v div 256"] by simp
qed simp

lemma le_val_bound: "le_val bs < 256 ^ length bs"
proof (induction bs)
  case (Cons b bs)
  have "unat b < 256" using unsigned_less [of b, where ?'a = nat] by simp
  moreover have "le_val bs + 1 \<le> 256 ^ length bs" using Cons by simp
  then have "256 * (le_val bs + 1) \<le> 256 * 256 ^ length bs" by (rule mult_left_mono) simp
  ultimately have "unat b + 256 * le_val bs < 256 * 256 ^ length bs" by simp
  then show ?case by simp
qed simp

lemma load_bytes_length: "load_bytes d p k = Some bs \<Longrightarrow> length bs = k"
  by (auto simp: load_bytes_def split: if_splits)

lemma store_bytes_length: "store_bytes d p bs = Some d' \<Longrightarrow> length d' = length d"
  by (auto simp: store_bytes_def split: if_splits)

lemma load_store_same:
  assumes "store_bytes d p bs = Some d'" "0 \<le> o'" "o' + int k \<le> int (length bs)"
  shows "load_bytes d' (p + o') k = Some (take k (drop (nat o') bs))"
proof -
  have d': "d' = take (nat p) d @ bs @ drop (nat p + length bs) d" "0 \<le> p"
    "p + int (length bs) \<le> int (length d)"
    using assms(1) by (auto simp: store_bytes_def split: if_splits)
  then have "length d' = length d" by auto
  moreover have "nat (p + o') = nat p + nat o'" using d' assms by (simp add: nat_add_distrib)
  ultimately show ?thesis using d' assms by (auto simp: load_bytes_def)
qed

lemma load_store_other:
  assumes "store_bytes d p bs = Some d'" "q + int k \<le> p \<or> p + int (length bs) \<le> q"
  shows "load_bytes d' q k = load_bytes d q k"
proof (cases "0 \<le> q \<and> q + int k \<le> int (length d)")
  case True
  have d': "d' = take (nat p) d @ bs @ drop (nat p + length bs) d" "0 \<le> p"
    "p + int (length bs) \<le> int (length d)"
    using assms(1) by (auto simp: store_bytes_def split: if_splits)
  then have l: "length d' = length d" by auto
  show ?thesis
  proof (cases "q + int k \<le> p")
    case before: True
    then have "nat q + k \<le> nat p" using True by linarith
    have "nat q \<le> length (take (nat p) d)" "k \<le> length (drop (nat q) (take (nat p) d))"
      using before True d' \<open>nat q + k \<le> nat p\<close> by auto
    then have "take k (drop (nat q) d') = take k (drop (nat q) (take (nat p) d))"
      unfolding d'(1) drop_append take_append by simp
    also have "\<dots> = take k (drop (nat q) d)"
    proof -
      have "k \<le> nat p - nat q" using \<open>nat q + k \<le> nat p\<close> by linarith
      then show ?thesis by (simp add: drop_take min_def)
    qed
    finally have "take k (drop (nat q) d') = take k (drop (nat q) d)" .
    then show ?thesis using True l by (simp add: load_bytes_def)
  next
    case False
    then have "nat p + length bs \<le> nat q" using assms(2) d' by simp
    then have "drop (nat q) d' = drop (nat q) d"
      using d' True by simp
    then show ?thesis using True l by (simp add: load_bytes_def)
  qed
next
  case False
  then show ?thesis using store_bytes_length [OF assms(1)] by (auto simp: load_bytes_def)
qed

lemma le_bytes_le_val: "le_bytes (length bs) (le_val bs) = bs"
proof (induction bs)
  case (Cons b bs)
  have "unat b < 256" using unsigned_less [of b, where ?'a = nat] by simp
  then show ?case using Cons by simp
qed simp

text \<open>Stores that follow each other: \<open>a\<close> is written, \<open>r\<close> is not.\<close>

lemma store_next:
  assumes "p = int (length a)" "length y \<le> length r"
  shows "store_bytes (a @ r) p y = Some ((a @ y) @ drop (length y) r)"
  using assms by (simp add: store_bytes_def)

lemma store_over:
  assumes "p = int (length a)" "length y = length x"
  shows "store_bytes (a @ x @ r) p y = Some (a @ y @ r)"
  using assms by (simp add: store_bytes_def)

subsection \<open>struct Vector\<close>

record vector =
  vdata :: bytes
  elem_size :: int
  vcapacity :: nat

text \<open>\<open>malloc_vector\<close> tells whether the first allocation succeeded, \<open>malloc_data\<close> what the second
  returned for the byte count of its argument; \<open>init_elem\<close> writes through its pointer.\<close>

function vector_init :: "(bytes \<Rightarrow> int \<Rightarrow> bytes option) \<Rightarrow> int \<Rightarrow> nat \<Rightarrow> nat \<Rightarrow> bytes \<Rightarrow> bytes option"
  where
  "vector_init init_elem esz cap i d =
    (if i < cap then do {
       d \<leftarrow> init_elem d (esz * int i);
       vector_init init_elem esz cap (Suc i) d
     } else Some d)"
  by pat_completeness auto
termination
  by (relation "measure (\<lambda>(f, esz, cap, i, d). cap - i)") auto

declare vector_init.simps [simp del]

definition vector_allocate ::
  "int \<Rightarrow> nat \<Rightarrow> (bytes \<Rightarrow> int \<Rightarrow> bytes option) \<Rightarrow> bool \<Rightarrow> (nat \<Rightarrow> bytes option) \<Rightarrow> vector option option"
  where
  "vector_allocate esz cap init_elem malloc_vector malloc_data =
     (if \<not> malloc_vector then Some None
      else (case malloc_data (u32 (nat (esz mod 2 ^ 32) * cap)) of
              None \<Rightarrow> Some None
            | Some d \<Rightarrow> do {
                d \<leftarrow> vector_init init_elem esz cap 0 d;
                Some (Some \<lparr>vdata = d, elem_size = esz, vcapacity = cap\<rparr>)
              }))"

definition vector_borrow :: "vector \<Rightarrow> int \<Rightarrow> int" where
  "vector_borrow v index = index * elem_size v"

definition vector_return :: "vector \<Rightarrow> int \<Rightarrow> int \<Rightarrow> vector" where
  "vector_return v index val = v"

text \<open>The slots: inside the block, and disjoint.\<close>

definition vector_wf :: "vector \<Rightarrow> bool" where
  "vector_wf v \<longleftrightarrow> 0 < elem_size v \<and> int (length (vdata v)) = elem_size v * int (vcapacity v)"

lemma slot_bounds:
  assumes "vector_wf v" "0 \<le> i" "i < int (vcapacity v)"
  shows "0 \<le> vector_borrow v i" "vector_borrow v i + elem_size v \<le> int (length (vdata v))"
proof -
  have e: "0 < elem_size v" "int (length (vdata v)) = elem_size v * int (vcapacity v)"
    using assms(1) by (auto simp: vector_wf_def)
  show "0 \<le> vector_borrow v i" using e assms by (simp add: vector_borrow_def)
  have "vector_borrow v i + elem_size v = elem_size v * (i + 1)"
    by (simp add: vector_borrow_def algebra_simps)
  also have "\<dots> \<le> elem_size v * int (vcapacity v)"
    using e assms by (intro mult_left_mono) auto
  finally show "vector_borrow v i + elem_size v \<le> int (length (vdata v))" using e by simp
qed

lemma slot_disjoint:
  assumes "0 < elem_size v" "i \<noteq> j"
  shows "vector_borrow v i + elem_size v \<le> vector_borrow v j \<or>
    vector_borrow v j + elem_size v \<le> vector_borrow v i"
proof -
  have step: "a * elem_size v + elem_size v \<le> b * elem_size v" if "a < b" for a b
  proof -
    have "(a + 1) * elem_size v \<le> b * elem_size v"
      using assms(1) that by (intro mult_right_mono) auto
    then show ?thesis by (simp add: algebra_simps)
  qed
  then show ?thesis using assms(2) unfolding vector_borrow_def by (metis linorder_neq_iff)
qed

lemma slot_inj: "0 < elem_size v \<Longrightarrow> vector_borrow v i = vector_borrow v j \<longleftrightarrow> i = j"
  by (simp add: vector_borrow_def)

text \<open>Writing at most a slot's size to one slot leaves every other slot as it was.\<close>

lemma slot_write:
  assumes "vector_wf v" "0 \<le> i" "i < int (vcapacity v)" "int (length bs) \<le> elem_size v"
  shows "\<exists>d'. store_bytes (vdata v) (vector_borrow v i) bs = Some d' \<and>
    vector_wf (v\<lparr>vdata := d'\<rparr>) \<and>
    (\<forall>k. k \<le> length bs \<longrightarrow> load_bytes d' (vector_borrow v i) k = Some (take k bs)) \<and>
    (\<forall>j k. j \<noteq> i \<longrightarrow> int k \<le> elem_size v \<longrightarrow>
       load_bytes d' (vector_borrow v j) k = load_bytes (vdata v) (vector_borrow v j) k)"
proof -
  have e: "0 < elem_size v" using assms(1) by (simp add: vector_wf_def)
  have "vector_borrow v i + int (length bs) \<le> int (length (vdata v))"
    using slot_bounds [OF assms(1-3)] assms(4) by linarith
  then obtain d' where d': "store_bytes (vdata v) (vector_borrow v i) bs = Some d'"
    using slot_bounds(1) [OF assms(1-3)] by (simp add: store_bytes_def)
  have "vector_wf (v\<lparr>vdata := d'\<rparr>)"
    using assms(1) store_bytes_length [OF d'] by (simp add: vector_wf_def)
  moreover have "load_bytes d' (vector_borrow v i) k = Some (take k bs)" if "k \<le> length bs" for k
    using load_store_same [OF d', of 0 k] that by simp
  moreover have "load_bytes d' (vector_borrow v j) k = load_bytes (vdata v) (vector_borrow v j) k"
    if "j \<noteq> i" "int k \<le> elem_size v" for j k
    using load_store_other [OF d', of "vector_borrow v j" k] slot_disjoint [OF e that(1)] that(2) assms(4)
    by linarith
  ultimately show ?thesis using d' by blast
qed

lemma vector_init_keeps:
  assumes "\<And>d i d'. i < cap \<Longrightarrow> length d = len \<Longrightarrow> \<exists>d'. init_elem d (esz * int i) = Some d' \<and> length d' = len"
  shows "length d = len \<Longrightarrow> \<exists>d'. vector_init init_elem esz cap i d = Some d' \<and> length d' = len"
proof (induction "cap - i" arbitrary: i d rule: less_induct)
  case less
  show ?case
  proof (cases "i < cap")
    case True
    then obtain d1 where d1: "init_elem d (esz * int i) = Some d1" "length d1 = len"
      using assms less.prems by blast
    then show ?thesis using less.hyps [of "Suc i" d1] True by (simp add: vector_init.simps [of _ _ _ i])
  next
    case False
    then show ?thesis using less.prems by (simp add: vector_init.simps)
  qed
qed

lemma vector_allocate_wf:
  assumes "0 < esz" "esz * int cap < 4294967296" "0 < cap"
    and "malloc_data (nat esz * cap) = Some d" "length d = nat esz * cap"
    and "\<And>d i. i < cap \<Longrightarrow> length d = nat esz * cap \<Longrightarrow>
      \<exists>d'. init_elem d (esz * int i) = Some d' \<and> length d' = nat esz * cap"
  shows "\<exists>v. vector_allocate esz cap init_elem True malloc_data = Some (Some v) \<and> vector_wf v \<and>
    elem_size v = esz \<and> vcapacity v = cap"
proof -
  have "esz * 1 \<le> esz * int cap" using assms by (intro mult_left_mono) auto
  then have "esz < 4294967296" using assms(2) by linarith
  then have "nat (esz mod 4294967296) = nat esz" using assms(1) by simp
  moreover have "u32 (nat esz * cap) = nat esz * cap"
  proof -
    have "int (nat esz * cap) < 4294967296" using assms by simp
    then show ?thesis by (intro u32_small) presburger
  qed
  moreover obtain d' where "vector_init init_elem esz cap 0 d = Some d'" "length d' = nat esz * cap"
    using vector_init_keeps [of cap "nat esz * cap" init_elem esz d 0] assms(5,6) by blast
  ultimately show ?thesis using assms by (simp add: vector_allocate_def vector_wf_def)
qed

end
