(* ===== verification/Nf_Args.thy ===== *)
theory Nf_Args
  imports Lcore_Config Vector
begin

section \<open>The command line\<close>

text \<open>
  The options of nf-chain (\<^verbatim>\<open>parse_args\<close> of \<^verbatim>\<open>nf-chain/src/main.c\<close>) and of mica (\<^verbatim>\<open>mica/main.c\<close>), as \<open>getopt_long\<close> hands them out
  one after the other; its argument of \<open>enable-jumbo\<close> is what the inner \<open>getopt_long\<close> finds. The globals that the
  options set are a record. The result is -1 for an invalid option, else 0 (where the code returns the number of
  words read). \<open>rte_strsplit\<close> and \<open>cmdline_parse_etheraddr\<close> of DPDK are arguments, as is \<open>RTE_MAX_ETHPORTS\<close>.
\<close>

subsection \<open>The code\<close>

datatype cmd_option =
    Short_option char string
  | Long_option string string "string option"
  | Other_option

datatype acl_classify_alg = ALG_DEFAULT | ALG_SCALAR | ALG_SSE | ALG_AVX2 | ALG_NEON | ALG_ALTIVEC | ALG_AVX512X16 | ALG_AVX512X32

definition acl_alg :: "(string \<times> acl_classify_alg) list" where
  "acl_alg = [(''scalar'', ALG_SCALAR), (''sse'', ALG_SSE), (''avx2'', ALG_AVX2), (''neon'', ALG_NEON),
     (''altivec'', ALG_ALTIVEC), (''avx512x16'', ALG_AVX512X16), (''avx512x32'', ALG_AVX512X32)]"

fun str_acl_alg_from :: "(string \<times> acl_classify_alg) list \<Rightarrow> acl_classify_alg \<Rightarrow> string" where
  "str_acl_alg_from [] alg = ''default''"
| "str_acl_alg_from (x # xs) alg = (if alg = snd x then fst x else str_acl_alg_from xs alg)"

definition str_acl_alg :: "acl_classify_alg \<Rightarrow> string" where
  "str_acl_alg alg = str_acl_alg_from acl_alg alg"

fun parse_acl_alg_from :: "(string \<times> acl_classify_alg) list \<Rightarrow> string \<Rightarrow> acl_classify_alg" where
  "parse_acl_alg_from [] name = ALG_DEFAULT"
| "parse_acl_alg_from (x # xs) name = (if name = fst x then snd x else parse_acl_alg_from xs name)"

definition parse_acl_alg :: "string \<Rightarrow> acl_classify_alg" where
  "parse_acl_alg name = parse_acl_alg_from acl_alg name"

definition MAX_JUMBO_PKT_LEN :: int where "MAX_JUMBO_PKT_LEN = 9600"

definition parse_max_pkt_len :: "string \<Rightarrow> int" where
  "parse_max_pkt_len pktlen =
     (let (len, rest, err) = strtoul 10 pktlen
      in if pktlen = [] \<or> rest \<noteq> [] then - 1 else if len = 0 then - 1 else to_int32 len)"

text \<open>The result is stored in a \<open>uint32_t\<close>.\<close>

definition parse_portmask :: "string \<Rightarrow> nat" where
  "parse_portmask portmask =
     (let (pm, rest, err) = strtoul 16 portmask
      in if portmask = [] \<or> rest \<noteq> [] then 0 else u32 pm)"

record nf_args =
  nb_rxd :: nat
  queues :: nat
  verbose :: bool
  enabled_port_mask :: nat
  promiscuous_on :: bool
  qflow :: qflow_opts
  lcore_params_array :: "lcore_params list"
  numa_on :: bool
  jumbo :: bool
  max_rx_pkt_len :: int
  rule_ipv4_name :: "string option"
  rule_ipv6_name :: "string option"
  alg :: acl_classify_alg
  d_addrs :: "bytes list"

definition parse_eth_dest ::
  "nat \<Rightarrow> (string \<Rightarrow> bytes option) \<Rightarrow> string \<Rightarrow> bytes list \<Rightarrow> (bool \<times> bytes list) option" where
  "parse_eth_dest max_ethports cmdline_parse_etheraddr optarg addrs =
     (let (portid, port_end, err) = strtoul 0 optarg
      in if err \<or> port_end = optarg \<or> char_at port_end \<noteq> CHR '','' then Some (False, addrs)
         else if max_ethports \<le> portid then Some (False, addrs)
         else case cmdline_parse_etheraddr (tl port_end) of
           None \<Rightarrow> Some (False, addrs)
         | Some a \<Rightarrow> Option.bind (arr_set addrs (int portid) a) (\<lambda>addrs. Some (True, addrs)))"

definition set_nb_rxd :: "string \<Rightarrow> nf_args \<Rightarrow> int \<times> nf_args" where
  "set_nb_rxd optarg st =
     (let st = st\<lparr>nb_rxd := parse_queues optarg mod 2 ^ 16\<rparr>
      in if nb_rxd st < 64 \<or> nb_rxd st AND (nb_rxd st - 1) \<noteq> 0 then (- 1, st) else (0, st))"

definition set_queues :: "string \<Rightarrow> nf_args \<Rightarrow> int \<times> nf_args" where
  "set_queues optarg st =
     (let st = st\<lparr>queues := parse_queues optarg mod 2 ^ 16\<rparr> in if queues st = 0 then (- 1, st) else (0, st))"

text \<open>The tests of the long options that are not those of the queue selection. \<open>None\<close> is undefined behaviour.\<close>

definition long_option ::
  "(string \<Rightarrow> nat \<Rightarrow> char \<Rightarrow> string list) \<Rightarrow> nat \<Rightarrow> (string \<Rightarrow> bytes option) \<Rightarrow> string \<Rightarrow> string \<Rightarrow> string option
    \<Rightarrow> nf_args \<Rightarrow> (int \<times> nf_args) option" where
  "long_option rte_strsplit max_ethports etheraddr name optarg inner st =
     (if name = ''config'' then
        let (r, ps) = parse_config rte_strsplit optarg; st = st\<lparr>lcore_params_array := ps\<rparr>
        in Some (if r \<noteq> 0 then - 1 else 0, st)
      else if name = ''no-numa'' then Some (0, st\<lparr>numa_on := False\<rparr>)
      else if name = ''enable-jumbo'' then
        let st = st\<lparr>jumbo := True\<rparr>
        in (case inner of
              None \<Rightarrow> Some (0, st)
            | Some len \<Rightarrow>
                let r = parse_max_pkt_len len
                in if r < 64 \<or> MAX_JUMBO_PKT_LEN < r then Some (- 1, st)
                   else Some (0, st\<lparr>max_rx_pkt_len := r\<rparr>))
      else if name = ''rule_ipv4'' then Some (0, st\<lparr>rule_ipv4_name := Some optarg\<rparr>)
      else if name = ''rule_ipv6'' then Some (0, st\<lparr>rule_ipv6_name := Some optarg\<rparr>)
      else if name = ''alg'' then
        let st = st\<lparr>alg := parse_acl_alg optarg\<rparr> in Some (if alg st = ALG_DEFAULT then - 1 else 0, st)
      else if name = ''eth-dest'' then do {
        (ok, addrs) \<leftarrow> parse_eth_dest max_ethports etheraddr optarg (d_addrs st);
        Some (if ok then 0 else - 1, st\<lparr>d_addrs := addrs\<rparr>)
      }
      else Some (0, st))"

definition nf_option ::
  "(string \<Rightarrow> nat \<Rightarrow> char \<Rightarrow> string list) \<Rightarrow> nat \<Rightarrow> (string \<Rightarrow> bytes option) \<Rightarrow> cmd_option \<Rightarrow> nf_args \<Rightarrow> (int \<times> nf_args) option" where
  "nf_option rte_strsplit max_ethports etheraddr opt st =
     (case opt of
        Short_option c optarg \<Rightarrow>
          if c = CHR ''d'' then Some (set_nb_rxd optarg st)
          else if c = CHR ''q'' then Some (set_queues optarg st)
          else if c = CHR ''v'' then Some (0, st\<lparr>verbose := True\<rparr>)
          else if c = CHR ''p'' then
            let st = st\<lparr>enabled_port_mask := parse_portmask optarg\<rparr>
            in Some (if enabled_port_mask st = 0 then - 1 else 0, st)
          else if c = CHR ''P'' then Some (0, st\<lparr>promiscuous_on := True\<rparr>)
          else Some (- 1, st)
      | Long_option name optarg inner \<Rightarrow>
          let (ret, o1) = qflow_parse_long_opt (qflow st) name optarg; st = st\<lparr>qflow := o1\<rparr>
          in if ret < 0 then Some (- 1, st)
             else if 0 < ret then Some (0, st)
             else long_option rte_strsplit max_ethports etheraddr name optarg inner st
      | Other_option \<Rightarrow> Some (- 1, st))"

fun parse_args ::
  "(string \<Rightarrow> nat \<Rightarrow> char \<Rightarrow> string list) \<Rightarrow> nat \<Rightarrow> (string \<Rightarrow> bytes option) \<Rightarrow> cmd_option list \<Rightarrow> nf_args \<Rightarrow> (int \<times> nf_args) option" where
  "parse_args rte_strsplit max_ethports etheraddr [] st = Some (0, st)"
| "parse_args rte_strsplit max_ethports etheraddr (opt # opts) st =
     Option.bind (nf_option rte_strsplit max_ethports etheraddr opt st) (\<lambda>(ret, st').
       if ret < 0 then Some (- 1, st') else parse_args rte_strsplit max_ethports etheraddr opts st')"

text \<open>mica knows the options \<open>d\<close>, \<open>q\<close> and \<open>v\<close> and those of the queue selection.\<close>

definition mica_option :: "cmd_option \<Rightarrow> nf_args \<Rightarrow> int \<times> nf_args" where
  "mica_option opt st =
     (case opt of
        Short_option c optarg \<Rightarrow>
          if c = CHR ''d'' then set_nb_rxd optarg st
          else if c = CHR ''q'' then set_queues optarg st
          else if c = CHR ''v'' then (0, st\<lparr>verbose := True\<rparr>)
          else (- 1, st)
      | Long_option name optarg inner \<Rightarrow>
          let (ret, o1) = qflow_parse_long_opt (qflow st) name optarg; st = st\<lparr>qflow := o1\<rparr>
          in if 0 < ret then (0, st) else (- 1, st)
      | Other_option \<Rightarrow> (- 1, st))"

fun mica_parse_args :: "cmd_option list \<Rightarrow> nf_args \<Rightarrow> int \<times> nf_args" where
  "mica_parse_args [] st = (0, st)"
| "mica_parse_args (opt # opts) st =
     (let (ret, st') = mica_option opt st in if ret < 0 then (- 1, st') else mica_parse_args opts st')"

text \<open>The initial values of the globals; \<open>addrs\<close> are the addresses that \<open>set_default_dest_mac\<close> writes.\<close>

definition set_default_dest_mac :: "nat \<Rightarrow> bytes list" where
  "set_default_dest_mac n = map (\<lambda>i. [2, 0, 0, 0, 0, of_nat i]) [0..<n]"

definition initial_args :: "nat \<Rightarrow> nf_args" where
  "initial_args max_ethports = \<lparr>nb_rxd = 1024, queues = 2, verbose = False, enabled_port_mask = 0, promiscuous_on = False,
     qflow = qflow_opts_init, lcore_params_array = lcore_params_array_default, numa_on = True, jumbo = False, max_rx_pkt_len = 0,
     rule_ipv4_name = None, rule_ipv6_name = None, alg = ALG_DEFAULT, d_addrs = set_default_dest_mac max_ethports\<rparr>"

subsection \<open>Well-formed settings\<close>

definition args_ok :: "nat \<Rightarrow> nf_args \<Rightarrow> bool" where
  "args_ok max_ethports st \<longleftrightarrow> (\<exists>k \<in> {6..<16}. nb_rxd st = 2 ^ k) \<and> 1 \<le> queues st \<and> queues st < 2 ^ 16 \<and>
     enabled_port_mask st < 2 ^ 32 \<and> params_ok (lcore_params_array st) \<and>
     (max_rx_pkt_len st = 0 \<or> 64 \<le> max_rx_pkt_len st \<and> max_rx_pkt_len st \<le> MAX_JUMBO_PKT_LEN) \<and>
     length (d_addrs st) = max_ethports"

lemma power_of_two:
  fixes n :: nat
  assumes "0 < n" "n AND (n - 1) = 0"
  shows "\<exists>k. n = 2 ^ k"
proof -
  obtain k where k: "2 ^ k \<le> n" "n < 2 ^ (k + 1)" using ex_power_ivl1 [of 2 n] assms(1) by auto
  have "n = 2 ^ k"
  proof (rule ccontr)
    assume "n \<noteq> 2 ^ k"
    then have "n div 2 ^ k = 1" "(n - 1) div 2 ^ k = 1"
      using k by (auto intro!: div_nat_eqI)
    then have "bit n k" "bit (n - 1) k" by (simp_all add: bit_iff_odd)
    then have "bit (n AND (n - 1)) k" by (simp add: bit_and_iff)
    then show False using assms(2) by simp
  qed
  then show ?thesis by blast
qed

lemma power_of_two_range:
  fixes n :: nat
  assumes "2 ^ a \<le> n" "n < 2 ^ b" "n AND (n - 1) = 0"
  shows "\<exists>k \<in> {a..<b}. n = 2 ^ k"
proof -
  have "0 < (2 :: nat) ^ a" by simp
  then obtain k where k: "n = 2 ^ k" using power_of_two [of n] assms(1,3) by fastforce
  then have "a \<le> k" "k < b" using assms(1,2) power_le_imp_le_exp [of 2 a k] power_less_imp_less_exp [of 2 k b] by simp_all
  then show ?thesis using k by auto
qed

lemma args_okD:
  assumes "args_ok m st"
  shows "params_ok (lcore_params_array st)" "length (d_addrs st) = m"
  using assms by (simp_all add: args_ok_def)

lemma set_nb_rxd_ok:
  assumes "args_ok m st" "set_nb_rxd optarg st = (r, st')"
  shows "r = - 1 \<or> r = 0 \<and> args_ok m st'"
proof -
  let ?n = "parse_queues optarg mod 2 ^ 16"
  have "?n < 2 ^ 16" by simp
  then have "\<exists>k \<in> {6..<16}. ?n = 2 ^ k" if "64 \<le> ?n" "?n AND (?n - 1) = 0"
    using power_of_two_range [of 6 ?n 16] that by simp
  then show ?thesis using assms by (auto simp: set_nb_rxd_def Let_def args_ok_def split: if_splits)
qed

lemma set_queues_ok:
  assumes "args_ok m st" "set_queues optarg st = (r, st')"
  shows "r = - 1 \<or> r = 0 \<and> args_ok m st'"
  using assms by (auto simp: set_queues_def Let_def args_ok_def split: if_splits)

lemma parse_eth_dest_ok:
  assumes "length addrs = m"
  shows "\<exists>ok addrs'. parse_eth_dest m ea optarg addrs = Some (ok, addrs') \<and> length addrs' = m"
  using assms by (auto simp: parse_eth_dest_def Let_def arr_set_def bind_eq_Some_conv split: prod.split option.split)

lemma seven_cases:
  "x = a \<or> x = b \<or> x = c \<or> x = d \<or> x = e \<or> x = f \<or> x = g \<or>
   x \<noteq> a \<and> x \<noteq> b \<and> x \<noteq> c \<and> x \<noteq> d \<and> x \<noteq> e \<and> x \<noteq> f \<and> x \<noteq> g"
  by blast

lemma long_option_ok:
  assumes ok: "args_ok m st"
  shows "\<exists>r st'. long_option sp m ea name optarg inner st = Some (r, st') \<and> (r = - 1 \<or> r = 0 \<and> args_ok m st')"
proof -
  obtain okd addrs where e: "parse_eth_dest m ea optarg (d_addrs st) = Some (okd, addrs)" "length addrs = m"
    using parse_eth_dest_ok args_okD(2) [OF ok] by blast
  obtain rc ps where pc: "parse_config sp optarg = (rc, ps)" by fastforce
  have "params_ok []" by (simp add: params_ok_def)
  then have "params_ok (snd (parse_config sp optarg))" unfolding parse_config_def by (rule parse_config_type)
  then have upd: "args_ok m (st\<lparr>lcore_params_array := ps\<rparr>)" "args_ok m (st\<lparr>numa_on := False\<rparr>)"
    "args_ok m (st\<lparr>rule_ipv4_name := Some optarg\<rparr>)" "args_ok m (st\<lparr>rule_ipv6_name := Some optarg\<rparr>)"
    "args_ok m (st\<lparr>alg := parse_acl_alg optarg\<rparr>)" "args_ok m (st\<lparr>d_addrs := addrs\<rparr>)" "args_ok m (st\<lparr>jumbo := True\<rparr>)"
    using ok e(2) pc by (simp_all add: args_ok_def)
  have len: "64 \<le> r \<Longrightarrow> r \<le> MAX_JUMBO_PKT_LEN \<Longrightarrow> args_ok m (st\<lparr>jumbo := True, max_rx_pkt_len := r\<rparr>)" for r
    using ok by (simp add: args_ok_def)
  consider "name = ''config''" | "name = ''no-numa''" | "name = ''enable-jumbo''" | "name = ''rule_ipv4''"
    | "name = ''rule_ipv6''" | "name = ''alg''" | "name = ''eth-dest''"
    | "name \<noteq> ''config'' \<and> name \<noteq> ''no-numa'' \<and> name \<noteq> ''enable-jumbo'' \<and> name \<noteq> ''rule_ipv4'' \<and>
        name \<noteq> ''rule_ipv6'' \<and> name \<noteq> ''alg'' \<and> name \<noteq> ''eth-dest''"
    using seven_cases [of name "''config''" "''no-numa''" "''enable-jumbo''" "''rule_ipv4''" "''rule_ipv6''" "''alg''" "''eth-dest''"]
    by (elim disjE) assumption+
  then show ?thesis
  proof cases
    case 3
    show ?thesis
    proof (cases inner)
      case None
      then show ?thesis using 3 upd(7) by (simp add: long_option_def)
    next
      case (Some l)
      show ?thesis
      proof (cases "parse_max_pkt_len l < 64 \<or> MAX_JUMBO_PKT_LEN < parse_max_pkt_len l")
        case True
        then show ?thesis using 3 Some by (simp add: long_option_def Let_def)
      next
        case False
        then show ?thesis using 3 Some len [of "parse_max_pkt_len l"] by (simp add: long_option_def Let_def)
      qed
    qed
  qed (use upd ok e pc in \<open>simp_all add: long_option_def Let_def\<close>)
qed

lemma nf_option_ok:
  assumes ok: "args_ok m st"
  shows "\<exists>r st'. nf_option sp m ea opt st = Some (r, st') \<and> (r = - 1 \<or> r = 0 \<and> args_ok m st')"
proof (cases opt)
  case (Short_option c optarg)
  have "enabled_port_mask (st\<lparr>enabled_port_mask := parse_portmask optarg\<rparr>) < 2 ^ 32"
    using u32_bound by (simp add: parse_portmask_def Let_def split: prod.split)
  then have "args_ok m (st\<lparr>enabled_port_mask := parse_portmask optarg\<rparr>)" "args_ok m (st\<lparr>verbose := True\<rparr>)"
    "args_ok m (st\<lparr>promiscuous_on := True\<rparr>)" using ok by (simp_all add: args_ok_def)
  then show ?thesis using Short_option set_nb_rxd_ok [OF ok] set_queues_ok [OF ok]
    by (cases "set_nb_rxd optarg st"; cases "set_queues optarg st") (auto simp: nf_option_def Let_def)
next
  case (Long_option name optarg inner)
  obtain r o1 where q: "qflow_parse_long_opt (qflow st) name optarg = (r, o1)" by fastforce
  have "args_ok m (st\<lparr>qflow := o1\<rparr>)" using ok by (simp add: args_ok_def)
  then show ?thesis using long_option_ok Long_option q by (auto simp: nf_option_def Let_def)
next
  case Other_option
  then show ?thesis by (simp add: nf_option_def)
qed

lemma parse_args_ok:
  "args_ok m st \<Longrightarrow> \<exists>r st'. parse_args sp m ea opts st = Some (r, st') \<and> (r = - 1 \<or> r = 0 \<and> args_ok m st')"
proof (induction opts arbitrary: st)
  case (Cons opt opts)
  obtain r st1 where s: "nf_option sp m ea opt st = Some (r, st1)" "r = - 1 \<or> r = 0 \<and> args_ok m st1"
    using nf_option_ok [OF Cons.prems] by blast
  then show ?case using Cons.IH [of st1] by auto
qed simp

lemma mica_option_ok:
  assumes ok: "args_ok m st"
  shows "fst (mica_option opt st) = - 1 \<or> fst (mica_option opt st) = 0 \<and> args_ok m (snd (mica_option opt st))"
proof (cases opt)
  case (Short_option c optarg)
  have "args_ok m (st\<lparr>verbose := True\<rparr>)" using ok by (simp add: args_ok_def)
  then show ?thesis using Short_option set_nb_rxd_ok [OF ok] set_queues_ok [OF ok]
    by (cases "set_nb_rxd optarg st"; cases "set_queues optarg st") (auto simp: mica_option_def)
next
  case (Long_option name optarg inner)
  obtain r o1 where q: "qflow_parse_long_opt (qflow st) name optarg = (r, o1)" by fastforce
  have "args_ok m (st\<lparr>qflow := o1\<rparr>)" using ok by (simp add: args_ok_def)
  then show ?thesis using Long_option q by (simp add: mica_option_def Let_def)
next
  case Other_option
  then show ?thesis by (simp add: mica_option_def)
qed

lemma mica_parse_args_ok:
  "args_ok m st \<Longrightarrow> fst (mica_parse_args opts st) = - 1 \<or> fst (mica_parse_args opts st) = 0 \<and> args_ok m (snd (mica_parse_args opts st))"
proof (induction opts arbitrary: st)
  case (Cons opt opts)
  obtain r st1 where s: "mica_option opt st = (r, st1)" by fastforce
  then have "r = - 1 \<or> r = 0 \<and> args_ok m st1" using mica_option_ok [OF Cons.prems, of opt] by simp
  then show ?case using Cons.IH [of st1] s by auto
qed simp

lemma initial_args_ok: "args_ok m (initial_args m)"
proof -
  have "\<exists>k \<in> {6..<16}. (1024 :: nat) = 2 ^ k" by (rule bexI [of _ 10]) auto
  then show ?thesis using lcore_params_array_default_ok
    by (simp add: args_ok_def initial_args_def set_default_dest_mac_def)
qed

subsection \<open>Properties\<close>



text \<open>The number of queues is cut to 16 bits before it is tested: of a decimal numeral the program takes
  the remainder modulo 65536, so that 65537 queues are one queue.\<close>

theorem queue_number_truncated:
  assumes "0 < n" "n < 2 ^ 32"
  shows "set_queues (dec n) st = (if n mod 65536 = 0 then - 1 else 0, st\<lparr>queues := n mod 65536\<rparr>)"
  using assms strtoul10_dec [of n] dec_not_Nil [of n] by (simp add: set_queues_def parse_queues_def)

theorem queue_number_truncated_witness:
  "set_queues (dec 65537) (initial_args 0) = (0, (initial_args 0)\<lparr>queues := 1\<rparr>)"
  using queue_number_truncated [of 65537 "initial_args 0"] by simp

lemma acl_alg_roundtrip: "x \<noteq> ALG_DEFAULT \<Longrightarrow> parse_acl_alg (str_acl_alg x) = x"
  by (cases x) (simp_all add: parse_acl_alg_def str_acl_alg_def acl_alg_def)

end
