(* ===== verification/Acl_Init.thy ===== *)
theory Acl_Init
  imports Acl_Files Nf_Args
begin

section \<open>Set-up of the access control lists\<close>

text \<open>
  \<open>check_acl_config\<close>, \<open>setup_acl\<close> and \<open>app_acl_init\<close> of \<^verbatim>\<open>nf-chain/src/main.c\<close>. The contexts of DPDK's ACL library are a
  type \<open>'c\<close> with the functions of \<open>acl_lib\<close>. A result is \<open>None\<close> for undefined behaviour, \<open>Some (Inl msg)\<close>
  where \<^verbatim>\<open>rte_exit\<close> ends the program with that message and \<open>Some (Inr x)\<close> otherwise.
\<close>

subsection \<open>Steps that may end the program\<close>

definition andthen :: "(string + 'a) option \<Rightarrow> ('a \<Rightarrow> (string + 'b) option) \<Rightarrow> (string + 'b) option" where
  "andthen m f = (case m of None \<Rightarrow> None | Some (Inl e) \<Rightarrow> Some (Inl e) | Some (Inr x) \<Rightarrow> f x)"

lemma andthen_simps [simp]:
  "andthen None f = None" "andthen (Some (Inl e)) f = Some (Inl e)" "andthen (Some (Inr x)) f = f x"
  by (simp_all add: andthen_def)

lemma andthen_Inr: "andthen m f = Some (Inr y) \<longleftrightarrow> (\<exists>x. m = Some (Inr x) \<and> f x = Some (Inr y))"
  by (auto simp: andthen_def split: option.split sum.split)

text \<open>A loop whose body may end the program.\<close>

fun for_each :: "('x \<Rightarrow> 's \<Rightarrow> (string + 's) option) \<Rightarrow> 'x list \<Rightarrow> 's \<Rightarrow> (string + 's) option" where
  "for_each body [] s = Some (Inr s)"
| "for_each body (x # xs) s = andthen (body x s) (for_each body xs)"

text \<open>The rule of such loops: what every round keeps holds at the end, and what a round establishes and
  the later rounds keep holds for every element.\<close>

lemma for_each_rule:
  assumes "for_each body xs s = Some (Inr t)" "P s"
    and "\<And>x s s'. x \<in> set xs \<Longrightarrow> P s \<Longrightarrow> body x s = Some (Inr s') \<Longrightarrow> P s' \<and> Q x s'"
    and "\<And>x y s s'. x \<in> set xs \<Longrightarrow> P s \<Longrightarrow> body x s = Some (Inr s') \<Longrightarrow> Q y s \<Longrightarrow> Q y s'"
  shows "P t \<and> (\<forall>x \<in> set xs. Q x t)"
proof -
  have keep: "for_each body ys s = Some (Inr t) \<Longrightarrow> P s \<Longrightarrow> set ys \<subseteq> set xs \<Longrightarrow> Q y s \<Longrightarrow> Q y t" for ys s y
  proof (induction ys arbitrary: s)
    case (Cons z zs)
    then obtain s' where "body z s = Some (Inr s')" "for_each body zs s' = Some (Inr t)" by (auto simp: andthen_Inr)
    then show ?case using Cons assms(3,4) [of z s s'] by simp
  qed simp
  have "for_each body ys s = Some (Inr t) \<Longrightarrow> P s \<Longrightarrow> set ys \<subseteq> set xs \<Longrightarrow> P t \<and> (\<forall>x \<in> set ys. Q x t)" for ys s
  proof (induction ys arbitrary: s)
    case (Cons z zs)
    then obtain s' where s': "body z s = Some (Inr s')" "for_each body zs s' = Some (Inr t)" by (auto simp: andthen_Inr)
    then have "P s'" "Q z s'" using Cons.prems assms(3) by auto
    then show ?case using Cons s'(2) keep [of zs s' z] by simp
  qed simp
  then show ?thesis using assms(1,2) by simp
qed

subsection \<open>The code\<close>

definition NB_SOCKETS :: nat where "NB_SOCKETS = 8"
definition NUM_FIELDS_IPV4 :: nat where "NUM_FIELDS_IPV4 = 5"
definition NUM_FIELDS_IPV6 :: nat where "NUM_FIELDS_IPV6 = 11"
definition MAX_ACL_RULE_NUM :: nat where "MAX_ACL_RULE_NUM = 1000000"

record 'c acl_lib =
  rte_acl_create :: "string \<Rightarrow> nat \<Rightarrow> nat \<Rightarrow> nat \<Rightarrow> 'c option"
  rte_acl_set_ctx_classify :: "'c \<Rightarrow> acl_classify_alg \<Rightarrow> 'c option"
  rte_acl_add_rules :: "'c \<Rightarrow> acl_rule list \<Rightarrow> 'c option"
  rte_acl_build :: "'c \<Rightarrow> nat \<Rightarrow> 'c option"

record 'c acl_config =
  mapped :: "bool list"
  acx_ipv4 :: "'c option list"
  acx_ipv6 :: "'c option list"

text \<open>What the file system and the allocator give for a rule file.\<close>

record rule_source =
  file_text :: "string option"
  seek_ok :: bool
  acl_alloc_ok :: bool
  route_alloc_ok :: bool

definition check_acl_config :: "nf_args \<Rightarrow> int" where
  "check_acl_config parm_config =
     (if rule_ipv4_name parm_config = None then - 1
      else if rule_ipv6_name parm_config = None then - 1
      else 0)"

definition setup_acl ::
  "'c acl_lib \<Rightarrow> acl_classify_alg \<Rightarrow> acl_rule list \<Rightarrow> acl_rule list \<Rightarrow> bool \<Rightarrow> nat \<Rightarrow> (string + 'c) option" where
  "setup_acl lib classify_alg route_base acl_base ipv6 socketid =
     (let dim = (if ipv6 then NUM_FIELDS_IPV6 else NUM_FIELDS_IPV4);
          name = (if ipv6 then ''l3fwd-acl-ipv6'' else ''l3fwd-acl-ipv4'') @ dec socketid
      in case rte_acl_create lib name socketid dim MAX_ACL_RULE_NUM of
           None \<Rightarrow> Some (Inl ''Failed to create ACL context'')
         | Some context \<Rightarrow>
             (case (if classify_alg \<noteq> ALG_DEFAULT then rte_acl_set_ctx_classify lib context classify_alg else Some context) of
                None \<Rightarrow> Some (Inl ''Failed to setup classify method for  ACL context'')
              | Some context \<Rightarrow>
                  (case rte_acl_add_rules lib context route_base of
                     None \<Rightarrow> Some (Inl ''add rules failed'')
                   | Some context \<Rightarrow>
                       (case rte_acl_add_rules lib context acl_base of
                          None \<Rightarrow> Some (Inl ''add rules failed'')
                        | Some context \<Rightarrow>
                            (case rte_acl_build lib context dim of
                               None \<Rightarrow> Some (Inl ''Failed to build ACL trie'')
                             | Some context \<Rightarrow> Some (Inr context))))))"

text \<open>Loading one family of rules; \<open>rte_exit\<close> inside \<open>add_rules\<close> has a message of its own.\<close>

definition load_rule_file ::
  "rule_source \<Rightarrow> nat \<Rightarrow> rule_parser \<Rightarrow> nat \<Rightarrow> nat \<Rightarrow> (string + (acl_rule list \<times> nat \<times> acl_rule list \<times> nat)) option" where
  "load_rule_file src nfields parser enabled_mask max_priority =
     Option.bind (add_rules (file_text src) (seek_ok src) (acl_alloc_ok src) (route_alloc_ok src) nfields parser enabled_mask max_priority)
       (\<lambda>r. case r of None \<Rightarrow> Some (Inl ''Failed to add rules'') | Some x \<Rightarrow> Some (Inr x))"

text \<open>Which sockets need contexts; a socket of 8 or more makes the function return -1, a negative one is an access
  outside the array.\<close>

fun map_sockets :: "(nat \<Rightarrow> int) \<Rightarrow> nat list \<Rightarrow> bool list \<Rightarrow> (bool \<times> bool list) option" where
  "map_sockets lcore_socket [] mp = Some (True, mp)"
| "map_sockets lcore_socket (lcore # ls) mp =
     (if int NB_SOCKETS \<le> lcore_socket lcore then Some (False, mp)
      else Option.bind (arr_set mp (lcore_socket lcore) True) (map_sockets lcore_socket ls))"

definition setup_socket ::
  "'c acl_lib \<Rightarrow> acl_classify_alg \<Rightarrow> (acl_rule list \<times> acl_rule list) \<Rightarrow> (acl_rule list \<times> acl_rule list) \<Rightarrow> nat \<Rightarrow> 'c acl_config
    \<Rightarrow> (string + 'c acl_config) option" where
  "setup_socket lib classify_alg rules4 rules6 i cfg =
     (if mapped cfg ! i then
        andthen (setup_acl lib classify_alg (fst rules4) (snd rules4) False i) (\<lambda>c4.
        andthen (setup_acl lib classify_alg (fst rules6) (snd rules6) True i) (\<lambda>c6.
        Some (Inr (cfg\<lparr>acx_ipv4 := (acx_ipv4 cfg)[i := Some c4], acx_ipv6 := (acx_ipv6 cfg)[i := Some c6]\<rparr>))))
      else Some (Inr cfg))"

text \<open>\<open>lcores\<close> are the enabled lcores. The result is -1 or 0, and the configuration.\<close>

definition app_acl_init ::
  "'c acl_lib \<Rightarrow> rule_source \<Rightarrow> rule_source \<Rightarrow> rule_parser \<Rightarrow> rule_parser \<Rightarrow> nat \<Rightarrow> (nat \<Rightarrow> int) \<Rightarrow> nat list \<Rightarrow> nf_args
    \<Rightarrow> (string + (int \<times> 'c acl_config)) option" where
  "app_acl_init lib src4 src6 parser4 parser6 max_priority lcore_socket lcores args =
     (if check_acl_config args \<noteq> 0 then Some (Inl ''Failed to get valid ACL options'')
      else
        andthen (load_rule_file src4 NUM_FIELDS_IPV4 parser4 (enabled_port_mask args) max_priority) (\<lambda>(routes4, nr4, acls4, na4).
        andthen (load_rule_file src6 NUM_FIELDS_IPV6 parser6 (enabled_port_mask args) max_priority) (\<lambda>(routes6, nr6, acls6, na6).
        let none = replicate NB_SOCKETS False;
            cfg = \<lparr>mapped = none, acx_ipv4 = replicate NB_SOCKETS None, acx_ipv6 = replicate NB_SOCKETS None\<rparr>
        in Option.bind (if \<not> numa_on args then Some (True, none[0 := True]) else map_sockets lcore_socket lcores none) (\<lambda>(ok, mp).
           if \<not> ok then Some (Inr (- 1, cfg\<lparr>mapped := mp\<rparr>))
           else andthen (for_each (setup_socket lib (alg args) (take nr4 routes4, take na4 acls4) (take nr6 routes6, take na6 acls6))
                  [0..<NB_SOCKETS] (cfg\<lparr>mapped := mp\<rparr>)) (\<lambda>cfg. Some (Inr (0, cfg)))))))"

subsection \<open>The contexts\<close>

lemma map_sockets_spec:
  "map_sockets sock ls mp = Some (True, mp') \<Longrightarrow> length mp' = length mp \<and>
    (\<forall>i < length mp. mp' ! i \<longleftrightarrow> mp ! i \<or> (\<exists>l \<in> set ls. sock l = int i)) \<and> (\<forall>l \<in> set ls. 0 \<le> sock l \<and> sock l < int (length mp))"
proof (induction ls arbitrary: mp)
  case (Cons l ls)
  then have l: "0 \<le> sock l" "sock l < int (length mp)" "map_sockets sock ls (mp[nat (sock l) := True]) = Some (True, mp')"
    by (auto simp: arr_set_def split: if_splits)
  have eq: "(sock l = int i) = (i = nat (sock l))" for i using l(1) by auto
  show ?case using Cons.IH [OF l(3)] l(1,2) by (auto simp: nth_list_update eq)
qed simp

definition socket_ready ::
  "'c acl_lib \<Rightarrow> acl_classify_alg \<Rightarrow> (acl_rule list \<times> acl_rule list) \<Rightarrow> (acl_rule list \<times> acl_rule list) \<Rightarrow> 'c acl_config \<Rightarrow> nat \<Rightarrow> bool" where
  "socket_ready lib a rules4 rules6 cfg i \<longleftrightarrow> (\<exists>c4 c6. acx_ipv4 cfg ! i = Some c4 \<and> acx_ipv6 cfg ! i = Some c6 \<and>
     setup_acl lib a (fst rules4) (snd rules4) False i = Some (Inr c4) \<and>
     setup_acl lib a (fst rules6) (snd rules6) True i = Some (Inr c6))"

lemma setup_sockets:
  assumes run: "for_each (setup_socket lib a r4 r6) [0..<NB_SOCKETS] cfg = Some (Inr cfg')"
    and len: "length (acx_ipv4 cfg) = NB_SOCKETS" "length (acx_ipv6 cfg) = NB_SOCKETS"
    and none: "\<forall>i < NB_SOCKETS. acx_ipv4 cfg ! i = None \<and> acx_ipv6 cfg ! i = None" and i: "i < NB_SOCKETS"
  shows "if mapped cfg ! i then socket_ready lib a r4 r6 cfg' i else acx_ipv4 cfg' ! i = None \<and> acx_ipv6 cfg' ! i = None"
proof -
  let ?P = "\<lambda>s. mapped s = mapped cfg \<and> length (acx_ipv4 s) = NB_SOCKETS \<and> length (acx_ipv6 s) = NB_SOCKETS \<and>
    (\<forall>i < NB_SOCKETS. \<not> mapped cfg ! i \<longrightarrow> acx_ipv4 s ! i = None \<and> acx_ipv6 s ! i = None)"
  let ?Q = "\<lambda>i s. mapped cfg ! i \<longrightarrow> socket_ready lib a r4 r6 s i"
  have body: "(?P s' \<and> ?Q k s') \<and> (?Q j s \<longrightarrow> ?Q j s')"
    if h: "k \<in> set [0..<NB_SOCKETS]" "?P s" "setup_socket lib a r4 r6 k s = Some (Inr s')" for k j s s'
  proof (cases "mapped cfg ! k")
    case False
    then have "s' = s" using h(2,3) by (simp add: setup_socket_def)
    then show ?thesis using h(2) False by simp
  next
    case True
    then obtain c4 c6 where c: "setup_acl lib a (fst r4) (snd r4) False k = Some (Inr c4)"
      "setup_acl lib a (fst r6) (snd r6) True k = Some (Inr c6)"
      "s' = s\<lparr>acx_ipv4 := (acx_ipv4 s)[k := Some c4], acx_ipv6 := (acx_ipv6 s)[k := Some c6]\<rparr>"
      using h(2,3) by (auto simp: setup_socket_def andthen_Inr)
    have "socket_ready lib a r4 r6 s' k" using c h(1,2) by (simp add: socket_ready_def)
    moreover have "socket_ready lib a r4 r6 s' j" if "socket_ready lib a r4 r6 s j" "j \<noteq> k"
      using that c(3) by (simp add: socket_ready_def)
    moreover have "k \<noteq> i" if "\<not> mapped cfg ! i" for i using True that by blast
    then have "?P s'" using h(2) c(3) by simp
    ultimately show ?thesis by blast
  qed
  have "?P cfg' \<and> (\<forall>i \<in> set [0..<NB_SOCKETS]. ?Q i cfg')"
    by (rule for_each_rule [OF run]) (use body len none in blast)+
  then show ?thesis using i by simp
qed

lemma load_rule_file_Inr:
  "load_rule_file src n parser m mp = Some (Inr x) \<longleftrightarrow>
    add_rules (file_text src) (seek_ok src) (acl_alloc_ok src) (route_alloc_ok src) n parser m mp = Some (Some x)"
  by (cases "add_rules (file_text src) (seek_ok src) (acl_alloc_ok src) (route_alloc_ok src) n parser m mp")
    (auto simp: load_rule_file_def split: option.split)

subsection \<open>Properties\<close>

text \<open>C40. When the set-up ends with 0, a socket has contexts, built from the routes and then the access control rules of the two
  files, exactly if an enabled lcore is on it; but with \<open>no-numa\<close> only socket 0 has them, although the polling loop takes the
  contexts of the socket of its lcore.\<close>

theorem acl_contexts_ready:
  assumes "app_acl_init lib src4 src6 parser4 parser6 mp sock lcores args = Some (Inr (0, cfg))"
  shows "\<exists>r4 n4 a4 m4 r6 n6 a6 m6.
    add_rules (file_text src4) (seek_ok src4) (acl_alloc_ok src4) (route_alloc_ok src4) 5 parser4 (enabled_port_mask args) mp = Some (Some (r4, n4, a4, m4)) \<and>
    add_rules (file_text src6) (seek_ok src6) (acl_alloc_ok src6) (route_alloc_ok src6) 11 parser6 (enabled_port_mask args) mp = Some (Some (r6, n6, a6, m6)) \<and>
    (\<forall>i < 8. if (if numa_on args then \<exists>l \<in> set lcores. sock l = int i else i = 0)
       then socket_ready lib (alg args) (take n4 r4, take m4 a4) (take n6 r6, take m6 a6) cfg i
       else acx_ipv4 cfg ! i = None \<and> acx_ipv6 cfg ! i = None) \<and>
    (numa_on args \<longrightarrow> (\<forall>l \<in> set lcores. 0 \<le> sock l \<and> sock l < 8))"
proof -
  let ?none = "replicate NB_SOCKETS False"
  obtain r4 n4 a4 m4 r6 n6 a6 m6 mps where l: "load_rule_file src4 NUM_FIELDS_IPV4 parser4 (enabled_port_mask args) mp = Some (Inr (r4, n4, a4, m4))"
    "load_rule_file src6 NUM_FIELDS_IPV6 parser6 (enabled_port_mask args) mp = Some (Inr (r6, n6, a6, m6))"
    and m: "(if \<not> numa_on args then Some (True, ?none[0 := True]) else map_sockets sock lcores ?none) = Some (True, mps)"
    and s: "for_each (setup_socket lib (alg args) (take n4 r4, take m4 a4) (take n6 r6, take m6 a6)) [0..<NB_SOCKETS]
      \<lparr>mapped = mps, acx_ipv4 = replicate NB_SOCKETS None, acx_ipv6 = replicate NB_SOCKETS None\<rparr> = Some (Inr cfg)"
    using assms unfolding app_acl_init_def Let_def
    by (auto simp: andthen_Inr bind_eq_Some_conv split: if_splits)
  have i: "if mps ! i then socket_ready lib (alg args) (take n4 r4, take m4 a4) (take n6 r6, take m6 a6) cfg i
    else acx_ipv4 cfg ! i = None \<and> acx_ipv6 cfg ! i = None" if "i < NB_SOCKETS" for i
    using setup_sockets [OF s _ _ _ that] by simp
  have mps: "mps ! i \<longleftrightarrow> (if numa_on args then \<exists>l \<in> set lcores. sock l = int i else i = 0)" if "i < NB_SOCKETS" for i
    using m that map_sockets_spec [of sock lcores ?none mps] by (auto simp: nth_list_update split: if_splits)
  have "\<forall>l \<in> set lcores. 0 \<le> sock l \<and> sock l < 8" if "numa_on args"
    using m that map_sockets_spec [of sock lcores ?none mps] by (simp add: NB_SOCKETS_def)
  then show ?thesis using l i mps unfolding load_rule_file_Inr NUM_FIELDS_IPV4_def NUM_FIELDS_IPV6_def NB_SOCKETS_def
    by (intro exI conjI) (assumption | simp)+
qed

definition demo_lib :: "unit acl_lib" where
  "demo_lib = \<lparr>rte_acl_create = (\<lambda>name s dim m. Some ()), rte_acl_set_ctx_classify = (\<lambda>c a. Some ()),
     rte_acl_add_rules = (\<lambda>c rs. Some ()), rte_acl_build = (\<lambda>c d. Some ())\<rparr>"

definition demo_source :: rule_source where
  "demo_source = \<lparr>file_text = Some ''Rb'', seek_ok = True, acl_alloc_ok = True, route_alloc_ok = True\<rparr>"

definition demo_args :: "bool \<Rightarrow> nf_args" where
  "demo_args numa = (initial_args 32)\<lparr>rule_ipv4_name := Some ''f4'', rule_ipv6_name := Some ''f6'', enabled_port_mask := 8, numa_on := numa\<rparr>"

lemma demo_load: "\<exists>rs. load_rule_file demo_source n demo_parser 8 100 = Some (Inr (rs, 1, [], 0))"
  by (simp add: load_rule_file_def demo_source_def add_rules_def fgets_lines.simps fgets_line_def NEWLINE_def ROUTE_LEAD_CHAR_def
      ACL_LEAD_CHAR_def COMMENT_LEAD_CHAR_def load_rule_def is_bypass_line_def isspace_def demo_parser_def finish_rule_def arr_get_def)

lemma demo_setup_acl: "setup_acl demo_lib a rs as v6 i = Some (Inr ())"
  by (simp add: setup_acl_def demo_lib_def Let_def)

lemma demo_setup_sockets: "\<exists>cfg'. for_each (setup_socket demo_lib a r4 r6) is cfg = Some (Inr cfg')"
  by (induction "is" arbitrary: cfg) (simp_all add: setup_socket_def demo_setup_acl)

lemma demo_app_acl_init:
  "\<exists>cfg. app_acl_init demo_lib demo_source demo_source demo_parser demo_parser 100 (\<lambda>l. int l) [0, 1] (demo_args numa) = Some (Inr (0, cfg))"
proof -
  obtain r4 r6 where l: "load_rule_file demo_source NUM_FIELDS_IPV4 demo_parser 8 100 = Some (Inr (r4, 1, [], 0))"
    "load_rule_file demo_source NUM_FIELDS_IPV6 demo_parser 8 100 = Some (Inr (r6, 1, [], 0))" using demo_load by blast
  obtain mp where m: "map_sockets int [0, 1] (replicate NB_SOCKETS False) = Some (True, mp)"
    by (simp add: NB_SOCKETS_def arr_set_def)
  let ?cfg = "\<lambda>mp. \<lparr>mapped = mp, acx_ipv4 = replicate NB_SOCKETS None, acx_ipv6 = replicate NB_SOCKETS None\<rparr>"
  obtain c c' where "for_each (setup_socket demo_lib ALG_DEFAULT (take 1 r4, []) (take 1 r6, [])) [0..<NB_SOCKETS] (?cfg mp) = Some (Inr c)"
    "for_each (setup_socket demo_lib ALG_DEFAULT (take 1 r4, []) (take 1 r6, [])) [0..<NB_SOCKETS]
      (?cfg ((replicate NB_SOCKETS False)[0 := True])) = Some (Inr c')" using demo_setup_sockets by metis
  then show ?thesis using l m
    by (cases numa) (simp_all add: app_acl_init_def check_acl_config_def demo_args_def initial_args_def Let_def
      del: map_sockets.simps One_nat_def)
qed

theorem acl_contexts_ready_witness:
  "\<exists>cfg cfg'. app_acl_init demo_lib demo_source demo_source demo_parser demo_parser 100 int [0, 1] (demo_args True) = Some (Inr (0, cfg)) \<and>
    acx_ipv4 cfg ! 1 = Some () \<and>
    app_acl_init demo_lib demo_source demo_source demo_parser demo_parser 100 int [0, 1] (demo_args False) = Some (Inr (0, cfg')) \<and>
    acx_ipv4 cfg' ! 0 = Some () \<and> acx_ipv4 cfg' ! 1 = None"
proof -
  obtain cfg cfg' where c: "app_acl_init demo_lib demo_source demo_source demo_parser demo_parser 100 int [0, 1] (demo_args True) = Some (Inr (0, cfg))"
    "app_acl_init demo_lib demo_source demo_source demo_parser demo_parser 100 int [0, 1] (demo_args False) = Some (Inr (0, cfg'))"
    using demo_app_acl_init by blast
  have n: "numa_on (demo_args True)" "\<not> numa_on (demo_args False)" by (simp_all add: demo_args_def initial_args_def)
  have r: "socket_ready demo_lib a x y g i \<Longrightarrow> acx_ipv4 g ! i = Some ()" for a x y g i
    by (auto simp: socket_ready_def)
  have "(1 :: nat) < 8" "(0 :: nat) < 8" "\<exists>l \<in> set [0 :: nat, 1]. int l = int 1" by simp_all
  then have "acx_ipv4 cfg ! 1 = Some ()" using acl_contexts_ready [OF c(1)] n(1) r by metis
  moreover have "acx_ipv4 cfg' ! 1 = None \<and> acx_ipv4 cfg' ! 0 = Some ()"
    using acl_contexts_ready [OF c(2)] n(2) r \<open>(1 :: nat) < 8\<close> \<open>(0 :: nat) < 8\<close> by (metis zero_neq_one)
  ultimately show ?thesis using c by blast
qed
end
