(* ===== verification/Poll.thy ===== *)
theory Poll
  imports QFlow "HOL-Library.Multiset"
begin

section \<open>The polling loop: poll_loop of nf-chain/src/main.c and mica/main.c\<close>

text \<open>
  One lcore sweeps over its RX queues; the policies (Penalty, Aggressive, Latency) and the
  multicore modes decide which queue each iteration polls. The two programs have the same loop
  body; mica also counts skipped polls and leaves the sweep, not the function, when its handler
  asks to stop (\<open>is_mica\<close>). The counters of the statistics are those a single core keeps.

  The network card and DPDK are the record \<open>nic_ops\<close> over an environment state \<open>'e\<close>; \<open>handle\<close> is
  what the program does with a burst between receiving and sending it (in nf-chain
  \<open>prepare_acl_parameter\<close>, \<open>nf_process_burst\<close> and \<open>rte_acl_classify\<close>, in mica
  \<open>mica_process_burst\<close>), with \<open>True\<close> as its stop signal. Timing and printing are not modelled.

  The arrays \<open>hit\<close> and \<open>tx_batch\<close> are accessed with bounds checks: \<open>None\<close> is an access outside them.
  The last four fields of the state are observations that the code does not have: which queues
  were polled, and the packets received, sent and freed, in order.
\<close>

subsection \<open>Environment, configuration and state\<close>

record ('e, 'p) nic_ops =
  rx_burst :: "'e \<Rightarrow> nat \<Rightarrow> int \<Rightarrow> 'p list \<times> 'e"
  try_lock :: "'e \<Rightarrow> nat \<Rightarrow> int \<Rightarrow> bool \<times> 'e"
  rel_lock :: "'e \<Rightarrow> nat \<Rightarrow> int \<Rightarrow> 'e"
  tx_burst :: "'e \<Rightarrow> nat \<Rightarrow> nat \<Rightarrow> 'p list \<Rightarrow> nat \<times> 'e"
  handle :: "'e \<Rightarrow> int \<Rightarrow> 'p list \<Rightarrow> bool \<times> 'e"

record poll_cfg =
  mode :: qflow_mode
  aggressive :: bool
  penalty :: nat
  latency_mode :: bool
  latency_period :: int
  latency_queue :: int
  queue_start :: int
  queue_end :: int
  has_latency_queue :: bool
  port_of :: "int \<Rightarrow> nat"
  tx_queueid :: nat
  is_mica :: bool

datatype poll = Regular int nat | Diverted int nat

record ('e, 'p) poll_state =
  nic :: 'e
  hit :: "nat list"
  max_loops :: nat
  tx_batch :: "'p list"
  latency_count :: int
  inject_queue :: bool
  resume_i :: int
  n_bursts :: nat
  n_pkts :: nat
  spin_time :: nat
  spin_pkt :: nat
  empty_polls :: nat
  skip_count :: nat
  port_rx :: "nat \<Rightarrow> int \<Rightarrow> nat"
  after_warmup :: bool
  measured_packets_rx :: nat
  trace :: "poll list"
  received :: "'p list"
  sent :: "'p list"
  freed :: "'p list"

definition MAX_PKT_BURST :: nat where [simp]: "MAX_PKT_BURST = 32"
definition TX_BATCH_SIZE :: nat where [simp]: "TX_BATCH_SIZE = 512"
definition MAX_RX_QUEUE_PER_LCORE :: nat where [simp]: "MAX_RX_QUEUE_PER_LCORE = 2048"

subsection \<open>One iteration\<close>

text \<open>\<^verbatim>\<open>rte_eth_tx_burst\<close> and the loop that frees what the card did not take.\<close>

definition transmit ::
  "('e, 'p) nic_ops \<Rightarrow> nat \<Rightarrow> nat \<Rightarrow> 'p list \<Rightarrow> ('e, 'p) poll_state \<Rightarrow> ('e, 'p) poll_state" where
  "transmit ops port q pkts st =
     (let (nb_tx, e) = tx_burst ops (nic st) port q pkts
      in st\<lparr>nic := e, sent := sent st @ take nb_tx pkts, freed := freed st @ drop nb_tx pkts\<rparr>)"

text \<open>The Penalty test at the top of the body: \<open>Some True\<close> skips the queue and counts the turn.\<close>

definition penalized ::
  "poll_cfg \<Rightarrow> int \<Rightarrow> ('e, 'p) poll_state \<Rightarrow> (bool \<times> ('e, 'p) poll_state) option" where
  "penalized cfg qi st =
     (if 0 < penalty cfg then do {
        h \<leftarrow> arr_get (hit st) qi;
        if h < penalty cfg then do {
          hs \<leftarrow> arr_set (hit st) qi (h + 1);
          Some (True, st\<lparr>hit := hs,
            skip_count := (if is_mica cfg \<and> mode cfg = QFLOW_SINGLE then u32 (skip_count st + 1) else skip_count st)\<rparr>)
        }
        else Some (False, st)
      }
      else Some (False, st))"

text \<open>The Latency diversion before the poll.\<close>

definition divert :: "poll_cfg \<Rightarrow> int \<Rightarrow> ('e, 'p) poll_state \<Rightarrow> int \<times> ('e, 'p) poll_state" where
  "divert cfg i st =
     (if latency_mode cfg \<and> has_latency_queue cfg \<and> inject_queue st
      then (latency_queue cfg, st\<lparr>resume_i := i, inject_queue := False\<rparr>)
      else (i, st))"

text \<open>Receiving, under the queue's lock in mode Shared; \<open>None\<close> is a lock that was not free.\<close>

definition receive ::
  "('e, 'p) nic_ops \<Rightarrow> poll_cfg \<Rightarrow> int \<Rightarrow> ('e, 'p) poll_state \<Rightarrow> 'p list option \<times> ('e, 'p) poll_state"
  where
  "receive ops cfg i st =
     (let port = port_of cfg i;
          (ok, e) = (if mode cfg = QFLOW_SHARED then try_lock ops (nic st) port i else (True, nic st))
      in if \<not> ok then (None, st\<lparr>nic := e\<rparr>)
         else
           let (pkts, e) = rx_burst ops e port i;
               e = (if mode cfg = QFLOW_SHARED then rel_lock ops e port i else e);
               st = st\<lparr>nic := e, received := received st @ pkts,
                       trace := trace st @ [if resume_i st \<noteq> - 1 \<and> i = latency_queue cfg
                         then Diverted i (length pkts) else Regular i (length pkts)]\<rparr>
           in (Some pkts,
               if mode cfg = QFLOW_SINGLE
               then st\<lparr>n_bursts := u32 (n_bursts st + 1), n_pkts := u32 (n_pkts st + length pkts)\<rparr>
               else st))"

text \<open>Sending: at once on a single core, through the batch otherwise.\<close>

definition forward ::
  "('e, 'p) nic_ops \<Rightarrow> poll_cfg \<Rightarrow> int \<Rightarrow> 'p list \<Rightarrow> ('e, 'p) poll_state \<Rightarrow> ('e, 'p) poll_state option"
  where
  "forward ops cfg i pkts st =
     (if mode cfg = QFLOW_SINGLE then
        let port = port_of cfg i;
            nb_rx = length pkts;
            st = transmit ops port 0 pkts st
        in Some (st\<lparr>port_rx := (port_rx st)(port := (port_rx st port)(i := (port_rx st port i + nb_rx) mod 2 ^ 64)),
                    measured_packets_rx := (if after_warmup st then (measured_packets_rx st + nb_rx) mod 2 ^ 64
                                            else measured_packets_rx st)\<rparr>)
      else
        let st = (if TX_BATCH_SIZE < length (tx_batch st) + length pkts
                  then (transmit ops (port_of cfg i) (tx_queueid cfg) (tx_batch st) st)\<lparr>tx_batch := []\<rparr>
                  else st)
        in if TX_BATCH_SIZE < length (tx_batch st) + length pkts then None
           else Some (st\<lparr>tx_batch := tx_batch st @ pkts\<rparr>))"

text \<open>After the poll: the Latency bookkeeping, with the flag \<open>latency_poll\<close>.\<close>

definition after_latency ::
  "poll_cfg \<Rightarrow> int \<Rightarrow> ('e, 'p) poll_state \<Rightarrow> bool \<times> int \<times> ('e, 'p) poll_state" where
  "after_latency cfg i st =
     (if latency_mode cfg \<and> has_latency_queue cfg then
        if resume_i st \<noteq> - 1 \<and> i = latency_queue cfg
        then (True, resume_i st - 1, st\<lparr>resume_i := - 1\<rparr>)
        else if i \<noteq> latency_queue cfg then
          let c = latency_count st + 1
          in if c = latency_period cfg
             then (False, i, st\<lparr>latency_count := 0, inject_queue := True\<rparr>)
             else (False, i, st\<lparr>latency_count := c\<rparr>)
        else (False, i, st)
      else (False, i, st))"

text \<open>Penalty and Aggressive.\<close>

definition after_policy ::
  "poll_cfg \<Rightarrow> int \<Rightarrow> int \<Rightarrow> nat \<Rightarrow> ('e, 'p) poll_state \<Rightarrow> (int \<times> ('e, 'p) poll_state) option" where
  "after_policy cfg qi i nb_rx st = do {
     st \<leftarrow> (if 0 < penalty cfg \<and> max_loops st = QFLOW_MAX_CONSECUTIVE_POLLS then do {
              hs \<leftarrow> arr_set (hit st) (if mode cfg = QFLOW_PARTITIONED then qi else i)
                      (if MAX_PKT_BURST div 2 < nb_rx then penalty cfg else 0);
              Some (st\<lparr>hit := hs\<rparr>)
            }
            else Some st);
     if aggressive cfg \<and> nb_rx = MAX_PKT_BURST \<and> 0 < max_loops st
     then Some (i - 1, st\<lparr>max_loops := max_loops st - 1\<rparr>)
     else Some (i, st\<lparr>max_loops := QFLOW_MAX_CONSECUTIVE_POLLS\<rparr>)
   }"

definition count_poll :: "poll_cfg \<Rightarrow> nat \<Rightarrow> ('e, 'p) poll_state \<Rightarrow> ('e, 'p) poll_state" where
  "count_poll cfg nb_rx st =
     (if mode cfg = QFLOW_SINGLE
      then st\<lparr>spin_time := (if nb_rx < MAX_PKT_BURST then u32 (spin_time st + 1) else spin_time st),
              spin_pkt := u32 (spin_pkt st + nb_rx),
              empty_polls := (if nb_rx = 0 then u32 (empty_polls st + 1) else empty_polls st)\<rparr>
      else st)"

text \<open>The body of the \<^verbatim>\<open>for\<close> loop: the value of \<open>i\<close> before its \<^verbatim>\<open>++i\<close>, or the stop signal.
  \<open>finish_poll\<close> is its end, from the latency bookkeeping on.\<close>

datatype 's step = Next int 's | Stop 's

definition finish_poll ::
  "poll_cfg \<Rightarrow> int \<Rightarrow> int \<Rightarrow> nat \<Rightarrow> ('e, 'p) poll_state \<Rightarrow> ('e, 'p) poll_state step option" where
  "finish_poll cfg qi i nb_rx st = do {
     let (latency_poll, i, st) = after_latency cfg i st;
     (i, st) \<leftarrow> (if latency_poll then Some (i, st) else after_policy cfg qi i nb_rx st);
     Some (Next i (count_poll cfg nb_rx st))
   }"

definition poll_body ::
  "('e, 'p) nic_ops \<Rightarrow> poll_cfg \<Rightarrow> int \<Rightarrow> ('e, 'p) poll_state \<Rightarrow> ('e, 'p) poll_state step option" where
  "poll_body ops cfg i st = do {
     let qi = i - queue_start cfg;
     (skip, st) \<leftarrow> penalized cfg qi st;
     if skip then Some (Next i st)
     else do {
       let (i, st) = divert cfg i st;
       case receive ops cfg i st of
         (None, st) \<Rightarrow> Some (Next i st)
       | (Some pkts, st) \<Rightarrow> do {
           let nb_rx = length pkts;
           let (stop, st) = (if 0 < nb_rx
                             then (let (s, e) = handle ops (nic st) i pkts in (s, st\<lparr>nic := e\<rparr>))
                             else (False, st));
           if stop then Some (Stop st)
           else do {
             st \<leftarrow> (if 0 < nb_rx then forward ops cfg i pkts st else Some st);
             finish_poll cfg qi i nb_rx st
           }
         }
     }
   }"

subsection \<open>A sweep, and the loop of an lcore\<close>

text \<open>The inner \<^verbatim>\<open>for\<close> loop from \<open>i\<close>. \<open>None\<close> is an access outside an array, or a sweep that never ends.\<close>

partial_function (option) sweep_from ::
  "('e, 'p) nic_ops \<Rightarrow> poll_cfg \<Rightarrow> int \<Rightarrow> ('e, 'p) poll_state \<Rightarrow> (bool \<times> ('e, 'p) poll_state) option"
  where
  "sweep_from ops cfg i st =
     (if i < queue_end cfg
      then Option.bind (poll_body ops cfg i st) (\<lambda>r.
             case r of Stop st' \<Rightarrow> Some (True, st') | Next i' st' \<Rightarrow> sweep_from ops cfg (i' + 1) st')
      else Some (False, st))"

definition sweep ::
  "('e, 'p) nic_ops \<Rightarrow> poll_cfg \<Rightarrow> ('e, 'p) poll_state \<Rightarrow> (bool \<times> ('e, 'p) poll_state) option" where
  "sweep ops cfg st = do {
     (stop, st) \<leftarrow> sweep_from ops cfg (queue_start cfg)
                     (st\<lparr>max_loops := QFLOW_MAX_CONSECUTIVE_POLLS, tx_batch := []\<rparr>);
     if stop \<and> \<not> is_mica cfg then Some (True, st)
     else
       Some (stop,
             if mode cfg \<noteq> QFLOW_SINGLE \<and> tx_batch st \<noteq> []
             then (transmit ops (port_of cfg (queue_start cfg)) (tx_queueid cfg) (tx_batch st) st)\<lparr>tx_batch := []\<rparr>
             else st)
   }"

text \<open>The \<^verbatim>\<open>while (!force_quit)\<close> loop, for the first \<open>n\<close> sweeps.\<close>

fun sweeps ::
  "nat \<Rightarrow> ('e, 'p) nic_ops \<Rightarrow> poll_cfg \<Rightarrow> ('e, 'p) poll_state \<Rightarrow> (bool \<times> ('e, 'p) poll_state) option" where
  "sweeps 0 ops cfg st = Some (False, st)"
| "sweeps (Suc n) ops cfg st =
     (case sweep ops cfg st of
        None \<Rightarrow> None
      | Some (True, st') \<Rightarrow> Some (True, st')
      | Some (False, st') \<Rightarrow> sweeps n ops cfg st')"

subsection \<open>Start-up of an lcore\<close>

text \<open>The slice of the queues that lcore number \<open>lcore_pos\<close> polls in nf-chain (32 bit unsigned).\<close>

definition slice_start :: "nat \<Rightarrow> nat \<Rightarrow> nat \<Rightarrow> nat" where
  "slice_start queues lcore_pos total_lcores = u32 (queues * lcore_pos) div total_lcores"

definition slice_end :: "nat \<Rightarrow> nat \<Rightarrow> nat \<Rightarrow> nat" where
  "slice_end queues lcore_pos total_lcores = u32 (queues * u32 (lcore_pos + 1)) div total_lcores"

definition poll_config ::
  "qflow_opts \<Rightarrow> nat \<Rightarrow> nat \<Rightarrow> nat \<Rightarrow> (int \<Rightarrow> nat) \<Rightarrow> poll_cfg" where
  "poll_config opts queues lcore_pos total_lcores ports =
     (let s = (if o_mode opts = QFLOW_PARTITIONED then int (slice_start queues lcore_pos total_lcores) else 0);
          t = (if o_mode opts = QFLOW_PARTITIONED then int (slice_end queues lcore_pos total_lcores) else int queues)
      in \<lparr>mode = o_mode opts, aggressive = o_aggressive opts,
          penalty = (if o_penalty opts then o_penalty_turns opts else 0),
          latency_mode = o_latency opts, latency_period = o_latency_period opts,
          latency_queue = o_latency_queue opts, queue_start = s, queue_end = t,
          has_latency_queue = (s \<le> o_latency_queue opts \<and> o_latency_queue opts < t),
          port_of = ports, tx_queueid = lcore_pos mod 2 ^ 16, is_mica = False\<rparr>)"

text \<open>\<open>get_lcore_for_queue\<close>: the position of the lcore that owns a queue, or the fallback.\<close>

function lcore_for_queue_from :: "nat \<Rightarrow> nat \<Rightarrow> nat \<Rightarrow> nat \<Rightarrow> nat option" where
  "lcore_for_queue_from queue_id total_queues total_lcores lcore_pos =
    (if lcore_pos < total_lcores then
       if u32 (total_queues * lcore_pos) div total_lcores \<le> queue_id \<and>
          queue_id < u32 (total_queues * u32 (lcore_pos + 1)) div total_lcores
       then Some lcore_pos
       else lcore_for_queue_from queue_id total_queues total_lcores (Suc lcore_pos)
     else None)"
  by pat_completeness auto
termination
  by (relation "measure (\<lambda>(q, tq, tl, pos). tl - pos)") auto

declare lcore_for_queue_from.simps [simp del]

definition get_lcore_for_queue :: "nat \<Rightarrow> nat \<Rightarrow> nat \<Rightarrow> nat option" where
  "get_lcore_for_queue queue_id total_queues total_lcores =
     lcore_for_queue_from queue_id total_queues total_lcores 0"

text \<open>mica's slices: the first \<open>queues mod lcores\<close> lcores get one queue more (16 bit unsigned).\<close>

definition mica_slice :: "qflow_mode \<Rightarrow> nat \<Rightarrow> nat \<Rightarrow> nat \<Rightarrow> nat \<times> nat" where
  "mica_slice md queues lcore_idx active_io_lcores =
     (if md = QFLOW_SINGLE then (0, queues)
      else if active_io_lcores \<le> lcore_idx then (queues, 0)
      else if md = QFLOW_PARTITIONED then
        let queues_per_lcore = queues div active_io_lcores;
            extra_queues = queues mod active_io_lcores
        in ((lcore_idx * queues_per_lcore + min lcore_idx extra_queues) mod 2 ^ 16,
            (queues_per_lcore + (if lcore_idx < extra_queues then 1 else 0)) mod 2 ^ 16)
      else (0, queues))"

definition mica_owner :: "nat \<Rightarrow> nat \<Rightarrow> nat \<Rightarrow> nat" where
  "mica_owner queues io_lcores x =
     (let queues_per_lcore = queues div io_lcores;
          extra_queues = queues mod io_lcores;
          boundary = extra_queues * (queues_per_lcore + 1) mod 2 ^ 16
      in if x < boundary then (x div (queues_per_lcore + 1)) mod 2 ^ 16
         else (extra_queues + (x - boundary) div queues_per_lcore) mod 2 ^ 16)"

definition initial_state :: "poll_cfg \<Rightarrow> 'e \<Rightarrow> ('e, 'p) poll_state" where
  "initial_state cfg e =
     \<lparr>nic = e, hit = replicate MAX_RX_QUEUE_PER_LCORE (penalty cfg), max_loops = QFLOW_MAX_CONSECUTIVE_POLLS,
      tx_batch = [], latency_count = 0, inject_queue = False, resume_i = - 1,
      n_bursts = 0, n_pkts = 0, spin_time = 0, spin_pkt = 0, empty_polls = 0, skip_count = 0,
      port_rx = (\<lambda>_ _. 0), after_warmup = False, measured_packets_rx = 0, trace = [], received = [], sent = [], freed = []\<rparr>"

subsection \<open>The pieces of the body\<close>

text \<open>What the polling decisions depend on: everything else in the state is environment, counters
  and observations.\<close>

definition same_control :: "('e, 'p) poll_state \<Rightarrow> ('e, 'p) poll_state \<Rightarrow> bool" where
  "same_control st st' \<longleftrightarrow> hit st' = hit st \<and> max_loops st' = max_loops st \<and>
     latency_count st' = latency_count st \<and> inject_queue st' = inject_queue st \<and> resume_i st' = resume_i st"

definition balanced :: "('e, 'p) poll_state \<Rightarrow> bool" where
  "balanced st \<longleftrightarrow> mset (received st) = mset (sent st) + mset (freed st) + mset (tx_batch st)"

definition bursts_ok :: "('e, 'p) nic_ops \<Rightarrow> bool" where
  "bursts_ok ops \<longleftrightarrow> (\<forall>e port q. length (fst (rx_burst ops e port q)) \<le> MAX_PKT_BURST)"

definition tag :: "poll_cfg \<Rightarrow> int \<Rightarrow> nat \<Rightarrow> ('e, 'p) poll_state \<Rightarrow> poll" where
  "tag cfg i nb st = (if resume_i st \<noteq> - 1 \<and> i = latency_queue cfg then Diverted i nb else Regular i nb)"

lemma transmit_fields:
  "hit (transmit ops port q pkts st) = hit st" "max_loops (transmit ops port q pkts st) = max_loops st"
  "latency_count (transmit ops port q pkts st) = latency_count st"
  "inject_queue (transmit ops port q pkts st) = inject_queue st"
  "resume_i (transmit ops port q pkts st) = resume_i st" "trace (transmit ops port q pkts st) = trace st"
  "received (transmit ops port q pkts st) = received st" "tx_batch (transmit ops port q pkts st) = tx_batch st"
  by (simp_all add: transmit_def case_prod_beta)

lemma transmit_logs:
  "mset (sent (transmit ops port q pkts st)) + mset (freed (transmit ops port q pkts st)) =
    mset (sent st) + mset (freed st) + mset pkts"
proof -
  obtain n e where "tx_burst ops (nic st) port q pkts = (n, e)" by fastforce
  moreover have "mset (take n pkts) + mset (drop n pkts) = mset pkts"
    by (metis append_take_drop_id mset_append)
  ultimately show ?thesis by (simp add: transmit_def ac_simps)
qed

text \<open>One received burst, handled and passed on: the effect on everything a property looks at.\<close>

definition moved ::
  "poll_cfg \<Rightarrow> int \<Rightarrow> nat \<Rightarrow> ('e, 'p) poll_state \<Rightarrow> ('e, 'p) poll_state \<Rightarrow> bool" where
  "moved cfg i nb st st' \<longleftrightarrow> same_control st st' \<and> trace st' = trace st @ [tag cfg i nb st] \<and>
     length (received st') = length (received st) + nb \<and>
     (length (tx_batch st) \<le> TX_BATCH_SIZE \<longrightarrow> length (tx_batch st') \<le> TX_BATCH_SIZE) \<and>
     (mode cfg = QFLOW_SINGLE \<longrightarrow> tx_batch st' = tx_batch st) \<and>
     (balanced st \<longrightarrow> balanced st')"

lemma receive_cases:
  assumes "bursts_ok ops" "receive ops cfg i st = (r, st')"
  shows "(r = None \<and> mode cfg = QFLOW_SHARED \<and> (\<exists>e. st' = st\<lparr>nic := e\<rparr>)) \<or>
    (\<exists>pkts. r = Some pkts \<and> length pkts \<le> MAX_PKT_BURST \<and> same_control st st' \<and>
      trace st' = trace st @ [tag cfg i (length pkts) st] \<and> received st' = received st @ pkts \<and>
      sent st' = sent st \<and> freed st' = freed st \<and> tx_batch st' = tx_batch st)"
proof -
  let ?port = "port_of cfg i"
  obtain ok e1 where l: "(if mode cfg = QFLOW_SHARED then try_lock ops (nic st) ?port i else (True, nic st)) = (ok, e1)"
    by (metis surj_pair)
  obtain pkts e2 where b: "rx_burst ops e1 ?port i = (pkts, e2)" by fastforce
  then have n: "length pkts \<le> MAX_PKT_BURST" using assms(1) unfolding bursts_ok_def by (metis fst_conv)
  show ?thesis
  proof (cases ok)
    case True
    let ?st = "st\<lparr>nic := (if mode cfg = QFLOW_SHARED then rel_lock ops e2 ?port i else e2),
      received := received st @ pkts, trace := trace st @ [tag cfg i (length pkts) st]\<rparr>"
    have "receive ops cfg i st = (Some pkts,
      if mode cfg = QFLOW_SINGLE then ?st\<lparr>n_bursts := u32 (n_bursts st + 1), n_pkts := u32 (n_pkts st + length pkts)\<rparr> else ?st)"
      unfolding receive_def Let_def l prod.case b tag_def using True by simp
    then show ?thesis using assms(2) n by (auto simp: same_control_def)
  next
    case False
    then have "mode cfg = QFLOW_SHARED" using l by (simp split: if_splits)
    moreover have "receive ops cfg i st = (None, st\<lparr>nic := e1\<rparr>)"
      unfolding receive_def Let_def l prod.case using False by simp
    ultimately show ?thesis using assms(2) by auto
  qed
qed

lemma forward_moves:
  assumes "length pkts \<le> MAX_PKT_BURST"
  shows "\<exists>st'. forward ops cfg i pkts st = Some st' \<and> same_control st st' \<and> trace st' = trace st \<and>
    received st' = received st \<and>
    (length (tx_batch st) \<le> TX_BATCH_SIZE \<longrightarrow> length (tx_batch st') \<le> TX_BATCH_SIZE) \<and>
    (mode cfg = QFLOW_SINGLE \<longrightarrow> tx_batch st' = tx_batch st) \<and>
    mset (sent st') + mset (freed st') + mset (tx_batch st') =
      mset (sent st) + mset (freed st) + mset (tx_batch st) + mset pkts"
proof -
  consider (single) "mode cfg = QFLOW_SINGLE"
    | (flush) "mode cfg \<noteq> QFLOW_SINGLE" "TX_BATCH_SIZE < length (tx_batch st) + length pkts"
    | (keep) "mode cfg \<noteq> QFLOW_SINGLE" "length (tx_batch st) + length pkts \<le> TX_BATCH_SIZE" by linarith
  then show ?thesis
  proof cases
    case single
    let ?t = "transmit ops (port_of cfg i) 0 pkts st"
    have "mset (sent ?t) + mset (freed ?t) + mset (tx_batch ?t) =
      mset (sent st) + mset (freed st) + mset (tx_batch st) + mset pkts"
      unfolding transmit_logs transmit_fields by simp
    then show ?thesis using single by (simp add: forward_def Let_def same_control_def transmit_fields)
  next
    case flush
    let ?t = "transmit ops (port_of cfg i) (tx_queueid cfg) (tx_batch st) st"
    have "forward ops cfg i pkts st = Some (?t\<lparr>tx_batch := pkts\<rparr>)"
      using flush assms by (simp add: forward_def Let_def)
    then show ?thesis using assms transmit_logs [of ops "port_of cfg i" "tx_queueid cfg" "tx_batch st" st] flush(1)
      by (simp add: same_control_def transmit_fields)
  next
    case keep
    then show ?thesis by (simp add: forward_def Let_def same_control_def)
  qed
qed

text \<open>The rule for the body: to prove a property of its result, prove it for a skipped queue, a lock
  that was taken, a stop signal, and the end of an ordinary poll.\<close>

lemma poll_body_rule:
  assumes b: "bursts_ok ops" and qi: "0 < penalty cfg \<Longrightarrow> 0 \<le> i - queue_start cfg \<and> nat (i - queue_start cfg) < length (hit st)"
    and skip: "\<And>c. 0 < penalty cfg \<Longrightarrow> hit st ! nat (i - queue_start cfg) < penalty cfg \<Longrightarrow>
      Q (Next i (st\<lparr>hit := (hit st)[nat (i - queue_start cfg) := hit st ! nat (i - queue_start cfg) + 1], skip_count := c\<rparr>))"
    and lock: "\<And>i1 st1 e. 0 < penalty cfg \<longrightarrow> penalty cfg \<le> hit st ! nat (i - queue_start cfg) \<Longrightarrow>
      divert cfg i st = (i1, st1) \<Longrightarrow> mode cfg = QFLOW_SHARED \<Longrightarrow> Q (Next i1 (st1\<lparr>nic := e\<rparr>))"
    and stop: "\<And>i1 st1 st2 nb. 0 < penalty cfg \<longrightarrow> penalty cfg \<le> hit st ! nat (i - queue_start cfg) \<Longrightarrow>
      divert cfg i st = (i1, st1) \<Longrightarrow> same_control st1 st2 \<Longrightarrow>
      trace st2 = trace st1 @ [tag cfg i1 nb st1] \<Longrightarrow> 0 < nb \<Longrightarrow> tx_batch st2 = tx_batch st1 \<Longrightarrow> Q (Stop st2)"
    and fin: "\<And>i1 st1 st2 nb. 0 < penalty cfg \<longrightarrow> penalty cfg \<le> hit st ! nat (i - queue_start cfg) \<Longrightarrow>
      divert cfg i st = (i1, st1) \<Longrightarrow> nb \<le> MAX_PKT_BURST \<Longrightarrow> moved cfg i1 nb st1 st2 \<Longrightarrow>
      \<exists>r. finish_poll cfg (i - queue_start cfg) i1 nb st2 = Some r \<and> Q r"
  shows "\<exists>r. poll_body ops cfg i st = Some r \<and> Q r"
proof -
  let ?q = "i - queue_start cfg"
  show ?thesis
  proof (cases "0 < penalty cfg \<and> hit st ! nat ?q < penalty cfg")
    case True
    let ?h = "hit st ! nat ?q"
    have "arr_get (hit st) ?q = Some ?h" "arr_set (hit st) ?q (?h + 1) = Some ((hit st)[nat ?q := ?h + 1])"
      using qi True by (auto simp: arr_get_def arr_set_def)
    then show ?thesis using True skip by (auto simp: poll_body_def penalized_def Let_def)
  next
    case False
    then have no: "0 < penalty cfg \<longrightarrow> penalty cfg \<le> hit st ! nat ?q" by auto
    have "penalized cfg ?q st = Some (False, st)"
    proof (cases "0 < penalty cfg")
      case True
      then have "arr_get (hit st) ?q = Some (hit st ! nat ?q)" using qi by (auto simp: arr_get_def)
      then show ?thesis using False True by (simp add: penalized_def)
    next
      case False
      then show ?thesis by (simp add: penalized_def)
    qed
    moreover obtain i1 st1 where d: "divert cfg i st = (i1, st1)" by fastforce
    moreover obtain r st2 where rc: "receive ops cfg i1 st1 = (r, st2)" by fastforce
    ultimately have body: "poll_body ops cfg i st = (case r of None \<Rightarrow> Some (Next i1 st2) | Some pkts \<Rightarrow>
      (let (stop, st) = (if 0 < length pkts then (let (s, e) = handle ops (nic st2) i1 pkts in (s, st2\<lparr>nic := e\<rparr>))
           else (False, st2))
       in if stop then Some (Stop st)
          else Option.bind (if 0 < length pkts then forward ops cfg i1 pkts st else Some st)
                 (finish_poll cfg ?q i1 (length pkts))))"
      by (simp add: poll_body_def Let_def split: option.splits)
    from receive_cases [OF b rc] show ?thesis
    proof (elim disjE exE conjE)
      fix e assume "r = None" "mode cfg = QFLOW_SHARED" "st2 = st1\<lparr>nic := e\<rparr>"
      then show ?thesis using lock [OF no d] body by auto
    next
      fix pkts assume r: "r = Some pkts" and n: "length pkts \<le> MAX_PKT_BURST" and sc: "same_control st1 st2"
        and tr: "trace st2 = trace st1 @ [tag cfg i1 (length pkts) st1]" and rv: "received st2 = received st1 @ pkts"
        and lg: "sent st2 = sent st1" "freed st2 = freed st1" "tx_batch st2 = tx_batch st1"
      show ?thesis
      proof (cases "pkts = []")
        case True
        then have "moved cfg i1 (length pkts) st1 st2"
          using sc tr rv lg by (simp add: moved_def balanced_def)
        then show ?thesis using fin [OF no d n] body r True by auto
      next
        case ne: False
        obtain s e where h: "handle ops (nic st2) i1 pkts = (s, e)" by fastforce
        let ?st = "st2\<lparr>nic := e\<rparr>"
        have sc': "same_control st1 ?st" "trace ?st = trace st2" "tx_batch ?st = tx_batch st2"
          using sc by (simp_all add: same_control_def)
        show ?thesis
        proof (cases s)
          case True
          then show ?thesis using stop [OF no d sc'(1)] sc' tr ne lg(3) body r h by auto
        next
          case False
          obtain st3 where f: "forward ops cfg i1 pkts ?st = Some st3" "same_control ?st st3"
            "trace st3 = trace ?st" "received st3 = received ?st"
            "length (tx_batch ?st) \<le> TX_BATCH_SIZE \<longrightarrow> length (tx_batch st3) \<le> TX_BATCH_SIZE"
            "mode cfg = QFLOW_SINGLE \<longrightarrow> tx_batch st3 = tx_batch ?st"
            "mset (sent st3) + mset (freed st3) + mset (tx_batch st3) =
              mset (sent ?st) + mset (freed ?st) + mset (tx_batch ?st) + mset pkts"
            using forward_moves [OF n, of ops cfg i1 ?st] by blast
          have "moved cfg i1 (length pkts) st1 st3"
            using sc f tr rv lg by (simp add: moved_def same_control_def balanced_def)
          then show ?thesis using fin [OF no d n] body r h f(1) False ne by auto
        qed
      qed
    qed
  qed
qed

definition same_io :: "('e, 'p) poll_state \<Rightarrow> ('e, 'p) poll_state \<Rightarrow> bool" where
  "same_io st st' \<longleftrightarrow> trace st' = trace st \<and> received st' = received st \<and> sent st' = sent st \<and>
     freed st' = freed st \<and> tx_batch st' = tx_batch st"

definition latency_on :: "poll_cfg \<Rightarrow> bool" where
  "latency_on cfg \<longleftrightarrow> latency_mode cfg \<and> has_latency_queue cfg"

lemma count_poll_fields:
  "hit (count_poll cfg nb st) = hit st" "max_loops (count_poll cfg nb st) = max_loops st"
  "latency_count (count_poll cfg nb st) = latency_count st"
  "inject_queue (count_poll cfg nb st) = inject_queue st" "resume_i (count_poll cfg nb st) = resume_i st"
  "trace (count_poll cfg nb st) = trace st" "received (count_poll cfg nb st) = received st"
  "sent (count_poll cfg nb st) = sent st" "freed (count_poll cfg nb st) = freed st"
  "tx_batch (count_poll cfg nb st) = tx_batch st"
  by (simp_all add: count_poll_def)

lemma finish_latency:
  assumes "latency_on cfg" "resume_i st \<noteq> - 1" "i = latency_queue cfg"
  shows "finish_poll cfg qi i nb st = Some (Next (resume_i st - 1) (count_poll cfg nb (st\<lparr>resume_i := - 1\<rparr>)))"
  using assms by (simp add: finish_poll_def after_latency_def latency_on_def)

text \<open>The end of a regular poll. The slot of the Penalty counter is \<open>k\<close>.\<close>

definition regular_end ::
  "poll_cfg \<Rightarrow> nat \<Rightarrow> int \<Rightarrow> nat \<Rightarrow> ('e, 'p) poll_state \<Rightarrow> int \<Rightarrow> ('e, 'p) poll_state \<Rightarrow> bool" where
  "regular_end cfg k i nb st i' st' \<longleftrightarrow>
     (let again = (aggressive cfg \<and> nb = MAX_PKT_BURST \<and> 0 < max_loops st);
          counted = (latency_on cfg \<and> i \<noteq> latency_queue cfg);
          due = (counted \<and> latency_count st + 1 = latency_period cfg)
      in i' = (if again then i - 1 else i) \<and>
         max_loops st' = (if again then max_loops st - 1 else QFLOW_MAX_CONSECUTIVE_POLLS) \<and>
         hit st' = (if 0 < penalty cfg \<and> max_loops st = QFLOW_MAX_CONSECUTIVE_POLLS
                    then (hit st)[k := if MAX_PKT_BURST div 2 < nb then penalty cfg else 0] else hit st) \<and>
         latency_count st' = (if due then 0 else if counted then latency_count st + 1 else latency_count st) \<and>
         inject_queue st' = (due \<or> inject_queue st) \<and> resume_i st' = resume_i st \<and> same_io st st')"

lemma finish_regular:
  assumes "\<not> (latency_on cfg \<and> resume_i st \<noteq> - 1 \<and> i = latency_queue cfg)"
    and k: "0 < penalty cfg \<Longrightarrow> (if mode cfg = QFLOW_PARTITIONED then qi else i) = int k \<and> k < length (hit st)"
  shows "\<exists>i' st'. finish_poll cfg qi i nb st = Some (Next i' st') \<and> regular_end cfg k i nb st i' st'"
proof -
  obtain st1 where l: "after_latency cfg i st = (False, i, st1)"
    and f: "max_loops st1 = max_loops st" "hit st1 = hit st" "resume_i st1 = resume_i st" "same_io st st1"
      "latency_count st1 = (if latency_on cfg \<and> i \<noteq> latency_queue cfg then
        (if latency_count st + 1 = latency_period cfg then 0 else latency_count st + 1) else latency_count st)"
      "inject_queue st1 = (latency_on cfg \<and> i \<noteq> latency_queue cfg \<and> latency_count st + 1 = latency_period cfg
        \<or> inject_queue st)"
    using assms(1) by (cases "latency_on cfg"; cases "i = latency_queue cfg"; cases "latency_count st + 1 = latency_period cfg")
      (auto simp: after_latency_def latency_on_def Let_def same_io_def)
  let ?pen = "0 < penalty cfg \<and> max_loops st = QFLOW_MAX_CONSECUTIVE_POLLS"
  let ?h = "if ?pen then (hit st)[k := if MAX_PKT_BURST div 2 < nb then penalty cfg else 0] else hit st"
  let ?again = "aggressive cfg \<and> nb = MAX_PKT_BURST \<and> 0 < max_loops st"
  have "\<exists>st2. after_policy cfg qi i nb st1 = Some (if ?again then i - 1 else i, st2) \<and>
    st2 = st1\<lparr>hit := ?h, max_loops := if ?again then max_loops st - 1 else QFLOW_MAX_CONSECUTIVE_POLLS\<rparr>"
  proof (cases ?pen)
    case True
    let ?v = "if MAX_PKT_BURST div 2 < nb then penalty cfg else 0"
    have "arr_set (hit st1) (if mode cfg = QFLOW_PARTITIONED then qi else i) ?v = Some ((hit st)[k := ?v])"
      using k True f(2) by (simp only: arr_set_nat)
    then show ?thesis using True f unfolding after_policy_def by auto
  next
    case False
    have "st1 = st1\<lparr>hit := hit st\<rparr>" using f(2) by (cases st1) simp
    then show ?thesis using False f unfolding after_policy_def by auto
  qed
  then obtain st2 where p: "after_policy cfg qi i nb st1 = Some (if ?again then i - 1 else i, st2)"
    and s2: "st2 = st1\<lparr>hit := ?h, max_loops := if ?again then max_loops st - 1 else QFLOW_MAX_CONSECUTIVE_POLLS\<rparr>"
    by blast
  have "finish_poll cfg qi i nb st = Some (Next (if ?again then i - 1 else i) (count_poll cfg nb st2))"
    by (simp add: finish_poll_def l p)
  moreover have "regular_end cfg k i nb st (if ?again then i - 1 else i) (count_poll cfg nb st2)"
    using f by (simp add: regular_end_def s2 count_poll_fields same_io_def)
  ultimately show ?thesis by blast
qed

subsection \<open>Safety and progress of the body\<close>

definition cfg_ok :: "poll_cfg \<Rightarrow> bool" where
  "cfg_ok cfg \<longleftrightarrow> 0 \<le> queue_start cfg \<and> queue_start cfg \<le> queue_end cfg \<and> queue_end cfg \<le> int MAX_RX_QUEUE_PER_LCORE \<and>
     (mode cfg \<noteq> QFLOW_PARTITIONED \<longrightarrow> queue_start cfg = 0) \<and>
     (has_latency_queue cfg \<longleftrightarrow> queue_start cfg \<le> latency_queue cfg \<and> latency_queue cfg < queue_end cfg)"

definition state_ok :: "poll_cfg \<Rightarrow> ('e, 'p) poll_state \<Rightarrow> bool" where
  "state_ok cfg st \<longleftrightarrow> length (hit st) = MAX_RX_QUEUE_PER_LCORE \<and> length (tx_batch st) \<le> TX_BATCH_SIZE \<and>
     max_loops st \<le> QFLOW_MAX_CONSECUTIVE_POLLS \<and>
     (resume_i st \<noteq> - 1 \<longrightarrow> latency_on cfg \<and> queue_start cfg \<le> resume_i st \<and> resume_i st < queue_end cfg) \<and>
     (mode cfg = QFLOW_SINGLE \<longrightarrow> tx_batch st = [])"

text \<open>Without Latency under Shared, a lock that is taken can only delay the queue it guards.\<close>

definition steady :: "poll_cfg \<Rightarrow> bool" where
  "steady cfg \<longleftrightarrow> mode cfg \<noteq> QFLOW_SHARED \<or> \<not> latency_on cfg"

definition advances :: "int \<Rightarrow> ('e, 'p) poll_state \<Rightarrow> int \<Rightarrow> ('e, 'p) poll_state \<Rightarrow> bool" where
  "advances i st i' st' \<longleftrightarrow> i' = i \<or>
     i' = i - 1 \<and> (max_loops st' < max_loops st \<or> max_loops st' = max_loops st \<and> inject_queue st \<and> \<not> inject_queue st')"

definition body_result :: "poll_cfg \<Rightarrow> int \<Rightarrow> ('e, 'p) poll_state \<Rightarrow> ('e, 'p) poll_state step \<Rightarrow> bool" where
  "body_result cfg i st r \<longleftrightarrow>
     (case r of
        Stop st' \<Rightarrow> state_ok cfg st'
      | Next i' st' \<Rightarrow> state_ok cfg st' \<and> queue_start cfg - 1 \<le> i' \<and> i' < queue_end cfg \<and>
          (balanced st \<longrightarrow> balanced st') \<and>
          (steady cfg \<and> resume_i st = - 1 \<longrightarrow> resume_i st' = - 1 \<and> advances i st i' st'))"

lemma divert_cases:
  assumes "divert cfg i st = (i1, st1)"
  shows "(i1 = i \<and> st1 = st \<and> \<not> (latency_on cfg \<and> inject_queue st)) \<or>
    (latency_on cfg \<and> inject_queue st \<and> i1 = latency_queue cfg \<and> st1 = st\<lparr>resume_i := i, inject_queue := False\<rparr>)"
  using assms by (auto simp: divert_def latency_on_def split: if_splits)

lemma divert_keeps:
  assumes "divert cfg i st = (i1, st1)" "state_ok cfg st" "cfg_ok cfg" "queue_start cfg \<le> i" "i < queue_end cfg"
  shows "state_ok cfg st1" "queue_start cfg \<le> i1" "i1 < queue_end cfg"
    "hit st1 = hit st" "max_loops st1 = max_loops st" "latency_count st1 = latency_count st" "same_io st st1"
    "balanced st \<longrightarrow> balanced st1"
  using divert_cases [OF assms(1)] assms(2-)
  by (auto simp: state_ok_def cfg_ok_def latency_on_def same_io_def balanced_def)

lemma poll_body_result:
  assumes b: "bursts_ok ops" and c: "cfg_ok cfg" and s: "state_ok cfg st" and i: "queue_start cfg \<le> i" "i < queue_end cfg"
  shows "\<exists>r. poll_body ops cfg i st = Some r \<and> body_result cfg i st r"
proof (rule poll_body_rule [OF b])
  have r: "0 \<le> i - queue_start cfg" "nat (i - queue_start cfg) < 2048"
    using c i by (auto simp: cfg_ok_def)
  then show "0 \<le> i - queue_start cfg \<and> nat (i - queue_start cfg) < length (hit st)"
    using s by (simp add: state_ok_def)
  show "body_result cfg i st (Next i (st\<lparr>hit := (hit st)[nat (i - queue_start cfg) := hit st ! nat (i - queue_start cfg) + 1],
      skip_count := k\<rparr>))" for k
    using s i by (simp add: body_result_def state_ok_def balanced_def advances_def)
next
  fix i1 st1 e assume d: "divert cfg i st = (i1, st1)" and m: "mode cfg = QFLOW_SHARED"
  note k = divert_keeps [OF d s c i]
  have "steady cfg \<Longrightarrow> i1 = i \<and> st1 = st" using divert_cases [OF d] m by (auto simp: steady_def)
  then show "body_result cfg i st (Next i1 (st1\<lparr>nic := e\<rparr>))"
    using k by (auto simp: body_result_def state_ok_def balanced_def advances_def)
next
  fix i1 st1 st2 nb
  assume d: "divert cfg i st = (i1, st1)" and sc: "same_control st1 st2" and t: "tx_batch st2 = tx_batch st1"
  show "body_result cfg i st (Stop st2)"
    using divert_keeps(1) [OF d s c i] sc t by (simp add: body_result_def state_ok_def same_control_def)
next
  fix i1 st1 st2 nb
  assume d: "divert cfg i st = (i1, st1)" and n: "nb \<le> MAX_PKT_BURST" and mv: "moved cfg i1 nb st1 st2"
  note k = divert_keeps [OF d s c i]
  have s2: "state_ok cfg st2" using k(1) mv by (auto simp: state_ok_def moved_def same_control_def)
  have sc: "same_control st1 st2" "balanced st1 \<longrightarrow> balanced st2" using mv by (auto simp: moved_def)
  show "\<exists>r. finish_poll cfg (i - queue_start cfg) i1 nb st2 = Some r \<and> body_result cfg i st r"
  proof (cases "latency_on cfg \<and> resume_i st2 \<noteq> - 1 \<and> i1 = latency_queue cfg")
    case True
    let ?r = "Next (resume_i st2 - 1) (count_poll cfg nb (st2\<lparr>resume_i := - 1\<rparr>))"
    have "resume_i st = - 1 \<Longrightarrow> resume_i st2 = i \<and> inject_queue st \<and> \<not> inject_queue st2"
      using divert_cases [OF d] sc(1) True by (auto simp: same_control_def)
    then have "body_result cfg i st ?r"
      using s2 sc k(5,8) True i
      by (auto simp: body_result_def state_ok_def count_poll_fields balanced_def advances_def same_control_def)
    then show ?thesis using finish_latency [of cfg st2 i1] True by blast
  next
    case False
    let ?k = "nat (if mode cfg = QFLOW_PARTITIONED then i - queue_start cfg else i1)"
    have kk: "(if mode cfg = QFLOW_PARTITIONED then i - queue_start cfg else i1) = int ?k \<and> ?k < length (hit st2)"
      using i k(2,3) c s2 by (auto simp: cfg_ok_def state_ok_def)
    obtain i' st' where f: "finish_poll cfg (i - queue_start cfg) i1 nb st2 = Some (Next i' st')"
      "regular_end cfg ?k i1 nb st2 i' st'"
      using finish_regular [OF False kk] by blast
    have same: "resume_i st = - 1 \<Longrightarrow> i1 = i \<and> st1 = st"
      using divert_cases [OF d] sc(1) False i c by (auto simp: same_control_def cfg_ok_def)
    have "state_ok cfg st'" using f(2) s2 by (auto simp: regular_end_def Let_def state_ok_def same_io_def)
    moreover have "queue_start cfg - 1 \<le> i'" "i' < queue_end cfg"
      using f(2) k(2,3) by (auto simp: regular_end_def Let_def)
    moreover have "balanced st \<longrightarrow> balanced st'"
      using f(2) k(8) sc(2) by (auto simp: regular_end_def Let_def same_io_def balanced_def)
    moreover have "resume_i st = - 1 \<Longrightarrow> resume_i st' = - 1 \<and> advances i st i' st'"
      using f(2) same sc(1) by (auto simp: regular_end_def Let_def advances_def same_control_def)
    ultimately have "body_result cfg i st (Next i' st')" by (simp add: body_result_def)
    then show ?thesis using f(1) by blast
  qed
qed

subsection \<open>The rule for a sweep\<close>

text \<open>Every iteration moves on, uses up a repeated poll, or uses up the pending diversion, so a
  sweep ends. The rule is for total correctness: an invariant that the body keeps gives a result.\<close>

lemma sweep_from_rule:
  assumes b: "bursts_ok ops" and c: "cfg_ok cfg" and sd: "steady cfg"
    and step: "\<And>i st. I i st \<Longrightarrow> state_ok cfg st \<Longrightarrow> resume_i st = - 1 \<Longrightarrow> queue_start cfg \<le> i \<Longrightarrow> i < queue_end cfg \<Longrightarrow>
      \<exists>r. poll_body ops cfg i st = Some r \<and> (case r of Next i' st' \<Rightarrow> I (i' + 1) st' | Stop st' \<Rightarrow> Q True st')"
    and fin: "\<And>st. I (queue_end cfg) st \<Longrightarrow> state_ok cfg st \<Longrightarrow> resume_i st = - 1 \<Longrightarrow> Q False st"
  shows "I i st \<Longrightarrow> state_ok cfg st \<Longrightarrow> resume_i st = - 1 \<Longrightarrow> queue_start cfg \<le> i \<Longrightarrow> i \<le> queue_end cfg \<Longrightarrow>
    \<exists>stop st'. sweep_from ops cfg i st = Some (stop, st') \<and> Q stop st'"
proof (induction "(i, st)" arbitrary: i st rule: wf_induct_rule
    [OF wf_measures [of "[\<lambda>(i, st). nat (queue_end cfg - i), \<lambda>(i, st). max_loops st,
       \<lambda>(i, st). if inject_queue st then 1 else 0]"]])
  case 1
  show ?case
  proof (cases "i < queue_end cfg")
    case False
    then have "i = queue_end cfg" using "1.prems" by simp
    then have "Q False st" using fin "1.prems" by blast
    then show ?thesis using False by (intro exI [of _ False] exI [of _ st]) (simp add: sweep_from.simps [of _ _ i])
  next
    case True
    obtain r where r: "poll_body ops cfg i st = Some r" "body_result cfg i st r"
      using poll_body_result [OF b c "1.prems"(2,4) True] by blast
    have q: "case r of Next i' st' \<Rightarrow> I (i' + 1) st' | Stop st' \<Rightarrow> Q True st'"
      using step [OF "1.prems"(1-4) True] r(1) by auto
    show ?thesis
    proof (cases r)
      case (Stop st')
      then show ?thesis using q r(1) True
        by (intro exI [of _ True] exI [of _ st']) (simp add: sweep_from.simps [of _ _ i])
    next
      case (Next i' st')
      have n: "state_ok cfg st'" "queue_start cfg \<le> i' + 1" "i' + 1 \<le> queue_end cfg" "resume_i st' = - 1"
        "advances i st i' st'"
        using r(2) sd "1.prems"(3) by (auto simp: body_result_def Next)
      have "((i' + 1, st'), (i, st)) \<in> measures [\<lambda>(i, st). nat (queue_end cfg - i), \<lambda>(i, st). max_loops st,
        \<lambda>(i, st). if inject_queue st then 1 else 0]"
        using n(5) True by (auto simp: advances_def)
      from "1.hyps" [OF this] have "\<exists>stop st''. sweep_from ops cfg (i' + 1) st' = Some (stop, st'') \<and> Q stop st''"
        using q n by (simp add: Next)
      then show ?thesis using r(1) True Next by (subst sweep_from.simps) simp
    qed
  qed
qed

text \<open>The state in which \<open>sweep\<close> enters the loop.\<close>

definition fresh_sweep :: "('e, 'p) poll_state \<Rightarrow> ('e, 'p) poll_state" where
  "fresh_sweep st = st\<lparr>max_loops := QFLOW_MAX_CONSECUTIVE_POLLS, tx_batch := []\<rparr>"

lemma fresh_sweep_ok: "state_ok cfg st \<Longrightarrow> state_ok cfg (fresh_sweep st)"
  by (simp add: state_ok_def fresh_sweep_def)

lemma sweep_rule:
  assumes b: "bursts_ok ops" and c: "cfg_ok cfg" and sd: "steady cfg" and s: "state_ok cfg st" "resume_i st = - 1"
    and init: "I (queue_start cfg) (fresh_sweep st)"
    and step: "\<And>i st. I i st \<Longrightarrow> state_ok cfg st \<Longrightarrow> resume_i st = - 1 \<Longrightarrow> queue_start cfg \<le> i \<Longrightarrow> i < queue_end cfg \<Longrightarrow>
      \<exists>r. poll_body ops cfg i st = Some r \<and> (case r of Next i' st' \<Rightarrow> I (i' + 1) st' | Stop st' \<Rightarrow> S st')"
  shows "\<exists>stop st'. sweep ops cfg st = Some (stop, st') \<and>
    (\<not> stop \<longrightarrow> tx_batch st' = [] \<and> state_ok cfg st' \<and> resume_i st' = - 1 \<and>
      (\<exists>st1. I (queue_end cfg) st1 \<and> same_control st1 st' \<and> trace st' = trace st1 \<and> received st' = received st1 \<and>
        mset (sent st') + mset (freed st') = mset (sent st1) + mset (freed st1) + mset (tx_batch st1)))"
proof -
  have "\<exists>stop st1. sweep_from ops cfg (queue_start cfg) (fresh_sweep st) = Some (stop, st1) \<and>
    (if stop then S st1 else I (queue_end cfg) st1 \<and> state_ok cfg st1 \<and> resume_i st1 = - 1)"
  proof (rule sweep_from_rule [where I = I and Q = "\<lambda>stop st1. if stop then S st1 else
      I (queue_end cfg) st1 \<and> state_ok cfg st1 \<and> resume_i st1 = - 1", OF b c sd], goal_cases)
    case (1 i st)
    from step [OF this] show ?case by (auto split: step.splits)
  next
    case (2 st)
    then show ?case by simp
  next
    case 3
    show ?case by (rule init)
  next
    case 4
    show ?case by (rule fresh_sweep_ok [OF s(1)])
  next
    case 5
    show ?case using s(2) by (simp add: fresh_sweep_def)
  next
    case 6
    show ?case by simp
  next
    case 7
    show ?case using c by (simp add: cfg_ok_def)
  qed
  then obtain stop st1 where f: "sweep_from ops cfg (queue_start cfg) (fresh_sweep st) = Some (stop, st1)"
    "\<not> stop \<longrightarrow> I (queue_end cfg) st1 \<and> state_ok cfg st1 \<and> resume_i st1 = - 1" by auto
  let ?t = "transmit ops (port_of cfg (queue_start cfg)) (tx_queueid cfg) (tx_batch st1) st1"
  let ?st = "if mode cfg \<noteq> QFLOW_SINGLE \<and> tx_batch st1 \<noteq> [] then ?t\<lparr>tx_batch := []\<rparr> else st1"
  show ?thesis
  proof (cases stop)
    case True
    then show ?thesis using f(1) by (auto simp: sweep_def fresh_sweep_def)
  next
    case False
    then have st1: "I (queue_end cfg) st1" "state_ok cfg st1" "resume_i st1 = - 1" using f(2) by auto
    have run: "sweep ops cfg st = Some (False, ?st)"
      using f(1) False by (simp add: sweep_def fresh_sweep_def)
    have empty: "tx_batch ?st = []" using st1(2) by (auto simp: state_ok_def)
    have ctl: "same_control st1 ?st" "trace ?st = trace st1" "received ?st = received st1"
      by (simp_all add: same_control_def transmit_fields)
    moreover have "state_ok cfg ?st" using st1(2) ctl(1) empty by (simp add: state_ok_def same_control_def)
    moreover have "resume_i ?st = - 1" using ctl(1) st1(3) by (simp add: same_control_def)
    moreover have "mset (sent ?st) + mset (freed ?st) = mset (sent st1) + mset (freed st1) + mset (tx_batch st1)"
      using transmit_logs [of ops "port_of cfg (queue_start cfg)" "tx_queueid cfg" "tx_batch st1" st1] empty
      by auto
    ultimately show ?thesis using run empty st1(1) by blast
  qed
qed

end
