(* ===== verification/Poll_Policies.thy ===== *)
theory Poll_Policies
  imports Poll
begin

section \<open>What the polling policies guarantee\<close>

text \<open>
  The body in its two forms (a regular iteration, an iteration that is diverted to the latency
  queue), and from them the behaviour of whole sweeps under each policy.
\<close>

subsection \<open>The two forms of an iteration\<close>

definition skips :: "poll_cfg \<Rightarrow> int \<Rightarrow> ('e, 'p) poll_state \<Rightarrow> bool" where
  "skips cfg i st \<longleftrightarrow> 0 < penalty cfg \<and> hit st ! nat (i - queue_start cfg) < penalty cfg"

definition skip_state :: "poll_cfg \<Rightarrow> int \<Rightarrow> ('e, 'p) poll_state \<Rightarrow> nat \<Rightarrow> ('e, 'p) poll_state" where
  "skip_state cfg i st c = st\<lparr>hit := (hit st)[nat (i - queue_start cfg) := hit st ! nat (i - queue_start cfg) + 1],
     skip_count := c\<rparr>"

lemma slot_range:
  assumes "cfg_ok cfg" "state_ok cfg st" "queue_start cfg \<le> i" "i < queue_end cfg"
  shows "0 \<le> i - queue_start cfg \<and> nat (i - queue_start cfg) < length (hit st)"
    "(if mode cfg = QFLOW_PARTITIONED then i - queue_start cfg else i) = int (nat (i - queue_start cfg))"
  using assms by (auto simp: cfg_ok_def state_ok_def)

definition regular_result ::
  "poll_cfg \<Rightarrow> int \<Rightarrow> ('e, 'p) poll_state \<Rightarrow> ('e, 'p) poll_state step \<Rightarrow> bool" where
  "regular_result cfg i st r \<longleftrightarrow>
     (skips cfg i st \<and> (\<exists>c. r = Next i (skip_state cfg i st c))) \<or>
     (\<not> skips cfg i st \<and> mode cfg = QFLOW_SHARED \<and> (\<exists>e. r = Next i (st\<lparr>nic := e\<rparr>))) \<or>
     (\<not> skips cfg i st \<and> (\<exists>st2. r = Stop st2)) \<or>
     (\<not> skips cfg i st \<and> (\<exists>nb st2 i' st'. nb \<le> MAX_PKT_BURST \<and> moved cfg i nb st st2 \<and>
        regular_end cfg (nat (i - queue_start cfg)) i nb st2 i' st' \<and> r = Next i' st'))"

lemma regular_iteration:
  assumes b: "bursts_ok ops" and c: "cfg_ok cfg" and s: "state_ok cfg st" "resume_i st = - 1"
    and i: "queue_start cfg \<le> i" "i < queue_end cfg" and reg: "latency_on cfg \<longrightarrow> \<not> inject_queue st"
  shows "\<exists>r. poll_body ops cfg i st = Some r \<and> regular_result cfg i st r"
proof (rule poll_body_rule [OF b], goal_cases)
  case 1
  show ?case using slot_range [OF c s(1) i] by blast
next
  case (2 k)
  then have "skips cfg i st" by (simp add: skips_def)
  then show ?case by (auto simp: regular_result_def skip_state_def)
next
  case (3 i1 st1 e)
  then have "\<not> skips cfg i st" by (auto simp: skips_def)
  moreover have "i1 = i" "st1 = st" using divert_cases [OF 3(2)] reg by auto
  ultimately show ?case unfolding regular_result_def using 3(3) by blast
next
  case (4 i1 st1 st2 nb)
  then have "\<not> skips cfg i st" by (auto simp: skips_def)
  then show ?case by (simp add: regular_result_def)
next
  case (5 i1 st1 st2 nb)
  then have ns: "\<not> skips cfg i st" by (auto simp: skips_def)
  have e: "i1 = i" "st1 = st" using divert_cases [OF 5(2)] reg by auto
  have r: "resume_i st2 = - 1" "hit st2 = hit st" using 5(4) e s(2) by (auto simp: moved_def same_control_def)
  have k: "(if mode cfg = QFLOW_PARTITIONED then i - queue_start cfg else i) = int (nat (i - queue_start cfg)) \<and>
    nat (i - queue_start cfg) < length (hit st2)"
    using slot_range [OF c s(1) i] r(2) by simp
  have "\<not> (latency_on cfg \<and> resume_i st2 \<noteq> - 1 \<and> i = latency_queue cfg)" using r(1) by simp
  from finish_regular [OF this k, of nb] obtain i' st' where
    "finish_poll cfg (i - queue_start cfg) i nb st2 = Some (Next i' st')"
    "regular_end cfg (nat (i - queue_start cfg)) i nb st2 i' st'" by blast
  moreover from this have "regular_result cfg i st (Next i' st')"
    unfolding regular_result_def using ns 5(3,4) e by blast
  ultimately show ?case using e by blast
qed

lemma diverted_iteration:
  assumes b: "bursts_ok ops" and c: "cfg_ok cfg" and s: "state_ok cfg st"
    and i: "queue_start cfg \<le> i" "i < queue_end cfg" and dv: "latency_on cfg" "inject_queue st"
    and m: "mode cfg \<noteq> QFLOW_SHARED"
  shows "\<exists>r. poll_body ops cfg i st = Some r \<and>
    ((skips cfg i st \<and> (\<exists>c. r = Next i (skip_state cfg i st c))) \<or>
     (\<not> skips cfg i st \<and> (\<exists>st2. r = Stop st2)) \<or>
     (\<not> skips cfg i st \<and> (\<exists>nb st2. nb \<le> MAX_PKT_BURST \<and>
        moved cfg (latency_queue cfg) nb (st\<lparr>resume_i := i, inject_queue := False\<rparr>) st2 \<and>
        r = Next (i - 1) (count_poll cfg nb (st2\<lparr>resume_i := - 1\<rparr>)))))"
proof (rule poll_body_rule [OF b], goal_cases)
  case 1
  show ?case using slot_range [OF c s(1) i] by blast
next
  case (2 k)
  then have "skips cfg i st" by (simp add: skips_def)
  then show ?case by (auto simp: skip_state_def)
next
  case (3 i1 st1 e)
  then show ?case using m by simp
next
  case (4 i1 st1 st2 nb)
  then have "\<not> skips cfg i st" by (auto simp: skips_def)
  then show ?case by simp
next
  case (5 i1 st1 st2 nb)
  then have ns: "\<not> skips cfg i st" by (auto simp: skips_def)
  have e: "i1 = latency_queue cfg" "st1 = st\<lparr>resume_i := i, inject_queue := False\<rparr>"
    using divert_cases [OF 5(2)] dv by auto
  have r: "resume_i st2 = i" using 5(4) e by (auto simp: moved_def same_control_def)
  have "i \<noteq> - 1" using c i by (simp add: cfg_ok_def)
  then have "finish_poll cfg (i - queue_start cfg) i1 nb st2 =
    Some (Next (i - 1) (count_poll cfg nb (st2\<lparr>resume_i := - 1\<rparr>)))"
    using finish_latency [of cfg st2 i1] dv(1) e(1) r by simp
  then show ?case using ns 5(3,4) e by blast
qed

text \<open>The queue of an entry of the trace, and the queues of the polls added since \<open>t\<close>.\<close>

fun poll_queue :: "poll \<Rightarrow> int" where
  "poll_queue (Regular q nb) = q"
| "poll_queue (Diverted q nb) = q"

fun poll_size :: "poll \<Rightarrow> nat" where
  "poll_size (Regular q nb) = nb"
| "poll_size (Diverted q nb) = nb"

definition polls_since :: "poll list \<Rightarrow> ('e, 'p) poll_state \<Rightarrow> poll list" where
  "polls_since t st = drop (length t) (trace st)"

definition grew :: "poll list \<Rightarrow> ('e, 'p) poll_state \<Rightarrow> poll list \<Rightarrow> bool" where
  "grew t st ps \<longleftrightarrow> trace st = t @ ps"

lemma grew_polls: "grew t st ps \<Longrightarrow> polls_since t st = ps"
  by (simp add: grew_def polls_since_def)

lemma trace_step:
  "moved cfg i nb st st2 \<Longrightarrow> regular_end cfg k i nb st2 i' st' \<Longrightarrow> trace st' = trace st @ [tag cfg i nb st]"
  by (simp add: moved_def regular_end_def Let_def same_io_def)

lemma tag_regular: "resume_i st = - 1 \<Longrightarrow> tag cfg i nb st = Regular i nb"
  by (simp add: tag_def)

subsection \<open>Every policy: a sweep ends, safely, and loses no packet\<close>

lemma sweep_total:
  fixes st :: "('e, 'p) poll_state"
  assumes "bursts_ok ops" "cfg_ok cfg" "steady cfg" "state_ok cfg st" "resume_i st = - 1"
    "balanced st" "tx_batch st = []"
  shows "\<exists>stop st'. sweep ops cfg st = Some (stop, st') \<and>
    (\<not> stop \<longrightarrow> state_ok cfg st' \<and> resume_i st' = - 1 \<and> tx_batch st' = [] \<and> balanced st')"
proof -
  have "\<exists>stop st'. sweep ops cfg st = Some (stop, st') \<and>
    (\<not> stop \<longrightarrow> tx_batch st' = [] \<and> state_ok cfg st' \<and> resume_i st' = - 1 \<and>
      (\<exists>st1. balanced st1 \<and> same_control st1 st' \<and> trace st' = trace st1 \<and> received st' = received st1 \<and>
        mset (sent st') + mset (freed st') = mset (sent st1) + mset (freed st1) + mset (tx_batch st1)))"
  proof (rule sweep_rule [where I = "\<lambda>i st. balanced st" and S = "\<lambda>_. True", OF assms(1-5)])
    show "balanced (fresh_sweep st)" using assms(6,7) by (simp add: balanced_def fresh_sweep_def)
    fix i and st :: "('e, 'p) poll_state"
    assume "balanced st" "state_ok cfg st" "queue_start cfg \<le> i" "i < queue_end cfg"
    then show "\<exists>r. poll_body ops cfg i st = Some r \<and> (case r of Next i' st' \<Rightarrow> balanced st' | Stop st' \<Rightarrow> True)"
      using poll_body_result [OF assms(1,2), of st i] by (auto simp: body_result_def split: step.splits)
  qed
  then show ?thesis by (auto simp: balanced_def)
qed

subsection \<open>Baseline\<close>

lemma sweep_baseline:
  fixes st :: "('e, 'p) poll_state"
  assumes b: "bursts_ok ops" and c: "cfg_ok cfg" and s: "state_ok cfg st" "resume_i st = - 1"
    and plain: "penalty cfg = 0" "\<not> aggressive cfg" "\<not> latency_on cfg" "mode cfg \<noteq> QFLOW_SHARED"
  shows "\<exists>stop st'. sweep ops cfg st = Some (stop, st') \<and>
    (\<not> stop \<longrightarrow> map poll_queue (polls_since (trace st) st') = [queue_start cfg..queue_end cfg - 1])"
proof -
  let ?I = "\<lambda>i st1. \<exists>ps. grew (trace st) st1 ps \<and> map poll_queue ps = [queue_start cfg..i - 1]"
  have "\<exists>stop st'. sweep ops cfg st = Some (stop, st') \<and>
    (\<not> stop \<longrightarrow> tx_batch st' = [] \<and> state_ok cfg st' \<and> resume_i st' = - 1 \<and>
      (\<exists>st1. ?I (queue_end cfg) st1 \<and> same_control st1 st' \<and> trace st' = trace st1 \<and> received st' = received st1 \<and>
        mset (sent st') + mset (freed st') = mset (sent st1) + mset (freed st1) + mset (tx_batch st1)))"
  proof (rule sweep_rule [where I = ?I and S = "\<lambda>_. True", OF b c _ s])
    show "steady cfg" using plain by (simp add: steady_def)
    show "?I (queue_start cfg) (fresh_sweep st)" by (simp add: grew_def fresh_sweep_def)
    fix i and st1 :: "('e, 'p) poll_state"
    assume I: "?I i st1" and s1: "state_ok cfg st1" "resume_i st1 = - 1" and i: "queue_start cfg \<le> i" "i < queue_end cfg"
    obtain r where r: "poll_body ops cfg i st1 = Some r" "regular_result cfg i st1 r"
      using regular_iteration [OF b c s1 i] plain(3) by blast
    have "\<not> skips cfg i st1" using plain(1) by (simp add: skips_def)
    then consider st2 where "r = Stop st2" | nb st2 i' st' where "moved cfg i nb st1 st2"
      "regular_end cfg (nat (i - queue_start cfg)) i nb st2 i' st'" "r = Next i' st'"
      using r(2) plain(4) by (auto simp: regular_result_def)
    then show "\<exists>r. poll_body ops cfg i st1 = Some r \<and> (case r of Next i' st' \<Rightarrow> ?I (i' + 1) st' | Stop st' \<Rightarrow> True)"
    proof cases
      case (1 st2)
      then show ?thesis using r(1) by simp
    next
      case (2 nb st2 i' st')
      obtain ps where ps: "grew (trace st) st1 ps" "map poll_queue ps = [queue_start cfg..i - 1]" using I by blast
      have "trace st' = trace st1 @ [Regular i nb]" using trace_step [OF 2(1,2)] tag_regular [OF s1(2)] by simp
      then have "grew (trace st) st' (ps @ [Regular i nb])" using ps(1) by (simp add: grew_def)
      moreover have "i' = i" using 2(2) plain(2) by (simp add: regular_end_def Let_def)
      moreover have "[queue_start cfg..i] = [queue_start cfg..i - 1] @ [i]" using i by (simp add: upto_rec2)
      then have "map poll_queue (ps @ [Regular i nb]) = [queue_start cfg..i]" using ps(2) by simp
      ultimately show ?thesis using r(1) 2(3) by auto
    qed
  qed
  then show ?thesis using grew_polls by (force simp: grew_def polls_since_def)
qed

subsection \<open>Aggressive\<close>

definition polls_of :: "int \<Rightarrow> poll list \<Rightarrow> poll list" where
  "polls_of q ps = filter (\<lambda>p. poll_queue p = q) ps"

lemma polls_of_snoc: "polls_of q (ps @ [Regular i nb]) = polls_of q ps @ (if q = i then [Regular i nb] else [])"
  by (simp add: polls_of_def)

text \<open>A queue is polled again only after full bursts, and at most 101 times.\<close>

definition bounded_repeats :: "poll list \<Rightarrow> bool" where
  "bounded_repeats ps \<longleftrightarrow> (\<forall>q. length (polls_of q ps) \<le> QFLOW_MAX_CONSECUTIVE_POLLS + 1 \<and>
     (\<forall>p \<in> set (butlast (polls_of q ps)). poll_size p = MAX_PKT_BURST))"

definition repeat_inv :: "poll list \<Rightarrow> int \<Rightarrow> ('e, 'p) poll_state \<Rightarrow> bool" where
  "repeat_inv t i st \<longleftrightarrow> (\<exists>ps. grew t st ps \<and> bounded_repeats ps \<and>
     length (polls_of i ps) + max_loops st \<le> QFLOW_MAX_CONSECUTIVE_POLLS \<and>
     (\<forall>p \<in> set (polls_of i ps). poll_size p = MAX_PKT_BURST) \<and> (\<forall>q>i. polls_of q ps = []))"

lemma repeat_inv_pass:
  assumes "repeat_inv t i st" "trace st' = trace st" "max_loops st' \<le> QFLOW_MAX_CONSECUTIVE_POLLS"
  shows "repeat_inv t (i + 1) st'"
proof -
  obtain ps where ps: "grew t st ps" "bounded_repeats ps" "\<forall>q>i. polls_of q ps = []"
    using assms(1) unfolding repeat_inv_def by blast
  have "grew t st' ps" using ps(1) assms(2) by (simp add: grew_def)
  then show ?thesis using ps assms(3) unfolding repeat_inv_def by fastforce
qed

lemma repeat_inv_poll:
  assumes inv: "repeat_inv t i st" and tr: "trace st' = trace st @ [Regular i nb]"
    and e: "i' = (if again then i - 1 else i)"
      "max_loops st' = (if again then max_loops st - 1 else QFLOW_MAX_CONSECUTIVE_POLLS)"
      "again \<longrightarrow> nb = MAX_PKT_BURST \<and> 0 < max_loops st"
  shows "repeat_inv t (i' + 1) st'"
proof -
  obtain ps where ps: "grew t st ps" "bounded_repeats ps"
    "length (polls_of i ps) + max_loops st \<le> QFLOW_MAX_CONSECUTIVE_POLLS"
    "\<forall>p \<in> set (polls_of i ps). poll_size p = MAX_PKT_BURST" "\<forall>q>i. polls_of q ps = []"
    using inv unfolding repeat_inv_def by blast
  let ?ps = "ps @ [Regular i nb]"
  have g: "grew t st' ?ps" using ps(1) tr by (simp add: grew_def)
  have b: "bounded_repeats ?ps"
    using ps(2-4) by (simp add: bounded_repeats_def polls_of_snoc)
  show ?thesis
  proof (cases again)
    case True
    have "length (polls_of i ?ps) + max_loops st' \<le> QFLOW_MAX_CONSECUTIVE_POLLS"
      "\<forall>p \<in> set (polls_of i ?ps). poll_size p = MAX_PKT_BURST" "\<forall>q>i. polls_of q ?ps = []"
      using True e ps(3-5) by (auto simp: polls_of_snoc)
    then show ?thesis using g b True e(1) unfolding repeat_inv_def by auto
  next
    case False
    have "polls_of q ?ps = []" if "i < q" for q using ps(5) that by (simp add: polls_of_snoc)
    then show ?thesis using g b False e unfolding repeat_inv_def by (intro exI [of _ ?ps]) auto
  qed
qed

lemma sweep_aggressive:
  fixes st :: "('e, 'p) poll_state"
  assumes b: "bursts_ok ops" and c: "cfg_ok cfg" and s: "state_ok cfg st" "resume_i st = - 1"
    and nl: "\<not> latency_on cfg"
  shows "\<exists>stop st'. sweep ops cfg st = Some (stop, st') \<and>
    (\<not> stop \<longrightarrow> bounded_repeats (polls_since (trace st) st'))"
proof -
  let ?I = "repeat_inv (trace st)"
  have "\<exists>stop st'. sweep ops cfg st = Some (stop, st') \<and>
    (\<not> stop \<longrightarrow> tx_batch st' = [] \<and> state_ok cfg st' \<and> resume_i st' = - 1 \<and>
      (\<exists>st1. ?I (queue_end cfg) st1 \<and> same_control st1 st' \<and> trace st' = trace st1 \<and> received st' = received st1 \<and>
        mset (sent st') + mset (freed st') = mset (sent st1) + mset (freed st1) + mset (tx_batch st1)))"
  proof (rule sweep_rule [where I = ?I and S = "\<lambda>_. True", OF b c _ s])
    show "steady cfg" using nl by (simp add: steady_def)
    show "?I (queue_start cfg) (fresh_sweep st)"
      by (simp add: repeat_inv_def grew_def fresh_sweep_def bounded_repeats_def polls_of_def)
    fix i and st1 :: "('e, 'p) poll_state"
    assume I: "?I i st1" and s1: "state_ok cfg st1" "resume_i st1 = - 1" and i: "queue_start cfg \<le> i" "i < queue_end cfg"
    obtain r where r: "poll_body ops cfg i st1 = Some r" "regular_result cfg i st1 r"
      using regular_iteration [OF b c s1 i] nl by blast
    have m: "max_loops st1 \<le> QFLOW_MAX_CONSECUTIVE_POLLS" using s1(1) by (simp add: state_ok_def)
    have "case r of Next i' st' \<Rightarrow> ?I (i' + 1) st' | Stop st' \<Rightarrow> True"
      using r(2) unfolding regular_result_def
    proof (elim disjE exE conjE)
      fix c assume "r = Next i (skip_state cfg i st1 c)"
      then show ?thesis using repeat_inv_pass [OF I, of "skip_state cfg i st1 c"] m by (simp add: skip_state_def)
    next
      fix e assume "r = Next i (st1\<lparr>nic := e\<rparr>)"
      then show ?thesis using repeat_inv_pass [OF I, of "st1\<lparr>nic := e\<rparr>"] m by simp
    next
      fix st2 assume "r = Stop st2"
      then show ?thesis by simp
    next
      fix nb st2 i' st'
      assume mv: "moved cfg i nb st1 st2" and re: "regular_end cfg (nat (i - queue_start cfg)) i nb st2 i' st'"
        and rr: "r = Next i' st'"
      let ?again = "aggressive cfg \<and> nb = MAX_PKT_BURST \<and> 0 < max_loops st2"
      have tr: "trace st' = trace st1 @ [Regular i nb]" using trace_step [OF mv re] tag_regular [OF s1(2)] by simp
      have ml: "max_loops st2 = max_loops st1" using mv by (simp add: moved_def same_control_def)
      have "?I (i' + 1) st'"
        by (rule repeat_inv_poll [OF I tr, where again = ?again]) (use re ml in \<open>auto simp: regular_end_def Let_def\<close>)
      then show ?thesis using rr by simp
    qed
    then show "\<exists>r. poll_body ops cfg i st1 = Some r \<and> (case r of Next i' st' \<Rightarrow> ?I (i' + 1) st' | Stop st' \<Rightarrow> True)"
      using r(1) by blast
  qed
  then show ?thesis by (force simp: repeat_inv_def grew_def polls_since_def)
qed

subsection \<open>Penalty\<close>

definition slot :: "poll_cfg \<Rightarrow> int \<Rightarrow> nat" where
  "slot cfg q = nat (q - queue_start cfg)"

definition penalty_inv ::
  "poll_cfg \<Rightarrow> ('e, 'p) poll_state \<Rightarrow> int \<Rightarrow> ('e, 'p) poll_state \<Rightarrow> bool" where
  "penalty_inv cfg st0 i st \<longleftrightarrow> max_loops st = QFLOW_MAX_CONSECUTIVE_POLLS \<and> (\<exists>ps. grew (trace st0) st ps \<and>
     map poll_queue ps = filter (\<lambda>q. penalty cfg \<le> hit st0 ! slot cfg q) [queue_start cfg..i - 1] \<and>
     (\<forall>p \<in> set ps. hit st ! slot cfg (poll_queue p) = (if MAX_PKT_BURST div 2 < poll_size p then penalty cfg else 0)) \<and>
     (\<forall>q. queue_start cfg \<le> q \<and> q < i \<and> hit st0 ! slot cfg q < penalty cfg \<longrightarrow>
        hit st ! slot cfg q = hit st0 ! slot cfg q + 1) \<and>
     (\<forall>q. i \<le> q \<longrightarrow> hit st ! slot cfg q = hit st0 ! slot cfg q))"

lemma slot_neq: "queue_start cfg \<le> q \<Longrightarrow> queue_start cfg \<le> i \<Longrightarrow> q \<noteq> i \<Longrightarrow> slot cfg q \<noteq> slot cfg i"
  by (simp add: slot_def nat_eq_iff)

lemma penalty_inv_skip:
  assumes I: "penalty_inv cfg st0 i st" and i: "queue_start cfg \<le> i" and l: "slot cfg i < length (hit st)"
    and sk: "hit st ! slot cfg i < penalty cfg"
  shows "penalty_inv cfg st0 (i + 1) (skip_state cfg i st c)"
proof -
  obtain ps where ps: "grew (trace st0) st ps"
     "map poll_queue ps = filter (\<lambda>q. penalty cfg \<le> hit st0 ! slot cfg q) [queue_start cfg..i - 1]"
     "\<forall>p \<in> set ps. hit st ! slot cfg (poll_queue p) = (if MAX_PKT_BURST div 2 < poll_size p then penalty cfg else 0)"
     "\<forall>q. queue_start cfg \<le> q \<and> q < i \<and> hit st0 ! slot cfg q < penalty cfg \<longrightarrow>
        hit st ! slot cfg q = hit st0 ! slot cfg q + 1"
     "\<forall>q. i \<le> q \<longrightarrow> hit st ! slot cfg q = hit st0 ! slot cfg q"
    using I unfolding penalty_inv_def by blast
  have same: "hit (skip_state cfg i st c) ! slot cfg q = hit st ! slot cfg q"
    if "queue_start cfg \<le> q" "q \<noteq> i" for q
    using slot_neq [OF that(1) i that(2)] by (simp add: skip_state_def slot_def)
  have own: "hit (skip_state cfg i st c) ! slot cfg i = hit st0 ! slot cfg i + 1"
    using l ps(5) by (simp add: skip_state_def slot_def)
  have "set (map poll_queue ps) \<subseteq> {queue_start cfg..i - 1}" using ps(2) by auto
  then have q: "queue_start cfg \<le> poll_queue p \<and> poll_queue p \<noteq> i" if "p \<in> set ps" for p using that by fastforce
  have "[queue_start cfg..i] = [queue_start cfg..i - 1] @ [i]" using i by (simp add: upto_rec2)
  then have m: "map poll_queue ps = filter (\<lambda>q. penalty cfg \<le> hit st0 ! slot cfg q) [queue_start cfg..i]"
    using ps(2,5) sk by simp
  show ?thesis unfolding penalty_inv_def
  proof (intro conjI exI [of _ ps])
    show "max_loops (skip_state cfg i st c) = QFLOW_MAX_CONSECUTIVE_POLLS"
      using I by (simp add: penalty_inv_def skip_state_def)
    show "grew (trace st0) (skip_state cfg i st c) ps" using ps(1) by (simp add: grew_def skip_state_def)
    show "map poll_queue ps = filter (\<lambda>q. penalty cfg \<le> hit st0 ! slot cfg q) [queue_start cfg..i + 1 - 1]" using m by simp
    show "\<forall>p \<in> set ps. hit (skip_state cfg i st c) ! slot cfg (poll_queue p) =
      (if MAX_PKT_BURST div 2 < poll_size p then penalty cfg else 0)" using ps(3) q same by simp
    show "\<forall>q. queue_start cfg \<le> q \<and> q < i + 1 \<and> hit st0 ! slot cfg q < penalty cfg \<longrightarrow>
        hit (skip_state cfg i st c) ! slot cfg q = hit st0 ! slot cfg q + 1"
    proof (intro allI impI)
      fix q assume a: "queue_start cfg \<le> q \<and> q < i + 1 \<and> hit st0 ! slot cfg q < penalty cfg"
      show "hit (skip_state cfg i st c) ! slot cfg q = hit st0 ! slot cfg q + 1"
        using a own same [of q] ps(4) by (cases "q = i") auto
    qed
    show "\<forall>q. i + 1 \<le> q \<longrightarrow> hit (skip_state cfg i st c) ! slot cfg q = hit st0 ! slot cfg q"
      using ps(5) same i by simp
  qed
qed

lemma penalty_inv_poll:
  assumes I: "penalty_inv cfg st0 i st" and i: "queue_start cfg \<le> i" and l: "slot cfg i < length (hit st)"
    and sk: "penalty cfg \<le> hit st ! slot cfg i"
    and tr: "trace st' = trace st @ [Regular i nb]" and ml: "max_loops st' = QFLOW_MAX_CONSECUTIVE_POLLS"
    and h: "hit st' = (hit st)[slot cfg i := if MAX_PKT_BURST div 2 < nb then penalty cfg else 0]"
  shows "penalty_inv cfg st0 (i + 1) st'"
proof -
  obtain ps where ps: "grew (trace st0) st ps"
     "map poll_queue ps = filter (\<lambda>q. penalty cfg \<le> hit st0 ! slot cfg q) [queue_start cfg..i - 1]"
     "\<forall>p \<in> set ps. hit st ! slot cfg (poll_queue p) = (if MAX_PKT_BURST div 2 < poll_size p then penalty cfg else 0)"
     "\<forall>q. queue_start cfg \<le> q \<and> q < i \<and> hit st0 ! slot cfg q < penalty cfg \<longrightarrow>
        hit st ! slot cfg q = hit st0 ! slot cfg q + 1"
     "\<forall>q. i \<le> q \<longrightarrow> hit st ! slot cfg q = hit st0 ! slot cfg q"
    using I unfolding penalty_inv_def by blast
  have same: "hit st' ! slot cfg q = hit st ! slot cfg q" if "queue_start cfg \<le> q" "q \<noteq> i" for q
    using slot_neq [OF that(1) i that(2)] by (simp add: h)
  have own: "hit st' ! slot cfg i = (if MAX_PKT_BURST div 2 < nb then penalty cfg else 0)"
    using l by (simp add: h)
  have "set (map poll_queue ps) \<subseteq> {queue_start cfg..i - 1}" using ps(2) by auto
  then have q: "queue_start cfg \<le> poll_queue p \<and> poll_queue p \<noteq> i" if "p \<in> set ps" for p using that by fastforce
  have u: "[queue_start cfg..i] = [queue_start cfg..i - 1] @ [i]" using i by (simp add: upto_rec2)
  have no: "penalty cfg \<le> hit st0 ! slot cfg i" using sk ps(5) by simp
  let ?ps = "ps @ [Regular i nb]"
  show ?thesis unfolding penalty_inv_def
  proof (intro conjI exI [of _ ?ps])
    show "max_loops st' = QFLOW_MAX_CONSECUTIVE_POLLS" by (rule ml)
    show "grew (trace st0) st' ?ps" using ps(1) tr by (simp add: grew_def)
    show "map poll_queue ?ps = filter (\<lambda>q. penalty cfg \<le> hit st0 ! slot cfg q) [queue_start cfg..i + 1 - 1]"
      using ps(2) no by (simp add: u)
    show "\<forall>p \<in> set ?ps. hit st' ! slot cfg (poll_queue p) =
      (if MAX_PKT_BURST div 2 < poll_size p then penalty cfg else 0)" using ps(3) q same own by simp
    show "\<forall>q. queue_start cfg \<le> q \<and> q < i + 1 \<and> hit st0 ! slot cfg q < penalty cfg \<longrightarrow>
        hit st' ! slot cfg q = hit st0 ! slot cfg q + 1"
    proof (intro allI impI)
      fix q assume a: "queue_start cfg \<le> q \<and> q < i + 1 \<and> hit st0 ! slot cfg q < penalty cfg"
      then have "q \<noteq> i" using no by auto
      then show "hit st' ! slot cfg q = hit st0 ! slot cfg q + 1" using a same [of q] ps(4) by simp
    qed
    show "\<forall>q. i + 1 \<le> q \<longrightarrow> hit st' ! slot cfg q = hit st0 ! slot cfg q" using ps(5) same i by simp
  qed
qed

definition penalty_policy :: "poll_cfg \<Rightarrow> bool" where
  "penalty_policy cfg \<longleftrightarrow> 0 < penalty cfg \<and> \<not> aggressive cfg \<and> \<not> latency_on cfg \<and> mode cfg \<noteq> QFLOW_SHARED"

text \<open>One sweep: a queue below its penalty is counted up and not polled, the others are polled once,
  and a burst of at most half the size starts a penalty.\<close>

definition penalty_step :: "poll_cfg \<Rightarrow> ('e, 'p) poll_state \<Rightarrow> ('e, 'p) poll_state \<Rightarrow> bool" where
  "penalty_step cfg st st' \<longleftrightarrow> state_ok cfg st' \<and> resume_i st' = - 1 \<and> (\<exists>ps. grew (trace st) st' ps \<and>
     map poll_queue ps = filter (\<lambda>q. penalty cfg \<le> hit st ! slot cfg q) [queue_start cfg..queue_end cfg - 1] \<and>
     (\<forall>p \<in> set ps. hit st' ! slot cfg (poll_queue p) = (if MAX_PKT_BURST div 2 < poll_size p then penalty cfg else 0)) \<and>
     (\<forall>q. queue_start cfg \<le> q \<and> q < queue_end cfg \<and> hit st ! slot cfg q < penalty cfg \<longrightarrow>
        hit st' ! slot cfg q = hit st ! slot cfg q + 1))"

lemma sweep_penalty:
  fixes st :: "('e, 'p) poll_state"
  assumes b: "bursts_ok ops" and c: "cfg_ok cfg" and s: "state_ok cfg st" "resume_i st = - 1"
    and p: "penalty_policy cfg"
  shows "\<exists>stop st'. sweep ops cfg st = Some (stop, st') \<and> (\<not> stop \<longrightarrow> penalty_step cfg st st')"
proof -
  have p': "0 < penalty cfg" "\<not> aggressive cfg" "\<not> latency_on cfg" "mode cfg \<noteq> QFLOW_SHARED"
    using p by (simp_all add: penalty_policy_def)
  let ?I = "penalty_inv cfg st"
  have "\<exists>stop st'. sweep ops cfg st = Some (stop, st') \<and>
    (\<not> stop \<longrightarrow> tx_batch st' = [] \<and> state_ok cfg st' \<and> resume_i st' = - 1 \<and>
      (\<exists>st1. ?I (queue_end cfg) st1 \<and> same_control st1 st' \<and> trace st' = trace st1 \<and> received st' = received st1 \<and>
        mset (sent st') + mset (freed st') = mset (sent st1) + mset (freed st1) + mset (tx_batch st1)))"
  proof (rule sweep_rule [where I = ?I and S = "\<lambda>_. True", OF b c _ s])
    show "steady cfg" using p' by (simp add: steady_def)
    show "?I (queue_start cfg) (fresh_sweep st)" by (simp add: penalty_inv_def grew_def fresh_sweep_def)
    fix i and st1 :: "('e, 'p) poll_state"
    assume I: "?I i st1" and s1: "state_ok cfg st1" "resume_i st1 = - 1" and i: "queue_start cfg \<le> i" "i < queue_end cfg"
    have l: "slot cfg i < length (hit st1)" using slot_range(1) [OF c s1(1) i] by (simp add: slot_def)
    obtain r where r: "poll_body ops cfg i st1 = Some r" "regular_result cfg i st1 r"
      using regular_iteration [OF b c s1 i] p'(3) by blast
    have "case r of Next i' st' \<Rightarrow> ?I (i' + 1) st' | Stop st' \<Rightarrow> True"
      using r(2) unfolding regular_result_def
    proof (elim disjE exE conjE)
      fix c assume "r = Next i (skip_state cfg i st1 c)" "skips cfg i st1"
      then show ?thesis using penalty_inv_skip [OF I i(1) l, of c] by (simp add: skips_def slot_def)
    next
      fix e assume "mode cfg = QFLOW_SHARED"
      then show ?thesis using p'(4) by simp
    next
      fix st2 assume "r = Stop st2"
      then show ?thesis by simp
    next
      fix nb st2 i' st'
      assume ns: "\<not> skips cfg i st1" and mv: "moved cfg i nb st1 st2"
        and re: "regular_end cfg (nat (i - queue_start cfg)) i nb st2 i' st'" and rr: "r = Next i' st'"
      have sc: "max_loops st2 = max_loops st1" "hit st2 = hit st1" using mv by (simp_all add: moved_def same_control_def)
      have m1: "max_loops st1 = QFLOW_MAX_CONSECUTIVE_POLLS" using I by (simp add: penalty_inv_def)
      have e: "i' = i" "max_loops st' = QFLOW_MAX_CONSECUTIVE_POLLS"
        "hit st' = (hit st1)[slot cfg i := if MAX_PKT_BURST div 2 < nb then penalty cfg else 0]"
        using re p'(1,2) sc m1 by (simp_all add: regular_end_def Let_def slot_def)
      have tr: "trace st' = trace st1 @ [Regular i nb]" using trace_step [OF mv re] tag_regular [OF s1(2)] by simp
      have "penalty cfg \<le> hit st1 ! slot cfg i" using ns p'(1) by (auto simp: skips_def slot_def)
      from penalty_inv_poll [OF I i(1) l this tr e(2,3)] show ?thesis using rr e(1) by simp
    qed
    then show "\<exists>r. poll_body ops cfg i st1 = Some r \<and> (case r of Next i' st' \<Rightarrow> ?I (i' + 1) st' | Stop st' \<Rightarrow> True)"
      using r(1) by blast
  qed
  then obtain stop st' where sw: "sweep ops cfg st = Some (stop, st')"
    and ns: "\<not> stop \<longrightarrow> state_ok cfg st' \<and> resume_i st' = - 1 \<and>
      (\<exists>st1. ?I (queue_end cfg) st1 \<and> same_control st1 st' \<and> trace st' = trace st1)" by blast
  have "\<not> stop \<longrightarrow> penalty_step cfg st st'"
  proof
    assume "\<not> stop"
    with ns obtain st1 where k: "state_ok cfg st'" "resume_i st' = - 1" "?I (queue_end cfg) st1"
      "hit st' = hit st1" "trace st' = trace st1" by (auto simp: same_control_def)
    then show "penalty_step cfg st st'"
      unfolding penalty_step_def penalty_inv_def grew_def by auto
  qed
  then show ?thesis using sw by blast
qed

lemma sweeps_penalty:
  fixes st :: "('e, 'p) poll_state"
  assumes b: "bursts_ok ops" and c: "cfg_ok cfg" and p: "penalty_policy cfg"
    and q: "queue_start cfg \<le> q" "q < queue_end cfg"
  shows "state_ok cfg st \<Longrightarrow> resume_i st = - 1 \<Longrightarrow> hit st ! slot cfg q + n \<le> penalty cfg \<Longrightarrow>
    \<exists>stop st'. sweeps n ops cfg st = Some (stop, st') \<and> (\<not> stop \<longrightarrow>
      state_ok cfg st' \<and> resume_i st' = - 1 \<and> hit st' ! slot cfg q = hit st ! slot cfg q + n \<and>
      (\<exists>ps. grew (trace st) st' ps \<and> q \<notin> poll_queue ` set ps))"
proof (induction n arbitrary: st)
  case 0
  then show ?case by (intro exI [of _ False] exI [of _ st]) (simp add: grew_def)
next
  case (Suc n)
  obtain stop st1 where s1: "sweep ops cfg st = Some (stop, st1)" "\<not> stop \<longrightarrow> penalty_step cfg st st1"
    using sweep_penalty [OF b c Suc.prems(1,2) p] by blast
  show ?case
  proof (cases stop)
    case True
    then show ?thesis using s1(1) by (intro exI [of _ True] exI [of _ st1]) simp
  next
    case False
    then obtain ps where ps: "state_ok cfg st1" "resume_i st1 = - 1" "grew (trace st) st1 ps"
      "map poll_queue ps = filter (\<lambda>q. penalty cfg \<le> hit st ! slot cfg q) [queue_start cfg..queue_end cfg - 1]"
      "hit st1 ! slot cfg q = hit st ! slot cfg q + 1"
      using s1(2) q Suc.prems(3) unfolding penalty_step_def by auto
    have "set (map poll_queue ps) \<subseteq> {q. penalty cfg \<le> hit st ! slot cfg q}" unfolding ps(4) by auto
    then have nq: "q \<notin> poll_queue ` set ps" using Suc.prems(3) by auto
    have "hit st1 ! slot cfg q + n \<le> penalty cfg" using Suc.prems(3) ps(5) by simp
    from Suc.IH [OF ps(1,2) this] obtain stop' st' where
      st': "sweeps n ops cfg st1 = Some (stop', st')" "\<not> stop' \<longrightarrow>
        state_ok cfg st' \<and> resume_i st' = - 1 \<and> hit st' ! slot cfg q = hit st1 ! slot cfg q + n \<and>
        (\<exists>ps. grew (trace st1) st' ps \<and> q \<notin> poll_queue ` set ps)" by blast
    have run: "sweeps (Suc n) ops cfg st = Some (stop', st')" using s1(1) False st'(1) by simp
    have "\<not> stop' \<longrightarrow> (\<exists>ps. grew (trace st) st' ps \<and> q \<notin> poll_queue ` set ps)"
    proof
      assume "\<not> stop'"
      then obtain ps' where "grew (trace st1) st' ps'" "q \<notin> poll_queue ` set ps'" using st'(2) by blast
      then show "\<exists>ps. grew (trace st) st' ps \<and> q \<notin> poll_queue ` set ps"
        using ps(3) nq by (intro exI [of _ "ps @ ps'"]) (auto simp: grew_def)
    qed
    then show ?thesis using run st'(2) ps(5) by auto
  qed
qed

subsection \<open>Latency\<close>

fun counted_poll :: "int \<Rightarrow> poll \<Rightarrow> bool" where
  "counted_poll lq (Regular q nb) \<longleftrightarrow> q \<noteq> lq"
| "counted_poll lq (Diverted q nb) \<longleftrightarrow> False"

fun diverted_poll :: "poll \<Rightarrow> bool" where
  "diverted_poll (Regular q nb) \<longleftrightarrow> False"
| "diverted_poll (Diverted q nb) \<longleftrightarrow> True"

text \<open>Every \<open>latency_period\<close> polls of other queues are paid with one poll of the latency queue; at most
  one is pending.\<close>

definition latency_inv :: "poll_cfg \<Rightarrow> ('e, 'p) poll_state \<Rightarrow> bool" where
  "latency_inv cfg st \<longleftrightarrow>
     int (length (filter (counted_poll (latency_queue cfg)) (trace st))) =
       latency_period cfg * (int (length (filter diverted_poll (trace st))) + (if inject_queue st then 1 else 0)) +
       latency_count st \<and>
     0 \<le> latency_count st \<and> latency_count st < latency_period cfg \<and>
     (\<forall>p \<in> set (trace st). diverted_poll p \<longrightarrow> poll_queue p = latency_queue cfg)"

lemma latency_inv_same:
  "latency_inv cfg st \<Longrightarrow> trace st' = trace st \<Longrightarrow> latency_count st' = latency_count st \<Longrightarrow>
   inject_queue st' = inject_queue st \<Longrightarrow> latency_inv cfg st'"
  by (simp add: latency_inv_def)

lemma latency_inv_body:
  fixes st :: "('e, 'p) poll_state"
  assumes b: "bursts_ok ops" and c: "cfg_ok cfg" and s: "state_ok cfg st" "resume_i st = - 1"
    and i: "queue_start cfg \<le> i" "i < queue_end cfg" and l: "latency_on cfg" "mode cfg \<noteq> QFLOW_SHARED"
    and I: "latency_inv cfg st"
  shows "\<exists>r. poll_body ops cfg i st = Some r \<and> (case r of Next i' st' \<Rightarrow> latency_inv cfg st' | Stop st' \<Rightarrow> True)"
proof (cases "inject_queue st")
  case inj: True
  obtain r where r: "poll_body ops cfg i st = Some r"
    "(skips cfg i st \<and> (\<exists>c. r = Next i (skip_state cfg i st c))) \<or>
     (\<not> skips cfg i st \<and> (\<exists>st2. r = Stop st2)) \<or>
     (\<not> skips cfg i st \<and> (\<exists>nb st2. nb \<le> MAX_PKT_BURST \<and>
        moved cfg (latency_queue cfg) nb (st\<lparr>resume_i := i, inject_queue := False\<rparr>) st2 \<and>
        r = Next (i - 1) (count_poll cfg nb (st2\<lparr>resume_i := - 1\<rparr>))))"
    using diverted_iteration [OF b c s(1) i l(1) inj l(2)] by blast
  from r(2) have "case r of Next i' st' \<Rightarrow> latency_inv cfg st' | Stop st' \<Rightarrow> True"
  proof (elim disjE exE conjE)
    fix c assume "r = Next i (skip_state cfg i st c)"
    moreover have "latency_inv cfg (skip_state cfg i st c)"
      by (rule latency_inv_same [OF I]) (simp_all add: skip_state_def)
    ultimately show ?thesis by simp
  next
    fix st2 assume "r = Stop st2"
    then show ?thesis by simp
  next
    fix nb st2
    assume mv: "moved cfg (latency_queue cfg) nb (st\<lparr>resume_i := i, inject_queue := False\<rparr>) st2"
      and rr: "r = Next (i - 1) (count_poll cfg nb (st2\<lparr>resume_i := - 1\<rparr>))"
    have "i \<noteq> - 1" using c i by (simp add: cfg_ok_def)
    then have "trace st2 = trace st @ [Diverted (latency_queue cfg) nb]"
      "latency_count st2 = latency_count st" "\<not> inject_queue st2"
      using mv by (simp_all add: moved_def tag_def same_control_def)
    then show ?thesis using I inj rr
      by (auto simp: latency_inv_def count_poll_fields algebra_simps)
  qed
  then show ?thesis using r(1) by blast
next
  case ninj: False
  obtain r where r: "poll_body ops cfg i st = Some r" "regular_result cfg i st r"
    using regular_iteration [OF b c s i] ninj by blast
  have "case r of Next i' st' \<Rightarrow> latency_inv cfg st' | Stop st' \<Rightarrow> True"
    using r(2) unfolding regular_result_def
  proof (elim disjE exE conjE)
    fix c assume "r = Next i (skip_state cfg i st c)"
    moreover have "latency_inv cfg (skip_state cfg i st c)"
      by (rule latency_inv_same [OF I]) (simp_all add: skip_state_def)
    ultimately show ?thesis by simp
  next
    fix e assume "mode cfg = QFLOW_SHARED"
    then show ?thesis using l(2) by simp
  next
    fix st2 assume "r = Stop st2"
    then show ?thesis by simp
  next
    fix nb st2 i' st'
    assume mv: "moved cfg i nb st st2" and re: "regular_end cfg (nat (i - queue_start cfg)) i nb st2 i' st'"
      and rr: "r = Next i' st'"
    have tr: "trace st' = trace st @ [Regular i nb]" using trace_step [OF mv re] tag_regular [OF s(2)] by simp
    have sc: "latency_count st2 = latency_count st" "inject_queue st2 = inject_queue st"
      using mv by (simp_all add: moved_def same_control_def)
    show ?thesis
    proof (cases "i = latency_queue cfg")
      case True
      then have "latency_count st' = latency_count st" "inject_queue st' = inject_queue st"
        using re sc by (simp_all add: regular_end_def Let_def)
      then show ?thesis using I tr True rr by (simp add: latency_inv_def)
    next
      case False
      let ?due = "latency_count st + 1 = latency_period cfg"
      have "latency_count st' = (if ?due then 0 else latency_count st + 1)" "inject_queue st' = ?due"
        using re sc False l(1) ninj by (auto simp: regular_end_def Let_def)
      then show ?thesis using I tr False rr ninj
        by (auto simp: latency_inv_def algebra_simps)
    qed
  qed
  then show ?thesis using r(1) by blast
qed

lemma sweeps_latency:
  fixes st :: "('e, 'p) poll_state"
  assumes b: "bursts_ok ops" and c: "cfg_ok cfg" and l: "latency_on cfg" "mode cfg \<noteq> QFLOW_SHARED"
  shows "state_ok cfg st \<Longrightarrow> resume_i st = - 1 \<Longrightarrow> latency_inv cfg st \<Longrightarrow>
    \<exists>stop st'. sweeps n ops cfg st = Some (stop, st') \<and> (\<not> stop \<longrightarrow> latency_inv cfg st')"
proof (induction n arbitrary: st)
  case 0
  then show ?case by (intro exI [of _ False] exI [of _ st]) simp
next
  case (Suc n)
  have "\<exists>stop st'. sweep ops cfg st = Some (stop, st') \<and>
    (\<not> stop \<longrightarrow> tx_batch st' = [] \<and> state_ok cfg st' \<and> resume_i st' = - 1 \<and>
      (\<exists>st1. latency_inv cfg st1 \<and> same_control st1 st' \<and> trace st' = trace st1 \<and> received st' = received st1 \<and>
        mset (sent st') + mset (freed st') = mset (sent st1) + mset (freed st1) + mset (tx_batch st1)))"
  proof (rule sweep_rule [where I = "\<lambda>i. latency_inv cfg" and S = "\<lambda>_. True", OF b c _ Suc.prems(1,2)])
    show "steady cfg" using l by (simp add: steady_def)
    show "latency_inv cfg (fresh_sweep st)" using Suc.prems(3) by (simp add: latency_inv_def fresh_sweep_def)
    fix i and st1 :: "('e, 'p) poll_state"
    assume "latency_inv cfg st1" "state_ok cfg st1" "resume_i st1 = - 1" "queue_start cfg \<le> i" "i < queue_end cfg"
    then show "\<exists>r. poll_body ops cfg i st1 = Some r \<and> (case r of Next i' st' \<Rightarrow> latency_inv cfg st' | Stop st' \<Rightarrow> True)"
      using latency_inv_body [OF b c _ _ _ _ l] by blast
  qed
  then obtain stop st' st1 where s: "sweep ops cfg st = Some (stop, st')"
    "\<not> stop \<longrightarrow> state_ok cfg st' \<and> resume_i st' = - 1 \<and> latency_inv cfg st1 \<and> same_control st1 st' \<and> trace st' = trace st1"
    by blast
  show ?case
  proof (cases stop)
    case True
    then show ?thesis using s(1) by (intro exI [of _ True] exI [of _ st']) simp
  next
    case False
    then have "latency_inv cfg st'" using s(2) latency_inv_same [of cfg st1 st'] by (simp add: same_control_def)
    then have "\<exists>stop2 st2. sweeps n ops cfg st' = Some (stop2, st2) \<and> (\<not> stop2 \<longrightarrow> latency_inv cfg st2)"
      using Suc.IH s(2) False by blast
    then show ?thesis using s(1) False by simp
  qed
qed

subsection \<open>Slices\<close>

lemma slice_total:
  assumes "queues * lcs < 4294967296" "0 < lcs" "pos \<le> lcs"
  shows "slice_start queues pos lcs = queues * pos div lcs"
    "pos < lcs \<Longrightarrow> slice_end queues pos lcs = queues * Suc pos div lcs"
proof -
  have "queues * pos \<le> queues * lcs" by (rule mult_left_mono [OF assms(3)]) simp
  then have "queues * pos < 4294967296" using assms(1) by (rule le_less_trans)
  then show "slice_start queues pos lcs = queues * pos div lcs"
    by (simp add: slice_start_def)
  assume p: "pos < lcs"
  show "slice_end queues pos lcs = queues * Suc pos div lcs"
  proof (cases "queues = 0")
    case True
    then show ?thesis by (simp add: slice_end_def)
  next
    case False
    have "queues * Suc pos \<le> queues * lcs" using p by (intro mult_left_mono) auto
    then have q: "queues * Suc pos < 4294967296" using assms(1) by simp
    moreover have "1 * Suc pos \<le> queues * Suc pos" using False by (intro mult_right_mono) simp_all
    ultimately have "1 * Suc pos < 4294967296" by (metis le_less_trans)
    then have "Suc pos < 4294967296" by simp
    then have "u32 (pos + 1) = Suc pos" by simp
    then show ?thesis using q by (simp add: slice_end_def)
  qed
qed

lemma slices_partition:
  assumes "queues * lcs < 4294967296" "0 < lcs"
  shows "q < queues \<longleftrightarrow> (\<exists>!pos. pos < lcs \<and> slice_start queues pos lcs \<le> q \<and> q < slice_end queues pos lcs)"
proof -
  have "(0 \<le> q \<and> q < queues) \<longleftrightarrow> (\<exists>!k. k < lcs \<and> queues * k div lcs \<le> q \<and> q < queues * Suc k div lcs)"
    by (rule steps_partition) (use assms in \<open>simp_all add: div_le_mono\<close>)
  moreover have "(k < lcs \<and> queues * k div lcs \<le> q \<and> q < queues * Suc k div lcs) \<longleftrightarrow>
    (k < lcs \<and> slice_start queues k lcs \<le> q \<and> q < slice_end queues k lcs)" for k
    using slice_total [OF assms, of k] by auto
  ultimately show ?thesis by simp
qed

lemma lcore_for_queue_finds:
  assumes "queues * lcs < 4294967296" "0 < lcs" "pos < lcs"
    and own: "slice_start queues pos lcs \<le> q" "q < slice_end queues pos lcs"
  shows "k \<le> pos \<Longrightarrow> lcore_for_queue_from q queues lcs k = Some pos"
proof (induction "pos - k" arbitrary: k)
  case 0
  then have "k = pos" by simp
  then show ?case using own assms(3) by (subst lcore_for_queue_from.simps) (simp add: slice_start_def slice_end_def)
next
  case (Suc d)
  have k: "k < pos" using Suc.hyps(2) by simp
  have "\<not> (slice_start queues k lcs \<le> q \<and> q < slice_end queues k lcs)"
  proof
    assume a: "slice_start queues k lcs \<le> q \<and> q < slice_end queues k lcs"
    have "queues * Suc pos \<le> queues * lcs" using assms(3) by (intro mult_left_mono) auto
    then have "queues * Suc pos div lcs \<le> queues * lcs div lcs" by (rule div_le_mono)
    then have "slice_end queues pos lcs \<le> queues"
      using slice_total(2) [OF assms(1,2), of pos] assms(2,3) by simp
    then have "q < queues" using own(2) by simp
    then have "\<exists>!k. k < lcs \<and> slice_start queues k lcs \<le> q \<and> q < slice_end queues k lcs"
      using slices_partition [OF assms(1,2)] by simp
    then have "k = pos" using a own assms(3) k by (metis less_trans)
    then show False using k by simp
  qed
  then have "lcore_for_queue_from q queues lcs k = lcore_for_queue_from q queues lcs (Suc k)"
    using k assms(3) by (subst lcore_for_queue_from.simps) (auto simp: slice_start_def slice_end_def)
  also have "\<dots> = Some pos" using Suc.hyps k by simp
  finally show ?case .
qed

definition mica_first :: "nat \<Rightarrow> nat \<Rightarrow> nat \<Rightarrow> nat" where
  "mica_first queues lcores k = k * (queues div lcores) + min k (queues mod lcores)"

lemma mica_slice_first:
  assumes "queues < 65536" "0 < lcores" "k < lcores"
  shows "mica_slice QFLOW_PARTITIONED queues k lcores =
    (mica_first queues lcores k, mica_first queues lcores (Suc k) - mica_first queues lcores k)"
    "mica_first queues lcores k \<le> mica_first queues lcores (Suc k)" "mica_first queues lcores (Suc k) \<le> queues"
proof -
  let ?q = "queues div lcores" and ?r = "queues mod lcores"
  show mono: "mica_first queues lcores k \<le> mica_first queues lcores (Suc k)" by (simp add: mica_first_def)
  have "Suc k * ?q \<le> lcores * ?q" using assms(3) by (intro mult_right_mono) auto
  then have "Suc k * ?q + min (Suc k) ?r \<le> lcores * ?q + ?r" by (rule add_mono) simp
  also have "\<dots> = queues" by simp
  finally show le: "mica_first queues lcores (Suc k) \<le> queues" by (simp add: mica_first_def)
  have d: "mica_first queues lcores (Suc k) - mica_first queues lcores k = ?q + (if k < ?r then 1 else 0)"
    by (auto simp: mica_first_def)
  have "?q + (if k < ?r then 1 else 0) \<le> queues" using d le by linarith
  then show "mica_slice QFLOW_PARTITIONED queues k lcores =
    (mica_first queues lcores k, mica_first queues lcores (Suc k) - mica_first queues lcores k)"
    unfolding d using assms le mono by (simp add: mica_slice_def Let_def mica_first_def)
qed

lemma mica_owner_slice:
  assumes n: "queues < 65536" "0 < lcores" and x: "x < queues"
  shows "mica_owner queues lcores x < lcores"
    "mica_first queues lcores (mica_owner queues lcores x) \<le> x"
    "x < mica_first queues lcores (Suc (mica_owner queues lcores x))"
proof -
  let ?q = "queues div lcores" and ?r = "queues mod lcores"
  have total: "lcores * ?q + ?r = queues" by simp
  have r: "?r < lcores" using n(2) by simp
  have "?r * (?q + 1) = ?r * ?q + ?r" by simp
  moreover have "?r * ?q \<le> lcores * ?q" using r by (intro mult_right_mono) simp_all
  ultimately have bq: "?r * (?q + 1) \<le> queues" using total by linarith
  have bnd: "?r * (?q + 1) mod 2 ^ 16 = ?r * (?q + 1)" using bq n(1) by simp
  define k where "k = (if x < ?r * (?q + 1) then x div (?q + 1) else ?r + (x - ?r * (?q + 1)) div ?q)"
  have "k < lcores \<and> mica_first queues lcores k \<le> x \<and> x < mica_first queues lcores (Suc k)"
  proof (cases "x < ?r * (?q + 1)")
    case True
    have k: "k = x div (?q + 1)" using True by (simp add: k_def)
    then have kr: "k < ?r" using True by (simp add: less_mult_imp_div_less)
    have "k * (?q + 1) \<le> x" using k by (simp only: div_times_less_eq_dividend)
    moreover have "x < Suc k * (?q + 1)"
      unfolding k by (metis Suc_eq_plus1 dividend_less_div_times mult_Suc add.commute zero_less_Suc)
    ultimately show ?thesis using kr r by (simp add: mica_first_def min_def)
  next
    case False
    let ?y = "x - ?r * (?q + 1)"
    have k: "k = ?r + ?y div ?q" using False by (simp add: k_def)
    have xy: "x = ?r * (?q + 1) + ?y" using False by simp
    have yb: "?y < (lcores - ?r) * ?q"
    proof -
      have "queues = ?r * (?q + 1) + (lcores - ?r) * ?q"
        using total r by (simp add: algebra_simps diff_mult_distrib)
      then show ?thesis using x xy by linarith
    qed
    then have q: "0 < ?q" by (cases "?q = 0") simp_all
    have "?y div ?q < lcores - ?r" using yb by (simp add: less_mult_imp_div_less)
    then have kl: "k < lcores" using k by simp
    have "?y div ?q * ?q \<le> ?y" by (rule div_times_less_eq_dividend)
    moreover have "?y < ?q + ?y div ?q * ?q" using q by (rule dividend_less_div_times)
    moreover have "mica_first queues lcores k = ?r * (?q + 1) + ?y div ?q * ?q"
      "mica_first queues lcores (Suc k) = ?r * (?q + 1) + (?q + ?y div ?q * ?q)"
      by (simp_all add: mica_first_def k min_def algebra_simps)
    ultimately show ?thesis using kl xy by linarith
  qed
  moreover have "mica_owner queues lcores x = k"
  proof -
    have "mica_owner queues lcores x = k mod 2 ^ 16"
      unfolding mica_owner_def Let_def bnd k_def by simp
    moreover have "k \<le> x"
    proof (cases "x < ?r * (?q + 1)")
      case True
      then show ?thesis by (simp add: k_def)
    next
      case False
      have "(x - ?r * (?q + 1)) div ?q \<le> x - ?r * (?q + 1)" by simp
      moreover have "?r \<le> ?r * (?q + 1)" by simp
      ultimately have "?r + (x - ?r * (?q + 1)) div ?q \<le> x" using False by linarith
      then show ?thesis using False by (simp add: k_def)
    qed
    ultimately show ?thesis using x n(1) by simp
  qed
  ultimately show "mica_owner queues lcores x < lcores"
    "mica_first queues lcores (mica_owner queues lcores x) \<le> x"
    "x < mica_first queues lcores (Suc (mica_owner queues lcores x))" by simp_all
qed

subsection \<open>Properties\<close>

lemma poll_config_ok:
  assumes "queues \<le> 2048" "lcores < 65536" "pos < lcores"
  shows "cfg_ok (poll_config opts queues pos lcores ports)"
proof -
  have m: "queues * lcores < 4294967296"
  proof -
    have "queues * lcores \<le> 2048 * 65536" using assms by (intro mult_le_mono) auto
    then show ?thesis by simp
  qed
  have "0 < lcores" using assms by simp
  have "slice_start queues pos lcores \<le> slice_end queues pos lcores"
    using slice_total [OF m] assms by (simp add: div_le_mono)
  moreover have "slice_end queues pos lcores \<le> queues"
  proof -
    have "queues * Suc pos \<le> queues * lcores" using assms by (intro mult_left_mono) auto
    then have "queues * Suc pos div lcores \<le> queues * lcores div lcores" by (rule div_le_mono)
    then show ?thesis using slice_total(2) [OF m] assms by simp
  qed
  ultimately show ?thesis using assms(1) by (simp add: cfg_ok_def poll_config_def Let_def)
qed

lemma initial_ok: "state_ok cfg (initial_state cfg e)" "resume_i (initial_state cfg e) = - 1"
  "balanced (initial_state cfg e)" "tx_batch (initial_state cfg e) = []"
  by (simp_all add: state_ok_def initial_state_def balanced_def)

lemma sweeps_total:
  fixes st :: "('e, 'p) poll_state"
  assumes b: "bursts_ok ops" and c: "cfg_ok cfg" and sd: "steady cfg"
  shows "state_ok cfg st \<Longrightarrow> resume_i st = - 1 \<Longrightarrow> balanced st \<Longrightarrow> tx_batch st = [] \<Longrightarrow>
    \<exists>stop st'. sweeps n ops cfg st = Some (stop, st') \<and>
      (\<not> stop \<longrightarrow> balanced st' \<and> tx_batch st' = [] \<and> state_ok cfg st' \<and> resume_i st' = - 1)"
proof (induction n arbitrary: st)
  case 0
  then show ?case by (intro exI [of _ False] exI [of _ st]) simp
next
  case (Suc n)
  obtain stop st1 where s: "sweep ops cfg st = Some (stop, st1)"
    "\<not> stop \<longrightarrow> state_ok cfg st1 \<and> resume_i st1 = - 1 \<and> tx_batch st1 = [] \<and> balanced st1"
    using sweep_total [OF b c sd Suc.prems] by blast
  show ?case
  proof (cases stop)
    case True
    then show ?thesis using s(1) by (intro exI [of _ True] exI [of _ st1]) simp
  next
    case False
    then show ?thesis using s Suc.IH [of st1] by auto
  qed
qed

lemma initial_trace: "trace (initial_state cfg e) = []"
  by (simp add: initial_state_def)

lemma polls_since_Nil: "polls_since [] st = trace st"
  by (simp add: polls_since_def)

lemma count_distinct: "distinct xs \<Longrightarrow> q \<in> set xs \<Longrightarrow> length (filter (\<lambda>r. r = q) xs) = 1"
proof -
  assume "distinct xs" "q \<in> set xs"
  moreover from this have "{r. r = q} \<inter> set xs = {q}" by auto
  ultimately show ?thesis by (simp add: distinct_length_filter)
qed

text \<open>A concrete card for the witnesses: the environment counts the bursts, queue 1 is always full,
  every lock is taken at first, and the card sends two packets at most.\<close>

definition demo_nic :: "(nat, int) nic_ops" where
  "demo_nic = \<lparr>rx_burst = (\<lambda>e port q. (replicate (if q = 1 then 32 else 3) q, e + 1)),
     try_lock = (\<lambda>e port q. (q \<noteq> 4, e)), rel_lock = (\<lambda>e port q. e),
     tx_burst = (\<lambda>e port q ps. (min 2 (length ps), e)), handle = (\<lambda>e q ps. (False, e))\<rparr>"

lemma demo_bursts: "bursts_ok demo_nic"
  by (simp add: bursts_ok_def demo_nic_def)

definition demo_opts :: "bool \<Rightarrow> bool \<Rightarrow> bool \<Rightarrow> qflow_mode \<Rightarrow> qflow_opts" where
  "demo_opts ag pen lat md = qflow_opts_init\<lparr>o_aggressive := ag, o_penalty := pen, o_latency := lat,
     o_latency_queue := 4, o_latency_period := 2, o_mode := md\<rparr>"

definition demo_cfg :: "bool \<Rightarrow> bool \<Rightarrow> bool \<Rightarrow> qflow_mode \<Rightarrow> poll_cfg" where
  "demo_cfg ag pen lat md = poll_config (demo_opts ag pen lat md) 6 0 1 (\<lambda>_. 0)"

lemma demo_cfg_ok: "cfg_ok (demo_cfg ag pen lat md)"
  unfolding demo_cfg_def by (rule poll_config_ok) simp_all

lemma demo_cfg_fields:
  "aggressive (demo_cfg ag pen lat md) = ag" "penalty (demo_cfg ag pen lat md) = (if pen then 5 else 0)"
  "latency_on (demo_cfg ag pen lat md) = lat" "mode (demo_cfg ag pen lat md) = md"
  "queue_start (demo_cfg ag pen lat md) = 0" "queue_end (demo_cfg ag pen lat md) = 6"
  "latency_queue (demo_cfg ag pen lat md) = 4" "latency_period (demo_cfg ag pen lat md) = 2"
  by (simp_all add: demo_cfg_def demo_opts_def poll_config_def qflow_opts_init_def latency_on_def Let_def
      slice_start_def slice_end_def)



text \<open>Baseline. Without Penalty, Aggressive and Latency, a sweep on a single core or under Partitioned
  polls every queue of the slice exactly once, in order.\<close>

theorem baseline_round_robin:
  assumes "bursts_ok ops" "cfg_ok cfg" "state_ok cfg st" "resume_i st = - 1"
    and "penalty cfg = 0" "\<not> aggressive cfg" "\<not> latency_on cfg" "mode cfg \<noteq> QFLOW_SHARED"
  shows "\<exists>stop st'. sweep ops cfg st = Some (stop, st') \<and>
    (\<not> stop \<longrightarrow> map poll_queue (polls_since (trace st) st') = [queue_start cfg..queue_end cfg - 1])"
  by (rule sweep_baseline [OF assms])

theorem baseline_round_robin_witness:
  "\<exists>stop st'. sweep demo_nic (demo_cfg False False False QFLOW_SINGLE)
      (initial_state (demo_cfg False False False QFLOW_SINGLE) 0) = Some (stop, st') \<and>
    (\<not> stop \<longrightarrow> map poll_queue (trace st') = [0..5])"
  using baseline_round_robin [OF demo_bursts demo_cfg_ok initial_ok(1,2), of False False False QFLOW_SINGLE 0]
  by (simp add: demo_cfg_fields polls_since_Nil initial_trace)

text \<open>Aggressive. Without Latency, a sweep polls a queue again only while its bursts are full, and never
  more than 101 times: the 100 repeated polls come on top of the first one.\<close>

theorem aggressive_repeats_bounded:
  assumes "bursts_ok ops" "cfg_ok cfg" "state_ok cfg st" "resume_i st = - 1" "\<not> latency_on cfg"
  shows "\<exists>stop st'. sweep ops cfg st = Some (stop, st') \<and> (\<not> stop \<longrightarrow>
    (\<forall>q. length (polls_of q (polls_since (trace st) st')) \<le> QFLOW_MAX_CONSECUTIVE_POLLS + 1 \<and>
       (\<forall>p \<in> set (butlast (polls_of q (polls_since (trace st) st'))). poll_size p = MAX_PKT_BURST)))"
  using sweep_aggressive [OF assms] by (simp add: bounded_repeats_def)

theorem aggressive_repeats_bounded_witness:
  "\<exists>stop st'. sweep demo_nic (demo_cfg True False False QFLOW_SHARED)
      (initial_state (demo_cfg True False False QFLOW_SHARED) 0) = Some (stop, st') \<and>
    (\<not> stop \<longrightarrow> length (polls_of 1 (trace st')) \<le> 101)"
proof -
  let ?c = "demo_cfg True False False QFLOW_SHARED"
  obtain stop st' where s: "sweep demo_nic ?c (initial_state ?c 0) = Some (stop, st')"
    "\<not> stop \<longrightarrow> (\<forall>q. length (polls_of q (trace st')) \<le> QFLOW_MAX_CONSECUTIVE_POLLS + 1)"
    using aggressive_repeats_bounded [OF demo_bursts demo_cfg_ok initial_ok(1,2), of True False False QFLOW_SHARED 0]
    unfolding initial_trace polls_since_Nil demo_cfg_fields by blast
  have "\<not> stop \<longrightarrow> length (polls_of 1 (trace st')) \<le> 101" using s(2) by simp
  then show ?thesis using s(1) by blast
qed

text \<open>C17. Penalty. On a single core or under Partitioned (no Aggressive, no Latency), a queue whose last
  burst was at most half full is not polled in the next \<open>penalty\<close> sweeps, and exactly once in the
  sweep after those.\<close>

theorem penalty_skips_exactly:
  fixes st :: "('e, 'p) poll_state"
  assumes b: "bursts_ok ops" and c: "cfg_ok cfg" and s: "state_ok cfg st" "resume_i st = - 1"
    and p: "penalty_policy cfg" and q: "queue_start cfg \<le> q" "q < queue_end cfg" and h: "hit st ! slot cfg q = 0"
  shows "\<exists>stop1 st1. sweeps (penalty cfg) ops cfg st = Some (stop1, st1) \<and> (\<not> stop1 \<longrightarrow>
    q \<notin> poll_queue ` set (polls_since (trace st) st1) \<and>
    (\<exists>stop2 st2. sweep ops cfg st1 = Some (stop2, st2) \<and> (\<not> stop2 \<longrightarrow>
       length (polls_of q (polls_since (trace st1) st2)) = 1)))"
proof -
  obtain stop1 st1 where s1: "sweeps (penalty cfg) ops cfg st = Some (stop1, st1)"
    "\<not> stop1 \<longrightarrow> state_ok cfg st1 \<and> resume_i st1 = - 1 \<and> hit st1 ! slot cfg q = penalty cfg \<and>
      (\<exists>ps. grew (trace st) st1 ps \<and> q \<notin> poll_queue ` set ps)"
    using sweeps_penalty [OF b c p q s, of "penalty cfg"] h by auto
  have "q \<notin> poll_queue ` set (polls_since (trace st) st1) \<and>
    (\<exists>stop2 st2. sweep ops cfg st1 = Some (stop2, st2) \<and> (\<not> stop2 \<longrightarrow>
       length (polls_of q (polls_since (trace st1) st2)) = 1))" if ns: "\<not> stop1"
  proof -
    have k: "state_ok cfg st1" "resume_i st1 = - 1" "hit st1 ! slot cfg q = penalty cfg" using s1(2) ns by auto
    obtain stop2 st2 where s2: "sweep ops cfg st1 = Some (stop2, st2)" "\<not> stop2 \<longrightarrow> penalty_step cfg st1 st2"
      using sweep_penalty [OF b c k(1,2) p] by blast
    have "length (polls_of q (polls_since (trace st1) st2)) = 1" if "\<not> stop2"
    proof -
      have "penalty_step cfg st1 st2" using s2(2) that by blast
      then obtain ps where gp: "grew (trace st1) st2 ps" and ps2:
        "map poll_queue ps = filter (\<lambda>q. penalty cfg \<le> hit st1 ! slot cfg q) [queue_start cfg..queue_end cfg - 1]"
        unfolding penalty_step_def by (elim conjE exE)
      note ps = grew_polls [OF gp] ps2
      have "length (polls_of q ps) = length (filter (\<lambda>r. r = q) (map poll_queue ps))"
        by (simp add: polls_of_def filter_map o_def)
      also have "\<dots> = 1"
        unfolding ps(2) by (rule count_distinct) (use q k(3) in simp_all)
      finally show ?thesis using ps(1) by simp
    qed
    moreover obtain ps where "grew (trace st) st1 ps" "q \<notin> poll_queue ` set ps" using s1(2) ns by blast
    then have "q \<notin> poll_queue ` set (polls_since (trace st) st1)" by (simp add: grew_polls)
    ultimately show ?thesis using s2(1) by blast
  qed
  then show ?thesis using s1(1) by blast
qed

theorem penalty_skips_exactly_witness:
  "\<exists>stop1 st1. sweeps 5 demo_nic (demo_cfg False True False QFLOW_SINGLE)
      ((initial_state (demo_cfg False True False QFLOW_SINGLE) 0)\<lparr>hit := replicate 2048 0\<rparr>) = Some (stop1, st1) \<and>
    (\<not> stop1 \<longrightarrow> 2 \<notin> poll_queue ` set (trace st1))"
proof -
  let ?c = "demo_cfg False True False QFLOW_SINGLE"
  let ?st = "(initial_state ?c 0 :: (nat, int) poll_state)\<lparr>hit := replicate 2048 0\<rparr>"
  have s: "state_ok ?c ?st" "resume_i ?st = - 1" "trace ?st = []"
    by (simp_all add: state_ok_def initial_state_def)
  have p: "penalty_policy ?c" by (simp add: penalty_policy_def demo_cfg_fields)
  have q: "queue_start ?c \<le> 2" "2 < queue_end ?c" "hit ?st ! slot ?c 2 = 0"
    by (simp_all add: demo_cfg_fields slot_def)
  have pen: "penalty ?c = 5" by (simp add: demo_cfg_fields)
  show ?thesis
    using penalty_skips_exactly [OF demo_bursts demo_cfg_ok s(1,2) p q] unfolding pen s(3) polls_since_Nil by blast
qed

text \<open>C18. Latency. On a single core or under Partitioned, counting from the start of the lcore, every
  \<open>latency_period\<close> regular polls of other queues are followed by one extra poll, it is of the latency
  queue, and at most one such poll is pending.\<close>

theorem latency_queue_rate:
  assumes "bursts_ok ops" "cfg_ok cfg" "latency_on cfg" "mode cfg \<noteq> QFLOW_SHARED" "0 < latency_period cfg"
  shows "\<exists>stop st'. sweeps n ops cfg (initial_state cfg e) = Some (stop, st') \<and> (\<not> stop \<longrightarrow>
    (let regular = int (length (filter (counted_poll (latency_queue cfg)) (trace st')));
         extra = int (length (filter diverted_poll (trace st')))
     in latency_period cfg * extra \<le> regular \<and> regular < latency_period cfg * (extra + 2) \<and>
        (\<forall>p \<in> set (trace st'). diverted_poll p \<longrightarrow> poll_queue p = latency_queue cfg)))"
proof -
  have "latency_inv cfg (initial_state cfg e)" using assms(5) by (simp add: latency_inv_def initial_state_def)
  from sweeps_latency [OF assms(1-4) initial_ok(1,2) this, of n] obtain stop st' where
    s: "sweeps n ops cfg (initial_state cfg e) = Some (stop, st')" "\<not> stop \<longrightarrow> latency_inv cfg st'" by blast
  have "latency_inv cfg st' \<Longrightarrow>
    (let regular = int (length (filter (counted_poll (latency_queue cfg)) (trace st')));
         extra = int (length (filter diverted_poll (trace st')))
     in latency_period cfg * extra \<le> regular \<and> regular < latency_period cfg * (extra + 2) \<and>
        (\<forall>p \<in> set (trace st'). diverted_poll p \<longrightarrow> poll_queue p = latency_queue cfg))"
    using assms(5) by (auto simp: latency_inv_def Let_def algebra_simps)
  then show ?thesis using s by blast
qed

theorem latency_queue_rate_witness:
  "\<exists>stop st'. sweeps 9 demo_nic (demo_cfg True True True QFLOW_PARTITIONED)
      (initial_state (demo_cfg True True True QFLOW_PARTITIONED) 0) = Some (stop, st') \<and>
    (\<not> stop \<longrightarrow> 2 * int (length (filter diverted_poll (trace st'))) \<le>
      int (length (filter (counted_poll 4) (trace st'))))"
  using latency_queue_rate [OF demo_bursts demo_cfg_ok, of True True True QFLOW_PARTITIONED 9 0]
  by (fastforce simp: demo_cfg_fields Let_def)

text \<open>Latency under Shared loses the sweep's position. When the lock of the latency queue is taken at a
  diversion, the loop goes on after the latency queue instead of coming back to the queue it
  left: the position stays in \<open>resume_i\<close> until the latency queue is polled again.\<close>

theorem shared_latency_loses_position:
  assumes "mode cfg = QFLOW_SHARED" "latency_on cfg" "inject_queue st" "penalty cfg = 0"
    and "try_lock ops (nic st) (port_of cfg (latency_queue cfg)) (latency_queue cfg) = (False, e)"
  shows "\<exists>st'. poll_body ops cfg i st = Some (Next (latency_queue cfg) st') \<and> resume_i st' = i \<and>
    \<not> inject_queue st' \<and> trace st' = trace st"
  using assms by (simp add: poll_body_def penalized_def divert_def receive_def latency_on_def Let_def)

theorem shared_latency_loses_position_witness:
  "\<exists>st'. poll_body demo_nic (demo_cfg False False True QFLOW_SHARED) 2
      ((initial_state (demo_cfg False False True QFLOW_SHARED) 0)\<lparr>inject_queue := True\<rparr>) = Some (Next 4 st') \<and>
    resume_i st' = 2"
proof -
  let ?c = "demo_cfg False False True QFLOW_SHARED"
  let ?st = "(initial_state ?c 0 :: (nat, int) poll_state)\<lparr>inject_queue := True\<rparr>"
  have "try_lock demo_nic (nic ?st) (port_of ?c (latency_queue ?c)) (latency_queue ?c) = (False, 0)"
    by (simp add: demo_nic_def demo_cfg_fields initial_state_def)
  from shared_latency_loses_position [OF _ _ _ _ this, of 2] show ?thesis by (auto simp: demo_cfg_fields)
qed

text \<open>Partitioned in nf-chain. The slices of the lcores partition the queues, and the mbuf pool chosen
  with \<open>get_lcore_for_queue\<close> is that of the lcore that polls the queue.\<close>

theorem partition_slices_exact:
  assumes "queues * lcores < 4294967296" "0 < lcores"
  shows "(q < queues \<longleftrightarrow> (\<exists>!pos. pos < lcores \<and> slice_start queues pos lcores \<le> q \<and> q < slice_end queues pos lcores)) \<and>
    (\<forall>pos<lcores. slice_start queues pos lcores \<le> q \<and> q < slice_end queues pos lcores \<longrightarrow>
       get_lcore_for_queue q queues lcores = Some pos)"
  using slices_partition [OF assms, of q] lcore_for_queue_finds [OF assms, of _ q 0]
  by (simp add: get_lcore_for_queue_def)

theorem partition_slices_exact_witness:
  "(\<exists>!pos. pos < 3 \<and> slice_start 10 pos 3 \<le> 6 \<and> 6 < slice_end 10 pos 3) \<and> get_lcore_for_queue 6 10 3 = Some 2"
proof -
  have "slice_start 10 2 3 \<le> 6 \<and> 6 < slice_end 10 2 3" by (simp add: slice_start_def slice_end_def)
  then show ?thesis using partition_slices_exact [of 10 3 6] by auto
qed

text \<open>Partitioned in mica. The slices of the polling lcores partition the queues, and the owner that the
  set-up computes for a queue is the lcore whose slice holds it.\<close>

theorem mica_slices_exact:
  assumes "queues < 65536" "0 < lcores" "x < queues"
  shows "mica_owner queues lcores x < lcores \<and>
    (\<forall>k<lcores. fst (mica_slice QFLOW_PARTITIONED queues k lcores) \<le> x \<and>
       x < fst (mica_slice QFLOW_PARTITIONED queues k lcores) + snd (mica_slice QFLOW_PARTITIONED queues k lcores) \<longleftrightarrow>
       k = mica_owner queues lcores x)"
proof -
  let ?b = "mica_first queues lcores" and ?o = "mica_owner queues lcores x"
  note o = mica_owner_slice [OF assms]
  have m: "?b j \<le> ?b k" if "j \<le> k" for j k
    unfolding mica_first_def using that by (intro add_mono mult_right_mono min.mono) simp_all
  have own: "(?b k \<le> x \<and> x < ?b (Suc k)) \<longleftrightarrow> k = ?o" for k
  proof
    assume a: "?b k \<le> x \<and> x < ?b (Suc k)"
    show "k = ?o"
    proof (rule ccontr)
      assume "k \<noteq> ?o"
      then consider "Suc k \<le> ?o" | "Suc ?o \<le> k" by linarith
      then show False
      proof cases
        case 1
        then show False using m [OF 1] a o(2) by linarith
      next
        case 2
        then show False using m [OF 2] a o(3) by linarith
      qed
    qed
  qed (use o in simp)
  have first: "fst (mica_slice QFLOW_PARTITIONED queues k lcores) = ?b k"
    and last: "fst (mica_slice QFLOW_PARTITIONED queues k lcores) + snd (mica_slice QFLOW_PARTITIONED queues k lcores) = ?b (Suc k)"
    if "k < lcores" for k using mica_slice_first [OF assms(1,2) that] by simp_all
  have "fst (mica_slice QFLOW_PARTITIONED queues k lcores) \<le> x \<and>
       x < fst (mica_slice QFLOW_PARTITIONED queues k lcores) + snd (mica_slice QFLOW_PARTITIONED queues k lcores) \<longleftrightarrow>
       k = ?o" if "k < lcores" for k
    unfolding last [OF that] unfolding first [OF that] by (rule own)
  then show ?thesis using o(1) by blast
qed

theorem mica_slices_exact_witness:
  "mica_owner 10 3 6 < 3 \<and> fst (mica_slice QFLOW_PARTITIONED 10 1 3) \<le> 6 \<and> mica_owner 10 3 6 = 1"
  using mica_slices_exact [of 10 3 6] by (simp add: mica_owner_def mica_slice_def Let_def)

end
