(* ===== verification/Map_Impl.thy ===== *)
theory Map_Impl
  imports Prelude
begin

section \<open>The hash map: map-impl.c, map-impl-pow2.c and map.c\<close>

text \<open>
  The Vigor hash map under \<^verbatim>\<open>nf-chain/src/utils\<close>: open addressing with linear probing
  over five parallel arrays, where \<open>chns ! j\<close> counts the stored keys whose probe path passes
  through slot \<open>j\<close>, so that a lookup may stop at the first slot with a zero count.

  Key pointers (\<open>void *\<close>) are values of a type \<open>'p\<close>; the C function pointers
  \<open>map_keys_equality *\<close> and \<open>map_key_hash *\<close> are function arguments, and what a pointer
  points to is only known through them. The index reduction \<open>loop\<close> is the one place where
  the two variants of the file differ; it is the argument \<open>lp\<close> of the shared routines.
  The result \<open>-1\<close> is \<open>None\<close>.
\<close>

subsection \<open>State\<close>

record 'p map_arrays =
  busybits :: "int list"
  keyps :: "'p list"
  k_hashes :: "nat list"
  chns :: "int list"
  vals :: "int list"

subsection \<open>The operations of map-impl.c\<close>

definition loop :: "nat \<Rightarrow> nat \<Rightarrow> nat" where
  "loop k capacity = (let g = k mod capacity in u32 (g + capacity) mod capacity)"

definition loop_pow2 :: "nat \<Rightarrow> nat \<Rightarrow> nat" where
  "loop_pow2 k capacity = and k (capacity - 1)"

function find_key_from ::
  "(nat \<Rightarrow> nat \<Rightarrow> nat) \<Rightarrow> ('p \<Rightarrow> 'p \<Rightarrow> bool) \<Rightarrow> 'p map_arrays \<Rightarrow> 'p \<Rightarrow> nat \<Rightarrow> nat \<Rightarrow> nat \<Rightarrow> nat
    \<Rightarrow> nat option" where
  "find_key_from lp eq m keyp key_hash capacity start i =
    (if i < capacity then
       let index = lp (u32 (start + i)) capacity;
           bb = busybits m ! index;
           kh = k_hashes m ! index;
           chn = chns m ! index;
           kp = keyps m ! index
       in if bb \<noteq> 0 \<and> kh = key_hash
          then (if eq kp keyp then Some index
                else find_key_from lp eq m keyp key_hash capacity start (Suc i))
          else (if chn = 0 then None
                else find_key_from lp eq m keyp key_hash capacity start (Suc i))
     else None)"
  by pat_completeness auto
termination
  by (relation "measure (\<lambda>(lp, eq, m, keyp, key_hash, capacity, start, i). capacity - i)") auto

declare find_key_from.simps [simp del]

definition find_key ::
  "(nat \<Rightarrow> nat \<Rightarrow> nat) \<Rightarrow> ('p \<Rightarrow> 'p \<Rightarrow> bool) \<Rightarrow> 'p map_arrays \<Rightarrow> 'p \<Rightarrow> nat \<Rightarrow> nat \<Rightarrow> nat option"
  where
  "find_key lp eq m keyp key_hash capacity =
     find_key_from lp eq m keyp key_hash capacity (lp key_hash capacity) 0"

text \<open>The loop that clears the key's slot and lowers the chain counts on its path.\<close>

function find_key_remove_from ::
  "(nat \<Rightarrow> nat \<Rightarrow> nat) \<Rightarrow> ('p \<Rightarrow> 'p \<Rightarrow> bool) \<Rightarrow> 'p map_arrays \<Rightarrow> 'p \<Rightarrow> nat \<Rightarrow> nat \<Rightarrow> nat \<Rightarrow> nat
    \<Rightarrow> (nat \<times> 'p) option \<times> 'p map_arrays" where
  "find_key_remove_from lp eq m keyp key_hash capacity start i =
    (if i < capacity then
       let index = lp (u32 (start + i)) capacity;
           bb = busybits m ! index;
           kh = k_hashes m ! index;
           chn = chns m ! index;
           kp = keyps m ! index
       in if bb \<noteq> 0 \<and> kh = key_hash \<and> eq kp keyp
          then (Some (index, keyps m ! index), m\<lparr>busybits := (busybits m)[index := 0]\<rparr>)
          else find_key_remove_from lp eq (m\<lparr>chns := (chns m)[index := chn - 1]\<rparr>)
                 keyp key_hash capacity start (Suc i)
     else (None, m))"
  by pat_completeness auto
termination
  by (relation "measure (\<lambda>(lp, eq, m, keyp, key_hash, capacity, start, i). capacity - i)") auto

declare find_key_remove_from.simps [simp del]

definition find_key_remove_chain ::
  "(nat \<Rightarrow> nat \<Rightarrow> nat) \<Rightarrow> ('p \<Rightarrow> 'p \<Rightarrow> bool) \<Rightarrow> 'p map_arrays \<Rightarrow> 'p \<Rightarrow> nat \<Rightarrow> nat
    \<Rightarrow> (nat \<times> 'p) option \<times> 'p map_arrays" where
  "find_key_remove_chain lp eq m keyp key_hash capacity =
     find_key_remove_from lp eq m keyp key_hash capacity (lp key_hash capacity) 0"

function find_empty ::
  "(nat \<Rightarrow> nat \<Rightarrow> nat) \<Rightarrow> 'p map_arrays \<Rightarrow> nat \<Rightarrow> nat \<Rightarrow> nat \<Rightarrow> nat option \<times> 'p map_arrays" where
  "find_empty lp m start capacity i =
    (if i < capacity then
       let index = lp (u32 (start + i)) capacity;
           bb = busybits m ! index
       in if 0 = bb then (Some index, m)
          else let chn = chns m ! index
               in find_empty lp (m\<lparr>chns := (chns m)[index := chn + 1]\<rparr>) start capacity (Suc i)
     else (None, m))"
  by pat_completeness auto
termination
  by (relation "measure (\<lambda>(lp, m, start, capacity, i). capacity - i)") auto

declare find_empty.simps [simp del]

function map_impl_init :: "'p map_arrays \<Rightarrow> nat \<Rightarrow> nat \<Rightarrow> 'p map_arrays" where
  "map_impl_init m capacity i =
    (if i < capacity
     then map_impl_init (m\<lparr>busybits := (busybits m)[i := 0], chns := (chns m)[i := 0]\<rparr>)
            capacity (Suc i)
     else m)"
  by pat_completeness auto
termination
  by (relation "measure (\<lambda>(m, capacity, i). capacity - i)") auto

declare map_impl_init.simps [simp del]

definition map_impl_get ::
  "(nat \<Rightarrow> nat \<Rightarrow> nat) \<Rightarrow> ('p \<Rightarrow> 'p \<Rightarrow> bool) \<Rightarrow> 'p map_arrays \<Rightarrow> 'p \<Rightarrow> nat \<Rightarrow> nat \<Rightarrow> int option"
  where
  "map_impl_get lp eq m keyp hash capacity =
     (case find_key lp eq m keyp hash capacity of
        None \<Rightarrow> None
      | Some index \<Rightarrow> Some (vals m ! index))"

text \<open>
  With no free slot \<open>find_empty\<close> returns \<open>-1\<close>, which the caller uses as an array index:
  the model returns \<open>None\<close> for that write outside the arrays.
\<close>

definition map_impl_put ::
  "(nat \<Rightarrow> nat \<Rightarrow> nat) \<Rightarrow> 'p map_arrays \<Rightarrow> 'p \<Rightarrow> nat \<Rightarrow> int \<Rightarrow> nat \<Rightarrow> 'p map_arrays option" where
  "map_impl_put lp m keyp hash value capacity =
     (let start = lp hash capacity
      in case find_empty lp m start capacity 0 of
           (None, m') \<Rightarrow> None
         | (Some index, m') \<Rightarrow>
             Some (m'\<lparr>busybits := (busybits m')[index := 1],
                      keyps := (keyps m')[index := keyp],
                      k_hashes := (k_hashes m')[index := hash],
                      vals := (vals m')[index := value]\<rparr>))"

definition map_impl_erase ::
  "(nat \<Rightarrow> nat \<Rightarrow> nat) \<Rightarrow> ('p \<Rightarrow> 'p \<Rightarrow> bool) \<Rightarrow> 'p map_arrays \<Rightarrow> 'p \<Rightarrow> nat \<Rightarrow> nat
    \<Rightarrow> 'p option \<times> 'p map_arrays" where
  "map_impl_erase lp eq m keyp hash capacity =
     (case find_key_remove_chain lp eq m keyp hash capacity of
        (None, m') \<Rightarrow> (None, m')
      | (Some (index, keyp_out), m') \<Rightarrow> (Some keyp_out, m'))"

function map_impl_size :: "'p map_arrays \<Rightarrow> nat \<Rightarrow> nat \<Rightarrow> nat \<Rightarrow> nat" where
  "map_impl_size m capacity i s =
    (if i < capacity
     then map_impl_size m capacity (Suc i) (if busybits m ! i \<noteq> 0 then s + 1 else s)
     else s)"
  by pat_completeness auto
termination
  by (relation "measure (\<lambda>(m, capacity, i, s). capacity - i)") auto

declare map_impl_size.simps [simp del]

subsection \<open>Well-formed arrays and the map they store\<close>

text \<open>
  \<open>keyf\<close> is what a key pointer points to and \<open>hsh\<close> the hash of a key. A slot \<open>i\<close> is passed by
  the probe path of the key stored in it at the slots between its home and \<open>i\<close>.
\<close>

definition busy :: "'p map_arrays \<Rightarrow> nat \<Rightarrow> bool" where
  "busy m i \<longleftrightarrow> busybits m ! i \<noteq> 0"

definition home :: "nat \<Rightarrow> 'p map_arrays \<Rightarrow> nat \<Rightarrow> nat" where
  "home n m i = k_hashes m ! i mod n"

definition passing :: "nat \<Rightarrow> 'p map_arrays \<Rightarrow> nat \<Rightarrow> nat set" where
  "passing n m j = {i. i < n \<and> busy m i \<and> off n (home n m i) j < off n (home n m i) i}"

definition map_wf :: "('p \<Rightarrow> 'k) \<Rightarrow> ('k \<Rightarrow> nat) \<Rightarrow> nat \<Rightarrow> 'p map_arrays \<Rightarrow> bool" where
  "map_wf keyf hsh n m \<longleftrightarrow>
     0 < n \<and> n \<le> 2147483648 \<and>
     length (busybits m) = n \<and> length (keyps m) = n \<and> length (k_hashes m) = n \<and>
     length (chns m) = n \<and> length (vals m) = n \<and>
     (\<forall>i<n. busy m i \<longrightarrow> k_hashes m ! i = hsh (keyf (keyps m ! i))) \<and>
     (\<forall>i<n. \<forall>j<n. busy m i \<longrightarrow> busy m j \<longrightarrow> keyf (keyps m ! i) = keyf (keyps m ! j) \<longrightarrow> i = j) \<and>
     (\<forall>j<n. chns m ! j = int (card (passing n m j)))"

definition slot_of :: "('p \<Rightarrow> 'k) \<Rightarrow> nat \<Rightarrow> 'p map_arrays \<Rightarrow> 'k \<Rightarrow> nat option" where
  "slot_of keyf n m k = find (\<lambda>i. busy m i \<and> keyf (keyps m ! i) = k) [0..<n]"

definition contents :: "('p \<Rightarrow> 'k) \<Rightarrow> nat \<Rightarrow> 'p map_arrays \<Rightarrow> 'k \<Rightarrow> int option" where
  "contents keyf n m k = map_option (\<lambda>i. vals m ! i) (slot_of keyf n m k)"

lemma map_wfD [wf_simps]:
  assumes "map_wf keyf hsh n m"
  shows "0 < n" "n \<le> 2147483648" "length (busybits m) = n" "length (keyps m) = n"
    "length (k_hashes m) = n" "length (chns m) = n" "length (vals m) = n"
  using assms by (auto simp: map_wf_def)

lemma map_wf_hash:
  "map_wf keyf hsh n m \<Longrightarrow> i < n \<Longrightarrow> busy m i \<Longrightarrow> k_hashes m ! i = hsh (keyf (keyps m ! i))"
  by (auto simp: map_wf_def)

lemma map_wf_inj:
  "map_wf keyf hsh n m \<Longrightarrow> i < n \<Longrightarrow> j < n \<Longrightarrow> busy m i \<Longrightarrow> busy m j \<Longrightarrow>
   keyf (keyps m ! i) = keyf (keyps m ! j) \<Longrightarrow> i = j"
  by (auto simp: map_wf_def)

lemma map_wf_chn: "map_wf keyf hsh n m \<Longrightarrow> j < n \<Longrightarrow> chns m ! j = int (card (passing n m j))"
  by (auto simp: map_wf_def)

lemma finite_passing [simp]: "finite (passing n m j)"
  by (simp add: passing_def)

lemma slot_of_SomeD:
  "slot_of keyf n m k = Some i \<Longrightarrow> i < n \<and> busy m i \<and> keyf (keyps m ! i) = k"
  by (auto simp: slot_of_def find_Some_iff)

lemma slot_of_eq:
  assumes "map_wf keyf hsh n m" "i < n" "busy m i" "keyf (keyps m ! i) = k"
  shows "slot_of keyf n m k = Some i"
proof (cases "slot_of keyf n m k")
  case None
  then show ?thesis using assms by (auto simp: slot_of_def find_None_iff)
next
  case (Some j)
  then show ?thesis using slot_of_SomeD [OF Some] map_wf_inj [OF assms(1)] assms by metis
qed

lemma slot_of_None: "slot_of keyf n m k = None \<longleftrightarrow> (\<forall>i<n. busy m i \<longrightarrow> keyf (keyps m ! i) \<noteq> k)"
  by (auto simp: slot_of_def find_None_iff)

text \<open>The shared facts about the index reduction: it is \<open>mod\<close> wherever the routines use it.\<close>

definition reduces :: "(nat \<Rightarrow> nat \<Rightarrow> nat) \<Rightarrow> nat \<Rightarrow> bool" where
  "reduces lp n \<longleftrightarrow> (\<forall>k. lp k n = k mod n)"

lemma loop_reduces:
  assumes "0 < n" "n \<le> 2147483648"
  shows "reduces loop n"
proof -
  have "loop k n = k mod n" for k
  proof -
    have "k mod n + n < 4294967296"
      using assms mod_less_divisor [OF assms(1), of k] by simp
    then show ?thesis by (simp add: loop_def)
  qed
  then show ?thesis by (simp add: reduces_def)
qed

lemma and_pow2: "and k (2 ^ e - 1) = k mod (2 ^ e :: nat)"
  by (metis mask_eq_exp_minus_1 take_bit_eq_mask take_bit_eq_mod)

lemma loop_pow2_reduces: "reduces loop_pow2 (2 ^ e)"
  unfolding reduces_def loop_pow2_def by (blast intro: and_pow2)

lemma reduces_at:
  assumes "reduces lp n" "n \<le> 2147483648" "s < n" "i < n"
  shows "lp (u32 (s + i)) n = (s + i) mod n"
  using assms by (simp add: reduces_def)

subsection \<open>Lookup\<close>

lemma find_key_from_SomeD:
  assumes lp: "reduces lp n" and n: "0 < n"
  shows "find_key_from lp eq m keyp h n s i = Some x \<Longrightarrow>
    x < n \<and> busy m x \<and> k_hashes m ! x = h \<and> eq (keyps m ! x) keyp"
proof (induction "n - i" arbitrary: i rule: less_induct)
  case less
  let ?j = "lp (u32 (s + i)) n"
  have j: "?j < n" using lp n by (simp add: reduces_def)
  from less.prems have i: "i < n"
    and r: "busy m ?j \<and> k_hashes m ! ?j = h \<and> eq (keyps m ! ?j) keyp \<and> x = ?j
       \<or> find_key_from lp eq m keyp h n s (Suc i) = Some x"
    by (subst (asm) find_key_from.simps, simp add: Let_def busy_def split: if_splits)+
  from r show ?case using less.hyps [of "Suc i"] i j by auto
qed

text \<open>
  The scan never gives up before the slot of a stored key: every slot it passes on the way is
  counted in its chain.
\<close>

lemma find_key_from_step:
  assumes "reduces lp n" "n \<le> 2147483648" "s < n" "i < n"
  shows "find_key_from lp eq m keyp h n s i =
    (let j = (s + i) mod n
     in if busy m j \<and> k_hashes m ! j = h
        then if eq (keyps m ! j) keyp then Some j else find_key_from lp eq m keyp h n s (Suc i)
        else if chns m ! j = 0 then None else find_key_from lp eq m keyp h n s (Suc i))"
  using assms(4) reduces_at [OF assms]
  by (subst find_key_from.simps) (simp add: Let_def busy_def)

lemma find_key_from_complete:
  assumes wf: "map_wf keyf hsh n m" and lp: "reduces lp n"
    and x: "x < n" "busy m x" "k_hashes m ! x = h" "eq (keyps m ! x) keyp"
    and "i \<le> off n (h mod n) x"
  shows "find_key_from lp eq m keyp h n (h mod n) i \<noteq> None"
  using assms(7)
proof (induction rule: inc_induct)
  case base
  have "off n (h mod n) x < n" using x off_less by simp
  then show ?case
    using x wf_simps [OF wf] by (simp add: find_key_from_step [OF lp] at_off)
next
  case (step i)
  let ?j = "(h mod n + i) mod n"
  have s: "h mod n < n" and i: "i < n" using step x off_less [of n "h mod n" x] by auto
  have "x \<in> passing n m ?j"
    using x step off_at [OF s i] by (simp add: passing_def home_def)
  then have "card (passing n m ?j) \<noteq> 0" by auto
  then have "chns m ! ?j \<noteq> 0" using map_wf_chn [OF wf, of ?j] s by simp
  then show ?case
    using step i s wf_simps [OF wf] by (simp add: find_key_from_step [OF lp] Let_def)
qed

lemma find_key_slot_of:
  assumes wf: "map_wf keyf hsh n m" and lp: "reduces lp n"
    and eq: "\<And>p. eq p keyp \<longleftrightarrow> keyf p = keyf keyp" and h: "h = hsh (keyf keyp)"
  shows "find_key lp eq m keyp h n = slot_of keyf n m (keyf keyp)"
proof (cases "find_key lp eq m keyp h n")
  case None
  have "lp h n = h mod n" using lp by (simp add: reduces_def)
  with None have None': "find_key_from lp eq m keyp h n (h mod n) 0 = None"
    by (simp add: find_key_def)
  have "\<not> (busy m x \<and> keyf (keyps m ! x) = keyf keyp)" if x: "x < n" for x
  proof
    assume b: "busy m x \<and> keyf (keyps m ! x) = keyf keyp"
    then have kh: "k_hashes m ! x = h" using map_wf_hash [OF wf x] h by simp
    have e: "eq (keyps m ! x) keyp" using b eq by simp
    show False
      using find_key_from_complete [where keyp = keyp and eq = eq and i = 0,
          OF wf lp x conjunct1 [OF b] kh] e None' by simp
  qed
  then have "slot_of keyf n m (keyf keyp) = None" by (auto simp: slot_of_None)
  then show ?thesis using None by simp
next
  case (Some x)
  then have "find_key_from lp eq m keyp h n (lp h n) 0 = Some x"
    by (simp add: find_key_def)
  from find_key_from_SomeD [OF lp wf_simps(1) [OF wf] this] show ?thesis using Some slot_of_eq [OF wf, of x "keyf keyp"] eq by simp
qed

lemma map_impl_get_contents:
  assumes "map_wf keyf hsh n m" "reduces lp n"
    and "\<And>p. eq p keyp \<longleftrightarrow> keyf p = keyf keyp" "h = hsh (keyf keyp)"
  shows "map_impl_get lp eq m keyp h n = contents keyf n m (keyf keyp)"
  using find_key_slot_of [OF assms(1,2), where eq = eq, OF assms(3,4)]
  by (simp add: map_impl_get_def contents_def split: option.splits)

subsection \<open>Insertion and removal\<close>

text \<open>
  Both walk the probe path and change the chain counts on it by \<open>d\<close>; \<open>bump\<close> is the whole
  effect of the walk from offset \<open>i\<close> to the slot \<open>x\<close>.
\<close>

definition bump :: "int \<Rightarrow> nat \<Rightarrow> nat \<Rightarrow> nat \<Rightarrow> nat \<Rightarrow> int list \<Rightarrow> int list" where
  "bump d n s x i cs =
     map (\<lambda>j. cs ! j + (if i \<le> off n s j \<and> off n s j < off n s x then d else 0)) [0..<n]"

lemma length_bump [simp]: "length (bump d n s x i cs) = n"
  by (simp add: bump_def)

lemma nth_bump: "j < n \<Longrightarrow>
  bump d n s x i cs ! j = cs ! j + (if i \<le> off n s j \<and> off n s j < off n s x then d else 0)"
  by (simp add: bump_def)

lemma bump_base: "length cs = n \<Longrightarrow> bump d n s x (off n s x) cs = cs"
  by (auto simp: bump_def intro: nth_equalityI)

lemma bump_step:
  assumes "length cs = n" "s < n" "i < off n s x" "x < n"
  shows "bump d n s x (Suc i) (cs[(s + i) mod n := cs ! ((s + i) mod n) + d]) =
    bump d n s x i cs"
proof (rule nth_equalityI)
  have i: "i < n" using assms off_less [of n s x] by simp
  fix j assume "j < length (bump d n s x (Suc i) (cs[(s + i) mod n := cs ! ((s + i) mod n) + d]))"
  then have j: "j < n" by simp
  have at: "(s + i) mod n = j \<longleftrightarrow> off n s j = i"
    using ring_unique assms i j by blast
  show "bump d n s x (Suc i) (cs[(s + i) mod n := cs ! ((s + i) mod n) + d]) ! j =
    bump d n s x i cs ! j"
  proof (cases "off n s j = i")
    case True
    then show ?thesis using j at assms by (simp add: nth_bump)
  next
    case False
    then show ?thesis using j at assms by (auto simp: nth_bump Suc_le_eq)
  qed
qed simp

lemma find_empty_spec:
  assumes lp: "reduces lp n" and n: "n \<le> 2147483648" "s < n"
    and x: "x < n" and i: "i \<le> off n s x"
  shows "\<not> busy m x \<Longrightarrow> length (chns m) = n \<Longrightarrow>
    \<forall>y<n. off n s y < off n s x \<longrightarrow> busy m y \<Longrightarrow>
    find_empty lp m s n i = (Some x, m\<lparr>chns := bump 1 n s x i (chns m)\<rparr>)"
  using i
proof (induction arbitrary: m rule: inc_induct)
  case base
  have "off n s x < n" using n off_less by simp
  moreover have "lp (u32 (s + off n s x)) n = x"
    using reduces_at [OF lp n calculation] at_off n x by simp
  ultimately show ?case
    using base by (subst find_empty.simps) (simp add: Let_def busy_def bump_base)
next
  case (step i)
  let ?j = "(s + i) mod n"
  let ?m = "m\<lparr>chns := (chns m)[?j := chns m ! ?j + 1]\<rparr>"
  have i: "i < n" using step off_less [of n s x] n by simp
  have j: "lp (u32 (s + i)) n = ?j" using reduces_at [OF lp n i] .
  have "off n s ?j = i" using off_at n i by blast
  then have "busy m ?j" using step n by simp
  then have "find_empty lp m s n i = find_empty lp ?m s n (Suc i)"
    using i j by (subst find_empty.simps) (simp add: Let_def busy_def)
  also have "\<dots> = (Some x, ?m\<lparr>chns := bump 1 n s x (Suc i) (chns ?m)\<rparr>)"
    using step by (intro step.IH) (simp_all add: busy_def)
  also have "\<dots> = (Some x, m\<lparr>chns := bump 1 n s x i (chns m)\<rparr>)"
    using bump_step [of "chns m" n s i x 1] step n x by simp
  finally show ?case .
qed

lemma find_key_remove_spec:
  assumes lp: "reduces lp n" and n: "n \<le> 2147483648" "s < n"
    and x: "x < n" and i: "i \<le> off n s x"
  shows "busy m x \<Longrightarrow> k_hashes m ! x = h \<Longrightarrow> eq (keyps m ! x) keyp \<Longrightarrow> length (chns m) = n \<Longrightarrow>
    \<forall>y<n. y \<noteq> x \<longrightarrow> busy m y \<longrightarrow> \<not> eq (keyps m ! y) keyp \<Longrightarrow>
    find_key_remove_from lp eq m keyp h n s i =
      (Some (x, keyps m ! x),
       m\<lparr>chns := bump (- 1) n s x i (chns m), busybits := (busybits m)[x := 0]\<rparr>)"
  using i
proof (induction arbitrary: m rule: inc_induct)
  case base
  have "off n s x < n" using n off_less by simp
  moreover have "lp (u32 (s + off n s x)) n = x"
    using reduces_at [OF lp n calculation] at_off n x by simp
  ultimately show ?case
    using base by (subst find_key_remove_from.simps) (simp add: Let_def busy_def bump_base)
next
  case (step i)
  let ?j = "(s + i) mod n"
  let ?m = "m\<lparr>chns := (chns m)[?j := chns m ! ?j - 1]\<rparr>"
  have i: "i < n" using step off_less [of n s x] n by simp
  have j: "lp (u32 (s + i)) n = ?j" using reduces_at [OF lp n i] .
  have "off n s ?j = i" using off_at n i by blast
  then have "?j \<noteq> x" using step by auto
  then have "\<not> (busy m ?j \<and> k_hashes m ! ?j = h \<and> eq (keyps m ! ?j) keyp)" using step n by simp
  then have "find_key_remove_from lp eq m keyp h n s i =
      find_key_remove_from lp eq ?m keyp h n s (Suc i)"
    using i j by (subst find_key_remove_from.simps) (auto simp add: Let_def busy_def)
  also have "\<dots> = (Some (x, keyps ?m ! x),
      ?m\<lparr>chns := bump (- 1) n s x (Suc i) (chns ?m), busybits := (busybits ?m)[x := 0]\<rparr>)"
    using step by (intro step.IH) (simp_all add: busy_def)
  also have "\<dots> = (Some (x, keyps m ! x),
      m\<lparr>chns := bump (- 1) n s x i (chns m), busybits := (busybits m)[x := 0]\<rparr>)"
    using bump_step [of "chns m" n s i x "- 1"] step n x by simp
  finally show ?case .
qed

text \<open>The arrays after a key has been stored in slot \<open>x\<close>, and after slot \<open>x\<close> has been cleared.\<close>

definition stored :: "nat \<Rightarrow> nat \<Rightarrow> 'p \<Rightarrow> nat \<Rightarrow> int \<Rightarrow> 'p map_arrays \<Rightarrow> 'p map_arrays" where
  "stored n x keyp h v m = m\<lparr>chns := bump 1 n (h mod n) x 0 (chns m),
     busybits := (busybits m)[x := 1], keyps := (keyps m)[x := keyp],
     k_hashes := (k_hashes m)[x := h], vals := (vals m)[x := v]\<rparr>"

definition cleared :: "nat \<Rightarrow> nat \<Rightarrow> nat \<Rightarrow> 'p map_arrays \<Rightarrow> 'p map_arrays" where
  "cleared n x h m = m\<lparr>chns := bump (- 1) n (h mod n) x 0 (chns m),
     busybits := (busybits m)[x := 0]\<rparr>"

lemma stored_simps:
  assumes "map_wf keyf hsh n m" "x < n" "i < n"
  shows "busy (stored n x keyp h v m) i \<longleftrightarrow> i = x \<or> busy m i"
    and "keyps (stored n x keyp h v m) ! i = (if i = x then keyp else keyps m ! i)"
    and "k_hashes (stored n x keyp h v m) ! i = (if i = x then h else k_hashes m ! i)"
    and "vals (stored n x keyp h v m) ! i = (if i = x then v else vals m ! i)"
    and "home n (stored n x keyp h v m) i = (if i = x then h mod n else home n m i)"
  using assms by (auto simp: stored_def busy_def home_def nth_list_update wf_simps)

lemma cleared_simps:
  assumes "map_wf keyf hsh n m" "x < n" "i < n"
  shows "busy (cleared n x h m) i \<longleftrightarrow> i \<noteq> x \<and> busy m i"
    and "keyps (cleared n x h m) = keyps m"
    and "k_hashes (cleared n x h m) = k_hashes m"
    and "vals (cleared n x h m) = vals m"
    and "home n (cleared n x h m) i = home n m i"
  using assms by (auto simp: cleared_def busy_def home_def nth_list_update wf_simps)

lemma passing_stored:
  assumes wf: "map_wf keyf hsh n m" and x: "x < n" "\<not> busy m x"
  shows "passing n (stored n x keyp h v m) j =
    (if off n (h mod n) j < off n (h mod n) x then insert x (passing n m j) else passing n m j)"
  using x by (auto simp: passing_def stored_simps [OF wf] split: if_splits)

lemma passing_cleared:
  assumes wf: "map_wf keyf hsh n m" and x: "x < n"
  shows "passing n (cleared n x h m) j = passing n m j - {x}"
  using x by (auto simp: passing_def cleared_simps [OF wf])

lemma stored_wf:
  assumes wf: "map_wf keyf hsh n m" and x: "x < n" "\<not> busy m x"
    and k: "slot_of keyf n m (keyf keyp) = None" and h: "h = hsh (keyf keyp)"
  shows "map_wf keyf hsh n (stored n x keyp h v m)"
proof -
  let ?m = "stored n x keyp h v m"
  have "chns ?m ! j = int (card (passing n ?m j))" if j: "j < n" for j
  proof -
    have "x \<notin> passing n m j" using x by (simp add: passing_def)
    then show ?thesis
      using j map_wf_chn [OF wf j] passing_stored [OF wf x]
      by (simp add: stored_def nth_bump)
  qed
  moreover have "i = j" if "i < n" "j < n" "busy ?m i" "busy ?m j"
    "keyf (keyps ?m ! i) = keyf (keyps ?m ! j)" for i j
    using that k map_wf_inj [OF wf, of i j]
    by (auto simp: stored_simps [OF wf x(1)] slot_of_None split: if_splits)
  moreover have "k_hashes ?m ! i = hsh (keyf (keyps ?m ! i))" if "i < n" "busy ?m i" for i
    using that map_wf_hash [OF wf, of i] h by (auto simp: stored_simps [OF wf x(1)])
  ultimately show ?thesis
    using wf_simps [OF wf] by (auto simp: map_wf_def stored_def)
qed

lemma stored_contents:
  assumes wf: "map_wf keyf hsh n m" and x: "x < n" "\<not> busy m x"
    and k: "slot_of keyf n m (keyf keyp) = None" and h: "h = hsh (keyf keyp)"
  shows "contents keyf n (stored n x keyp h v m) = (contents keyf n m)(keyf keyp \<mapsto> v)"
proof
  fix q
  let ?m = "stored n x keyp h v m"
  note wf' = stored_wf [OF wf x k h, of v]
  show "contents keyf n ?m q = ((contents keyf n m)(keyf keyp \<mapsto> v)) q"
  proof (cases "q = keyf keyp")
    case True
    then have "slot_of keyf n ?m q = Some x"
      using x by (intro slot_of_eq [OF wf']) (auto simp: stored_simps [OF wf x(1)])
    then show ?thesis using True x by (simp add: contents_def stored_simps [OF wf x(1)])
  next
    case q: False
    show ?thesis
    proof (cases "slot_of keyf n m q")
      case None
      then have "slot_of keyf n ?m q = None"
        using q by (auto simp: slot_of_None stored_simps [OF wf x(1)])
      then show ?thesis using None q by (simp add: contents_def)
    next
      case (Some i)
      then have i: "i < n" "busy m i" "keyf (keyps m ! i) = q" "i \<noteq> x"
        using slot_of_SomeD [OF Some] x by auto
      then have "slot_of keyf n ?m q = Some i"
        by (intro slot_of_eq [OF wf']) (auto simp: stored_simps [OF wf x(1)])
      then show ?thesis using Some q i by (simp add: contents_def stored_simps [OF wf x(1)])
    qed
  qed
qed

lemma cleared_wf:
  assumes wf: "map_wf keyf hsh n m" and x: "x < n" "busy m x" and h: "h = k_hashes m ! x"
  shows "map_wf keyf hsh n (cleared n x h m)"
proof -
  let ?m = "cleared n x h m"
  have "chns ?m ! j = int (card (passing n ?m j))" if j: "j < n" for j
  proof -
    have "x \<in> passing n m j \<longleftrightarrow> off n (h mod n) j < off n (h mod n) x"
      using x h by (simp add: passing_def home_def)
    then show ?thesis
      using j map_wf_chn [OF wf j] passing_cleared [OF wf x(1)] card_gt_0_iff [of "passing n m j"]
      by (auto simp: cleared_def nth_bump card_Diff_singleton_if of_nat_diff)
  qed
  moreover have "i = j" if "i < n" "j < n" "busy ?m i" "busy ?m j"
    "keyf (keyps ?m ! i) = keyf (keyps ?m ! j)" for i j
    using that map_wf_inj [OF wf, of i j] by (auto simp: cleared_simps [OF wf x(1)])
  moreover have "k_hashes ?m ! i = hsh (keyf (keyps ?m ! i))" if "i < n" "busy ?m i" for i
    using that map_wf_hash [OF wf, of i] by (auto simp: cleared_simps [OF wf x(1)])
  ultimately show ?thesis
    using wf_simps [OF wf] by (auto simp: map_wf_def cleared_def)
qed

lemma cleared_contents:
  assumes wf: "map_wf keyf hsh n m" and x: "x < n" "busy m x" and h: "h = k_hashes m ! x"
  shows "contents keyf n (cleared n x h m) = (contents keyf n m)(keyf (keyps m ! x) := None)"
proof
  fix q
  let ?m = "cleared n x h m"
  note wf' = cleared_wf [OF wf x h]
  show "contents keyf n ?m q = ((contents keyf n m)(keyf (keyps m ! x) := None)) q"
  proof (cases "slot_of keyf n ?m q")
    case (Some i)
    then have i: "i < n" "busy m i" "keyf (keyps m ! i) = q" "i \<noteq> x"
      using slot_of_SomeD [OF Some] by (auto simp: cleared_simps [OF wf x(1)])
    then have "q \<noteq> keyf (keyps m ! x)" using map_wf_inj [OF wf, of i x] x by auto
    then show ?thesis
      using Some slot_of_eq [OF wf i(1-3)] cleared_simps(4) [OF wf x(1) i(1), of h]
      by (simp add: contents_def)
  next
    case None
    then have "slot_of keyf n m q = None \<or> q = keyf (keyps m ! x)"
      by (auto simp: slot_of_None cleared_simps [OF wf x(1)])
    then show ?thesis using None by (auto simp: contents_def)
  qed
qed

lemma first_free:
  assumes "s < n" "\<exists>x<n. \<not> busy m x"
  obtains x where "x < n" "\<not> busy m x" "\<forall>y<n. off n s y < off n s x \<longrightarrow> busy m y"
proof -
  obtain x where "x < n \<and> \<not> busy m x" "\<forall>y. y < n \<and> \<not> busy m y \<longrightarrow> off n s x \<le> off n s y"
    using ex_has_least_nat [of "\<lambda>x. x < n \<and> \<not> busy m x" _ "off n s"] assms(2) by metis
  moreover from this have "\<forall>y<n. off n s y < off n s x \<longrightarrow> busy m y" by (meson leD)
  ultimately show thesis using that by blast
qed

lemma map_impl_put_stored:
  assumes wf: "map_wf keyf hsh n m" and lp: "reduces lp n" and free: "\<exists>x<n. \<not> busy m x"
  obtains x where "x < n" "\<not> busy m x" "map_impl_put lp m keyp h v n = Some (stored n x keyp h v m)"
proof -
  have n: "n \<le> 2147483648" and s: "h mod n < n" using wf_simps [OF wf] by auto
  obtain x where x: "x < n" "\<not> busy m x" "\<forall>y<n. off n (h mod n) y < off n (h mod n) x \<longrightarrow> busy m y"
    using first_free [OF s free] .
  have st: "lp h n = h mod n" using lp by (simp add: reduces_def)
  have "find_empty lp m (lp h n) n 0 = (Some x, m\<lparr>chns := bump 1 n (h mod n) x 0 (chns m)\<rparr>)"
    using find_empty_spec [OF lp n s x(1) _ x(2) _ x(3), of 0] wf_simps [OF wf] st by simp
  then show thesis
    using that [OF x(1,2)] by (simp add: map_impl_put_def stored_def)
qed

lemma map_impl_erase_cleared:
  assumes wf: "map_wf keyf hsh n m" and lp: "reduces lp n"
    and eq: "\<And>p. eq p keyp \<longleftrightarrow> keyf p = keyf keyp" and h: "h = hsh (keyf keyp)"
    and x: "slot_of keyf n m (keyf keyp) = Some x"
  shows "map_impl_erase lp eq m keyp h n = (Some (keyps m ! x), cleared n x h m)"
proof -
  have n: "n \<le> 2147483648" and s: "h mod n < n" using wf_simps [OF wf] by auto
  have x': "x < n" "busy m x" "keyf (keyps m ! x) = keyf keyp" using slot_of_SomeD [OF x] by auto
  have kh: "k_hashes m ! x = h" using map_wf_hash [OF wf x'(1,2)] x' h by simp
  have st: "lp h n = h mod n" using lp by (simp add: reduces_def)
  have others: "\<forall>y<n. y \<noteq> x \<longrightarrow> busy m y \<longrightarrow> \<not> eq (keyps m ! y) keyp"
    unfolding eq using map_wf_inj [OF wf _ x'(1) _ x'(2)] x'(3) by metis
  have "find_key_remove_from lp eq m keyp h n (h mod n) 0 =
    (Some (x, keyps m ! x),
     m\<lparr>chns := bump (- 1) n (h mod n) x 0 (chns m), busybits := (busybits m)[x := 0]\<rparr>)"
    using find_key_remove_spec [where eq = eq and keyp = keyp and i = 0 and m = m,
        OF lp n s x'(1) _ x'(2) kh] x' eq others wf_simps [OF wf] by simp
  then show ?thesis
    by (simp add: map_impl_erase_def find_key_remove_chain_def st cleared_def)
qed

subsection \<open>Initialisation and size\<close>

lemma map_impl_init_eq:
  assumes "length (busybits m) = n" "length (chns m) = n" "i \<le> n"
  shows "map_impl_init m n i = m\<lparr>busybits := take i (busybits m) @ replicate (n - i) 0,
    chns := take i (chns m) @ replicate (n - i) 0\<rparr>"
  using assms(3,1,2)
proof (induction arbitrary: m rule: inc_induct)
  case base
  then show ?case by (subst map_impl_init.simps) simp
next
  case (step i)
  let ?m = "m\<lparr>busybits := (busybits m)[i := 0], chns := (chns m)[i := 0]\<rparr>"
  have "map_impl_init m n i = map_impl_init ?m n (Suc i)"
    using step by (subst map_impl_init.simps) simp
  also have "\<dots> = ?m\<lparr>busybits := take (Suc i) (busybits ?m) @ replicate (n - Suc i) 0,
    chns := take (Suc i) (chns ?m) @ replicate (n - Suc i) 0\<rparr>"
    using step by (intro step.IH) simp_all
  finally show ?case
    using step replicate_Suc [of "n - Suc i" "0 :: int"]
    by (simp add: take_Suc_conv_app_nth Suc_diff_Suc del: replicate_Suc)
qed

lemma map_impl_init_wf:
  assumes "0 < n" "n \<le> 2147483648" "length (busybits m) = n" "length (keyps m) = n"
    "length (k_hashes m) = n" "length (chns m) = n" "length (vals m) = n"
  shows "map_wf keyf hsh n (map_impl_init m n 0)"
    and "contents keyf n (map_impl_init m n 0) = Map.empty"
proof -
  have eq: "map_impl_init m n 0 = m\<lparr>busybits := replicate n 0, chns := replicate n 0\<rparr>"
    using map_impl_init_eq [of m n 0] assms by simp
  then have nb: "\<not> busy (map_impl_init m n 0) i" if "i < n" for i
    using that by (simp add: busy_def)
  then have "passing n (map_impl_init m n 0) j = {}" for j by (auto simp: passing_def)
  then show "map_wf keyf hsh n (map_impl_init m n 0)"
    using assms nb by (simp add: map_wf_def) (simp add: eq)
  have "slot_of keyf n (map_impl_init m n 0) k = None" for k
    using nb by (simp add: slot_of_None)
  then show "contents keyf n (map_impl_init m n 0) = Map.empty"
    by (auto simp: contents_def)
qed

lemma map_impl_size_eq: "i \<le> n \<Longrightarrow> map_impl_size m n i s = s + card {j. i \<le> j \<and> j < n \<and> busy m j}"
proof (induction arbitrary: s rule: inc_induct)
  case base
  have "{j. n \<le> j \<and> j < n \<and> busy m j} = {}" by auto
  then show ?case by (subst map_impl_size.simps) simp
next
  case (step i)
  have "{j. i \<le> j \<and> j < n \<and> busy m j} =
      (if busy m i then insert i {j. Suc i \<le> j \<and> j < n \<and> busy m j}
       else {j. Suc i \<le> j \<and> j < n \<and> busy m j})"
    using step by (auto simp: Suc_le_eq le_less)
  moreover have "finite {j. Suc i \<le> j \<and> j < n \<and> busy m j}" by simp
  ultimately show ?case
    using step by (subst map_impl_size.simps) (simp add: busy_def)
qed

lemma dom_contents: "dom (contents keyf n m) = (\<lambda>i. keyf (keyps m ! i)) ` {i. i < n \<and> busy m i}"
proof -
  have "k \<notin> dom (contents keyf n m) \<longleftrightarrow> (\<forall>i<n. busy m i \<longrightarrow> keyf (keyps m ! i) \<noteq> k)" for k
    by (auto simp add: contents_def domIff slot_of_None)
  then show ?thesis by blast
qed

lemma card_dom_contents:
  assumes "map_wf keyf hsh n m"
  shows "card (dom (contents keyf n m)) = card {i. i < n \<and> busy m i}"
  unfolding dom_contents
  by (rule card_image) (auto simp: inj_on_def intro: map_wf_inj [OF assms])

lemma map_impl_size_contents:
  "map_wf keyf hsh n m \<Longrightarrow> map_impl_size m n 0 0 = card (dom (contents keyf n m))"
  by (simp add: map_impl_size_eq card_dom_contents)

lemma free_slot:
  assumes "map_wf keyf hsh n m" "card (dom (contents keyf n m)) < n"
  shows "\<exists>x<n. \<not> busy m x"
proof (rule ccontr)
  assume "\<not> ?thesis"
  then have "{i. i < n \<and> busy m i} = {..<n}" by auto
  then show False using card_dom_contents [OF assms(1)] assms(2) by simp
qed

end
