(* ===== verification/Map_Api.thy ===== *)
theory Map_Api
  imports Map_Impl
begin

section \<open>struct Map: map.c\<close>

text \<open>
  The map the network function sees: the five arrays with a capacity, a size and the two
  function pointers. What a key pointer points to depends on the memory at the time of the call,
  so the function pointers take a memory \<open>'mem\<close>. Allocation takes the five arrays that
  \<^verbatim>\<open>malloc\<close> returned (contents unspecified), or \<open>None\<close> when one of the calls returned NULL.

  The locale \<open>index_map\<close> is the contract the clients rely on (flow manager, double map,
  expirator); it is interpreted on \<open>struct Map\<close> at the end of this theory.
\<close>

record ('mem, 'p) hmap =
  arrays :: "'p map_arrays"
  capacity :: nat
  msize :: nat
  keys_eq :: "'mem \<Rightarrow> 'p \<Rightarrow> 'p \<Rightarrow> bool"
  khash :: "'mem \<Rightarrow> 'p \<Rightarrow> nat"

definition map_allocate ::
  "('mem \<Rightarrow> 'p \<Rightarrow> 'p \<Rightarrow> bool) \<Rightarrow> ('mem \<Rightarrow> 'p \<Rightarrow> nat) \<Rightarrow> nat \<Rightarrow> 'p map_arrays option
    \<Rightarrow> ('mem, 'p) hmap option" where
  "map_allocate keq kh cap fresh =
     (case fresh of
        None \<Rightarrow> None
      | Some m \<Rightarrow> Some \<lparr>arrays = map_impl_init m cap 0, capacity = cap, msize = 0,
                        keys_eq = keq, khash = kh\<rparr>)"

definition map_get :: "'mem \<Rightarrow> ('mem, 'p) hmap \<Rightarrow> 'p \<Rightarrow> int option" where
  "map_get mem mp key =
     (let hash = khash mp mem key
      in map_impl_get loop (keys_eq mp mem) (arrays mp) key hash (capacity mp))"

definition map_put :: "'mem \<Rightarrow> ('mem, 'p) hmap \<Rightarrow> 'p \<Rightarrow> int \<Rightarrow> ('mem, 'p) hmap option" where
  "map_put mem mp key value =
     (let hash = khash mp mem key
      in case map_impl_put loop (arrays mp) key hash value (capacity mp) of
           None \<Rightarrow> None
         | Some m \<Rightarrow> Some (mp\<lparr>arrays := m, msize := u32 (msize mp + 1)\<rparr>))"

definition map_erase :: "'mem \<Rightarrow> ('mem, 'p) hmap \<Rightarrow> 'p \<Rightarrow> 'p option \<times> ('mem, 'p) hmap" where
  "map_erase mem mp key =
     (let hash = khash mp mem key
      in case map_impl_erase loop (keys_eq mp mem) (arrays mp) key hash (capacity mp) of
           (trash, m) \<Rightarrow> (trash, mp\<lparr>arrays := m, msize := u32 (msize mp + 2 ^ 32 - 1)\<rparr>))"

definition map_size :: "('mem, 'p) hmap \<Rightarrow> nat" where
  "map_size mp = msize mp"

subsection \<open>The variant with a power of two capacity\<close>

text \<open>
  \<^verbatim>\<open>map-impl-pow2.c\<close> (selected by \<open>CAPACITY_POW2\<close>) is the same code over
  \<open>loop_pow2\<close>, with a check of the capacity at allocation.
\<close>

definition map_allocate_pow2 ::
  "('mem \<Rightarrow> 'p \<Rightarrow> 'p \<Rightarrow> bool) \<Rightarrow> ('mem \<Rightarrow> 'p \<Rightarrow> nat) \<Rightarrow> nat \<Rightarrow> 'p map_arrays option
    \<Rightarrow> ('mem, 'p) hmap option" where
  "map_allocate_pow2 keq kh cap fresh =
     (if cap = 0 \<or> and cap (cap - 1) \<noteq> 0 then None else map_allocate keq kh cap fresh)"

definition find_key_pow2 ::
  "('p \<Rightarrow> 'p \<Rightarrow> bool) \<Rightarrow> 'p map_arrays \<Rightarrow> 'p \<Rightarrow> nat \<Rightarrow> nat \<Rightarrow> nat option" where
  "find_key_pow2 = find_key loop_pow2"

definition find_key_remove_chain_pow2 ::
  "('p \<Rightarrow> 'p \<Rightarrow> bool) \<Rightarrow> 'p map_arrays \<Rightarrow> 'p \<Rightarrow> nat \<Rightarrow> nat \<Rightarrow> (nat \<times> 'p) option \<times> 'p map_arrays" where
  "find_key_remove_chain_pow2 = find_key_remove_chain loop_pow2"

definition find_empty_pow2 ::
  "'p map_arrays \<Rightarrow> nat \<Rightarrow> nat \<Rightarrow> nat \<Rightarrow> nat option \<times> 'p map_arrays" where
  "find_empty_pow2 = find_empty loop_pow2"

definition map_impl_get_pow2 ::
  "('p \<Rightarrow> 'p \<Rightarrow> bool) \<Rightarrow> 'p map_arrays \<Rightarrow> 'p \<Rightarrow> nat \<Rightarrow> nat \<Rightarrow> int option" where
  "map_impl_get_pow2 eq m keyp hash cap =
     (case find_key_pow2 eq m keyp hash cap of
        None \<Rightarrow> None
      | Some index \<Rightarrow> Some (vals m ! index))"

definition map_impl_put_pow2 ::
  "'p map_arrays \<Rightarrow> 'p \<Rightarrow> nat \<Rightarrow> int \<Rightarrow> nat \<Rightarrow> 'p map_arrays option" where
  "map_impl_put_pow2 m keyp hash value cap =
     (let start = loop_pow2 hash cap
      in case find_empty_pow2 m start cap 0 of
           (None, m') \<Rightarrow> None
         | (Some index, m') \<Rightarrow>
             Some (m'\<lparr>busybits := (busybits m')[index := 1],
                      keyps := (keyps m')[index := keyp],
                      k_hashes := (k_hashes m')[index := hash],
                      vals := (vals m')[index := value]\<rparr>))"

definition map_impl_erase_pow2 ::
  "('p \<Rightarrow> 'p \<Rightarrow> bool) \<Rightarrow> 'p map_arrays \<Rightarrow> 'p \<Rightarrow> nat \<Rightarrow> nat \<Rightarrow> 'p option \<times> 'p map_arrays" where
  "map_impl_erase_pow2 eq m keyp hash cap =
     (case find_key_remove_chain_pow2 eq m keyp hash cap of
        (None, m') \<Rightarrow> (None, m')
      | (Some (index, keyp_out), m') \<Rightarrow> (Some keyp_out, m'))"

definition map_impl_init_pow2 :: "'p map_arrays \<Rightarrow> nat \<Rightarrow> nat \<Rightarrow> 'p map_arrays" where
  "map_impl_init_pow2 = map_impl_init"

definition map_impl_size_pow2 :: "'p map_arrays \<Rightarrow> nat \<Rightarrow> nat \<Rightarrow> nat \<Rightarrow> nat" where
  "map_impl_size_pow2 = map_impl_size"

text \<open>Over a power of two the two index reductions agree, and so do all routines.\<close>

lemma loop_pow2_eq_loop:
  assumes "e \<le> 31"
  shows "loop_pow2 k (2 ^ e) = loop k (2 ^ e)"
proof -
  have "(2::nat) ^ e \<le> 2 ^ 31" using assms by (intro power_increasing) auto
  then have "reduces loop (2 ^ e)" using loop_reduces by simp
  then show ?thesis using loop_pow2_reduces [of e] by (simp add: reduces_def)
qed

lemma find_key_from_cong:
  assumes "\<And>k. lp k n = lp' k n"
  shows "find_key_from lp eq m keyp h n s i = find_key_from lp' eq m keyp h n s i"
proof (induction "n - i" arbitrary: i rule: less_induct)
  case less
  show ?case
  proof (cases "i < n")
    case True
    then have "find_key_from lp eq m keyp h n s (Suc i) = find_key_from lp' eq m keyp h n s (Suc i)"
      using less.hyps [of "Suc i"] True by simp
    then show ?thesis
      using assms True by (simp add: Let_def find_key_from.simps [of _ eq m keyp h n s i])
  next
    case False
    then show ?thesis by (simp add: find_key_from.simps [of _ eq m keyp h n s i])
  qed
qed

lemma find_key_remove_from_cong:
  assumes "\<And>k. lp k n = lp' k n"
  shows "find_key_remove_from lp eq m keyp h n s i = find_key_remove_from lp' eq m keyp h n s i"
proof (induction "n - i" arbitrary: i m rule: less_induct)
  case less
  show ?case
  proof (cases "i < n")
    case True
    then have "find_key_remove_from lp eq m' keyp h n s (Suc i) =
      find_key_remove_from lp' eq m' keyp h n s (Suc i)" for m' using less.hyps [of "Suc i"] True by simp
    then show ?thesis
      using assms True by (simp add: Let_def find_key_remove_from.simps [of _ eq m keyp h n s i])
  next
    case False
    then show ?thesis by (simp add: find_key_remove_from.simps [of _ eq m keyp h n s i])
  qed
qed

lemma find_empty_cong:
  fixes m :: "'p map_arrays"
  assumes "\<And>k. lp k n = lp' k n"
  shows "find_empty lp m s n i = find_empty lp' m s n i"
proof (induction "n - i" arbitrary: i m rule: less_induct)
  case less
  show ?case
  proof (cases "i < n")
    case True
    then have "find_empty lp m' s n (Suc i) = find_empty lp' m' s n (Suc i)" for m' :: "'p map_arrays"
      by (intro less.hyps) simp
    then show ?thesis using assms True by (simp add: Let_def find_empty.simps [of _ m s n i])
  next
    case False
    then show ?thesis by (simp add: find_empty.simps [of _ m s n i])
  qed
qed

lemma map_impl_get_pow2_eq:
  assumes "e \<le> 31"
  shows "map_impl_get_pow2 eq m keyp h (2 ^ e) = map_impl_get loop eq m keyp h (2 ^ e)"
  by (simp add: loop_pow2_eq_loop [OF assms]
      find_key_from_cong [of loop_pow2 "2 ^ e" loop, OF loop_pow2_eq_loop [OF assms]]
      map_impl_get_pow2_def map_impl_get_def find_key_pow2_def find_key_def)

lemma map_impl_put_pow2_eq:
  assumes "e \<le> 31"
  shows "map_impl_put_pow2 m keyp h v (2 ^ e) = map_impl_put loop m keyp h v (2 ^ e)"
  by (simp add: loop_pow2_eq_loop [OF assms]
      find_empty_cong [of loop_pow2 "2 ^ e" loop, OF loop_pow2_eq_loop [OF assms]]
      map_impl_put_pow2_def map_impl_put_def find_empty_pow2_def)

lemma map_impl_erase_pow2_eq:
  assumes "e \<le> 31"
  shows "map_impl_erase_pow2 eq m keyp h (2 ^ e) = map_impl_erase loop eq m keyp h (2 ^ e)"
  by (simp add: loop_pow2_eq_loop [OF assms]
      find_key_remove_from_cong [of loop_pow2 "2 ^ e" loop, OF loop_pow2_eq_loop [OF assms]]
      map_impl_erase_pow2_def map_impl_erase_def find_key_remove_chain_pow2_def
      find_key_remove_chain_def)

subsection \<open>The contract of the map\<close>

text \<open>A client's sequence of insertions and removals, over any provider and over the specification.\<close>

datatype 'p map_op = Put 'p int | Erase 'p

fun run_ops :: "('m \<Rightarrow> 'p \<Rightarrow> int \<Rightarrow> 'm option) \<Rightarrow> ('m \<Rightarrow> 'p \<Rightarrow> 'p option \<times> 'm) \<Rightarrow> 'p map_op list
    \<Rightarrow> 'm \<Rightarrow> 'm option" where
  "run_ops put erase [] m = Some m"
| "run_ops put erase (Put p v # ops) m =
     (case put m p v of None \<Rightarrow> None | Some m' \<Rightarrow> run_ops put erase ops m')"
| "run_ops put erase (Erase p # ops) m = run_ops put erase ops (snd (erase m p))"

fun spec_ops :: "('p \<Rightarrow> 'k) \<Rightarrow> nat \<Rightarrow> 'p map_op list \<Rightarrow> ('k \<Rightarrow> int option) \<Rightarrow> ('k \<Rightarrow> int option) option"
  where
  "spec_ops key cap [] f = Some f"
| "spec_ops key cap (Put p v # ops) f =
     (if f (key p) = None \<and> card (dom f) < cap then spec_ops key cap ops (f(key p \<mapsto> v)) else None)"
| "spec_ops key cap (Erase p # ops) f =
     (if f (key p) \<noteq> None then spec_ops key cap ops (f(key p := None)) else None)"

locale index_map =
  fixes wf :: "'m \<Rightarrow> bool" and abs :: "'m \<Rightarrow> 'k \<Rightarrow> int option" and cap :: "'m \<Rightarrow> nat"
    and key :: "'p \<Rightarrow> 'k"
    and get :: "'m \<Rightarrow> 'p \<Rightarrow> int option"
    and put :: "'m \<Rightarrow> 'p \<Rightarrow> int \<Rightarrow> 'm option"
    and erase :: "'m \<Rightarrow> 'p \<Rightarrow> 'p option \<times> 'm"
    and size :: "'m \<Rightarrow> nat"
  assumes get_abs: "wf m \<Longrightarrow> get m p = abs m (key p)"
    and put_abs: "wf m \<Longrightarrow> abs m (key p) = None \<Longrightarrow> card (dom (abs m)) < cap m \<Longrightarrow>
      \<exists>m'. put m p v = Some m' \<and> wf m' \<and> abs m' = (abs m)(key p \<mapsto> v) \<and> cap m' = cap m"
    and erase_abs: "wf m \<Longrightarrow> abs m (key p) \<noteq> None \<Longrightarrow>
      \<exists>q m'. erase m p = (Some q, m') \<and> key q = key p \<and> wf m' \<and>
        abs m' = (abs m)(key p := None) \<and> cap m' = cap m"
    and size_abs: "wf m \<Longrightarrow> size m = card (dom (abs m)) \<and> finite (dom (abs m)) \<and> size m \<le> cap m"
begin

lemma put_get:
  assumes "wf m" "abs m (key p) = None" "size m < cap m"
  shows "\<exists>m'. put m p v = Some m' \<and> get m' p = Some v \<and> size m' = size m + 1 \<and>
    (\<forall>q. key q \<noteq> key p \<longrightarrow> get m' q = get m q)"
  using put_abs [of m p v] assms size_abs get_abs by (fastforce simp: domIff)

lemma put_erase:
  assumes "wf m" "abs m (key p) = None" "size m < cap m" "put m p v = Some m'"
  shows "abs (snd (erase m' p)) = abs m \<and> wf (snd (erase m' p))"
  using put_abs [of m p v] erase_abs [of m' p] assms size_abs [of m] by fastforce

lemma erase_get:
  assumes "wf m" "abs m (key p) \<noteq> None"
  shows "get (snd (erase m p)) p = None \<and> size (snd (erase m p)) + 1 = size m"
proof -
  obtain q m' where m': "erase m p = (Some q, m')" "wf m'" "abs m' = (abs m)(key p := None)"
    using erase_abs assms by blast
  have "card (dom (abs m) - {key p}) + 1 = card (dom (abs m))"
    using size_abs [OF assms(1)] assms(2) card_Suc_Diff1 [of "dom (abs m)" "key p"]
    by (simp add: domIff)
  then show ?thesis
    using m' get_abs [OF m'(2)] size_abs [OF m'(2)] size_abs [OF assms(1)] by simp
qed

lemma run_refines:
  "wf m \<Longrightarrow> spec_ops key (cap m) ops (abs m) = Some f \<Longrightarrow>
   \<exists>m'. run_ops put erase ops m = Some m' \<and> wf m' \<and> abs m' = f \<and> cap m' = cap m"
proof (induction ops arbitrary: m)
  case Nil
  then show ?case by simp
next
  case (Cons a ops)
  show ?case
  proof (cases a)
    case (Put p v)
    then have pre: "abs m (key p) = None" "card (dom (abs m)) < cap m"
      and sp: "spec_ops key (cap m) ops ((abs m)(key p \<mapsto> v)) = Some f"
      using Cons.prems by (simp_all split: if_splits)
    obtain m' where m': "put m p v = Some m'" "wf m'" "abs m' = (abs m)(key p \<mapsto> v)" "cap m' = cap m"
      using put_abs [OF Cons.prems(1) pre] by blast
    have "spec_ops key (cap m') ops (abs m') = Some f" by (simp only: m' sp)
    then have "\<exists>m''. run_ops put erase ops m' = Some m'' \<and> wf m'' \<and> abs m'' = f \<and> cap m'' = cap m'"
      by (rule Cons.IH [OF m'(2)])
    then show ?thesis using Put m' by simp
  next
    case (Erase p)
    then have pre: "abs m (key p) \<noteq> None"
      and sp: "spec_ops key (cap m) ops ((abs m)(key p := None)) = Some f"
      using Cons.prems by (simp_all split: if_splits)
    obtain q m' where m': "erase m p = (Some q, m')" "wf m'" "abs m' = (abs m)(key p := None)"
      "cap m' = cap m"
      using erase_abs [OF Cons.prems(1) pre] by blast
    have "spec_ops key (cap m') ops (abs m') = Some f" by (simp only: m' sp)
    then have "\<exists>m''. run_ops put erase ops m' = Some m'' \<and> wf m'' \<and> abs m'' = f \<and> cap m'' = cap m'"
      by (rule Cons.IH [OF m'(2)])
    then show ?thesis using Erase m' by simp
  qed
qed

end

subsection \<open>struct Map provides the contract\<close>

definition hmap_abs :: "('mem \<Rightarrow> 'p \<Rightarrow> 'k) \<Rightarrow> 'mem \<Rightarrow> ('mem, 'p) hmap \<Rightarrow> 'k \<Rightarrow> int option" where
  "hmap_abs keyf mem mp = contents (keyf mem) (capacity mp) (arrays mp)"

definition hmap_wf ::
  "('mem \<Rightarrow> 'p \<Rightarrow> 'k) \<Rightarrow> ('k \<Rightarrow> nat) \<Rightarrow> 'mem \<Rightarrow> ('mem, 'p) hmap \<Rightarrow> bool" where
  "hmap_wf keyf hsh mem mp \<longleftrightarrow>
     map_wf (keyf mem) hsh (capacity mp) (arrays mp) \<and>
     (\<forall>p q. keys_eq mp mem p q \<longleftrightarrow> keyf mem p = keyf mem q) \<and>
     (\<forall>p. khash mp mem p = hsh (keyf mem p)) \<and>
     msize mp = card (dom (hmap_abs keyf mem mp))"

lemma hmap_card_le:
  assumes "hmap_wf keyf hsh mem mp"
  shows "finite (dom (hmap_abs keyf mem mp))" "msize mp \<le> capacity mp" "capacity mp \<le> 2147483648"
proof -
  have wf: "map_wf (keyf mem) hsh (capacity mp) (arrays mp)" using assms by (simp add: hmap_wf_def)
  show "finite (dom (hmap_abs keyf mem mp))" by (simp add: hmap_abs_def dom_contents)
  have "card {i. i < capacity mp \<and> busy (arrays mp) i} \<le> card {..<capacity mp}"
    by (intro card_mono) auto
  then show "msize mp \<le> capacity mp"
    using assms card_dom_contents [OF wf] by (simp add: hmap_wf_def hmap_abs_def)
  show "capacity mp \<le> 2147483648" using wf by (rule wf_simps)
qed

lemma hmap_reduces: "hmap_wf keyf hsh mem mp \<Longrightarrow> reduces loop (capacity mp)"
  by (rule loop_reduces) (auto simp: hmap_wf_def wf_simps)

lemma map_put_some:
  assumes wf: "hmap_wf keyf hsh mem mp" and c: "card (dom (hmap_abs keyf mem mp)) < capacity mp"
  shows "\<exists>mp'. map_put mem mp p v = Some mp'"
proof -
  have m: "map_wf (keyf mem) hsh (capacity mp) (arrays mp)" using wf by (auto simp: hmap_wf_def)
  obtain x where "map_impl_put loop (arrays mp) p (khash mp mem p) v (capacity mp) =
      Some (stored (capacity mp) x p (khash mp mem p) v (arrays mp))"
    using map_impl_put_stored [OF m hmap_reduces [OF wf] free_slot [OF m]] c unfolding hmap_abs_def by blast
  then show ?thesis by (simp add: map_put_def)
qed

lemma map_put_abs:
  assumes wf: "hmap_wf keyf hsh mem mp" and k: "hmap_abs keyf mem mp (keyf mem p) = None"
    and c: "card (dom (hmap_abs keyf mem mp)) < capacity mp"
  shows "\<exists>mp'. map_put mem mp p v = Some mp' \<and> hmap_wf keyf hsh mem mp' \<and>
    hmap_abs keyf mem mp' = (hmap_abs keyf mem mp)(keyf mem p \<mapsto> v) \<and> capacity mp' = capacity mp"
proof -
  let ?n = "capacity mp" and ?h = "khash mp mem p"
  have m: "map_wf (keyf mem) hsh ?n (arrays mp)" and h: "?h = hsh (keyf mem p)"
    and sz: "msize mp = card (dom (hmap_abs keyf mem mp))"
    using wf by (auto simp: hmap_wf_def)
  have k': "slot_of (keyf mem) ?n (arrays mp) (keyf mem p) = None"
    using k by (simp add: hmap_abs_def contents_def)
  obtain x where x: "x < ?n" "\<not> busy (arrays mp) x"
    and put: "map_impl_put loop (arrays mp) p ?h v ?n = Some (stored ?n x p ?h v (arrays mp))"
    using map_impl_put_stored [OF m hmap_reduces [OF wf] free_slot [OF m]] c
    unfolding hmap_abs_def by blast
  let ?mp = "mp\<lparr>arrays := stored ?n x p ?h v (arrays mp), msize := u32 (msize mp + 1)\<rparr>"
  have "map_put mem mp p v = Some ?mp" using put by (simp add: map_put_def)
  moreover have abs: "hmap_abs keyf mem ?mp = (hmap_abs keyf mem mp)(keyf mem p \<mapsto> v)"
    using stored_contents [OF m x k' h] by (simp add: hmap_abs_def)
  moreover have "hmap_wf keyf hsh mem ?mp"
    using stored_wf [OF m x k' h] wf abs k sz c hmap_card_le [OF wf]
    by (simp add: hmap_wf_def domIff)
  ultimately show ?thesis by auto
qed

lemma map_erase_abs:
  assumes wf: "hmap_wf keyf hsh mem mp" and k: "hmap_abs keyf mem mp (keyf mem p) \<noteq> None"
  shows "\<exists>q mp'. map_erase mem mp p = (Some q, mp') \<and> keyf mem q = keyf mem p \<and>
    hmap_wf keyf hsh mem mp' \<and>
    hmap_abs keyf mem mp' = (hmap_abs keyf mem mp)(keyf mem p := None) \<and> capacity mp' = capacity mp"
proof -
  let ?n = "capacity mp" and ?h = "khash mp mem p" and ?A = "arrays mp"
  have m: "map_wf (keyf mem) hsh ?n ?A" and h: "?h = hsh (keyf mem p)"
    and eq: "\<And>q. keys_eq mp mem q p \<longleftrightarrow> keyf mem q = keyf mem p"
    and sz: "msize mp = card (dom (hmap_abs keyf mem mp))"
    using wf by (auto simp: hmap_wf_def)
  obtain x where x: "slot_of (keyf mem) ?n ?A (keyf mem p) = Some x"
    using k by (auto simp: hmap_abs_def contents_def)
  have x': "x < ?n" "busy ?A x" "keyf mem (keyps ?A ! x) = keyf mem p"
    using slot_of_SomeD [OF x] by auto
  have kh: "?h = k_hashes ?A ! x" using map_wf_hash [OF m x'(1,2)] x' h by simp
  let ?mp = "mp\<lparr>arrays := cleared ?n x ?h ?A, msize := u32 (msize mp + 2 ^ 32 - 1)\<rparr>"
  have er: "map_erase mem mp p = (Some (keyps ?A ! x), ?mp)"
    using map_impl_erase_cleared [where eq = "keys_eq mp mem", OF m hmap_reduces [OF wf] eq h x]
    by (simp add: map_erase_def)
  have abs: "hmap_abs keyf mem ?mp = (hmap_abs keyf mem mp)(keyf mem p := None)"
    using cleared_contents [OF m x'(1,2) kh] x' by (simp add: hmap_abs_def)
  have "0 < msize mp"
    using k hmap_card_le [OF wf] sz by (auto simp: card_gt_0_iff)
  then have "u32 (msize mp + 2 ^ 32 - 1) = msize mp - 1"
    using hmap_card_le [OF wf] by (simp add: u32_def mod_if)
  then have "hmap_wf keyf hsh mem ?mp"
    using cleared_wf [OF m x'(1,2) kh] wf abs k sz hmap_card_le [OF wf]
    by (simp add: hmap_wf_def domIff card_Diff_singleton_if)
  then show ?thesis using er abs x' by auto
qed

interpretation hm: index_map "hmap_wf keyf hsh mem" "hmap_abs keyf mem" capacity "keyf mem"
  "map_get mem" "map_put mem" "map_erase mem" map_size
  for keyf :: "'mem \<Rightarrow> 'p \<Rightarrow> 'k" and hsh mem
proof
  fix m :: "('mem, 'p) hmap" and p v
  show "hmap_wf keyf hsh mem m \<Longrightarrow> map_get mem m p = hmap_abs keyf mem m (keyf mem p)"
    unfolding map_get_def Let_def hmap_abs_def
    by (rule map_impl_get_contents) (auto simp: hmap_wf_def hmap_reduces loop_reduces wf_simps)
  show "hmap_wf keyf hsh mem m \<Longrightarrow>
    map_size m = card (dom (hmap_abs keyf mem m)) \<and> finite (dom (hmap_abs keyf mem m)) \<and>
    map_size m \<le> capacity m"
    using hmap_card_le [of keyf hsh mem m] by (simp add: map_size_def hmap_wf_def)
qed (simp_all add: map_put_abs map_erase_abs)

lemma map_allocate_wf:
  assumes "0 < n" "n \<le> 2147483648" "\<And>mem p q. keq mem p q \<longleftrightarrow> keyf mem p = keyf mem q"
    and "\<And>mem p. kh mem p = hsh (keyf mem p)"
    and "length (busybits m) = n" "length (keyps m) = n"
      "length (k_hashes m) = n" "length (chns m) = n" "length (vals m) = n"
  shows "\<exists>mp. map_allocate keq kh n (Some m) = Some mp \<and> hmap_wf keyf hsh mem mp \<and>
    hmap_abs keyf mem mp = Map.empty \<and> capacity mp = n"
  using map_impl_init_wf(1) [OF assms(1,2,5-9), of "keyf mem" hsh]
    map_impl_init_wf(2) [OF assms(1,2,5-9), of "keyf mem"] assms(3,4)
  by (simp add: map_allocate_def hmap_wf_def hmap_abs_def)

subsection \<open>Which pointers the map holds\<close>

text \<open>
  The map keeps pointers, not keys: a client that writes to memory must know which pointers are
  in the map. \<open>hmap_frame\<close> is the rule for such writes.
\<close>

definition hmap_ptrs :: "('mem, 'p) hmap \<Rightarrow> 'p set" where
  "hmap_ptrs mp = (\<lambda>i. keyps (arrays mp) ! i) ` {i. i < capacity mp \<and> busy (arrays mp) i}"

lemma hmap_dom: "dom (hmap_abs keyf mem mp) = keyf mem ` hmap_ptrs mp"
  by (simp add: hmap_abs_def dom_contents hmap_ptrs_def image_image)

lemma map_put_ptrs:
  assumes wf: "hmap_wf keyf hsh mem mp" and k: "hmap_abs keyf mem mp (keyf mem p) = None"
    and c: "card (dom (hmap_abs keyf mem mp)) < capacity mp" and put: "map_put mem mp p v = Some mp'"
  shows "hmap_ptrs mp' = insert p (hmap_ptrs mp)" "keys_eq mp' = keys_eq mp" "khash mp' = khash mp"
proof -
  let ?n = "capacity mp" and ?h = "khash mp mem p"
  have m: "map_wf (keyf mem) hsh ?n (arrays mp)" using wf by (auto simp: hmap_wf_def)
  obtain x where x: "x < ?n" "\<not> busy (arrays mp) x"
    and st: "map_impl_put loop (arrays mp) p ?h v ?n = Some (stored ?n x p ?h v (arrays mp))"
    using map_impl_put_stored [OF m hmap_reduces [OF wf] free_slot [OF m]] c
    unfolding hmap_abs_def by blast
  have mp': "mp' = mp\<lparr>arrays := stored ?n x p ?h v (arrays mp), msize := u32 (msize mp + 1)\<rparr>"
    using put st by (simp add: map_put_def)
  show "keys_eq mp' = keys_eq mp" "khash mp' = khash mp" by (simp_all add: mp')
  have "{i. i < ?n \<and> busy (stored ?n x p ?h v (arrays mp)) i} =
    insert x {i. i < ?n \<and> busy (arrays mp) i}"
    using x stored_simps(1) [OF m x(1)] by auto
  then show "hmap_ptrs mp' = insert p (hmap_ptrs mp)"
    using x stored_simps(2) [OF m x(1), where keyp = p and h = ?h and v = v]
    by (auto simp: hmap_ptrs_def mp' image_iff)
qed

lemma map_erase_ptrs:
  assumes wf: "hmap_wf keyf hsh mem mp" and k: "hmap_abs keyf mem mp (keyf mem p) \<noteq> None"
  shows "hmap_ptrs (snd (map_erase mem mp p)) = {q \<in> hmap_ptrs mp. keyf mem q \<noteq> keyf mem p}"
    "keys_eq (snd (map_erase mem mp p)) = keys_eq mp" "khash (snd (map_erase mem mp p)) = khash mp"
proof -
  let ?n = "capacity mp" and ?h = "khash mp mem p" and ?A = "arrays mp"
  have m: "map_wf (keyf mem) hsh ?n ?A" and h: "?h = hsh (keyf mem p)"
    and eq: "\<And>q. keys_eq mp mem q p \<longleftrightarrow> keyf mem q = keyf mem p"
    using wf by (auto simp: hmap_wf_def)
  obtain x where x: "slot_of (keyf mem) ?n ?A (keyf mem p) = Some x"
    using k by (auto simp: hmap_abs_def contents_def)
  have x': "x < ?n" "busy ?A x" "keyf mem (keyps ?A ! x) = keyf mem p"
    using slot_of_SomeD [OF x] by auto
  have er: "snd (map_erase mem mp p) =
    mp\<lparr>arrays := cleared ?n x ?h ?A, msize := u32 (msize mp + 2 ^ 32 - 1)\<rparr>"
    using map_impl_erase_cleared [where eq = "keys_eq mp mem", OF m hmap_reduces [OF wf] eq h x]
    by (simp add: map_erase_def)
  then show "keys_eq (snd (map_erase mem mp p)) = keys_eq mp"
    "khash (snd (map_erase mem mp p)) = khash mp" by simp_all
  have key: "i < ?n \<Longrightarrow> busy ?A i \<Longrightarrow> keyf mem (keyps ?A ! i) = keyf mem p \<longleftrightarrow> i = x" for i
    using map_wf_inj [OF m _ x'(1) _ x'(2)] x'(3) by metis
  have "{i. i < ?n \<and> busy (cleared ?n x ?h ?A) i} = {i. i < ?n \<and> busy ?A i} - {x}"
    using cleared_simps(1) [OF m x'(1)] by auto
  then show "hmap_ptrs (snd (map_erase mem mp p)) = {q \<in> hmap_ptrs mp. keyf mem q \<noteq> keyf mem p}"
    using key cleared_simps(2) [OF m x'(1) x'(1)] by (auto simp: er hmap_ptrs_def)
qed

lemma hmap_frame:
  assumes wf: "hmap_wf keyf hsh mem mp"
    and same: "\<And>p. p \<in> hmap_ptrs mp \<Longrightarrow> keyf mem' p = keyf mem p"
    and eq: "\<And>p q. keys_eq mp mem' p q \<longleftrightarrow> keyf mem' p = keyf mem' q"
    and kh: "\<And>p. khash mp mem' p = hsh (keyf mem' p)"
  shows "hmap_wf keyf hsh mem' mp" "hmap_abs keyf mem' mp = hmap_abs keyf mem mp"
proof -
  let ?A = "arrays mp" and ?n = "capacity mp"
  have k: "keyf mem' (keyps ?A ! i) = keyf mem (keyps ?A ! i)" if "i < ?n" "busy ?A i" for i
    using same that by (auto simp: hmap_ptrs_def)
  have "slot_of (keyf mem') ?n ?A x = slot_of (keyf mem) ?n ?A x" for x
    unfolding slot_of_def using k by (intro find_cong) auto
  then show abs: "hmap_abs keyf mem' mp = hmap_abs keyf mem mp"
    by (auto simp: hmap_abs_def contents_def)
  have "map_wf (keyf mem') hsh ?n ?A"
    using wf k by (simp add: hmap_wf_def map_wf_def)
  then show "hmap_wf keyf hsh mem' mp" using wf eq kh abs by (simp add: hmap_wf_def)
qed

lemma map_allocate_ptrs:
  assumes "map_allocate keq kh n (Some m) = Some mp" "length (busybits m) = n" "length (chns m) = n"
  shows "hmap_ptrs mp = {}" "keys_eq mp = keq" "khash mp = kh"
  using assms by (auto simp: map_allocate_def hmap_ptrs_def busy_def map_impl_init_eq)

subsection \<open>A full map\<close>

lemma find_empty_full:
  fixes m :: "'p map_arrays"
  assumes "\<forall>j<n. busy m j" "reduces lp n"
  shows "fst (find_empty lp m s n i) = None"
  using assms(1)
proof (induction "n - i" arbitrary: i m rule: less_induct)
  case less
  show ?case
  proof (cases "i < n")
    case True
    define j where "j = lp (u32 (s + i)) n"
    have "j < n" using assms(2) True by (simp add: j_def reduces_def)
    then have b: "busybits m ! j \<noteq> 0" using less.prems by (simp add: busy_def)
    have "fst (find_empty lp (m\<lparr>chns := (chns m)[j := chns m ! j + 1]\<rparr>) s n (Suc i)) = None"
      using True less.prems by (intro less.hyps) (auto simp: busy_def)
    then show ?thesis using True b by (subst find_empty.simps) (simp add: Let_def j_def)
  next
    case False
    then show ?thesis by (subst find_empty.simps) simp
  qed
qed

lemma hmap_full:
  assumes wf: "hmap_wf keyf hsh mem mp" and full: "map_size mp = capacity mp"
  shows "\<forall>j<capacity mp. busy (arrays mp) j"
proof -
  have m: "map_wf (keyf mem) hsh (capacity mp) (arrays mp)" using wf by (simp add: hmap_wf_def)
  have "card {i. i < capacity mp \<and> busy (arrays mp) i} = card {..<capacity mp}"
    using wf full card_dom_contents [OF m] by (simp add: hmap_wf_def map_size_def hmap_abs_def)
  then have "{i. i < capacity mp \<and> busy (arrays mp) i} = {..<capacity mp}"
    by (intro card_subset_eq) auto
  then show ?thesis by blast
qed

subsection \<open>Properties\<close>

text \<open>A concrete map for the witnesses: three slots of garbage memory, keys that are their own hash.\<close>

definition demo_arrays :: "nat map_arrays" where
  "demo_arrays = \<lparr>busybits = [7, 7, 7], keyps = [9, 9, 9], k_hashes = [1, 2, 3], chns = [5, 5, 5],
     vals = [0, 0, 0]\<rparr>"

definition demo_map :: "(unit, nat) hmap" where
  "demo_map = the (map_allocate (\<lambda>_ p q. p = q) (\<lambda>_ p. p) 3 (Some demo_arrays))"

definition demo_key :: "unit \<Rightarrow> nat \<Rightarrow> nat" where
  "demo_key mem p = p"

lemma demo_map:
  "hmap_wf demo_key (\<lambda>k. k) () demo_map" "hmap_abs demo_key () demo_map = Map.empty"
  "capacity demo_map = 3" "map_size demo_map = 0"
proof -
  obtain mp where mp: "map_allocate (\<lambda>_ p q. p = q) (\<lambda>_ p. p) 3 (Some demo_arrays) = Some mp"
    "hmap_wf demo_key (\<lambda>k. k) () mp" "hmap_abs demo_key () mp = Map.empty" "capacity mp = 3"
    using map_allocate_wf [of 3 "\<lambda>_ p q. p = q" demo_key "\<lambda>_ p. p" "\<lambda>k. k" demo_arrays "()"]
    by (auto simp: demo_key_def demo_arrays_def)
  then have "mp = demo_map" by (simp add: demo_map_def)
  then show "hmap_wf demo_key (\<lambda>k. k) () demo_map" "hmap_abs demo_key () demo_map = Map.empty"
    "capacity demo_map = 3" using mp by simp_all
  then show "map_size demo_map = 0" by (simp add: hmap_wf_def map_size_def)
qed

text \<open>Insertion and lookup. Putting an absent key into a map that is not full succeeds, the key then
  maps to the value, the size grows by one and every other key is found as before.\<close>

theorem map_put_then_get:
  assumes "hmap_wf keyf hsh mem mp" "map_get mem mp p = None" "map_size mp < capacity mp"
  shows "\<exists>mp'. map_put mem mp p v = Some mp' \<and> map_get mem mp' p = Some v \<and>
    map_size mp' = map_size mp + 1 \<and> hmap_wf keyf hsh mem mp' \<and>
    (\<forall>q. keyf mem q \<noteq> keyf mem p \<longrightarrow> map_get mem mp' q = map_get mem mp q)"
proof -
  have none: "hmap_abs keyf mem mp (keyf mem p) = None" using hm.get_abs [OF assms(1), of p] assms(2) by simp
  from hm.put_get [OF assms(1) none assms(3)] hm.put_abs [OF assms(1) none] hm.size_abs [OF assms(1)] assms(3)
  show ?thesis by fastforce
qed

theorem map_put_then_get_witness:
  "\<exists>mp'. map_put () demo_map 4 11 = Some mp' \<and> map_get () mp' 4 = Some 11 \<and> map_size mp' = 1"
proof -
  have "map_get () demo_map 4 = None" using hm.get_abs [OF demo_map(1)] demo_map(2) by simp
  then show ?thesis using map_put_then_get [OF demo_map(1), of 4 11] demo_map(3,4) by auto
qed

text \<open>Removal. Erasing a stored key succeeds, hands back a pointer to an equal key, the key is then
  absent, the size shrinks by one and every other key is found as before.\<close>

theorem map_erase_then_get:
  assumes "hmap_wf keyf hsh mem mp" "map_get mem mp p = Some v"
  shows "\<exists>q mp'. map_erase mem mp p = (Some q, mp') \<and> keyf mem q = keyf mem p \<and> map_get mem mp' p = None \<and>
    map_size mp' + 1 = map_size mp \<and> hmap_wf keyf hsh mem mp' \<and>
    (\<forall>r. keyf mem r \<noteq> keyf mem p \<longrightarrow> map_get mem mp' r = map_get mem mp r)"
proof -
  have "hmap_abs keyf mem mp (keyf mem p) = Some v" using hm.get_abs [OF assms(1), of p] assms(2) by simp
  then have some: "hmap_abs keyf mem mp (keyf mem p) \<noteq> None" by simp
  obtain q mp' where e: "map_erase mem mp p = (Some q, mp')" "keyf mem q = keyf mem p"
    "hmap_wf keyf hsh mem mp'" "hmap_abs keyf mem mp' = (hmap_abs keyf mem mp)(keyf mem p := None)"
    using hm.erase_abs [OF assms(1) some] by blast
  then show ?thesis
    using hm.erase_get [OF assms(1) some] hm.get_abs [OF e(3)] hm.get_abs [OF assms(1)] by simp
qed

theorem map_erase_then_get_witness:
  "\<exists>mp q mp'. map_put () demo_map 4 11 = Some mp \<and> map_erase () mp 4 = (Some q, mp') \<and> q = 4 \<and>
    map_get () mp' 4 = None"
proof -
  obtain mp where mp: "map_put () demo_map 4 11 = Some mp" "hmap_wf demo_key (\<lambda>k. k) () mp"
    "hmap_abs demo_key () mp = [4 \<mapsto> 11]"
    using hm.put_abs [OF demo_map(1), of 4 11] demo_map(2,3) by (auto simp: demo_key_def)
  have "map_get () mp 4 = Some 11" using hm.get_abs [OF mp(2)] mp(3) by (simp add: demo_key_def)
  from map_erase_then_get [OF mp(2) this] mp(1) show ?thesis by (auto simp: demo_key_def)
qed

text \<open>C5. Refinement. A sequence of insertions and removals that the partial function from keys to values
  allows runs on the arrays without leaving them and ends in a map that represents the same
  partial function.\<close>

theorem map_run_refines:
  assumes "hmap_wf keyf hsh mem mp" "spec_ops (keyf mem) (capacity mp) ops (hmap_abs keyf mem mp) = Some f"
  shows "\<exists>mp'. run_ops (map_put mem) (map_erase mem) ops mp = Some mp' \<and> hmap_wf keyf hsh mem mp' \<and>
    (\<forall>q. map_get mem mp' q = f (keyf mem q)) \<and> map_size mp' = card (dom f)"
  using hm.run_refines [OF assms] hm.get_abs hm.size_abs by fastforce

theorem map_run_refines_witness:
  "\<exists>mp'. run_ops (map_put ()) (map_erase ()) [Put 1 10, Put 4 40, Erase 1, Put 7 70] demo_map = Some mp' \<and>
    map_get () mp' 4 = Some 40 \<and> map_get () mp' 1 = None \<and> map_get () mp' 7 = Some 70"
proof -
  have "spec_ops (demo_key ()) (capacity demo_map) [Put 1 10, Put 4 40, Erase 1, Put 7 70]
    (hmap_abs demo_key () demo_map) = Some (Map.empty(1 \<mapsto> 10, 4 \<mapsto> 40, 1 := None, 7 \<mapsto> 70))"
    by (simp add: demo_map(2,3) demo_key_def)
  from map_run_refines [OF demo_map(1) this] show ?thesis by (auto simp: demo_key_def)
qed

text \<open>C25. The power of two variant. With a capacity of \<open>2 ^ e\<close> the masked index reduction and the
  modulo give the same lookup, insertion and removal.\<close>

theorem map_impl_pow2_equivalent:
  assumes "e \<le> 31"
  shows "map_impl_get_pow2 eq m keyp h (2 ^ e) = map_impl_get loop eq m keyp h (2 ^ e) \<and>
    map_impl_put_pow2 m keyp h v (2 ^ e) = map_impl_put loop m keyp h v (2 ^ e) \<and>
    map_impl_erase_pow2 eq m keyp h (2 ^ e) = map_impl_erase loop eq m keyp h (2 ^ e)"
  by (intro conjI map_impl_get_pow2_eq [OF assms] map_impl_put_pow2_eq [OF assms] map_impl_erase_pow2_eq [OF assms])

theorem map_impl_pow2_equivalent_witness:
  "map_impl_put_pow2 demo_arrays 5 6 7 4 = map_impl_put loop demo_arrays 5 6 7 4"
  using map_impl_pow2_equivalent [of 2 "(=)" demo_arrays 5 6 7] by simp

text \<open>A full map. \<open>map_put\<close> on a map with no free slot has no slot to write: \<open>find_empty\<close> gives
  \<open>-1\<close>, which the code then uses as an index. The code does not check it; the callers must.\<close>

theorem map_put_full:
  assumes "hmap_wf keyf hsh mem mp" "map_size mp = capacity mp"
  shows "map_put mem mp p v = None"
proof -
  let ?h = "khash mp mem p" and ?n = "capacity mp"
  have "fst (find_empty loop (arrays mp) (loop ?h ?n) ?n 0) = None"
    by (rule find_empty_full [OF hmap_full [OF assms] hmap_reduces [OF assms(1)]])
  then obtain m' where "find_empty loop (arrays mp) (loop ?h ?n) ?n 0 = (None, m')"
    by (metis prod.collapse)
  then show ?thesis by (simp add: map_put_def map_impl_put_def Let_def)
qed

theorem map_put_full_witness:
  "\<exists>mp. run_ops (map_put ()) (map_erase ()) [Put 1 10, Put 4 40, Put 7 70] demo_map = Some mp \<and>
    map_put () mp 2 20 = None"
proof -
  let ?f = "Map.empty(1 \<mapsto> 10, 4 \<mapsto> 40, 7 \<mapsto> 70 :: int) :: nat \<Rightarrow> int option"
  have "spec_ops (demo_key ()) (capacity demo_map) [Put 1 10, Put 4 40, Put 7 70]
    (hmap_abs demo_key () demo_map) = Some ?f"
    by (simp add: demo_map(2,3) demo_key_def)
  from hm.run_refines [OF demo_map(1) this] obtain mp where
    mp: "run_ops (map_put ()) (map_erase ()) [Put 1 10, Put 4 40, Put 7 70] demo_map = Some mp"
    "hmap_wf demo_key (\<lambda>k. k) () mp" "hmap_abs demo_key () mp = ?f" "capacity mp = 3"
    using demo_map(3) by metis
  have "map_size mp = 3" using hm.size_abs [OF mp(2)] mp(3) by simp
  moreover have "capacity mp = 3" by (rule mp(4))
  ultimately show ?thesis using map_put_full [OF mp(2)] mp(1) by auto
qed

end
