(* ===== verification/DChain.thy ===== *)
theory DChain
  imports Prelude
begin

section \<open>The index allocator with ageing: double-chain-impl.c and double-chain.c\<close>

text \<open>
  Indices in \<open>[0, index_range)\<close> live in one array of cells, at offset \<open>2\<close>: cell 0 heads the
  doubly linked list of allocated cells in order of last use, cell 1 heads the singly linked list
  of free cells (there, \<open>prev = next\<close>). A cell is recognised as free by \<open>prev = next \<noteq> 0\<close>.

  Every access goes through \<open>arr_get\<close> and \<open>arr_set\<close>, so that a wild index is \<open>None\<close> (undefined
  behaviour in C) and every result \<open>Some\<close> below is also a proof of memory safety. The C return
  code and the \<open>int *index\<close> output are one \<open>int option\<close>.
\<close>

subsection \<open>State and operations\<close>

record dchain_cell =
  cprev :: int
  cnext :: int

type_synonym cells = "dchain_cell list"

definition ALLOC_LIST_HEAD :: int where [simp]: "ALLOC_LIST_HEAD = 0"
definition FREE_LIST_HEAD :: int where [simp]: "FREE_LIST_HEAD = 1"
definition INDEX_SHIFT :: int where [simp]: "INDEX_SHIFT = 2"

definition get_next :: "cells \<Rightarrow> int \<Rightarrow> int option" where
  "get_next cs i = map_option cnext (arr_get cs i)"

definition get_prev :: "cells \<Rightarrow> int \<Rightarrow> int option" where
  "get_prev cs i = map_option cprev (arr_get cs i)"

definition set_next :: "cells \<Rightarrow> int \<Rightarrow> int \<Rightarrow> cells option" where
  "set_next cs i v = do { c \<leftarrow> arr_get cs i; arr_set cs i (c\<lparr>cnext := v\<rparr>) }"

definition set_prev :: "cells \<Rightarrow> int \<Rightarrow> int \<Rightarrow> cells option" where
  "set_prev cs i v = do { c \<leftarrow> arr_get cs i; arr_set cs i (c\<lparr>cprev := v\<rparr>) }"

function init_loop :: "cells \<Rightarrow> int \<Rightarrow> int \<Rightarrow> cells option" where
  "init_loop cs sz i =
    (if i < sz + INDEX_SHIFT - 1
     then do {
       cs \<leftarrow> set_next cs i (i + 1);
       n \<leftarrow> get_next cs i;
       cs \<leftarrow> set_prev cs i n;
       init_loop cs sz (i + 1)
     }
     else do {
       cs \<leftarrow> set_next cs i FREE_LIST_HEAD;
       n \<leftarrow> get_next cs i;
       set_prev cs i n
     })"
  by pat_completeness auto
termination
  by (relation "measure (\<lambda>(cs, sz, i). nat (sz + 2 - i))") auto

declare init_loop.simps [simp del]

definition dchain_impl_init :: "cells \<Rightarrow> int \<Rightarrow> cells option" where
  "dchain_impl_init cs sz = do {
     cs \<leftarrow> set_prev cs ALLOC_LIST_HEAD 0;
     cs \<leftarrow> set_next cs ALLOC_LIST_HEAD 0;
     let i = INDEX_SHIFT;
     cs \<leftarrow> set_next cs FREE_LIST_HEAD i;
     n \<leftarrow> get_next cs FREE_LIST_HEAD;
     cs \<leftarrow> set_prev cs FREE_LIST_HEAD n;
     init_loop cs sz i
   }"

definition dchain_impl_allocate_new_index :: "cells \<Rightarrow> (int option \<times> cells) option" where
  "dchain_impl_allocate_new_index cs = do {
     allocated \<leftarrow> get_next cs FREE_LIST_HEAD;
     if allocated = FREE_LIST_HEAD then Some (None, cs)
     else do {
       n \<leftarrow> get_next cs allocated;
       cs \<leftarrow> set_next cs FREE_LIST_HEAD n;
       n \<leftarrow> get_next cs FREE_LIST_HEAD;
       cs \<leftarrow> set_prev cs FREE_LIST_HEAD n;
       cs \<leftarrow> set_next cs allocated ALLOC_LIST_HEAD;
       p \<leftarrow> get_prev cs ALLOC_LIST_HEAD;
       cs \<leftarrow> set_prev cs allocated p;
       p \<leftarrow> get_prev cs ALLOC_LIST_HEAD;
       cs \<leftarrow> set_next cs p allocated;
       cs \<leftarrow> set_prev cs ALLOC_LIST_HEAD allocated;
       Some (Some (allocated - INDEX_SHIFT), cs)
     }
   }"

definition dchain_impl_free_index :: "cells \<Rightarrow> int \<Rightarrow> (bool \<times> cells) option" where
  "dchain_impl_free_index cs index = do {
     let freed = index + INDEX_SHIFT;
     freed_prev \<leftarrow> get_prev cs freed;
     freed_next \<leftarrow> get_next cs freed;
     if freed_next = freed_prev \<and> freed_prev \<noteq> ALLOC_LIST_HEAD then Some (False, cs)
     else do {
       cs \<leftarrow> set_next cs freed_prev freed_next;
       cs \<leftarrow> set_prev cs freed_next freed_prev;
       n \<leftarrow> get_next cs FREE_LIST_HEAD;
       cs \<leftarrow> set_next cs freed n;
       n \<leftarrow> get_next cs freed;
       cs \<leftarrow> set_prev cs freed n;
       cs \<leftarrow> set_next cs FREE_LIST_HEAD freed;
       n \<leftarrow> get_next cs FREE_LIST_HEAD;
       cs \<leftarrow> set_prev cs FREE_LIST_HEAD n;
       Some (True, cs)
     }
   }"

definition dchain_impl_get_oldest_index :: "cells \<Rightarrow> (int option) option" where
  "dchain_impl_get_oldest_index cs = do {
     n \<leftarrow> get_next cs ALLOC_LIST_HEAD;
     if n = ALLOC_LIST_HEAD then Some None
     else Some (Some (n - INDEX_SHIFT))
   }"

definition dchain_impl_rejuvenate_index :: "cells \<Rightarrow> int \<Rightarrow> (bool \<times> cells) option" where
  "dchain_impl_rejuvenate_index cs index = do {
     let lifted = index + INDEX_SHIFT;
     lifted_next \<leftarrow> get_next cs lifted;
     lifted_prev \<leftarrow> get_prev cs lifted;
     if lifted_next = lifted_prev then
       (if lifted_next \<noteq> ALLOC_LIST_HEAD then Some (False, cs) else Some (True, cs))
     else do {
       cs \<leftarrow> set_next cs lifted_prev lifted_next;
       cs \<leftarrow> set_prev cs lifted_next lifted_prev;
       al_head_prev \<leftarrow> get_prev cs ALLOC_LIST_HEAD;
       cs \<leftarrow> set_next cs lifted ALLOC_LIST_HEAD;
       cs \<leftarrow> set_prev cs lifted al_head_prev;
       cs \<leftarrow> set_next cs al_head_prev lifted;
       cs \<leftarrow> set_prev cs ALLOC_LIST_HEAD lifted;
       Some (True, cs)
     }
   }"

definition dchain_impl_is_index_allocated :: "cells \<Rightarrow> int \<Rightarrow> bool option" where
  "dchain_impl_is_index_allocated cs index = do {
     let lifted = index + INDEX_SHIFT;
     lifted_next \<leftarrow> get_next cs lifted;
     lifted_prev \<leftarrow> get_prev cs lifted;
     if lifted_next = lifted_prev then
       (if lifted_next \<noteq> ALLOC_LIST_HEAD then Some False else Some True)
     else Some True
   }"

text \<open>The chain with its timestamps (\<open>vigor_time_t\<close>, 64 bit unsigned) from double-chain.c.\<close>

record dchain =
  dcells :: cells
  timestamps :: "nat list"

definition dchain_allocate :: "int \<Rightarrow> cells option \<Rightarrow> nat list option \<Rightarrow> dchain option option" where
  "dchain_allocate index_range cells_alloc timestamps_alloc =
     (case cells_alloc of
        None \<Rightarrow> Some None
      | Some cs \<Rightarrow>
          (case timestamps_alloc of
             None \<Rightarrow> Some None
           | Some ts \<Rightarrow> do {
               cs \<leftarrow> dchain_impl_init cs index_range;
               Some (Some \<lparr>dcells = cs, timestamps = ts\<rparr>)
             }))"

definition dchain_allocate_new_index :: "dchain \<Rightarrow> nat \<Rightarrow> (int option \<times> dchain) option" where
  "dchain_allocate_new_index ch time = do {
     (ret, cs) \<leftarrow> dchain_impl_allocate_new_index (dcells ch);
     case ret of
       None \<Rightarrow> Some (None, ch\<lparr>dcells := cs\<rparr>)
     | Some index_out \<Rightarrow> do {
         ts \<leftarrow> arr_set (timestamps ch) index_out time;
         Some (Some index_out, ch\<lparr>dcells := cs, timestamps := ts\<rparr>)
       }
   }"

definition dchain_rejuvenate_index :: "dchain \<Rightarrow> int \<Rightarrow> nat \<Rightarrow> (bool \<times> dchain) option" where
  "dchain_rejuvenate_index ch index time = do {
     (ret, cs) \<leftarrow> dchain_impl_rejuvenate_index (dcells ch) index;
     if ret then do {
       ts \<leftarrow> arr_set (timestamps ch) index time;
       Some (True, ch\<lparr>dcells := cs, timestamps := ts\<rparr>)
     }
     else Some (False, ch\<lparr>dcells := cs\<rparr>)
   }"

definition dchain_expire_one_index :: "dchain \<Rightarrow> nat \<Rightarrow> (int option \<times> dchain) option" where
  "dchain_expire_one_index ch time = do {
     has_ind \<leftarrow> dchain_impl_get_oldest_index (dcells ch);
     case has_ind of
       None \<Rightarrow> Some (None, ch)
     | Some index_out \<Rightarrow> do {
         t \<leftarrow> arr_get (timestamps ch) index_out;
         if t < time then do {
           (rez, cs) \<leftarrow> dchain_impl_free_index (dcells ch) index_out;
           Some (if rez then Some index_out else None, ch\<lparr>dcells := cs\<rparr>)
         }
         else Some (None, ch)
       }
   }"

definition dchain_is_index_allocated :: "dchain \<Rightarrow> int \<Rightarrow> bool option" where
  "dchain_is_index_allocated ch index = dchain_impl_is_index_allocated (dcells ch) index"

definition dchain_free_index :: "dchain \<Rightarrow> int \<Rightarrow> (bool \<times> dchain) option" where
  "dchain_free_index ch index = do {
     (ret, cs) \<leftarrow> dchain_impl_free_index (dcells ch) index;
     Some (ret, ch\<lparr>dcells := cs\<rparr>)
   }"

subsection \<open>Links\<close>

definition valid :: "cells \<Rightarrow> int \<Rightarrow> bool" where
  "valid cs i \<longleftrightarrow> 0 \<le> i \<and> i < int (length cs)"

definition nx :: "cells \<Rightarrow> int \<Rightarrow> int" where
  "nx cs i = cnext (cs ! nat i)"

definition pv :: "cells \<Rightarrow> int \<Rightarrow> int" where
  "pv cs i = cprev (cs ! nat i)"

definition upn :: "cells \<Rightarrow> int \<Rightarrow> int \<Rightarrow> cells" where
  "upn cs i v = cs[nat i := (cs ! nat i)\<lparr>cnext := v\<rparr>]"

definition upp :: "cells \<Rightarrow> int \<Rightarrow> int \<Rightarrow> cells" where
  "upp cs i v = cs[nat i := (cs ! nat i)\<lparr>cprev := v\<rparr>]"

lemma cell_access [simp]:
  assumes "valid cs i"
  shows "get_next cs i = Some (nx cs i)" "get_prev cs i = Some (pv cs i)"
    "set_next cs i v = Some (upn cs i v)" "set_prev cs i v = Some (upp cs i v)"
  using assms
  by (simp_all add: get_next_def get_prev_def set_next_def set_prev_def arr_get_def arr_set_def
      valid_def nx_def pv_def upn_def upp_def)

lemma cell_update [simp]:
  "valid (upn cs i v) j \<longleftrightarrow> valid cs j" "valid (upp cs i v) j \<longleftrightarrow> valid cs j"
  "length (upn cs i v) = length cs" "length (upp cs i v) = length cs"
  by (auto simp: valid_def upn_def upp_def)

lemma cell_update_other [simp]: "nx (upp cs i v) j = nx cs j" "pv (upn cs i v) j = pv cs j"
  by (cases "nat i < length cs"; cases "nat j = nat i";
      simp add: upn_def upp_def nx_def pv_def list_update_beyond)+

lemma nx_upn [simp]: "valid cs i \<Longrightarrow> valid cs j \<Longrightarrow> nx (upn cs i v) j = (if j = i then v else nx cs j)"
  by (auto simp: valid_def upn_def nx_def nth_list_update nat_eq_iff)

lemma pv_upp [simp]: "valid cs i \<Longrightarrow> valid cs j \<Longrightarrow> pv (upp cs i v) j = (if j = i then v else pv cs j)"
  by (auto simp: valid_def upp_def pv_def nth_list_update nat_eq_iff)

text \<open>\<open>dpath cs x ys z\<close>: from \<open>x\<close> through \<open>ys\<close> to \<open>z\<close>, linked both ways.  \<open>fpath\<close> is the
  free list's form, where \<open>prev\<close> repeats \<open>next\<close>.\<close>

fun dpath :: "cells \<Rightarrow> int \<Rightarrow> int list \<Rightarrow> int \<Rightarrow> bool" where
  "dpath cs x [] z \<longleftrightarrow> nx cs x = z \<and> pv cs z = x"
| "dpath cs x (y # ys) z \<longleftrightarrow> nx cs x = y \<and> pv cs y = x \<and> dpath cs y ys z"

fun fpath :: "cells \<Rightarrow> int \<Rightarrow> int list \<Rightarrow> int \<Rightarrow> bool" where
  "fpath cs x [] z \<longleftrightarrow> nx cs x = z \<and> pv cs x = z"
| "fpath cs x (y # ys) z \<longleftrightarrow> nx cs x = y \<and> pv cs x = y \<and> fpath cs y ys z"

definition dinv :: "cells \<Rightarrow> int list \<Rightarrow> int list \<Rightarrow> bool" where
  "dinv cs al fl \<longleftrightarrow> dpath cs 0 al 0 \<and> fpath cs 1 fl 1 \<and> distinct (al @ fl) \<and>
     set (al @ fl) = {2..<int (length cs)} \<and> 2 < length cs"

lemma dpath_append: "dpath cs x (ys @ y # zs) z \<longleftrightarrow> dpath cs x ys y \<and> dpath cs y zs z"
  by (induction ys arbitrary: x) auto

lemma dpath_first: "dpath cs x ys z \<Longrightarrow> nx cs x = hd (ys @ [z])"
  by (cases ys) auto

lemma dpath_last: "dpath cs x ys z \<Longrightarrow> pv cs z = last (x # ys)"
  by (induction ys arbitrary: x) auto

lemma dpath_frame:
  "dpath cs x ys z \<Longrightarrow> \<forall>i \<in> set (x # ys). nx cs' i = nx cs i \<Longrightarrow>
   \<forall>i \<in> set (ys @ [z]). pv cs' i = pv cs i \<Longrightarrow> dpath cs' x ys z"
  by (induction ys arbitrary: x) auto

lemma dpath_retarget:
  "dpath cs x ys z \<Longrightarrow> distinct (x # ys) \<Longrightarrow>
   \<forall>i \<in> set (x # ys). i \<noteq> last (x # ys) \<longrightarrow> nx cs' i = nx cs i \<Longrightarrow>
   \<forall>i \<in> set ys. pv cs' i = pv cs i \<Longrightarrow>
   nx cs' (last (x # ys)) = z' \<Longrightarrow> pv cs' z' = last (x # ys) \<Longrightarrow> dpath cs' x ys z'"
proof (induction ys arbitrary: x)
  case Nil
  then show ?case by simp
next
  case (Cons y ys)
  have "x \<noteq> last (y # ys)" using Cons.prems(2) last_in_set [of "y # ys"] by auto
  then have "nx cs' x = y" "pv cs' y = x" using Cons.prems by auto
  moreover have "dpath cs' y ys z'"
    using Cons.prems by (intro Cons.IH) auto
  ultimately show ?case by simp
qed

lemma fpath_frame:
  "fpath cs x ys z \<Longrightarrow> \<forall>i \<in> set (x # ys). nx cs' i = nx cs i \<and> pv cs' i = pv cs i \<Longrightarrow> fpath cs' x ys z"
  by (induction ys arbitrary: x) auto

lemma fpath_elem: "fpath cs x ys z \<Longrightarrow> i \<in> set (x # ys) \<Longrightarrow> nx cs i = pv cs i \<and> nx cs i \<in> set (ys @ [z])"
  by (induction ys arbitrary: x) auto

text \<open>Taking the cell \<open>f\<close> out of a list, and linking a cell in before its end.\<close>

lemma dpath_unlink:
  assumes p: "dpath cs x (xs @ f # ys) z" and d: "distinct (x # xs @ f # ys)" and z: "z \<notin> set xs" "z \<notin> set ys" "z \<noteq> f"
    and n: "\<And>i. i \<in> set (x # xs @ ys) \<Longrightarrow> nx cs' i = (if i = pv cs f then nx cs f else nx cs i)"
    and q: "\<And>i. i \<in> set (xs @ ys @ [z]) \<Longrightarrow> pv cs' i = (if i = nx cs f then pv cs f else pv cs i)"
  shows "dpath cs' x (xs @ ys) z"
proof -
  from p have p1: "dpath cs x xs f" and p2: "dpath cs f ys z" by (auto simp: dpath_append)
  have pf: "pv cs f = last (x # xs)" and nf: "nx cs f = hd (ys @ [z])"
    using dpath_last [OF p1] dpath_first [OF p2] .
  have l: "last (x # xs) \<in> set (x # xs)" by (rule last_in_set) simp
  show ?thesis
  proof (cases ys)
    case Nil
    have "dpath cs' x xs z"
    proof (rule dpath_retarget [OF p1])
      show "distinct (x # xs)" using d by simp
      show "\<forall>i \<in> set (x # xs). i \<noteq> last (x # xs) \<longrightarrow> nx cs' i = nx cs i"
        using n pf by simp
      show "\<forall>i \<in> set xs. pv cs' i = pv cs i" using q nf Nil z(1) by fastforce
      show "nx cs' (last (x # xs)) = z" using n [of "last (x # xs)"] l pf nf Nil by simp
      show "pv cs' z = last (x # xs)" using q [of z] pf nf Nil by simp
    qed
    then show ?thesis using Nil by simp
  next
    case (Cons y ys')
    have "set (x # xs) \<inter> set ys = {}" using d by auto
    then have "last (x # xs) \<notin> set ys" using l by blast
    moreover have "distinct ys" "y \<notin> set xs" "y \<noteq> x" "y \<noteq> z" using d Cons z by auto
    ultimately have dy: "distinct ys" "y \<notin> set xs" "y \<noteq> x" "last (x # xs) \<notin> set ys" "y \<noteq> z"
      by simp_all
    have "dpath cs' x xs y"
    proof (rule dpath_retarget [OF p1])
      show "distinct (x # xs)" using d by simp
      show "\<forall>i \<in> set (x # xs). i \<noteq> last (x # xs) \<longrightarrow> nx cs' i = nx cs i"
        using n pf by simp
      show "\<forall>i \<in> set xs. pv cs' i = pv cs i" using q nf Cons dy by fastforce
      show "nx cs' (last (x # xs)) = y" using n [of "last (x # xs)"] l pf nf Cons by simp
      show "pv cs' y = last (x # xs)" using q [of y] pf nf Cons by simp
    qed
    moreover have "dpath cs' y ys' z"
    proof (rule dpath_frame [of cs y ys' z])
      show "dpath cs y ys' z" using p2 Cons by simp
      show "\<forall>i \<in> set (y # ys'). nx cs' i = nx cs i"
        using n pf dy(4) Cons by fastforce
      show "\<forall>i \<in> set (ys' @ [z]). pv cs' i = pv cs i"
        using q nf dy(1,5) Cons by fastforce
    qed
    ultimately show ?thesis using Cons by (simp add: dpath_append)
  qed
qed

lemma dpath_link_last:
  assumes p: "dpath cs x ys z" and d: "distinct (x # ys)" and a: "a \<notin> set (x # ys)" "a \<noteq> z" "z \<notin> set ys"
    and n: "\<And>i. i \<in> set (x # ys) \<Longrightarrow> nx cs' i = (if i = pv cs z then a else nx cs i)"
    and na: "nx cs' a = z" "pv cs' a = pv cs z" "pv cs' z = a"
    and q: "\<And>i. i \<in> set ys \<Longrightarrow> pv cs' i = pv cs i"
  shows "dpath cs' x (ys @ [a]) z"
proof -
  have l: "pv cs z = last (x # ys)" using dpath_last [OF p] .
  have "last (x # ys) \<in> set (x # ys)" by (rule last_in_set) simp
  then have "dpath cs' x ys a"
    using d n na q l by (intro dpath_retarget [OF p]) simp_all
  then show ?thesis using na by (simp add: dpath_append)
qed

subsection \<open>Operations on the cells\<close>

lemma dinv_range: "dinv cs al fl \<Longrightarrow> i \<in> set al \<or> i \<in> set fl \<longleftrightarrow> 2 \<le> i \<and> i < int (length cs)"
proof -
  assume "dinv cs al fl"
  then have "i \<in> set (al @ fl) \<longleftrightarrow> i \<in> {2..<int (length cs)}" unfolding dinv_def by blast
  then show ?thesis by simp
qed

lemma dinv_heads: "dinv cs al fl \<Longrightarrow> valid cs 0 \<and> valid cs 1"
  by (auto simp: dinv_def valid_def)

lemma dinv_valid: "dinv cs al fl \<Longrightarrow> i \<in> set al \<or> i \<in> set fl \<Longrightarrow> valid cs i"
  by (simp add: dinv_range valid_def)

lemma dinv_zero:
  assumes "dinv cs al fl"
  shows "0 \<notin> set al" "0 \<notin> set fl" "1 \<notin> set al" "1 \<notin> set fl"
  using dinv_range [OF assms, of 0] dinv_range [OF assms, of 1] by auto

lemma dinv_neighbours:
  assumes "dinv cs (xs @ f # ys) fl"
  shows "pv cs f = last (0 # xs)" "nx cs f = hd (ys @ [0])"
    "pv cs f \<in> set (0 # xs)" "nx cs f \<in> set (0 # ys)"
proof -
  have p: "dpath cs 0 xs f" "dpath cs f ys 0"
    using assms by (auto simp: dinv_def dpath_append)
  show "pv cs f = last (0 # xs)" "nx cs f = hd (ys @ [0])"
    using dpath_last [OF p(1)] dpath_first [OF p(2)] .
  then show "pv cs f \<in> set (0 # xs)" "nx cs f \<in> set (0 # ys)"
    using last_in_set [of "0 # xs"] by (simp_all add: hd_append)
qed

lemma dinv_neighbours_valid:
  assumes "dinv cs (xs @ f # ys) fl"
  shows "valid cs (pv cs f)" "valid cs (nx cs f)"
  using dinv_neighbours(3,4) [OF assms] dinv_valid [OF assms] dinv_heads [OF assms] by auto

lemma dinv_alloc_loop:
  assumes d: "dinv cs (xs @ f # ys) fl"
  shows "nx cs f = pv cs f \<longleftrightarrow> xs = [] \<and> ys = []" "nx cs f = pv cs f \<Longrightarrow> nx cs f = 0"
proof -
  have dis: "set xs \<inter> set ys = {}" "0 \<notin> set xs" "0 \<notin> set ys"
    using d dinv_zero [OF d] by (auto simp: dinv_def)
  have e: "nx cs f = pv cs f \<Longrightarrow> nx cs f = 0"
    using dis dinv_neighbours(3,4) [OF d] by auto
  then show "nx cs f = pv cs f \<Longrightarrow> nx cs f = 0" .
  show "nx cs f = pv cs f \<longleftrightarrow> xs = [] \<and> ys = []"
  proof
    assume a: "nx cs f = pv cs f"
    then have "last (0 # xs) = 0" "hd (ys @ [0]) = 0" using e dinv_neighbours(1,2) [OF d] by auto
    then show "xs = [] \<and> ys = []"
      using dis by (cases xs rule: rev_cases; cases ys) auto
  next
    assume "xs = [] \<and> ys = []"
    then show "nx cs f = pv cs f" using dinv_neighbours(1,2) [OF d] by simp
  qed
qed

lemma dinv_free_loop:
  assumes d: "dinv cs al fl" and f: "f \<in> set fl"
  shows "nx cs f = pv cs f" "nx cs f \<noteq> 0"
proof -
  have "fpath cs 1 fl 1" using d by (simp add: dinv_def)
  from fpath_elem [OF this, of f] f have "nx cs f = pv cs f" "nx cs f \<in> set (fl @ [1])" by auto
  then show "nx cs f = pv cs f" "nx cs f \<noteq> 0" using dinv_zero [OF d] by auto
qed

text \<open>The three ways cells move: free to allocated, allocated to free, allocated to youngest.\<close>

lemma dchain_impl_allocate_full:
  assumes "dinv cs al []"
  shows "dchain_impl_allocate_new_index cs = Some (None, cs)"
  using assms dinv_heads [OF assms] by (simp add: dchain_impl_allocate_new_index_def dinv_def)

lemma dchain_impl_allocate_moves:
  assumes d: "dinv cs al (f # fl)"
  shows "\<exists>cs'. dchain_impl_allocate_new_index cs = Some (Some (f - 2), cs') \<and>
    dinv cs' (al @ [f]) fl \<and> length cs' = length cs"
proof -
  define h where "h = nx cs f"
  define p where "p = pv cs 0"
  define cs' where "cs' = upp (upn (upp (upn (upp (upn cs 1 h) 1 h) f 0) f p) p f) 0 f"
  have path: "dpath cs 0 al 0" "fpath cs f fl 1" "nx cs 1 = f" "distinct (al @ f # fl)"
    using d by (auto simp: dinv_def)
  have p: "p = last (0 # al)" using dpath_last [OF path(1)] p_def by simp
  then have pin: "p \<in> set (0 # al)" by (metis last_in_set list.distinct(1))
  note z = dinv_zero [OF d]
  have v: "valid cs 0" "valid cs 1" "valid cs f" "valid cs p"
    using dinv_heads [OF d] dinv_valid [OF d] pin by auto
  have f: "f \<noteq> 0" "f \<noteq> 1" "p \<noteq> f" "p \<noteq> 1" using z pin path(4) by auto
  have run: "dchain_impl_allocate_new_index cs = Some (Some (f - 2), cs')"
    using v f path(3)
    by (simp add: dchain_impl_allocate_new_index_def cs'_def h_def p_def)
  have nx': "nx cs' i = (if i = p then f else if i = f then 0 else if i = 1 then h else nx cs i)"
    and pv': "pv cs' i = (if i = 0 then f else if i = f then p else if i = 1 then h else pv cs i)"
    if "valid cs i" for i using v f that by (auto simp: cs'_def)
  have vi: "valid cs i" if "i \<in> set al \<or> i \<in> set fl" for i using dinv_valid [OF d] that by auto
  have "dpath cs' 0 (al @ [f]) 0"
  proof (rule dpath_link_last [OF path(1)])
    show "distinct (0 # al)" "f \<notin> set (0 # al)" "f \<noteq> 0" "0 \<notin> set al" using path(4) z f by auto
    show "nx cs' i = (if i = pv cs 0 then f else nx cs i)" if "i \<in> set (0 # al)" for i
      using that nx' vi v path(4) f z by (auto simp: p_def)
    show "nx cs' f = 0" "pv cs' f = pv cs 0" "pv cs' 0 = f"
      using nx' pv' v f by (simp_all add: p_def)
    show "pv cs' i = pv cs i" if "i \<in> set al" for i
      using that pv' vi path(4) z by auto
  qed
  moreover have "fpath cs' 1 fl 1"
  proof (cases fl)
    case Nil
    then show ?thesis using path(2) nx' pv' v f by (auto simp: h_def)
  next
    case (Cons g gs)
    have "fpath cs' g gs 1"
    proof (rule fpath_frame [of cs])
      show "fpath cs g gs 1" using path(2) Cons by simp
      show "\<forall>i \<in> set (g # gs). nx cs' i = nx cs i \<and> pv cs' i = pv cs i"
      proof
        fix i assume "i \<in> set (g # gs)"
        then have i: "i \<in> set fl" using Cons by simp
        then have "i \<noteq> p" "i \<noteq> f" "i \<noteq> 1" "i \<noteq> 0" using path(4) pin z by auto
        then show "nx cs' i = nx cs i \<and> pv cs' i = pv cs i" using nx' pv' vi i by simp
      qed
    qed
    then show ?thesis using Cons path(2) nx' pv' v f by (auto simp: h_def)
  qed
  ultimately have "dinv cs' (al @ [f]) fl"
    using d by (auto simp: dinv_def cs'_def)
  then show ?thesis using run by (auto simp: cs'_def)
qed

lemma dchain_impl_free_refused:
  assumes d: "dinv cs al fl" and f: "i + 2 \<in> set fl"
  shows "dchain_impl_free_index cs i = Some (False, cs)"
  using dinv_free_loop [OF d f] dinv_valid [OF d, of "i + 2"] f
  by (simp add: dchain_impl_free_index_def Let_def)

lemma dchain_impl_free_moves:
  assumes d: "dinv cs (xs @ f # ys) fl"
  shows "\<exists>cs'. dchain_impl_free_index cs (f - 2) = Some (True, cs') \<and>
    dinv cs' (xs @ ys) (f # fl) \<and> length cs' = length cs"
proof -
  define p where "p = pv cs f"
  define n where "n = nx cs f"
  define h where "h = nx cs 1"
  define cs' where "cs' = upp (upn (upp (upn (upp (upn cs p n) n p) f h) f h) 1 f) 1 f"
  note z = dinv_zero [OF d]
  have path: "dpath cs 0 (xs @ f # ys) 0" "fpath cs 1 fl 1" "distinct ((xs @ f # ys) @ fl)"
    using d by (auto simp: dinv_def)
  have pn: "p \<in> set (0 # xs)" "n \<in> set (0 # ys)" using dinv_neighbours [OF d] p_def n_def by auto
  have v: "valid cs 0" "valid cs 1" "valid cs f" "valid cs p" "valid cs n"
    using dinv_heads [OF d] dinv_valid [OF d] dinv_neighbours_valid [OF d] by (auto simp: p_def n_def)
  have f: "f \<noteq> 0" "f \<noteq> 1" "p \<noteq> f" "p \<noteq> 1" "n \<noteq> f" "n \<noteq> 1"
    using z pn path(3) by auto
  have loop: "\<not> (n = p \<and> p \<noteq> 0)" using dinv_alloc_loop(2) [OF d] by (auto simp: p_def n_def)
  have run: "dchain_impl_free_index cs (f - 2) = Some (True, cs')"
    using v f loop by (auto simp: dchain_impl_free_index_def Let_def cs'_def h_def p_def n_def)
  have nx': "nx cs' i = (if i = 1 then f else if i = f then h else if i = p then n else nx cs i)"
    and pv': "pv cs' i = (if i = 1 then f else if i = f then h else if i = n then p else pv cs i)"
    if "valid cs i" for i using v f that by (auto simp: cs'_def)
  have vi: "valid cs i" if "i \<in> set xs \<or> i \<in> set ys \<or> i \<in> set fl" for i
    using dinv_valid [OF d] that by auto
  have "dpath cs' 0 (xs @ ys) 0"
  proof (rule dpath_unlink [OF path(1)])
    show "distinct (0 # xs @ f # ys)" "0 \<notin> set xs" "0 \<notin> set ys" "0 \<noteq> f" using path(3) z by auto
    show "nx cs' i = (if i = pv cs f then nx cs f else nx cs i)" if "i \<in> set (0 # xs @ ys)" for i
    proof -
      have "valid cs i" "i \<noteq> 1" "i \<noteq> f" using that vi v(1) z f path(3) by auto
      then show ?thesis using nx' by (simp add: p_def n_def)
    qed
    show "pv cs' i = (if i = nx cs f then pv cs f else pv cs i)" if "i \<in> set (xs @ ys @ [0])" for i
    proof -
      have "valid cs i" "i \<noteq> 1" "i \<noteq> f" using that vi v(1) z f path(3) by auto
      then show ?thesis using pv' by (simp add: p_def n_def)
    qed
  qed
  moreover have "fpath cs' f fl 1"
  proof (cases fl)
    case Nil
    then show ?thesis using path(2) nx' pv' v f by (auto simp: h_def)
  next
    case (Cons g gs)
    have "fpath cs' g gs 1"
    proof (rule fpath_frame [of cs])
      show "fpath cs g gs 1" using path(2) Cons by simp
      show "\<forall>i \<in> set (g # gs). nx cs' i = nx cs i \<and> pv cs' i = pv cs i"
      proof
        fix i assume "i \<in> set (g # gs)"
        then have i: "i \<in> set fl" using Cons by simp
        then have "i \<noteq> p" "i \<noteq> n" "i \<noteq> f" "i \<noteq> 1" using path(3) pn z by auto
        then show "nx cs' i = nx cs i \<and> pv cs' i = pv cs i" using nx' pv' vi i by simp
      qed
    qed
    then show ?thesis using Cons path(2) nx' pv' v f by (auto simp: h_def)
  qed
  moreover have "nx cs' 1 = f" "pv cs' 1 = f" using nx' pv' v by auto
  ultimately have "dinv cs' (xs @ ys) (f # fl)"
    using d by (auto simp: dinv_def cs'_def)
  then show ?thesis using run by (auto simp: cs'_def)
qed

lemma dchain_impl_rejuvenate_refused:
  assumes d: "dinv cs al fl" and f: "i + 2 \<in> set fl"
  shows "dchain_impl_rejuvenate_index cs i = Some (False, cs)"
  using dinv_free_loop [OF d f] dinv_valid [OF d, of "i + 2"] f
  by (simp add: dchain_impl_rejuvenate_index_def Let_def)

lemma dchain_impl_rejuvenate_moves:
  assumes d: "dinv cs (xs @ f # ys) fl"
  shows "\<exists>cs'. dchain_impl_rejuvenate_index cs (f - 2) = Some (True, cs') \<and>
    dinv cs' (xs @ ys @ [f]) fl \<and> length cs' = length cs"
proof (cases "nx cs f = pv cs f")
  case True
  have "valid cs f" using dinv_valid [OF d] by simp
  then have "dchain_impl_rejuvenate_index cs (f - 2) = Some (True, cs)"
    using True dinv_alloc_loop(2) [OF d] by (simp add: dchain_impl_rejuvenate_index_def Let_def)
  then show ?thesis using d True dinv_alloc_loop(1) [OF d] by auto
next
  case False
  define p where "p = pv cs f"
  define n where "n = nx cs f"
  define cs1 where "cs1 = upp (upn cs p n) n p"
  define q where "q = pv cs1 0"
  define cs' where "cs' = upp (upn (upp (upn cs1 f 0) f q) q f) 0 f"
  note z = dinv_zero [OF d]
  have path: "dpath cs 0 (xs @ f # ys) 0" "fpath cs 1 fl 1" "distinct ((xs @ f # ys) @ fl)"
    using d by (auto simp: dinv_def)
  have pn: "p \<in> set (0 # xs)" "n \<in> set (0 # ys)" using dinv_neighbours [OF d] p_def n_def by auto
  have v: "valid cs 0" "valid cs 1" "valid cs f" "valid cs p" "valid cs n"
    using dinv_heads [OF d] dinv_valid [OF d] dinv_neighbours_valid [OF d] by (auto simp: p_def n_def)
  have f: "f \<noteq> 0" "f \<noteq> 1" "p \<noteq> f" "p \<noteq> 1" "n \<noteq> f" "n \<noteq> 1"
    using z pn path(3) by auto
  have vi: "valid cs i" if "i \<in> set xs \<or> i \<in> set ys \<or> i \<in> set fl" for i
    using dinv_valid [OF d] that by auto
  have nx1: "nx cs1 i = (if i = p then n else nx cs i)"
    and pv1: "pv cs1 i = (if i = n then p else pv cs i)"
    if "valid cs i" for i using v f that by (auto simp: cs1_def)
  have path1: "dpath cs1 0 (xs @ ys) 0"
  proof (rule dpath_unlink [OF path(1)])
    show "distinct (0 # xs @ f # ys)" "0 \<notin> set xs" "0 \<notin> set ys" "0 \<noteq> f" using path(3) z by auto
    show "nx cs1 i = (if i = pv cs f then nx cs f else nx cs i)" if "i \<in> set (0 # xs @ ys)" for i
      using that nx1 vi v(1) by (auto simp: p_def n_def)
    show "pv cs1 i = (if i = nx cs f then pv cs f else pv cs i)" if "i \<in> set (xs @ ys @ [0])" for i
      using that pv1 vi v(1) by (auto simp: p_def n_def)
  qed
  have q: "q = last (0 # xs @ ys)" using dpath_last [OF path1] q_def by simp
  then have qin: "q \<in> set (0 # xs @ ys)" by (metis last_in_set list.distinct(1))
  have qv: "valid cs q" "q \<noteq> f" "q \<noteq> 1" using qin vi v(1) path(3) z f by auto
  have v1: "valid cs1 i = valid cs i" for i by (simp add: cs1_def)
  have run: "dchain_impl_rejuvenate_index cs (f - 2) = Some (True, cs')"
    using v f qv False v1
    by (simp add: dchain_impl_rejuvenate_index_def Let_def cs'_def q_def cs1_def p_def n_def)
  have nx': "nx cs' i = (if i = q then f else if i = f then 0 else nx cs1 i)"
    and pv': "pv cs' i = (if i = 0 then f else if i = f then q else pv cs1 i)"
    if "valid cs i" for i using v f qv that by (auto simp: cs'_def v1)
  have "dpath cs' 0 ((xs @ ys) @ [f]) 0"
  proof (rule dpath_link_last [OF path1])
    show "distinct (0 # xs @ ys)" "f \<notin> set (0 # xs @ ys)" "f \<noteq> 0" "0 \<notin> set (xs @ ys)"
      using path(3) z f by auto
    show "nx cs' i = (if i = pv cs1 0 then f else nx cs1 i)" if "i \<in> set (0 # xs @ ys)" for i
    proof -
      have "valid cs i" "i \<noteq> f" using that vi v(1) z f path(3) by auto
      then show ?thesis using nx' by (simp add: q_def)
    qed
    show "nx cs' f = 0" "pv cs' f = pv cs1 0" "pv cs' 0 = f"
      using nx' pv' v f qv by (simp_all add: q_def)
    show "pv cs' i = pv cs1 i" if "i \<in> set (xs @ ys)" for i
    proof -
      have "valid cs i" "i \<noteq> f" "i \<noteq> 0" using that vi z path(3) by auto
      then show ?thesis using pv' by simp
    qed
  qed
  moreover have "fpath cs' 1 fl 1"
  proof (rule fpath_frame [OF path(2)])
    show "\<forall>i \<in> set (1 # fl). nx cs' i = nx cs i \<and> pv cs' i = pv cs i"
    proof
      fix i assume i: "i \<in> set (1 # fl)"
      then have "valid cs i" "i \<noteq> p" "i \<noteq> n" "i \<noteq> f" "i \<noteq> q" "i \<noteq> 0"
        using path(3) pn z qin vi v f qv by auto
      then show "nx cs' i = nx cs i \<and> pv cs' i = pv cs i" using nx' pv' nx1 pv1 by simp
    qed
  qed
  ultimately have "dinv cs' (xs @ ys @ [f]) fl"
    using d by (auto simp: dinv_def cs'_def cs1_def)
  then show ?thesis using run by (auto simp: cs'_def cs1_def)
qed

lemma init_loop_links:
  assumes "2 \<le> i" "i \<le> sz + 1" "int (length cs) = sz + 2"
  shows "\<exists>cs'. init_loop cs sz i = Some cs' \<and> length cs' = length cs \<and>
    (\<forall>j. valid cs j \<and> j < i \<longrightarrow> nx cs' j = nx cs j \<and> pv cs' j = pv cs j) \<and> fpath cs' i [i + 1..sz + 1] 1"
  using assms
proof (induction "nat (sz + 1 - i)" arbitrary: i cs)
  case 0
  then have i: "i = sz + 1" and v: "valid cs i" by (auto simp: valid_def)
  have "init_loop cs sz i = Some (upp (upn cs i 1) i 1)"
    by (subst init_loop.simps) (use i v in simp)
  then show ?case using i v by simp
next
  case (Suc k)
  define cs1 where "cs1 = upp (upn cs i (i + 1)) i (i + 1)"
  have i: "i < sz + 1" and v: "valid cs i" using Suc.hyps(2) Suc.prems by (auto simp: valid_def)
  have step: "init_loop cs sz i = init_loop cs1 sz (i + 1)"
    using i v by (simp add: init_loop.simps [of cs sz i] cs1_def)
  have l: "length cs1 = length cs" and vv: "valid cs1 j = valid cs j" for j by (simp_all add: cs1_def)
  have "k = nat (sz + 1 - (i + 1))" "2 \<le> i + 1" "i + 1 \<le> sz + 1" "int (length cs1) = sz + 2"
    using Suc.hyps(2) Suc.prems i l by auto
  from Suc.hyps(1) [OF this] obtain cs' where c: "init_loop cs1 sz (i + 1) = Some cs'"
    "length cs' = length cs1" "fpath cs' (i + 1) [i + 1 + 1..sz + 1] 1"
    and keep: "\<And>j. valid cs j \<Longrightarrow> j < i + 1 \<Longrightarrow> nx cs' j = nx cs1 j \<and> pv cs' j = pv cs1 j"
    using vv by auto
  have own: "nx cs' i = i + 1" "pv cs' i = i + 1" using keep [of i] v by (auto simp: cs1_def)
  have rest: "nx cs' j = nx cs j \<and> pv cs' j = pv cs j" if "valid cs j" "j < i" for j
    using keep [of j] that v by (simp add: cs1_def)
  have "[i + 1..sz + 1] = (i + 1) # [i + 1 + 1..sz + 1]" using i by (simp add: upto_rec1)
  then have "fpath cs' i [i + 1..sz + 1] 1" using own c(3) by simp
  then show ?case using step c(1,2) l rest by auto
qed

lemma dchain_impl_init_dinv:
  assumes "1 \<le> sz" "int (length cs) = sz + 2"
  shows "\<exists>cs'. dchain_impl_init cs sz = Some cs' \<and> dinv cs' [] [2..sz + 1] \<and> length cs' = length cs"
proof -
  define cs1 where "cs1 = upp (upn (upn (upp cs 0 0) 0 0) 1 2) 1 2"
  have v: "valid cs 0" "valid cs 1" using assms by (auto simp: valid_def)
  have l: "length cs1 = length cs" and vv: "valid cs1 j = valid cs j" for j by (simp_all add: cs1_def)
  have step: "dchain_impl_init cs sz = init_loop cs1 sz 2"
    using v by (simp add: dchain_impl_init_def Let_def cs1_def)
  have h: "nx cs1 0 = 0" "pv cs1 0 = 0" "nx cs1 1 = 2" "pv cs1 1 = 2" using v by (simp_all add: cs1_def)
  have "(2::int) \<le> 2" "2 \<le> sz + 1" "int (length cs1) = sz + 2" using assms l by auto
  from init_loop_links [OF this] obtain cs' where c: "init_loop cs1 sz 2 = Some cs'"
    "length cs' = length cs1" "fpath cs' 2 [2 + 1..sz + 1] 1"
    and keep: "\<And>j. valid cs j \<Longrightarrow> j < 2 \<Longrightarrow> nx cs' j = nx cs1 j \<and> pv cs' j = pv cs1 j"
    using vv by auto
  have e: "[2..sz + 1] = 2 # [2 + 1..sz + 1]" using assms by (simp add: upto_rec1)
  have "fpath cs' 1 [2..sz + 1] 1" using c(3) keep [of 1] v h by (simp add: e)
  moreover have "dpath cs' 0 [] 0" using keep [of 0] v h by simp
  moreover have "distinct [2..sz + 1]" "set [2..sz + 1] = {2..<int (length cs')}" "2 < length cs'"
    using assms c(2) l by auto
  ultimately have "dinv cs' [] [2..sz + 1]" by (simp add: dinv_def)
  then show ?thesis using step c(1,2) l by auto
qed

subsection \<open>The contract: an ageing pool of indices\<close>

text \<open>
  The abstract state is the list of allocated indices with the time of their last use, least
  recently used first. The locale states what every client relies on.
\<close>

datatype age_op = Alloc nat | Touch nat nat | Expire nat

fun op_time :: "age_op \<Rightarrow> nat" where
  "op_time (Alloc t) = t"
| "op_time (Touch _ t) = t"
| "op_time (Expire t) = t"

definition ages :: "(nat \<times> nat) list \<Rightarrow> nat list" where
  "ages xs = map snd xs"

fun op_index :: "age_op \<Rightarrow> nat" where
  "op_index (Touch i _) = i"
| "op_index _ = 0"

fun run_age ::
  "('s \<Rightarrow> nat \<Rightarrow> (int option \<times> 's) option) \<Rightarrow> ('s \<Rightarrow> int \<Rightarrow> nat \<Rightarrow> (bool \<times> 's) option) \<Rightarrow>
   ('s \<Rightarrow> nat \<Rightarrow> (int option \<times> 's) option) \<Rightarrow> age_op list \<Rightarrow> 's \<Rightarrow> 's option" where
  "run_age alloc touch expire [] s = Some s"
| "run_age alloc touch expire (Alloc t # ops) s =
     (case alloc s t of None \<Rightarrow> None | Some (_, s') \<Rightarrow> run_age alloc touch expire ops s')"
| "run_age alloc touch expire (Touch i t # ops) s =
     (case touch s (int i) t of None \<Rightarrow> None | Some (_, s') \<Rightarrow> run_age alloc touch expire ops s')"
| "run_age alloc touch expire (Expire t # ops) s =
     (case expire s t of None \<Rightarrow> None | Some (_, s') \<Rightarrow> run_age alloc touch expire ops s')"

locale aging_index =
  fixes n :: nat
    and rel :: "'s \<Rightarrow> (nat \<times> nat) list \<Rightarrow> bool"
    and alloc :: "'s \<Rightarrow> nat \<Rightarrow> (int option \<times> 's) option"
    and touch :: "'s \<Rightarrow> int \<Rightarrow> nat \<Rightarrow> (bool \<times> 's) option"
    and expire :: "'s \<Rightarrow> nat \<Rightarrow> (int option \<times> 's) option"
    and is_alloc :: "'s \<Rightarrow> int \<Rightarrow> bool option"
  assumes indices: "rel s xs \<Longrightarrow> distinct (map fst xs) \<and> fst ` set xs \<subseteq> {..<n}"
    and alloc_full: "rel s xs \<Longrightarrow> length xs = n \<Longrightarrow> alloc s t = Some (None, s)"
    and alloc_room: "rel s xs \<Longrightarrow> length xs < n \<Longrightarrow>
      \<exists>i s'. alloc s t = Some (Some (int i), s') \<and> i < n \<and> i \<notin> fst ` set xs \<and> rel s' (xs @ [(i, t)])"
    and touch_in: "rel s (xs @ (i, t0) # ys) \<Longrightarrow>
      \<exists>s'. touch s (int i) t = Some (True, s') \<and> rel s' (xs @ ys @ [(i, t)])"
    and touch_out: "rel s xs \<Longrightarrow> i < n \<Longrightarrow> i \<notin> fst ` set xs \<Longrightarrow> touch s (int i) t = Some (False, s)"
    and expire_stale: "rel s ((i, t0) # xs) \<Longrightarrow> t0 < t \<Longrightarrow>
      \<exists>s'. expire s t = Some (Some (int i), s') \<and> rel s' xs"
    and expire_none: "rel s xs \<Longrightarrow> xs = [] \<or> t \<le> snd (hd xs) \<Longrightarrow> expire s t = Some (None, s)"
    and is_alloc_iff: "rel s xs \<Longrightarrow> i < n \<Longrightarrow> is_alloc s (int i) = Some (i \<in> fst ` set xs)"
begin

lemma length_le: "rel s xs \<Longrightarrow> length xs \<le> n"
  using indices [of s xs] distinct_card [of "map fst xs"] card_mono [of "{..<n}" "fst ` set xs"]
  by auto

lemma alloc_cases:
  assumes "rel s xs"
  obtains "length xs = n" "alloc s t = Some (None, s)"
  | i s' where "length xs < n" "alloc s t = Some (Some (int i), s')" "i < n" "i \<notin> fst ` set xs"
      "rel s' (xs @ [(i, t)])"
  using alloc_full [OF assms, of t] alloc_room [OF assms, of t] length_le [OF assms]
  by (metis le_neq_implies_less)

lemma touch_ages:
  assumes r: "rel s xs" and i: "i < n" and a: "sorted (ages xs)" "\<forall>u \<in> set (ages xs). u \<le> t"
  shows "\<exists>b s' xs'. touch s (int i) t = Some (b, s') \<and> rel s' xs' \<and> sorted (ages xs') \<and>
    (\<forall>u \<in> set (ages xs'). u \<le> t) \<and> fst ` set xs' = fst ` set xs"
proof (cases "i \<in> fst ` set xs")
  case True
  then obtain t0 where "(i, t0) \<in> set xs" by auto
  then obtain ys zs where x: "xs = ys @ (i, t0) # zs" by (meson split_list)
  then obtain s' where s: "touch s (int i) t = Some (True, s')" "rel s' (ys @ zs @ [(i, t)])"
    using touch_in [of s ys i t0 zs t] r by auto
  have "sorted (ages (ys @ zs @ [(i, t)]))" "\<forall>u \<in> set (ages (ys @ zs @ [(i, t)])). u \<le> t"
    using a x by (auto simp: ages_def sorted_append)
  moreover have "fst ` set (ys @ zs @ [(i, t)]) = fst ` set xs" using x by auto
  ultimately show ?thesis using s by blast
next
  case False
  then show ?thesis using touch_out [OF r i False] r a by blast
qed

text \<open>With a clock that does not go back, the order of the list is the order of age, so the
  stale indices are a prefix and \<open>expire\<close> always meets the stalest first.\<close>

lemma stale_prefix: "sorted (ages xs) \<Longrightarrow> takeWhile (\<lambda>x. snd x < t) xs = filter (\<lambda>x. snd x < t) xs"
proof (induction xs)
  case (Cons x xs)
  then have "\<forall>y \<in> set xs. snd x \<le> snd y" "sorted (ages xs)" by (auto simp: ages_def)
  then show ?case using Cons.IH by (fastforce intro: filter_False [symmetric])
qed simp

lemma fresh_suffix: "sorted (ages xs) \<Longrightarrow> dropWhile (\<lambda>x. snd x < t) xs = filter (\<lambda>x. t \<le> snd x) xs"
proof (induction xs)
  case (Cons x xs)
  show ?case
  proof (cases "snd x < t")
    case True
    then show ?thesis using Cons by (simp add: ages_def)
  next
    case False
    then have "\<forall>y \<in> set xs. t \<le> snd y" using Cons.prems by (fastforce simp: ages_def)
    then show ?thesis using False by (simp add: filter_True)
  qed
qed simp

lemma expire_ages:
  assumes r: "rel s xs" and a: "sorted (ages xs)"
  shows "\<exists>r s' xs'. expire s t = Some (r, s') \<and> rel s' xs' \<and> sorted (ages xs') \<and> set (ages xs') \<subseteq> set (ages xs)"
proof (cases "xs = [] \<or> t \<le> snd (hd xs)")
  case True
  then show ?thesis using expire_none [OF r True] r a by blast
next
  case False
  then obtain i t0 ys where x: "xs = (i, t0) # ys" "t0 < t" by (cases xs) auto
  then obtain s' where "expire s t = Some (Some (int i), s')" "rel s' ys"
    using expire_stale [of s i t0 ys t] r by auto
  moreover have "sorted (ages ys)" "set (ages ys) \<subseteq> set (ages xs)" using a x by (auto simp: ages_def)
  ultimately show ?thesis by blast
qed

lemma alloc_ages:
  assumes r: "rel s xs" and a: "sorted (ages xs)" "\<forall>u \<in> set (ages xs). u \<le> t"
  shows "\<exists>r s' xs'. alloc s t = Some (r, s') \<and> rel s' xs' \<and> sorted (ages xs') \<and> (\<forall>u \<in> set (ages xs'). u \<le> t)"
proof (rule alloc_cases [OF r, of t])
  assume "alloc s t = Some (None, s)"
  then show ?thesis using r a by blast
next
  fix i s' assume i: "alloc s t = Some (Some (int i), s')" "rel s' (xs @ [(i, t)])"
  have "sorted (ages (xs @ [(i, t)]))" "\<forall>u \<in> set (ages (xs @ [(i, t)])). u \<le> t"
    using a by (auto simp: ages_def sorted_append)
  then show ?thesis using i by blast
qed

text \<open>Any history under a clock that does not go back runs without a wild access and leaves the
  list ordered by age.\<close>

lemma run_age_sorted:
  "rel s xs \<Longrightarrow> sorted (ages xs) \<Longrightarrow> \<forall>u \<in> set (ages xs). \<forall>a \<in> set ops. u \<le> op_time a \<Longrightarrow>
   sorted (map op_time ops) \<Longrightarrow> \<forall>a \<in> set ops. op_index a < n \<Longrightarrow>
   \<exists>s' xs'. run_age alloc touch expire ops s = Some s' \<and> rel s' xs' \<and> sorted (ages xs')"
proof (induction ops arbitrary: s xs)
  case Nil
  then show ?case by auto
next
  case (Cons a ops)
  have le: "\<forall>b \<in> set ops. op_time a \<le> op_time b" and so: "sorted (map op_time ops)"
    and ix: "\<forall>b \<in> set ops. op_index b < n" and ua: "\<forall>u \<in> set (ages xs). u \<le> op_time a"
    using Cons.prems(3-5) by auto
  have go: "\<exists>s' xs'. run_age alloc touch expire ops s1 = Some s' \<and> rel s' xs' \<and> sorted (ages xs')"
    if "rel s1 ys" "sorted (ages ys)" "\<forall>u \<in> set (ages ys). u \<le> op_time a" for s1 ys
    using Cons.IH [OF that(1,2) _ so ix] that(3) le order_trans by blast
  show ?case
  proof (cases a)
    case (Alloc t)
    with alloc_ages [OF Cons.prems(1,2), of t] ua go show ?thesis by fastforce
  next
    case (Touch i t)
    have "i < n" using Cons.prems(5) Touch by simp
    with touch_ages [OF Cons.prems(1) _ Cons.prems(2), of i t] Touch ua go show ?thesis by fastforce
  next
    case (Expire t)
    obtain r s1 ys where e: "expire s t = Some (r, s1)" "rel s1 ys" "sorted (ages ys)"
      "set (ages ys) \<subseteq> set (ages xs)" using expire_ages [OF Cons.prems(1,2), of t] by blast
    then show ?thesis using Expire ua go [OF e(2,3)] by auto
  qed
qed

end

subsection \<open>The chain keeps the contract\<close>

definition cell_ids :: "(nat \<times> nat) list \<Rightarrow> int list" where
  "cell_ids xs = map (\<lambda>(i, t). int i + 2) xs"

definition dchain_rel :: "nat \<Rightarrow> dchain \<Rightarrow> (nat \<times> nat) list \<Rightarrow> bool" where
  "dchain_rel n ch xs \<longleftrightarrow> (\<exists>fl. dinv (dcells ch) (cell_ids xs) fl) \<and> length (dcells ch) = n + 2 \<and>
     length (timestamps ch) = n \<and> (\<forall>(i, t) \<in> set xs. timestamps ch ! i = t)"

lemma cell_ids_simps [simp]:
  "cell_ids [] = []" "cell_ids ((i, t) # xs) = (int i + 2) # cell_ids xs"
  "cell_ids (xs @ ys) = cell_ids xs @ cell_ids ys" "length (cell_ids xs) = length xs"
  by (simp_all add: cell_ids_def)

lemma cell_ids_mem: "int i + 2 \<in> set (cell_ids xs) \<longleftrightarrow> i \<in> fst ` set xs"
  by (force simp: cell_ids_def)

lemma cell_ids_distinct: "distinct (cell_ids xs) \<longleftrightarrow> distinct (map fst xs)"
  by (induction xs) (simp_all add: cell_ids_mem split_paired_all)

lemma ts_update:
  assumes "\<forall>(j, u) \<in> set xs. ts ! j = u" "i \<notin> fst ` set xs"
  shows "\<forall>(j, u) \<in> set xs. ts[i := t] ! j = u"
proof
  fix x assume x: "x \<in> set xs"
  then have "fst x \<noteq> i" "ts ! fst x = snd x" using assms by force+
  then show "case x of (j, u) \<Rightarrow> ts[i := t] ! j = u" by (simp add: case_prod_beta)
qed

lemma dchain_rel_indices:
  assumes "dchain_rel n ch xs"
  shows "distinct (map fst xs)" "fst ` set xs \<subseteq> {..<n}"
proof -
  obtain fl where d: "dinv (dcells ch) (cell_ids xs) fl" and l: "length (dcells ch) = n + 2"
    using assms by (auto simp: dchain_rel_def)
  show "distinct (map fst xs)" using d by (simp add: dinv_def flip: cell_ids_distinct)
  show "fst ` set xs \<subseteq> {..<n}"
  proof
    fix i assume "i \<in> fst ` set xs"
    then have "int i + 2 \<in> set (cell_ids xs)" by (simp add: cell_ids_mem)
    then show "i \<in> {..<n}" using dinv_range [OF d, of "int i + 2"] l by auto
  qed
qed

lemma dchain_rel_times:
  "dchain_rel n ch xs \<Longrightarrow> (i, t) \<in> set xs \<Longrightarrow> arr_get (timestamps ch) (int i) = Some t"
  using dchain_rel_indices(2) [of n ch xs] by (force simp: dchain_rel_def)

lemma dchain_rel_free:
  assumes d: "dinv (dcells ch) (cell_ids xs) fl" and "length (dcells ch) = n + 2"
  shows "length fl + length xs = n" "f \<in> set fl \<Longrightarrow> \<exists>i. f = int i + 2 \<and> i < n \<and> i \<notin> fst ` set xs"
proof -
  have "length (cell_ids xs @ fl) = card {2..<int (length (dcells ch))}"
    using d distinct_card [of "cell_ids xs @ fl"] by (simp only: dinv_def)
  then show "length fl + length xs = n" using assms(2) by simp
  assume f: "f \<in> set fl"
  then have r: "2 \<le> f" "f < int n + 2" using dinv_range [OF d, of f] assms(2) by auto
  have "f \<notin> set (cell_ids xs)" using d f by (auto simp: dinv_def)
  then have "nat (f - 2) \<notin> fst ` set xs" using r cell_ids_mem [of "nat (f - 2)" xs] by simp
  then show "\<exists>i. f = int i + 2 \<and> i < n \<and> i \<notin> fst ` set xs"
    using r by (intro exI [of _ "nat (f - 2)"]) auto
qed

lemma dchain_rel_not_allocated:
  assumes "dchain_rel n ch xs" "i < n" "i \<notin> fst ` set xs"
  obtains fl where "dinv (dcells ch) (cell_ids xs) fl" "int i + 2 \<in> set fl"
proof -
  obtain fl where d: "dinv (dcells ch) (cell_ids xs) fl" and l: "length (dcells ch) = n + 2"
    using assms by (auto simp: dchain_rel_def)
  have "int i + 2 \<in> set fl"
    using dinv_range [OF d, of "int i + 2"] assms(2,3) l by (auto simp: cell_ids_mem simp del: set_map)
  then show thesis using d that by blast
qed

lemma dchain_allocate_new_index_full:
  assumes r: "dchain_rel n ch xs" and l: "length xs = n"
  shows "dchain_allocate_new_index ch t = Some (None, ch)"
proof -
  obtain fl where d: "dinv (dcells ch) (cell_ids xs) fl" "length (dcells ch) = n + 2"
    using r by (auto simp: dchain_rel_def)
  then have "fl = []" using dchain_rel_free(1) [OF d] l by simp
  then have "dchain_impl_allocate_new_index (dcells ch) = Some (None, dcells ch)"
    using d dchain_impl_allocate_full by blast
  then show ?thesis by (simp add: dchain_allocate_new_index_def)
qed

lemma dchain_allocate_new_index_room:
  assumes r: "dchain_rel n ch xs" and l: "length xs < n"
  shows "\<exists>i ch'. dchain_allocate_new_index ch t = Some (Some (int i), ch') \<and> i < n \<and>
    i \<notin> fst ` set xs \<and> dchain_rel n ch' (xs @ [(i, t)])"
proof -
  obtain fl where d: "dinv (dcells ch) (cell_ids xs) fl" and lc: "length (dcells ch) = n + 2"
    and lt: "length (timestamps ch) = n" and ts: "\<forall>(i, t) \<in> set xs. timestamps ch ! i = t"
    using r by (auto simp: dchain_rel_def)
  obtain f gl where fl: "fl = f # gl" using dchain_rel_free(1) [OF d lc] l by (cases fl) auto
  then obtain i where i: "f = int i + 2" "i < n" "i \<notin> fst ` set xs"
    using dchain_rel_free(2) [OF d lc, of f] by auto
  obtain cs' where c: "dchain_impl_allocate_new_index (dcells ch) = Some (Some (int i), cs')"
    "dinv cs' (cell_ids xs @ [f]) gl" "length cs' = n + 2"
    using dchain_impl_allocate_moves [of "dcells ch" "cell_ids xs" f gl] d fl i lc by auto
  let ?ch' = "ch\<lparr>dcells := cs', timestamps := (timestamps ch)[i := t]\<rparr>"
  have "dchain_allocate_new_index ch t = Some (Some (int i), ?ch')"
    using c i lt by (simp add: dchain_allocate_new_index_def)
  moreover have "dchain_rel n ?ch' (xs @ [(i, t)])"
    using c i lt ts_update [OF ts i(3), of t] by (auto simp: dchain_rel_def)
  ultimately show ?thesis using i by blast
qed

lemma dchain_rejuvenate_in:
  assumes r: "dchain_rel n ch (xs @ (i, t0) # ys)"
  shows "\<exists>ch'. dchain_rejuvenate_index ch (int i) t = Some (True, ch') \<and> dchain_rel n ch' (xs @ ys @ [(i, t)])"
proof -
  obtain fl where d: "dinv (dcells ch) (cell_ids xs @ (int i + 2) # cell_ids ys) fl"
    and lc: "length (dcells ch) = n + 2"
    and lt: "length (timestamps ch) = n" and ts: "\<forall>(i, t) \<in> set (xs @ ys). timestamps ch ! i = t"
    using r by (auto simp: dchain_rel_def)
  have i: "i < n" "i \<notin> fst ` set (xs @ ys)" using dchain_rel_indices [OF r] by auto
  obtain cs' where c: "dchain_impl_rejuvenate_index (dcells ch) (int i) = Some (True, cs')"
    "dinv cs' (cell_ids xs @ cell_ids ys @ [int i + 2]) fl" "length cs' = n + 2"
    using dchain_impl_rejuvenate_moves [OF d] lc by auto
  let ?ch' = "ch\<lparr>dcells := cs', timestamps := (timestamps ch)[i := t]\<rparr>"
  have "dchain_rejuvenate_index ch (int i) t = Some (True, ?ch')"
    using c i lt by (simp add: dchain_rejuvenate_index_def)
  moreover have "dchain_rel n ?ch' (xs @ ys @ [(i, t)])"
    using c i(1) lt ts_update [OF ts i(2), of t] by (auto simp: dchain_rel_def)
  ultimately show ?thesis by blast
qed

lemma dchain_rejuvenate_out:
  assumes "dchain_rel n ch xs" "i < n" "i \<notin> fst ` set xs"
  shows "dchain_rejuvenate_index ch (int i) t = Some (False, ch)"
  using dchain_rel_not_allocated [OF assms] dchain_impl_rejuvenate_refused
  by (fastforce simp: dchain_rejuvenate_index_def)

lemma dchain_free_index_in:
  assumes r: "dchain_rel n ch (xs @ (i, t0) # ys)"
  shows "\<exists>ch'. dchain_free_index ch (int i) = Some (True, ch') \<and> dchain_rel n ch' (xs @ ys) \<and>
    dchain_impl_free_index (dcells ch) (int i) = Some (True, dcells ch') \<and> ch' = ch\<lparr>dcells := dcells ch'\<rparr>"
proof -
  obtain fl where d: "dinv (dcells ch) (cell_ids xs @ (int i + 2) # cell_ids ys) fl"
    and lc: "length (dcells ch) = n + 2"
    and lt: "length (timestamps ch) = n" and ts: "\<forall>(i, t) \<in> set (xs @ ys). timestamps ch ! i = t"
    using r by (auto simp: dchain_rel_def)
  obtain cs' where c: "dchain_impl_free_index (dcells ch) (int i) = Some (True, cs')"
    "dinv cs' (cell_ids xs @ cell_ids ys) ((int i + 2) # fl)" "length cs' = n + 2"
    using dchain_impl_free_moves [OF d] lc by auto
  have "dchain_rel n (ch\<lparr>dcells := cs'\<rparr>) (xs @ ys)"
    using c lt ts by (auto simp: dchain_rel_def)
  then show ?thesis using c by (intro exI [of _ "ch\<lparr>dcells := cs'\<rparr>"]) (simp add: dchain_free_index_def)
qed

lemma dchain_free_index_out:
  assumes "dchain_rel n ch xs" "i < n" "i \<notin> fst ` set xs"
  shows "dchain_free_index ch (int i) = Some (False, ch)"
  using dchain_rel_not_allocated [OF assms] dchain_impl_free_refused
  by (fastforce simp: dchain_free_index_def)

lemma dchain_free_ok:
  assumes "dchain_rel n ch xs" "b < n" "b \<in> fst ` set xs"
  shows "\<exists>ch' zs. dchain_free_index ch (int b) = Some (True, ch') \<and> dchain_rel n ch' zs \<and> fst ` set zs = fst ` set xs - {b}"
proof -
  obtain t0 ys zs where x: "xs = ys @ (b, t0) # zs" using assms(3) by (auto dest: split_list)
  moreover have "distinct (map fst xs)" by (rule dchain_rel_indices(1) [OF assms(1)])
  ultimately have "fst ` set (ys @ zs) = fst ` set xs - {b}" by auto
  then show ?thesis using dchain_free_index_in [of n ch ys b t0 zs] assms(1) x by blast
qed

lemma dchain_free_rel:
  assumes "dchain_rel n ch xs" "b < n" "dchain_free_index ch (int b) = Some (True, ch')"
  shows "\<exists>zs. dchain_rel n ch' zs \<and> fst ` set zs = fst ` set xs - {b}"
proof (cases "b \<in> fst ` set xs")
  case True
  then show ?thesis using dchain_free_ok [OF assms(1,2)] assms(3) by auto
next
  case False
  then show ?thesis using dchain_free_index_out [OF assms(1,2) False] assms(3) by simp
qed

lemma dchain_oldest:
  assumes r: "dchain_rel n ch xs"
  shows "dchain_impl_get_oldest_index (dcells ch) = Some (case xs of [] \<Rightarrow> None | x # _ \<Rightarrow> Some (int (fst x)))"
proof -
  obtain fl where d: "dinv (dcells ch) (cell_ids xs) fl" using r by (auto simp: dchain_rel_def)
  then have "nx (dcells ch) 0 = hd (cell_ids xs @ [0])" using dpath_first by (auto simp: dinv_def)
  then show ?thesis
    using dinv_heads [OF d] by (cases xs) (auto simp: dchain_impl_get_oldest_index_def split: prod.splits)
qed

lemma dchain_expire_stale:
  assumes r: "dchain_rel n ch ((i, t0) # xs)" and t: "t0 < t"
  shows "\<exists>ch'. dchain_expire_one_index ch t = Some (Some (int i), ch') \<and> dchain_rel n ch' xs"
  using dchain_free_index_in [of n ch "[]" i t0 xs] dchain_rel_times [OF r, of i t0] r t dchain_oldest [OF r]
  by (fastforce simp: dchain_expire_one_index_def)

lemma dchain_expire_none:
  assumes r: "dchain_rel n ch xs" and t: "xs = [] \<or> t \<le> snd (hd xs)"
  shows "dchain_expire_one_index ch t = Some (None, ch)"
proof (cases xs)
  case Nil
  then show ?thesis using dchain_oldest [OF r] by (simp add: dchain_expire_one_index_def)
next
  case (Cons x ys)
  then have "arr_get (timestamps ch) (int (fst x)) = Some (snd x)"
    using dchain_rel_times [OF r, of "fst x" "snd x"] by simp
  then show ?thesis using Cons t dchain_oldest [OF r] by (simp add: dchain_expire_one_index_def)
qed

lemma dchain_is_index_allocated_iff:
  assumes r: "dchain_rel n ch xs" and i: "i < n"
  shows "dchain_is_index_allocated ch (int i) = Some (i \<in> fst ` set xs)"
proof (cases "i \<in> fst ` set xs")
  case True
  then have "int i + 2 \<in> set (cell_ids xs)" by (simp add: cell_ids_mem del: set_map)
  then obtain as bs where s: "cell_ids xs = as @ (int i + 2) # bs" by (meson split_list)
  obtain fl where d: "dinv (dcells ch) (as @ (int i + 2) # bs) fl"
    using r s by (auto simp: dchain_rel_def)
  have "valid (dcells ch) (int i + 2)" using dinv_valid [OF d] by simp
  then show ?thesis using dinv_alloc_loop(2) [OF d] True
    by (auto simp: dchain_is_index_allocated_def dchain_impl_is_index_allocated_def Let_def)
next
  case False
  obtain fl where d: "dinv (dcells ch) (cell_ids xs) fl" and f: "int i + 2 \<in> set fl"
    using dchain_rel_not_allocated [OF r i False] .
  have "valid (dcells ch) (int i + 2)" using dinv_valid [OF d] f by simp
  then show ?thesis using dinv_free_loop [OF d f] False
    by (auto simp: dchain_is_index_allocated_def dchain_impl_is_index_allocated_def Let_def)
qed

interpretation dc: aging_index n "dchain_rel n" dchain_allocate_new_index dchain_rejuvenate_index
  dchain_expire_one_index dchain_is_index_allocated for n
proof (unfold_locales, goal_cases)
  case (1 s xs) then show ?case using dchain_rel_indices by blast
next
  case (2 s xs t) then show ?case by (rule dchain_allocate_new_index_full)
next
  case (3 s xs t) then show ?case by (rule dchain_allocate_new_index_room)
next
  case (4 s xs i t0 ys t) then show ?case by (rule dchain_rejuvenate_in)
next
  case (5 s xs i t) then show ?case by (rule dchain_rejuvenate_out)
next
  case (6 s i t0 xs t) then show ?case by (rule dchain_expire_stale)
next
  case (7 s xs t) then show ?case by (rule dchain_expire_none)
next
  case (8 s xs i) then show ?case by (rule dchain_is_index_allocated_iff)
qed

lemma dchain_allocate_rel:
  assumes "1 \<le> n" "length cs = n + 2" "length ts = n"
  shows "\<exists>ch. dchain_allocate (int n) (Some cs) (Some ts) = Some (Some ch) \<and> dchain_rel n ch []"
proof -
  have "1 \<le> int n" "int (length cs) = int n + 2" using assms by auto
  from dchain_impl_init_dinv [OF this] obtain cs' where
    "dchain_impl_init cs (int n) = Some cs'" "dinv cs' [] [2..int n + 1]" "length cs' = length cs" by auto
  then show ?thesis using assms by (auto simp: dchain_allocate_def dchain_rel_def)
qed

subsection \<open>Properties\<close>

lemma filter_without:
  assumes "distinct (map fst (ys @ (i, t0) # zs))"
  shows "filter (\<lambda>x. fst x \<noteq> i) (ys @ (i, t0) # zs) = ys @ zs"
proof -
  have "i \<notin> fst ` set ys" "i \<notin> fst ` set zs" using assms by simp_all
  then have "\<forall>x \<in> set ys. fst x \<noteq> i" "\<forall>x \<in> set zs. fst x \<noteq> i" by blast+
  then have "filter (\<lambda>x. fst x \<noteq> i) ys = ys" "filter (\<lambda>x. fst x \<noteq> i) zs = zs"
    by (simp_all only: filter_id_conv)
  then show ?thesis by simp
qed

definition demo_chain :: dchain where
  "demo_chain = the (the (dchain_allocate 3 (Some (replicate 5 \<lparr>cprev = 9, cnext = 9\<rparr>)) (Some [8, 8, 8])))"

lemma demo_chain: "dchain_rel 3 demo_chain []"
proof -
  have "\<exists>ch. dchain_allocate (int 3) (Some (replicate 5 \<lparr>cprev = 9, cnext = 9\<rparr>)) (Some [8, 8, 8]) =
      Some (Some ch) \<and> dchain_rel 3 ch []"
    by (rule dchain_allocate_rel) simp_all
  then show ?thesis by (auto simp: demo_chain_def)
qed

text \<open>Allocation of an index. With every index in use the call fails and changes nothing; otherwise it
  returns an index that was free, which becomes the most recently used one with the given time.\<close>

theorem dchain_allocate_new_index_correct:
  assumes "dchain_rel n ch xs"
  shows "if length xs = n then dchain_allocate_new_index ch t = Some (None, ch)
    else \<exists>i ch'. dchain_allocate_new_index ch t = Some (Some (int i), ch') \<and> i < n \<and>
      i \<notin> fst ` set xs \<and> dchain_rel n ch' (xs @ [(i, t)])"
proof (cases "length xs = n")
  case True
  then show ?thesis using dc.alloc_full [OF assms True, of t] by simp
next
  case False
  then have "length xs < n" using dc.length_le [OF assms] by simp
  from dc.alloc_room [OF assms this, of t] False show ?thesis by simp
qed

theorem dchain_allocate_new_index_correct_witness:
  "\<exists>i ch'. dchain_allocate_new_index demo_chain 10 = Some (Some (int i), ch') \<and> i < 3 \<and> dchain_rel 3 ch' [(i, 10)]"
  using dchain_allocate_new_index_correct [OF demo_chain, of 10] by auto

text \<open>Rejuvenation. An allocated index moves to the most recently used end with the given time and the
  order of the others is kept; a free index is refused and nothing changes.\<close>

theorem dchain_rejuvenate_index_correct:
  assumes "dchain_rel n ch xs" "i < n"
  shows "if i \<in> fst ` set xs
    then \<exists>ch'. dchain_rejuvenate_index ch (int i) t = Some (True, ch') \<and>
      dchain_rel n ch' (filter (\<lambda>x. fst x \<noteq> i) xs @ [(i, t)])
    else dchain_rejuvenate_index ch (int i) t = Some (False, ch)"
proof (cases "i \<in> fst ` set xs")
  case True
  then obtain t0 where "(i, t0) \<in> set xs" by auto
  then obtain ys zs where x: "xs = ys @ (i, t0) # zs" by (meson split_list)
  then have "distinct (map fst (ys @ (i, t0) # zs))" using dchain_rel_indices(1) [OF assms(1)] by simp
  then have "filter (\<lambda>x. fst x \<noteq> i) xs = ys @ zs" unfolding x by (rule filter_without)
  moreover obtain ch' where "dchain_rejuvenate_index ch (int i) t = Some (True, ch')"
    "dchain_rel n ch' (ys @ zs @ [(i, t)])" using dc.touch_in [of n ch ys i t0 zs t] assms(1) x by auto
  ultimately show ?thesis using True by simp
next
  case False
  then show ?thesis using dc.touch_out [OF assms False, of t] by simp
qed

theorem dchain_rejuvenate_index_correct_witness:
  "dchain_rejuvenate_index demo_chain 2 10 = Some (False, demo_chain)"
  using dchain_rejuvenate_index_correct [OF demo_chain, of 2 10] by simp

text \<open>Expiry of one index. The least recently used index is released exactly when its time is before the
  given one; otherwise, or with no index in use, nothing changes.\<close>

theorem dchain_expire_one_index_correct:
  assumes "dchain_rel n ch xs"
  shows "case xs of
      [] \<Rightarrow> dchain_expire_one_index ch t = Some (None, ch)
    | (i, u) # ys \<Rightarrow>
        if u < t then \<exists>ch'. dchain_expire_one_index ch t = Some (Some (int i), ch') \<and> dchain_rel n ch' ys
        else dchain_expire_one_index ch t = Some (None, ch)"
  using dc.expire_none [OF assms, of t] dc.expire_stale [where s = ch and n = n and t = t] assms
  by (cases xs) (auto split: prod.splits)

theorem dchain_expire_one_index_correct_witness:
  "dchain_expire_one_index demo_chain 10 = Some (None, demo_chain)"
  using dchain_expire_one_index_correct [OF demo_chain, of 10] by simp

text \<open>C6. Histories. From an empty chain, any sequence of allocations, rejuvenations and expiries whose
  times do not go back runs without an access outside the arrays and leaves the list of indices
  well formed and ordered by time of last use.\<close>

theorem dchain_history_ordered:
  assumes "dchain_rel n ch []" "sorted (map op_time ops)" "\<forall>a \<in> set ops. op_index a < n"
  shows "\<exists>ch' xs. run_age dchain_allocate_new_index dchain_rejuvenate_index dchain_expire_one_index ops ch =
      Some ch' \<and> dchain_rel n ch' xs \<and> sorted (map snd xs)"
  using dc.run_age_sorted [OF assms(1), of ops] assms(2,3) by (simp add: ages_def)

theorem dchain_history_ordered_witness:
  "\<exists>ch' xs. run_age dchain_allocate_new_index dchain_rejuvenate_index dchain_expire_one_index
      [Alloc 1, Alloc 2, Touch 0 5, Expire 6, Alloc 9] demo_chain = Some ch' \<and> dchain_rel 3 ch' xs \<and> sorted (map snd xs)"
  by (rule dchain_history_ordered [OF demo_chain]) simp_all

text \<open>Release of an index by its number: an allocated index leaves the list, a free one is refused;
  and \<open>dchain_is_index_allocated\<close> tells the two apart.\<close>

theorem dchain_free_index_correct:
  assumes "dchain_rel n ch xs" "i < n"
  shows "dchain_is_index_allocated ch (int i) = Some (i \<in> fst ` set xs) \<and>
    (if i \<in> fst ` set xs
      then \<exists>ch'. dchain_free_index ch (int i) = Some (True, ch') \<and> dchain_rel n ch' (filter (\<lambda>x. fst x \<noteq> i) xs)
      else dchain_free_index ch (int i) = Some (False, ch))"
proof (rule conjI)
  show "dchain_is_index_allocated ch (int i) = Some (i \<in> fst ` set xs)"
    using dc.is_alloc_iff [OF assms] .
  show "if i \<in> fst ` set xs
      then \<exists>ch'. dchain_free_index ch (int i) = Some (True, ch') \<and> dchain_rel n ch' (filter (\<lambda>x. fst x \<noteq> i) xs)
      else dchain_free_index ch (int i) = Some (False, ch)"
  proof (cases "i \<in> fst ` set xs")
    case True
    then obtain t0 where "(i, t0) \<in> set xs" by auto
    then obtain ys zs where x: "xs = ys @ (i, t0) # zs" by (meson split_list)
    then have "distinct (map fst (ys @ (i, t0) # zs))" using dchain_rel_indices(1) [OF assms(1)] by simp
    then have "filter (\<lambda>x. fst x \<noteq> i) xs = ys @ zs" unfolding x by (rule filter_without)
    then show ?thesis using True dchain_free_index_in [of n ch ys i t0 zs] assms(1) x by auto
  next
    case False
    then show ?thesis using dchain_free_index_out [OF assms False] by simp
  qed
qed

theorem dchain_free_index_correct_witness:
  "dchain_is_index_allocated demo_chain 1 = Some False \<and> dchain_free_index demo_chain 1 = Some (False, demo_chain)"
  using dchain_free_index_correct [OF demo_chain, of 1] by simp

end
