(* ===== verification/Expirator.thy ===== *)
theory Expirator
  imports Map_Api DChain Vector
begin

section \<open>A keyed pool and its expiry: expirator.c\<close>

text \<open>
  The recurring shape of a Vigor network function: an index allocator, a vector with one slot per
  index that holds the index's key, and a map from keys to indices whose key pointers point into
  the vector. \<open>expire_items_single_map\<close> releases every index older than a given time from all
  three. Its \<^verbatim>\<open>while\<close> loop is a partial function, so that \<open>Some\<close> states that it ends and stays
  within its arrays.

  Parameters: \<open>mem\<close> is the memory the map's function pointers read, and \<open>ptr\<close> turns an offset
  into the vector's block into a key pointer.
\<close>

partial_function (option) expire_single_map_loop ::
  "'mem \<Rightarrow> (int \<Rightarrow> 'p) \<Rightarrow> vector \<Rightarrow> nat \<Rightarrow> dchain \<Rightarrow> ('mem, 'p) hmap \<Rightarrow> nat
    \<Rightarrow> (nat \<times> dchain \<times> ('mem, 'p) hmap) option" where
  "expire_single_map_loop mem ptr v time ch mp count =
     Option.bind (dchain_expire_one_index ch time) (\<lambda>(r, ch').
       case r of
         None \<Rightarrow> Some (count, ch', mp)
       | Some index \<Rightarrow>
           (let key = vector_borrow v index;
                (trash, mp') = map_erase mem mp (ptr key)
            in expire_single_map_loop mem ptr (vector_return v index key) time ch' mp' (count + 1)))"

definition expire_items_single_map ::
  "'mem \<Rightarrow> (int \<Rightarrow> 'p) \<Rightarrow> dchain \<Rightarrow> vector \<Rightarrow> ('mem, 'p) hmap \<Rightarrow> nat
    \<Rightarrow> (nat \<times> dchain \<times> ('mem, 'p) hmap) option" where
  "expire_items_single_map mem ptr ch v mp time = expire_single_map_loop mem ptr v time ch mp 0"

subsection \<open>The invariant of a keyed pool\<close>

definition slot_key ::
  "('mem \<Rightarrow> 'p \<Rightarrow> 'k) \<Rightarrow> (int \<Rightarrow> 'p) \<Rightarrow> 'mem \<Rightarrow> vector \<Rightarrow> nat \<Rightarrow> 'k" where
  "slot_key keyf ptr mem v i = keyf mem (ptr (vector_borrow v (int i)))"

definition keyed_pool ::
  "('mem \<Rightarrow> 'p \<Rightarrow> 'k) \<Rightarrow> ('k \<Rightarrow> nat) \<Rightarrow> (int \<Rightarrow> 'p) \<Rightarrow> 'mem \<Rightarrow> vector \<Rightarrow> nat \<Rightarrow> dchain
    \<Rightarrow> ('mem, 'p) hmap \<Rightarrow> (nat \<times> nat) list \<Rightarrow> bool" where
  "keyed_pool keyf hsh ptr mem v n ch mp xs \<longleftrightarrow>
     dchain_rel n ch xs \<and> hmap_wf keyf hsh mem mp \<and> capacity mp = n \<and>
     hmap_ptrs mp \<subseteq> (\<lambda>i. ptr (vector_borrow v (int i))) ` fst ` set xs \<and>
     (\<forall>k u. hmap_abs keyf mem mp k = Some u \<longleftrightarrow>
        (\<exists>i \<in> fst ` set xs. u = int i \<and> slot_key keyf ptr mem v i = k))"

lemma keyed_poolD:
  assumes "keyed_pool keyf hsh ptr mem v n ch mp xs"
  shows "dchain_rel n ch xs" "hmap_wf keyf hsh mem mp" "capacity mp = n"
    "hmap_ptrs mp \<subseteq> (\<lambda>i. ptr (vector_borrow v (int i))) ` fst ` set xs"
    "hmap_abs keyf mem mp k = Some u \<longleftrightarrow>
      (\<exists>i \<in> fst ` set xs. u = int i \<and> slot_key keyf ptr mem v i = k)"
  using assms by (auto simp: keyed_pool_def)

lemma keyed_pool_inj:
  assumes "keyed_pool keyf hsh ptr mem v n ch mp xs" "i \<in> fst ` set xs" "j \<in> fst ` set xs"
    "slot_key keyf ptr mem v i = slot_key keyf ptr mem v j"
  shows "i = j"
proof -
  have "hmap_abs keyf mem mp (slot_key keyf ptr mem v i) = Some (int i)"
    "hmap_abs keyf mem mp (slot_key keyf ptr mem v i) = Some (int j)"
    using keyed_poolD(5) [OF assms(1)] assms(2-4) by auto
  then show ?thesis by simp
qed

lemma keyed_pool_card:
  assumes p: "keyed_pool keyf hsh ptr mem v n ch mp xs"
  shows "card (dom (hmap_abs keyf mem mp)) = length xs"
proof -
  have "dom (hmap_abs keyf mem mp) = slot_key keyf ptr mem v ` fst ` set xs"
    using keyed_poolD(5) [OF p] by (fastforce simp: dom_def)
  moreover have "inj_on (slot_key keyf ptr mem v) (fst ` set xs)"
    using keyed_pool_inj [OF p] by (auto simp: inj_on_def)
  moreover have "card (fst ` set xs) = length xs"
    using dchain_rel_indices(1) [OF keyed_poolD(1) [OF p]] by (metis distinct_card length_map set_map)
  ultimately show ?thesis by (simp add: card_image)
qed

text \<open>Lookup.\<close>

lemma keyed_pool_get:
  assumes p: "keyed_pool keyf hsh ptr mem v n ch mp xs"
  shows "map_get mem mp q = Some u \<longleftrightarrow>
    (\<exists>i \<in> fst ` set xs. u = int i \<and> slot_key keyf ptr mem v i = keyf mem q)"
  using hm.get_abs [OF keyed_poolD(2) [OF p]] keyed_poolD(5) [OF p] by simp

lemma keyed_pool_get_None:
  assumes p: "keyed_pool keyf hsh ptr mem v n ch mp xs"
  shows "map_get mem mp q = None \<longleftrightarrow> (\<forall>i \<in> fst ` set xs. slot_key keyf ptr mem v i \<noteq> keyf mem q)"
  using keyed_pool_get [OF p, of q] by (cases "map_get mem mp q") auto

text \<open>A pool only depends on the order of its indices through the chain.\<close>

lemma keyed_pool_reorder:
  "keyed_pool keyf hsh ptr mem v n ch mp xs \<Longrightarrow> dchain_rel n ch' xs' \<Longrightarrow>
   fst ` set xs' = fst ` set xs \<Longrightarrow> keyed_pool keyf hsh ptr mem v n ch' mp xs'"
  by (simp add: keyed_pool_def)

lemma keyed_pool_touch:
  assumes p: "keyed_pool keyf hsh ptr mem v n ch mp (ys @ (i, t0) # zs)"
  shows "\<exists>ch'. dchain_rejuvenate_index ch (int i) t = Some (True, ch') \<and>
    keyed_pool keyf hsh ptr mem v n ch' mp (ys @ zs @ [(i, t)])"
proof -
  obtain ch' where "dchain_rejuvenate_index ch (int i) t = Some (True, ch')"
    "dchain_rel n ch' (ys @ zs @ [(i, t)])"
    using dc.touch_in [OF keyed_poolD(1) [OF p]] by blast
  then show ?thesis using keyed_pool_reorder [OF p] by auto
qed

text \<open>Writes to memory that no key slot sees.\<close>

lemma keyed_pool_frame:
  assumes p: "keyed_pool keyf hsh ptr mem v n ch mp xs"
    and same: "\<And>j. j \<in> fst ` set xs \<Longrightarrow> slot_key keyf ptr mem' v j = slot_key keyf ptr mem v j"
    and eq: "\<And>p q. keys_eq mp mem' p q \<longleftrightarrow> keyf mem' p = keyf mem' q"
    and kh: "\<And>p. khash mp mem' p = hsh (keyf mem' p)"
  shows "keyed_pool keyf hsh ptr mem' v n ch mp xs"
proof -
  note d = keyed_poolD [OF p]
  have "keyf mem' q = keyf mem q" if "q \<in> hmap_ptrs mp" for q
    using d(4) that same by (fastforce simp: slot_key_def)
  then show ?thesis
    using hmap_frame [OF d(2) _ eq kh] d same by (simp add: keyed_pool_def)
qed

text \<open>Insertion, after the slot of a fresh index has been written in memory \<open>mem'\<close>.\<close>

lemma keyed_pool_insert:
  assumes p: "keyed_pool keyf hsh ptr mem v n ch mp xs"
    and ch: "dchain_rel n ch' (xs @ [(i, t)])"
    and v: "elem_size v' = elem_size v"
    and same: "\<And>j. j \<in> fst ` set xs \<Longrightarrow> slot_key keyf ptr mem' v j = slot_key keyf ptr mem v j"
    and eq: "\<And>p q. keys_eq mp mem' p q \<longleftrightarrow> keyf mem' p = keyf mem' q"
    and kh: "\<And>p. khash mp mem' p = hsh (keyf mem' p)"
    and fresh: "\<forall>j \<in> fst ` set xs. slot_key keyf ptr mem v j \<noteq> slot_key keyf ptr mem' v i"
  shows "\<exists>mp'. map_put mem' mp (ptr (vector_borrow v (int i))) (int i) = Some mp' \<and>
    keyed_pool keyf hsh ptr mem' v' n ch' mp' (xs @ [(i, t)]) \<and>
    keys_eq mp' = keys_eq mp \<and> khash mp' = khash mp"
proof -
  let ?key = "slot_key keyf ptr mem' v" and ?p = "ptr (vector_borrow v (int i))"
  note d = keyed_poolD [OF p]
  have pv: "vector_borrow v' = vector_borrow v" using v by (auto simp: vector_borrow_def)
  have "keyf mem' q = keyf mem q" if "q \<in> hmap_ptrs mp" for q
    using d(4) that same by (fastforce simp: slot_key_def)
  then have wf: "hmap_wf keyf hsh mem' mp" and abs: "hmap_abs keyf mem' mp = hmap_abs keyf mem mp"
    using hmap_frame [OF d(2) _ eq kh] by blast+
  have none: "hmap_abs keyf mem' mp (keyf mem' ?p) = None"
    using d(5) fresh by (metis abs not_Some_eq slot_key_def)
  have "length (xs @ [(i, t)]) \<le> n" using dc.length_le [OF ch] .
  then have room: "card (dom (hmap_abs keyf mem' mp)) < capacity mp"
    using keyed_pool_card [OF p] abs d(3) by simp
  obtain mp' where mp': "map_put mem' mp ?p (int i) = Some mp'" "hmap_wf keyf hsh mem' mp'"
    "hmap_abs keyf mem' mp' = (hmap_abs keyf mem' mp)(keyf mem' ?p \<mapsto> int i)" "capacity mp' = n"
    using hm.put_abs [OF wf none room] d(3) by blast
  note ptrs = map_put_ptrs [OF wf none room mp'(1)]
  have "hmap_abs keyf mem' mp' k = Some u \<longleftrightarrow>
    (\<exists>j \<in> fst ` set (xs @ [(i, t)]). u = int j \<and> ?key j = k)" for k u
  proof (cases "k = ?key i")
    case True
    then have "hmap_abs keyf mem' mp' k = Some (int i)" using mp'(3) by (simp add: slot_key_def)
    then show ?thesis using True fresh same by auto
  next
    case False
    then have "hmap_abs keyf mem' mp' k = hmap_abs keyf mem mp k"
      using mp'(3) abs by (simp add: slot_key_def)
    then show ?thesis using False d(5) same by auto
  qed
  moreover have "hmap_ptrs mp' \<subseteq> (\<lambda>j. ptr (vector_borrow v (int j))) ` fst ` set (xs @ [(i, t)])"
    using ptrs d(4) by auto
  ultimately have "keyed_pool keyf hsh ptr mem' v' n ch' mp' (xs @ [(i, t)])"
    using mp' ch by (simp add: keyed_pool_def slot_key_def pv)
  then show ?thesis using mp'(1) ptrs by blast
qed

text \<open>Removal of the stalest index.\<close>

lemma keyed_pool_pop:
  assumes p: "keyed_pool keyf hsh ptr mem v n ch mp ((i, t0) # xs)" and ch: "dchain_rel n ch' xs"
  shows "keyed_pool keyf hsh ptr mem v n ch' (snd (map_erase mem mp (ptr (vector_borrow v (int i))))) xs"
proof -
  let ?key = "slot_key keyf ptr mem v" and ?p = "ptr (vector_borrow v (int i))"
  note d = keyed_poolD [OF p]
  have ki: "keyf mem ?p = ?key i" by (simp add: slot_key_def)
  have ni: "i \<notin> fst ` set xs" using dchain_rel_indices(1) [OF d(1)] by simp
  have some: "hmap_abs keyf mem mp (keyf mem ?p) \<noteq> None" using d(5) by (auto simp: ki)
  obtain q mp' where mp': "map_erase mem mp ?p = (Some q, mp')" "hmap_wf keyf hsh mem mp'"
    "hmap_abs keyf mem mp' = (hmap_abs keyf mem mp)(keyf mem ?p := None)" "capacity mp' = n"
    using hm.erase_abs [OF d(2) some] d(3) by blast
  have "hmap_ptrs mp' \<subseteq> (\<lambda>j. ptr (vector_borrow v (int j))) ` fst ` set xs"
    using map_erase_ptrs(1) [OF d(2) some] d(4) mp'(1) by auto
  moreover have "hmap_abs keyf mem mp' k = Some u \<longleftrightarrow>
    (\<exists>j \<in> fst ` set xs. u = int j \<and> ?key j = k)" for k u
  proof (cases "k = ?key i")
    case True
    then have "hmap_abs keyf mem mp' k = None" using mp'(3) ki by simp
    moreover have "?key j \<noteq> ?key i" if "j \<in> fst ` set xs" for j
    proof
      assume "?key j = ?key i"
      moreover have "j \<in> fst ` set ((i, t0) # xs)" "i \<in> fst ` set ((i, t0) # xs)" using that by auto
      ultimately have "j = i" using keyed_pool_inj [OF p] by blast
      then show False using ni that by simp
    qed
    ultimately show ?thesis using True by auto
  next
    case False
    then have "hmap_abs keyf mem mp' k = hmap_abs keyf mem mp k" using mp'(3) ki by simp
    then show ?thesis using False d(5) by auto
  qed
  ultimately show ?thesis using mp' ch by (simp add: keyed_pool_def)
qed

lemma map_erase_fns:
  "keys_eq (snd (map_erase mem mp q)) = keys_eq mp" "khash (snd (map_erase mem mp q)) = khash mp"
  by (simp_all add: map_erase_def Let_def split: prod.split)

subsection \<open>Expiry\<close>

lemma expire_loop_takes_prefix:
  assumes "keyed_pool keyf hsh ptr mem v n ch mp xs"
  shows "\<exists>ch' mp'. expire_single_map_loop mem ptr v time ch mp c =
      Some (c + length (takeWhile (\<lambda>x. snd x < time) xs), ch', mp') \<and>
    keyed_pool keyf hsh ptr mem v n ch' mp' (dropWhile (\<lambda>x. snd x < time) xs) \<and>
    keys_eq mp' = keys_eq mp \<and> khash mp' = khash mp"
  using assms
proof (induction xs arbitrary: ch mp c)
  case Nil
  then have "dchain_expire_one_index ch time = Some (None, ch)"
    using dc.expire_none [OF keyed_poolD(1) [OF Nil]] by simp
  then show ?case using Nil by (subst expire_single_map_loop.simps) simp
next
  case (Cons x xs)
  obtain i t0 where x: "x = (i, t0)" by fastforce
  show ?case
  proof (cases "t0 < time")
    case True
    obtain ch1 where ch1: "dchain_expire_one_index ch time = Some (Some (int i), ch1)" "dchain_rel n ch1 xs"
      using dc.expire_stale [of n ch i t0 xs time] keyed_poolD(1) [OF Cons.prems] x True by auto
    let ?mp = "snd (map_erase mem mp (ptr (vector_borrow v (int i))))"
    have "keyed_pool keyf hsh ptr mem v n ch1 ?mp xs"
      by (rule keyed_pool_pop [OF _ ch1(2)]) (use Cons.prems x in simp)
    from Cons.IH [OF this, of "c + 1"] show ?thesis
      using ch1(1) x True unfolding map_erase_fns
      by (subst expire_single_map_loop.simps) (simp add: Let_def case_prod_beta vector_return_def)
  next
    case False
    then have "dchain_expire_one_index ch time = Some (None, ch)"
      using dc.expire_none [OF keyed_poolD(1) [OF Cons.prems]] x by auto
    then show ?thesis using Cons.prems x False by (subst expire_single_map_loop.simps) simp
  qed
qed

text \<open>With times in order the loop removes exactly the indices last used before \<open>time\<close>.\<close>

lemma expire_items_stale:
  assumes "keyed_pool keyf hsh ptr mem v n ch mp xs" "sorted (ages xs)"
  shows "\<exists>ch' mp'. expire_items_single_map mem ptr ch v mp time =
      Some (length (filter (\<lambda>x. snd x < time) xs), ch', mp') \<and>
    keyed_pool keyf hsh ptr mem v n ch' mp' (filter (\<lambda>x. time \<le> snd x) xs) \<and>
    keys_eq mp' = keys_eq mp \<and> khash mp' = khash mp"
  using expire_loop_takes_prefix [OF assms(1), of time 0] dc.stale_prefix [OF assms(2)]
    dc.fresh_suffix [OF assms(2)]
  by (simp add: expire_items_single_map_def)

subsection \<open>Properties\<close>

text \<open>C9. Expiry of a keyed pool. With times in order, the loop ends, stays inside its arrays, returns the
  number of indices last used before \<open>time\<close>, and leaves the chain, the vector and the map in
  agreement on exactly the other indices.\<close>

theorem expire_items_single_map_correct:
  assumes "keyed_pool keyf hsh ptr mem v n ch mp xs" "sorted (map snd xs)"
  shows "\<exists>ch' mp'. expire_items_single_map mem ptr ch v mp time =
      Some (length (filter (\<lambda>x. snd x < time) xs), ch', mp') \<and>
    keyed_pool keyf hsh ptr mem v n ch' mp' (filter (\<lambda>x. time \<le> snd x) xs)"
  using expire_items_stale [OF assms(1), of time] assms(2) by (auto simp: ages_def)

definition demo_vector :: vector where
  "demo_vector = \<lparr>vdata = [5, 6, 7], elem_size = 1, vcapacity = 3\<rparr>"

definition byte_key :: "bytes \<Rightarrow> int \<Rightarrow> nat" where
  "byte_key d p = (case load_bytes d p 1 of Some [b] \<Rightarrow> unat b | _ \<Rightarrow> 0)"

definition demo_byte_map :: "(bytes, int) hmap" where
  "demo_byte_map = the (map_allocate (\<lambda>d p q. byte_key d p = byte_key d q) byte_key 3
     (Some \<lparr>busybits = [7, 7, 7], keyps = [9, 9, 9], k_hashes = [1, 2, 3], chns = [5, 5, 5], vals = [0, 0, 0]\<rparr>))"

lemma demo_byte_map:
  "hmap_wf byte_key (\<lambda>k. k) d demo_byte_map" "hmap_abs byte_key d demo_byte_map = Map.empty"
  "capacity demo_byte_map = 3" "hmap_ptrs demo_byte_map = {}"
  "keys_eq demo_byte_map = (\<lambda>d p q. byte_key d p = byte_key d q)" "khash demo_byte_map = byte_key"
proof -
  let ?a = "\<lparr>busybits = [7, 7, 7], keyps = [9, 9, 9], k_hashes = [1, 2, 3], chns = [5, 5, 5],
    vals = [0, 0, 0]\<rparr> :: int map_arrays"
  obtain mp where mp: "map_allocate (\<lambda>d p q. byte_key d p = byte_key d q) byte_key 3 (Some ?a) = Some mp"
    "hmap_wf byte_key (\<lambda>k. k) d mp" "hmap_abs byte_key d mp = Map.empty" "capacity mp = 3"
    using map_allocate_wf [of 3 "\<lambda>d p q. byte_key d p = byte_key d q" byte_key byte_key "\<lambda>k. k" ?a d] by auto
  have "mp = demo_byte_map" using mp(1) by (simp add: demo_byte_map_def)
  then show "hmap_wf byte_key (\<lambda>k. k) d demo_byte_map" "hmap_abs byte_key d demo_byte_map = Map.empty"
    "capacity demo_byte_map = 3" "hmap_ptrs demo_byte_map = {}"
    "keys_eq demo_byte_map = (\<lambda>d p q. byte_key d p = byte_key d q)" "khash demo_byte_map = byte_key"
    using mp map_allocate_ptrs [OF mp(1)] by simp_all
qed

theorem expire_items_single_map_correct_witness:
  "\<exists>i ch mp ch' mp'. dchain_allocate_new_index demo_chain 10 = Some (Some (int i), ch) \<and>
    map_put [5, 6, 7] demo_byte_map (vector_borrow demo_vector (int i)) (int i) = Some mp \<and>
    expire_items_single_map [5, 6, 7] (\<lambda>p. p) ch demo_vector mp 11 = Some (1, ch', mp') \<and>
    map_get [5, 6, 7] mp' (vector_borrow demo_vector (int i)) = None"
proof -
  let ?d = "[5, 6, 7] :: bytes"
  obtain i ch where a: "dchain_allocate_new_index demo_chain 10 = Some (Some (int i), ch)"
    "dchain_rel 3 ch ([] @ [(i, 10)])"
    using dc.alloc_room [OF demo_chain, of 10] by auto
  have p: "keyed_pool byte_key (\<lambda>k. k) (\<lambda>p. p) ?d demo_vector 3 demo_chain demo_byte_map []"
    using demo_chain demo_byte_map by (simp add: keyed_pool_def)
  obtain mp where mp: "map_put ?d demo_byte_map (vector_borrow demo_vector (int i)) (int i) = Some mp"
    "keyed_pool byte_key (\<lambda>k. k) (\<lambda>p. p) ?d demo_vector 3 ch mp [(i, 10)]"
    using keyed_pool_insert [OF p a(2), of demo_vector ?d] demo_byte_map(5,6) by auto
  obtain ch' mp' where e: "expire_items_single_map ?d (\<lambda>p. p) ch demo_vector mp 11 = Some (1, ch', mp')"
    "keyed_pool byte_key (\<lambda>k. k) (\<lambda>p. p) ?d demo_vector 3 ch' mp' []"
    using expire_items_single_map_correct [OF mp(2), of 11] by auto
  then have "map_get ?d mp' (vector_borrow demo_vector (int i)) = None"
    using keyed_pool_get_None [OF e(2)] by simp
  then show ?thesis using a(1) mp(1) e(1) by blast
qed

end
