(* ===== verification/Nat_Flow.thy ===== *)
theory Nat_Flow
  imports Expirator
begin

section \<open>The NAT flow table: state.c and nat_flowmanager.c\<close>

text \<open>
  A flow manager owns a keyed pool: \<open>heap\<close> hands out indices in order of last use, \<open>fv\<close> holds the
  \<open>struct FlowId\<close> of every index as bytes, \<open>fm\<close> finds the index of a FlowId. The external port of
  index \<open>i\<close> is \<open>start_port + i\<close>.

  A key pointer is either a slot of \<open>fv\<close> or the caller's \<open>struct FlowId\<close> (16 bytes on the stack).
  Both function pointers of the map read the first two bytes of the key only, the source port.
  Results of \<^verbatim>\<open>malloc\<close> and the contents of uninitialised memory are parameters.
\<close>

subsection \<open>Keys\<close>

datatype key_ptr = Slot int | Stack

record key_mem =
  kvec :: bytes
  kstack :: bytes

text \<open>The fields of \<open>struct FlowId\<close> at their C offsets; the byte at 15 is padding.\<close>

definition flow_id ::
  "nat \<Rightarrow> nat \<Rightarrow> nat \<Rightarrow> nat \<Rightarrow> nat \<Rightarrow> nat \<Rightarrow> 8 word \<Rightarrow> bytes" where
  "flow_id src_port dst_port src_ip dst_ip internal_device protocol pad =
     le_bytes 2 src_port @ le_bytes 2 dst_port @ le_bytes 4 src_ip @ le_bytes 4 dst_ip @
     le_bytes 2 internal_device @ le_bytes 1 protocol @ [pad]"

definition FLOWID_SIZE :: nat where [simp]: "FLOWID_SIZE = 16"
definition FLOWID_PACKED_SIZE :: nat where [simp]: "FLOWID_PACKED_SIZE = 15"

definition load_key :: "key_mem \<Rightarrow> key_ptr \<Rightarrow> nat option" where
  "load_key m k = (case k of Slot p \<Rightarrow> load_u16 (kvec m) p | Stack \<Rightarrow> load_u16 (kstack m) 0)"

text \<open>A function pointer has no error result: outside its block the key reads as 0 here. Every
  pointer the flow manager passes is in bounds.\<close>

definition key_of :: "key_mem \<Rightarrow> key_ptr \<Rightarrow> nat" where
  "key_of m k = (case load_key m k of Some x \<Rightarrow> x | None \<Rightarrow> 0)"

definition key_equals :: "key_mem \<Rightarrow> key_ptr \<Rightarrow> key_ptr \<Rightarrow> bool" where
  "key_equals m k1 k2 = (let key1 = key_of m k1; key2 = key_of m k2 in key1 = key2)"

definition key_hash :: "key_mem \<Rightarrow> key_ptr \<Rightarrow> nat" where
  "key_hash m k = (let key = key_of m k in key)"

definition vector_init_element :: "bytes \<Rightarrow> int \<Rightarrow> bytes option" where
  "vector_init_element d p = do {
     d \<leftarrow> store_bytes d (p + 4) (le_bytes 4 0);
     d \<leftarrow> store_bytes d (p + 8) (le_bytes 4 0);
     d \<leftarrow> store_bytes d p (le_bytes 2 0);
     d \<leftarrow> store_bytes d (p + 2) (le_bytes 2 0);
     store_bytes d (p + 14) (le_bytes 1 0)
   }"

subsection \<open>struct State\<close>

type_synonym flow_map = "(key_mem, key_ptr) hmap"

record nat_state =
  fm :: flow_map
  fv :: vector
  heap :: dchain
  start_port :: nat
  nat_ip :: nat
  nat_device :: nat
  max_flows :: nat

text \<open>What the allocator returns for each request of \<open>alloc_state\<close>, in order.\<close>

record heap_oracle =
  got_state :: bool
  got_fm :: bool
  got_map :: "key_ptr map_arrays option"
  got_fv :: bool
  got_vector :: bool
  got_data :: "nat \<Rightarrow> bytes option"
  got_heap :: bool
  got_cells :: "cells option"
  got_times :: "nat list option"

definition alloc_state ::
  "heap_oracle \<Rightarrow> nat \<Rightarrow> nat \<Rightarrow> nat \<Rightarrow> nat \<Rightarrow> nat \<Rightarrow> nat_state option option" where
  "alloc_state h mflows starting_port ip device flowid_size =
     (if \<not> got_state h then Some None
      else if \<not> got_fm h then Some None
      else case map_allocate key_equals key_hash mflows (got_map h) of
        None \<Rightarrow> Some None
      | Some m \<Rightarrow>
          if \<not> got_fv h then Some None
          else do {
            vo \<leftarrow> vector_allocate (int flowid_size) mflows vector_init_element (got_vector h) (got_data h);
            case vo of
              None \<Rightarrow> Some None
            | Some v \<Rightarrow>
                if \<not> got_heap h then Some None
                else do {
                  co \<leftarrow> dchain_allocate (int mflows) (got_cells h) (got_times h);
                  case co of
                    None \<Rightarrow> Some None
                  | Some ch \<Rightarrow>
                      Some (Some \<lparr>fm = m, fv = v, heap = ch, start_port = starting_port,
                                  nat_ip = ip, nat_device = device, max_flows = mflows\<rparr>)
                }
          })"

subsection \<open>The flow manager\<close>

record flow_manager =
  fstate :: nat_state
  expiration_time :: nat
  shared :: bool
  lock :: bool

text \<open>A spinlock that is already held never returns to the same lcore: \<open>None\<close>.\<close>

definition flow_manager_lock :: "flow_manager \<Rightarrow> flow_manager option" where
  "flow_manager_lock mg =
     (if shared mg then (if lock mg then None else Some (mg\<lparr>lock := True\<rparr>)) else Some mg)"

definition flow_manager_unlock :: "flow_manager \<Rightarrow> flow_manager" where
  "flow_manager_unlock mg = (if shared mg then mg\<lparr>lock := False\<rparr> else mg)"

definition flowid_copy :: "flow_manager \<Rightarrow> bytes \<Rightarrow> int \<Rightarrow> bytes \<Rightarrow> int \<Rightarrow> bytes option" where
  "flowid_copy mg dst dp src sp =
     (if shared mg
      then Option.bind (load_bytes src sp FLOWID_PACKED_SIZE) (store_bytes dst dp)
      else Option.bind (load_bytes src sp FLOWID_SIZE) (store_bytes dst dp))"

definition flow_manager_allocate ::
  "heap_oracle \<Rightarrow> bool \<Rightarrow> nat \<Rightarrow> nat \<Rightarrow> nat \<Rightarrow> nat \<Rightarrow> nat \<Rightarrow> bool \<Rightarrow> flow_manager option option"
  where
  "flow_manager_allocate h got_manager starting_port ip device exp mflows shr =
     (if \<not> got_manager then Some None
      else do {
        so \<leftarrow> alloc_state h (mflows mod 2 ^ 16) starting_port ip device
               (if shr then FLOWID_PACKED_SIZE else FLOWID_SIZE);
        case so of
          None \<Rightarrow> Some None
        | Some s \<Rightarrow> Some (Some \<lparr>fstate = s, expiration_time = exp, shared = shr, lock = False\<rparr>)
      })"

definition mem_of :: "nat_state \<Rightarrow> bytes \<Rightarrow> key_mem" where
  "mem_of s stack = \<lparr>kvec = vdata (fv s), kstack = stack\<rparr>"

definition flow_manager_allocate_flow ::
  "flow_manager \<Rightarrow> bytes \<Rightarrow> nat \<Rightarrow> nat \<Rightarrow> (nat option \<times> flow_manager) option" where
  "flow_manager_allocate_flow mg fid internal_dev time = do {
     mg \<leftarrow> flow_manager_lock mg;
     let s = fstate mg;
     (r, ch) \<leftarrow> dchain_allocate_new_index (heap s) time;
     let s = s\<lparr>heap := ch\<rparr>;
     case r of
       None \<Rightarrow> Some (None, flow_manager_unlock (mg\<lparr>fstate := s\<rparr>))
     | Some index \<Rightarrow> do {
         let external_port = nat ((int (start_port s) + index) mod 2 ^ 16);
         let key = vector_borrow (fv s) index;
         d \<leftarrow> flowid_copy mg (vdata (fv s)) key fid 0;
         let s = s\<lparr>fv := (fv s)\<lparr>vdata := d\<rparr>\<rparr>;
         m \<leftarrow> map_put (mem_of s fid) (fm s) (Slot key) index;
         let s = s\<lparr>fm := m, fv := vector_return (fv s) index key\<rparr>;
         Some (Some external_port, flow_manager_unlock (mg\<lparr>fstate := s\<rparr>))
       }
   }"

definition flow_manager_expire :: "flow_manager \<Rightarrow> nat \<Rightarrow> flow_manager option" where
  "flow_manager_expire mg time = do {
     let last_time = nat ((int time - int (u32 (expiration_time mg * 1000))) mod 2 ^ 64);
     mg \<leftarrow> flow_manager_lock mg;
     let s = fstate mg;
     (count, ch, m) \<leftarrow> expire_items_single_map (mem_of s []) Slot (heap s) (fv s) (fm s) last_time;
     Some (flow_manager_unlock (mg\<lparr>fstate := s\<lparr>heap := ch, fm := m\<rparr>\<rparr>))
   }"

definition flow_manager_get_internal ::
  "flow_manager \<Rightarrow> bytes \<Rightarrow> nat \<Rightarrow> (nat option \<times> flow_manager) option" where
  "flow_manager_get_internal mg fid time = do {
     mg \<leftarrow> flow_manager_lock mg;
     let s = fstate mg;
     case map_get (mem_of s fid) (fm s) Stack of
       None \<Rightarrow> Some (None, flow_manager_unlock mg)
     | Some index \<Rightarrow> do {
         let external_port = nat ((index + int (start_port s)) mod 2 ^ 16);
         (b, ch) \<leftarrow> dchain_rejuvenate_index (heap s) index time;
         Some (Some external_port, flow_manager_unlock (mg\<lparr>fstate := s\<lparr>heap := ch\<rparr>\<rparr>))
       }
   }"

text \<open>The lookup of an external port tests the index before it takes the lock.\<close>

definition flow_manager_get_external ::
  "flow_manager \<Rightarrow> nat \<Rightarrow> nat \<Rightarrow> bytes \<Rightarrow> (bytes option \<times> flow_manager) option" where
  "flow_manager_get_external mg external_port time out_flow = do {
     let index = int external_port - int (start_port (fstate mg));
     allocated \<leftarrow> dchain_is_index_allocated (heap (fstate mg)) index;
     if \<not> allocated then Some (None, mg)
     else do {
       mg \<leftarrow> flow_manager_lock mg;
       let s = fstate mg;
       let key = vector_borrow (fv s) index;
       out_flow \<leftarrow> flowid_copy mg out_flow 0 (vdata (fv s)) key;
       let s = s\<lparr>fv := vector_return (fv s) index key\<rparr>;
       (b, ch) \<leftarrow> dchain_rejuvenate_index (heap s) index time;
       Some (Some out_flow, flow_manager_unlock (mg\<lparr>fstate := s\<lparr>heap := ch\<rparr>\<rparr>))
     }
   }"

subsection \<open>The invariant and the flows of the table\<close>

definition nat_mem :: "flow_manager \<Rightarrow> key_mem" where
  "nat_mem mg = mem_of (fstate mg) []"

definition nat_inv :: "flow_manager \<Rightarrow> (nat \<times> nat) list \<Rightarrow> bool" where
  "nat_inv mg xs \<longleftrightarrow>
     (let s = fstate mg in
      keyed_pool key_of (\<lambda>k. k) Slot (nat_mem mg) (fv s) (max_flows s) (heap s) (fm s) xs \<and>
      keys_eq (fm s) = key_equals \<and> khash (fm s) = key_hash \<and>
      vector_wf (fv s) \<and> vcapacity (fv s) = max_flows s \<and>
      elem_size (fv s) = int (if shared mg then FLOWID_PACKED_SIZE else FLOWID_SIZE) \<and>
      start_port s + max_flows s \<le> 65536 \<and> \<not> lock mg)"

text \<open>The FlowId bytes that index \<open>i\<close> holds, and the key the map sees in them.\<close>

definition flow_at :: "flow_manager \<Rightarrow> nat \<Rightarrow> bytes option" where
  "flow_at mg i = load_bytes (vdata (fv (fstate mg))) (vector_borrow (fv (fstate mg)) (int i))
     (if shared mg then FLOWID_PACKED_SIZE else FLOWID_SIZE)"

definition flow_key :: "bytes \<Rightarrow> nat" where
  "flow_key bs = le_val (take 2 bs)"

definition slot_port :: "flow_manager \<Rightarrow> nat \<Rightarrow> nat" where
  "slot_port mg = slot_key key_of Slot (nat_mem mg) (fv (fstate mg))"

lemma key_fun_eqs: "key_equals m p q \<longleftrightarrow> key_of m p = key_of m q" "key_hash m p = key_of m p"
  by (simp_all add: key_equals_def key_hash_def)

lemma load_bytes_take: "load_bytes d p k = Some bs \<Longrightarrow> j \<le> k \<Longrightarrow> load_bytes d p j = Some (take j bs)"
  by (auto simp: load_bytes_def min_def split: if_splits)

lemma slot_key_load:
  "load_bytes (kvec m) (vector_borrow v (int i)) 2 = Some bs \<Longrightarrow> slot_key key_of Slot m v i = le_val bs"
  by (simp add: slot_key_def key_of_def load_key_def load_u16_def)

lemma slot_port_flow_at: "flow_at mg i = Some bs \<Longrightarrow> slot_port mg i = flow_key bs"
  unfolding slot_port_def flow_key_def flow_at_def nat_mem_def mem_of_def
  by (rule slot_key_load) (auto dest: load_bytes_take [where j = 2] split: if_splits)

lemma nat_invD:
  assumes "nat_inv mg xs"
  shows "keyed_pool key_of (\<lambda>k. k) Slot (nat_mem mg) (fv (fstate mg)) (max_flows (fstate mg))
      (heap (fstate mg)) (fm (fstate mg)) xs"
    "keys_eq (fm (fstate mg)) = key_equals" "khash (fm (fstate mg)) = key_hash"
    "vector_wf (fv (fstate mg))" "vcapacity (fv (fstate mg)) = max_flows (fstate mg)"
    "elem_size (fv (fstate mg)) = int (if shared mg then FLOWID_PACKED_SIZE else FLOWID_SIZE)"
    "start_port (fstate mg) + max_flows (fstate mg) \<le> 65536" "\<not> lock mg"
  using assms by (simp_all add: nat_inv_def Let_def)

lemma nat_inv_index:
  assumes "nat_inv mg xs" "i \<in> fst ` set xs"
  shows "i < max_flows (fstate mg)"
  using dchain_rel_indices(2) [OF keyed_poolD(1) [OF nat_invD(1) [OF assms(1)]]] assms(2) by auto

lemma flow_at_Some:
  assumes "nat_inv mg xs" "i < max_flows (fstate mg)"
  obtains bs where "flow_at mg i = Some bs"
    "length bs = (if shared mg then FLOWID_PACKED_SIZE else FLOWID_SIZE)" "slot_port mg i = flow_key bs"
proof -
  note d = nat_invD [OF assms(1)]
  let ?v = "fv (fstate mg)"
  have "0 \<le> vector_borrow ?v (int i)"
    "vector_borrow ?v (int i) + elem_size ?v \<le> int (length (vdata ?v))"
    using slot_bounds [OF d(4), of "int i"] assms(2) d(5) by auto
  then obtain bs where bs: "flow_at mg i = Some bs"
    using d(6) by (simp add: flow_at_def load_bytes_def)
  then show thesis
    using that load_bytes_length [OF bs [unfolded flow_at_def]] slot_port_flow_at [OF bs] by blast
qed

text \<open>The stack copy of the key plays no part in the invariant.\<close>

lemma nat_inv_stack:
  assumes "nat_inv mg xs"
  shows "keyed_pool key_of (\<lambda>k. k) Slot (mem_of (fstate mg) st) (fv (fstate mg))
      (max_flows (fstate mg)) (heap (fstate mg)) (fm (fstate mg)) xs"
  by (rule keyed_pool_frame [OF nat_invD(1) [OF assms]])
    (simp_all add: nat_invD [OF assms] key_fun_eqs slot_key_def key_of_def load_key_def nat_mem_def mem_of_def)

lemma nat_inv_lock:
  assumes "nat_inv mg xs"
  obtains mg' where "flow_manager_lock mg = Some mg'" "fstate mg' = fstate mg" "shared mg' = shared mg"
    "expiration_time mg' = expiration_time mg"
    "\<And>s. flow_manager_unlock (mg'\<lparr>fstate := s\<rparr>) = mg\<lparr>fstate := s\<rparr>"
proof -
  have "\<not> lock mg" using nat_invD(8) [OF assms] .
  then show thesis
    by (intro that [of "if shared mg then mg\<lparr>lock := True\<rparr> else mg"])
      (auto simp: flow_manager_lock_def flow_manager_unlock_def)
qed

lemma unlock_same:
  "flow_manager_unlock (mg'\<lparr>fstate := s\<rparr>) = mg\<lparr>fstate := s\<rparr> \<Longrightarrow> s = fstate mg' \<Longrightarrow> fstate mg' = fstate mg \<Longrightarrow>
   flow_manager_unlock mg' = mg"
  by (cases mg'; cases mg) simp

text \<open>Two values of the invariant that differ in the order and times of the indices only.\<close>

lemma nat_inv_heap:
  assumes "nat_inv mg xs" "dchain_rel (max_flows (fstate mg)) ch xs'" "fst ` set xs' = fst ` set xs"
  shows "nat_inv (mg\<lparr>fstate := (fstate mg)\<lparr>heap := ch\<rparr>\<rparr>) xs'"
  using keyed_pool_reorder [OF nat_invD(1) [OF assms(1)] assms(2,3)] nat_invD [OF assms(1)]
  by (simp add: nat_inv_def Let_def nat_mem_def mem_of_def)

subsection \<open>The operations of the flow table\<close>

lemma get_internal_miss:
  assumes i: "nat_inv mg xs" and l: "length fid = FLOWID_SIZE"
    and k: "\<forall>i \<in> fst ` set xs. slot_port mg i \<noteq> flow_key fid"
  shows "flow_manager_get_internal mg fid t = Some (None, mg)"
proof -
  obtain mg' where mg': "flow_manager_lock mg = Some mg'" "fstate mg' = fstate mg"
    "\<And>s. flow_manager_unlock (mg'\<lparr>fstate := s\<rparr>) = mg\<lparr>fstate := s\<rparr>" using nat_inv_lock [OF i] by metis
  have u: "flow_manager_unlock mg' = mg" using unlock_same [OF mg'(3)] mg'(2) by blast
  have "key_of (mem_of (fstate mg) fid) Stack = flow_key fid"
    using l by (simp add: key_of_def load_key_def mem_of_def load_u16_def load_bytes_def flow_key_def)
  moreover have "slot_key key_of Slot (mem_of (fstate mg) fid) (fv (fstate mg)) i = slot_port mg i" for i
    by (simp add: slot_port_def nat_mem_def slot_key_def mem_of_def key_of_def load_key_def)
  ultimately have "map_get (mem_of (fstate mg) fid) (fm (fstate mg)) Stack = None"
    using keyed_pool_get_None [OF nat_inv_stack [OF i, of fid]] k by metis
  then show ?thesis using mg' u by (simp add: flow_manager_get_internal_def Let_def)
qed

lemma get_internal_hit:
  assumes i: "nat_inv mg (ys @ (i, t0) # zs)" and l: "length fid = FLOWID_SIZE"
    and k: "slot_port mg i = flow_key fid"
  shows "\<exists>mg'. flow_manager_get_internal mg fid t = Some (Some (start_port (fstate mg) + i), mg') \<and>
    nat_inv mg' (ys @ zs @ [(i, t)]) \<and> flow_at mg' = flow_at mg \<and>
    (\<exists>ch. mg' = mg\<lparr>fstate := (fstate mg)\<lparr>heap := ch\<rparr>\<rparr>)"
proof -
  let ?s = "fstate mg" and ?xs = "ys @ (i, t0) # zs"
  obtain mg1 where mg1: "flow_manager_lock mg = Some mg1" "fstate mg1 = ?s"
    "\<And>s. flow_manager_unlock (mg1\<lparr>fstate := s\<rparr>) = mg\<lparr>fstate := s\<rparr>" using nat_inv_lock [OF i] by metis
  have "key_of (mem_of ?s fid) Stack = flow_key fid"
    using l by (simp add: key_of_def load_key_def mem_of_def load_u16_def load_bytes_def flow_key_def)
  moreover have "slot_key key_of Slot (mem_of ?s fid) (fv ?s) j = slot_port mg j" for j
    by (simp add: slot_port_def nat_mem_def slot_key_def mem_of_def key_of_def load_key_def)
  moreover have "i \<in> fst ` set ?xs" by simp
  ultimately have get: "map_get (mem_of ?s fid) (fm ?s) Stack = Some (int i)"
    using keyed_pool_get [OF nat_inv_stack [OF i, of fid], of Stack "int i"] k by metis
  obtain ch where ch: "dchain_rejuvenate_index (heap ?s) (int i) t = Some (True, ch)"
    "dchain_rel (max_flows ?s) ch (ys @ zs @ [(i, t)])"
    using dc.touch_in [OF keyed_poolD(1) [OF nat_invD(1) [OF i]]] by blast
  have "i < max_flows ?s" using nat_inv_index [OF i] by simp
  then have port: "nat ((int i + int (start_port ?s)) mod 2 ^ 16) = start_port ?s + i"
    using nat_invD(7) [OF i] by (simp add: nat_add_distrib)
  let ?mg' = "mg\<lparr>fstate := ?s\<lparr>heap := ch\<rparr>\<rparr>"
  have "flow_manager_get_internal mg fid t = Some (Some (start_port ?s + i), ?mg')"
    using mg1 get ch(1) port by (simp add: flow_manager_get_internal_def Let_def)
  moreover have "nat_inv ?mg' (ys @ zs @ [(i, t)])"
    using nat_inv_heap [OF i ch(2)] by auto
  moreover have "flow_at ?mg' = flow_at mg" by (auto simp: flow_at_def)
  ultimately show ?thesis by blast
qed

lemma allocate_flow_full:
  assumes i: "nat_inv mg xs" and l: "length xs = max_flows (fstate mg)"
  shows "flow_manager_allocate_flow mg fid dev t = Some (None, mg)"
proof -
  obtain mg1 where mg1: "flow_manager_lock mg = Some mg1" "fstate mg1 = fstate mg"
    "\<And>s. flow_manager_unlock (mg1\<lparr>fstate := s\<rparr>) = mg\<lparr>fstate := s\<rparr>" using nat_inv_lock [OF i] by metis
  have "dchain_allocate_new_index (heap (fstate mg)) t = Some (None, heap (fstate mg))"
    using dc.alloc_full [OF keyed_poolD(1) [OF nat_invD(1) [OF i]] l] .
  then show ?thesis using mg1 by (simp add: flow_manager_allocate_flow_def Let_def)
qed

lemma allocate_flow_room:
  assumes inv: "nat_inv mg xs" and l: "length fid = FLOWID_SIZE" and room: "length xs < max_flows (fstate mg)"
    and k: "\<forall>i \<in> fst ` set xs. slot_port mg i \<noteq> flow_key fid"
  shows "\<exists>i mg'. flow_manager_allocate_flow mg fid dev t = Some (Some (start_port (fstate mg) + i), mg') \<and>
    i < max_flows (fstate mg) \<and> i \<notin> fst ` set xs \<and> nat_inv mg' (xs @ [(i, t)]) \<and>
    flow_at mg' i = Some (take (if shared mg then FLOWID_PACKED_SIZE else FLOWID_SIZE) fid) \<and>
    (\<forall>j. j \<noteq> i \<longrightarrow> flow_at mg' j = flow_at mg j) \<and>
    start_port (fstate mg') = start_port (fstate mg) \<and> max_flows (fstate mg') = max_flows (fstate mg) \<and>
    shared mg' = shared mg \<and> expiration_time mg' = expiration_time mg"
proof -
  let ?s = "fstate mg" and ?k = "if shared mg then FLOWID_PACKED_SIZE else FLOWID_SIZE"
  let ?v = "fv ?s"
  note d = nat_invD [OF inv]
  obtain mg1 where mg1: "flow_manager_lock mg = Some mg1" "fstate mg1 = ?s" "shared mg1 = shared mg"
    "\<And>s. flow_manager_unlock (mg1\<lparr>fstate := s\<rparr>) = mg\<lparr>fstate := s\<rparr>" using nat_inv_lock [OF inv] by metis
  obtain i ch where ch: "dchain_allocate_new_index (heap ?s) t = Some (Some (int i), ch)" "i < max_flows ?s"
    "i \<notin> fst ` set xs" "dchain_rel (max_flows ?s) ch (xs @ [(i, t)])"
    using dc.alloc_room [OF keyed_poolD(1) [OF d(1)] room] by blast
  define bs where "bs = take ?k fid"
  have bs: "load_bytes fid 0 ?k = Some bs" "length bs = ?k"
    using l by (auto simp: bs_def load_bytes_def)
  have "(0::int) \<le> int i" "int i < int (vcapacity ?v)" "int (length bs) \<le> elem_size ?v"
    using ch(2) d(5,6) bs(2) by auto
  from slot_write [OF d(4) this] obtain D where
    D: "store_bytes (vdata ?v) (vector_borrow ?v (int i)) bs = Some D" "vector_wf (?v\<lparr>vdata := D\<rparr>)"
    and own: "\<And>k. k \<le> length bs \<Longrightarrow> load_bytes D (vector_borrow ?v (int i)) k = Some (take k bs)"
    and oth: "\<And>j k. j \<noteq> int i \<Longrightarrow> int k \<le> elem_size ?v \<Longrightarrow>
      load_bytes D (vector_borrow ?v j) k = load_bytes (vdata ?v) (vector_borrow ?v j) k"
    by blast
  have copy: "flowid_copy mg1 (vdata ?v) (vector_borrow ?v (int i)) fid 0 = Some D"
    using bs(1) D(1) mg1(3) by (auto simp: flowid_copy_def split: if_splits)
  let ?s1 = "?s\<lparr>heap := ch, fv := ?v\<lparr>vdata := D\<rparr>\<rparr>"
  have same: "slot_key key_of Slot (mem_of ?s1 fid) ?v j = slot_key key_of Slot (nat_mem mg) ?v j"
    if "j \<in> fst ` set xs" for j
  proof -
    have "j \<noteq> i" using ch(3) that by blast
    then have "load_bytes D (vector_borrow ?v (int j)) 2 = load_bytes (vdata ?v) (vector_borrow ?v (int j)) 2"
      using d(6) by (intro oth) auto
    then show ?thesis
      by (simp add: slot_key_def key_of_def load_key_def load_u16_def mem_of_def nat_mem_def)
  qed
  have ki: "slot_key key_of Slot (mem_of ?s1 st) ?v i = flow_key fid" for st
  proof -
    have "load_bytes D (vector_borrow ?v (int i)) 2 = Some (take 2 fid)"
      using own [of 2] bs(2) by (auto simp: bs_def min_def)
    then show ?thesis using slot_key_load [of "mem_of ?s1 st"] by (simp add: mem_of_def flow_key_def)
  qed
  have fresh: "\<forall>j \<in> fst ` set xs. slot_key key_of Slot (nat_mem mg) ?v j \<noteq>
      slot_key key_of Slot (mem_of ?s1 fid) ?v i"
    using k ki by (simp add: slot_port_def)
  obtain m where m: "map_put (mem_of ?s1 fid) (fm ?s) (Slot (vector_borrow ?v (int i))) (int i) = Some m"
    and pool: "keyed_pool key_of (\<lambda>k. k) Slot (mem_of ?s1 fid) (?v\<lparr>vdata := D\<rparr>) (max_flows ?s) ch m (xs @ [(i, t)])"
    and keq: "keys_eq m = key_equals" "khash m = key_hash"
    using keyed_pool_insert [where v' = "?v\<lparr>vdata := D\<rparr>" and mem' = "mem_of ?s1 fid",
        OF d(1) ch(4) _ same _ _ fresh] d(2,3) by (auto simp: key_fun_eqs)
  let ?s2 = "?s1\<lparr>fm := m\<rparr>"
  let ?mg' = "mg\<lparr>fstate := ?s2\<rparr>"
  have port: "nat ((int (start_port ?s) + int i) mod 2 ^ 16) = start_port ?s + i"
    using d(7) ch(2) by (simp add: nat_add_distrib)
  have run: "flow_manager_allocate_flow mg fid dev t = Some (Some (start_port ?s + i), ?mg')"
    using mg1 ch(1) copy m port
    by (simp add: flow_manager_allocate_flow_def Let_def vector_return_def)
  have "keyed_pool key_of (\<lambda>k. k) Slot (nat_mem ?mg') (?v\<lparr>vdata := D\<rparr>) (max_flows ?s) ch m (xs @ [(i, t)])"
    by (rule keyed_pool_frame [OF pool])
      (simp_all add: keq key_fun_eqs slot_key_def key_of_def load_key_def nat_mem_def mem_of_def)
  then have inv': "nat_inv ?mg' (xs @ [(i, t)])"
    using d keq D(2) by (simp add: nat_inv_def Let_def)
  have bv: "vector_borrow (?v\<lparr>vdata := D\<rparr>) = vector_borrow ?v" by (auto simp: vector_borrow_def)
  have "flow_at ?mg' i = Some bs" using own [of ?k] bs(2) by (simp add: flow_at_def bv split: if_splits)
  moreover have "flow_at ?mg' j = flow_at mg j" if "j \<noteq> i" for j
    using oth [of "int j" ?k] that d(6) by (simp add: flow_at_def bv)
  ultimately show ?thesis using run ch(2,3) inv' unfolding bs_def by fastforce
qed

lemma get_external_free:
  assumes inv: "nat_inv mg xs" and p: "start_port (fstate mg) \<le> p" "p < start_port (fstate mg) + max_flows (fstate mg)"
    and f: "p - start_port (fstate mg) \<notin> fst ` set xs"
  shows "flow_manager_get_external mg p t out = Some (None, mg)"
proof -
  have e: "int p - int (start_port (fstate mg)) = int (p - start_port (fstate mg))" using p by simp
  have "p - start_port (fstate mg) < max_flows (fstate mg)" using p by simp
  then have "dchain_is_index_allocated (heap (fstate mg)) (int (p - start_port (fstate mg))) = Some False"
    using dc.is_alloc_iff [OF keyed_poolD(1) [OF nat_invD(1) [OF inv]]] f by simp
  then show ?thesis by (simp add: flow_manager_get_external_def e)
qed

lemma get_external_hit:
  assumes inv: "nat_inv mg (ys @ (i, t0) # zs)" and o: "length out = FLOWID_SIZE"
  shows "\<exists>mg' bs. flow_at mg i = Some bs \<and>
    flow_manager_get_external mg (start_port (fstate mg) + i) t out = Some (Some (bs @ drop (length bs) out), mg') \<and>
    nat_inv mg' (ys @ zs @ [(i, t)]) \<and> flow_at mg' = flow_at mg"
proof -
  let ?s = "fstate mg" and ?k = "if shared mg then FLOWID_PACKED_SIZE else FLOWID_SIZE"
  have i: "i < max_flows ?s" using nat_inv_index [OF inv] by simp
  obtain bs where bs: "flow_at mg i = Some bs" "length bs = ?k" using flow_at_Some [OF inv i] .
  have e: "int (start_port ?s + i) - int (start_port ?s) = int i" by simp
  have alloc: "dchain_is_index_allocated (heap ?s) (int i) = Some True"
    using dc.is_alloc_iff [OF keyed_poolD(1) [OF nat_invD(1) [OF inv]] i] by simp
  obtain mg1 where mg1: "flow_manager_lock mg = Some mg1" "fstate mg1 = ?s" "shared mg1 = shared mg"
    "\<And>s. flow_manager_unlock (mg1\<lparr>fstate := s\<rparr>) = mg\<lparr>fstate := s\<rparr>" using nat_inv_lock [OF inv] by metis
  have copy: "flowid_copy mg1 out 0 (vdata (fv ?s)) (vector_borrow (fv ?s) (int i)) =
      Some (bs @ drop (length bs) out)"
    using bs o mg1(3) by (auto simp: flowid_copy_def flow_at_def store_bytes_def split: if_splits)
  obtain ch where ch: "dchain_rejuvenate_index (heap ?s) (int i) t = Some (True, ch)"
    "dchain_rel (max_flows ?s) ch (ys @ zs @ [(i, t)])"
    using dc.touch_in [OF keyed_poolD(1) [OF nat_invD(1) [OF inv]]] by blast
  let ?mg' = "mg\<lparr>fstate := ?s\<lparr>heap := ch\<rparr>\<rparr>"
  have "flow_manager_get_external mg (start_port ?s + i) t out = Some (Some (bs @ drop (length bs) out), ?mg')"
    using mg1 alloc copy ch(1) unfolding flow_manager_get_external_def e
    by (simp add: Let_def vector_return_def)
  moreover have "nat_inv ?mg' (ys @ zs @ [(i, t)])" using nat_inv_heap [OF inv ch(2)] by auto
  moreover have "flow_at ?mg' = flow_at mg" by (auto simp: flow_at_def)
  ultimately show ?thesis using bs(1) by blast
qed

text \<open>The window that \<open>flow_manager_expire\<close> really uses: a 32 bit product.\<close>

definition expiry_bound :: "flow_manager \<Rightarrow> nat \<Rightarrow> nat" where
  "expiry_bound mg time = nat ((int time - int (u32 (expiration_time mg * 1000))) mod 2 ^ 64)"

lemma expire_flows:
  assumes inv: "nat_inv mg xs" and a: "sorted (ages xs)"
  shows "\<exists>mg'. flow_manager_expire mg t = Some mg' \<and>
    nat_inv mg' (filter (\<lambda>x. expiry_bound mg t \<le> snd x) xs) \<and> flow_at mg' = flow_at mg"
proof -
  let ?s = "fstate mg" and ?b = "expiry_bound mg t"
  note d = nat_invD [OF inv]
  obtain mg1 where mg1: "flow_manager_lock mg = Some mg1" "fstate mg1 = ?s"
    "\<And>s. flow_manager_unlock (mg1\<lparr>fstate := s\<rparr>) = mg\<lparr>fstate := s\<rparr>" using nat_inv_lock [OF inv] by metis
  obtain ch m where ex: "expire_items_single_map (nat_mem mg) Slot (heap ?s) (fv ?s) (fm ?s) ?b =
      Some (length (filter (\<lambda>x. snd x < ?b) xs), ch, m)"
    and pool: "keyed_pool key_of (\<lambda>k. k) Slot (nat_mem mg) (fv ?s) (max_flows ?s) ch m
      (filter (\<lambda>x. ?b \<le> snd x) xs)"
    and keq: "keys_eq m = keys_eq (fm ?s)" "khash m = khash (fm ?s)"
    using expire_items_stale [OF d(1) a, of ?b] by blast
  let ?mg' = "mg\<lparr>fstate := ?s\<lparr>heap := ch, fm := m\<rparr>\<rparr>"
  have "flow_manager_expire mg t = Some ?mg'"
    using mg1 ex by (simp add: flow_manager_expire_def Let_def expiry_bound_def nat_mem_def)
  moreover have "nat_mem ?mg' = nat_mem mg" by (simp add: nat_mem_def mem_of_def)
  then have "nat_inv ?mg' (filter (\<lambda>x. ?b \<le> snd x) xs)"
    using pool keq d by (simp add: nat_inv_def Let_def)
  moreover have "flow_at ?mg' = flow_at mg" by (auto simp: flow_at_def)
  ultimately show ?thesis by blast
qed

text \<open>A fresh manager.\<close>

definition heap_ok :: "heap_oracle \<Rightarrow> nat \<Rightarrow> nat \<Rightarrow> bool" where
  "heap_ok h n esz \<longleftrightarrow> got_state h \<and> got_fm h \<and> got_fv h \<and> got_vector h \<and> got_heap h \<and>
     (\<exists>m. got_map h = Some m \<and> length (busybits m) = n \<and> length (keyps m) = n \<and>
       length (k_hashes m) = n \<and> length (chns m) = n \<and> length (vals m) = n) \<and>
     (\<exists>d. got_data h (esz * n) = Some d \<and> length d = esz * n) \<and>
     (\<exists>cs. got_cells h = Some cs \<and> length cs = n + 2) \<and>
     (\<exists>ts. got_times h = Some ts \<and> length ts = n)"

lemma vector_init_element_ok:
  assumes "0 \<le> p" "p + 15 \<le> int (length d)"
  shows "\<exists>d'. vector_init_element d p = Some d' \<and> length d' = length d"
proof -
  have st: "\<exists>e'. store_bytes e (p + o') bs = Some e' \<and> length e' = length d"
    if "length e = length d" "0 \<le> o'" "o' + int (length bs) \<le> 15" for e o' bs
  proof -
    have "0 \<le> p + o'" "p + o' + int (length bs) \<le> int (length e)" using that assms by linarith+
    then obtain e' where "store_bytes e (p + o') bs = Some e'" by (simp add: store_bytes_def)
    then show ?thesis using store_bytes_length that(1) by fastforce
  qed
  obtain d1 where d1: "store_bytes d (p + 4) (le_bytes 4 0) = Some d1" "length d1 = length d"
    using st [of d 4 "le_bytes 4 0"] by auto
  obtain d2 where d2: "store_bytes d1 (p + 8) (le_bytes 4 0) = Some d2" "length d2 = length d"
    using st [of d1 8 "le_bytes 4 0"] d1 by auto
  obtain d3 where d3: "store_bytes d2 p (le_bytes 2 0) = Some d3" "length d3 = length d"
    using st [of d2 0 "le_bytes 2 0"] d2 by auto
  obtain d4 where d4: "store_bytes d3 (p + 2) (le_bytes 2 0) = Some d4" "length d4 = length d"
    using st [of d3 2 "le_bytes 2 0"] d3 by auto
  obtain d5 where d5: "store_bytes d4 (p + 14) (le_bytes 1 0) = Some d5" "length d5 = length d"
    using st [of d4 14 "le_bytes 1 0"] d4 by auto
  have "vector_init_element d p = Some d5"
    unfolding vector_init_element_def using d1(1) d2(1) d3(1) d4(1) d5(1) by (simp only: bind.simps)
  then show ?thesis using d5(2) by blast
qed

lemma flow_manager_allocate_inv:
  assumes n: "0 < n" "start + n \<le> 65536" "n < 65536" and h: "heap_ok h n (if shr then FLOWID_PACKED_SIZE else FLOWID_SIZE)"
  shows "\<exists>mg. flow_manager_allocate h True start ip dev exp n shr = Some (Some mg) \<and> nat_inv mg [] \<and>
    start_port (fstate mg) = start \<and> max_flows (fstate mg) = n \<and> shared mg = shr \<and> expiration_time mg = exp"
proof -
  let ?e = "if shr then FLOWID_PACKED_SIZE else FLOWID_SIZE"
  have n': "n mod 2 ^ 16 = n" using n by simp
  from h obtain m d cs ts where m: "got_map h = Some m" "length (busybits m) = n" "length (keyps m) = n"
      "length (k_hashes m) = n" "length (chns m) = n" "length (vals m) = n"
    and d: "got_data h (?e * n) = Some d" "length d = ?e * n"
    and cs: "got_cells h = Some cs" "length cs = n + 2" and ts: "got_times h = Some ts" "length ts = n"
    unfolding heap_ok_def by blast
  have ok: "got_state h" "got_fm h" "got_fv h" "got_vector h" "got_heap h" using h by (simp_all add: heap_ok_def)
  have n31: "n \<le> 2147483648" using n by simp
  obtain mp where mp: "map_allocate key_equals key_hash n (Some m) = Some mp"
    "\<And>mem. hmap_wf key_of (\<lambda>k. k) mem mp" "\<And>mem. hmap_abs key_of mem mp = Map.empty" "capacity mp = n"
    using map_allocate_wf [OF n(1) n31, where keq = key_equals and kh = key_hash and keyf = key_of
        and hsh = "\<lambda>k. k", OF key_fun_eqs m(2-6)] by (metis option.inject)
  note ptrs = map_allocate_ptrs [OF mp(1) m(2,5)]
  have esz: "0 < int ?e" "int ?e * int n < 4294967296" using n by auto
  have init: "\<exists>d'. vector_init_element d (int ?e * int i) = Some d' \<and> length d' = nat (int ?e) * n"
    if "i < n" "length d = nat (int ?e) * n" for d i
  proof -
    have "int ?e * int i + int ?e \<le> int ?e * int n"
      using mult_left_mono [of "int i + 1" "int n" "int ?e"] that(1) by (simp add: algebra_simps)
    then have "int ?e * int i + 15 \<le> int (length d)" using that(2) by (simp split: if_splits)
    then show ?thesis using vector_init_element_ok [of "int ?e * int i" d] that(2) by auto
  qed
  obtain v where v: "vector_allocate (int ?e) n vector_init_element True (got_data h) = Some (Some v)"
    "vector_wf v" "elem_size v = int ?e" "vcapacity v = n"
    using vector_allocate_wf [OF esz n(1), of "got_data h" d vector_init_element] d init by auto
  obtain ch where ch: "dchain_allocate (int n) (Some cs) (Some ts) = Some (Some ch)" "dchain_rel n ch []"
    using dchain_allocate_rel [of n cs ts] n(1) cs(2) ts(2) by auto
  let ?s = "\<lparr>fm = mp, fv = v, heap = ch, start_port = start, nat_ip = ip, nat_device = dev, max_flows = n\<rparr>"
  let ?mg = "\<lparr>fstate = ?s, expiration_time = exp, shared = shr, lock = False\<rparr>"
  have "alloc_state h n start ip dev ?e = Some (Some ?s)"
    using ok m(1) mp(1) v(1) cs(1) ts(1) ch(1) by (simp add: alloc_state_def)
  then have "flow_manager_allocate h True start ip dev exp n shr = Some (Some ?mg)"
    unfolding flow_manager_allocate_def n' by simp
  moreover have "nat_inv ?mg []"
    using mp ptrs v ch n by (simp add: nat_inv_def keyed_pool_def nat_mem_def mem_of_def)
  ultimately show ?thesis by auto
qed

end
