(* ===== verification/Nat_Main.thy ===== *)
theory Nat_Main
  imports Nat_Flow
begin

section \<open>The NAT: nat_main.c\<close>

text \<open>
  \<open>nf_init\<close> splits the flow table into shards that own disjoint ranges of external ports;
  \<open>nf_process\<close> rewrites one packet, given as the bytes of its frame. The values that C leaves
  uninitialised (a port, a FlowId, a device, a padding byte) are the parameter \<open>junk\<close>. The
  checks on the Ethernet type, the protocol and spoofing only log: their drops are commented out.
\<close>

subsection \<open>Configuration and shards\<close>

record nf_config =
  lan_main_device :: nat
  wan_device :: nat
  external_addr :: nat
  device_macs :: "nat list list"
  endpoint_macs :: "nat list list"
  cfg_start_port :: nat
  cfg_expiration_time :: nat
  cfg_max_flows :: nat

record nf_globals =
  config :: nf_config
  nat_shards :: "flow_manager option list"
  nat_shard_count :: nat
  drop_when_full :: bool

text \<open>The environment of \<open>nf_init\<close>: the number of devices and the allocations.\<close>

record nf_env =
  dev_count :: nat
  got_shards :: bool
  got_manager :: "nat \<Rightarrow> bool"
  shard_heap :: "nat \<Rightarrow> heap_oracle"

definition nf_config_default :: "nat \<Rightarrow> nf_config" where
  "nf_config_default devices =
     (let macs = map (\<lambda>i. [0, 0, 0, 0, 0, i]) [0..<devices]
      in \<lparr>lan_main_device = 0, wan_device = 2,
          external_addr = or (or (or (push_bit 24 1) (push_bit 16 1)) (push_bit 8 1)) 1,
          device_macs = macs, endpoint_macs = macs,
          cfg_start_port = 1024, cfg_expiration_time = 60 * 1000000, cfg_max_flows = 16384\<rparr>)"

function nf_init_shards ::
  "nf_env \<Rightarrow> nat \<Rightarrow> bool \<Rightarrow> nat \<Rightarrow> nat \<Rightarrow> nat \<Rightarrow> nat \<Rightarrow> nf_globals \<Rightarrow> (bool \<times> nf_globals) option"
  where
  "nf_init_shards env nb shr base remainder shard shard_start g =
    (if shard < nb then
       let shard_flows = u32 (base + (if shard < remainder then 1 else 0));
           c = config g
       in do {
         r \<leftarrow> flow_manager_allocate (shard_heap env shard) (got_manager env shard) (shard_start mod 2 ^ 16)
                (external_addr c) (wan_device c) (cfg_expiration_time c) shard_flows shr;
         let g = g\<lparr>nat_shards := (nat_shards g)[shard := r]\<rparr>;
         case r of
           None \<Rightarrow> Some (False, g)
         | Some mg \<Rightarrow> nf_init_shards env nb shr base remainder (Suc shard) (u32 (shard_start + shard_flows)) g
       }
     else Some (True, g))"
  by pat_completeness auto
termination
  by (relation "measure (\<lambda>(env, nb, shr, base, remainder, shard, shard_start, g). nb - shard)") auto

declare nf_init_shards.simps [simp del]

text \<open>The MAC loop counts devices in a \<open>uint8_t\<close> and does not end with more than 255 of them.\<close>

definition nf_init :: "nf_env \<Rightarrow> nat \<Rightarrow> bool \<Rightarrow> bool \<Rightarrow> nf_globals \<Rightarrow> (bool \<times> nf_globals) option" where
  "nf_init env nb_shards shr drop_full g =
     (if 255 < dev_count env then None
      else
        let c = nf_config_default (dev_count env);
            g = g\<lparr>config := c\<rparr>
        in if nb_shards = 0 \<or> cfg_max_flows c < nb_shards then Some (False, g)
           else if 65535 + 1 < cfg_start_port c + cfg_max_flows c then Some (False, g)
           else if \<not> got_shards env then Some (False, g\<lparr>nat_shards := []\<rparr>)
           else
             let g = g\<lparr>nat_shards := replicate nb_shards None, nat_shard_count := nb_shards,
                        drop_when_full := drop_full\<rparr>
             in nf_init_shards env nb_shards shr (cfg_max_flows c div nb_shards)
                  (cfg_max_flows c mod nb_shards) 0 (cfg_start_port c) g)"

definition nf_shard :: "nf_globals \<Rightarrow> nat \<Rightarrow> flow_manager option" where
  "nf_shard g shard = (if shard < nat_shard_count g then nat_shards g ! shard else None)"

subsection \<open>Processing a packet\<close>

record nf_junk =
  j_port :: nat
  j_flow :: bytes
  j_device :: nat
  j_pad :: "8 word"

definition EXPLICIT_DROP :: int where [simp]: "EXPLICIT_DROP = 65535"

definition nf_process ::
  "nf_globals \<Rightarrow> nf_junk \<Rightarrow> flow_manager \<Rightarrow> nat \<Rightarrow> bytes \<Rightarrow> nat \<Rightarrow> nat \<Rightarrow> nat \<Rightarrow> nat \<Rightarrow> nat \<Rightarrow> nat \<Rightarrow> nat
    \<Rightarrow> (int \<times> bytes \<times> flow_manager) option" where
  "nf_process g junk mg device payload ether_type ip_proto ip_src ip_dst port_src port_dst now =
     (if device = wan_device (config g) then do {
        (r, mg) \<leftarrow> flow_manager_get_external mg port_dst now (j_flow junk);
        case r of
          Some internal_flow \<Rightarrow> do {
            payload \<leftarrow> store_bytes payload 30 (take 4 (drop 4 internal_flow));
            payload \<leftarrow> store_bytes payload 36 (take 2 internal_flow);
            Some (int (le_val (take 2 (drop 12 internal_flow))), payload, mg)
          }
        | None \<Rightarrow> Some (int (j_device junk), payload, mg)
      }
      else do {
        let fid = flow_id port_src port_dst ip_src ip_dst device ip_proto (j_pad junk);
        (r, mg) \<leftarrow> flow_manager_get_internal mg fid now;
        (a, mg) \<leftarrow> (case r of
                     Some external_port \<Rightarrow> Some (Some external_port, mg)
                   | None \<Rightarrow> flow_manager_allocate_flow mg fid device now);
        if a = None \<and> drop_when_full g then Some (EXPLICIT_DROP, payload, mg)
        else do {
          let external_port = (case a of Some p \<Rightarrow> p | None \<Rightarrow> j_port junk);
          payload \<leftarrow> store_bytes payload 26 (le_bytes 4 (external_addr (config g)));
          payload \<leftarrow> store_bytes payload 34 (le_bytes 2 external_port);
          Some (int (wan_device (config g)), payload, mg)
        }
      })"

subsection \<open>Shards own disjoint port ranges\<close>

definition shard_first :: "nat \<Rightarrow> nat \<Rightarrow> nat" where
  "shard_first nb k = 1024 + k * (16384 div nb) + min k (16384 mod nb)"

lemma shard_first_Suc:
  "shard_first nb (Suc k) = shard_first nb k + (16384 div nb + (if k < 16384 mod nb then 1 else 0))"
  by (auto simp: shard_first_def min_def)

lemma shard_first_end:
  assumes "0 < nb"
  shows "shard_first nb nb = 17408"
proof -
  have "16384 mod nb < nb" using assms by simp
  then show ?thesis by (simp add: shard_first_def min_def)
qed

lemma shard_first_mono: "j \<le> k \<Longrightarrow> shard_first nb j \<le> shard_first nb k"
  by (induction k rule: dec_induct) (simp_all add: shard_first_Suc)

definition shards_ok :: "nat \<Rightarrow> bool \<Rightarrow> nat \<Rightarrow> flow_manager option list \<Rightarrow> bool" where
  "shards_ok nb shr m shards \<longleftrightarrow> length shards = nb \<and>
     (\<forall>k<m. \<exists>mg. shards ! k = Some mg \<and> nat_inv mg [] \<and> shared mg = shr \<and>
        start_port (fstate mg) = shard_first nb k \<and>
        start_port (fstate mg) + max_flows (fstate mg) = shard_first nb (Suc k))"

definition env_ok :: "nf_env \<Rightarrow> nat \<Rightarrow> bool \<Rightarrow> bool" where
  "env_ok env nb shr \<longleftrightarrow> dev_count env \<le> 255 \<and> got_shards env \<and>
     (\<forall>k<nb. got_manager env k \<and>
        heap_ok (shard_heap env k) (16384 div nb + (if k < 16384 mod nb then 1 else 0))
          (if shr then FLOWID_PACKED_SIZE else FLOWID_SIZE))"

lemma nf_init_shards_ok:
  assumes e: "env_ok env nb shr" and nb: "0 < nb" "nb \<le> 16384"
  shows "shard \<le> nb \<Longrightarrow> shards_ok nb shr shard (nat_shards g) \<Longrightarrow>
    \<exists>g'. nf_init_shards env nb shr (16384 div nb) (16384 mod nb) shard (shard_first nb shard) g = Some (True, g') \<and>
      shards_ok nb shr nb (nat_shards g') \<and> nat_shard_count g' = nat_shard_count g \<and>
      config g' = config g \<and> drop_when_full g' = drop_when_full g"
proof (induction "nb - shard" arbitrary: shard g rule: less_induct)
  case less
  show ?case
  proof (cases "shard < nb")
    case True
    let ?n = "16384 div nb + (if shard < 16384 mod nb then 1 else 0)" and ?st = "shard_first nb shard"
    have "1 \<le> 16384 div nb" using nb by (simp add: Suc_leI div_greater_zero_iff)
    moreover have last: "?st + ?n \<le> 17408"
      using shard_first_mono [of "Suc shard" nb nb] True shard_first_end [OF nb(1)] by (simp add: shard_first_Suc)
    moreover have "1024 \<le> ?st" by (simp add: shard_first_def)
    ultimately have n: "0 < ?n" "?st + ?n \<le> 65536" "?n < 65536" "u32 ?n = ?n" "?st mod 2 ^ 16 = ?st"
      "u32 (?st + ?n) = shard_first nb (Suc shard)" by (auto simp: shard_first_Suc)
    let ?c = "config g"
    obtain mg where mg: "flow_manager_allocate (shard_heap env shard) True ?st (external_addr ?c) (wan_device ?c)
        (cfg_expiration_time ?c) ?n shr = Some (Some mg)" "nat_inv mg []"
      "start_port (fstate mg) = ?st" "max_flows (fstate mg) = ?n" "shared mg = shr"
      using flow_manager_allocate_inv [OF n(1-3)] e True unfolding env_ok_def by blast
    let ?g = "g\<lparr>nat_shards := (nat_shards g)[shard := Some mg]\<rparr>"
    have step: "nf_init_shards env nb shr (16384 div nb) (16384 mod nb) shard ?st g =
      nf_init_shards env nb shr (16384 div nb) (16384 mod nb) (Suc shard) (shard_first nb (Suc shard)) ?g"
      using True n mg(1) e by (subst nf_init_shards.simps) (simp add: Let_def env_ok_def)
    have "shards_ok nb shr (Suc shard) (nat_shards ?g)"
      using less.prems(2) mg(2-5) True by (auto simp: shards_ok_def less_Suc_eq nth_list_update shard_first_Suc)
    then show ?thesis using less.hyps [of "Suc shard" ?g] True step by auto
  next
    case False
    then show ?thesis using less.prems by (subst nf_init_shards.simps) (simp add: shards_ok_def)
  qed
qed

lemma nf_init_ok:
  assumes "env_ok env nb shr" "0 < nb" "nb \<le> 16384"
  shows "\<exists>g'. nf_init env nb shr dropf g = Some (True, g') \<and> shards_ok nb shr nb (nat_shards g') \<and>
    nat_shard_count g' = nb \<and> drop_when_full g' = dropf \<and> config g' = nf_config_default (dev_count env)"
proof -
  let ?g = "g\<lparr>config := nf_config_default (dev_count env), nat_shards := replicate nb None,
    nat_shard_count := nb, drop_when_full := dropf\<rparr>"
  have c: "cfg_max_flows (nf_config_default d) = 16384" "cfg_start_port (nf_config_default d) = 1024" for d
    by (simp_all add: nf_config_default_def Let_def)
  have "shards_ok nb shr 0 (nat_shards ?g)" by (simp add: shards_ok_def)
  from nf_init_shards_ok [OF assms _ this] obtain g' where
    "nf_init_shards env nb shr (16384 div nb) (16384 mod nb) 0 (shard_first nb 0) ?g = Some (True, g')"
    "shards_ok nb shr nb (nat_shards g')" "nat_shard_count g' = nb" "drop_when_full g' = dropf"
    "config g' = nf_config_default (dev_count env)" by auto
  then show ?thesis using assms by (simp add: nf_init_def Let_def c env_ok_def shard_first_def)
qed

subsection \<open>Translation and its inverse\<close>

definition rewritten :: "bytes \<Rightarrow> int \<Rightarrow> bytes \<Rightarrow> int \<Rightarrow> bytes \<Rightarrow> bytes \<Rightarrow> bool" where
  "rewritten p o1 b1 o2 b2 p' \<longleftrightarrow> length p' = length p \<and>
     load_bytes p' o1 (length b1) = Some b1 \<and> load_bytes p' o2 (length b2) = Some b2 \<and>
     (\<forall>q k. (q + int k \<le> o1 \<or> o1 + int (length b1) \<le> q) \<and> (q + int k \<le> o2 \<or> o2 + int (length b2) \<le> q)
        \<longrightarrow> load_bytes p' q k = load_bytes p q k)"

lemma two_stores:
  assumes "0 \<le> o1" "o1 + int (length b1) \<le> o2" "o2 + int (length b2) \<le> int (length p)"
  shows "\<exists>p1 p'. store_bytes p o1 b1 = Some p1 \<and> store_bytes p1 o2 b2 = Some p' \<and> rewritten p o1 b1 o2 b2 p'"
proof -
  obtain p1 where p1: "store_bytes p o1 b1 = Some p1" using assms by (simp add: store_bytes_def)
  have l1: "length p1 = length p" using store_bytes_length [OF p1] .
  obtain p' where p': "store_bytes p1 o2 b2 = Some p'" using assms l1 by (simp add: store_bytes_def)
  have l': "length p' = length p" using store_bytes_length [OF p'] l1 by simp
  have "load_bytes p' o1 (length b1) = Some b1"
    using load_store_other [OF p', of o1 "length b1"] load_store_same [OF p1, of 0 "length b1"] assms(2) by simp
  moreover have "load_bytes p' o2 (length b2) = Some b2"
    using load_store_same [OF p', of 0 "length b2"] by simp
  moreover have "load_bytes p' q k = load_bytes p q k"
    if "q + int k \<le> o1 \<or> o1 + int (length b1) \<le> q" "q + int k \<le> o2 \<or> o2 + int (length b2) \<le> q" for q k
    using load_store_other [OF p' that(2)] load_store_other [OF p1 that(1)] by simp
  ultimately show ?thesis using p1 p' l' unfolding rewritten_def by blast
qed

lemma length_flow_id [simp]: "length (flow_id a b c d e f g) = FLOWID_SIZE"
  by (simp add: flow_id_def)

lemma flow_id_fields:
  "take 2 (flow_id a b c d e f g) = le_bytes 2 a"
  "take 4 (drop 4 (flow_id a b c d e f g)) = le_bytes 4 c"
  "take 2 (drop 12 (flow_id a b c d e f g)) = le_bytes 2 e"
  by (simp_all add: flow_id_def)

lemma flow_key_id: "a < 65536 \<Longrightarrow> flow_key (flow_id a b c d e f g) = a"
  by (simp add: flow_key_def flow_id_fields le_val_le_bytes)

lemma outbound_new:
  assumes inv: "nat_inv mg xs" and dev: "device \<noteq> wan_device (config g)" and len: "38 \<le> length payload"
    and ps: "ps < 65536" and fresh: "\<forall>i \<in> fst ` set xs. slot_port mg i \<noteq> ps"
    and room: "length xs < max_flows (fstate mg)"
  shows "\<exists>i payload' mg'. nf_process g junk mg device payload et proto sip dip ps pd now =
      Some (int (wan_device (config g)), payload', mg') \<and> i < max_flows (fstate mg) \<and> i \<notin> fst ` set xs \<and>
    nat_inv mg' (xs @ [(i, now)]) \<and>
    rewritten payload 26 (le_bytes 4 (external_addr (config g))) 34 (le_bytes 2 (start_port (fstate mg) + i)) payload' \<and>
    flow_at mg' i = Some (take (if shared mg then FLOWID_PACKED_SIZE else FLOWID_SIZE)
      (flow_id ps pd sip dip device proto (j_pad junk))) \<and>
    start_port (fstate mg') = start_port (fstate mg) \<and> max_flows (fstate mg') = max_flows (fstate mg) \<and>
    shared mg' = shared mg \<and> expiration_time mg' = expiration_time mg"
proof -
  let ?fid = "flow_id ps pd sip dip device proto (j_pad junk)"
  have k: "\<forall>i \<in> fst ` set xs. slot_port mg i \<noteq> flow_key ?fid" using fresh flow_key_id [OF ps] by simp
  obtain i mg' where a: "flow_manager_allocate_flow mg ?fid device now = Some (Some (start_port (fstate mg) + i), mg')"
    "i < max_flows (fstate mg)" "i \<notin> fst ` set xs" "nat_inv mg' (xs @ [(i, now)])"
    "flow_at mg' i = Some (take (if shared mg then FLOWID_PACKED_SIZE else FLOWID_SIZE) ?fid)"
    "start_port (fstate mg') = start_port (fstate mg)" "max_flows (fstate mg') = max_flows (fstate mg)"
    "shared mg' = shared mg" "expiration_time mg' = expiration_time mg"
    using allocate_flow_room [OF inv length_flow_id room k] by blast
  have "(0::int) \<le> 26" "26 + int (length (le_bytes 4 (external_addr (config g)))) \<le> 34"
    "34 + int (length (le_bytes 2 (start_port (fstate mg) + i))) \<le> int (length payload)"
    using len by simp_all
  from two_stores [OF this] obtain p1 p' where w:
    "store_bytes payload 26 (le_bytes 4 (external_addr (config g))) = Some p1"
    "store_bytes p1 34 (le_bytes 2 (start_port (fstate mg) + i)) = Some p'"
    "rewritten payload 26 (le_bytes 4 (external_addr (config g))) 34 (le_bytes 2 (start_port (fstate mg) + i)) p'"
    by blast
  have "nf_process g junk mg device payload et proto sip dip ps pd now =
      Some (int (wan_device (config g)), p', mg')"
    using a(1) w(1,2) dev get_internal_miss [OF inv length_flow_id k, of now]
    by (simp add: nf_process_def Let_def)
  then show ?thesis using a(2-) w(3) by blast
qed

lemma outbound_known:
  assumes inv: "nat_inv mg (ys @ (i, t0) # zs)" and dev: "device \<noteq> wan_device (config g)"
    and len: "38 \<le> length payload" and ps: "ps < 65536" and k: "slot_port mg i = ps"
  shows "\<exists>payload' mg'. nf_process g junk mg device payload et proto sip dip ps pd now =
      Some (int (wan_device (config g)), payload', mg') \<and> nat_inv mg' (ys @ zs @ [(i, now)]) \<and>
    rewritten payload 26 (le_bytes 4 (external_addr (config g))) 34 (le_bytes 2 (start_port (fstate mg) + i)) payload' \<and>
    flow_at mg' = flow_at mg \<and> start_port (fstate mg') = start_port (fstate mg) \<and> shared mg' = shared mg"
proof -
  let ?fid = "flow_id ps pd sip dip device proto (j_pad junk)"
  have key: "slot_port mg i = flow_key ?fid" using k flow_key_id [OF ps] by simp
  obtain mg' where a: "flow_manager_get_internal mg ?fid now = Some (Some (start_port (fstate mg) + i), mg')"
    "nat_inv mg' (ys @ zs @ [(i, now)])" "flow_at mg' = flow_at mg"
    "start_port (fstate mg') = start_port (fstate mg)" "shared mg' = shared mg"
    using get_internal_hit [OF inv length_flow_id key, of now] by auto
  have "(0::int) \<le> 26" "26 + int (length (le_bytes 4 (external_addr (config g)))) \<le> 34"
    "34 + int (length (le_bytes 2 (start_port (fstate mg) + i))) \<le> int (length payload)"
    using len by simp_all
  from two_stores [OF this] obtain p1 p' where
    "store_bytes payload 26 (le_bytes 4 (external_addr (config g))) = Some p1"
    "store_bytes p1 34 (le_bytes 2 (start_port (fstate mg) + i)) = Some p'"
    "rewritten payload 26 (le_bytes 4 (external_addr (config g))) 34 (le_bytes 2 (start_port (fstate mg) + i)) p'"
    by blast
  then show ?thesis using a dev by (simp add: nf_process_def Let_def)
qed

lemma outbound_full:
  assumes inv: "nat_inv mg xs" and dev: "device \<noteq> wan_device (config g)"
    and ps: "ps < 65536" and fresh: "\<forall>i \<in> fst ` set xs. slot_port mg i \<noteq> ps"
    and full: "length xs = max_flows (fstate mg)"
  shows "drop_when_full g \<Longrightarrow>
      nf_process g junk mg device payload et proto sip dip ps pd now = Some (EXPLICIT_DROP, payload, mg)"
    "\<not> drop_when_full g \<Longrightarrow> 38 \<le> length payload \<Longrightarrow>
      \<exists>payload'. nf_process g junk mg device payload et proto sip dip ps pd now =
        Some (int (wan_device (config g)), payload', mg) \<and>
      rewritten payload 26 (le_bytes 4 (external_addr (config g))) 34 (le_bytes 2 (j_port junk)) payload'"
proof -
  let ?fid = "flow_id ps pd sip dip device proto (j_pad junk)"
  have k: "\<forall>i \<in> fst ` set xs. slot_port mg i \<noteq> flow_key ?fid" using fresh flow_key_id [OF ps] by simp
  note miss = get_internal_miss [OF inv length_flow_id k, of now] allocate_flow_full [OF inv full, of ?fid device now]
  show "drop_when_full g \<Longrightarrow>
      nf_process g junk mg device payload et proto sip dip ps pd now = Some (EXPLICIT_DROP, payload, mg)"
    using dev miss by (simp add: nf_process_def Let_def)
  assume nd: "\<not> drop_when_full g" and len: "38 \<le> length payload"
  have "(0::int) \<le> 26" "26 + int (length (le_bytes 4 (external_addr (config g)))) \<le> 34"
    "34 + int (length (le_bytes 2 (j_port junk))) \<le> int (length payload)"
    using len by simp_all
  from two_stores [OF this] obtain p1 p' where
    "store_bytes payload 26 (le_bytes 4 (external_addr (config g))) = Some p1"
    "store_bytes p1 34 (le_bytes 2 (j_port junk)) = Some p'"
    "rewritten payload 26 (le_bytes 4 (external_addr (config g))) 34 (le_bytes 2 (j_port junk)) p'"
    by blast
  then show "\<exists>payload'. nf_process g junk mg device payload et proto sip dip ps pd now =
        Some (int (wan_device (config g)), payload', mg) \<and>
      rewritten payload 26 (le_bytes 4 (external_addr (config g))) 34 (le_bytes 2 (j_port junk)) payload'"
    using dev nd miss by (simp add: nf_process_def Let_def)
qed

lemma inbound_known:
  assumes inv: "nat_inv mg (ys @ (i, t0) # zs)" and len: "38 \<le> length payload"
    and j: "length (j_flow junk) = FLOWID_SIZE"
    and fl: "flow_at mg i = Some (take (if shared mg then FLOWID_PACKED_SIZE else FLOWID_SIZE)
      (flow_id fps fpd fsip fdip fdev fproto pad))" and d: "fdev < 65536"
  shows "\<exists>payload' mg'. nf_process g junk mg (wan_device (config g)) payload et proto sip dip ps
      (start_port (fstate mg) + i) now = Some (int fdev, payload', mg') \<and>
    nat_inv mg' (ys @ zs @ [(i, now)]) \<and>
    rewritten payload 30 (le_bytes 4 fsip) 36 (le_bytes 2 fps) payload'"
proof -
  let ?f = "flow_id fps fpd fsip fdip fdev fproto pad"
  let ?bs = "take (if shared mg then FLOWID_PACKED_SIZE else FLOWID_SIZE) ?f"
  let ?o = "?bs @ drop (length ?bs) (j_flow junk)"
  obtain mg' where e: "flow_manager_get_external mg (start_port (fstate mg) + i) now (j_flow junk) =
      Some (Some ?o, mg')" "nat_inv mg' (ys @ zs @ [(i, now)])"
    using get_external_hit [OF inv j, of now] fl by auto
  have f: "take 2 ?o = le_bytes 2 fps" "take 4 (drop 4 ?o) = le_bytes 4 fsip"
    "take 2 (drop 12 ?o) = le_bytes 2 fdev"
    using flow_id_fields [of fps fpd fsip fdip fdev fproto pad] by (auto simp: take_drop min_def)
  have "(0::int) \<le> 30" "30 + int (length (le_bytes 4 fsip)) \<le> 36"
    "36 + int (length (le_bytes 2 fps)) \<le> int (length payload)" using len by simp_all
  from two_stores [OF this] obtain p1 p' where
    "store_bytes payload 30 (le_bytes 4 fsip) = Some p1" "store_bytes p1 36 (le_bytes 2 fps) = Some p'"
    "rewritten payload 30 (le_bytes 4 fsip) 36 (le_bytes 2 fps) p'" by blast
  then show ?thesis using e f d by (simp add: nf_process_def Let_def le_val_le_bytes)
qed

subsection \<open>Properties\<close>

text \<open>A concrete environment for the witnesses: garbage in every block the allocator returns.\<close>

definition demo_heap :: "nat \<Rightarrow> nat \<Rightarrow> heap_oracle" where
  "demo_heap n esz = \<lparr>got_state = True, got_fm = True,
     got_map = Some \<lparr>busybits = replicate n 7, keyps = replicate n Stack, k_hashes = replicate n 3,
       chns = replicate n 5, vals = replicate n 0\<rparr>,
     got_fv = True, got_vector = True, got_data = (\<lambda>k. Some (replicate k 255)), got_heap = True,
     got_cells = Some (replicate (n + 2) \<lparr>cprev = 9, cnext = 9\<rparr>), got_times = Some (replicate n 8)\<rparr>"

definition demo_manager :: "nat \<Rightarrow> bool \<Rightarrow> flow_manager" where
  "demo_manager n shr = the (the (flow_manager_allocate (demo_heap n (if shr then 15 else 16)) True 1024
     0x01010101 2 60000000 n shr))"

lemma demo_heap_ok: "heap_ok (demo_heap n esz) n esz"
  by (simp add: heap_ok_def demo_heap_def)

lemma demo_manager:
  assumes "0 < n" "n \<le> 2"
  shows "nat_inv (demo_manager n shr) []" "start_port (fstate (demo_manager n shr)) = 1024"
    "max_flows (fstate (demo_manager n shr)) = n" "shared (demo_manager n shr) = shr"
    "expiration_time (demo_manager n shr) = 60000000"
proof -
  have h: "heap_ok (demo_heap n (if shr then 15 else 16)) n (if shr then FLOWID_PACKED_SIZE else FLOWID_SIZE)"
    using demo_heap_ok by simp
  obtain mg where "flow_manager_allocate (demo_heap n (if shr then 15 else 16)) True 1024
      0x01010101 2 60000000 n shr = Some (Some mg)" "nat_inv mg []"
    "start_port (fstate mg) = 1024" "max_flows (fstate mg) = n" "shared mg = shr" "expiration_time mg = 60000000"
    using flow_manager_allocate_inv [OF _ _ _ h, of 1024 "0x01010101" 2 60000000] assms by auto
  then show "nat_inv (demo_manager n shr) []" "start_port (fstate (demo_manager n shr)) = 1024"
    "max_flows (fstate (demo_manager n shr)) = n" "shared (demo_manager n shr) = shr"
    "expiration_time (demo_manager n shr) = 60000000" by (simp_all add: demo_manager_def)
qed

lemmas demo_two = demo_manager [of 2, simplified]
lemmas demo_one = demo_manager [of 1, simplified]

definition demo_globals :: nf_globals where
  "demo_globals = \<lparr>config = nf_config_default 3, nat_shards = [], nat_shard_count = 0, drop_when_full = True\<rparr>"

definition demo_junk :: nf_junk where
  "demo_junk = \<lparr>j_port = 4242, j_flow = replicate 16 170, j_device = 77, j_pad = 204\<rparr>"

lemma demo_globals: "wan_device (config demo_globals) = 2" "drop_when_full demo_globals"
  by (simp_all add: demo_globals_def nf_config_default_def Let_def)

text \<open>C26. Shards. When the allocations succeed, \<open>nf_init\<close> accepts every shard count from 1 to the number of
  flows, \<open>nf_shard\<close> returns an empty, well-formed flow table for each shard, and every external
  port from 1024 to 17407 belongs to exactly one shard.\<close>

theorem nf_init_shards_partition_ports:
  assumes "env_ok env nb shr" "0 < nb" "nb \<le> 16384"
  shows "\<exists>g'. nf_init env nb shr dropf g = Some (True, g') \<and>
    (\<forall>k<nb. \<exists>mg. nf_shard g' k = Some mg \<and> nat_inv mg [] \<and> shared mg = shr) \<and>
    (\<forall>p. 1024 \<le> p \<and> p < 17408 \<longleftrightarrow> (\<exists>!k. k < nb \<and> (\<exists>mg. nf_shard g' k = Some mg \<and>
       start_port (fstate mg) \<le> p \<and> p < start_port (fstate mg) + max_flows (fstate mg))))"
proof -
  obtain g' where g': "nf_init env nb shr dropf g = Some (True, g')" "shards_ok nb shr nb (nat_shards g')"
    "nat_shard_count g' = nb" using nf_init_ok [OF assms] by blast
  have sh: "\<exists>mg. nf_shard g' k = Some mg \<and> nat_inv mg [] \<and> shared mg = shr \<and>
      start_port (fstate mg) = shard_first nb k \<and>
      start_port (fstate mg) + max_flows (fstate mg) = shard_first nb (Suc k)" if "k < nb" for k
    using g'(2,3) that by (auto simp: shards_ok_def nf_shard_def)
  then have own: "(\<exists>mg. nf_shard g' k = Some mg \<and> start_port (fstate mg) \<le> p \<and>
      p < start_port (fstate mg) + max_flows (fstate mg)) \<longleftrightarrow> shard_first nb k \<le> p \<and> p < shard_first nb (Suc k)"
    if "k < nb" for k p using that by fastforce
  have "1024 \<le> p \<and> p < 17408 \<longleftrightarrow> (\<exists>!k. k < nb \<and> shard_first nb k \<le> p \<and> p < shard_first nb (Suc k))" for p
    by (rule steps_partition) (simp_all add: shard_first_end [OF assms(2)] shard_first_mono, simp add: shard_first_def)
  then have part: "1024 \<le> p \<and> p < 17408 \<longleftrightarrow> (\<exists>!k. k < nb \<and> shard_first nb k \<le> p \<and> p < shard_first nb (Suc k))" for p .
  have "1024 \<le> p \<and> p < 17408 \<longleftrightarrow> (\<exists>!k. k < nb \<and> (\<exists>mg. nf_shard g' k = Some mg \<and>
       start_port (fstate mg) \<le> p \<and> p < start_port (fstate mg) + max_flows (fstate mg)))" for p
  proof -
    have "(k < nb \<and> (\<exists>mg. nf_shard g' k = Some mg \<and> start_port (fstate mg) \<le> p \<and>
      p < start_port (fstate mg) + max_flows (fstate mg))) \<longleftrightarrow>
      (k < nb \<and> shard_first nb k \<le> p \<and> p < shard_first nb (Suc k))" for k
      using own [of k p] by blast
    then show ?thesis by (simp only: part)
  qed
  then show ?thesis using g'(1) sh by blast
qed


definition demo_env :: "nat \<Rightarrow> bool \<Rightarrow> nf_env" where
  "demo_env nb shr = \<lparr>dev_count = 3, got_shards = True, got_manager = (\<lambda>_. True),
     shard_heap = (\<lambda>k. demo_heap (16384 div nb + (if k < 16384 mod nb then 1 else 0)) (if shr then 15 else 16))\<rparr>"

theorem nf_init_shards_partition_ports_witness:
  "\<exists>g'. nf_init (demo_env 3 True) 3 True False demo_globals = Some (True, g') \<and>
    (\<forall>k<3. \<exists>mg. nf_shard g' k = Some mg \<and> nat_inv mg [] \<and> shared mg = True)"
proof -
  have "env_ok (demo_env 3 True) 3 True" using demo_heap_ok by (simp add: env_ok_def demo_env_def)
  from nf_init_shards_partition_ports [OF this, of False demo_globals] show ?thesis by auto
qed

text \<open>C2. A new flow. The first packet of a flow whose source port no stored flow has, from an internal
  device, leaves on the WAN device with the NAT's address and an external port that was free in
  this table; only those two fields of the frame change, and the flow is stored under that port.\<close>

theorem nf_process_new_flow:
  assumes "nat_inv mg xs" "device \<noteq> wan_device (config g)" "38 \<le> length payload" "ps < 65536"
    and "\<forall>i \<in> fst ` set xs. slot_port mg i \<noteq> ps" "length xs < max_flows (fstate mg)"
  shows "\<exists>i payload' mg'. nf_process g junk mg device payload et proto sip dip ps pd now =
      Some (int (wan_device (config g)), payload', mg') \<and> i < max_flows (fstate mg) \<and> i \<notin> fst ` set xs \<and>
    nat_inv mg' (xs @ [(i, now)]) \<and>
    rewritten payload 26 (le_bytes 4 (external_addr (config g))) 34 (le_bytes 2 (start_port (fstate mg) + i)) payload'"
  using outbound_new [OF assms, of junk et proto sip dip pd now] by blast

theorem nf_process_new_flow_witness:
  "\<exists>i payload' mg'. nf_process demo_globals demo_junk (demo_manager 2 True) 0 (replicate 60 0) 0x0800 17 3232235777 134744072 4000 53 100 =
      Some (2, payload', mg') \<and> i < 2 \<and> nat_inv mg' [(i, 100)] \<and> load_bytes payload' 34 2 = Some (le_bytes 2 (1024 + i))"
  using nf_process_new_flow [OF demo_two(1), of 0 demo_globals "replicate 60 0" 4000 True demo_junk "0x0800" 17 3232235777 134744072 53 100]
  by (auto simp: demo_globals(1) demo_two rewritten_def)

text \<open>C1. The reply. A packet that arrives on the WAN device for the external port that a new flow was
  given is sent to that flow's internal device, with the flow's source address and source port as
  its destination.\<close>

theorem nf_process_reply_returns:
  assumes inv: "nat_inv mg xs" and dev: "device \<noteq> wan_device (config g)" "device < 65536" and len: "38 \<le> length payload"
    and ps: "ps < 65536" and fresh: "\<forall>i \<in> fst ` set xs. slot_port mg i \<noteq> ps" and room: "length xs < max_flows (fstate mg)"
    and reply: "38 \<le> length payload2" and j: "length (j_flow junk2) = FLOWID_SIZE"
  shows "\<exists>port out mg1 rep mg2.
    nf_process g junk mg device payload et proto sip dip ps pd now = Some (int (wan_device (config g)), out, mg1) \<and>
    load_bytes out 34 2 = Some (le_bytes 2 port) \<and> port < 65536 \<and>
    nf_process g junk2 mg1 (wan_device (config g)) payload2 et2 proto2 sip2 dip2 ps2 port now2 =
      Some (int device, rep, mg2) \<and>
    rewritten payload2 30 (le_bytes 4 sip) 36 (le_bytes 2 ps) rep"
proof -
  obtain i out mg1 where o: "nf_process g junk mg device payload et proto sip dip ps pd now =
      Some (int (wan_device (config g)), out, mg1)" "i < max_flows (fstate mg)" "nat_inv mg1 (xs @ [(i, now)])"
    "rewritten payload 26 (le_bytes 4 (external_addr (config g))) 34 (le_bytes 2 (start_port (fstate mg) + i)) out"
    "flow_at mg1 i = Some (take (if shared mg then FLOWID_PACKED_SIZE else FLOWID_SIZE)
      (flow_id ps pd sip dip device proto (j_pad junk)))"
    "start_port (fstate mg1) = start_port (fstate mg)" "shared mg1 = shared mg"
    using outbound_new [OF inv dev(1) len ps fresh room, of junk et proto sip dip pd now] by blast
  have "nat_inv mg1 (xs @ (i, now) # [])" using o(3) by simp
  from inbound_known [OF this reply j _ dev(2), of ps pd sip dip proto "j_pad junk" g et2 proto2 sip2 dip2 ps2 now2]
  obtain rep mg2 where b: "nf_process g junk2 mg1 (wan_device (config g)) payload2 et2 proto2 sip2 dip2 ps2
      (start_port (fstate mg) + i) now2 = Some (int device, rep, mg2)"
    "rewritten payload2 30 (le_bytes 4 sip) 36 (le_bytes 2 ps) rep" using o(5-7) by auto
  moreover have "start_port (fstate mg) + i < 65536" using nat_invD(7) [OF inv] o(2) by simp
  moreover have "load_bytes out 34 2 = Some (le_bytes 2 (start_port (fstate mg) + i))"
    using o(4) by (simp add: rewritten_def)
  ultimately show ?thesis using o(1) by blast
qed

theorem nf_process_reply_returns_witness:
  "\<exists>port out mg1 rep mg2.
    nf_process demo_globals demo_junk (demo_manager 2 False) 0 (replicate 60 0) 0x0800 17 3232235777 134744072 4000 53 100 =
      Some (2, out, mg1) \<and>
    nf_process demo_globals demo_junk mg1 2 (replicate 60 1) 0x0800 17 134744072 16843009 53 port 120 = Some (0, rep, mg2) \<and>
    load_bytes rep 36 2 = Some (le_bytes 2 4000)"
  using nf_process_reply_returns [OF demo_two(1), of 0 demo_globals "replicate 60 0" 4000 False "replicate 60 1"
      demo_junk demo_junk "0x0800" 17 3232235777 134744072 53 100 "0x0800" 17 134744072 16843009 53 120]
  by (fastforce simp: demo_globals(1) demo_two rewritten_def demo_junk_def)

text \<open>A full table. A packet of a new flow is dropped unchanged with \<open>drop_when_full\<close>; without it the
  packet is not forwarded untranslated as \<^verbatim>\<open>nf.h\<close> says: it leaves with the NAT's address and
  whatever the uninitialised \<open>external_port\<close> holds as its source port.\<close>

theorem nf_process_table_full:
  assumes "nat_inv mg xs" "device \<noteq> wan_device (config g)" "ps < 65536"
    and "\<forall>i \<in> fst ` set xs. slot_port mg i \<noteq> ps" "length xs = max_flows (fstate mg)" "38 \<le> length payload"
  shows "if drop_when_full g
    then nf_process g junk mg device payload et proto sip dip ps pd now = Some (EXPLICIT_DROP, payload, mg)
    else \<exists>payload'. nf_process g junk mg device payload et proto sip dip ps pd now =
        Some (int (wan_device (config g)), payload', mg) \<and>
      rewritten payload 26 (le_bytes 4 (external_addr (config g))) 34 (le_bytes 2 (j_port junk)) payload'"
  using outbound_full [OF assms(1-5)] assms(6) by simp

theorem nf_process_table_full_witness:
  "\<exists>i out mg1. nf_process demo_globals demo_junk (demo_manager 1 True) 0 (replicate 60 0) 0x0800 17 3232235777 134744072 4000 53 100 =
      Some (2, out, mg1) \<and> nat_inv mg1 [(i, 100)] \<and>
    nf_process demo_globals demo_junk mg1 0 (replicate 60 0) 0x0800 17 3232235777 134744072 4001 53 110 =
      Some (65535, replicate 60 0, mg1)"
proof -
  obtain i out mg1 where o: "nf_process demo_globals demo_junk (demo_manager 1 True) 0 (replicate 60 0) 0x0800 17 3232235777 134744072 4000 53 100 =
      Some (2, out, mg1)" "nat_inv mg1 [(i, 100)]"
    "flow_at mg1 i = Some (take 15 (flow_id 4000 53 3232235777 134744072 0 17 (j_pad demo_junk)))"
    "max_flows (fstate mg1) = 1"
    using outbound_new [OF demo_one(1), of 0 demo_globals "replicate 60 0" 4000 True demo_junk "0x0800" 17 3232235777 134744072 53 100]
    by (auto simp: demo_globals demo_one)
  have "slot_port mg1 i = 4000"
    using slot_port_flow_at [OF o(3)] by (simp add: flow_key_def flow_id_fields le_val_le_bytes)
  then show ?thesis
    using o nf_process_table_full [OF o(2), of 0 demo_globals 4001 "replicate 60 0" demo_junk "0x0800" 17 3232235777 134744072 53 110]
    by (auto simp: demo_globals)
qed

text \<open>Flows are told apart by their source port alone. A packet from an internal device whose source
  port equals that of a stored flow is given that flow's external port, whatever its source
  address, destination and protocol; a reply still goes to the stored flow's host.\<close>

theorem nf_process_same_source_port:
  assumes inv: "nat_inv mg (ys @ (i, t0) # zs)" and dev: "device \<noteq> wan_device (config g)" and len: "38 \<le> length payload"
    and ps: "ps < 65536"
    and fl: "flow_at mg i = Some (take (if shared mg then FLOWID_PACKED_SIZE else FLOWID_SIZE)
      (flow_id ps fpd fsip fdip fdev fproto pad))"
    and reply: "fdev < 65536" "38 \<le> length payload2" "length (j_flow junk2) = FLOWID_SIZE"
  shows "\<exists>out mg1 rep mg2.
    nf_process g junk mg device payload et proto sip dip ps pd now = Some (int (wan_device (config g)), out, mg1) \<and>
    rewritten payload 26 (le_bytes 4 (external_addr (config g))) 34 (le_bytes 2 (start_port (fstate mg) + i)) out \<and>
    nf_process g junk2 mg1 (wan_device (config g)) payload2 et2 proto2 sip2 dip2 ps2 (start_port (fstate mg) + i) now2 =
      Some (int fdev, rep, mg2) \<and>
    rewritten payload2 30 (le_bytes 4 fsip) 36 (le_bytes 2 ps) rep"
proof -
  have "slot_port mg i = ps"
    using slot_port_flow_at [OF fl] ps by (simp add: flow_key_def flow_id_fields le_val_le_bytes split: if_splits)
  from outbound_known [OF inv dev len ps this, of junk et proto sip dip pd now]
  obtain out mg1 where o: "nf_process g junk mg device payload et proto sip dip ps pd now =
      Some (int (wan_device (config g)), out, mg1)" "nat_inv mg1 ((ys @ zs) @ (i, now) # [])"
    "rewritten payload 26 (le_bytes 4 (external_addr (config g))) 34 (le_bytes 2 (start_port (fstate mg) + i)) out"
    "flow_at mg1 = flow_at mg" "start_port (fstate mg1) = start_port (fstate mg)" "shared mg1 = shared mg" by auto
  from inbound_known [OF o(2) reply(2,3) _ reply(1), of ps fpd fsip fdip fproto pad g et2 proto2 sip2 dip2 ps2 now2]
  obtain rep mg2 where b: "nf_process g junk2 mg1 (wan_device (config g)) payload2 et2 proto2 sip2 dip2 ps2
      (start_port (fstate mg) + i) now2 = Some (int fdev, rep, mg2)"
    "rewritten payload2 30 (le_bytes 4 fsip) 36 (le_bytes 2 ps) rep" using o(4-6) fl by auto
  then show ?thesis using o(1,3) by blast
qed

theorem nf_process_same_source_port_witness:
  "\<exists>i out mg1 out2 mg2 rep mg3.
    nf_process demo_globals demo_junk (demo_manager 2 False) 0 (replicate 60 0) 0x0800 17 3232235777 134744072 4000 53 100 =
      Some (2, out, mg1) \<and>
    nf_process demo_globals demo_junk mg1 1 (replicate 60 0) 0x0800 6 3232235999 16909060 4000 80 110 = Some (2, out2, mg2) \<and>
    nf_process demo_globals demo_junk mg2 2 (replicate 60 1) 0x0800 6 16909060 16843009 80 (1024 + i) 120 = Some (0, rep, mg3) \<and>
    load_bytes rep 30 4 = Some (le_bytes 4 3232235777)"
proof -
  obtain i out mg1 where o: "nf_process demo_globals demo_junk (demo_manager 2 False) 0 (replicate 60 0) 0x0800 17 3232235777 134744072 4000 53 100 =
      Some (2, out, mg1)" "nat_inv mg1 ([] @ (i, 100) # [])"
    "flow_at mg1 i = Some (flow_id 4000 53 3232235777 134744072 0 17 (j_pad demo_junk))"
    "start_port (fstate mg1) = 1024" "shared mg1 = False"
    using outbound_new [OF demo_two(1), of 0 demo_globals "replicate 60 0" 4000 False demo_junk "0x0800" 17 3232235777 134744072 53 100]
    by (auto simp: demo_globals demo_two)
  have "flow_at mg1 i = Some (take (if shared mg1 then FLOWID_PACKED_SIZE else FLOWID_SIZE)
    (flow_id 4000 53 3232235777 134744072 0 17 (j_pad demo_junk)))" using o(3,5) by simp
  from nf_process_same_source_port [OF o(2) _ _ _ this, of 1 demo_globals "replicate 60 0" "replicate 60 1" demo_junk
      demo_junk "0x0800" 6 3232235999 16909060 80 110 "0x0800" 6 16909060 16843009 80 120]
  show ?thesis using o(1,4) by (fastforce simp: demo_globals rewritten_def demo_junk_def)
qed

text \<open>Expiry of flows. With times in order \<open>flow_manager_expire\<close> keeps exactly the flows used at or
  after its bound, releases the lock, and leaves the bytes of the kept flows alone.\<close>

theorem flow_manager_expire_correct:
  assumes "nat_inv mg xs" "sorted (map snd xs)"
  shows "\<exists>mg'. flow_manager_expire mg t = Some mg' \<and>
    nat_inv mg' (filter (\<lambda>x. expiry_bound mg t \<le> snd x) xs) \<and> flow_at mg' = flow_at mg"
  using expire_flows [OF assms(1)] assms(2) by (simp add: ages_def)

theorem flow_manager_expire_correct_witness:
  "\<exists>mg'. flow_manager_expire (demo_manager 2 True) 100 = Some mg' \<and> nat_inv mg' []"
  using flow_manager_expire_correct [OF demo_two(1) [of True], of 100] by auto

text \<open>The expiry window wraps. With the 60 seconds that \<open>nf_init\<close> configures, the product
  \<open>expiration_time * 1000\<close> is reduced to 32 bits: flows idle for more than about 4.17 seconds
  (4165425152 ns) are released, not those idle for more than 60 seconds.\<close>

theorem flow_manager_expire_window_wraps:
  assumes "nat_inv mg xs" "sorted (map snd xs)" "4165425152 \<le> t" "t < 2 ^ 64"
    and "expiration_time mg = cfg_expiration_time (nf_config_default devices)"
  shows "\<exists>mg'. flow_manager_expire mg t = Some mg' \<and> nat_inv mg' (filter (\<lambda>x. t \<le> snd x + 4165425152) xs)"
proof -
  have "u32 (expiration_time mg * 1000) = 4165425152"
    using assms(5) by (simp add: nf_config_default_def Let_def u32_def)
  then have "expiry_bound mg t = t - 4165425152"
    using assms(3,4) by (simp add: expiry_bound_def nat_diff_distrib)
  moreover have "t - 4165425152 \<le> u \<longleftrightarrow> t \<le> u + 4165425152" for u by linarith
  ultimately show ?thesis using expire_flows [OF assms(1), of t] assms(2) by (auto simp: ages_def)
qed

theorem flow_manager_expire_window_wraps_witness:
  "\<exists>i out mg1 mg2. nf_process demo_globals demo_junk (demo_manager 2 True) 0 (replicate 60 0) 0x0800 17 3232235777 134744072 4000 53 100 =
      Some (2, out, mg1) \<and> nat_inv mg1 [(i, 100)] \<and>
    flow_manager_expire mg1 4200000000 = Some mg2 \<and> nat_inv mg2 []"
proof -
  obtain i out mg1 where o: "nf_process demo_globals demo_junk (demo_manager 2 True) 0 (replicate 60 0) 0x0800 17 3232235777 134744072 4000 53 100 =
      Some (2, out, mg1)" "nat_inv mg1 [(i, 100)]" "expiration_time mg1 = 60000000"
    using outbound_new [OF demo_two(1), of 0 demo_globals "replicate 60 0" 4000 True demo_junk "0x0800" 17 3232235777 134744072 53 100]
    by (auto simp: demo_globals demo_two)
  from flow_manager_expire_window_wraps [OF o(2), of 4200000000 0] o(1,2,3)
  show ?thesis by (auto simp: nf_config_default_def Let_def)
qed

end
