(* ===== verification/Sketch.thy ===== *)
theory Sketch
  imports Vector
begin

section \<open>The count-min sketch: xxhash64.h and count\_add of main.c\<close>

text \<open>
  \<open>xxhash64\<close> over a block of bytes, a pointer into it being an offset; a load outside the block is
  \<open>None\<close>. \<open>count_add\<close> reads the five fields of a packet from the bytes of its buffer, packs them into
  a key of 13 bytes and increments one counter in each of the 16 rows of the sketch. The sketch
  is a function of row and column with the bounds of both arrays checked; the two structs
  \<^verbatim>\<open>countmin\<close> and \<^verbatim>\<open>countmin_partitioned\<close> differ only in the number of columns.
\<close>

subsection \<open>xxhash64\<close>

definition PRIME1 :: "64 word" where "PRIME1 = 11400714785074694791"
definition PRIME2 :: "64 word" where "PRIME2 = 14029467366897019727"
definition PRIME3 :: "64 word" where "PRIME3 = 1609587929392839161"
definition PRIME4 :: "64 word" where "PRIME4 = 9650029242287828579"
definition PRIME5 :: "64 word" where "PRIME5 = 2870177450012600261"

definition rotl :: "64 word \<Rightarrow> nat \<Rightarrow> 64 word" where
  "rotl x r = push_bit r x OR drop_bit (64 - r) x"

definition mix1 :: "64 word \<Rightarrow> 64 word \<Rightarrow> nat \<Rightarrow> 64 word" where
  "mix1 h prime rshift = (h XOR drop_bit rshift h) * prime"

definition mix2 :: "64 word \<Rightarrow> 64 word \<Rightarrow> 64 word" where
  "mix2 p v = rotl (v + p * PRIME2) 31 * PRIME1"

definition mix3 :: "64 word \<Rightarrow> 64 word \<Rightarrow> 64 word" where
  "mix3 h v = (h XOR mix2 v 0) * PRIME1 + PRIME4"

definition endian32 :: "bytes \<Rightarrow> int \<Rightarrow> 32 word option" where
  "endian32 d p = do {
     b0 \<leftarrow> arr_get d p; b1 \<leftarrow> arr_get d (p + 1); b2 \<leftarrow> arr_get d (p + 2); b3 \<leftarrow> arr_get d (p + 3);
     Some (ucast b0 OR push_bit 8 (ucast b1) OR push_bit 16 (ucast b2) OR push_bit 24 (ucast b3))
   }"

definition endian64 :: "bytes \<Rightarrow> int \<Rightarrow> 64 word option" where
  "endian64 d p = do {
     b0 \<leftarrow> arr_get d p; b1 \<leftarrow> arr_get d (p + 1); b2 \<leftarrow> arr_get d (p + 2); b3 \<leftarrow> arr_get d (p + 3);
     b4 \<leftarrow> arr_get d (p + 4); b5 \<leftarrow> arr_get d (p + 5); b6 \<leftarrow> arr_get d (p + 6); b7 \<leftarrow> arr_get d (p + 7);
     Some (ucast b0 OR push_bit 8 (ucast b1) OR push_bit 16 (ucast b2) OR push_bit 24 (ucast b3)
       OR push_bit 32 (ucast b4) OR push_bit 40 (ucast b5) OR push_bit 48 (ucast b6) OR push_bit 56 (ucast b7))
   }"

definition fetch64 :: "bytes \<Rightarrow> int \<Rightarrow> 64 word \<Rightarrow> 64 word option" where
  "fetch64 d p v = do { x \<leftarrow> endian64 d p; Some (mix2 x v) }"

definition fetch32 :: "bytes \<Rightarrow> int \<Rightarrow> 64 word option" where
  "fetch32 d p = do { x \<leftarrow> endian32 d p; Some (ucast x * PRIME1) }"

definition fetch8 :: "bytes \<Rightarrow> int \<Rightarrow> 64 word option" where
  "fetch8 d p = do { x \<leftarrow> arr_get d p; Some (ucast x * PRIME5) }"

function finalize :: "64 word \<Rightarrow> bytes \<Rightarrow> int \<Rightarrow> nat \<Rightarrow> 64 word option" where
  "finalize h d p len =
    (if 8 \<le> len then do {
       f \<leftarrow> fetch64 d p 0;
       finalize (rotl (h XOR f) 27 * PRIME1 + PRIME4) d (p + 8) (len - 8)
     } else if 4 \<le> len then do {
       f \<leftarrow> fetch32 d p;
       finalize (rotl (h XOR f) 23 * PRIME2 + PRIME3) d (p + 4) (len - 4)
     } else if 0 < len then do {
       f \<leftarrow> fetch8 d p;
       finalize (rotl (h XOR f) 11 * PRIME1) d (p + 1) (len - 1)
     } else Some (mix1 (mix1 (mix1 h PRIME2 33) PRIME3 29) 1 32))"
  by pat_completeness auto
termination
  by (relation "measure (\<lambda>(h, d, p, len). len)") auto

declare finalize.simps [simp del]

function h32bytes_4 ::
  "bytes \<Rightarrow> int \<Rightarrow> nat \<Rightarrow> 64 word \<Rightarrow> 64 word \<Rightarrow> 64 word \<Rightarrow> 64 word \<Rightarrow> 64 word option"
  where
  "h32bytes_4 d p len v1 v2 v3 v4 =
    (if 32 \<le> len then do {
       v1 \<leftarrow> fetch64 d p v1; v2 \<leftarrow> fetch64 d (p + 8) v2;
       v3 \<leftarrow> fetch64 d (p + 16) v3; v4 \<leftarrow> fetch64 d (p + 24) v4;
       h32bytes_4 d (p + 32) (len - 32) v1 v2 v3 v4
     } else Some (mix3 (mix3 (mix3 (mix3 (rotl v1 1 + rotl v2 7 + rotl v3 12 + rotl v4 18) v1) v2) v3) v4))"
  by pat_completeness auto
termination
  by (relation "measure (\<lambda>(d, p, len, v1, v2, v3, v4). len)") auto

declare h32bytes_4.simps [simp del]

definition h32bytes_3 :: "bytes \<Rightarrow> int \<Rightarrow> nat \<Rightarrow> 64 word \<Rightarrow> 64 word option" where
  "h32bytes_3 d p len seed =
     h32bytes_4 d p len (seed + PRIME1 + PRIME2) (seed + PRIME2) seed (seed - PRIME1)"

text \<open>\<^verbatim>\<open>len & ~0x1F\<close> and \<^verbatim>\<open>len & 0x1F\<close> are the multiple of 32 below \<open>len\<close> and the rest.\<close>

definition xxhash64 :: "bytes \<Rightarrow> int \<Rightarrow> nat \<Rightarrow> 64 word \<Rightarrow> 64 word option" where
  "xxhash64 d p len seed = do {
     h \<leftarrow> (if 32 \<le> len then h32bytes_3 d p len seed else Some (seed + PRIME5));
     finalize (h + word_of_nat len) d (p + int (len div 32 * 32)) (len mod 32)
   }"

subsection \<open>count\_add\<close>

definition HASHFN_N :: nat where [simp]: "HASHFN_N = 16"
definition CMS_COLUMNS :: nat where [simp]: "CMS_COLUMNS = 1048576"
definition CMS_COLUMNS_PARTITIONED :: nat where [simp]: "CMS_COLUMNS_PARTITIONED = 65536"

record countmin =
  cms_values :: "nat \<Rightarrow> nat \<Rightarrow> 64 word"

record five_tuple =
  src_ip :: nat
  dst_ip :: nat
  src_port :: nat
  dst_port :: nat
  proto :: "8 word"

definition key_bytes :: "five_tuple \<Rightarrow> bytes" where
  "key_bytes k =
     le_bytes 4 (src_ip k) @ le_bytes 4 (dst_ip k) @ le_bytes 2 (src_port k) @ le_bytes 2 (dst_port k) @ [proto k]"

definition packet_tuple :: "bytes \<Rightarrow> five_tuple option option" where
  "packet_tuple m = do {
     ether_type \<leftarrow> load_be16 m 12;
     if ether_type = 0x0800 then do {
       src \<leftarrow> load_be32 m 26;
       dst \<leftarrow> load_be32 m 30;
       prt \<leftarrow> arr_get m 23;
       (sp, dp) \<leftarrow> (if prt = 6 \<or> prt = 17 then do {
           sp \<leftarrow> load_be16 m 34;
           dp \<leftarrow> load_be16 m 36;
           Some (sp, dp)
         } else Some (0, 0));
       Some (Some \<lparr>src_ip = src, dst_ip = dst, src_port = sp, dst_port = dp, proto = prt\<rparr>)
     }
     else Some None
   }"

definition cms_columns :: "bool \<Rightarrow> nat" where
  "cms_columns partitioned = (if partitioned then CMS_COLUMNS_PARTITIONED else CMS_COLUMNS)"

definition cms_column :: "bool \<Rightarrow> five_tuple \<Rightarrow> nat \<Rightarrow> nat option" where
  "cms_column partitioned key i = do {
     h \<leftarrow> xxhash64 (key_bytes key) 0 13 (word_of_nat i);
     Some (unat (ucast (h AND word_of_nat (cms_columns partitioned - 1)) :: 32 word))
   }"

function count_rows :: "bool \<Rightarrow> five_tuple \<Rightarrow> nat \<Rightarrow> countmin \<Rightarrow> countmin option" where
  "count_rows partitioned key i cms =
    (if i < HASHFN_N then do {
       target_idx \<leftarrow> cms_column partitioned key i;
       if target_idx < cms_columns partitioned then
         count_rows partitioned key (Suc i)
           (cms\<lparr>cms_values := (cms_values cms)(i := (cms_values cms i)(target_idx := cms_values cms i target_idx + 1))\<rparr>)
       else None
     } else Some cms)"
  by pat_completeness auto
termination
  by (relation "measure (\<lambda>(b, key, i, cms). HASHFN_N - i)") auto

declare count_rows.simps [simp del]

definition count_add :: "bytes \<Rightarrow> bool \<Rightarrow> countmin \<Rightarrow> countmin option" where
  "count_add m partitioned cms = do {
     key \<leftarrow> packet_tuple m;
     case key of None \<Rightarrow> Some cms | Some key \<Rightarrow> count_rows partitioned key 0 cms
   }"

subsection \<open>The hash reads only its input\<close>

lemma fetch_some:
  "0 \<le> p \<Longrightarrow> p + 8 \<le> int (length d) \<Longrightarrow> \<exists>x. fetch64 d p v = Some x"
  "0 \<le> p \<Longrightarrow> p + 4 \<le> int (length d) \<Longrightarrow> \<exists>x. fetch32 d p = Some x"
  "0 \<le> p \<Longrightarrow> p + 1 \<le> int (length d) \<Longrightarrow> \<exists>x. fetch8 d p = Some x"
  by (simp_all add: fetch64_def endian64_def fetch32_def endian32_def fetch8_def arr_get_some)

lemma finalize_some:
  "0 \<le> p \<Longrightarrow> p + int len \<le> int (length d) \<Longrightarrow> \<exists>x. finalize h d p len = Some x"
proof (induction h d p len rule: finalize.induct)
  case (1 h d p len)
  consider "8 \<le> len" | "4 \<le> len" "len < 8" | "0 < len" "len < 4" | "len = 0" by linarith
  then show ?case
  proof cases
    case 1
    then obtain f where "fetch64 d p 0 = Some f" using fetch_some(1) [of p d] "1.prems" by auto
    then show ?thesis using 1 "1.IH"(1) [of f] "1.prems" by (subst finalize.simps) simp
  next
    case 2
    then obtain f where "fetch32 d p = Some f" using fetch_some(2) [of p d] "1.prems" by auto
    then show ?thesis using 2 "1.IH"(2) [of f] "1.prems" by (subst finalize.simps) simp
  next
    case 3
    then obtain f where "fetch8 d p = Some f" using fetch_some(3) [of p d] "1.prems" by auto
    then show ?thesis using 3 "1.IH"(3) [of f] "1.prems" by (subst finalize.simps) simp
  qed (subst finalize.simps, simp)
qed

lemma h32bytes_4_some:
  "0 \<le> p \<Longrightarrow> p + int len \<le> int (length d) \<Longrightarrow> \<exists>x. h32bytes_4 d p len v1 v2 v3 v4 = Some x"
proof (induction d p len v1 v2 v3 v4 rule: h32bytes_4.induct)
  case (1 d p len v1 v2 v3 v4)
  show ?case
  proof (cases "32 \<le> len")
    case True
    obtain w1 where w1: "fetch64 d p v1 = Some w1" using fetch_some(1) [of p d] True "1.prems" by auto
    obtain w2 where w2: "fetch64 d (p + 8) v2 = Some w2" using fetch_some(1) [of "p + 8" d] True "1.prems" by auto
    obtain w3 where w3: "fetch64 d (p + 16) v3 = Some w3" using fetch_some(1) [of "p + 16" d] True "1.prems" by auto
    obtain w4 where w4: "fetch64 d (p + 24) v4 = Some w4" using fetch_some(1) [of "p + 24" d] True "1.prems" by auto
    show ?thesis
      using True "1.IH" [OF True w1 w2 w3 w4] "1.prems" by (subst h32bytes_4.simps) (simp add: w1 w2 w3 w4)
  qed (subst h32bytes_4.simps, simp)
qed

lemma xxhash64_some:
  assumes "0 \<le> p" "p + int len \<le> int (length d)"
  shows "\<exists>h. xxhash64 d p len seed = Some h"
proof -
  obtain h where h: "(if 32 \<le> len then h32bytes_3 d p len seed else Some (seed + PRIME5)) = Some h"
    using h32bytes_4_some [OF assms, of "seed + PRIME1 + PRIME2" "seed + PRIME2" seed "seed - PRIME1"]
    by (cases "32 \<le> len") (auto simp: h32bytes_3_def)
  have "int (len div 32 * 32) + int (len mod 32) = int len"
    by (simp only: flip: of_nat_add) simp
  then have "\<exists>x. finalize (h + word_of_nat len) d (p + int (len div 32 * 32)) (len mod 32) = Some x"
    using assms by (intro finalize_some) linarith+
  then show ?thesis by (simp only: xxhash64_def h bind.bind_lunit)
qed

subsection \<open>What one packet adds\<close>

lemma cms_column_some: "\<exists>c < cms_columns b. cms_column b key i = Some c"
proof -
  have "length (key_bytes key) = 13" by (simp add: key_bytes_def)
  then obtain h where h: "xxhash64 (key_bytes key) 0 13 (word_of_nat i) = Some h"
    using xxhash64_some [of 0 13 "key_bytes key"] by auto
  obtain n where n: "n \<le> 20" "cms_columns b = 2 ^ n"
    by (cases b; rule that [of "if b then 16 else 20"]) (simp_all add: cms_columns_def)
  have "h AND word_of_nat (cms_columns b - 1) = take_bit n h"
    by (simp add: n(2) take_bit_eq_mask mask_eq_exp_minus_1)
  moreover have "unat (take_bit n h) < 2 ^ n" by (simp add: unsigned_take_bit_eq)
  moreover have "(2 :: nat) ^ n \<le> 2 ^ 20" using n(1) by (intro power_increasing) simp_all
  ultimately have "unat (ucast (h AND word_of_nat (cms_columns b - 1)) :: 32 word) < cms_columns b"
    by (simp add: n(2) unsigned_ucast_eq take_bit_nat_eq_self)
  then show ?thesis unfolding cms_column_def h bind.bind_lunit by blast
qed

lemma count_rows_effect:
  assumes "i \<le> 16"
  shows "\<exists>cms'. count_rows b key i cms = Some cms' \<and>
    (\<forall>r c. cms_values cms' r c = cms_values cms r c +
      (if i \<le> r \<and> r < 16 \<and> cms_column b key r = Some c then 1 else 0))"
  using assms
proof (induction "16 - i" arbitrary: i cms)
  case 0
  then show ?case by (subst count_rows.simps) auto
next
  case (Suc n)
  then have i: "i < 16" by simp
  obtain t where t: "t < cms_columns b" "cms_column b key i = Some t" using cms_column_some by blast
  let ?cms = "cms\<lparr>cms_values := (cms_values cms)(i := (cms_values cms i)(t := cms_values cms i t + 1))\<rparr>"
  have "n = 16 - Suc i" "Suc i \<le> 16" using Suc.hyps(2) i by simp_all
  then obtain cms' where cms': "count_rows b key (Suc i) ?cms = Some cms'"
    "\<And>r c. cms_values cms' r c = cms_values ?cms r c +
      (if Suc i \<le> r \<and> r < 16 \<and> cms_column b key r = Some c then 1 else 0)"
    using Suc.hyps(1) [of "Suc i" ?cms] by blast
  have "cms_values cms' r c = cms_values cms r c +
      (if i \<le> r \<and> r < 16 \<and> cms_column b key r = Some c then 1 else 0)" for r c
    using cms'(2) [of r c] t i by (cases "r = i") (auto simp: Suc_le_eq)
  then show ?case using cms'(1) t i by (subst count_rows.simps) simp
qed

definition counted :: "bool \<Rightarrow> nat \<Rightarrow> nat \<Rightarrow> bytes \<Rightarrow> bool" where
  "counted b r c m \<longleftrightarrow> r < 16 \<and> (\<exists>k. packet_tuple m = Some (Some k) \<and> cms_column b k r = Some c)"

lemma packet_tuple_some: "38 \<le> length m \<Longrightarrow> \<exists>k. packet_tuple m = Some k"
  by (simp add: packet_tuple_def load_be16_def load_be32_def load_bytes_def arr_get_some split: prod.split)

lemma count_add_effect:
  assumes "38 \<le> length m"
  shows "\<exists>cms'. count_add m b cms = Some cms' \<and>
    (\<forall>r c. cms_values cms' r c = cms_values cms r c + (if counted b r c m then 1 else 0))"
proof -
  obtain k where k: "packet_tuple m = Some k" using packet_tuple_some [OF assms] by blast
  show ?thesis
  proof (cases k)
    case (Some key)
    then show ?thesis using k count_rows_effect [of 0 b key cms] by (simp add: count_add_def counted_def)
  qed (use k in \<open>simp add: count_add_def counted_def\<close>)
qed

primrec count_packets :: "bytes list \<Rightarrow> bool \<Rightarrow> countmin \<Rightarrow> countmin option" where
  "count_packets [] b cms = Some cms"
| "count_packets (m # ms) b cms = do { cms \<leftarrow> count_add m b cms; count_packets ms b cms }"

lemma count_packets_effect:
  assumes "\<forall>m \<in> set ms. 38 \<le> length m"
  shows "\<exists>cms'. count_packets ms b cms = Some cms' \<and>
    (\<forall>r c. cms_values cms' r c = cms_values cms r c + word_of_nat (length (filter (counted b r c) ms)))"
  using assms
proof (induction ms arbitrary: cms)
  case (Cons m ms)
  obtain cms1 where 1: "count_add m b cms = Some cms1"
    "\<And>r c. cms_values cms1 r c = cms_values cms r c + (if counted b r c m then 1 else 0)"
    using count_add_effect [of m b cms] Cons.prems by auto
  obtain cms2 where 2: "count_packets ms b cms1 = Some cms2"
    "\<And>r c. cms_values cms2 r c = cms_values cms1 r c + word_of_nat (length (filter (counted b r c) ms))"
    using Cons.IH [of cms1] Cons.prems by auto
  show ?case using 1 2 by (auto simp: algebra_simps)
qed simp

subsection \<open>Properties\<close>

text \<open>\<open>xxhash64\<close> computes the published XXH64 function on its test vectors: the empty string,
  a string below the 32 byte block and one above it, with seed 0.\<close>

theorem xxhash64_test_vectors:
  "xxhash64 [] 0 0 0 = Some 0xEF46DB3751D8E999 \<and>
   xxhash64 [0x61, 0x62, 0x63] 0 3 0 = Some 0x44BC2CF5AD770999 \<and>
   xxhash64 (map (word_of_nat \<circ> of_char) ''Nobody inspects the spammish repetition'') 0 39 0 =
     Some 0xFBCEA83C8A378BF1"
  by (intro conjI; code_simp)

text \<open>C19. The sketch of a stream never underestimates: after any packets (fewer than \<open>2 ^ 64\<close>)
  counted into an empty sketch, in every row the counter of a flow is the number of IPv4 packets
  whose flow has the same column, hence at least the number of packets of that flow.\<close>

theorem count_min_never_underestimates:
  assumes "\<forall>m \<in> set ms. 38 \<le> length m" "\<forall>r c. cms_values cms r c = 0" "length ms < 2 ^ 64" "r < HASHFN_N"
  shows "\<exists>cms' c. count_packets ms b cms = Some cms' \<and> cms_column b k r = Some c \<and> c < cms_columns b \<and>
    unat (cms_values cms' r c) =
      length (filter (\<lambda>m. \<exists>k'. packet_tuple m = Some (Some k') \<and> cms_column b k' r = Some c) ms) \<and>
    length (filter (\<lambda>m. packet_tuple m = Some (Some k)) ms) \<le> unat (cms_values cms' r c)"
proof -
  obtain c where c: "c < cms_columns b" "cms_column b k r = Some c" using cms_column_some by blast
  obtain cms' where cms': "count_packets ms b cms = Some cms'"
    "cms_values cms' r c = word_of_nat (length (filter (counted b r c) ms))"
    using count_packets_effect [OF assms(1), of b cms] assms(2) by auto
  let ?f = "\<lambda>m. \<exists>k'. packet_tuple m = Some (Some k') \<and> cms_column b k' r = Some c"
  have "counted b r c = ?f" using assms(4) by (auto simp: counted_def fun_eq_iff)
  moreover have "length (filter ?f ms) < 2 ^ 64" using assms(3) le_less_trans [OF length_filter_le] by blast
  ultimately have v: "unat (cms_values cms' r c) = length (filter ?f ms)"
    using cms'(2) by (simp add: unat_of_nat take_bit_nat_eq_self)
  have "length (filter (\<lambda>m. packet_tuple m = Some (Some k)) ms) \<le> length (filter ?f ms)"
    using c(2) by (induction ms) auto
  then show ?thesis using c cms'(1) v by auto
qed

definition udp_sample :: bytes where
  "udp_sample = [0, 0, 0, 0, 0, 0, 0, 0, 0, 0, 0, 0, 8, 0,
     0x45, 0, 0, 28, 0, 0, 0, 0, 64, 17, 0, 0, 10, 0, 0, 1, 10, 0, 0, 2,
     0, 5, 0, 6, 0, 8, 0, 0]"

definition udp_flow :: five_tuple where
  "udp_flow = \<lparr>src_ip = 167772161, dst_ip = 167772162, src_port = 5, dst_port = 6, proto = 17\<rparr>"

lemma udp_sample_tuple: "packet_tuple udp_sample = Some (Some udp_flow)"
  by (simp add: packet_tuple_def load_be16_def load_be32_def load_bytes_def arr_get_def udp_sample_def udp_flow_def)

lemma length_udp_sample: "length udp_sample = 42"
  by (simp add: udp_sample_def)

theorem count_min_never_underestimates_witness:
  "\<exists>cms' c. count_packets [udp_sample, udp_sample] True \<lparr>cms_values = \<lambda>r c. 0\<rparr> = Some cms' \<and>
    cms_column True udp_flow 3 = Some c \<and> 2 \<le> unat (cms_values cms' 3 c)"
proof -
  have p: "\<forall>m \<in> set [udp_sample, udp_sample]. 38 \<le> length m" by (simp add: length_udp_sample)
  obtain cms' c where
    "count_packets [udp_sample, udp_sample] True \<lparr>cms_values = \<lambda>r c. 0\<rparr> = Some cms'"
    "cms_column True udp_flow 3 = Some c"
    "length (filter (\<lambda>m. packet_tuple m = Some (Some udp_flow)) [udp_sample, udp_sample]) \<le> unat (cms_values cms' 3 c)"
    using count_min_never_underestimates [OF p, of "\<lparr>cms_values = \<lambda>r c. 0\<rparr>" 3 True udp_flow]
    by (simp only: countmin.select_convs) auto
  then show ?thesis by (auto simp: udp_sample_tuple)
qed

end
