(* ===== verification/Packets.thy ===== *)
theory Packets
  imports Nat_Main Sketch
begin

section \<open>Packet handling of nf-chain: main.c\<close>

text \<open>
  What \<open>poll_loop\<close> does with a received burst: \<open>nf_process_burst\<close> looks for the stop packet,
  translates each packet with \<open>nf_process\<close> and counts it in the sketch. A packet is the list of the
  bytes of its data area.
\<close>

subsection \<open>Processing a burst\<close>

definition str_to_u32 :: "bytes \<Rightarrow> nat" where
  "str_to_u32 s = le_val (take 4 s)"

definition check_packet_magic :: "bytes \<Rightarrow> nat \<Rightarrow> int option" where
  "check_packet_magic m expected_magic = do {
     src_addr \<leftarrow> load_bytes m 26 4;
     if src_addr \<noteq> [192, 168, 0, 1] then Some (- 1)
     else do {
       dst_addr \<leftarrow> load_bytes m 30 4;
       if dst_addr \<noteq> [192, 168, 1, 1] then Some (- 1)
       else do {
         next_proto_id \<leftarrow> arr_get m 23;
         if next_proto_id \<noteq> 17 then Some (- 1)
         else do {
           dst_port \<leftarrow> load_be16 m 36;
           if dst_port \<noteq> 1028 then Some (- 1)
           else do {
             src_port \<leftarrow> load_be16 m 34;
             if src_port \<noteq> 1234 then Some (- 1)
             else do {
               let offset = (14 + 20 + 8 + 8) div 8 * 8;
               received_magic \<leftarrow> load_u32 m offset;
               if received_magic = expected_magic then Some 0 else Some (- 1)
             }
           }
         }
       }
     }
   }"

text \<open>The first four characters of \<^verbatim>\<open>STOP123456789\<close>.\<close>

definition STOP_magic :: nat where
  "STOP_magic = str_to_u32 [0x53, 0x54, 0x4F, 0x50]"

text \<open>The loop of \<open>nf_process_burst\<close> from packet \<open>i\<close> on: \<open>now i\<close> is what \<open>current_time\<close> returns for
  packet \<open>i\<close> and \<open>junk i\<close> the contents of the uninitialised variables of that call of \<open>nf_process\<close>.\<close>

fun process_from ::
  "nf_globals \<Rightarrow> (nat \<Rightarrow> nf_junk) \<Rightarrow> (nat \<Rightarrow> nat) \<Rightarrow> nat \<Rightarrow> bool \<Rightarrow> nat \<Rightarrow> bytes list \<Rightarrow> flow_manager \<Rightarrow> countmin
    \<Rightarrow> (nat \<times> bytes list \<times> flow_manager \<times> countmin) option"
  where
  "process_from g junk now portid partitioned i [] mg cms = Some (0, [], mg, cms)"
| "process_from g junk now portid partitioned i (payload # rest) mg cms = do {
     eth_type \<leftarrow> load_be16 payload 12;
     ip_proto \<leftarrow> arr_get payload 23;
     ip_src \<leftarrow> load_u32 payload 26;
     ip_dst \<leftarrow> load_u32 payload 30;
     port_src \<leftarrow> load_u16 payload 34;
     port_dst \<leftarrow> load_u16 payload 36;
     magic \<leftarrow> check_packet_magic payload STOP_magic;
     if magic = 0 then Some (1, payload # rest, mg, cms)
     else do {
       (_, payload, mg) \<leftarrow> nf_process g (junk i) mg portid payload eth_type (unat ip_proto)
          ip_src ip_dst port_src port_dst (now i);
       cms \<leftarrow> count_add payload partitioned cms;
       (r, rest, mg, cms) \<leftarrow> process_from g junk now portid partitioned (Suc i) rest mg cms;
       Some (r, payload # rest, mg, cms)
     }
   }"

definition nf_process_burst ::
  "nf_globals \<Rightarrow> (nat \<Rightarrow> nf_junk) \<Rightarrow> (nat \<Rightarrow> nat) \<Rightarrow> bytes list \<Rightarrow> nat \<Rightarrow> bool \<Rightarrow> flow_manager \<Rightarrow> countmin
    \<Rightarrow> (nat \<times> bytes list \<times> flow_manager \<times> countmin) option"
  where
  "nf_process_burst g junk now pkts portid partitioned mg cms =
     process_from g junk now portid partitioned 0 pkts mg cms"

subsection \<open>Outbound packets never fail\<close>

text \<open>Only the source address and the source port of a packet may differ.\<close>

definition source_only :: "bytes \<Rightarrow> bytes \<Rightarrow> bool" where
  "source_only p p' \<longleftrightarrow> length p' = length p \<and>
     (\<forall>q k. (q + int k \<le> 26 \<or> 30 \<le> q) \<and> (q + int k \<le> 34 \<or> 36 \<le> q) \<longrightarrow> load_bytes p' q k = load_bytes p q k)"

lemma source_only_refl [simp]: "source_only p p"
  by (simp add: source_only_def)

lemma rewritten_source_only:
  "rewritten p 26 b1 34 b2 p' \<Longrightarrow> length b1 = 4 \<Longrightarrow> length b2 = 2 \<Longrightarrow> source_only p p'"
  unfolding rewritten_def source_only_def by simp

lemma nat_inv_length:
  assumes "nat_inv mg xs"
  shows "length xs \<le> max_flows (fstate mg)"
proof -
  note d = dchain_rel_indices [OF keyed_poolD(1) [OF nat_invD(1) [OF assms]]]
  have "length xs = card (set (map fst xs))" using distinct_card [OF d(1)] by simp
  also have "\<dots> \<le> card {..<max_flows (fstate mg)}"
    using d(2) by (intro card_mono) auto
  finally show ?thesis by simp
qed

lemma outbound_total:
  assumes inv: "nat_inv mg xs" and dev: "device \<noteq> wan_device (config g)"
    and len: "38 \<le> length payload" and ps: "ps < 65536"
  shows "\<exists>r payload' mg' xs'. nf_process g junk mg device payload et pr sip dip ps pd now =
      Some (r, payload', mg') \<and> nat_inv mg' xs' \<and> source_only payload payload'"
proof (cases "\<exists>i \<in> fst ` set xs. slot_port mg i = ps")
  case True
  then obtain i t0 where i: "(i, t0) \<in> set xs" "slot_port mg i = ps" by auto
  then obtain ys zs where xs: "xs = ys @ (i, t0) # zs" by (meson split_list)
  show ?thesis
    using outbound_known [of mg ys i t0 zs, OF inv [unfolded xs] dev len ps i(2), of junk et pr sip dip pd now]
    by (auto intro!: rewritten_source_only)
next
  case False
  then have fresh: "\<forall>i \<in> fst ` set xs. slot_port mg i \<noteq> ps" by blast
  show ?thesis
  proof (cases "length xs < max_flows (fstate mg)")
    case True
    from outbound_new [OF inv dev len ps fresh True, of junk et pr sip dip pd now]
    show ?thesis by (auto intro!: rewritten_source_only)
  next
    case False
    then have full: "length xs = max_flows (fstate mg)" using nat_inv_length [OF inv] by simp
    show ?thesis
    proof (cases "drop_when_full g")
      case True
      then show ?thesis
        using outbound_full(1) [OF inv dev ps fresh full True, of junk payload et pr sip dip pd now] inv by auto
    next
      case False
      from outbound_full(2) [OF inv dev ps fresh full False len, of junk et pr sip dip pd now]
      show ?thesis using inv by (auto intro!: rewritten_source_only)
    qed
  qed
qed

subsection \<open>A burst\<close>

definition stop_packet :: "bytes \<Rightarrow> bool" where
  "stop_packet m \<longleftrightarrow> check_packet_magic m STOP_magic = Some 0"

lemma check_packet_magic_some:
  "52 \<le> length m \<Longrightarrow> \<exists>r. check_packet_magic m w = Some r"
  by (simp add: check_packet_magic_def load_bytes_def load_be16_def load_u32_def arr_get_some Let_def)

lemma process_from_effect:
  assumes "nat_inv mg xs" "portid \<noteq> wan_device (config g)" "\<forall>p \<in> set pkts. 52 \<le> length p"
  shows "let k = length (takeWhile (\<lambda>p. \<not> stop_packet p) pkts) in
    \<exists>out mg' xs' cms'. process_from g junk now portid b i pkts mg cms =
        Some (if k < length pkts then 1 else 0, out @ drop k pkts, mg', cms') \<and>
      nat_inv mg' xs' \<and> list_all2 source_only (take k pkts) out \<and> count_packets out b cms = Some cms'"
  using assms
proof (induction pkts arbitrary: i mg xs cms)
  case Nil
  then show ?case by auto
next
  case (Cons p pkts)
  have len: "52 \<le> length p" using Cons.prems by simp
  obtain et pr si di sp dp where loads: "load_be16 p 12 = Some et" "arr_get p 23 = Some pr" "load_u32 p 26 = Some si"
    "load_u32 p 30 = Some di" "load_u16 p 34 = Some sp" "load_u16 p 36 = Some dp"
    using len by (simp add: load_be16_def load_u32_def load_u16_def load_bytes_def arr_get_some)
  have sp: "sp < 65536"
    using loads(5) le_val_bound [of "take 2 (drop 34 p)"] len by (auto simp: load_u16_def load_bytes_def)
  obtain m where m: "check_packet_magic p STOP_magic = Some m" using check_packet_magic_some [OF len] by blast
  show ?case
  proof (cases "stop_packet p")
    case True
    then have "m = 0" using m by (simp add: stop_packet_def)
    then show ?thesis using True Cons.prems(1) m by (auto simp: loads)
  next
    case False
    then have m0: "m \<noteq> 0" using m by (auto simp: stop_packet_def)
    obtain r p' mg1 xs1 where n: "nf_process g (junk i) mg portid p et (unat pr) si di sp dp (now i) = Some (r, p', mg1)"
      "nat_inv mg1 xs1" "source_only p p'"
      using outbound_total [OF Cons.prems(1,2) _ sp, of p "junk i" et "unat pr" si di dp "now i"] len by auto
    have "38 \<le> length p'" using n(3) len by (simp add: source_only_def)
    then obtain cms1 where c: "count_add p' b cms = Some cms1" using count_add_effect by blast
    obtain out mg2 xs2 cms2 where rec: "process_from g junk now portid b (Suc i) pkts mg1 cms1 =
        Some (if length (takeWhile (\<lambda>p. \<not> stop_packet p) pkts) < length pkts then 1 else 0,
          out @ drop (length (takeWhile (\<lambda>p. \<not> stop_packet p) pkts)) pkts, mg2, cms2)"
      "nat_inv mg2 xs2" "list_all2 source_only (take (length (takeWhile (\<lambda>p. \<not> stop_packet p) pkts)) pkts) out"
      "count_packets out b cms1 = Some cms2"
      using Cons.IH [OF n(2) Cons.prems(2), of "Suc i" cms1] Cons.prems(3) by (auto simp: Let_def)
    show ?thesis unfolding Let_def
      by (rule exI [of _ "p' # out"], rule exI [of _ mg2], rule exI [of _ xs2], rule exI [of _ cms2])
        (use False m m0 n c rec in \<open>simp add: loads\<close>)
  qed
qed

subsection \<open>Properties\<close>

text \<open>C8. A burst received on an internal port is always processed to its end or to the first stop
  packet: the packets before it are translated, in order, each changed in its source address and
  source port only, and counted as translated; the stop packet and what follows are not touched;
  the result tells whether there was one; and the flow table stays well formed.\<close>

theorem nf_process_burst_until_stop:
  assumes "nat_inv mg xs" "portid \<noteq> wan_device (config g)" "\<forall>p \<in> set pkts. 52 \<le> length p"
    and k: "k = length (takeWhile (\<lambda>p. \<not> stop_packet p) pkts)"
  shows "\<exists>out mg' xs' cms'. nf_process_burst g junk now pkts portid b mg cms =
      Some (if k < length pkts then 1 else 0, out @ drop k pkts, mg', cms') \<and>
    nat_inv mg' xs' \<and> list_all2 source_only (take k pkts) out \<and> count_packets out b cms = Some cms'"
  using process_from_effect [OF assms(1-3), of junk now b 0 cms]
  unfolding nf_process_burst_def k Let_def by blast

definition stop_sample :: bytes where
  "stop_sample = [0, 0, 0, 0, 0, 0, 0, 0, 0, 0, 0, 0, 8, 0,
     0x45, 0, 0, 46, 0, 0, 0, 0, 64, 17, 0, 0, 192, 168, 0, 1, 192, 168, 1, 1,
     4, 0xD2, 4, 4, 0, 26, 0, 0, 0, 1, 2, 3, 4, 5, 0x53, 0x54, 0x4F, 0x50, 0, 0]"

lemma stop_sample_stops: "stop_packet stop_sample"
  by (simp add: stop_packet_def check_packet_magic_def load_bytes_def load_be16_def load_u32_def
    arr_get_def STOP_magic_def str_to_u32_def stop_sample_def)

theorem nf_process_burst_until_stop_witness:
  "\<exists>out mg' xs' cms'. nf_process_burst demo_globals (\<lambda>i. demo_junk) (\<lambda>i. 100 + i)
      [replicate 60 0, stop_sample, replicate 60 0] 0 True (demo_manager 2 True) \<lparr>cms_values = \<lambda>r c. 0\<rparr> =
      Some (1, out @ [stop_sample, replicate 60 0], mg', cms') \<and> length out = 1 \<and> nat_inv mg' xs'"
proof -
  have nz: "\<not> stop_packet (replicate 60 0)"
    by (simp add: stop_packet_def check_packet_magic_def load_bytes_def numeral_eq_Suc)
  have "\<forall>p \<in> set [replicate 60 0, stop_sample, replicate 60 0]. 52 \<le> length p"
    by (simp add: stop_sample_def)
  from nf_process_burst_until_stop [OF demo_two(1) _ this refl,
    where portid = 0 and g = demo_globals and junk = "\<lambda>i. demo_junk" and now = "\<lambda>i. 100 + i" and b = True and cms = "\<lparr>cms_values = \<lambda>r c. 0\<rparr>"]
  show ?thesis
    by (force simp: nz stop_sample_stops demo_globals dest: list_all2_lengthD)
qed

text \<open>The verdict of \<open>nf_process\<close> is ignored: a packet of a new flow that a full table is configured to
  drop stays in the burst, unchanged, is counted, and the burst is reported as ordinary, so that
  the polling loop transmits it.\<close>

theorem nf_process_burst_ignores_drop:
  assumes "nat_inv mg xs" "portid \<noteq> wan_device (config g)" "drop_when_full g"
    and "length xs = max_flows (fstate mg)" "52 \<le> length p" "\<not> stop_packet p"
    and "load_u16 p 34 = Some ps" "\<forall>i \<in> fst ` set xs. slot_port mg i \<noteq> ps"
  shows "\<exists>cms'. nf_process_burst g junk now [p] portid b mg cms = Some (0, [p], mg, cms') \<and>
    count_add p b cms = Some cms'"
proof -
  have len: "52 \<le> length p" by (rule assms(5))
  obtain et pr si di dp where loads: "load_be16 p 12 = Some et" "arr_get p 23 = Some pr" "load_u32 p 26 = Some si"
    "load_u32 p 30 = Some di" "load_u16 p 36 = Some dp"
    using len by (simp add: load_be16_def load_u32_def load_u16_def load_bytes_def arr_get_some)
  have ps: "ps < 65536"
    using assms(7) le_val_bound [of "take 2 (drop 34 p)"] len by (auto simp: load_u16_def load_bytes_def)
  obtain m where m: "check_packet_magic p STOP_magic = Some m" "m \<noteq> 0"
    using check_packet_magic_some [OF len, of STOP_magic] assms(6) by (auto simp: stop_packet_def)
  have "nf_process g (junk 0) mg portid p et (unat pr) si di ps dp (now 0) = Some (EXPLICIT_DROP, p, mg)"
    by (rule outbound_full(1) [OF assms(1,2) ps assms(8,4,3)])
  moreover obtain cms' where "count_add p b cms = Some cms'" using count_add_effect [of p b cms] len by auto
  ultimately show ?thesis using m assms(7) by (simp add: nf_process_burst_def loads)
qed

theorem nf_process_burst_ignores_drop_witness:
  "\<exists>mg i cms'. nat_inv mg [(i, 100)] \<and> max_flows (fstate mg) = 1 \<and>
    nf_process_burst demo_globals (\<lambda>i. demo_junk) (\<lambda>i. 110) [replicate 60 0] 0 True mg \<lparr>cms_values = \<lambda>r c. 0\<rparr> =
      Some (0, [replicate 60 0], mg, cms')"
proof -
  obtain i out mg1 where o: "nf_process demo_globals demo_junk (demo_manager 1 True) 0 (replicate 60 0) 0x0800 17 3232235777 134744072 4000 53 100 =
      Some (2, out, mg1)" "nat_inv mg1 [(i, 100)]"
    "flow_at mg1 i = Some (take 15 (flow_id 4000 53 3232235777 134744072 0 17 (j_pad demo_junk)))"
    "max_flows (fstate mg1) = 1"
    using outbound_new [OF demo_one(1), of 0 demo_globals "replicate 60 0" 4000 True demo_junk "0x0800" 17 3232235777 134744072 53 100]
    by (auto simp: demo_globals demo_one)
  have "slot_port mg1 i = 4000"
    using slot_port_flow_at [OF o(3)] by (simp add: flow_key_def flow_id_fields le_val_le_bytes)
  moreover have "\<not> stop_packet (replicate 60 0)"
    by (simp add: stop_packet_def check_packet_magic_def load_bytes_def numeral_eq_Suc)
  moreover have "load_u16 (replicate 60 0) 34 = Some 0"
    by (simp add: load_u16_def load_bytes_def numeral_eq_Suc)
  ultimately show ?thesis
    using nf_process_burst_ignores_drop [OF o(2), where portid = 0 and g = demo_globals and p = "replicate 60 0"
      and ps = 0 and junk = "\<lambda>i. demo_junk" and now = "\<lambda>i. 110" and b = True and cms = "\<lparr>cms_values = \<lambda>r c. 0\<rparr>"] o(2,4)
    by (auto simp: demo_globals)
qed

end
