(* ===== verification/Acl_Prepare.thy ===== *)
theory Acl_Prepare
  imports Vector "HOL-Library.Multiset"
begin

section \<open>Sorting a burst for the access control lists: main.c\<close>

text \<open>
  \<open>prepare_acl_parameter\<close> sorts the packets of a burst into the IPv4 and the IPv6 part of an ACL
  search and frees the others. A packet buffer is a record with the bytes of its data area; the
  pointers of a burst are the indices of a list. The classification itself is DPDK's.
\<close>

subsection \<open>Preparing the ACL search\<close>

definition MAX_PKT_BURST :: nat where [simp]: "MAX_PKT_BURST = 32"

record mbuf =
  mdata :: bytes
  pkt_len :: nat
  packet_type :: nat

record acl_search =
  data_ipv4 :: "(nat \<times> int) list"
  m_ipv4 :: "nat list"
  num_ipv4 :: nat
  data_ipv6 :: "(nat \<times> int) list"
  m_ipv6 :: "nat list"
  num_ipv6 :: nat

text \<open>The IPv4 header is at offset \<open>p\<close> of the buffer.\<close>

definition is_valid_ipv4_pkt :: "bytes \<Rightarrow> int \<Rightarrow> nat \<Rightarrow> int option" where
  "is_valid_ipv4_pkt d p link_len =
     (if link_len < 20 then Some (- 1)
      else do {
        version_ihl \<leftarrow> arr_get d p;
        if drop_bit 4 version_ihl \<noteq> 4 then Some (- 3)
        else if version_ihl AND 0xF < 5 then Some (- 4)
        else do {
          total_length \<leftarrow> load_be16 d (p + 2);
          if total_length < 20 then Some (- 5) else Some 0
        }
      })"

text \<open>The macros \<^verbatim>\<open>RTE_ETH_IS_IPV4_HDR\<close> and \<^verbatim>\<open>RTE_ETH_IS_IPV6_HDR\<close> of DPDK are the arguments \<open>is4\<close>
  and \<open>is6\<close>. The state is the burst, the search and the list of the freed packets.\<close>

definition prepare_one_packet ::
  "(nat \<Rightarrow> bool) \<Rightarrow> (nat \<Rightarrow> bool) \<Rightarrow> mbuf list \<Rightarrow> acl_search \<Rightarrow> nat list \<Rightarrow> nat
    \<Rightarrow> (mbuf list \<times> acl_search \<times> nat list) option"
  where
  "prepare_one_packet is4 is6 pkts acl freed index = do {
     pkt \<leftarrow> arr_get pkts (int index);
     if is4 (packet_type pkt) \<or> packet_type pkt = 0 then do {
       valid \<leftarrow> is_valid_ipv4_pkt (mdata pkt) 14 (pkt_len pkt);
       if 0 \<le> valid then do {
         ttl \<leftarrow> arr_get (mdata pkt) 22;
         d \<leftarrow> arr_set (mdata pkt) 22 (ttl - 1);
         cksum \<leftarrow> load_u16 d 24;
         d \<leftarrow> store_bytes d 24 (le_bytes 2 (cksum + 1));
         data4 \<leftarrow> arr_set (data_ipv4 acl) (int (num_ipv4 acl)) (index, 23);
         m4 \<leftarrow> arr_set (m_ipv4 acl) (int (num_ipv4 acl)) index;
         Some (pkts[index := pkt\<lparr>mdata := d\<rparr>],
           acl\<lparr>data_ipv4 := data4, m_ipv4 := m4, num_ipv4 := num_ipv4 acl + 1\<rparr>, freed)
       }
       else Some (pkts, acl, freed @ [index])
     }
     else if is6 (packet_type pkt) then do {
       data6 \<leftarrow> arr_set (data_ipv6 acl) (int (num_ipv6 acl)) (index, 20);
       m6 \<leftarrow> arr_set (m_ipv6 acl) (int (num_ipv6 acl)) index;
       Some (pkts, acl\<lparr>data_ipv6 := data6, m_ipv6 := m6, num_ipv6 := num_ipv6 acl + 1\<rparr>, freed)
     }
     else Some (pkts, acl, freed @ [index])
   }"

function prepare_from ::
  "(nat \<Rightarrow> bool) \<Rightarrow> (nat \<Rightarrow> bool) \<Rightarrow> nat \<Rightarrow> mbuf list \<Rightarrow> acl_search \<Rightarrow> nat list \<Rightarrow> nat
    \<Rightarrow> (mbuf list \<times> acl_search \<times> nat list) option"
  where
  "prepare_from is4 is6 nb_rx pkts acl freed i =
    (if i < nb_rx then do {
       (pkts, acl, freed) \<leftarrow> prepare_one_packet is4 is6 pkts acl freed i;
       prepare_from is4 is6 nb_rx pkts acl freed (Suc i)
     } else Some (pkts, acl, freed))"
  by pat_completeness auto
termination
  by (relation "measure (\<lambda>(a, b, nb_rx, pkts, acl, freed, i). nb_rx - i)") auto

declare prepare_from.simps [simp del]

text \<open>The two loops of the code differ in the prefetch only.\<close>

definition prepare_acl_parameter ::
  "(nat \<Rightarrow> bool) \<Rightarrow> (nat \<Rightarrow> bool) \<Rightarrow> mbuf list \<Rightarrow> acl_search \<Rightarrow> nat \<Rightarrow> (mbuf list \<times> acl_search \<times> nat list) option"
  where
  "prepare_acl_parameter is4 is6 pkts acl nb_rx =
     prepare_from is4 is6 nb_rx pkts (acl\<lparr>num_ipv4 := 0, num_ipv6 := 0\<rparr>) [] 0"

subsection \<open>Sorting a burst\<close>

definition ipv4_kept :: "(nat \<Rightarrow> bool) \<Rightarrow> mbuf \<Rightarrow> bool" where
  "ipv4_kept is4 m \<longleftrightarrow> (is4 (packet_type m) \<or> packet_type m = 0) \<and>
     (\<exists>v \<ge> 0. is_valid_ipv4_pkt (mdata m) 14 (pkt_len m) = Some v)"

definition ipv6_kept :: "(nat \<Rightarrow> bool) \<Rightarrow> (nat \<Rightarrow> bool) \<Rightarrow> mbuf \<Rightarrow> bool" where
  "ipv6_kept is4 is6 m \<longleftrightarrow> \<not> (is4 (packet_type m) \<or> packet_type m = 0) \<and> is6 (packet_type m)"

text \<open>The ones' complement sum of the ten words of an IPv4 header, which is 0 for an intact header.\<close>

definition header_sum :: "bytes \<Rightarrow> nat" where
  "header_sum d = (\<Sum>i<10. le_val (take 2 (drop (14 + 2 * i) d))) mod 65535"

text \<open>What is done to a packet that goes on as IPv4.\<close>

definition ttl_step :: "bytes \<Rightarrow> bytes" where
  "ttl_step d = take 22 d @ [d ! 22 - 1, d ! 23] @
     le_bytes 2 (le_val (take 2 (drop 24 d)) + 1) @ drop 26 d"

lemma ttl_stores:
  assumes "34 \<le> length d"
  shows "\<exists>c d'. arr_set d 22 (d ! 22 - 1) = Some d' \<and> load_u16 d' 24 = Some c \<and>
    store_bytes d' 24 (le_bytes 2 (c + 1)) = Some (ttl_step d)"
proof -
  have "d[22 := d ! 22 - 1] = take 22 d @ (d ! 22 - 1) # drop 23 d"
    using assms by (simp add: upd_conv_take_nth_drop)
  moreover have "drop 23 d = d ! 23 # drop 24 d" using assms by (simp add: Cons_nth_drop_Suc numeral_eq_Suc)
  ultimately have e: "d[22 := d ! 22 - 1] = take 22 d @ [d ! 22 - 1, d ! 23] @ drop 24 d" by simp
  have "drop 24 (d[22 := d ! 22 - 1]) = drop 24 d" "drop 26 (d[22 := d ! 22 - 1]) = drop 26 d"
    "take 24 (d[22 := d ! 22 - 1]) = take 22 d @ [d ! 22 - 1, d ! 23]"
    using assms by (simp_all add: e)
  then show ?thesis
    using assms by (simp add: arr_set_def load_u16_def load_bytes_def store_bytes_def ttl_step_def)
qed

lemma valid_some: "34 \<le> length d \<Longrightarrow> \<exists>v. is_valid_ipv4_pkt d 14 l = Some v"
  by (simp add: is_valid_ipv4_pkt_def load_be16_def load_bytes_def arr_get_some)

definition sorted_burst :: "(nat \<Rightarrow> bool) \<Rightarrow> (nat \<Rightarrow> bool) \<Rightarrow> mbuf list \<Rightarrow> nat \<Rightarrow> mbuf list \<Rightarrow> acl_search \<Rightarrow> nat list \<Rightarrow> bool"
  where
  "sorted_burst is4 is6 pkts i pkts' acl freed \<longleftrightarrow>
     pkts' = map (\<lambda>m. if ipv4_kept is4 m then m\<lparr>mdata := ttl_step (mdata m)\<rparr> else m) (take i pkts) @ drop i pkts \<and>
     num_ipv4 acl \<le> i \<and> take (num_ipv4 acl) (m_ipv4 acl) = filter (\<lambda>j. ipv4_kept is4 (pkts ! j)) [0..<i] \<and>
     take (num_ipv4 acl) (data_ipv4 acl) = map (\<lambda>j. (j, 23)) (filter (\<lambda>j. ipv4_kept is4 (pkts ! j)) [0..<i]) \<and>
     num_ipv6 acl \<le> i \<and> take (num_ipv6 acl) (m_ipv6 acl) = filter (\<lambda>j. ipv6_kept is4 is6 (pkts ! j)) [0..<i] \<and>
     take (num_ipv6 acl) (data_ipv6 acl) = map (\<lambda>j. (j, 20)) (filter (\<lambda>j. ipv6_kept is4 is6 (pkts ! j)) [0..<i]) \<and>
     freed = filter (\<lambda>j. \<not> ipv4_kept is4 (pkts ! j) \<and> \<not> ipv6_kept is4 is6 (pkts ! j)) [0..<i] \<and>
     length (m_ipv4 acl) = MAX_PKT_BURST \<and> length (data_ipv4 acl) = MAX_PKT_BURST \<and>
     length (m_ipv6 acl) = MAX_PKT_BURST \<and> length (data_ipv6 acl) = MAX_PKT_BURST"

lemma take_update_same: "n < length xs \<Longrightarrow> take (Suc n) (xs[n := x]) = take n xs @ [x]"
  by (simp add: take_Suc_conv_app_nth)

lemma prepare_one_step:
  assumes s: "sorted_burst is4 is6 pkts i pkts' acl freed"
    and i: "i < length pkts" "i < MAX_PKT_BURST" and len: "34 \<le> length (mdata (pkts ! i))"
  shows "\<exists>pkts2 acl2 freed2. prepare_one_packet is4 is6 pkts' acl freed i = Some (pkts2, acl2, freed2) \<and>
    sorted_burst is4 is6 pkts (Suc i) pkts2 acl2 freed2"
proof -
  let ?f = "\<lambda>m. if ipv4_kept is4 m then m\<lparr>mdata := ttl_step (mdata m)\<rparr> else m"
  have p': "pkts' = map ?f (take i pkts) @ drop i pkts" using s by (simp add: sorted_burst_def)
  have get: "arr_get pkts' (int i) = Some (pkts ! i)" using i by (simp add: p' arr_get_def nth_append)
  have dr: "drop i pkts = pkts ! i # drop (Suc i) pkts" using i by (simp add: Cons_nth_drop_Suc)
  have tk: "take (Suc i) pkts = take i pkts @ [pkts ! i]" using i by (simp add: take_Suc_conv_app_nth)
  have upd: "(map ?f (take i pkts) @ drop i pkts)[i := x] = map ?f (take i pkts) @ x # drop (Suc i) pkts" for x
    using i by (simp add: dr list_update_append)
  obtain v where v: "is_valid_ipv4_pkt (mdata (pkts ! i)) 14 (pkt_len (pkts ! i)) = Some v"
    using valid_some [OF len] by blast
  have n: "num_ipv4 acl < 32" "num_ipv6 acl < 32" using s i by (auto simp: sorted_burst_def)
  consider (v4) "is4 (packet_type (pkts ! i)) \<or> packet_type (pkts ! i) = 0" "0 \<le> v"
    | (bad) "is4 (packet_type (pkts ! i)) \<or> packet_type (pkts ! i) = 0" "\<not> 0 \<le> v"
    | (v6) "\<not> (is4 (packet_type (pkts ! i)) \<or> packet_type (pkts ! i) = 0)" "is6 (packet_type (pkts ! i))"
    | (other) "\<not> (is4 (packet_type (pkts ! i)) \<or> packet_type (pkts ! i) = 0)" "\<not> is6 (packet_type (pkts ! i))"
    by argo
  then show ?thesis
  proof cases
    case v4
    then have k: "ipv4_kept is4 (pkts ! i)" "\<not> ipv6_kept is4 is6 (pkts ! i)"
      using v by (auto simp: ipv4_kept_def ipv6_kept_def)
    obtain c d' where d': "arr_set (mdata (pkts ! i)) 22 (mdata (pkts ! i) ! 22 - 1) = Some d'"
      "load_u16 d' 24 = Some c" "store_bytes d' 24 (le_bytes 2 (c + 1)) = Some (ttl_step (mdata (pkts ! i)))"
      using ttl_stores [OF len] by blast
    have "arr_get (mdata (pkts ! i)) 22 = Some (mdata (pkts ! i) ! 22)" using len by (simp add: arr_get_some)
    then show ?thesis
      using s v4 v get d' n k
      by (simp add: prepare_one_packet_def sorted_burst_def arr_set_def upd tk take_update_same)
  next
    case bad
    then have k: "\<not> ipv4_kept is4 (pkts ! i)" "\<not> ipv6_kept is4 is6 (pkts ! i)"
      using v by (auto simp: ipv4_kept_def ipv6_kept_def)
    show ?thesis
      using s bad v get k
      by (simp add: prepare_one_packet_def sorted_burst_def tk) (simp add: dr)
  next
    case v6
    then have k: "\<not> ipv4_kept is4 (pkts ! i)" "ipv6_kept is4 is6 (pkts ! i)"
      by (auto simp: ipv4_kept_def ipv6_kept_def)
    show ?thesis
      using s v6 get n k
      by (simp add: prepare_one_packet_def sorted_burst_def arr_set_def tk take_update_same) (simp add: dr)
  next
    case other
    then have k: "\<not> ipv4_kept is4 (pkts ! i)" "\<not> ipv6_kept is4 is6 (pkts ! i)"
      by (auto simp: ipv4_kept_def ipv6_kept_def)
    show ?thesis
      using s other get k
      by (simp add: prepare_one_packet_def sorted_burst_def tk) (simp add: dr)
  qed
qed

lemma prepare_from_sorts:
  assumes "sorted_burst is4 is6 pkts i pkts' acl freed" "i \<le> length pkts" "length pkts \<le> MAX_PKT_BURST"
    "\<forall>m \<in> set pkts. 34 \<le> length (mdata m)"
  shows "\<exists>pkts2 acl2 freed2. prepare_from is4 is6 (length pkts) pkts' acl freed i = Some (pkts2, acl2, freed2) \<and>
    sorted_burst is4 is6 pkts (length pkts) pkts2 acl2 freed2"
  using assms(1,2)
proof (induction "length pkts - i" arbitrary: i pkts' acl freed)
  case 0
  then show ?case by (subst prepare_from.simps) auto
next
  case (Suc n)
  then have i: "i < length pkts" by simp
  then obtain p1 a1 f1 where 1: "prepare_one_packet is4 is6 pkts' acl freed i = Some (p1, a1, f1)"
    "sorted_burst is4 is6 pkts (Suc i) p1 a1 f1"
    using prepare_one_step [OF Suc.prems(1) i] assms(3,4) by auto
  have "n = length pkts - Suc i" "Suc i \<le> length pkts" using Suc.hyps(2) i by simp_all
  from Suc.hyps(1) [OF this(1) 1(2) this(2)] show ?case
    using 1(1) i by (subst prepare_from.simps) simp
qed

lemma prepare_sorted:
  assumes "length pkts \<le> MAX_PKT_BURST" "\<forall>m \<in> set pkts. 34 \<le> length (mdata m)"
    "length (m_ipv4 acl) = MAX_PKT_BURST" "length (data_ipv4 acl) = MAX_PKT_BURST"
    "length (m_ipv6 acl) = MAX_PKT_BURST" "length (data_ipv6 acl) = MAX_PKT_BURST"
  shows "\<exists>pkts' acl' freed. prepare_acl_parameter is4 is6 pkts acl (length pkts) = Some (pkts', acl', freed) \<and>
    sorted_burst is4 is6 pkts (length pkts) pkts' acl' freed"
proof -
  have "sorted_burst is4 is6 pkts 0 pkts (acl\<lparr>num_ipv4 := 0, num_ipv6 := 0\<rparr>) []"
    using assms by (simp add: sorted_burst_def)
  from prepare_from_sorts [OF this _ assms(1,2)] show ?thesis
    by (simp add: prepare_acl_parameter_def)
qed

lemma header_sum_step:
  assumes len: "34 \<le> length d" and ttl: "d ! 22 \<noteq> 0" and ck: "le_val (take 2 (drop 24 d)) \<noteq> 65535"
  shows "header_sum (ttl_step d) = header_sum d"
proof -
  let ?w = "\<lambda>d i. le_val (take 2 (drop (14 + 2 * i) d))"
  have split: "(\<Sum>i<10. f i) = (\<Sum>i<4. f i) + (f 4 + f 5) + (\<Sum>i<4. f (i + 6))" for f :: "nat \<Rightarrow> nat"
    by (simp add: eval_nat_numeral)
  have pre: "take 22 (ttl_step d) = take 22 d" using len by (simp add: ttl_step_def)
  have post: "drop 26 (ttl_step d) = drop 26 d" using len by (simp add: ttl_step_def)
  have lo: "?w (ttl_step d) i = ?w d i" if "i < 4" for i
  proof -
    have "take 2 (drop (14 + 2 * i) x) = take 2 (drop (14 + 2 * i) (take 22 x))" for x :: bytes
      using that by (simp add: drop_take min_def)
    then show ?thesis using pre by metis
  qed
  have hi: "?w (ttl_step d) (i + 6) = ?w d (i + 6)" for i
  proof -
    have "drop (14 + 2 * (i + 6)) x = drop (2 * i) (drop 26 x)" for x :: bytes by (simp add: add.commute)
    then show ?thesis by (simp only: post)
  qed
  have "unat (d ! 22 - 1) + 1 = unat (d ! 22)"
    using ttl by (simp add: unat_minus_one unat_gt_0)
  moreover have "take 2 (drop 22 d) = [d ! 22, d ! 23]"
    using len by (simp add: take_Suc_conv_app_nth numeral_2_eq_2)
  moreover have "take 2 (drop 22 (ttl_step d)) = [d ! 22 - 1, d ! 23]"
    using len by (simp add: ttl_step_def)
  moreover have "take 2 (drop 24 (ttl_step d)) = le_bytes 2 (le_val (take 2 (drop 24 d)) + 1)"
    using len by (simp add: ttl_step_def)
  moreover have "le_val (take 2 (drop 24 d)) + 1 < 65536"
    using ck le_val_bound [of "take 2 (drop 24 d)"] len by simp
  ultimately have "?w (ttl_step d) 4 + ?w (ttl_step d) 5 = ?w d 4 + ?w d 5"
    by (simp add: le_val_le_bytes)
  then show ?thesis unfolding header_sum_def split using lo hi by simp
qed

subsection \<open>Properties\<close>

text \<open>\<open>prepare_acl_parameter\<close> sorts every burst that fits its arrays, without an access outside them:
  the IPv4 part, the IPv6 part and the freed packets are the packets of the three kinds in the
  order of the burst, so together they are the burst, each packet once.\<close>

theorem prepare_acl_sorts_burst:
  assumes "length pkts \<le> MAX_PKT_BURST" "\<forall>m \<in> set pkts. 34 \<le> length (mdata m)"
    "length (m_ipv4 acl) = MAX_PKT_BURST" "length (data_ipv4 acl) = MAX_PKT_BURST"
    "length (m_ipv6 acl) = MAX_PKT_BURST" "length (data_ipv6 acl) = MAX_PKT_BURST"
  shows "\<exists>pkts' acl' freed. prepare_acl_parameter is4 is6 pkts acl (length pkts) = Some (pkts', acl', freed) \<and>
    take (num_ipv4 acl') (m_ipv4 acl') = filter (\<lambda>j. ipv4_kept is4 (pkts ! j)) [0..<length pkts] \<and>
    take (num_ipv6 acl') (m_ipv6 acl') = filter (\<lambda>j. ipv6_kept is4 is6 (pkts ! j)) [0..<length pkts] \<and>
    freed = filter (\<lambda>j. \<not> ipv4_kept is4 (pkts ! j) \<and> \<not> ipv6_kept is4 is6 (pkts ! j)) [0..<length pkts] \<and>
    mset (take (num_ipv4 acl') (m_ipv4 acl')) + mset (take (num_ipv6 acl') (m_ipv6 acl')) + mset freed =
      mset [0..<length pkts]"
proof -
  have part: "mset (filter P xs) + mset (filter Q xs) + mset (filter (\<lambda>x. \<not> P x \<and> \<not> Q x) xs) = mset xs"
    if "\<And>x. P x \<Longrightarrow> \<not> Q x" for P Q :: "nat \<Rightarrow> bool" and xs
    using that by (induction xs) auto
  have "ipv4_kept is4 (pkts ! j) \<Longrightarrow> \<not> ipv6_kept is4 is6 (pkts ! j)" for j
    by (auto simp: ipv4_kept_def ipv6_kept_def)
  then show ?thesis
    using prepare_sorted [OF assms, of is4 is6]
      part [of "\<lambda>j. ipv4_kept is4 (pkts ! j)" "\<lambda>j. ipv6_kept is4 is6 (pkts ! j)" "[0..<length pkts]"]
    by (auto simp: sorted_burst_def)
qed

text \<open>What happens to the packets: those kept as IPv4 have their TTL lowered by one and nothing is
  changed in the others. The incremental checksum update is right unless the checksum field was
  \<open>0xFFFF\<close>: the ones' complement sum of the header is unchanged, provided the TTL was not 0. A packet
  whose TTL is 0 is not discarded but goes on with TTL 255.\<close>

theorem prepare_acl_rewrites_headers:
  assumes "length pkts \<le> MAX_PKT_BURST" "\<forall>m \<in> set pkts. 34 \<le> length (mdata m)"
    "length (m_ipv4 acl) = MAX_PKT_BURST" "length (data_ipv4 acl) = MAX_PKT_BURST"
    "length (m_ipv6 acl) = MAX_PKT_BURST" "length (data_ipv6 acl) = MAX_PKT_BURST"
  shows "\<exists>pkts' acl' freed. prepare_acl_parameter is4 is6 pkts acl (length pkts) = Some (pkts', acl', freed) \<and>
    length pkts' = length pkts \<and>
    (\<forall>j < length pkts.
      if ipv4_kept is4 (pkts ! j)
      then mdata (pkts' ! j) ! 22 = mdata (pkts ! j) ! 22 - 1 \<and>
        (mdata (pkts ! j) ! 22 = 0 \<longrightarrow> mdata (pkts' ! j) ! 22 = 255) \<and>
        (mdata (pkts ! j) ! 22 \<noteq> 0 \<and> load_u16 (mdata (pkts ! j)) 24 \<noteq> Some 65535 \<longrightarrow>
          header_sum (mdata (pkts' ! j)) = header_sum (mdata (pkts ! j)))
      else pkts' ! j = pkts ! j)"
proof -
  obtain pkts' acl' freed where p: "prepare_acl_parameter is4 is6 pkts acl (length pkts) = Some (pkts', acl', freed)"
    "pkts' = map (\<lambda>m. if ipv4_kept is4 m then m\<lparr>mdata := ttl_step (mdata m)\<rparr> else m) pkts"
    using prepare_sorted [OF assms, of is4 is6] by (auto simp: sorted_burst_def)
  have "ttl_step d ! 22 = d ! 22 - 1" if "34 \<le> length d" for d
    using that by (simp add: ttl_step_def nth_append)
  moreover have "header_sum (ttl_step d) = header_sum d"
    if "34 \<le> length d" "d ! 22 \<noteq> 0" "load_u16 d 24 \<noteq> Some 65535" for d
    using that by (intro header_sum_step) (auto simp: load_u16_def load_bytes_def)
  ultimately show ?thesis using p assms(2) by auto
qed

subsection \<open>Witnesses\<close>

definition ipv4_sample :: bytes where
  "ipv4_sample = [0, 0, 0, 0, 0, 0, 0, 0, 0, 0, 0, 0, 8, 0,
     0x45, 0, 0, 28, 0, 0, 0, 0, 64, 17, 0, 0, 10, 0, 0, 1, 10, 0, 0, 2,
     0, 5, 0, 6, 0, 8, 0, 0]"

definition sample_burst :: "mbuf list" where
  "sample_burst = [\<lparr>mdata = ipv4_sample, pkt_len = 60, packet_type = 16\<rparr>,
     \<lparr>mdata = replicate 42 0, pkt_len = 60, packet_type = 1\<rparr>]"

definition empty_search :: acl_search where
  "empty_search = \<lparr>data_ipv4 = replicate 32 (0, 0), m_ipv4 = replicate 32 0, num_ipv4 = 0,
     data_ipv6 = replicate 32 (0, 0), m_ipv6 = replicate 32 0, num_ipv6 = 0\<rparr>"

lemma sample_valid: "is_valid_ipv4_pkt ipv4_sample 14 60 = Some 0"
  by (simp add: is_valid_ipv4_pkt_def ipv4_sample_def arr_get_def load_be16_def load_bytes_def drop_bit_eq_div)

lemma sample_kept:
  "ipv4_kept (\<lambda>t. t = 16) (sample_burst ! 0)" "\<not> ipv4_kept (\<lambda>t. t = 16) (sample_burst ! 1)"
  "\<not> ipv6_kept (\<lambda>t. t = 16) (\<lambda>t. t = 64) (sample_burst ! 0)" "\<not> ipv6_kept (\<lambda>t. t = 16) (\<lambda>t. t = 64) (sample_burst ! 1)"
  using sample_valid by (auto simp: ipv4_kept_def ipv6_kept_def sample_burst_def)

lemma sample_fits:
  "length sample_burst \<le> MAX_PKT_BURST" "\<forall>m \<in> set sample_burst. 34 \<le> length (mdata m)"
  "length (m_ipv4 empty_search) = MAX_PKT_BURST" "length (data_ipv4 empty_search) = MAX_PKT_BURST"
  "length (m_ipv6 empty_search) = MAX_PKT_BURST" "length (data_ipv6 empty_search) = MAX_PKT_BURST"
  "length sample_burst = 2"
  by (simp_all add: sample_burst_def empty_search_def ipv4_sample_def)

theorem prepare_acl_sorts_burst_witness:
  "\<exists>pkts' acl'. prepare_acl_parameter (\<lambda>t. t = 16) (\<lambda>t. t = 64) sample_burst empty_search 2 =
     Some (pkts', acl', [1]) \<and> take (num_ipv4 acl') (m_ipv4 acl') = [0]"
proof -
  have "[0..<2] = [0, 1 :: nat]" by (simp add: upt_rec)
  then show ?thesis
    using prepare_acl_sorts_burst [OF sample_fits(1-6), of "\<lambda>t. t = 16" "\<lambda>t. t = 64"] sample_kept
    by (auto simp: sample_fits(7))
qed

theorem prepare_acl_rewrites_headers_witness:
  "\<exists>pkts' acl' freed. prepare_acl_parameter (\<lambda>t. t = 16) (\<lambda>t. t = 64) sample_burst empty_search 2 =
     Some (pkts', acl', freed) \<and> mdata (pkts' ! 0) ! 22 = 63 \<and>
     header_sum (mdata (pkts' ! 0)) = header_sum ipv4_sample \<and> pkts' ! 1 = sample_burst ! 1"
proof -
  have d: "mdata (sample_burst ! 0) = ipv4_sample" by (simp add: sample_burst_def)
  have t: "ipv4_sample ! 22 = 64" "load_u16 ipv4_sample 24 = Some 0"
    by (simp_all add: ipv4_sample_def load_u16_def load_bytes_def)
  obtain pkts' acl' freed where p: "prepare_acl_parameter (\<lambda>t. t = 16) (\<lambda>t. t = 64) sample_burst empty_search 2 =
     Some (pkts', acl', freed)"
    "\<forall>j < 2. if ipv4_kept (\<lambda>t. t = 16) (sample_burst ! j)
      then mdata (pkts' ! j) ! 22 = mdata (sample_burst ! j) ! 22 - 1 \<and>
        (mdata (sample_burst ! j) ! 22 = 0 \<longrightarrow> mdata (pkts' ! j) ! 22 = 255) \<and>
        (mdata (sample_burst ! j) ! 22 \<noteq> 0 \<and> load_u16 (mdata (sample_burst ! j)) 24 \<noteq> Some 65535 \<longrightarrow>
          header_sum (mdata (pkts' ! j)) = header_sum (mdata (sample_burst ! j)))
      else pkts' ! j = sample_burst ! j"
    using prepare_acl_rewrites_headers [OF sample_fits(1-6), of "\<lambda>t. t = 16" "\<lambda>t. t = 64"]
    unfolding sample_fits(7) by blast
  show ?thesis using p(1) spec [OF p(2), of 0] spec [OF p(2), of 1] sample_kept t by (auto simp: d)
qed

end
