(* ===== verification/Stop_Packet.thy ===== *)
theory Stop_Packet
  imports Packets Acl_Prepare
begin

section \<open>Packets that the program makes\<close>

text \<open>
  \<open>create_udp_packet\<close> and \<open>create_latency_packet\<close>, the same in \<^verbatim>\<open>nf-chain/src/main.c\<close> and
  \<^verbatim>\<open>mica/main.c\<close>. \<open>alloc\<close> tells whether \<open>rte_pktmbuf_alloc\<close> gave a buffer, \<open>area\<close> what \<open>rte_pktmbuf_append\<close> returned, the contents of
  the new data area; \<open>rte_ipv4_cksum\<close> maps the bytes of a header to the value to be stored. \<open>Some None\<close> is
  the result \<open>NULL\<close>, \<open>None\<close> a store outside the packet.
\<close>

subsection \<open>The code\<close>

definition PKT_SIZE :: nat where [simp]: "PKT_SIZE = 64"

text \<open>A value in network order.\<close>

definition be_bytes :: "nat \<Rightarrow> nat \<Rightarrow> bytes" where
  "be_bytes k v = rev (le_bytes k v)"

function dummy_payload :: "nat \<Rightarrow> bytes \<Rightarrow> bytes option" where
  "dummy_payload i d =
     (if i < PKT_SIZE - 14 - 20 - 8
      then Option.bind (store_bytes d (42 + int i) [word_of_nat i]) (dummy_payload (Suc i))
      else Some d)"
  by pat_completeness auto
termination
  by (relation "measure (\<lambda>(i, d). PKT_SIZE - i)") auto

declare dummy_payload.simps [simp del]

text \<open>The three headers. The checksum is stored as 0 before it is computed.\<close>

definition ether_header :: "bytes \<Rightarrow> bytes \<Rightarrow> bytes \<Rightarrow> bytes option" where
  "ether_header src_mac dst_mac d = do {
     d \<leftarrow> store_bytes d 0 dst_mac;
     d \<leftarrow> store_bytes d 6 src_mac;
     store_bytes d 12 (be_bytes 2 0x0800)
   }"

definition ipv4_header :: "(bytes \<Rightarrow> nat) \<Rightarrow> nat \<Rightarrow> nat \<Rightarrow> bytes \<Rightarrow> bytes option" where
  "ipv4_header rte_ipv4_cksum sip dip d = do {
     d \<leftarrow> store_bytes d 14 [push_bit 4 4 OR word_of_nat (20 div 4)];
     d \<leftarrow> store_bytes d 15 [0];
     d \<leftarrow> store_bytes d 16 (be_bytes 2 (PKT_SIZE - 14));
     d \<leftarrow> store_bytes d 18 (be_bytes 2 0);
     d \<leftarrow> store_bytes d 20 (le_bytes 2 0);
     d \<leftarrow> store_bytes d 22 [64];
     d \<leftarrow> store_bytes d 23 [17];
     d \<leftarrow> store_bytes d 26 (le_bytes 4 sip);
     d \<leftarrow> store_bytes d 30 (le_bytes 4 dip);
     d \<leftarrow> store_bytes d 24 (le_bytes 2 0);
     header \<leftarrow> load_bytes d 14 20;
     store_bytes d 24 (le_bytes 2 (rte_ipv4_cksum header))
   }"

definition udp_header :: "nat \<Rightarrow> nat \<Rightarrow> bytes \<Rightarrow> bytes option" where
  "udp_header sport dport d = do {
     d \<leftarrow> store_bytes d 34 (be_bytes 2 sport);
     d \<leftarrow> store_bytes d 36 (be_bytes 2 dport);
     d \<leftarrow> store_bytes d 38 (be_bytes 2 (PKT_SIZE - 14 - 20));
     store_bytes d 40 (le_bytes 2 0)
   }"

definition create_udp_packet ::
  "bool \<Rightarrow> bytes option \<Rightarrow> (bytes \<Rightarrow> nat) \<Rightarrow> bytes \<Rightarrow> bytes \<Rightarrow> nat \<Rightarrow> nat \<Rightarrow> nat \<Rightarrow> nat \<Rightarrow> nat \<Rightarrow> bytes option option" where
  "create_udp_packet alloc area rte_ipv4_cksum src_mac dst_mac sip dip sport dport magic_value =
     (if \<not> alloc then Some None
      else case area of
        None \<Rightarrow> Some None
      | Some d \<Rightarrow> do {
          d \<leftarrow> ether_header src_mac dst_mac d;
          d \<leftarrow> ipv4_header rte_ipv4_cksum sip dip d;
          d \<leftarrow> udp_header sport dport d;
          d \<leftarrow> dummy_payload 0 d;
          let offset = (14 + 20 + 8 + 8) div 8 * 8;
          d \<leftarrow> store_bytes d offset (le_bytes 4 magic_value);
          Some (Some d)
        })"

text \<open>The number in network order whose bytes in memory are those of the address.\<close>

definition inet_addr :: "bytes \<Rightarrow> nat" where
  "inet_addr a = le_val a"

text \<open>On \<open>NULL\<close> the program exits with a message: \<open>Some None\<close>.\<close>

definition create_latency_packet :: "bool \<Rightarrow> bytes option \<Rightarrow> (bytes \<Rightarrow> nat) \<Rightarrow> nat \<Rightarrow> bytes option option" where
  "create_latency_packet alloc area rte_ipv4_cksum magic_value =
     create_udp_packet alloc area rte_ipv4_cksum [0x02, 0, 0, 0, 0, 0x01] [0xe0, 0xeb, 0xd3, 0x78, 0x95, 0x8d]
       (inet_addr [192, 168, 0, 1]) (inet_addr [192, 168, 1, 1]) 1234 1028 magic_value"

subsection \<open>The bytes of the packet\<close>

lemma dummy_payload_bytes:
  "i \<le> 22 \<Longrightarrow> length a = 42 \<Longrightarrow> length r = 22 - i \<Longrightarrow>
   dummy_payload i (a @ map word_of_nat [0..<i] @ r) = Some (a @ map word_of_nat [0..<22])"
proof (induction "22 - i" arbitrary: i r)
  case 0
  then have "i = 22" "r = []" by auto
  then show ?case by (subst dummy_payload.simps) simp
next
  case (Suc k)
  then have i: "i < 22" by simp
  then obtain x r' where r: "r = x # r'" using Suc.prems(3) by (cases r) auto
  have "store_bytes ((a @ map word_of_nat [0..<i]) @ r) (42 + int i) [word_of_nat i] =
      Some (a @ map word_of_nat [0..<Suc i] @ r')"
    using Suc.prems r by (subst store_next) auto
  then have "dummy_payload i (a @ map word_of_nat [0..<i] @ r) = dummy_payload (Suc i) (a @ map word_of_nat [0..<Suc i] @ r')"
    using i by (subst dummy_payload.simps) simp
  also have "\<dots> = Some (a @ map word_of_nat [0..<22])"
    by (rule Suc.hyps(1)) (use Suc i r in auto)
  finally show ?case .
qed

lemma length_be_bytes [simp]: "length (be_bytes k v) = k"
  by (simp add: be_bytes_def)

definition header_bytes :: "bytes \<Rightarrow> nat \<Rightarrow> nat \<Rightarrow> bytes" where
  "header_bytes ck sip dip =
     [0x45, 0, 0, 50, 0, 0, 0, 0, 64, 17] @ ck @ le_bytes 4 sip @ le_bytes 4 dip"

definition udp_packet :: "nat \<Rightarrow> bytes \<Rightarrow> bytes \<Rightarrow> nat \<Rightarrow> nat \<Rightarrow> nat \<Rightarrow> nat \<Rightarrow> nat \<Rightarrow> bytes" where
  "udp_packet ck src_mac dst_mac sip dip sport dport magic =
     dst_mac @ src_mac @ [8, 0] @ header_bytes (le_bytes 2 ck) sip dip @
     be_bytes 2 sport @ be_bytes 2 dport @ [0, 30, 0, 0] @ [0, 1, 2, 3, 4, 5] @ le_bytes 4 magic @
     map word_of_nat [10..<22]"

lemmas store_steps = store_next length_append length_Cons list.size(3) length_drop drop_drop

lemma ether_header_bytes:
  assumes "length smac = 6" "length dmac = 6" "14 \<le> length r"
  shows "ether_header smac dmac r = Some ((dmac @ smac @ [8, 0]) @ drop 14 r)"
proof -
  have be: "be_bytes 2 0x0800 = [8, 0]" by (simp add: be_bytes_def numeral_2_eq_2)
  have "store_bytes r 0 dmac = Some (dmac @ drop 6 r)"
    using store_next [of 0 "[]" dmac r] assms by simp
  then have "ether_header smac dmac r = Some (((dmac @ smac) @ [8, 0]) @ drop 14 r)"
    unfolding ether_header_def be using assms by (simp add: store_steps del: append_assoc append.simps)
  then show ?thesis by simp
qed

text \<open>The fields before the checksum, then the addresses behind it, then the checksum.\<close>

lemma ipv4_header_bytes:
  assumes a: "length a = 14" and r: "20 \<le> length r"
  shows "ipv4_header cksum sip dip (a @ r) =
    Some ((a @ header_bytes (le_bytes 2 (cksum (header_bytes [0, 0] sip dip))) sip dip) @ drop 20 r)"
proof -
  let ?h = "[0x45, 0, 0, 50, 0, 0, 0, 0, 64, 17] :: bytes" and ?c = "take 2 (drop 10 r)"
  let ?s = "le_bytes 4 sip" and ?d = "le_bytes 4 dip"
  let ?ck = "le_bytes 2 (cksum (?h @ [0, 0] @ ?s @ ?d))"
  have be: "be_bytes 2 50 = [0, 50]" "be_bytes 2 0 = [0, 0]" "le_bytes 2 0 = [0, 0]" "push_bit 4 4 OR word_of_nat (20 div 4) = (0x45 :: 8 word)"
    by (simp_all add: be_bytes_def numeral_2_eq_2)
  have c: "length ?c = 2" "drop 10 r = ?c @ drop 12 r"
    using r append_take_drop_id [of 2 "drop 10 r"] by (simp_all del: append_take_drop_id)
  define fields where "fields = do {
     d \<leftarrow> store_bytes (a @ r) 14 [0x45];
     d \<leftarrow> store_bytes d 15 [0];
     d \<leftarrow> store_bytes d 16 [0, 50];
     d \<leftarrow> store_bytes d 18 [0, 0];
     d \<leftarrow> store_bytes d 20 [0, 0];
     d \<leftarrow> store_bytes d 22 [64];
     store_bytes d 23 [17] }"
  define addresses where "addresses d = do {
     d \<leftarrow> store_bytes d 26 ?s;
     store_bytes d 30 ?d }" for d
  have split: "ipv4_header cksum sip dip (a @ r) = Option.bind (Option.bind fields addresses) (\<lambda>d. do {
     d \<leftarrow> store_bytes d 24 [0, 0];
     header \<leftarrow> load_bytes d 14 20;
     store_bytes d 24 (le_bytes 2 (cksum header)) })"
    by (simp add: ipv4_header_def fields_def addresses_def be)
  have "fields = Some ((a @ ?h) @ drop 10 r)"
    unfolding fields_def using a r by (simp add: store_steps del: append_assoc append.simps) (simp add: numeral_eq_Suc)
  also have "drop 10 r = ?c @ drop 12 r" by (fact c(2))
  finally have fields: "fields = Some (((a @ ?h) @ ?c) @ drop 12 r)" by simp
  have addresses: "addresses (((a @ ?h) @ ?c) @ drop 12 r) = Some (((((a @ ?h) @ ?c) @ ?s) @ ?d) @ drop 20 r)"
    unfolding addresses_def using a r c(1) by (simp add: store_steps del: append_assoc append.simps)
  have ck: "store_bytes ((a @ ?h) @ x @ (?s @ ?d @ drop 20 r)) 24 y = Some ((a @ ?h) @ y @ (?s @ ?d @ drop 20 r))"
    if "length y = length x" for x y :: bytes
    by (rule store_over) (use that a in auto)
  have hd: "load_bytes ((a @ ?h) @ [0, 0] @ (?s @ ?d @ drop 20 r)) 14 20 = Some (?h @ [0, 0] @ ?s @ ?d)"
    using a by (simp add: load_bytes_def)
  have "Option.bind fields addresses = Some ((a @ ?h) @ ?c @ (?s @ ?d @ drop 20 r))"
    unfolding fields using addresses by simp
  then have "ipv4_header cksum sip dip (a @ r) = Some ((a @ ?h) @ ?ck @ (?s @ ?d @ drop 20 r))"
    unfolding split using ck [of "[0, 0]" ?c] ck [of ?ck "[0, 0]"] hd c(1) by (simp del: append.simps append_assoc)
  then show ?thesis by (simp add: header_bytes_def)
qed


lemma udp_header_bytes:
  assumes "length a = 34" "8 \<le> length r"
  shows "udp_header sport dport (a @ r) = Some ((a @ be_bytes 2 sport @ be_bytes 2 dport @ [0, 30, 0, 0]) @ drop 8 r)"
proof -
  have be: "be_bytes 2 30 = [0, 30]" "le_bytes 2 0 = [0, 0]" by (simp_all add: be_bytes_def numeral_2_eq_2)
  have "udp_header sport dport (a @ r) = Some (((((a @ be_bytes 2 sport) @ be_bytes 2 dport) @ [0, 30]) @ [0, 0]) @ drop 8 r)"
    using assms by (simp add: udp_header_def be store_steps del: append_assoc append.simps)
  then show ?thesis by simp
qed

theorem create_udp_packet_bytes:
  assumes "length d = PKT_SIZE" "length smac = 6" "length dmac = 6"
  shows "create_udp_packet True (Some d) cksum smac dmac sip dip sport dport magic =
    Some (Some (udp_packet (cksum (header_bytes [0, 0] sip dip)) smac dmac sip dip sport dport magic))"
proof -
  let ?e = "dmac @ smac @ [8, 0]" and ?u = "be_bytes 2 sport @ be_bytes 2 dport @ [0, 30, 0, 0]"
  let ?i = "header_bytes (le_bytes 2 (cksum (header_bytes [0, 0] sip dip))) sip dip"
  have l: "length ?e = 14" "length (?e @ ?i) = 34" "length (?e @ ?i @ ?u) = 42" using assms by (simp_all add: header_bytes_def)
  have "ether_header smac dmac d = Some (?e @ drop 14 d)" using ether_header_bytes [OF assms(2,3), of d] assms(1) by simp
  moreover have "ipv4_header cksum sip dip (?e @ drop 14 d) = Some ((?e @ ?i) @ drop 34 d)"
    using ipv4_header_bytes [OF l(1), of "drop 14 d"] assms(1) by simp
  moreover have "udp_header sport dport ((?e @ ?i) @ drop 34 d) = Some ((?e @ ?i @ ?u) @ drop 42 d)"
    using udp_header_bytes [OF l(2), of "drop 34 d"] assms(1) by simp
  moreover have "dummy_payload 0 ((?e @ ?i @ ?u) @ drop 42 d) = Some ((?e @ ?i @ ?u) @ map word_of_nat [0..<22])"
    using dummy_payload_bytes [of 0 "?e @ ?i @ ?u" "drop 42 d"] assms(1) l(3) by simp
  moreover have "store_bytes ((?e @ ?i @ ?u) @ map word_of_nat [0..<22]) 48 (le_bytes 4 magic) =
      Some (((?e @ ?i @ ?u) @ [0, 1, 2, 3, 4, 5]) @ le_bytes 4 magic @ map word_of_nat [10..<22])"
  proof -
    have "map word_of_nat [0..<22] = [0, 1, 2, 3, 4, 5] @ [6, 7, 8, 9] @ (map word_of_nat [10..<22] :: bytes)"
      by (simp add: upt_rec numeral_eq_Suc)
    moreover have "store_bytes (((?e @ ?i @ ?u) @ [0, 1, 2, 3, 4, 5]) @ [6, 7, 8, 9] @ map word_of_nat [10..<22]) 48 (le_bytes 4 magic) =
      Some (((?e @ ?i @ ?u) @ [0, 1, 2, 3, 4, 5]) @ le_bytes 4 magic @ map word_of_nat [10..<22])"
      by (rule store_over) (use l(3) in simp_all)
    ultimately show ?thesis by simp
  qed
  ultimately show ?thesis by (simp add: create_udp_packet_def udp_packet_def Let_def)
qed

subsection \<open>Reading the packet back\<close>

lemma load_part: "p = int (length a) \<Longrightarrow> k = length x \<Longrightarrow> load_bytes (a @ x @ r) p k = Some x"
  by (simp add: load_bytes_def)

lemma udp_packet_fields:
  assumes "length smac = 6" "length dmac = 6" and m: "m = udp_packet ck smac dmac sip dip sport dport magic"
  shows "length m = 64" "load_bytes m 26 4 = Some (le_bytes 4 sip)" "load_bytes m 30 4 = Some (le_bytes 4 dip)"
    "load_bytes m 34 2 = Some (be_bytes 2 sport)" "load_bytes m 36 2 = Some (be_bytes 2 dport)"
    "load_bytes m 48 4 = Some (le_bytes 4 magic)" "load_bytes m 12 12 = Some [8, 0, 0x45, 0, 0, 50, 0, 0, 0, 0, 64, 17]"
proof -
  note m = m [unfolded udp_packet_def header_bytes_def]
  show "length m = 64" using assms(1,2) by (simp add: m)
  let ?a = "dmac @ smac" and ?h = "[8, 0, 0x45, 0, 0, 50, 0, 0, 0, 0, 64, 17] :: bytes"
  let ?r = "be_bytes 2 sport @ be_bytes 2 dport @ [0, 30, 0, 0] @ [0, 1, 2, 3, 4, 5] @ le_bytes 4 magic @ map word_of_nat [10..<22]"
  have ms: "m = ?a @ ?h @ (le_bytes 2 ck @ le_bytes 4 sip @ le_bytes 4 dip @ ?r)"
    "m = (?a @ ?h @ le_bytes 2 ck) @ le_bytes 4 sip @ (le_bytes 4 dip @ ?r)"
    "m = (?a @ ?h @ le_bytes 2 ck @ le_bytes 4 sip) @ le_bytes 4 dip @ ?r"
    "m = (?a @ ?h @ le_bytes 2 ck @ le_bytes 4 sip @ le_bytes 4 dip) @ be_bytes 2 sport @
      (be_bytes 2 dport @ [0, 30, 0, 0] @ [0, 1, 2, 3, 4, 5] @ le_bytes 4 magic @ map word_of_nat [10..<22])"
    "m = (?a @ ?h @ le_bytes 2 ck @ le_bytes 4 sip @ le_bytes 4 dip @ be_bytes 2 sport) @ be_bytes 2 dport @
      ([0, 30, 0, 0] @ [0, 1, 2, 3, 4, 5] @ le_bytes 4 magic @ map word_of_nat [10..<22])"
    "m = (?a @ ?h @ le_bytes 2 ck @ le_bytes 4 sip @ le_bytes 4 dip @ be_bytes 2 sport @ be_bytes 2 dport @ [0, 30, 0, 0] @ [0, 1, 2, 3, 4, 5]) @
      le_bytes 4 magic @ map word_of_nat [10..<22]"
    by (simp_all add: m)
  show "load_bytes m 12 12 = Some ?h" unfolding ms(1) by (rule load_part) (use assms in simp_all)
  show "load_bytes m 26 4 = Some (le_bytes 4 sip)" unfolding ms(2) by (rule load_part) (use assms in simp_all)
  show "load_bytes m 30 4 = Some (le_bytes 4 dip)" unfolding ms(3) by (rule load_part) (use assms in simp_all)
  show "load_bytes m 34 2 = Some (be_bytes 2 sport)" unfolding ms(4) by (rule load_part) (use assms in simp_all)
  show "load_bytes m 36 2 = Some (be_bytes 2 dport)" unfolding ms(5) by (rule load_part) (use assms in simp_all)
  show "load_bytes m 48 4 = Some (le_bytes 4 magic)" unfolding ms(6) by (rule load_part) (use assms in simp_all)
qed

lemma arr_get_of_load:
  assumes "load_bytes m p k = Some bs" "p \<le> q" "q < p + int k"
  shows "arr_get m q = Some (bs ! nat (q - p))"
proof -
  have l: "0 \<le> p" "p + int k \<le> int (length m)" "bs = take k (drop (nat p) m)"
    using assms(1) by (auto simp: load_bytes_def split: if_splits)
  moreover have "nat p + nat (q - p) = nat q" using l(1) assms(2) by simp
  ultimately show ?thesis using assms(2,3) by (simp add: arr_get_def)
qed

lemma be_val_be_bytes: "le_val (rev (be_bytes k v)) = v mod 256 ^ k"
  by (simp add: be_bytes_def le_val_le_bytes)

lemma check_made_packet:
  assumes "length smac = 6" "length dmac = 6"
  shows "check_packet_magic (udp_packet ck smac dmac (inet_addr [192, 168, 0, 1]) (inet_addr [192, 168, 1, 1]) 1234 1028 magic) w =
    Some (if magic mod 2 ^ 32 = w then 0 else - 1)"
proof -
  define m where "m = udp_packet ck smac dmac (inet_addr [192, 168, 0, 1]) (inet_addr [192, 168, 1, 1]) 1234 1028 magic"
  note f = udp_packet_fields [OF assms m_def]
  have addr: "le_bytes 4 (inet_addr a) = a" if "length a = 4" for a
    unfolding inet_addr_def using le_bytes_le_val [of a] that by simp
  have "arr_get m 23 = Some 17" using arr_get_of_load [OF f(7), of 23] by simp
  moreover have "load_be16 m 34 = Some 1234" "load_be16 m 36 = Some 1028"
    using f(4,5) by (simp_all add: load_be16_def be_val_be_bytes)
  moreover have "load_u32 m 48 = Some (magic mod 2 ^ 32)" using f(6) by (simp add: load_u32_def le_val_le_bytes)
  ultimately have "check_packet_magic m w = Some (if magic mod 2 ^ 32 = w then 0 else - 1)"
    using f(2,3) by (simp add: check_packet_magic_def addr Let_def)
  then show ?thesis by (simp add: m_def)
qed

lemma made_packet_valid:
  assumes "length smac = 6" "length dmac = 6" and m: "m = udp_packet ck smac dmac sip dip sport dport magic"
  shows "is_valid_ipv4_pkt m 14 64 = Some 0"
    "packet_tuple m = Some (Some \<lparr>src_ip = le_val (rev (le_bytes 4 sip)), dst_ip = le_val (rev (le_bytes 4 dip)),
       src_port = sport mod 2 ^ 16, dst_port = dport mod 2 ^ 16, proto = 17\<rparr>)"
proof -
  note f = udp_packet_fields [OF assms]
  have b: "arr_get m 23 = Some 17" "arr_get m 14 = Some 0x45"
    using arr_get_of_load [OF f(7), of 23] arr_get_of_load [OF f(7), of 14] by simp_all
  have sub: "load_bytes m (12 + int i) k = Some (take k (drop i [8, 0, 0x45, 0, 0, 50, 0, 0, 0, 0, 64, 17]))" if "i + k \<le> 12" for i k
  proof -
    have l: "length m = 64" and t: "take 12 (drop 12 m) = [8, 0, 0x45, 0, 0, 50, 0, 0, 0, 0, 64, 17]"
      using f(1,7) by (auto simp: load_bytes_def split: if_splits)
    have "take k (drop (12 + i) m) = take k (drop i (take 12 (drop 12 m)))"
      using that by (simp add: drop_take min_def add.commute)
    then show ?thesis using that l t by (simp add: load_bytes_def nat_add_distrib)
  qed
  have "load_be16 m 12 = Some 0x0800" "load_be16 m 16 = Some 50"
    using sub [of 0 2] sub [of 4 2] by (simp_all add: load_be16_def)
  moreover have "load_be32 m 26 = Some (le_val (rev (le_bytes 4 sip)))" "load_be32 m 30 = Some (le_val (rev (le_bytes 4 dip)))"
    using f(2,3) by (simp_all add: load_be32_def)
  moreover have "load_be16 m 34 = Some (sport mod 2 ^ 16)" "load_be16 m 36 = Some (dport mod 2 ^ 16)"
    using f(4,5) by (simp_all add: load_be16_def be_val_be_bytes)
  ultimately show "is_valid_ipv4_pkt m 14 64 = Some 0"
    "packet_tuple m = Some (Some \<lparr>src_ip = le_val (rev (le_bytes 4 sip)), dst_ip = le_val (rev (le_bytes 4 dip)),
       src_port = sport mod 2 ^ 16, dst_port = dport mod 2 ^ 16, proto = 17\<rparr>)"
    using b by (simp_all add: is_valid_ipv4_pkt_def packet_tuple_def)
qed

lemma burst_stops_at_once:
  assumes "length m = 64" "check_packet_magic m STOP_magic = Some 0"
  shows "nf_process_burst g junk now (m # pkts) portid b mg cms = Some (1, m # pkts, mg, cms)"
  using assms by (simp add: nf_process_burst_def load_be16_def load_u32_def load_u16_def load_bytes_def arr_get_some)

subsection \<open>Properties\<close>

text \<open>C31. The packet made for a magic number does not depend on what the buffer held; the receiving side accepts its header,
  reads back its flow and recognises exactly that number; made with the stop number it ends a burst at
  once, before anything is translated or counted.\<close>

theorem latency_packet_recognised:
  "\<exists>m. (\<forall>d. length d = PKT_SIZE \<longrightarrow> create_latency_packet True (Some d) rte_ipv4_cksum magic = Some (Some m)) \<and>
    is_valid_ipv4_pkt m 14 PKT_SIZE = Some 0 \<and>
    packet_tuple m = Some (Some \<lparr>src_ip = 0xC0A80001, dst_ip = 0xC0A80101, src_port = 1234, dst_port = 1028, proto = 17\<rparr>) \<and>
    (\<forall>w. check_packet_magic m w = Some (if magic mod 2 ^ 32 = w then 0 else - 1)) \<and>
    (magic mod 2 ^ 32 = STOP_magic \<longrightarrow>
       nf_process_burst g junk now (m # pkts) portid b mg cms = Some (1, m # pkts, mg, cms))"
proof -
  let ?s = "[0x02, 0, 0, 0, 0, 0x01] :: bytes" and ?t = "[0xe0, 0xeb, 0xd3, 0x78, 0x95, 0x8d] :: bytes"
  let ?sip = "inet_addr [192, 168, 0, 1]" and ?dip = "inet_addr [192, 168, 1, 1]"
  define m where "m = udp_packet (rte_ipv4_cksum (header_bytes [0, 0] ?sip ?dip)) ?s ?t ?sip ?dip 1234 1028 magic"
  have l: "length ?s = 6" "length ?t = 6" by simp_all
  have addr: "le_bytes 4 (inet_addr a) = a" if "length a = 4" for a
    unfolding inet_addr_def using le_bytes_le_val [of a] that by simp
  have "create_latency_packet True (Some d) rte_ipv4_cksum magic = Some (Some m)" if "length d = PKT_SIZE" for d
    unfolding create_latency_packet_def m_def by (rule create_udp_packet_bytes [OF that l])
  moreover have c: "check_packet_magic m w = Some (if magic mod 2 ^ 32 = w then 0 else - 1)" for w
    unfolding m_def by (rule check_made_packet [OF l])
  moreover have "nf_process_burst g junk now (m # pkts) portid b mg cms = Some (1, m # pkts, mg, cms)"
    if "magic mod 2 ^ 32 = STOP_magic"
    using burst_stops_at_once [OF udp_packet_fields(1) [OF l m_def]] c that by simp
  ultimately show ?thesis using made_packet_valid [OF l m_def] addr by (intro exI [of _ m]) simp
qed

text \<open>The start-up of nf-chain sends the number 0xf00dcafc, which does not stop a burst; the number of the stop packet does.\<close>

theorem latency_packet_recognised_witness:
  "\<exists>m m'. create_latency_packet True (Some (replicate 64 7)) (\<lambda>h. 0) 0xf00dcafc = Some (Some m) \<and>
    check_packet_magic m STOP_magic = Some (- 1) \<and>
    create_latency_packet True (Some (replicate 64 7)) (\<lambda>h. 0) STOP_magic = Some (Some m') \<and>
    nf_process_burst demo_globals (\<lambda>i. demo_junk) (\<lambda>i. 100) [m'] 0 True (demo_manager 2 True) \<lparr>cms_values = \<lambda>r c. 0\<rparr> =
      Some (1, [m'], demo_manager 2 True, \<lparr>cms_values = \<lambda>r c. 0\<rparr>)"
proof -
  have l: "length (replicate 64 (7 :: 8 word)) = PKT_SIZE" by simp
  have s: "STOP_magic = 0x504F5453" by (simp add: STOP_magic_def str_to_u32_def)
  obtain m where m: "create_latency_packet True (Some (replicate 64 7)) (\<lambda>h. 0) 0xf00dcafc = Some (Some m)"
    "\<forall>w. check_packet_magic m w = Some (if (0xf00dcafc :: nat) mod 2 ^ 32 = w then 0 else - 1)"
    using latency_packet_recognised [of "\<lambda>h. 0" "0xf00dcafc"] l by blast
  obtain m' where m': "create_latency_packet True (Some (replicate 64 7)) (\<lambda>h. 0) STOP_magic = Some (Some m')"
    "STOP_magic mod 2 ^ 32 = STOP_magic \<longrightarrow> nf_process_burst demo_globals (\<lambda>i. demo_junk) (\<lambda>i. 100) [m'] 0 True (demo_manager 2 True)
      \<lparr>cms_values = \<lambda>r c. 0\<rparr> = Some (1, [m'], demo_manager 2 True, \<lparr>cms_values = \<lambda>r c. 0\<rparr>)"
    using latency_packet_recognised [of "\<lambda>h. 0" STOP_magic demo_globals "\<lambda>i. demo_junk" "\<lambda>i. 100" "[]" 0 True "demo_manager 2 True"
      "\<lparr>cms_values = \<lambda>r c. 0\<rparr>"] l by blast
  show ?thesis using m m' by (intro exI [of _ m] exI [of _ m']) (simp add: s)
qed

end
