(* ===== verification/Port_Setup.thy ===== *)
theory Port_Setup
  imports Acl_Init Poll_Policies Stop_Packet
begin

section \<open>Memory pools and ports at start-up\<close>

text \<open>
  The part of \<^verbatim>\<open>main\<close> of \<^verbatim>\<open>nf-chain/src/main.c\<close> that creates the pools of packet buffers and sets up and starts the ports,
  and \<open>check_all_ports_link_status\<close>. The functions of DPDK are the record \<open>dpdk\<close>: what they return for their
  arguments; those that set up a queue also see the numbers of queues with which the port was configured. Of the devices, the model keeps which
  rings they have. A result is \<open>None\<close> for undefined behaviour, \<open>Some (Inl msg)\<close> where \<^verbatim>\<open>main\<close> ends.
\<close>

subsection \<open>Environment and state\<close>

record dpdk =
  max_lcore :: nat
  lcore_is_enabled :: "nat \<Rightarrow> bool"
  lcore_to_socket_id :: "nat \<Rightarrow> int"
  get_main_lcore :: nat
  devs :: "nat list"
  pktmbuf_pool_create :: "nat \<Rightarrow> nat \<Rightarrow> bool"
  dev_reta_size :: "nat \<Rightarrow> nat option"
  dev_configure :: "nat \<Rightarrow> nat \<Rightarrow> nat \<Rightarrow> int"
  qdma_reg_read_usr :: "nat \<Rightarrow> nat"
  rss_reta_update :: "nat \<Rightarrow> int"
  rss_reta_query :: "nat \<Rightarrow> nat"
  adjust_nb_rx_tx_desc :: "nat \<Rightarrow> nat \<Rightarrow> nat \<Rightarrow> (nat \<times> nat) option"
  macaddr_get :: "nat \<Rightarrow> bytes option"
  tx_buffer_zmalloc :: "nat \<Rightarrow> nat \<Rightarrow> bool"
  tx_queue_setup :: "(nat \<times> nat) option \<Rightarrow> nat \<Rightarrow> nat \<Rightarrow> nat \<Rightarrow> int \<Rightarrow> int"
  qdma_get_queue_base :: "nat \<Rightarrow> int"
  qdma_set_queue_mode :: "nat \<Rightarrow> nat \<Rightarrow> int"
  rx_queue_setup :: "(nat \<times> nat) option \<Rightarrow> nat \<Rightarrow> nat \<Rightarrow> nat \<Rightarrow> int"
  dev_start :: "nat \<Rightarrow> int"
  promiscuous_enable :: "nat \<Rightarrow> int"
  zmalloc_sketch :: "nat \<Rightarrow> bool"
  link_get_nowait :: "nat \<Rightarrow> nat \<Rightarrow> bool option"
  log2_u32 :: "nat \<Rightarrow> nat"
  clear_mbuf :: "nat \<Rightarrow> nat \<Rightarrow> bool"
  clear_area :: "nat \<Rightarrow> nat \<Rightarrow> bytes option"
  ipv4_cksum :: "bytes \<Rightarrow> nat"
  tx_burst_one :: "nat \<Rightarrow> nat \<Rightarrow> nat"

text \<open>The enabled lcores in the order of \<open>RTE_LCORE_FOREACH\<close>.\<close>

definition lcores :: "dpdk \<Rightarrow> nat list" where
  "lcores d = filter (lcore_is_enabled d) [0..<max_lcore d]"

text \<open>\<open>tx_port_id\<close> lists the ports of an lcore up to \<open>n_tx_port\<close>.\<close>

record startup =
  rxd :: nat
  txd :: nat
  pktmbuf_pool :: "nat \<Rightarrow> nat option"
  dev_conf :: "nat \<Rightarrow> (nat \<times> nat) option"
  s_addr :: "nat \<Rightarrow> bytes option"
  tx_queue_id :: "nat \<Rightarrow> nat \<Rightarrow> nat option"
  tx_port_id :: "nat \<Rightarrow> nat list"
  tx_rings :: "(nat \<times> nat) list"
  rx_rings :: "(nat \<times> nat \<times> nat) list"
  started :: "nat list"
  promiscuous :: "nat list"
  sketches :: "nat list"
  cleared :: "nat list"

definition initial_startup :: "nat \<Rightarrow> startup" where
  "initial_startup d = \<lparr>rxd = d, txd = 1024, pktmbuf_pool = (\<lambda>_. None), dev_conf = (\<lambda>_. None), s_addr = (\<lambda>_. None),
     tx_queue_id = (\<lambda>_ _. None), tx_port_id = (\<lambda>_. []), tx_rings = [], rx_rings = [], started = [], promiscuous = [],
     sketches = [], cleared = []\<rparr>"

definition MEMPOOL_CACHE_SIZE :: nat where "MEMPOOL_CACHE_SIZE = 256"
definition MAX_TX_QUEUE_PER_PORT :: nat where "MAX_TX_QUEUE_PER_PORT = 32"

subsection \<open>Pools\<close>

text \<open>The number of buffers of a pool for its share of the queues, and of the one pool of all queues (32 bit unsigned).\<close>

definition lcore_nb_mbufs :: "nat \<Rightarrow> nat \<Rightarrow> nat \<Rightarrow> nat \<Rightarrow> nat" where
  "lcore_nb_mbufs n_queues nb_lcores n_rxd n_txd =
     (let queues_per_lcore = u32 (n_queues + nb_lcores - 1) div nb_lcores
      in max (u32 (queues_per_lcore * (n_rxd + MAX_PKT_BURST) + n_txd + MEMPOOL_CACHE_SIZE)) 8192)"

definition shared_nb_mbufs :: "nat \<Rightarrow> nat \<Rightarrow> nat \<Rightarrow> nat \<Rightarrow> nat" where
  "shared_nb_mbufs n_queues nb_lcores n_rxd n_txd =
     max (u32 (n_queues * 1 * (n_rxd + n_txd + MAX_PKT_BURST + nb_lcores * MEMPOOL_CACHE_SIZE))) 8192"

definition create_pool :: "dpdk \<Rightarrow> string \<Rightarrow> nat \<Rightarrow> nat \<Rightarrow> startup \<Rightarrow> (string + startup) option" where
  "create_pool d msg n i st =
     (if \<not> pktmbuf_pool_create d i n then Some (Inl msg)
      else Some (Inr (st\<lparr>pktmbuf_pool := (pktmbuf_pool st)(i := Some n)\<rparr>)))"

definition create_pools :: "dpdk \<Rightarrow> nf_args \<Rightarrow> startup \<Rightarrow> (string + startup) option" where
  "create_pools d args st =
     (let nb_lcores = length (lcores d)
      in if o_mode (qflow args) = QFLOW_PARTITIONED
         then for_each (create_pool d ''Cannot init mbuf pool for lcore'' (lcore_nb_mbufs (queues args) nb_lcores (rxd st) (txd st)))
                (lcores d) st
         else create_pool d ''Cannot init mbuf pool'' (shared_nb_mbufs (queues args) nb_lcores (rxd st) (txd st)) 0 st)"

subsection \<open>The set-up of a port\<close>

text \<open>Of the indirection table only its size matters: it is filled with zeros, in groups of 64, in an array of 32 groups.\<close>

definition configure_port :: "dpdk \<Rightarrow> nf_args \<Rightarrow> nat \<Rightarrow> startup \<Rightarrow> (string + startup) option" where
  "configure_port d args portid st =
     (let n_tx_queue = min (length (lcores d)) MAX_TX_QUEUE_PER_PORT
      in case dev_reta_size d portid of
           None \<Rightarrow> Some (Inl ''Error during getting device info'')
         | Some reta_size \<Rightarrow>
             if dev_configure d portid (queues args) n_tx_queue < 0 then Some (Inl ''Cannot configure device'')
             else if qdma_reg_read_usr d portid \<noteq> 0x940907F then Some (Inl ''wrong bitstream'')
             else if 2048 div 64 < reta_size div 64 then None
             else if rss_reta_update d portid < 0 then Some (Inl ''Cannot set RSS REA'')
             else if queues args \<noteq> rss_reta_query d portid + 1 then Some (Inl ''Cannot get correct number of queues'')
             else (case adjust_nb_rx_tx_desc d portid (rxd st) (txd st) of
                     None \<Rightarrow> Some (Inl ''rte_eth_dev_adjust_nb_rx_tx_desc'')
                   | Some (r, t) \<Rightarrow>
                       (case macaddr_get d portid of
                          None \<Rightarrow> Some (Inl ''rte_eth_macaddr_get'')
                        | Some a \<Rightarrow> Some (Inr (st\<lparr>dev_conf := (dev_conf st)(portid := Some (queues args, n_tx_queue)), rxd := r, txd := t,
                            s_addr := (s_addr st)(portid := Some a)\<rparr>)))))"

definition alloc_tx_buffer :: "dpdk \<Rightarrow> nat \<Rightarrow> nat \<Rightarrow> startup \<Rightarrow> (string + startup) option" where
  "alloc_tx_buffer d portid lcore st =
     (if \<not> tx_buffer_zmalloc d lcore portid then Some (Inl ''Can't allocate tx buffer'') else Some (Inr st))"

text \<open>One round of the loop that sets up a TX queue per lcore; \<open>queueid\<close> counts the lcores.\<close>

definition setup_tx_queue :: "dpdk \<Rightarrow> nf_args \<Rightarrow> nat \<Rightarrow> nat \<times> nat \<Rightarrow> startup \<Rightarrow> (string + startup) option" where
  "setup_tx_queue d args portid = (\<lambda>(queueid, lcore) st.
     let socketid = (if numa_on args then lcore_to_socket_id d lcore mod 256 else 0)
     in if tx_queue_setup d (dev_conf st portid) portid queueid (txd st) socketid < 0 then Some (Inl ''rte_eth_tx_queue_setup'')
        else if 32 \<le> length (tx_port_id st lcore) then None
        else Some (Inr (st\<lparr>tx_rings := tx_rings st @ [(portid, queueid)],
            tx_queue_id := (tx_queue_id st)(lcore := (tx_queue_id st lcore)(portid := Some queueid)),
            tx_port_id := (tx_port_id st)(lcore := tx_port_id st lcore @ [portid])\<rparr>)))"

text \<open>The pool of a queue: the fallback of \<open>get_lcore_for_queue\<close> is the lcore that runs \<^verbatim>\<open>main\<close>.\<close>

definition queue_pool :: "dpdk \<Rightarrow> nf_args \<Rightarrow> nat \<Rightarrow> nat" where
  "queue_pool d args x =
     (if o_mode (qflow args) = QFLOW_PARTITIONED
      then (case get_lcore_for_queue x (queues args) (length (lcores d)) of
              None \<Rightarrow> get_main_lcore d
            | Some lcore_pos \<Rightarrow> lcores d ! lcore_pos)
      else 0)"

definition setup_rx_queue :: "dpdk \<Rightarrow> nf_args \<Rightarrow> nat \<Rightarrow> nat \<Rightarrow> startup \<Rightarrow> (string + startup) option" where
  "setup_rx_queue d args portid x st =
     (if qdma_set_queue_mode d portid x < 0 then Some (Inl ''rte_pmd_qdma_set_queue_mode : Passing of STREAMING_MODE failed'')
      else if rx_queue_setup d (dev_conf st portid) portid x (rxd st) < 0 then Some (Inl ''rte_eth_rx_queue_setup'')
      else Some (Inr (st\<lparr>rx_rings := rx_rings st @ [(portid, x, queue_pool d args x)]\<rparr>)))"

text \<open>A port number of 32 or more shifts out of the mask, which is undefined.\<close>

definition if_port_enabled :: "nf_args \<Rightarrow> nat \<Rightarrow> startup \<Rightarrow> (string + startup) option \<Rightarrow> (string + startup) option" where
  "if_port_enabled args portid st body =
     (if 32 \<le> portid then None else if enabled_port_mask args AND 2 ^ portid = 0 then Some (Inr st) else body)"

definition setup_port :: "dpdk \<Rightarrow> nf_args \<Rightarrow> nat \<Rightarrow> startup \<Rightarrow> (string + startup) option" where
  "setup_port d args portid st = if_port_enabled args portid st (
     andthen (configure_port d args portid st) (\<lambda>st.
     andthen (for_each (alloc_tx_buffer d portid) (lcores d) st) (\<lambda>st.
     andthen (for_each (setup_tx_queue d args portid) (List.enumerate 0 (lcores d)) st) (\<lambda>st.
     if qdma_get_queue_base d portid < 0 then Some (Inl ''rte_pmd_qdma_get_queue_base : Querying of QUEUE_BASE failed'')
     else for_each (setup_rx_queue d args portid) [0..<queues args] st))))"

definition start_port :: "dpdk \<Rightarrow> nf_args \<Rightarrow> nat \<Rightarrow> startup \<Rightarrow> (string + startup) option" where
  "start_port d args portid st = if_port_enabled args portid st (
     if dev_start d portid < 0 then Some (Inl ''rte_eth_dev_start'')
     else let st = st\<lparr>started := started st @ [portid]\<rparr>
       in if promiscuous_on args then
            if promiscuous_enable d portid \<noteq> 0 then Some (Inl ''rte_eth_promiscuous_enable'')
            else Some (Inr (st\<lparr>promiscuous := promiscuous st @ [portid]\<rparr>))
          else Some (Inr st))"

text \<open>A sketch per lcore. Only the allocation for mode Partitioned is tested; the others are written to at once.\<close>

definition alloc_sketch :: "dpdk \<Rightarrow> nf_args \<Rightarrow> nat \<Rightarrow> startup \<Rightarrow> (string + startup) option" where
  "alloc_sketch d args lcore st =
     (if zmalloc_sketch d lcore then Some (Inr (st\<lparr>sketches := sketches st @ [lcore]\<rparr>))
      else if o_mode (qflow args) = QFLOW_PARTITIONED then Some (Inl ''Failed to allocate CMS for lcore'')
      else None)"

text \<open>The packets that clear the card: on every device, enabled or not, \<open>log2\<close> of the queues plus one.\<close>

definition send_clear_packet :: "dpdk \<Rightarrow> nat \<Rightarrow> nat \<Rightarrow> startup \<Rightarrow> (string + startup) option" where
  "send_clear_packet d portid i st =
     Option.bind (create_latency_packet (clear_mbuf d portid i) (clear_area d portid i) (ipv4_cksum d) 0xf00dcafc) (\<lambda>pkt.
       case pkt of
         None \<Rightarrow> Some (Inl ''Errore creazione pacchetto'')
       | Some p \<Rightarrow>
           if tx_burst_one d portid i < 1 then Some (Inl ''Errore Invio pacchetto clear'')
           else Some (Inr (st\<lparr>cleared := cleared st @ [portid]\<rparr>)))"

definition send_clear_packets :: "dpdk \<Rightarrow> nf_args \<Rightarrow> startup \<Rightarrow> (string + startup) option" where
  "send_clear_packets d args st =
     for_each (\<lambda>portid. for_each (send_clear_packet d portid) [0..<log2_u32 d (queues args) + 1]) (devs d) st"

subsection \<open>The check of the links\<close>

text \<open>\<open>all_ports_up\<close> after the inner loop; \<open>link portid\<close> is \<open>None\<close> when the query fails, else whether the link is up.\<close>

fun links_up :: "(nat \<Rightarrow> bool option) \<Rightarrow> nat \<Rightarrow> bool \<Rightarrow> nat list \<Rightarrow> bool \<Rightarrow> bool" where
  "links_up link port_mask print_flag [] up = up"
| "links_up link port_mask print_flag (portid # ps) up =
     (if port_mask AND 2 ^ portid = 0 then links_up link port_mask print_flag ps up
      else case link portid of
        None \<Rightarrow> links_up link port_mask print_flag ps False
      | Some l \<Rightarrow>
          if print_flag then links_up link port_mask print_flag ps up
          else if \<not> l then False
          else links_up link port_mask print_flag ps up)"

definition MAX_CHECK_TIME :: nat where "MAX_CHECK_TIME = 90"

text \<open>From round \<open>cnt\<close> on; the result is the number of rounds and of delays. The counter has 8 bits.\<close>

function link_rounds :: "(nat \<Rightarrow> nat \<Rightarrow> bool option) \<Rightarrow> nat \<Rightarrow> nat list \<Rightarrow> nat \<Rightarrow> bool \<Rightarrow> nat \<Rightarrow> nat \<times> nat" where
  "link_rounds link port_mask ports cnt print_flag delays =
     (if cnt \<le> MAX_CHECK_TIME then
        let up = links_up (link cnt) port_mask print_flag ports True
        in if print_flag then (cnt + 1, delays)
           else link_rounds link port_mask ports ((cnt + 1) mod 256) (up \<or> cnt = MAX_CHECK_TIME - 1)
             (if up then delays else delays + 1)
      else (cnt, delays))"
  by pat_completeness auto
termination
  by (relation "measure (\<lambda>(l, m, ps, cnt, f, n). MAX_CHECK_TIME + 1 - cnt)") (auto simp: MAX_CHECK_TIME_def)

declare link_rounds.simps [simp del]

definition check_all_ports_link_status :: "dpdk \<Rightarrow> nat \<Rightarrow> nat \<times> nat" where
  "check_all_ports_link_status d port_mask = link_rounds (link_get_nowait d) port_mask (devs d) 0 False 0"

subsection \<open>Sizes of the pools\<close>

lemma ceiling_covers: "0 < (k :: nat) \<Longrightarrow> n \<le> (n + k - 1) div k * k"
proof -
  assume k: "0 < k"
  have "(n + k - 1) mod k < k" using k by simp
  moreover have "(n + k - 1) div k * k + (n + k - 1) mod k = n + k - 1" by simp
  ultimately show ?thesis by linarith
qed

lemma ceiling_step: "0 < (k :: nat) \<Longrightarrow> (a + n) div k - a div k \<le> (n + k - 1) div k"
proof -
  assume k: "0 < k"
  let ?c = "(n + k - 1) div k"
  have "a + n \<le> a + ?c * k" using ceiling_covers [OF k] by simp
  then have "(a + n) div k \<le> (a + ?c * k) div k" by (rule div_le_mono)
  also have "\<dots> = a div k + ?c" using k by simp
  finally show ?thesis by simp
qed

lemma slice_bounds:
  assumes "n * k < 4294967296" "pos < k" "k \<le> 65536"
  shows "slice_start n pos k = n * pos div k" "slice_end n pos k = (n * pos + n) div k"
proof -
  have "n * pos \<le> n * k" "n * (pos + 1) \<le> n * k" using assms(2) by (intro mult_le_mono2; simp)+
  then show "slice_start n pos k = n * pos div k" "slice_end n pos k = (n * pos + n) div k"
    using assms by (simp_all add: slice_start_def slice_end_def add.commute)
qed

lemma lcore_nb_mbufs_covers:
  assumes "n < 65536" "0 < k" "k \<le> 128" "r \<le> 32768" "t < 65536" "pos < k"
  shows "(slice_end n pos k - slice_start n pos k) * (r + MAX_PKT_BURST) + t + MEMPOOL_CACHE_SIZE \<le> lcore_nb_mbufs n k r t"
proof -
  let ?c = "(n + k - 1) div k"
  have "n * k \<le> 65536 * 128" using assms(1,3) by (intro mult_le_mono) simp_all
  then have "slice_end n pos k - slice_start n pos k \<le> ?c"
    using slice_bounds [of n k pos] ceiling_step [of k "n * pos" n] assms by simp
  then have "(slice_end n pos k - slice_start n pos k) * (r + MAX_PKT_BURST) \<le> ?c * (r + MAX_PKT_BURST)" by (rule mult_le_mono1)
  moreover have "?c \<le> n"
  proof (cases "n = 0")
    case False
    then have "n + k - 1 < (n + 1) * k" using assms(2) by (cases k) auto
    then have "(n + k - 1) div k < n + 1" using assms(2) by (simp add: div_less_iff_less_mult)
    then show ?thesis by simp
  qed (use assms(2) in simp)
  then have "?c * (r + 32) \<le> 65535 * 32800" using assms(1,4) by (intro mult_le_mono) simp_all
  then have "u32 (?c * (r + 32) + t + MEMPOOL_CACHE_SIZE) = ?c * (r + 32) + t + MEMPOOL_CACHE_SIZE"
    using assms(5) by (simp add: MEMPOOL_CACHE_SIZE_def)
  ultimately show ?thesis using assms(1,3) by (simp add: lcore_nb_mbufs_def Let_def le_max_iff_disj)
qed

subsection \<open>The rounds of the check\<close>

lemma links_up_all: "links_up link m False ps up \<longleftrightarrow> up \<and> (\<forall>p \<in> set ps. m AND 2 ^ p \<noteq> 0 \<longrightarrow> link p = Some True)"
  by (induction ps arbitrary: up) (auto split: option.split)

lemma link_rounds_print: "k \<le> 90 \<Longrightarrow> link_rounds link m ps k True n = (k + 1, n)"
  by (subst link_rounds.simps) (simp add: MAX_CHECK_TIME_def Let_def)

lemma link_rounds_step:
  assumes "k < 90"
  shows "link_rounds link m ps k False n =
    (if links_up (link k) m False ps True then (k + 2, n)
     else if k = 89 then (91, n + 1) else link_rounds link m ps (k + 1) False (n + 1))"
  using assms link_rounds_print [of "k + 1"] link_rounds_print [of 90] by (subst link_rounds.simps) (simp add: MAX_CHECK_TIME_def Let_def)

lemma link_rounds_up:
  "k \<le> j \<Longrightarrow> j < 90 \<Longrightarrow> links_up (link j) m False ps True \<Longrightarrow>
   \<forall>i. k \<le> i \<and> i < j \<longrightarrow> \<not> links_up (link i) m False ps True \<Longrightarrow> link_rounds link m ps k False n = (j + 2, n + (j - k))"
proof (induction "j - k" arbitrary: k n)
  case 0
  then have "k = j" by simp
  then show ?case using 0 by (simp add: link_rounds_step)
next
  case (Suc d)
  then have k: "k < j" "\<not> links_up (link k) m False ps True" by auto
  have "link_rounds link m ps (k + 1) False (n + 1) = (j + 2, (n + 1) + (j - (k + 1)))"
    by (rule Suc.hyps(1)) (use Suc.prems Suc.hyps(2) k in auto)
  then show ?case using k Suc.prems(2) by (simp add: link_rounds_step)
qed

lemma link_rounds_down:
  "k < 90 \<Longrightarrow> \<forall>i. k \<le> i \<and> i < 90 \<longrightarrow> \<not> links_up (link i) m False ps True \<Longrightarrow> link_rounds link m ps k False n = (91, n + (90 - k))"
proof (induction "90 - k" arbitrary: k n)
  case (Suc d)
  have k: "\<not> links_up (link k) m False ps True" using Suc.prems by simp
  show ?case
  proof (cases "k = 89")
    case True
    then show ?thesis using k by (simp add: link_rounds_step)
  next
    case False
    have "link_rounds link m ps (k + 1) False (n + 1) = (91, (n + 1) + (90 - (k + 1)))"
      by (rule Suc.hyps(1)) (use Suc.prems Suc.hyps(2) False in auto)
    then show ?thesis using k False Suc.prems(1) by (simp add: link_rounds_step)
  qed
qed simp

subsection \<open>What the steps add\<close>

text \<open>No step takes back a ring, a pool or a started port.\<close>

definition extends :: "startup \<Rightarrow> startup \<Rightarrow> bool" where
  "extends st st' \<longleftrightarrow> set (tx_rings st) \<subseteq> set (tx_rings st') \<and> set (rx_rings st) \<subseteq> set (rx_rings st') \<and>
     (\<forall>i n. pktmbuf_pool st i = Some n \<longrightarrow> pktmbuf_pool st' i \<noteq> None) \<and> set (started st) \<subseteq> set (started st') \<and>
     set (sketches st) \<subseteq> set (sketches st')"

named_theorems step_extends \<open>steps of the start-up only add\<close>

lemma extends_refl [simp, intro]: "extends st st"
  by (simp add: extends_def)

lemma extends_trans [trans]: "extends a b \<Longrightarrow> extends b c \<Longrightarrow> extends a c"
  unfolding extends_def by blast

lemma for_each_extends:
  assumes "for_each body xs s = Some (Inr t)" "\<And>x s s'. body x s = Some (Inr s') \<Longrightarrow> extends s s'"
  shows "extends s t"
proof -
  have "extends s t \<and> (\<forall>x \<in> set xs. True)"
    by (rule for_each_rule [OF assms(1), where P = "extends s"]) (use assms(2) extends_trans in blast)+
  then show ?thesis by blast
qed

text \<open>What a round adds is there at the end of the loop.\<close>

lemma for_each_adds:
  assumes "for_each body xs s = Some (Inr t)" "\<And>x s s'. body x s = Some (Inr s') \<Longrightarrow> extends s s' \<and> Q x s'"
    and "\<And>x s s'. Q x s \<Longrightarrow> extends s s' \<Longrightarrow> Q x s'"
  shows "\<forall>x \<in> set xs. Q x t"
proof -
  have "True \<and> (\<forall>x \<in> set xs. Q x t)"
    by (rule for_each_rule [OF assms(1), where P = "\<lambda>s. True"]) (use assms(2,3) in blast)+
  then show ?thesis by blast
qed

lemma if_port_enabled_Inr:
  "if_port_enabled args p st body = Some (Inr st') \<longleftrightarrow>
    p < 32 \<and> (if enabled_port_mask args AND 2 ^ p = 0 then st' = st else body = Some (Inr st'))"
  by (auto simp: if_port_enabled_def)

lemma create_pool_adds:
  "create_pool d msg n i st = Some (Inr st') \<Longrightarrow> extends st st' \<and> pktmbuf_pool st' i \<noteq> None"
  by (auto simp: create_pool_def extends_def split: if_splits)

lemma configure_port_extends [step_extends]: "configure_port d args p st = Some (Inr st') \<Longrightarrow> extends st st'"
  by (auto simp: configure_port_def Let_def extends_def split: option.splits if_splits)

lemma alloc_tx_buffer_extends [step_extends]: "alloc_tx_buffer d p l st = Some (Inr st') \<Longrightarrow> extends st st'"
  by (auto simp: alloc_tx_buffer_def split: if_splits)

lemma setup_tx_queue_adds:
  "setup_tx_queue d args p x st = Some (Inr st') \<Longrightarrow> extends st st' \<and> (p, fst x) \<in> set (tx_rings st')"
  by (auto simp: setup_tx_queue_def Let_def extends_def split: prod.splits if_splits)

lemma setup_rx_queue_adds:
  "setup_rx_queue d args p x st = Some (Inr st') \<Longrightarrow> extends st st' \<and> (p, x, queue_pool d args x) \<in> set (rx_rings st')"
  by (auto simp: setup_rx_queue_def extends_def split: if_splits)

lemma start_port_adds:
  "start_port d args p st = Some (Inr st') \<Longrightarrow> extends st st' \<and> (enabled_port_mask args AND 2 ^ p \<noteq> 0 \<longrightarrow> p \<in> set (started st'))"
  by (auto simp: start_port_def if_port_enabled_Inr Let_def extends_def split: if_splits)

lemma alloc_sketch_adds:
  "alloc_sketch d args l st = Some (Inr st') \<Longrightarrow> extends st st' \<and> l \<in> set (sketches st')"
  by (auto simp: alloc_sketch_def extends_def split: if_splits)

lemma send_clear_packet_extends [step_extends]: "send_clear_packet d p i st = Some (Inr st') \<Longrightarrow> extends st st'"
  by (auto simp: send_clear_packet_def extends_def bind_eq_Some_conv split: option.splits if_splits)

text \<open>A port that was set up has a ring for every lcore and every queue.\<close>

definition port_ready :: "dpdk \<Rightarrow> nf_args \<Rightarrow> nat \<Rightarrow> startup \<Rightarrow> bool" where
  "port_ready d args p st \<longleftrightarrow> (\<forall>x < queues args. (p, x, queue_pool d args x) \<in> set (rx_rings st)) \<and>
     (\<forall>i < length (lcores d). (p, i) \<in> set (tx_rings st))"

lemma setup_port_adds:
  assumes "setup_port d args p st = Some (Inr st')"
  shows "extends st st' \<and> (enabled_port_mask args AND 2 ^ p \<noteq> 0 \<longrightarrow> port_ready d args p st')"
proof (cases "enabled_port_mask args AND 2 ^ p = 0")
  case True
  then show ?thesis using assms by (simp add: setup_port_def if_port_enabled_Inr)
next
  case False
  obtain st1 st2 st3 where s: "configure_port d args p st = Some (Inr st1)" "for_each (alloc_tx_buffer d p) (lcores d) st1 = Some (Inr st2)"
    "for_each (setup_tx_queue d args p) (List.enumerate 0 (lcores d)) st2 = Some (Inr st3)"
    "for_each (setup_rx_queue d args p) [0..<queues args] st3 = Some (Inr st')"
    using assms False by (auto simp: setup_port_def if_port_enabled_Inr andthen_Inr split: if_splits)
  have e: "extends st st1" "extends st1 st2" "extends st2 st3" "extends st3 st'"
    using configure_port_extends [OF s(1)] for_each_extends [OF s(2) alloc_tx_buffer_extends]
      for_each_extends [OF s(3) conjunct1 [OF setup_tx_queue_adds]] for_each_extends [OF s(4) conjunct1 [OF setup_rx_queue_adds]] by simp_all
  have t: "\<forall>x \<in> set (List.enumerate 0 (lcores d)). (p, fst x) \<in> set (tx_rings st3)"
    by (rule for_each_adds [OF s(3)]) (use setup_tx_queue_adds in \<open>blast, auto simp: extends_def\<close>)
  have "(p, i) \<in> set (tx_rings st')" if "i < length (lcores d)" for i
  proof -
    have "(i, lcores d ! i) \<in> set (List.enumerate 0 (lcores d))" using that by (simp add: in_set_enumerate_eq)
    then have "(p, i) \<in> set (tx_rings st3)" using t by fastforce
    then show ?thesis using e(4) by (auto simp: extends_def)
  qed
  moreover have "\<forall>x \<in> set [0..<queues args]. (p, x, queue_pool d args x) \<in> set (rx_rings st')"
    by (rule for_each_adds [OF s(4)]) (use setup_rx_queue_adds in \<open>blast, auto simp: extends_def\<close>)
  ultimately have "port_ready d args p st'" by (simp add: port_ready_def)
  then show ?thesis using e extends_trans by blast
qed

lemma port_ready_extends: "port_ready d args p st \<Longrightarrow> extends st st' \<Longrightarrow> port_ready d args p st'"
  by (auto simp: port_ready_def extends_def)

subsection \<open>Properties\<close>

text \<open>In round \<open>k\<close> every enabled device reports its link up.\<close>

definition all_links_up :: "dpdk \<Rightarrow> nat \<Rightarrow> nat \<Rightarrow> bool" where
  "all_links_up d port_mask k \<longleftrightarrow> (\<forall>p \<in> set (devs d). port_mask AND 2 ^ p \<noteq> 0 \<longrightarrow> link_get_nowait d k p = Some True)"

text \<open>C39. The check of the links always ends, after at most 91 rounds and 9 seconds of delays: one round after the first in which
  every enabled device reports its link up, else after the last round; in both cases the program goes on.\<close>

theorem link_check_ends:
  "(\<exists>k < 90. all_links_up d port_mask k \<and> (\<forall>i < k. \<not> all_links_up d port_mask i) \<and>
      check_all_ports_link_status d port_mask = (k + 2, k)) \<or>
   (\<forall>i < 90. \<not> all_links_up d port_mask i) \<and> check_all_ports_link_status d port_mask = (91, 90)"
proof -
  have u: "links_up (link_get_nowait d k) port_mask False (devs d) True \<longleftrightarrow> all_links_up d port_mask k" for k
    by (simp add: links_up_all all_links_up_def)
  show ?thesis
  proof (cases "\<exists>k < 90. all_links_up d port_mask k")
    case True
    then obtain k where k: "k < 90" "all_links_up d port_mask k" "\<forall>i < k. \<not> (i < 90 \<and> all_links_up d port_mask i)"
      using exists_least_iff [of "\<lambda>k. k < 90 \<and> all_links_up d port_mask k"] by blast
    have "check_all_ports_link_status d port_mask = (k + 2, 0 + (k - 0))" unfolding check_all_ports_link_status_def
      by (rule link_rounds_up) (use k in \<open>auto simp: u\<close>)
    then show ?thesis using k by (intro disjI1 exI [of _ k]) auto
  next
    case False
    have "check_all_ports_link_status d port_mask = (91, 0 + (90 - 0))" unfolding check_all_ports_link_status_def
      by (rule link_rounds_down) (use False in \<open>auto simp: u\<close>)
    then show ?thesis using False by auto
  qed
qed

text \<open>A machine with one lcore and one device, in which everything succeeds.\<close>

definition demo_dpdk :: dpdk where
  "demo_dpdk = \<lparr>max_lcore = 128, lcore_is_enabled = (\<lambda>l. l = 0), lcore_to_socket_id = (\<lambda>l. 0), get_main_lcore = 0, devs = [0],
     pktmbuf_pool_create = (\<lambda>i n. True), dev_reta_size = (\<lambda>p. Some 128), dev_configure = (\<lambda>p r t. 0), qdma_reg_read_usr = (\<lambda>p. 0x940907F),
     rss_reta_update = (\<lambda>p. 0), rss_reta_query = (\<lambda>p. 1), adjust_nb_rx_tx_desc = (\<lambda>p r t. Some (r, t)), macaddr_get = (\<lambda>p. Some [0, 1, 2, 3, 4, 5]),
     tx_buffer_zmalloc = (\<lambda>l p. True),
     tx_queue_setup = (\<lambda>c p q n s. case c of None \<Rightarrow> - 22 | Some (r, t) \<Rightarrow> if q < t then 0 else - 22),
     qdma_get_queue_base = (\<lambda>p. 0), qdma_set_queue_mode = (\<lambda>p q. 0), rx_queue_setup = (\<lambda>c p q n. 0), dev_start = (\<lambda>p. 0),
     promiscuous_enable = (\<lambda>p. 0), zmalloc_sketch = (\<lambda>l. True), link_get_nowait = (\<lambda>k p. Some (3 \<le> k)), log2_u32 = (\<lambda>n. 1),
     clear_mbuf = (\<lambda>p i. True), clear_area = (\<lambda>p i. Some (replicate PKT_SIZE 0)), ipv4_cksum = (\<lambda>h. 0), tx_burst_one = (\<lambda>p i. 1)\<rparr>"

lemma demo_lcores: "lcores demo_dpdk = [0]"
  by (simp add: lcores_def demo_dpdk_def upt_rec)

theorem link_check_ends_witness:
  "check_all_ports_link_status demo_dpdk 1 = (5, 3)"
proof -
  have u: "all_links_up demo_dpdk 1 k \<longleftrightarrow> 3 \<le> k" for k by (simp add: all_links_up_def demo_dpdk_def)
  show ?thesis using link_check_ends [of demo_dpdk 1]
  proof (elim disjE exE conjE)
    fix k assume k: "all_links_up demo_dpdk 1 k" "\<forall>i < k. \<not> all_links_up demo_dpdk 1 i"
      "check_all_ports_link_status demo_dpdk 1 = (k + 2, k)"
    have "3 \<le> k" using k(1) unfolding u .
    moreover have "\<not> 3 < k" using k(2) [rule_format, of 3] unfolding u by blast
    ultimately have "k = 3" by simp
    then show ?thesis using k(3) by simp
  next
    assume "\<forall>i < 90. \<not> all_links_up demo_dpdk 1 i"
    then have "\<not> all_links_up demo_dpdk 1 3" by simp
    then show ?thesis unfolding u by simp
  qed
qed

text \<open>Sizes of the pools. The pool of an lcore in mode Partitioned holds the buffers of the rings of its queues on one port, a burst for each,
  its TX ring and the cache; the one pool of the other modes those of all queues of one port. It is not sized for
  several ports: with the default rings, from four queues on it has fewer buffers than the RX rings of three ports.\<close>

theorem pool_sizes:
  assumes "n < 65536" "0 < k" "k \<le> 128" "r \<le> 32768" "t < 65536" "pos < k" "q \<le> 2048"
  shows "(slice_end n pos k - slice_start n pos k) * (r + MAX_PKT_BURST) + t + MEMPOOL_CACHE_SIZE \<le> lcore_nb_mbufs n k r t \<and>
    q * (r + t + MAX_PKT_BURST + k * MEMPOOL_CACHE_SIZE) \<le> shared_nb_mbufs q k r t \<and>
    (4 \<le> q \<longrightarrow> shared_nb_mbufs q 1 1024 1024 < 3 * (q * 1024))"
proof -
  have "k * 256 \<le> 32768" using assms(3) by simp
  then have "r + t + 32 + k * 256 \<le> 131104" using assms(4,5) by linarith
  then have "q * (r + t + 32 + k * 256) \<le> 2048 * 131104" using assms(7) by (rule mult_le_mono [rotated])
  then have "q * (r + t + MAX_PKT_BURST + k * MEMPOOL_CACHE_SIZE) \<le> shared_nb_mbufs q k r t"
    by (simp add: shared_nb_mbufs_def MEMPOOL_CACHE_SIZE_def)
  moreover have "shared_nb_mbufs q 1 1024 1024 < 3 * (q * 1024)" if "4 \<le> q"
    using that assms(7) by (simp add: shared_nb_mbufs_def MEMPOOL_CACHE_SIZE_def)
  ultimately show ?thesis using lcore_nb_mbufs_covers [OF assms(1-6)] by blast
qed

theorem pool_sizes_witness:
  "(slice_end 100 1 3 - slice_start 100 1 3) * (1024 + MAX_PKT_BURST) + 1024 + MEMPOOL_CACHE_SIZE \<le> lcore_nb_mbufs 100 3 1024 1024 \<and>
    shared_nb_mbufs 100 1 1024 1024 < 3 * (100 * 1024)"
  using pool_sizes [of 100 3 1024 1024 1 100] by simp

end
