(* ===== verification/Startup.thy ===== *)
theory Startup
  imports Port_Setup Nat_Main
begin

section \<open>Start-up of nf-chain\<close>

text \<open>
  \<^verbatim>\<open>main\<close> of \<^verbatim>\<open>nf-chain/src/main.c\<close>, from the command line to the launch of the polling loops, composed of the models of
  its parts, and the head of \<open>poll_loop\<close>, which derives what an lcore polls. What comes from outside is the record \<open>world\<close>.
  The result is \<open>Inl\<close> with the message where the program ends before the loops; \<open>None\<close> is undefined behaviour.
\<close>

subsection \<open>The code\<close>

record 'c world =
  eal_ok :: bool
  dev :: dpdk
  strsplit :: "string \<Rightarrow> nat \<Rightarrow> char \<Rightarrow> string list"
  etheraddr :: "string \<Rightarrow> bytes option"
  acl_of :: "'c acl_lib"
  rules4 :: rule_source
  rules6 :: rule_source
  rte_ipv4_of :: "nat \<Rightarrow> nat \<Rightarrow> nat \<Rightarrow> nat \<Rightarrow> nat"
  acl_max_priority :: nat
  nat_env :: nf_env
  nat_before :: nf_globals

record 'c ready =
  r_args :: nf_args
  r_confs :: "lcore_conf list"
  r_acl :: "'c acl_config"
  r_nat :: nf_globals
  r_dev :: startup
  r_links :: "nat \<times> nat"

definition initial_confs :: "nat \<Rightarrow> lcore_conf list" where
  "initial_confs n = replicate n \<lparr>n_rx_queue = 0, rx_queue_list = replicate Lcore_Config.MAX_RX_QUEUE_PER_LCORE (0, 0)\<rparr>"

text \<open>From the pools to the started ports and the sketches.\<close>

definition start_devices :: "dpdk \<Rightarrow> nf_args \<Rightarrow> (string + startup) option" where
  "start_devices d args =
     andthen (create_pools d args (initial_startup (nb_rxd args))) (\<lambda>st.
     andthen (for_each (setup_port d args) (devs d) st) (\<lambda>st.
     andthen (for_each (start_port d args) (devs d) st) (\<lambda>st.
     for_each (alloc_sketch d args) (lcores d) st)))"

definition nat_shards_for :: "nf_args \<Rightarrow> nat \<Rightarrow> nat" where
  "nat_shards_for args nb_lcores =
     (if o_mode (qflow args) = QFLOW_PARTITIONED then nb_lcores mod 2 ^ 16
      else if o_mode (qflow args) = QFLOW_SHARED then queues args
      else 1)"

definition nf_main :: "'c world \<Rightarrow> cmd_option list \<Rightarrow> (string + 'c ready) option" where
  "nf_main w opts =
     (let d = dev w; nb_lcores = length (lcores d)
      in if \<not> eal_ok w then Some (Inl ''Invalid EAL parameters'')
         else Option.bind (parse_args (strsplit w) 32 (etheraddr w) opts (initial_args 32)) (\<lambda>(ret, args).
         if ret < 0 then Some (Inl ''Invalid L3FWD parameters'')
         else if qflow_check (qflow args) (queues args) nb_lcores < 0 then Some (Inl ''Invalid policy configuration'')
         else if check_lcore_params (lcore_is_enabled d) (lcore_params_array args) < 0 then Some (Inl ''check_lcore_params failed'')
         else Option.bind (init_lcore_rx_queues (lcore_params_array args) (initial_confs (max_lcore d))) (\<lambda>(ret, confs).
         if ret < 0 then Some (Inl ''init_lcore_rx_queues failed'')
         else Option.bind (check_port_config (enabled_port_mask args) (\<lambda>p. p \<in> set (devs d)) (lcore_params_array args)) (\<lambda>ret.
         if ret < 0 then Some (Inl ''check_port_config failed'')
         else andthen (app_acl_init (acl_of w) (rules4 w) (rules6 w) (parse_cb_ipv4vlan_rule (rte_ipv4_of w)) parse_cb_ipv6_rule
           (acl_max_priority w) (lcore_to_socket_id d) (lcores d) args) (\<lambda>(ret, acl).
         if ret < 0 then Some (Inl ''app_acl_init failed'')
         else Option.bind (nf_init (nat_env w) (nat_shards_for args nb_lcores) (o_mode (qflow args) = QFLOW_SHARED)
           (o_mode (qflow args) \<noteq> QFLOW_SINGLE) (nat_before w)) (\<lambda>(ok, nat).
         if \<not> ok then Some (Inl ''Error initializing NF'')
         else andthen (start_devices d args) (\<lambda>st.
         let links = check_all_ports_link_status d (enabled_port_mask args)
         in andthen (send_clear_packets d args st) (\<lambda>st.
         Some (Inr \<lparr>r_args = args, r_confs = confs, r_acl = acl, r_nat = nat, r_dev = st, r_links = links\<rparr>)))))))))"

text \<open>The head of \<open>poll_loop\<close>: the port of an lcore in the multicore modes is that of its first configured queue, else the
  first enabled one.\<close>

fun scan_ports :: "nat \<Rightarrow> nat list \<Rightarrow> nat \<Rightarrow> nat" where
  "scan_ports enabled_mask [] rx_portid = rx_portid"
| "scan_ports enabled_mask (portid # ps) rx_portid =
     (if 32 \<le> rx_portid then scan_ports enabled_mask ps (if enabled_mask AND 2 ^ portid \<noteq> 0 then portid else rx_portid)
      else rx_portid)"

definition rx_port :: "nf_args \<Rightarrow> lcore_conf \<Rightarrow> nat" where
  "rx_port args conf =
     scan_ports (enabled_port_mask args) [0..<32] (if 0 < n_rx_queue conf then fst (rx_queue_list conf ! 0) else 32)"

text \<open>\<open>None\<close> where the loop returns -1 for want of an enabled port.\<close>

definition loop_config :: "nf_args \<Rightarrow> lcore_conf \<Rightarrow> nat \<Rightarrow> nat \<Rightarrow> poll_cfg option" where
  "loop_config args conf lcore_pos total_lcores =
     (if o_mode (qflow args) = QFLOW_SINGLE
      then Some (poll_config (qflow args) (queues args) lcore_pos total_lcores (\<lambda>i. fst (rx_queue_list conf ! nat i)))
      else let p = rx_port args conf
        in if 32 \<le> p then None else Some (poll_config (qflow args) (queues args) lcore_pos total_lcores (\<lambda>i. p)))"

subsection \<open>What the checks ensure\<close>

lemma check_lcore_params_nonneg: "check_lcore_params en ps \<ge> 0 \<Longrightarrow> check_lcore_params en ps = 0"
  by (induction ps) (auto split: if_splits)

lemma check_port_config_ok:
  "check_port_config m is_valid ps = Some r \<Longrightarrow> 0 \<le> r \<Longrightarrow> p \<in> set ps \<Longrightarrow> port_id p < 32 \<and> m AND 2 ^ port_id p \<noteq> 0 \<and> is_valid (port_id p)"
  by (induction ps) (auto split: if_splits)

lemma init_lcore_rx_queues_result:
  "init_lcore_rx_queues ps confs = Some (r, confs') \<Longrightarrow> 0 \<le> r \<Longrightarrow> r = 0 \<and> (\<forall>p \<in> set ps. lcore_id p < length confs)"
proof (induction ps arbitrary: confs)
  case (Cons p ps)
  then obtain c qs where c: "arr_get confs (int (lcore_id p)) = Some c"
    "init_lcore_rx_queues ps (confs[lcore_id p := c\<lparr>rx_queue_list := qs, n_rx_queue := (n_rx_queue c + 1) mod 2 ^ 16\<rparr>]) = Some (r, confs')"
    by (auto simp: Let_def bind_eq_Some_conv split: if_splits)
  then show ?case using Cons.IH [OF c(2) Cons.prems(2)] by (simp add: arr_get_Some)
qed simp

text \<open>Every entry of a queue list is configured or still zero.\<close>

lemma init_lcore_rx_queues_entries:
  "init_lcore_rx_queues ps confs = Some (0, confs') \<Longrightarrow>
   \<forall>c \<in> set confs. \<forall>x \<in> set (rx_queue_list c). x = (0, 0) \<or> (\<exists>p \<in> P. fst x = port_id p) \<Longrightarrow> set ps \<subseteq> P \<Longrightarrow>
   \<forall>c \<in> set confs'. \<forall>x \<in> set (rx_queue_list c). x = (0, 0) \<or> (\<exists>p \<in> P. fst x = port_id p)"
proof (induction ps arbitrary: confs)
  case (Cons p ps)
  obtain c qs where c: "arr_get confs (int (lcore_id p)) = Some c" "arr_set (rx_queue_list c) (int (n_rx_queue c)) (port_id p, queue_id p) = Some qs"
    "init_lcore_rx_queues ps (confs[lcore_id p := c\<lparr>rx_queue_list := qs, n_rx_queue := (n_rx_queue c + 1) mod 2 ^ 16\<rparr>]) = Some (0, confs')"
    using Cons.prems(1) by (auto simp: Let_def bind_eq_Some_conv split: if_splits)
  have cin: "c \<in> set confs" using c(1) by (auto simp: arr_get_Some)
  have "set qs \<subseteq> insert (port_id p, queue_id p) (set (rx_queue_list c))"
    using c(2) set_update_subset_insert [of "rx_queue_list c" "n_rx_queue c"] by (auto simp: arr_set_def split: if_splits)
  moreover have "\<forall>x \<in> set (rx_queue_list c). x = (0, 0) \<or> (\<exists>p \<in> P. fst x = port_id p)" using Cons.prems(2) cin by blast
  moreover have "p \<in> P" using Cons.prems(3) by simp
  ultimately have new: "\<forall>x \<in> set qs. x = (0, 0) \<or> (\<exists>p \<in> P. fst x = port_id p)" by (metis fst_conv insertE subsetD)
  have "\<forall>c' \<in> set (confs[lcore_id p := c\<lparr>rx_queue_list := qs, n_rx_queue := (n_rx_queue c + 1) mod 2 ^ 16\<rparr>]).
      \<forall>x \<in> set (rx_queue_list c'). x = (0, 0) \<or> (\<exists>p \<in> P. fst x = port_id p)"
  proof (rule ballI)
    fix c'
    assume "c' \<in> set (confs[lcore_id p := c\<lparr>rx_queue_list := qs, n_rx_queue := (n_rx_queue c + 1) mod 2 ^ 16\<rparr>])"
    then have "c' = c\<lparr>rx_queue_list := qs, n_rx_queue := (n_rx_queue c + 1) mod 2 ^ 16\<rparr> \<or> c' \<in> set confs"
      using set_update_subset_insert by fast
    then show "\<forall>x \<in> set (rx_queue_list c'). x = (0, 0) \<or> (\<exists>p \<in> P. fst x = port_id p)"
      using Cons.prems(2) new by (elim disjE) simp_all
  qed
  then show ?case using Cons.IH [OF c(3)] Cons.prems(3) by simp
qed simp

lemma scan_ports_done [simp]: "r < 32 \<Longrightarrow> scan_ports m ps r = r"
  by (cases ps) simp_all

lemma scan_ports_spec:
  "\<forall>q \<in> set ps. q < 32 \<Longrightarrow> 32 \<le> r \<Longrightarrow> \<exists>p \<in> set ps. m AND 2 ^ p \<noteq> 0 \<Longrightarrow>
   scan_ports m ps r \<in> set ps \<and> m AND 2 ^ scan_ports m ps r \<noteq> 0"
  by (induction ps) auto

lemma some_port_enabled: "0 < m \<Longrightarrow> m < 2 ^ 32 \<Longrightarrow> \<exists>p \<in> set [0..<32]. (m :: nat) AND 2 ^ p \<noteq> 0"
proof (rule ccontr)
  assume m: "0 < m" "m < 2 ^ 32" and "\<not> (\<exists>p \<in> set [0..<32]. m AND 2 ^ p \<noteq> 0)"
  then have "\<not> bit m p" if "p < 32" for p using that by (auto simp: and_exp_eq_0_iff_not_bit)
  moreover have "\<not> bit m p" if "32 \<le> p" for p
  proof -
    have "m < 2 ^ p" using m(2) that by (meson less_le_trans one_le_numeral power_increasing)
    then show ?thesis by (simp add: bit_iff_odd)
  qed
  ultimately have "m = 0" by (metis bit_eqI bit_0_eq bot_apply bot_bool_def not_le)
  then show False using m(1) by simp
qed

subsection \<open>What a start-up leaves\<close>

lemma nf_init_shards_some:
  "nf_init_shards env nb shr b r k s g = Some (True, g') \<Longrightarrow> length (nat_shards g) = nb \<Longrightarrow> \<forall>j < k. nat_shards g ! j \<noteq> None \<Longrightarrow>
   nat_shard_count g' = nat_shard_count g \<and> (\<forall>j < nb. nat_shards g' ! j \<noteq> None)"
proof (induction env nb shr b r k s g rule: nf_init_shards.induct)
  case (1 env nb shr b r k s g)
  show ?case
  proof (cases "k < nb")
    case False
    then show ?thesis using 1 by (simp add: nf_init_shards.simps [of env nb])
  next
    case True
    let ?sf = "u32 (b + (if k < r then 1 else 0))"
    obtain mg where mg: "flow_manager_allocate (shard_heap env k) (got_manager env k) (s mod 2 ^ 16) (external_addr (config g))
        (wan_device (config g)) (cfg_expiration_time (config g)) ?sf shr = Some (Some mg)"
      "nf_init_shards env nb shr b r (Suc k) (u32 (s + ?sf)) (g\<lparr>nat_shards := (nat_shards g)[k := Some mg]\<rparr>) = Some (True, g')"
      using 1(2) True by (auto simp: nf_init_shards.simps [of env nb] Let_def bind_eq_Some_conv split: option.splits)
    have "\<forall>j < Suc k. (nat_shards g)[k := Some mg] ! j \<noteq> None" using 1(3,4) True by (auto simp: less_Suc_eq)
    then show ?thesis using 1(1) [OF True refl refl mg(1) _ _ mg(2)] 1(3) by simp
  qed
qed

lemma nf_init_some:
  assumes "nf_init env nb shr dropf g = Some (True, g')"
  shows "\<forall>j < nb. nf_shard g' j \<noteq> None"
proof -
  have "\<exists>b r s c. nf_init_shards env nb shr b r 0 s
      (g\<lparr>config := c, nat_shards := replicate nb None, nat_shard_count := nb, drop_when_full := dropf\<rparr>) = Some (True, g')"
    using assms by (auto simp: nf_init_def Let_def split: if_splits)
  then obtain b r s c where "nf_init_shards env nb shr b r 0 s
      (g\<lparr>config := c, nat_shards := replicate nb None, nat_shard_count := nb, drop_when_full := dropf\<rparr>) = Some (True, g')" by blast
  from nf_init_shards_some [OF this] show ?thesis by (simp add: nf_shard_def)
qed

lemma create_pools_adds:
  assumes "create_pools d args st = Some (Inr st')"
  shows "\<forall>i \<in> (if o_mode (qflow args) = QFLOW_PARTITIONED then set (lcores d) else {0}). pktmbuf_pool st' i \<noteq> None"
proof (cases "o_mode (qflow args) = QFLOW_PARTITIONED")
  case True
  then have run: "for_each (create_pool d ''Cannot init mbuf pool for lcore''
      (lcore_nb_mbufs (queues args) (length (lcores d)) (rxd st) (txd st))) (lcores d) st = Some (Inr st')"
    using assms by (simp add: create_pools_def Let_def)
  have "\<forall>i \<in> set (lcores d). pktmbuf_pool st' i \<noteq> None"
    by (rule for_each_adds [OF run]) (use create_pool_adds in \<open>blast, auto simp: extends_def\<close>)
  then show ?thesis using True by simp
next
  case False
  then show ?thesis using assms create_pool_adds by (auto simp: create_pools_def Let_def)
qed

definition devices_ready :: "dpdk \<Rightarrow> nf_args \<Rightarrow> startup \<Rightarrow> bool" where
  "devices_ready d args st \<longleftrightarrow>
     (\<forall>p \<in> set (devs d). enabled_port_mask args AND 2 ^ p \<noteq> 0 \<longrightarrow> port_ready d args p st \<and> p \<in> set (started st)) \<and>
     (\<forall>l \<in> set (lcores d). l \<in> set (sketches st)) \<and>
     (\<forall>i \<in> (if o_mode (qflow args) = QFLOW_PARTITIONED then set (lcores d) else {0}). pktmbuf_pool st i \<noteq> None)"

lemma devices_ready_extends: "devices_ready d args st \<Longrightarrow> extends st st' \<Longrightarrow> devices_ready d args st'"
  unfolding devices_ready_def using port_ready_extends by (fastforce simp: extends_def)

lemma start_devices_ready:
  assumes "start_devices d args = Some (Inr st)"
  shows "devices_ready d args st"
proof -
  obtain s1 s2 s3 where s: "create_pools d args (initial_startup (nb_rxd args)) = Some (Inr s1)"
    "for_each (setup_port d args) (devs d) s1 = Some (Inr s2)" "for_each (start_port d args) (devs d) s2 = Some (Inr s3)"
    "for_each (alloc_sketch d args) (lcores d) s3 = Some (Inr st)"
    using assms by (auto simp: start_devices_def andthen_Inr)
  have e: "extends s1 s2" "extends s2 s3" "extends s3 st"
    using for_each_extends [OF s(2) conjunct1 [OF setup_port_adds]] for_each_extends [OF s(3) conjunct1 [OF start_port_adds]]
      for_each_extends [OF s(4) conjunct1 [OF alloc_sketch_adds]] by simp_all
  have p: "\<forall>i \<in> (if o_mode (qflow args) = QFLOW_PARTITIONED then set (lcores d) else {0}). pktmbuf_pool st i \<noteq> None"
    using create_pools_adds [OF s(1)] extends_trans [OF extends_trans [OF e(1,2)] e(3)] by (auto simp: extends_def)
  have r: "\<forall>p \<in> set (devs d). enabled_port_mask args AND 2 ^ p \<noteq> 0 \<longrightarrow> port_ready d args p s2"
    by (rule for_each_adds [OF s(2)]) (use setup_port_adds port_ready_extends in blast)+
  have t: "\<forall>p \<in> set (devs d). enabled_port_mask args AND 2 ^ p \<noteq> 0 \<longrightarrow> p \<in> set (started s3)"
    by (rule for_each_adds [OF s(3)]) (use start_port_adds in \<open>blast, auto simp: extends_def\<close>)
  have k: "\<forall>l \<in> set (lcores d). l \<in> set (sketches st)"
    by (rule for_each_adds [OF s(4)]) (use alloc_sketch_adds in \<open>blast, auto simp: extends_def\<close>)
  show ?thesis unfolding devices_ready_def
    using p k r t port_ready_extends [OF _ extends_trans [OF e(2,3)]] e(3) by (auto simp: extends_def)
qed

lemma send_clear_packets_extends: "send_clear_packets d args st = Some (Inr st') \<Longrightarrow> extends st st'"
  unfolding send_clear_packets_def
  by (rule for_each_extends, assumption, rule for_each_extends, assumption, rule send_clear_packet_extends)

lemma nf_main_cases:
  assumes "nf_main w opts = Some (Inr r)" "d = dev w" "a = r_args r"
  obtains st where "parse_args (strsplit w) 32 (etheraddr w) opts (initial_args 32) = Some (0, a)"
    "0 \<le> qflow_check (qflow a) (queues a) (length (lcores d))"
    "init_lcore_rx_queues (lcore_params_array a) (initial_confs (max_lcore d)) = Some (0, r_confs r)"
    "\<exists>k \<ge> 0. check_port_config (enabled_port_mask a) (\<lambda>p. p \<in> set (devs d)) (lcore_params_array a) = Some k"
    "nf_init (nat_env w) (nat_shards_for a (length (lcores d))) (o_mode (qflow a) = QFLOW_SHARED) (o_mode (qflow a) \<noteq> QFLOW_SINGLE) (nat_before w) =
      Some (True, r_nat r)"
    "start_devices d a = Some (Inr st)" "send_clear_packets d a st = Some (Inr (r_dev r))"
proof -
  obtain ret args where p: "parse_args (strsplit w) 32 (etheraddr w) opts (initial_args 32) = Some (ret, args)" "0 \<le> ret"
    using assms(1) by (auto simp: nf_main_def Let_def bind_eq_Some_conv split: if_splits)
  have "args_ok 32 (initial_args 32)" by (rule initial_args_ok)
  from parse_args_ok [OF this, of "strsplit w" "etheraddr w" opts] have ret: "ret = 0" using p by auto
  obtain ret2 confs where c: "init_lcore_rx_queues (lcore_params_array args) (initial_confs (max_lcore d)) = Some (ret2, confs)" "0 \<le> ret2"
    using assms(1,2) p by (auto simp: nf_main_def Let_def bind_eq_Some_conv split: if_splits)
  have ret2: "ret2 = 0" using init_lcore_rx_queues_result [OF c] by simp
  obtain k acl g st st' where k: "0 \<le> qflow_check (qflow args) (queues args) (length (lcores d))"
    "check_port_config (enabled_port_mask args) (\<lambda>p. p \<in> set (devs d)) (lcore_params_array args) = Some k" "0 \<le> k"
    "nf_init (nat_env w) (nat_shards_for args (length (lcores d))) (o_mode (qflow args) = QFLOW_SHARED) (o_mode (qflow args) \<noteq> QFLOW_SINGLE)
      (nat_before w) = Some (True, g)"
    "start_devices d args = Some (Inr st)" "send_clear_packets d args st = Some (Inr st')"
    "r = \<lparr>r_args = args, r_confs = confs, r_acl = acl, r_nat = g, r_dev = st',
      r_links = check_all_ports_link_status d (enabled_port_mask args)\<rparr>"
    using assms(1,2) p c by (auto simp: nf_main_def Let_def bind_eq_Some_conv andthen_Inr split: if_splits)
  have a: "a = args" using assms(3) k(7) by simp
  show thesis by (rule that [of st]) (use p c ret ret2 a k in auto)
qed

lemma initial_confs_hold: "confs_hold [] (initial_confs n)"
  by (simp add: confs_hold_def initial_confs_def queues_of_def)

lemma queue_list_ports:
  assumes run: "init_lcore_rx_queues ps (initial_confs n) = Some (0, confs)" and ok: "params_ok ps" and l: "l < n"
  shows "length (rx_queue_list (confs ! l)) = 2048" "x \<in> set (rx_queue_list (confs ! l)) \<Longrightarrow> x = (0, 0) \<or> (\<exists>p \<in> set ps. fst x = port_id p)"
    "0 < n_rx_queue (confs ! l) \<Longrightarrow> \<exists>p \<in> set ps. fst (rx_queue_list (confs ! l) ! 0) = port_id p"
proof -
  have len: "length (initial_confs n) = n" by (simp add: initial_confs_def)
  have r: "\<forall>p \<in> set ps. lcore_id p < length (initial_confs n)" using init_lcore_rx_queues_result [OF run] by simp
  have h: "length confs = n" "confs_hold ps confs"
    using init_lcore_rx_queues_fills [OF initial_confs_hold, of ps n] ok r run len by (auto simp: params_ok_def)
  have cin: "confs ! l \<in> set confs" using l h(1) by simp
  show "length (rx_queue_list (confs ! l)) = 2048"
    using h l by (simp add: confs_hold_def Lcore_Config.MAX_RX_QUEUE_PER_LCORE_def)
  have "\<forall>c \<in> set confs. \<forall>x \<in> set (rx_queue_list c). x = (0, 0) \<or> (\<exists>p \<in> set ps. fst x = port_id p)"
    by (rule init_lcore_rx_queues_entries [OF run]) (auto simp: initial_confs_def)
  then show "x \<in> set (rx_queue_list (confs ! l)) \<Longrightarrow> x = (0, 0) \<or> (\<exists>p \<in> set ps. fst x = port_id p)" using cin by blast
  assume n: "0 < n_rx_queue (confs ! l)"
  have t: "take (n_rx_queue (confs ! l)) (rx_queue_list (confs ! l)) = queues_of l ps" "n_rx_queue (confs ! l) = length (queues_of l ps)"
    using h l by (auto simp: confs_hold_def)
  have "rx_queue_list (confs ! l) ! 0 = queues_of l ps ! 0" using n t(1) by (metis nth_take)
  moreover have "queues_of l ps ! 0 \<in> set (queues_of l ps)" using n t(2) by (intro nth_mem) simp
  ultimately show "\<exists>p \<in> set ps. fst (rx_queue_list (confs ! l) ! 0) = port_id p" by (auto simp: queues_of_def)
qed

lemma loop_config_ports:
  assumes run: "init_lcore_rx_queues (lcore_params_array a) (initial_confs n) = Some (0, confs)" and ok: "args_ok 32 a" and l: "l < n"
    and ports: "check_port_config (enabled_port_mask a) (\<lambda>p. p \<in> set (devs d)) (lcore_params_array a) = Some k" "0 \<le> k"
    and mask: "enabled_port_mask a \<noteq> 0" "\<forall>p < 32. enabled_port_mask a AND 2 ^ p \<noteq> 0 \<longrightarrow> p \<in> set (devs d)"
    and single: "o_mode (qflow a) = QFLOW_SINGLE \<Longrightarrow> enabled_port_mask a AND 2 ^ 0 \<noteq> 0 \<and> queues a \<le> 2048"
  shows "\<exists>pf. loop_config a (confs ! l) pos nb = Some (poll_config (qflow a) (queues a) pos nb pf) \<and>
    (\<forall>i. 0 \<le> i \<and> i < int (queues a) \<longrightarrow> enabled_port_mask a AND 2 ^ pf i \<noteq> 0 \<and> pf i \<in> set (devs d))"
proof -
  let ?good = "\<lambda>p. p < 32 \<and> enabled_port_mask a AND 2 ^ p \<noteq> 0 \<and> p \<in> set (devs d)"
  have pok: "params_ok (lcore_params_array a)" using ok by (simp add: args_ok_def)
  have cp: "?good (port_id p)" if "p \<in> set (lcore_params_array a)" for p using check_port_config_ok [OF ports that] by simp
  note q = queue_list_ports [OF run pok l]
  show ?thesis
  proof (cases "o_mode (qflow a) = QFLOW_SINGLE")
    case True
    let ?pf = "\<lambda>i. fst (rx_queue_list (confs ! l) ! nat i)"
    have "?good (?pf i)" if "0 \<le> i" "i < int (queues a)" for i
    proof -
      have "nat i < length (rx_queue_list (confs ! l))" using that single [OF True] q(1) by linarith
      then have "rx_queue_list (confs ! l) ! nat i \<in> set (rx_queue_list (confs ! l))" by (rule nth_mem)
      then consider "rx_queue_list (confs ! l) ! nat i = (0, 0)"
        | p where "p \<in> set (lcore_params_array a)" "?pf i = port_id p" using q(2) by blast
      then show ?thesis
      proof cases
        case 1
        have "0 \<in> set (devs d)" using single [OF True] mask(2) zero_less_numeral by blast
        then show ?thesis using 1 single [OF True] by simp
      next
        case 2
        then show ?thesis using cp [OF 2(1)] by simp
      qed
    qed
    then show ?thesis using True by (intro exI [of _ ?pf]) (simp add: loop_config_def)
  next
    case False
    let ?first = "if 0 < n_rx_queue (confs ! l) then fst (rx_queue_list (confs ! l) ! 0) else 32"
    have m: "0 < enabled_port_mask a" "enabled_port_mask a < 2 ^ 32" using mask(1) ok by (simp_all add: args_ok_def)
    have g: "?good (rx_port a (confs ! l))"
    proof (cases "0 < n_rx_queue (confs ! l)")
      case True
      then obtain p where p: "p \<in> set (lcore_params_array a)" "fst (rx_queue_list (confs ! l) ! 0) = port_id p" using q(3) by blast
      then show ?thesis using cp [OF p(1)] True by (simp add: rx_port_def)
    next
      case z: False
      have "scan_ports (enabled_port_mask a) [0..<32] 32 \<in> set [0..<32] \<and>
        enabled_port_mask a AND 2 ^ scan_ports (enabled_port_mask a) [0..<32] 32 \<noteq> 0"
        by (rule scan_ports_spec) (use some_port_enabled [OF m] in auto)
      then show ?thesis using z mask(2) by (simp add: rx_port_def)
    qed
    then show ?thesis using False by (intro exI [of _ "\<lambda>i. rx_port a (confs ! l)"]) (simp add: loop_config_def Let_def)
  qed
qed

text \<open>The queues of an lcore are its own.\<close>

lemma polled_queue:
  assumes "n * k < 4294967296" "0 < k" "pos < k"
    and i: "queue_start (poll_config opts n pos k pf) \<le> i" "i < queue_end (poll_config opts n pos k pf)"
  shows "0 \<le> i \<and> nat i < n \<and> (o_mode opts = QFLOW_PARTITIONED \<longrightarrow> get_lcore_for_queue (nat i) n k = Some pos)"
proof (cases "o_mode opts = QFLOW_PARTITIONED")
  case True
  then have s: "int (slice_start n pos k) \<le> i" "i < int (slice_end n pos k)" using i by (simp_all add: poll_config_def Let_def)
  then have i0: "0 \<le> i" by simp
  then have s': "slice_start n pos k \<le> nat i" "nat i < slice_end n pos k" using s by linarith+
  have f: "get_lcore_for_queue (nat i) n k = Some pos"
    using lcore_for_queue_finds [OF assms(1-3) s', of 0] by (simp add: get_lcore_for_queue_def)
  have "slice_end n pos k \<le> n"
  proof (cases "n = 0")
    case True
    then show ?thesis by (simp add: slice_end_def)
  next
    case False
    have "n * pos + n \<le> n * k" using assms(3) mult_le_mono2 [of "Suc pos" k n] by simp
    moreover have "pos + 1 \<le> n * k" using False assms(3) by (cases n) auto
    ultimately have "slice_end n pos k = (n * pos + n) div k" using assms(1) by (simp add: slice_end_def add.commute)
    also have "\<dots> \<le> n * k div k" using \<open>n * pos + n \<le> n * k\<close> by (rule div_le_mono)
    finally show ?thesis using assms(2) by simp
  qed
  then show ?thesis using i0 s' f by linarith
next
  case False
  then show ?thesis using i by (simp add: poll_config_def Let_def nat_less_iff)
qed

lemma for_each_ran:
  "for_each body xs s = Some (Inr t) \<Longrightarrow> x \<in> set xs \<Longrightarrow> \<exists>s s'. body x s = Some (Inr s')"
  by (induction xs arbitrary: s) (auto simp: andthen_Inr)

subsection \<open>Properties\<close>

text \<open>C15. A start-up serves the polling loops. When \<^verbatim>\<open>main\<close> reaches their launch, the enabled ports exist and, on a single core, port 0 is
  enabled, then every lcore has a loop to run, and every queue it polls has a ring on a started port, filled from
  a pool that exists and in mode Partitioned is its own; the ring it transmits on, its sketch and its flow tables exist as well.\<close>

theorem startup_serves_polling:
  assumes "nf_main w opts = Some (Inr r)" "d = dev w" "a = r_args r" "pos < length (lcores d)" "length (lcores d) \<le> 128"
    and "enabled_port_mask a \<noteq> 0" "\<forall>p < 32. enabled_port_mask a AND 2 ^ p \<noteq> 0 \<longrightarrow> p \<in> set (devs d)"
    and "o_mode (qflow a) = QFLOW_SINGLE \<Longrightarrow> enabled_port_mask a AND 2 ^ 0 \<noteq> 0 \<and> queues a \<le> 2048"
  shows "\<exists>cfg. loop_config a (r_confs r ! (lcores d ! pos)) pos (length (lcores d)) = Some cfg \<and>
    (\<forall>i. queue_start cfg \<le> i \<and> i < queue_end cfg \<longrightarrow>
      port_of cfg i \<in> set (started (r_dev r)) \<and>
      (\<exists>k. (port_of cfg i, nat i, k) \<in> set (rx_rings (r_dev r)) \<and> pktmbuf_pool (r_dev r) k \<noteq> None \<and>
         (mode cfg = QFLOW_PARTITIONED \<longrightarrow> k = lcores d ! pos)) \<and>
      (port_of cfg i, tx_queueid cfg) \<in> set (tx_rings (r_dev r)) \<and>
      nf_shard (r_nat r) (if mode cfg = QFLOW_PARTITIONED then pos else if mode cfg = QFLOW_SHARED then nat i else 0) \<noteq> None) \<and>
    lcores d ! pos \<in> set (sketches (r_dev r))"
proof -
  let ?L = "lcores d" and ?n = "length (lcores d)"
  obtain st where m: "parse_args (strsplit w) 32 (etheraddr w) opts (initial_args 32) = Some (0, a)"
    "0 \<le> qflow_check (qflow a) (queues a) ?n"
    "init_lcore_rx_queues (lcore_params_array a) (initial_confs (max_lcore d)) = Some (0, r_confs r)"
    "\<exists>k \<ge> 0. check_port_config (enabled_port_mask a) (\<lambda>p. p \<in> set (devs d)) (lcore_params_array a) = Some k"
    "nf_init (nat_env w) (nat_shards_for a ?n) (o_mode (qflow a) = QFLOW_SHARED) (o_mode (qflow a) \<noteq> QFLOW_SINGLE) (nat_before w) =
      Some (True, r_nat r)"
    "start_devices d a = Some (Inr st)" "send_clear_packets d a st = Some (Inr (r_dev r))"
    by (rule nf_main_cases [OF assms(1-3)])
  have ok: "args_ok 32 a" using parse_args_ok [OF initial_args_ok, of "strsplit w" 32 "etheraddr w" opts] m(1) by auto
  have l: "?L ! pos \<in> set ?L" using assms(4) by simp
  then have lm: "?L ! pos < max_lcore d" by (auto simp: lcores_def)
  obtain k where k: "0 \<le> k" "check_port_config (enabled_port_mask a) (\<lambda>p. p \<in> set (devs d)) (lcore_params_array a) = Some k" using m(4) by blast
  obtain pf where pf: "loop_config a (r_confs r ! (?L ! pos)) pos ?n = Some (poll_config (qflow a) (queues a) pos ?n pf)"
    "\<And>i. 0 \<le> i \<Longrightarrow> i < int (queues a) \<Longrightarrow> enabled_port_mask a AND 2 ^ pf i \<noteq> 0 \<and> pf i \<in> set (devs d)"
    using loop_config_ports [OF m(3) ok lm k(2,1) assms(6,7,8)] by blast
  let ?cfg = "poll_config (qflow a) (queues a) pos ?n pf"
  have rd: "devices_ready d a (r_dev r)"
    using devices_ready_extends [OF start_devices_ready [OF m(6)] send_clear_packets_extends [OF m(7)]] .
  have q: "queues a < 65536" using ok by (simp add: args_ok_def)
  have "queues a * ?n \<le> 65536 * 128" using q assms(5) by (intro mult_le_mono) simp_all
  then have qn: "queues a * ?n < 4294967296" by simp
  have n0: "0 < ?n" using assms(4) by linarith
  have shards: "nf_shard (r_nat r) j \<noteq> None" if "j < nat_shards_for a ?n" for j using nf_init_some [OF m(5)] that by blast
  have "port_of ?cfg i \<in> set (started (r_dev r)) \<and>
      (\<exists>k. (port_of ?cfg i, nat i, k) \<in> set (rx_rings (r_dev r)) \<and> pktmbuf_pool (r_dev r) k \<noteq> None \<and>
         (mode ?cfg = QFLOW_PARTITIONED \<longrightarrow> k = ?L ! pos)) \<and>
      (port_of ?cfg i, tx_queueid ?cfg) \<in> set (tx_rings (r_dev r)) \<and>
      nf_shard (r_nat r) (if mode ?cfg = QFLOW_PARTITIONED then pos else if mode ?cfg = QFLOW_SHARED then nat i else 0) \<noteq> None"
    if i: "queue_start ?cfg \<le> i" "i < queue_end ?cfg" for i
  proof -
    have own: "0 \<le> i" "nat i < queues a" "o_mode (qflow a) = QFLOW_PARTITIONED \<longrightarrow> get_lcore_for_queue (nat i) (queues a) ?n = Some pos"
      using polled_queue [OF qn n0 assms(4) i] by blast+
    have p: "enabled_port_mask a AND 2 ^ pf i \<noteq> 0" "pf i \<in> set (devs d)" using pf(2) [of i] own(1,2) by auto
    have pr: "port_ready d a (pf i) (r_dev r)" "pf i \<in> set (started (r_dev r))" using rd p unfolding devices_ready_def by blast+
    have ring: "(pf i, nat i, queue_pool d a (nat i)) \<in> set (rx_rings (r_dev r))" "(pf i, pos) \<in> set (tx_rings (r_dev r))"
      using pr(1) own(2) assms(4) unfolding port_ready_def by blast+
    have pool: "pktmbuf_pool (r_dev r) (queue_pool d a (nat i)) \<noteq> None" "o_mode (qflow a) = QFLOW_PARTITIONED \<longrightarrow> queue_pool d a (nat i) = ?L ! pos"
      using rd own(3) l by (auto simp: devices_ready_def queue_pool_def)
    have cfg: "port_of ?cfg = pf" "mode ?cfg = o_mode (qflow a)" "tx_queueid ?cfg = pos"
      using assms(4,5) by (simp_all add: poll_config_def Let_def)
    have "nf_shard (r_nat r) (if mode ?cfg = QFLOW_PARTITIONED then pos else if mode ?cfg = QFLOW_SHARED then nat i else 0) \<noteq> None"
      by (rule shards) (use own(2) assms(4,5) in \<open>simp add: cfg nat_shards_for_def\<close>)
    then show ?thesis using ring pool pr(2) cfg by auto
  qed
  moreover have "?L ! pos \<in> set (sketches (r_dev r))" using rd l by (simp add: devices_ready_def)
  ultimately show ?thesis using pf(1) by blast
qed

definition demo_text4 :: string where
  "demo_text4 = CHR ''R'' # ''10.0.0.0/8 0.0.0.0/0 0 : 65535 80 : 80 0x6/0xff 0 ''"

definition demo_text6 :: string where
  "demo_text6 = CHR ''R'' # ''2001:0db8:0000:0001:0000:0000:0000:0000/48 0000:0000:0000:0000:0000:0000:0000:0000/0 0 : 65535 80 : 80 0x6/0xff 0 ''"

definition demo_rules_of :: "string \<Rightarrow> rule_source" where
  "demo_rules_of t = \<lparr>file_text = Some t, seek_ok = True, acl_alloc_ok = True, route_alloc_ok = True\<rparr>"

definition demo_world :: "unit world" where
  "demo_world = \<lparr>eal_ok = True, dev = demo_dpdk, strsplit = (\<lambda>s n c. split_at [] c s), etheraddr = (\<lambda>s. None), acl_of = demo_lib,
     rules4 = demo_rules_of demo_text4, rules6 = demo_rules_of demo_text6, rte_ipv4_of = plain_ipv4, acl_max_priority = 100,
     nat_env = demo_env 1 False, nat_before = demo_globals\<rparr>"

definition demo_triple :: lcore_params where
  "demo_triple = \<lparr>port_id = 0, queue_id = 0, lcore_id = 0\<rparr>"

definition demo_options :: "cmd_option list" where
  "demo_options = [Short_option CHR ''p'' ''1'', Long_option ''rule_ipv4'' ''a'' None, Long_option ''rule_ipv6'' ''b'' None,
     Long_option ''config'' (config_text [demo_triple]) None]"

definition demo_settings :: nf_args where
  "demo_settings = (initial_args 32)\<lparr>enabled_port_mask := 1, rule_ipv4_name := Some ''a'', rule_ipv6_name := Some ''b'',
     lcore_params_array := [demo_triple]\<rparr>"

lemma demo_parse: "parse_args (\<lambda>s n c. split_at [] c s) 32 ea demo_options (initial_args 32) = Some (0, demo_settings)"
proof -
  have "params_ok [demo_triple]" by (simp add: params_ok_def demo_triple_def byte_triple_def MAX_LCORE_PARAMS_def)
  then have "parse_config (\<lambda>s n c. split_at [] c s) (config_text [demo_triple]) = (0, [demo_triple])"
    using parse_config_text [OF split_at_triples, of "[demo_triple]" "[]" "[]"] by (simp add: parse_config_def params_ok_def)
  moreover have "parse_portmask ''1'' = 1" by (simp add: parse_portmask_def strtoul_def strtoul_base_def isspace_def digit_value_def digits_def)
  ultimately show ?thesis
    by (simp add: demo_options_def demo_settings_def nf_option_def qflow_parse_long_opt_def long_option_def Let_def initial_args_def
        del: config_text.simps)
qed

lemma digit_chars: "digit_char 0 = CHR ''0''" "digit_char (Suc 0) = CHR ''1''" "digit_char 2 = CHR ''2''" "digit_char 3 = CHR ''3''"
  "digit_char 4 = CHR ''4''" "digit_char 5 = CHR ''5''" "digit_char 6 = CHR ''6''" "digit_char 8 = CHR ''8''" "digit_char 11 = CHR ''b''"
  "digit_char 13 = CHR ''d''" "digit_char 15 = CHR ''f''"
  by code_simp+

lemma demo_parsed:
  "parse_cb_ipv4vlan_rule plain_ipv4 (tl demo_text4) (zero_rule 5) True = Some ((zero_rule 5)\<lparr>field := field demo_rule4, userdata := 0\<rparr>)"
  "parse_cb_ipv6_rule (tl demo_text6) (zero_rule 11) True = Some ((zero_rule 11)\<lparr>field := field demo_rule6, userdata := 0\<rparr>)"
proof -
  have "tl demo_text4 = print_one_ipv4_rule demo_rule4 False @ num 10 0 @ '' ''"
    by (simp add: demo_text4_def print_one_ipv4_rule_def demo_rule4_def print_ipv4_net_def print_tail_def uint32_t_to_char_def num.simps digit_chars)
  then show "parse_cb_ipv4vlan_rule plain_ipv4 (tl demo_text4) (zero_rule 5) True = Some ((zero_rule 5)\<lparr>field := field demo_rule4, userdata := 0\<rparr>)"
    using ipv4_roundtrip(2) [OF plain_ipv4 demo_rules(1), of "zero_rule 5" 0] by (simp add: zero_rule_def)
  have "tl demo_text6 = print_one_ipv6_rule demo_rule6 False @ num 10 0 @ '' ''"
    by (simp add: demo_text6_def print_one_ipv6_rule_def demo_rule6_def print_ipv6_net_def print_ipv6_word_def print_tail_def
        uint32_t_to_char_def num.simps hex2_def digit_chars)
  then show "parse_cb_ipv6_rule (tl demo_text6) (zero_rule 11) True = Some ((zero_rule 11)\<lparr>field := field demo_rule6, userdata := 0\<rparr>)"
    using ipv6_roundtrip(2) [OF demo_rules(2), of "zero_rule 11" 0] by (simp add: zero_rule_def)
qed

lemma demo_lines: "fgets_lines demo_text4 = [demo_text4]" "fgets_lines demo_text6 = [demo_text6]"
  by (simp_all add: demo_text4_def demo_text6_def fgets_lines.simps fgets_line_def NEWLINE_def)

lemma demo_load_text:
  assumes "fgets_lines t = [t]" "t = CHR ''R'' # s" "parser s (zero_rule n) True = Some r" "userdata r = 0"
  shows "\<exists>rs. load_rule_file (demo_rules_of t) n parser 1 100 = Some (Inr (rs, 1, [], 0))"
proof -
  have "\<not> is_bypass_line t" using assms(2) by (simp add: is_bypass_line_def COMMENT_LEAD_CHAR_def isspace_def)
  then show ?thesis using assms
    by (simp add: load_rule_file_def demo_rules_of_def add_rules_def ROUTE_LEAD_CHAR_def ACL_LEAD_CHAR_def load_rule_def finish_rule_def arr_get_def)
qed

lemma demo_settings:
  "o_mode (qflow demo_settings) = QFLOW_SINGLE" "queues demo_settings = 2" "enabled_port_mask demo_settings = 1" "numa_on demo_settings"
  "alg demo_settings = ALG_DEFAULT" "lcore_params_array demo_settings = [demo_triple]" "nb_rxd demo_settings = 1024" "\<not> promiscuous_on demo_settings"
  "rule_ipv4_name demo_settings = Some ''a''" "rule_ipv6_name demo_settings = Some ''b''" "\<not> o_latency (qflow demo_settings)"
  by (simp_all add: demo_settings_def initial_args_def qflow_opts_init_def)

lemma demo_dpdk:
  "max_lcore demo_dpdk = 128" "lcore_is_enabled demo_dpdk = (\<lambda>l. l = 0)" "devs demo_dpdk = [0]" "lcore_to_socket_id demo_dpdk = (\<lambda>l. 0)"
  "pktmbuf_pool_create demo_dpdk i n" "dev_reta_size demo_dpdk p = Some 128" "dev_configure demo_dpdk p n k = 0"
  "qdma_reg_read_usr demo_dpdk p = 0x940907F" "rss_reta_update demo_dpdk p = 0" "rss_reta_query demo_dpdk p = 1"
  "adjust_nb_rx_tx_desc demo_dpdk p n k = Some (n, k)" "macaddr_get demo_dpdk p = Some [0, 1, 2, 3, 4, 5]" "tx_buffer_zmalloc demo_dpdk i p"
  "tx_queue_setup demo_dpdk (Some (i, Suc 0)) p 0 n z = 0" "qdma_get_queue_base demo_dpdk p = 0" "qdma_set_queue_mode demo_dpdk p n = 0"
  "rx_queue_setup demo_dpdk c p n k = 0" "dev_start demo_dpdk p = 0" "zmalloc_sketch demo_dpdk i"
  by (simp_all add: demo_dpdk_def)

lemma demo_start: "\<exists>st. start_devices demo_dpdk demo_settings = Some (Inr st)"
proof -
  have c: "configure_port demo_dpdk demo_settings 0 st = Some (Inr (st\<lparr>dev_conf := (dev_conf st)(0 := Some (2, 1)), rxd := rxd st, txd := txd st,
      s_addr := (s_addr st)(0 := Some [0, 1, 2, 3, 4, 5])\<rparr>))" for st
    unfolding configure_port_def Let_def demo_lcores by (simp add: demo_dpdk demo_settings MAX_TX_QUEUE_PER_PORT_def)
  have "\<exists>st'. setup_port demo_dpdk demo_settings 0 st = Some (Inr st')" if "tx_port_id st 0 = []" for st
    unfolding setup_port_def if_port_enabled_def c andthen_simps demo_lcores
    using that by (simp add: demo_dpdk demo_settings alloc_tx_buffer_def setup_tx_queue_def setup_rx_queue_def upt_rec [of _ "Suc _"] upt_rec)
  moreover have "\<exists>st1. create_pools demo_dpdk demo_settings (initial_startup (nb_rxd demo_settings)) = Some (Inr st1) \<and> tx_port_id st1 0 = []"
    by (simp add: create_pools_def create_pool_def demo_dpdk demo_settings Let_def initial_startup_def)
  ultimately obtain st1 st2 where s: "create_pools demo_dpdk demo_settings (initial_startup (nb_rxd demo_settings)) = Some (Inr st1)"
    "setup_port demo_dpdk demo_settings 0 st1 = Some (Inr st2)" by blast
  show ?thesis unfolding start_devices_def s(1) andthen_simps demo_lcores demo_dpdk
    using s(2) by (simp add: start_port_def if_port_enabled_def alloc_sketch_def demo_dpdk demo_settings)
qed

lemma demo_clear: "\<exists>st'. send_clear_packets demo_dpdk args st = Some (Inr st')"
proof -
  have "\<exists>p. create_latency_packet True (Some (replicate PKT_SIZE 0)) (\<lambda>h. 0) 0xf00dcafc = Some (Some p)"
    by (simp add: create_latency_packet_def create_udp_packet_bytes)
  then show ?thesis by (auto simp: send_clear_packets_def demo_dpdk_def send_clear_packet_def upt_rec)
qed

lemma demo_acl:
  "\<exists>acl. app_acl_init demo_lib (demo_rules_of demo_text4) (demo_rules_of demo_text6) (parse_cb_ipv4vlan_rule plain_ipv4) parse_cb_ipv6_rule 100
    (\<lambda>l. 0) [0] demo_settings = Some (Inr (0, acl))"
proof -
  obtain r4 where "load_rule_file (demo_rules_of demo_text4) NUM_FIELDS_IPV4 (parse_cb_ipv4vlan_rule plain_ipv4) 1 100 = Some (Inr (r4, 1, [], 0))"
    using demo_load_text [where parser = "parse_cb_ipv4vlan_rule plain_ipv4" and s = "tl demo_text4" and n = 5, OF demo_lines(1) _ demo_parsed(1)] by (auto simp: demo_text4_def NUM_FIELDS_IPV4_def)
  moreover obtain r6 where "load_rule_file (demo_rules_of demo_text6) NUM_FIELDS_IPV6 parse_cb_ipv6_rule 1 100 = Some (Inr (r6, 1, [], 0))"
    using demo_load_text [where parser = parse_cb_ipv6_rule and s = "tl demo_text6" and n = 11, OF demo_lines(2) _ demo_parsed(2)] by (auto simp: demo_text6_def NUM_FIELDS_IPV6_def)
  moreover obtain c where "for_each (setup_socket demo_lib ALG_DEFAULT (take 1 r4, []) (take 1 r6, [])) [0..<NB_SOCKETS]
      \<lparr>mapped = (replicate NB_SOCKETS False)[0 := True], acx_ipv4 = replicate NB_SOCKETS None, acx_ipv6 = replicate NB_SOCKETS None\<rparr> = Some (Inr c)"
    using demo_setup_sockets by metis
  ultimately show ?thesis
    by (simp add: app_acl_init_def check_acl_config_def demo_settings Let_def NB_SOCKETS_def arr_set_def)
qed

lemma demo_main: "\<exists>r. nf_main demo_world demo_options = Some (Inr r) \<and> r_args r = demo_settings"
proof -
  obtain st where st: "start_devices demo_dpdk demo_settings = Some (Inr st)" using demo_start by blast
  obtain st' where st': "send_clear_packets demo_dpdk demo_settings st = Some (Inr st')" using demo_clear by blast
  obtain acl where acl: "app_acl_init demo_lib (demo_rules_of demo_text4) (demo_rules_of demo_text6) (parse_cb_ipv4vlan_rule plain_ipv4) parse_cb_ipv6_rule 100
    (\<lambda>l. 0) [0] demo_settings = Some (Inr (0, acl))" using demo_acl by blast
  have "env_ok (demo_env 1 False) 1 False" using demo_heap_ok by (simp add: env_ok_def demo_env_def)
  from nf_init_ok [OF this] obtain g where g: "nf_init (demo_env 1 False) 1 False False demo_globals = Some (True, g)" by auto
  obtain confs where c: "init_lcore_rx_queues [demo_triple] (initial_confs 128) = Some (0, confs)"
    using init_lcore_rx_queues_fills [OF initial_confs_hold, of "[demo_triple]" 128]
    by (auto simp: MAX_LCORE_PARAMS_def demo_triple_def initial_confs_def)
  have q: "check_lcore_params (\<lambda>l. l = 0) [demo_triple] = 0" "check_port_config 1 (\<lambda>p. p \<in> set [0]) [demo_triple] = Some 0"
    "qflow_check (qflow demo_settings) 2 1 = 0"
    by (simp_all add: demo_triple_def MAX_RX_QUEUE_PER_PORT_def qflow_check_def demo_settings)
  show ?thesis unfolding nf_main_def
    using st st' acl g c q q(3) [unfolded One_nat_def]
    by (simp add: demo_world_def demo_parse demo_lcores demo_settings demo_dpdk nat_shards_for_def Let_def
        del: One_nat_def init_lcore_rx_queues.simps check_lcore_params.simps check_port_config.simps)
qed

theorem startup_serves_polling_witness:
  "\<exists>r cfg k. nf_main demo_world demo_options = Some (Inr r) \<and> queue_end cfg = 2 \<and>
    loop_config demo_settings (r_confs r ! 0) 0 1 = Some cfg \<and> (port_of cfg 1, 1, k) \<in> set (rx_rings (r_dev r))"
proof -
  obtain r where r: "nf_main demo_world demo_options = Some (Inr r)" "r_args r = demo_settings" using demo_main by blast
  have d: "dev demo_world = demo_dpdk" "lcores demo_dpdk = [0]" "devs demo_dpdk = [0]"
    by (simp_all add: demo_world_def demo_lcores, simp add: demo_dpdk_def)
  have m: "\<forall>p < 32. enabled_port_mask demo_settings AND 2 ^ p \<noteq> 0 \<longrightarrow> p \<in> set (devs demo_dpdk)"
    unfolding demo_settings d and_exp_eq_0_iff_not_bit bit_1_iff by simp
  have p: "0 < length (lcores demo_dpdk)" "length (lcores demo_dpdk) \<le> 128" "enabled_port_mask demo_settings \<noteq> 0"
    by (simp_all add: demo_lcores demo_settings)
  have s: "enabled_port_mask demo_settings AND 2 ^ 0 \<noteq> 0 \<and> queues demo_settings \<le> 2048" by (simp add: demo_settings)
  obtain cfg where c0: "loop_config demo_settings (r_confs r ! (lcores demo_dpdk ! 0)) 0 (length (lcores demo_dpdk)) = Some cfg"
    "\<forall>i. queue_start cfg \<le> i \<and> i < queue_end cfg \<longrightarrow> (\<exists>k. (port_of cfg i, nat i, k) \<in> set (rx_rings (r_dev r)))"
    using startup_serves_polling [OF r(1) d(1) [symmetric] r(2) [symmetric] p m s] by blast
  then have c: "loop_config demo_settings (r_confs r ! 0) 0 1 = Some cfg"
    "\<forall>i. queue_start cfg \<le> i \<and> i < queue_end cfg \<longrightarrow> (\<exists>k. (port_of cfg i, nat i, k) \<in> set (rx_rings (r_dev r)))"
    by (simp_all add: d)
  have cf: "cfg = poll_config (qflow demo_settings) 2 0 1 (\<lambda>i. fst (rx_queue_list (r_confs r ! 0) ! nat i))"
    using c(1) by (simp add: loop_config_def demo_settings)
  then have q: "queue_start cfg = 0" "queue_end cfg = 2" by (simp_all add: poll_config_def demo_settings)
  obtain k where k: "(port_of cfg 1, nat 1, k) \<in> set (rx_rings (r_dev r))" using c(2) q by (metis one_less_numeral_iff semiring_norm(76) zero_le_one)
  then show ?thesis using r(1) c(1) q(2) by (intro exI [of _ r] exI [of _ cfg] exI [of _ k]) simp
qed

text \<open>C38. Too many lcores. A port is configured with a TX queue per lcore but no more than 32, while the loop after it sets up one for
  every lcore: with more than 32 lcores and an enabled device the start-up always fails, for DPDK refuses a queue
  that was not configured.\<close>

theorem startup_refuses_many_lcores:
  assumes "32 < length (lcores (dev w))"
    and refuses: "\<forall>rx tx p q n z. tx \<le> q \<longrightarrow> tx_queue_setup (dev w) (Some (rx, tx)) p q n z < 0"
    and "parse_args (strsplit w) 32 (etheraddr w) opts (initial_args 32) = Some (0, a)" "p \<in> set (devs (dev w))"
    and "enabled_port_mask a AND 2 ^ p \<noteq> 0"
  shows "nf_main w opts \<noteq> Some (Inr r)"
proof
  assume run: "nf_main w opts = Some (Inr r)"
  let ?d = "dev w"
  obtain st where st: "parse_args (strsplit w) 32 (etheraddr w) opts (initial_args 32) = Some (0, r_args r)"
    "start_devices ?d (r_args r) = Some (Inr st)" by (rule nf_main_cases [OF run refl refl])
  then have a: "start_devices ?d a = Some (Inr st)" using assms(3) by simp
  obtain s1 s2 where f: "for_each (setup_port ?d a) (devs ?d) s1 = Some (Inr s2)"
    using a by (auto simp: start_devices_def andthen_Inr)
  obtain x y where "setup_port ?d a p x = Some (Inr y)" using for_each_ran [OF f assms(4)] by blast
  then obtain x1 x2 x3 where s: "configure_port ?d a p x = Some (Inr x1)" "for_each (alloc_tx_buffer ?d p) (lcores ?d) x1 = Some (Inr x2)"
    "for_each (setup_tx_queue ?d a p) (List.enumerate 0 (lcores ?d)) x2 = Some (Inr x3)"
    using assms(5) by (auto simp: setup_port_def if_port_enabled_Inr andthen_Inr split: if_splits)
  have c1: "dev_conf x1 p = Some (queues a, 32)"
    using s(1) assms(1) by (auto simp: configure_port_def Let_def MAX_TX_QUEUE_PER_PORT_def split: option.splits if_splits)
  have "dev_conf x2 p = Some (queues a, 32) \<and> (\<forall>l \<in> set (lcores ?d). True)"
    by (rule for_each_rule [OF s(2), where P = "\<lambda>s. dev_conf s p = Some (queues a, 32)"])
      (use c1 in \<open>auto simp: alloc_tx_buffer_def split: if_splits\<close>)
  then have c2: "dev_conf x2 p = Some (queues a, 32)" by blast
  have step: "dev_conf s' p = Some (queues a, 32) \<and> fst z < 32"
    if "dev_conf s p = Some (queues a, 32)" "setup_tx_queue ?d a p z s = Some (Inr s')" for z s s'
  proof (rule conjI)
    show "dev_conf s' p = Some (queues a, 32)"
      using that by (auto simp: setup_tx_queue_def Let_def split: prod.splits if_splits)
    show "fst z < 32"
    proof (rule ccontr)
      assume "\<not> fst z < 32"
      then have "32 \<le> fst z" by simp
      then have "tx_queue_setup ?d (Some (queues a, 32)) p (fst z) (txd s) soc < 0" for soc using refuses by blast
      then show False using that by (cases z) (simp add: setup_tx_queue_def Let_def)
    qed
  qed
  have "dev_conf x3 p = Some (queues a, 32) \<and> (\<forall>z \<in> set (List.enumerate 0 (lcores ?d)). fst z < 32)"
    by (rule for_each_rule [OF s(3), where P = "\<lambda>s. dev_conf s p = Some (queues a, 32)"]) (use c2 step in blast)+
  moreover have "(32, lcores ?d ! 32) \<in> set (List.enumerate 0 (lcores ?d))" using assms(1) by (simp add: in_set_enumerate_eq)
  ultimately show False by force
qed

theorem startup_refuses_many_lcores_witness:
  "\<forall>r. nf_main (demo_world\<lparr>dev := demo_dpdk\<lparr>lcore_is_enabled := (\<lambda>l. l < 33)\<rparr>\<rparr>) demo_options \<noteq> Some (Inr r)"
proof
  fix r
  let ?d = "demo_dpdk\<lparr>lcore_is_enabled := (\<lambda>l. l < 33)\<rparr>"
  have "filter (\<lambda>l. l < 33) [0..<128] = [0..<33 :: nat]" by (simp add: upt_rec)
  then have "32 < length (lcores ?d)" by (simp add: lcores_def demo_dpdk_def)
  moreover have "\<forall>rx tx p q n z. tx \<le> q \<longrightarrow> tx_queue_setup ?d (Some (rx, tx)) p q n z < 0" by (simp add: demo_dpdk_def)
  moreover have "0 \<in> set (devs ?d)" by (simp add: demo_dpdk_def)
  ultimately show "nf_main (demo_world\<lparr>dev := ?d\<rparr>) demo_options \<noteq> Some (Inr r)"
    using startup_refuses_many_lcores [of "demo_world\<lparr>dev := ?d\<rparr>" demo_options demo_settings 0 r]
    by (simp add: demo_world_def demo_parse demo_settings)
qed

end
