(* ===== verification/Port_Pairs.thy ===== *)
theory Port_Pairs
  imports Lcore_Config
begin

section \<open>Ports of the locality program\<close>

text \<open>
  The start-up of \<^verbatim>\<open>src/locality/main.c\<close> up to the set-up of the card: the pairs of ports of the option
  \<open>portmap\<close> and their check, the forwarding table \<open>cms_dst_ports\<close>, filled from the pairs or, without the option, by
  pairing the enabled ports in their order, and the distribution of the ports over the lcores. The devices
  present, the enabled lcores and \<open>RTE_MAX_ETHPORTS\<close> are arguments. \<open>None\<close> is an access outside an array or a shift
  by 32 or more.
\<close>

subsection \<open>The code\<close>

record port_pair_params =
  port0 :: nat
  port1 :: nat

fun port_fields :: "nat \<Rightarrow> string list \<Rightarrow> nat list option" where
  "port_fields max_ethports [] = Some []"
| "port_fields max_ethports (fld # flds) =
     (let (v, rest, err) = strtoul 0 fld
      in if err \<or> rest = fld \<or> max_ethports \<le> v then None
         else Option.bind (port_fields max_ethports flds) (\<lambda>vs. Some (v # vs)))"

function parse_port_pairs_from ::
  "(string \<Rightarrow> nat \<Rightarrow> char \<Rightarrow> string list) \<Rightarrow> nat \<Rightarrow> string \<Rightarrow> port_pair_params list \<Rightarrow> int \<times> port_pair_params list" where
  "parse_port_pairs_from rte_strsplit max_ethports p0 params =
     (case strchr p0 CHR ''('' of
        None \<Rightarrow> (0, params)
      | Some p \<Rightarrow>
          (case strchr (tl p) CHR '')'' of
             None \<Rightarrow> (- 1, params)
           | Some p0' \<Rightarrow>
               let size = length (tl p) - length p0'; s = take size (tl p); str_fld = rte_strsplit s 2 CHR '',''
               in if 256 \<le> size then (- 1, params)
                  else if length str_fld \<noteq> 2 then (- 1, params)
                  else case port_fields max_ethports str_fld of
                    None \<Rightarrow> (- 1, params)
                  | Some int_fld \<Rightarrow>
                      if max_ethports div 2 \<le> length params then (- 1, params)
                      else parse_port_pairs_from rte_strsplit max_ethports p0'
                        (params @ [\<lparr>port0 = int_fld ! 0, port1 = int_fld ! 1\<rparr>])))"
  by pat_completeness auto
termination
proof (relation "measure (\<lambda>(f, m, p0, params). length p0)")
  fix f m p0 params p p0' and x xa :: nat and y ya vs
  assume a: "strchr p0 CHR ''('' = Some p" "strchr (tl p) CHR '')'' = Some p0'"
  have "length p \<le> length p0" "p \<noteq> []" "length p0' \<le> length (tl p)"
    using a [THEN strchr_length] by blast+
  then have "length p0' < length p0" by (cases p) auto
  then show "((f, m, p0', params @ [\<lparr>port0 = vs ! 0, port1 = vs ! 1\<rparr>]), f, m, p0, params)
    \<in> measure (\<lambda>(f, m, p0, params). length p0)" by simp
qed simp

declare parse_port_pairs_from.simps [simp del]

definition cms_parse_port_pair_config ::
  "(string \<Rightarrow> nat \<Rightarrow> char \<Rightarrow> string list) \<Rightarrow> nat \<Rightarrow> string \<Rightarrow> int \<times> port_pair_params list" where
  "cms_parse_port_pair_config rte_strsplit max_ethports q_arg = parse_port_pairs_from rte_strsplit max_ethports q_arg []"

text \<open>The checks of one port of a pair: \<open>Some None\<close> is the result -1, otherwise the mask of the pair with the port.\<close>

definition check_pair_port :: "nat \<Rightarrow> (nat \<Rightarrow> bool) \<Rightarrow> nat \<Rightarrow> nat \<Rightarrow> nat option option" where
  "check_pair_port enabled_mask is_valid_port portid pair_mask =
     (if 32 \<le> portid then None
      else if enabled_mask AND 2 ^ portid = 0 then Some None
      else if \<not> is_valid_port portid then Some None
      else Some (Some (pair_mask OR 2 ^ portid)))"

text \<open>The result and the new \<open>cms_enabled_port_mask\<close>.\<close>

fun check_port_pairs_from ::
  "nat \<Rightarrow> (nat \<Rightarrow> bool) \<Rightarrow> port_pair_params list \<Rightarrow> nat \<Rightarrow> (int \<times> nat) option" where
  "check_port_pairs_from enabled_mask is_valid_port [] config_mask = Some (0, enabled_mask AND config_mask)"
| "check_port_pairs_from enabled_mask is_valid_port (p # ps) config_mask =
     Option.bind (check_pair_port enabled_mask is_valid_port (port0 p) 0) (\<lambda>r. case r of
       None \<Rightarrow> Some (- 1, enabled_mask)
     | Some m \<Rightarrow> Option.bind (check_pair_port enabled_mask is_valid_port (port1 p) m) (\<lambda>r. case r of
         None \<Rightarrow> Some (- 1, enabled_mask)
       | Some pair_mask \<Rightarrow>
           if config_mask AND pair_mask \<noteq> 0 then Some (- 1, enabled_mask)
           else check_port_pairs_from enabled_mask is_valid_port ps (config_mask OR pair_mask)))"

definition check_port_pair_config :: "nat \<Rightarrow> (nat \<Rightarrow> bool) \<Rightarrow> port_pair_params list \<Rightarrow> (int \<times> nat) option" where
  "check_port_pair_config enabled_mask is_valid_port pairs = check_port_pairs_from enabled_mask is_valid_port pairs 0"

text \<open>\<open>cms_dst_ports\<close> from the pairs; \<open>idx\<close> counts the ports of all pairs.\<close>

definition pair_port :: "port_pair_params \<Rightarrow> nat \<Rightarrow> nat" where
  "pair_port pair p = (if p = 0 then port0 pair else port1 pair)"

function dst_from_pairs :: "port_pair_params list \<Rightarrow> nat \<Rightarrow> nat list \<Rightarrow> nat list option" where
  "dst_from_pairs pairs idx dst =
     (if idx < 2 * length pairs then do {
        let p = idx mod 2;
        pair \<leftarrow> arr_get pairs (int (idx div 2));
        dst \<leftarrow> arr_set dst (int (pair_port pair p)) (pair_port pair (1 - p));
        dst_from_pairs pairs (Suc idx) dst
      } else Some dst)"
  by pat_completeness auto
termination
  by (relation "measure (\<lambda>(pairs, idx, dst). 2 * length pairs - idx)") auto

declare dst_from_pairs.simps [simp del]

text \<open>The same without pairs: \<open>nb_ports_in_mask\<close>, \<open>last_port\<close> and the table over the devices \<open>devs\<close>.\<close>

fun default_dst_from :: "nat \<Rightarrow> nat list \<Rightarrow> nat \<Rightarrow> nat \<Rightarrow> nat list \<Rightarrow> (nat \<times> nat \<times> nat list) option" where
  "default_dst_from enabled_mask [] nb last_port dst = Some (nb, last_port, dst)"
| "default_dst_from enabled_mask (portid # devs) nb last_port dst =
     (if 32 \<le> portid then None
      else if enabled_mask AND 2 ^ portid = 0 then default_dst_from enabled_mask devs nb last_port dst
      else if nb mod 2 = 1 then do {
        dst \<leftarrow> arr_set dst (int portid) last_port;
        dst \<leftarrow> arr_set dst (int last_port) portid;
        default_dst_from enabled_mask devs (nb + 1) last_port dst
      }
      else default_dst_from enabled_mask devs (nb + 1) portid dst)"

definition default_dst_ports :: "nat \<Rightarrow> nat list \<Rightarrow> nat \<Rightarrow> nat list option" where
  "default_dst_ports enabled_mask devs max_ethports = do {
     (nb, last_port, dst) \<leftarrow> default_dst_from enabled_mask devs 0 0 (replicate max_ethports 0);
     if nb mod 2 = 1 then arr_set dst (int last_port) last_port else Some dst
   }"

text \<open>The ports of each lcore; \<open>Some None\<close> is the exit for lack of cores.\<close>

function next_lcore :: "(nat \<Rightarrow> bool) \<Rightarrow> nat \<Rightarrow> nat list list \<Rightarrow> nat \<Rightarrow> nat option option" where
  "next_lcore lcore_is_enabled rx_queue_per_lcore confs l =
     (if l < length confs then
        if \<not> lcore_is_enabled l \<or> length (confs ! l) = rx_queue_per_lcore then
          if length confs \<le> l + 1 then Some None
          else next_lcore lcore_is_enabled rx_queue_per_lcore confs (l + 1)
        else Some (Some l)
      else None)"
  by pat_completeness auto
termination
  by (relation "measure (\<lambda>(e, q, confs, l). length confs - l)") auto

declare next_lcore.simps [simp del]

fun assign_ports ::
  "nat \<Rightarrow> (nat \<Rightarrow> bool) \<Rightarrow> nat \<Rightarrow> nat list \<Rightarrow> nat list list \<Rightarrow> nat \<Rightarrow> nat list list option option" where
  "assign_ports enabled_mask lcore_is_enabled rx_queue_per_lcore [] confs l = Some (Some confs)"
| "assign_ports enabled_mask lcore_is_enabled rx_queue_per_lcore (portid # devs) confs l =
     (if 32 \<le> portid then None
      else if enabled_mask AND 2 ^ portid = 0 then assign_ports enabled_mask lcore_is_enabled rx_queue_per_lcore devs confs l
      else Option.bind (next_lcore lcore_is_enabled rx_queue_per_lcore confs l) (\<lambda>r. case r of
        None \<Rightarrow> Some None
      | Some l \<Rightarrow>
          if length (confs ! l) < MAX_RX_QUEUE_PER_LCORE
          then assign_ports enabled_mask lcore_is_enabled rx_queue_per_lcore devs (confs[l := confs ! l @ [portid]]) l
          else None))"

subsection \<open>Pairs\<close>

definition ports_of :: "port_pair_params \<Rightarrow> nat set" where
  "ports_of p = {port0 p, port1 p}"

definition disjoint_pairs :: "port_pair_params list \<Rightarrow> bool" where
  "disjoint_pairs ps \<longleftrightarrow> sorted_wrt (\<lambda>p q. ports_of p \<inter> ports_of q = {}) ps"

lemma port_fields_type: "port_fields m xs = Some ys \<Longrightarrow> length ys = length xs \<and> (\<forall>y \<in> set ys. y < m)"
  by (induction xs arbitrary: ys) (auto simp: Let_def bind_eq_Some_conv split: prod.splits if_splits)

definition pairs_ok :: "nat \<Rightarrow> port_pair_params list \<Rightarrow> bool" where
  "pairs_ok m ps \<longleftrightarrow> length ps \<le> m div 2 \<and> (\<forall>p \<in> set ps. ports_of p \<subseteq> {..<m})"

lemma parse_port_pairs_type: "pairs_ok m params \<Longrightarrow> pairs_ok m (snd (parse_port_pairs_from rte_strsplit m s params))"
proof (induction rte_strsplit m s params rule: parse_port_pairs_from.induct)
  case (1 f m p0 params)
  have "pairs_ok m (params @ [\<lparr>port0 = vs ! 0, port1 = vs ! 1\<rparr>])"
    if "port_fields m (f t 2 c) = Some vs" "length (f t 2 c) = 2" "length params < m div 2" for vs t c
  proof -
    have "length vs = 2" "\<forall>y \<in> set vs. y < m" using port_fields_type [OF that(1)] that(2) by auto
    then show ?thesis using 1(2) that(3) by (auto simp: pairs_ok_def ports_of_def)
  qed
  then show ?case using 1
    by (subst parse_port_pairs_from.simps) (auto simp: Let_def split: option.split)
qed

text \<open>The check of a pair.\<close>

definition port_ok :: "nat \<Rightarrow> (nat \<Rightarrow> bool) \<Rightarrow> nat \<Rightarrow> bool" where
  "port_ok enabled_mask is_valid_port p \<longleftrightarrow> bit enabled_mask p \<and> is_valid_port p"

lemma check_pair_port_eq:
  "p < 32 \<Longrightarrow> check_pair_port e v p m = Some (if port_ok e v p then Some (m OR 2 ^ p) else None)"
  by (simp add: check_pair_port_def port_ok_def and_exp_eq_0_iff_not_bit)

lemma bit_pair_mask: "bit (2 ^ a OR 2 ^ b :: nat) q \<longleftrightarrow> q = a \<or> q = b"
  by (auto simp: bit_or_iff bit_exp_iff)

lemma pair_mask_and: "config AND (2 ^ a OR 2 ^ b) = (0 :: nat) \<longleftrightarrow> \<not> bit config a \<and> \<not> bit config b"
proof -
  have "config AND (2 ^ a OR 2 ^ b) = 0 \<longleftrightarrow> (\<forall>q. \<not> (bit config q \<and> (q = a \<or> q = b)))"
    unfolding bit_eq_iff [of "config AND (2 ^ a OR 2 ^ b)"] bit_and_iff bit_pair_mask by simp
  then show ?thesis by auto
qed

lemma check_pair_step:
  assumes "port0 p < 32" "port1 p < 32"
  shows "check_port_pairs_from e v (p # ps) c =
    (if port_ok e v (port0 p) \<and> port_ok e v (port1 p) \<and> \<not> bit c (port0 p) \<and> \<not> bit c (port1 p)
     then check_port_pairs_from e v ps (c OR (2 ^ port0 p OR 2 ^ port1 p)) else Some (- 1, e))"
proof -
  have "(if c AND (2 ^ port0 p OR 2 ^ port1 p) \<noteq> 0 then x else y) = (if \<not> bit c (port0 p) \<and> \<not> bit c (port1 p) then y else x)" for x y :: "(int \<times> nat) option"
    using pair_mask_and [of c "port0 p" "port1 p"] by auto
  then show ?thesis using assms by (simp add: check_pair_port_eq del: bit_0_eq)
qed

declare check_port_pairs_from.simps(2) [simp del]

lemma check_port_pairs_ok:
  assumes "\<forall>p \<in> set ps. ports_of p \<subseteq> {..<32}"
  shows "\<exists>r m. check_port_pairs_from e v ps c = Some (r, m) \<and> (r = - 1 \<and> m = e \<or> r = 0 \<and>
    (\<forall>p \<in> set ps. \<forall>q \<in> ports_of p. port_ok e v q \<and> \<not> bit c q) \<and> disjoint_pairs ps \<and>
    (\<forall>q. bit m q \<longleftrightarrow> bit e q \<and> (bit c q \<or> (\<exists>p \<in> set ps. q \<in> ports_of p))))"
  using assms
proof (induction ps arbitrary: c)
  case Nil
  show ?case by (simp add: disjoint_pairs_def bit_and_iff)
next
  case (Cons p ps)
  let ?c = "c OR (2 ^ port0 p OR 2 ^ port1 p)"
  have bc: "bit ?c q \<longleftrightarrow> bit c q \<or> q \<in> ports_of p" for q
    by (simp add: bit_or_iff bit_exp_iff ports_of_def)
  have lt: "port0 p < 32" "port1 p < 32" using Cons.prems by (auto simp: ports_of_def)
  show ?case
  proof (cases "port_ok e v (port0 p) \<and> port_ok e v (port1 p) \<and> \<not> bit c (port0 p) \<and> \<not> bit c (port1 p)")
    case False
    then have "check_port_pairs_from e v (p # ps) c = Some (- 1, e)"
      by (subst check_pair_step [OF lt]) (rule if_not_P)
    then show ?thesis by simp
  next
    case True
    then have step: "check_port_pairs_from e v (p # ps) c = check_port_pairs_from e v ps ?c"
      by (subst check_pair_step [OF lt]) (rule if_P)
    have ok: "\<forall>q \<in> ports_of p. port_ok e v q \<and> \<not> bit c q" using True by (simp add: ports_of_def)
    have "\<forall>p \<in> set ps. ports_of p \<subseteq> {..<32}" using Cons.prems by simp
    from Cons.IH [OF this, of ?c] obtain r m where rm: "check_port_pairs_from e v ps ?c = Some (r, m)"
      "r = - 1 \<and> m = e \<or> r = 0 \<and> (\<forall>p \<in> set ps. \<forall>q \<in> ports_of p. port_ok e v q \<and> \<not> bit ?c q) \<and> disjoint_pairs ps \<and>
        (\<forall>q. bit m q \<longleftrightarrow> bit e q \<and> (bit ?c q \<or> (\<exists>p \<in> set ps. q \<in> ports_of p)))"
      by blast
    have "disjoint_pairs (p # ps)" if "r = 0" using rm(2) that unfolding bc disjoint_pairs_def by auto
    moreover have "\<forall>p \<in> set (p # ps). \<forall>q \<in> ports_of p. port_ok e v q \<and> \<not> bit c q" if "r = 0"
      using rm(2) that ok unfolding bc by auto
    moreover have "\<forall>q. bit m q \<longleftrightarrow> bit e q \<and> (bit c q \<or> (\<exists>p \<in> set (p # ps). q \<in> ports_of p))" if "r = 0"
      using rm(2) that unfolding bc by auto
    ultimately show ?thesis using rm step by (intro exI [of _ r] exI [of _ m]) auto
  qed
qed

subsection \<open>The forwarding table\<close>

fun set_pairs :: "port_pair_params list \<Rightarrow> nat list \<Rightarrow> nat list" where
  "set_pairs [] d = d"
| "set_pairs (p # ps) d = set_pairs ps (d[port0 p := port1 p, port1 p := port0 p])"

lemma length_set_pairs [simp]: "length (set_pairs ps d) = length d"
  by (induction ps arbitrary: d) auto

lemma set_pairs_other: "\<forall>p \<in> set ps. q \<notin> ports_of p \<Longrightarrow> set_pairs ps d ! q = d ! q"
  by (induction ps arbitrary: d) (auto simp: ports_of_def)

lemma set_pairs_swap:
  "disjoint_pairs ps \<Longrightarrow> \<forall>p \<in> set ps. ports_of p \<subseteq> {..<length d} \<Longrightarrow> p \<in> set ps \<Longrightarrow>
   set_pairs ps d ! port0 p = port1 p \<and> set_pairs ps d ! port1 p = port0 p"
proof (induction ps arbitrary: d)
  case (Cons x ps)
  let ?d = "d[port0 x := port1 x, port1 x := port0 x]"
  show ?case
  proof (cases "p \<in> set ps")
    case True
    then show ?thesis using Cons.IH [of ?d] Cons.prems(1,2) by (simp add: disjoint_pairs_def)
  next
    case False
    then have p: "p = x" using Cons.prems(3) by simp
    then have "\<forall>y \<in> set ps. port0 p \<notin> ports_of y" "\<forall>y \<in> set ps. port1 p \<notin> ports_of y"
      using Cons.prems(1) by (auto simp: disjoint_pairs_def ports_of_def)
    then show ?thesis using Cons.prems(2) p set_pairs_other [of ps _ ?d]
      by (auto simp: ports_of_def nth_list_update)
  qed
qed simp

text \<open>The table of disjoint pairs is its own inverse.\<close>

lemma set_pairs_involution:
  assumes "disjoint_pairs ps" "\<forall>p \<in> set ps. ports_of p \<subseteq> {..<length d}" "p \<in> set ps" "q \<in> ports_of p"
  shows "set_pairs ps d ! q \<in> ports_of p" "set_pairs ps d ! (set_pairs ps d ! q) = q"
  using set_pairs_swap [OF assms(1-3)] assms(4) by (auto simp: ports_of_def)

lemma dst_from_pairs_eq:
  "2 * length pre = idx \<Longrightarrow> \<forall>p \<in> set ps. ports_of p \<subseteq> {..<length dst} \<Longrightarrow>
   dst_from_pairs (pre @ ps) idx dst = Some (set_pairs ps dst)"
proof (induction ps arbitrary: pre idx dst)
  case Nil
  then show ?case by (simp add: dst_from_pairs.simps)
next
  case (Cons p ps)
  let ?all = "pre @ p # ps" and ?d1 = "dst[port0 p := port1 p]" and ?d2 = "dst[port0 p := port1 p, port1 p := port0 p]"
  have lt: "port0 p < length dst" "port1 p < length dst" using Cons.prems(2) by (auto simp: ports_of_def)
  have get: "arr_get ?all (int (length pre)) = Some p" by (simp add: arr_get_def)
  have "dst_from_pairs ?all idx dst = dst_from_pairs ?all (Suc idx) ?d1"
    using Cons.prems(1) lt get by (subst dst_from_pairs.simps) (auto simp: pair_port_def arr_set_def)
  also have "\<dots> = dst_from_pairs ?all (Suc (Suc idx)) ?d2"
    using Cons.prems(1) [symmetric] lt get by (subst dst_from_pairs.simps) (auto simp: pair_port_def arr_set_def)
  also have "\<dots> = dst_from_pairs ((pre @ [p]) @ ps) (Suc (Suc idx)) ?d2" by simp
  also have "\<dots> = Some (set_pairs ps ?d2)"
    by (rule Cons.IH) (use Cons.prems in auto)
  finally show ?case by simp
qed

subsection \<open>The table without pairs\<close>

fun pair_up :: "nat list \<Rightarrow> port_pair_params list" where
  "pair_up [] = []"
| "pair_up [a] = [\<lparr>port0 = a, port1 = a\<rparr>]"
| "pair_up (a # b # xs) = \<lparr>port0 = b, port1 = a\<rparr> # pair_up xs"

lemma default_dst_from_pairs:
  assumes "\<forall>p \<in> set devs. p < 32 \<and> p < length dst" "nb mod 2 = 1 \<longrightarrow> last_port < length dst"
    and "Q = (if nb mod 2 = 1 then [last_port] else []) @ filter (bit e) devs"
  shows "\<exists>nb' l d. default_dst_from e devs nb last_port dst = Some (nb', l, d) \<and> length d = length dst \<and>
    (nb' mod 2 = 1 \<longrightarrow> l < length dst) \<and> set_pairs (pair_up Q) dst = (if nb' mod 2 = 1 then d[l := l] else d)"
  using assms
proof (induction devs arbitrary: nb last_port dst Q)
  case (Cons p devs)
  have lt: "p < 32" "p < length dst" using Cons.prems(1) by auto
  consider (off) "\<not> bit e p" | (odd) "bit e p" "nb mod 2 = 1" | (even) "bit e p" "nb mod 2 = 0" by fastforce
  then show ?case
  proof cases
    case off
    then show ?thesis using Cons.IH [of dst nb last_port Q] Cons.prems lt by (simp add: and_exp_eq_0_iff_not_bit)
  next
    case odd
    then have "(nb + 1) mod 2 \<noteq> 1" by presburger
    moreover have "arr_set dst (int p) last_port = Some (dst[p := last_port])"
      "arr_set (dst[p := last_port]) (int last_port) p = Some (dst[p := last_port, last_port := p])"
      using odd lt Cons.prems(2) by (simp_all add: arr_set_def)
    ultimately show ?thesis
      using Cons.IH [of "dst[p := last_port, last_port := p]" "nb + 1" last_port "filter (bit e) devs"] Cons.prems odd lt
      by (simp add: and_exp_eq_0_iff_not_bit)
  next
    case even
    then have "(nb + 1) mod 2 = 1" by presburger
    then show ?thesis using Cons.IH [of dst "nb + 1" p Q] Cons.prems even lt by (simp add: and_exp_eq_0_iff_not_bit)
  qed
qed simp

lemma default_dst_ports_pairs:
  assumes "\<forall>p \<in> set devs. p < 32 \<and> p < m"
  shows "default_dst_ports e devs m = Some (set_pairs (pair_up (filter (bit e) devs)) (replicate m 0))"
proof -
  obtain nb l d where d: "default_dst_from e devs 0 0 (replicate m 0) = Some (nb, l, d)" "length d = m" "nb mod 2 = 1 \<longrightarrow> l < m"
    "set_pairs (pair_up (filter (bit e) devs)) (replicate m 0) = (if nb mod 2 = 1 then d[l := l] else d)"
    using default_dst_from_pairs [of devs "replicate m 0" 0 0 "filter (bit e) devs" e] assms by auto
  then show ?thesis by (simp add: default_dst_ports_def arr_set_def)
qed

lemma pair_up_ports: "(\<Union>p \<in> set (pair_up xs). ports_of p) = set xs"
  by (induction xs rule: pair_up.induct) (auto simp: ports_of_def)

lemma pair_up_disjoint: "distinct xs \<Longrightarrow> disjoint_pairs (pair_up xs)"
proof (induction xs rule: pair_up.induct)
  case (3 a b xs)
  have "q \<in> set xs" if "p \<in> set (pair_up xs)" "q \<in> ports_of p" for p q using that pair_up_ports [of xs] by blast
  then have "ports_of \<lparr>port0 = b, port1 = a\<rparr> \<inter> ports_of p = {}" if "p \<in> set (pair_up xs)" for p
    using that 3(2) by (fastforce simp: ports_of_def)
  then show ?case using 3 by (simp add: disjoint_pairs_def)
qed (simp_all add: disjoint_pairs_def)

lemma pair_up_single:
  "distinct xs \<Longrightarrow> p \<in> set (pair_up xs) \<Longrightarrow> q \<in> ports_of p \<Longrightarrow> port0 p = port1 p \<longleftrightarrow> odd (length xs) \<and> q = last xs"
proof (induction xs rule: pair_up.induct)
  case (3 a b xs)
  show ?case
  proof (cases "p = \<lparr>port0 = b, port1 = a\<rparr>")
    case True
    have "last (a # b # xs) \<notin> {a, b}" if "odd (length xs)"
    proof -
      have "xs \<noteq> []" using that by auto
      then show ?thesis using 3(2) last_in_set [of xs] by auto
    qed
    then show ?thesis using True 3(2,4) by (auto simp: ports_of_def)
  next
    case False
    then have "p \<in> set (pair_up xs)" "xs \<noteq> []" using 3(3) by auto
    then show ?thesis using 3 by simp
  qed
qed (auto simp: ports_of_def)

subsection \<open>The lcores of the ports\<close>

definition lcores_filled :: "(nat \<Rightarrow> bool) \<Rightarrow> nat \<Rightarrow> nat list list \<Rightarrow> nat \<Rightarrow> bool" where
  "lcores_filled enabled q confs l \<longleftrightarrow> l < length confs \<and>
     (\<forall>k < l. length (confs ! k) = (if enabled k then q else 0)) \<and>
     length (confs ! l) \<le> (if enabled l then q else 0) \<and> (\<forall>k < length confs. l < k \<longrightarrow> confs ! k = [])"

definition lcore_capacity :: "(nat \<Rightarrow> bool) \<Rightarrow> nat \<Rightarrow> nat \<Rightarrow> nat" where
  "lcore_capacity enabled q n = q * card {k. k < n \<and> enabled k}"

lemma sum_if_capacity: "(\<Sum>k < n. if enabled k then q else 0) = lcore_capacity enabled q n"
proof -
  have "(\<Sum>k < n. if enabled k then q else 0) = (\<Sum>k \<in> {k \<in> {..<n}. enabled k}. q)" by (rule sum.inter_filter [symmetric]) simp
  then show ?thesis by (simp add: lcore_capacity_def mult.commute)
qed

lemma length_concat_sum: "length (concat confs) = (\<Sum>k < length confs. length (confs ! k))"
  by (simp add: length_concat sum_list_sum_nth atLeast0LessThan)

lemma lcores_filled_bound:
  assumes "lcores_filled enabled q confs l" "k < length confs"
  shows "length (confs ! k) \<le> (if enabled k then q else 0)"
  using assms unfolding lcores_filled_def by (cases k l rule: linorder_cases) auto

lemma lcores_filled_capacity:
  assumes "lcores_filled enabled q confs l"
  shows "length (concat confs) \<le> lcore_capacity enabled q (length confs)"
  unfolding length_concat_sum sum_if_capacity [symmetric]
  by (rule sum_mono) (use lcores_filled_bound [OF assms] in auto)

lemma next_lcore_finds:
  "lcores_filled enabled q confs l \<Longrightarrow>
   next_lcore enabled q confs l = Some None \<and> length (concat confs) = lcore_capacity enabled q (length confs) \<or>
   (\<exists>l'. next_lcore enabled q confs l = Some (Some l') \<and> lcores_filled enabled q confs l' \<and> enabled l' \<and> length (confs ! l') < q)"
proof (induction "length confs - l" arbitrary: l rule: less_induct)
  case less
  note f = less.prems [unfolded lcores_filled_def]
  show ?case
  proof (cases "\<not> enabled l \<or> length (confs ! l) = q")
    case False
    then have "next_lcore enabled q confs l = Some (Some l)" using f by (subst next_lcore.simps) simp
    moreover have "length (confs ! l) < q" using f False by auto
    ultimately show ?thesis using less.prems False by blast
  next
    case full: True
    show ?thesis
    proof (cases "length confs \<le> l + 1")
      case True
      then have "length (confs ! k) = (if enabled k then q else 0)" if "k < length confs" for k
        using f full that by (cases "k = l") auto
      then have "length (concat confs) = lcore_capacity enabled q (length confs)"
        unfolding length_concat_sum sum_if_capacity [symmetric] by (intro sum.cong) auto
      moreover have "next_lcore enabled q confs l = Some None" using f True full by (subst next_lcore.simps) auto
      ultimately show ?thesis by blast
    next
      case False
      then have step: "next_lcore enabled q confs l = next_lcore enabled q confs (l + 1)"
        using f full by (subst next_lcore.simps) auto
      have "length (confs ! k) = (if enabled k then q else 0)" if "k < l + 1" for k
        using f full that by (cases "k = l") auto
      then have "lcores_filled enabled q confs (l + 1)" using f False unfolding lcores_filled_def by auto
      then show ?thesis using less.hyps [of "l + 1"] False step by simp
    qed
  qed
qed

lemma lcores_filled_add:
  assumes "lcores_filled enabled q confs l" "enabled l" "length (confs ! l) < q"
  shows "lcores_filled enabled q (confs[l := confs ! l @ [p]]) l" "concat (confs[l := confs ! l @ [p]]) = concat confs @ [p]"
proof -
  have l: "l < length confs" using assms(1) by (simp add: lcores_filled_def)
  show "lcores_filled enabled q (confs[l := confs ! l @ [p]]) l"
    using assms unfolding lcores_filled_def by auto
  have "\<forall>xs \<in> set (drop (Suc l) confs). xs = []"
    using assms(1) unfolding lcores_filled_def by (auto simp: in_set_conv_nth)
  then have d: "concat (drop (Suc l) confs) = []" by simp
  have "confs = take l confs @ confs ! l # drop (Suc l) confs" using l by (rule id_take_nth_drop)
  then have "concat confs = concat (take l confs) @ confs ! l @ concat (drop (Suc l) confs)" by (metis concat.simps(2) concat_append)
  then show "concat (confs[l := confs ! l @ [p]]) = concat confs @ [p]" using l d by (simp add: upd_conv_take_nth_drop)
qed

lemma assign_ports_fills:
  assumes "lcores_filled enabled q confs l" "\<forall>p \<in> set devs. p < 32"
    and "length (concat confs @ filter (bit e) devs) \<le> MAX_RX_QUEUE_PER_LCORE"
  shows "if length (concat confs @ filter (bit e) devs) \<le> lcore_capacity enabled q (length confs)
    then \<exists>confs' l'. assign_ports e enabled q devs confs l = Some (Some confs') \<and> length confs' = length confs \<and>
      lcores_filled enabled q confs' l' \<and> concat confs' = concat confs @ filter (bit e) devs
    else assign_ports e enabled q devs confs l = Some None"
  using assms
proof (induction devs arbitrary: confs l)
  case Nil
  then show ?case using lcores_filled_capacity [OF Nil.prems(1)] by auto
next
  case (Cons p devs)
  show ?case
  proof (cases "bit e p")
    case False
    then have eqs: "assign_ports e enabled q (p # devs) confs l = assign_ports e enabled q devs confs l" "filter (bit e) (p # devs) = filter (bit e) devs"
      using Cons.prems(2) by (simp_all add: and_exp_eq_0_iff_not_bit)
    show ?thesis unfolding eqs by (rule Cons.IH [OF Cons.prems(1)]) (use Cons.prems(2,3) False in auto)
  next
    case True
    consider (none) "next_lcore enabled q confs l = Some None" "length (concat confs) = lcore_capacity enabled q (length confs)"
      | (some) l' where "next_lcore enabled q confs l = Some (Some l')" "lcores_filled enabled q confs l'" "enabled l'" "length (confs ! l') < q"
      using next_lcore_finds [OF Cons.prems(1)] by blast
    then show ?thesis
    proof cases
      case none
      then show ?thesis using True Cons.prems(2) by (simp add: and_exp_eq_0_iff_not_bit)
    next
      case some
      let ?c = "confs[l' := confs ! l' @ [p]]"
      note a = lcores_filled_add [OF some(2-4), of p]
      have "length (confs ! l') \<le> length (concat confs)"
      proof -
        have "l' < length confs" using some(2) by (simp add: lcores_filled_def)
        then show ?thesis unfolding length_concat_sum by (intro member_le_sum) auto
      qed
      then have "length (confs ! l') < MAX_RX_QUEUE_PER_LCORE" using Cons.prems(3) True by simp
      then have step: "assign_ports e enabled q (p # devs) confs l = assign_ports e enabled q devs ?c l'"
        using True some(1) Cons.prems(2) by (simp add: and_exp_eq_0_iff_not_bit)
      have "length (concat ?c @ filter (bit e) devs) \<le> MAX_RX_QUEUE_PER_LCORE" using Cons.prems(3) True a(2) by simp
      moreover have "\<forall>p \<in> set devs. p < 32" using Cons.prems(2) by simp
      moreover note Cons.IH [OF a(1)]
      moreover have eqs: "concat ?c @ filter (bit e) devs = concat confs @ filter (bit e) (p # devs)" "length ?c = length confs"
        using a(2) True by simp_all
      ultimately show ?thesis unfolding step eqs by blast
    qed
  qed
qed

subsection \<open>Properties\<close>

text \<open>C32. Forwarding goes both ways. Pairs that are parsed and pass the check, and the default pairing of the enabled
  ports, both give a table in which every enabled port sends to an enabled port that sends back to it; without
  pairs a port sends to itself only if it is the last of an odd number. The check itself never shifts too far.\<close>

theorem forwarding_is_symmetric:
  assumes m: "m \<le> 32" and devs: "distinct devs" "\<forall>p \<in> set devs. p < m"
    and pairs: "snd (cms_parse_port_pair_config rte_strsplit m q_arg) = pairs"
  shows "(\<exists>r mask dst. check_port_pair_config e is_valid_port pairs = Some (r, mask) \<and>
      dst_from_pairs pairs 0 (replicate m 0) = Some dst \<and> length dst = m \<and>
      (r = 0 \<longrightarrow> (\<forall>p. bit mask p \<longrightarrow> p < m \<and> bit e p \<and> is_valid_port p \<and> bit mask (dst ! p) \<and> dst ! (dst ! p) = p))) \<and>
    (\<exists>dst. default_dst_ports e devs m = Some dst \<and> length dst = m \<and>
      (\<forall>p \<in> set (filter (bit e) devs). dst ! p \<in> set (filter (bit e) devs) \<and> dst ! (dst ! p) = p \<and>
        (dst ! p = p \<longleftrightarrow> odd (length (filter (bit e) devs)) \<and> p = last (filter (bit e) devs))))"
proof
  let ?z = "replicate m 0 :: nat list"
  have "pairs_ok m []" by (simp add: pairs_ok_def)
  then have ok: "pairs_ok m pairs" using parse_port_pairs_type pairs by (auto simp: cms_parse_port_pair_config_def)
  then have lt: "\<forall>p \<in> set pairs. ports_of p \<subseteq> {..<length ?z}" by (simp add: pairs_ok_def)
  moreover have "{..<length ?z} \<subseteq> {..<32}" using m by auto
  ultimately have lt32: "\<forall>p \<in> set pairs. ports_of p \<subseteq> {..<32}" by (metis subset_trans)
  obtain r mask where c: "check_port_pairs_from e is_valid_port pairs 0 = Some (r, mask)"
    "r = - 1 \<and> mask = e \<or> r = 0 \<and> (\<forall>p \<in> set pairs. \<forall>q \<in> ports_of p. port_ok e is_valid_port q \<and> \<not> bit (0 :: nat) q) \<and>
     disjoint_pairs pairs \<and> (\<forall>q. bit mask q \<longleftrightarrow> bit e q \<and> (bit (0 :: nat) q \<or> (\<exists>p \<in> set pairs. q \<in> ports_of p)))"
    using check_port_pairs_ok [OF lt32] by blast
  have "p < m \<and> bit e p \<and> is_valid_port p \<and> bit mask (set_pairs pairs ?z ! p) \<and> set_pairs pairs ?z ! (set_pairs pairs ?z ! p) = p"
    if r0: "r = 0" and bp: "bit mask p" for p
  proof -
    have d: "disjoint_pairs pairs" and b: "\<And>q. bit mask q \<longleftrightarrow> bit e q \<and> (\<exists>p \<in> set pairs. q \<in> ports_of p)"
      and v: "\<And>q x. x \<in> set pairs \<Longrightarrow> q \<in> ports_of x \<Longrightarrow> bit e q \<and> is_valid_port q"
      using c(2) r0 by (auto simp: port_ok_def)
    obtain x where x: "x \<in> set pairs" "p \<in> ports_of x" using bp b by blast
    note s = set_pairs_involution [OF d lt x]
    have "p < m" using lt x by auto
    then show ?thesis using s b v x by blast
  qed
  moreover have "dst_from_pairs pairs 0 ?z = Some (set_pairs pairs ?z)" using dst_from_pairs_eq [of "[]" 0 pairs ?z] lt by simp
  ultimately show "\<exists>r mask dst. check_port_pair_config e is_valid_port pairs = Some (r, mask) \<and>
      dst_from_pairs pairs 0 ?z = Some dst \<and> length dst = m \<and>
      (r = 0 \<longrightarrow> (\<forall>p. bit mask p \<longrightarrow> p < m \<and> bit e p \<and> is_valid_port p \<and> bit mask (dst ! p) \<and> dst ! (dst ! p) = p))"
    using c(1) by (intro exI [of _ r] exI [of _ mask] exI [of _ "set_pairs pairs ?z"]) (simp add: check_port_pair_config_def)
next
  let ?z = "replicate m 0 :: nat list" and ?P = "filter (bit e) devs"
  let ?dst = "set_pairs (pair_up ?P) ?z"
  have P: "distinct ?P" using devs(1) by simp
  have lt: "\<forall>x \<in> set (pair_up ?P). ports_of x \<subseteq> {..<length ?z}" using pair_up_ports [of ?P] devs(2) by fastforce
  have d: "disjoint_pairs (pair_up ?P)" by (rule pair_up_disjoint [OF P])
  have "?dst ! p \<in> set ?P \<and> ?dst ! (?dst ! p) = p \<and> (?dst ! p = p \<longleftrightarrow> odd (length ?P) \<and> p = last ?P)" if p: "p \<in> set ?P" for p
  proof -
    obtain x where x: "x \<in> set (pair_up ?P)" "p \<in> ports_of x" using pair_up_ports [of ?P] p by blast
    have "?dst ! p = p \<longleftrightarrow> port0 x = port1 x"
      using set_pairs_swap [OF d lt x(1)] x(2) by (auto simp: ports_of_def)
    then show ?thesis using set_pairs_involution [OF d lt x] pair_up_ports [of ?P] x(1) pair_up_single [OF P x] by blast
  qed
  moreover have "default_dst_ports e devs m = Some ?dst" using default_dst_ports_pairs [of devs m e] devs(2) m by force
  ultimately show "\<exists>dst. default_dst_ports e devs m = Some dst \<and> length dst = m \<and>
      (\<forall>p \<in> set ?P. dst ! p \<in> set ?P \<and> dst ! (dst ! p) = p \<and> (dst ! p = p \<longleftrightarrow> odd (length ?P) \<and> p = last ?P))"
    by (intro exI [of _ ?dst]) simp
qed

theorem forwarding_is_symmetric_witness:
  "\<exists>dst. default_dst_ports 0xB [0, 1, 2, 3] 32 = Some dst \<and> dst ! 0 = 1 \<and> dst ! 3 = 3"
proof -
  have P: "filter (bit (0xB :: nat)) [0, 1, 2, 3] = [0, 1, 3]" by (simp add: bit_iff_odd numeral_3_eq_3)
  have "\<exists>dst. default_dst_ports 0xB [0, 1, 2, 3] 32 = Some dst \<and> dst ! 3 = 3 \<and> dst ! 0 \<in> {0, 1, 3} \<and> dst ! 0 \<noteq> 0 \<and> dst ! (dst ! 0) = 0"
    using forwarding_is_symmetric [of 32 "[0, 1, 2, 3]" "\<lambda>s n d. split_at [] d s" "[]" _ "0xB" "\<lambda>p. True"] unfolding P by force
  then obtain dst where "default_dst_ports 0xB [0, 1, 2, 3] 32 = Some dst" "dst ! 3 = 3" "dst ! 0 \<in> {0, 1, 3}" "dst ! 0 \<noteq> 0" "dst ! (dst ! 0) = 0"
    by blast
  then show ?thesis by (intro exI [of _ dst]) auto
qed

text \<open>The distribution over the lcores succeeds exactly when the enabled ports fit: each enabled lcore takes up to
  \<open>cms_rx_queue_per_lcore\<close>. Then every enabled port is given to one lcore, in order, and no
  lcore gets more than its share or anything when it is not enabled; otherwise the program exits.\<close>

theorem ports_assigned_to_lcores:
  assumes "distinct devs" "\<forall>p \<in> set devs. p < 32" "0 < n"
  shows "if length (filter (bit e) devs) \<le> rx_queue_per_lcore * card {k. k < n \<and> enabled k}
    then \<exists>confs. assign_ports e enabled rx_queue_per_lcore devs (replicate n []) 0 = Some (Some confs) \<and> length confs = n \<and>
      concat confs = filter (bit e) devs \<and> (\<forall>k < n. length (confs ! k) \<le> (if enabled k then rx_queue_per_lcore else 0))
    else assign_ports e enabled rx_queue_per_lcore devs (replicate n []) 0 = Some None"
proof -
  let ?c = "replicate n [] :: nat list list"
  have f: "lcores_filled enabled rx_queue_per_lcore ?c 0" using assms(3) by (simp add: lcores_filled_def)
  have "length (filter (bit e) devs) \<le> card {..<32 :: nat}"
    using distinct_card [of "filter (bit e) devs"] assms(1,2) card_mono [of "{..<32}" "set (filter (bit e) devs)"] by fastforce
  then have "length (concat ?c @ filter (bit e) devs) \<le> MAX_RX_QUEUE_PER_LCORE" by (simp add: MAX_RX_QUEUE_PER_LCORE_def)
  from assign_ports_fills [OF f assms(2) this]
  show ?thesis using lcores_filled_bound by (fastforce simp: lcore_capacity_def)
qed

theorem ports_assigned_to_lcores_witness:
  "assign_ports 0xF (\<lambda>k. True) 1 [0, 1, 2, 3] (replicate 3 []) 0 = Some None \<and>
   (\<exists>confs. assign_ports 0xF (\<lambda>k. True) 2 [0, 1, 2, 3] (replicate 3 []) 0 = Some (Some confs) \<and> concat confs = [0, 1, 2, 3])"
proof -
  have P: "filter (bit (0xF :: nat)) [0, 1, 2, 3] = [0, 1, 2, 3]" by (simp add: bit_iff_odd numeral_3_eq_3)
  have c: "card {k. k < (3 :: nat)} = 3" by simp
  show ?thesis
    using ports_assigned_to_lcores [of "[0, 1, 2, 3]" 3 "0xF" 1 "\<lambda>k. True"] ports_assigned_to_lcores [of "[0, 1, 2, 3]" 3 "0xF" 2 "\<lambda>k. True"]
    unfolding P by (auto simp: c)
qed

end
