(* ===== verification/Locality.thy ===== *)
theory Locality
  imports Complex_Main Port_Pairs Nf_Args Sketch
begin

section \<open>The locality program\<close>

text \<open>
  The options, the packet loop and the rewriting of addresses of \<^verbatim>\<open>src/locality/main.c\<close>. The card is a function
  \<open>rx\<close> that hands out the packets of a queue of a port; \<open>force_quit\<close>, the clock and prefetching are left out. A \<open>double\<close> is
  a rational number: rounding is not modelled, and the property below shows that only zeros occur.
\<close>

subsection \<open>Options\<close>

definition strtol10 :: "string \<Rightarrow> int \<times> string" where
  "strtol10 s =
     (let t = dropWhile isspace s;
          neg = (char_at t = CHR ''-'');
          u = (if char_at t = CHR ''-'' \<or> char_at t = CHR ''+'' then tl t else t);
          ds = takeWhile (\<lambda>c. digit_value c < 10) u;
          v = int (digits 10 ds)
      in if ds = [] then (0, s)
         else (max (- (2 ^ 63)) (min (2 ^ 63 - 1) (if neg then - v else v)), dropWhile (\<lambda>c. digit_value c < 10) u))"

definition MAX_TIMER_PERIOD :: int where "MAX_TIMER_PERIOD = 86400"

record loc_args =
  columns :: nat
  rx_descriptors :: nat
  aggressive :: bool
  prefetch_distance :: nat
  port_mask :: nat
  rx_queue_per_lcore :: nat
  timer_period :: int
  mac_updating :: bool
  port_pairs :: "port_pair_params list option"

text \<open>The result is an \<open>int\<close> that is stored in a \<open>uint32_t\<close>.\<close>

definition cms_parse_portmask :: "string \<Rightarrow> nat" where
  "cms_parse_portmask portmask =
     (let (pm, rest, err) = strtoul 16 portmask
      in if portmask = [] \<or> rest \<noteq> [] then 0 else u32 pm)"

definition cms_parse_nqueue :: "string \<Rightarrow> nat" where
  "cms_parse_nqueue q_arg =
     (let (n, rest, err) = strtoul 10 q_arg
      in if q_arg = [] \<or> rest \<noteq> [] then 0 else if n = 0 then 0 else u32 n)"

definition cms_parse_timer_period :: "string \<Rightarrow> int" where
  "cms_parse_timer_period q_arg =
     (let (v, rest) = strtol10 q_arg; n = to_int32 (nat (v mod 2 ^ 32))
      in if q_arg = [] \<or> rest \<noteq> [] then - 1 else if MAX_TIMER_PERIOD \<le> n then - 1 else n)"

text \<open>For the two options of the MAC addresses \<open>getopt_long\<close> sets the flag and returns 0, which the
  \<open>switch\<close> does not list.\<close>

definition loc_option ::
  "(string \<Rightarrow> nat \<Rightarrow> char \<Rightarrow> string list) \<Rightarrow> nat \<Rightarrow> cmd_option \<Rightarrow> loc_args \<Rightarrow> int \<times> loc_args" where
  "loc_option rte_strsplit max_ethports opt st =
     (case opt of
        Short_option c optarg \<Rightarrow>
          if c = CHR ''c'' then
            let st = st\<lparr>columns := cms_parse_nqueue optarg\<rparr>
            in (if columns st = 0 \<or> columns st AND (columns st - 1) \<noteq> 0 then - 1 else 0, st)
          else if c = CHR ''d'' then
            let st = st\<lparr>rx_descriptors := cms_parse_nqueue optarg mod 2 ^ 16\<rparr>
            in (if rx_descriptors st < 32 \<or> rx_descriptors st AND (rx_descriptors st - 1) \<noteq> 0 then - 1 else 0, st)
          else if c = CHR ''a'' then (0, st\<lparr>aggressive := True\<rparr>)
          else if c = CHR ''p'' then (0, st\<lparr>prefetch_distance := nat (fst (strtol10 optarg) mod 2 ^ 32)\<rparr>)
          else if c = CHR ''P'' then
            let st = st\<lparr>port_mask := cms_parse_portmask optarg\<rparr> in (if port_mask st = 0 then - 1 else 0, st)
          else if c = CHR ''q'' then
            let st = st\<lparr>rx_queue_per_lcore := cms_parse_nqueue optarg\<rparr>
            in (if rx_queue_per_lcore st = 0 then - 1 else 0, st)
          else if c = CHR ''T'' then
            let timer_secs = cms_parse_timer_period optarg
            in if timer_secs < 0 then (- 1, st) else (0, st\<lparr>timer_period := timer_secs\<rparr>)
          else (- 1, st)
      | Long_option name optarg inner \<Rightarrow>
          if name = ''portmap'' then
            let (ret, ps) = cms_parse_port_pair_config rte_strsplit max_ethports optarg
            in if ret \<noteq> 0 then (- 1, st) else (0, st\<lparr>port_pairs := Some ps\<rparr>)
          else if name = ''mac-updating'' then (- 1, st\<lparr>mac_updating := True\<rparr>)
          else if name = ''no-mac-updating'' then (- 1, st\<lparr>mac_updating := False\<rparr>)
          else (- 1, st)
      | Other_option \<Rightarrow> (- 1, st))"

fun cms_parse_args ::
  "(string \<Rightarrow> nat \<Rightarrow> char \<Rightarrow> string list) \<Rightarrow> nat \<Rightarrow> cmd_option list \<Rightarrow> loc_args \<Rightarrow> int \<times> loc_args" where
  "cms_parse_args rte_strsplit max_ethports [] st = (0, st)"
| "cms_parse_args rte_strsplit max_ethports (opt # opts) st =
     (let (ret, st') = loc_option rte_strsplit max_ethports opt st
      in if ret < 0 then (- 1, st') else cms_parse_args rte_strsplit max_ethports opts st')"

definition initial_loc_args :: loc_args where
  "initial_loc_args = \<lparr>columns = 1048576, rx_descriptors = 1024, aggressive = False, prefetch_distance = 4, port_mask = 0,
     rx_queue_per_lcore = 2, timer_period = 10, mac_updating = True, port_pairs = None\<rparr>"

subsection \<open>Packets\<close>

definition cms_mac_updating :: "bytes list \<Rightarrow> bytes \<Rightarrow> nat \<Rightarrow> bytes option" where
  "cms_mac_updating cms_ports_eth_addr m dest_portid = do {
     m \<leftarrow> store_bytes m 0 (le_bytes 8 ((2 + dest_portid * 2 ^ 40) mod 2 ^ 64));
     addr \<leftarrow> arr_get cms_ports_eth_addr (int dest_portid);
     store_bytes m 6 addr
   }"

text \<open>The flow of a packet that the loop prints; \<open>Some None\<close> is a packet that is only freed.\<close>

definition locality_flow :: "bytes \<Rightarrow> five_tuple option option" where
  "locality_flow m = do {
     ether_type \<leftarrow> load_be16 m 12;
     if ether_type \<noteq> 0x0800 then Some None
     else do {
       src \<leftarrow> load_be32 m 26;
       dst \<leftarrow> load_be32 m 30;
       prt \<leftarrow> arr_get m 23;
       if prt = 6 then do {
         sp \<leftarrow> load_be16 m 34;
         dp \<leftarrow> load_be16 m 36;
         Some (Some \<lparr>src_ip = src, dst_ip = dst, src_port = sp, dst_port = dp, proto = prt\<rparr>)
       } else if prt = 17 then do {
         sp \<leftarrow> load_be16 m 34;
         dp \<leftarrow> load_be16 m 36;
         Some (Some \<lparr>src_ip = src, dst_ip = dst, src_port = sp, dst_port = dp, proto = prt\<rparr>)
       } else Some None
     }
   }"

record 'e loc_state =
  loc_nic :: 'e
  rx_count :: "nat \<Rightarrow> nat \<Rightarrow> nat"
  freed :: "bytes list"
  printed :: "(nat \<times> nat \<times> five_tuple) list"
  burst_id :: nat
  global_total_locality :: rat
  global_flow_blocks :: nat
  global_packets :: nat
  global_avg_sum :: rat
  total_bursts :: nat
  global_max_locality :: nat

fun locality_packets :: "nat \<Rightarrow> bytes list \<Rightarrow> 'e loc_state \<Rightarrow> 'e loc_state option" where
  "locality_packets q [] st = Some st"
| "locality_packets q (m # ms) st = do {
     flow \<leftarrow> locality_flow m;
     let st = (case flow of
         None \<Rightarrow> st\<lparr>freed := freed st @ [m]\<rparr>
       | Some k \<Rightarrow> st\<lparr>printed := printed st @ [(burst_id st, q, k)], freed := freed st @ [m]\<rparr>);
     locality_packets q ms st
   }"

text \<open>One burst. The block that would count localities is commented out, so that \<open>first_packet\<close> stays set.\<close>

definition locality_burst ::
  "nat \<Rightarrow> ('e \<Rightarrow> nat \<Rightarrow> nat \<Rightarrow> bytes list \<times> 'e) \<Rightarrow> nat \<Rightarrow> nat \<Rightarrow> 'e loc_state \<Rightarrow> 'e loc_state option" where
  "locality_burst max_ethports rx portid q st = do {
     let (pkts_burst, e) = rx (loc_nic st) portid q;
     let nb_rx = length pkts_burst;
     let locality_factor = (0 :: nat);
     let total_locality = 0;
     let flow_blocks = 0;
     let max_locality_factor = 0;
     let first_packet = True;
     if \<not> (portid < max_ethports \<and> q < MAX_RX_QUEUE_PER_LCORE) then None
     else do {
       st \<leftarrow> locality_packets q pkts_burst
         (st\<lparr>loc_nic := e, rx_count := (rx_count st)(portid := (rx_count st portid)(q := (rx_count st portid q + nb_rx) mod 2 ^ 64))\<rparr>);
       let (total_locality, flow_blocks) = (if \<not> first_packet then (total_locality + locality_factor, flow_blocks + 1)
                                            else (total_locality, flow_blocks));
       let avg_locality_burst = (if 0 < flow_blocks then of_nat total_locality / of_nat flow_blocks else 0);
       Some (st\<lparr>burst_id := (burst_id st + 1) mod 2 ^ 64,
         global_total_locality := global_total_locality st + of_nat total_locality,
         global_flow_blocks := (global_flow_blocks st + flow_blocks) mod 2 ^ 64,
         global_packets := (global_packets st + nb_rx) mod 2 ^ 64,
         global_avg_sum := global_avg_sum st + avg_locality_burst,
         total_bursts := (total_bursts st + 1) mod 2 ^ 64,
         global_max_locality := (if global_max_locality st < max_locality_factor then max_locality_factor else global_max_locality st)\<rparr>)
     }
   }"

function locality_queues ::
  "nat \<Rightarrow> ('e \<Rightarrow> nat \<Rightarrow> nat \<Rightarrow> bytes list \<times> 'e) \<Rightarrow> nat \<Rightarrow> nat \<Rightarrow> nat \<Rightarrow> 'e loc_state \<Rightarrow> 'e loc_state option" where
  "locality_queues max_ethports rx n portid q st =
     (if q < n then Option.bind (locality_burst max_ethports rx portid q st) (locality_queues max_ethports rx n portid (q + 1))
      else Some st)"
  by pat_completeness auto
termination
  by (relation "measure (\<lambda>(m, rx, n, p, q, st). n - q)") auto

declare locality_queues.simps [simp del]

fun locality_ports ::
  "nat \<Rightarrow> ('e \<Rightarrow> nat \<Rightarrow> nat \<Rightarrow> bytes list \<times> 'e) \<Rightarrow> nat \<Rightarrow> nat list \<Rightarrow> 'e loc_state \<Rightarrow> 'e loc_state option" where
  "locality_ports max_ethports rx n [] st = Some st"
| "locality_ports max_ethports rx n (portid # ports) st =
     Option.bind (locality_queues max_ethports rx n portid 0 st) (locality_ports max_ethports rx n ports)"

subsection \<open>Well-formed settings\<close>

definition loc_args_ok :: "nat \<Rightarrow> loc_args \<Rightarrow> bool" where
  "loc_args_ok m st \<longleftrightarrow> (\<exists>k \<in> {0..<32}. columns st = 2 ^ k) \<and> (\<exists>k \<in> {5..<16}. rx_descriptors st = 2 ^ k) \<and>
     prefetch_distance st < 2 ^ 32 \<and> port_mask st < 2 ^ 32 \<and> 0 < rx_queue_per_lcore st \<and> rx_queue_per_lcore st < 2 ^ 32 \<and>
     0 \<le> timer_period st \<and> timer_period st < MAX_TIMER_PERIOD \<and> mac_updating st \<and>
     (\<forall>ps. port_pairs st = Some ps \<longrightarrow> pairs_ok m ps)"

lemma cms_parse_nqueue_bound: "cms_parse_nqueue s < 2 ^ 32"
  using u32_bound by (simp add: cms_parse_nqueue_def Let_def split: prod.split)

lemma loc_option_ok:
  assumes ok: "loc_args_ok m st" and o: "loc_option sp m opt st = (r, st')"
  shows "r = - 1 \<or> r = 0 \<and> loc_args_ok m st'"
proof (cases opt)
  case (Short_option c optarg)
  let ?n = "cms_parse_nqueue optarg" and ?d = "cms_parse_nqueue optarg mod 2 ^ 16"
  have col: "\<exists>k \<in> {0..<32}. ?n = 2 ^ k" if "?n \<noteq> 0" "?n AND (?n - 1) = 0"
    using power_of_two_range [of 0 ?n 32] cms_parse_nqueue_bound that by simp
  have des: "\<exists>k \<in> {5..<16}. ?d = 2 ^ k" if "\<not> ?d < 32" "?d AND (?d - 1) = 0"
    using power_of_two_range [of 5 ?d 16] that by simp
  have msk: "cms_parse_portmask optarg < 2 ^ 32"
    using u32_bound by (simp add: cms_parse_portmask_def Let_def split: prod.split)
  have tim: "cms_parse_timer_period optarg < MAX_TIMER_PERIOD"
    by (simp add: cms_parse_timer_period_def MAX_TIMER_PERIOD_def Let_def split: prod.split)
  have pre: "nat (fst (strtol10 optarg) mod 2 ^ 32) < 2 ^ 32" by (simp add: nat_less_iff)
  have "c \<in> {CHR ''c'', CHR ''d'', CHR ''a'', CHR ''p'', CHR ''P'', CHR ''q'', CHR ''T''} \<or>
    c \<notin> {CHR ''c'', CHR ''d'', CHR ''a'', CHR ''p'', CHR ''P'', CHR ''q'', CHR ''T''}" by blast
  then consider "c = CHR ''c''" | "c = CHR ''d''" | "c = CHR ''a''" | "c = CHR ''p''" | "c = CHR ''P''" | "c = CHR ''q''" | "c = CHR ''T''"
    | "c \<notin> {CHR ''c'', CHR ''d'', CHR ''a'', CHR ''p'', CHR ''P'', CHR ''q'', CHR ''T''}" by blast
  then show ?thesis
  proof cases
    case 1
    then show ?thesis using o ok col Short_option by (auto simp: loc_option_def Let_def loc_args_ok_def split: if_splits)
  next
    case 2
    then show ?thesis using o ok des Short_option by (auto simp: loc_option_def Let_def loc_args_ok_def split: if_splits)
  next
    case 3
    then show ?thesis using o ok Short_option by (auto simp: loc_option_def Let_def loc_args_ok_def)
  next
    case 4
    then show ?thesis using o ok pre Short_option by (auto simp: loc_option_def Let_def loc_args_ok_def)
  next
    case 5
    then show ?thesis using o ok msk Short_option by (auto simp: loc_option_def Let_def loc_args_ok_def split: if_splits)
  next
    case 6
    then show ?thesis using o ok cms_parse_nqueue_bound Short_option
      by (auto simp: loc_option_def Let_def loc_args_ok_def split: if_splits)
  next
    case 7
    then show ?thesis using o ok tim Short_option by (auto simp: loc_option_def Let_def loc_args_ok_def split: if_splits)
  next
    case 8
    then show ?thesis using o Short_option by (auto simp: loc_option_def)
  qed
next
  case (Long_option name optarg inner)
  obtain ret ps where p: "cms_parse_port_pair_config sp m optarg = (ret, ps)" by fastforce
  have "pairs_ok m []" by (simp add: pairs_ok_def)
  then have "pairs_ok m ps" using parse_port_pairs_type [of m "[]" sp optarg] p by (simp add: cms_parse_port_pair_config_def)
  then show ?thesis using o ok Long_option p by (auto simp: loc_option_def loc_args_ok_def split: if_splits)
next
  case Other_option
  then show ?thesis using o by (simp add: loc_option_def)
qed

lemma cms_parse_args_ok:
  "loc_args_ok m st \<Longrightarrow> fst (cms_parse_args sp m opts st) = - 1 \<or>
    fst (cms_parse_args sp m opts st) = 0 \<and> loc_args_ok m (snd (cms_parse_args sp m opts st))"
proof (induction opts arbitrary: st)
  case (Cons opt opts)
  obtain r st1 where s: "loc_option sp m opt st = (r, st1)" by fastforce
  then have "r = - 1 \<or> r = 0 \<and> loc_args_ok m st1" using loc_option_ok [OF Cons.prems] by blast
  then show ?case using Cons.IH [of st1] s by auto
qed simp

lemma initial_loc_args_ok: "loc_args_ok m initial_loc_args"
proof -
  have "\<exists>k \<in> {0..<32}. (1048576 :: nat) = 2 ^ k" by (rule bexI [of _ 20]) auto
  moreover have "\<exists>k \<in> {5..<16}. (1024 :: nat) = 2 ^ k" by (rule bexI [of _ 10]) auto
  ultimately show ?thesis by (simp add: loc_args_ok_def initial_loc_args_def MAX_TIMER_PERIOD_def)
qed

text \<open>A documented option that is never accepted.\<close>

lemma mac_option_rejected:
  "Long_option name optarg inner \<in> set opts \<Longrightarrow> name \<noteq> ''portmap'' \<Longrightarrow> fst (cms_parse_args sp m opts st) = - 1"
proof (induction opts arbitrary: st)
  case (Cons opt opts)
  obtain r st1 where s: "loc_option sp m opt st = (r, st1)" by fastforce
  show ?case
  proof (cases "opt = Long_option name optarg inner")
    case True
    then have "r = - 1" using s Cons.prems(2) by (auto simp: loc_option_def split: if_splits)
    then show ?thesis using s by simp
  next
    case False
    then show ?thesis using s Cons by auto
  qed
qed simp

subsection \<open>A pass over the queues\<close>

text \<open>What the card hands out when the queues are polled one after the other.\<close>

fun polls :: "('e \<Rightarrow> nat \<Rightarrow> nat \<Rightarrow> bytes list \<times> 'e) \<Rightarrow> (nat \<times> nat) list \<Rightarrow> 'e \<Rightarrow> bytes list list \<times> 'e" where
  "polls rx [] e = ([], e)"
| "polls rx (x # xs) e =
     (let (b, e) = rx e (fst x) (snd x); (bs, e) = polls rx xs e in (b # bs, e))"

text \<open>The TCP and UDP flows of the packets, as the sketch of nf-chain reads them.\<close>

definition tcp_udp_flow :: "bytes \<Rightarrow> five_tuple option" where
  "tcp_udp_flow m = (case packet_tuple m of
     Some (Some k) \<Rightarrow> if proto k = 6 \<or> proto k = 17 then Some k else None | _ \<Rightarrow> None)"

lemma locality_flow_some:
  assumes "38 \<le> length m"
  shows "locality_flow m = Some (tcp_udp_flow m)"
proof -
  obtain et sa da prt sp dp where "load_be16 m 12 = Some et" "load_be32 m 26 = Some sa" "load_be32 m 30 = Some da"
    "arr_get m 23 = Some prt" "load_be16 m 34 = Some sp" "load_be16 m 36 = Some dp"
    using assms by (simp add: load_be16_def load_be32_def load_bytes_def arr_get_some)
  then show ?thesis by (simp add: locality_flow_def tcp_udp_flow_def packet_tuple_def)
qed

text \<open>The effect of bursts.\<close>

definition locality_effect :: "bytes list list \<Rightarrow> 'e loc_state \<Rightarrow> 'e loc_state \<Rightarrow> bool" where
  "locality_effect bs st st' \<longleftrightarrow> freed st' = freed st @ concat bs \<and>
     map (snd \<circ> snd) (printed st') = map (snd \<circ> snd) (printed st) @ List.map_filter tcp_udp_flow (concat bs) \<and>
     global_packets st' mod 2 ^ 64 = (global_packets st + length (concat bs)) mod 2 ^ 64 \<and>
     total_bursts st' mod 2 ^ 64 = (total_bursts st + length bs) mod 2 ^ 64 \<and>
     global_total_locality st' = global_total_locality st \<and> global_flow_blocks st' mod 2 ^ 64 = global_flow_blocks st mod 2 ^ 64 \<and>
     global_avg_sum st' = global_avg_sum st \<and> global_max_locality st' = global_max_locality st"

lemma map_filter_append [simp]: "List.map_filter f (xs @ ys) = List.map_filter f xs @ List.map_filter f ys"
  by (simp add: List.map_filter_def)

lemma locality_effect_trans:
  assumes "locality_effect bs st st1" "locality_effect bs' st1 st2"
  shows "locality_effect (bs @ bs') st st2"
proof -
  note a = assms [unfolded locality_effect_def]
  have "(global_packets st1 + length (concat bs')) mod 2 ^ 64 = (global_packets st + length (concat bs) + length (concat bs')) mod 2 ^ 64"
    using a(1) by (metis mod_add_left_eq)
  moreover have "(total_bursts st1 + length bs') mod 2 ^ 64 = (total_bursts st + length bs + length bs') mod 2 ^ 64"
    using a(1) by (metis mod_add_left_eq)
  ultimately show ?thesis using a unfolding locality_effect_def by (simp add: add.assoc)
qed

lemma locality_effect_refl: "locality_effect [] st st"
  by (simp add: locality_effect_def List.map_filter_def)

lemma locality_packets_effect:
  "\<forall>m \<in> set ms. 38 \<le> length m \<Longrightarrow> \<exists>st'. locality_packets q ms st = Some st' \<and> loc_nic st' = loc_nic st \<and>
    freed st' = freed st @ ms \<and> map (snd \<circ> snd) (printed st') = map (snd \<circ> snd) (printed st) @ List.map_filter tcp_udp_flow ms \<and>
    global_packets st' = global_packets st \<and> total_bursts st' = total_bursts st \<and>
    global_total_locality st' = global_total_locality st \<and> global_flow_blocks st' = global_flow_blocks st \<and>
    global_avg_sum st' = global_avg_sum st \<and> global_max_locality st' = global_max_locality st"
proof (induction ms arbitrary: st)
  case Nil
  then show ?case by (simp add: List.map_filter_def)
next
  case (Cons m ms)
  have f: "locality_flow m = Some (tcp_udp_flow m)" using locality_flow_some Cons.prems by simp
  have ms: "\<forall>m \<in> set ms. 38 \<le> length m" using Cons.prems by simp
  show ?case
  proof (cases "tcp_udp_flow m")
    case None
    then show ?thesis using Cons.IH [OF ms, of "st\<lparr>freed := freed st @ [m]\<rparr>"] f by (auto simp: List.map_filter_def)
  next
    case (Some k)
    then show ?thesis
      using Cons.IH [OF ms, of "st\<lparr>printed := printed st @ [(burst_id st, q, k)], freed := freed st @ [m]\<rparr>"] f
      by (auto simp: List.map_filter_def)
  qed
qed

lemma locality_burst_effect:
  assumes "portid < max_ethports" "q < MAX_RX_QUEUE_PER_LCORE" "\<forall>m \<in> set (fst (rx (loc_nic st) portid q)). 38 \<le> length m"
  shows "\<exists>st'. locality_burst max_ethports rx portid q st = Some st' \<and> loc_nic st' = snd (rx (loc_nic st) portid q) \<and>
    locality_effect [fst (rx (loc_nic st) portid q)] st st'"
proof -
  obtain b e where b: "rx (loc_nic st) portid q = (b, e)" by fastforce
  then have l: "\<forall>m \<in> set b. 38 \<le> length m" using assms(3) by simp
  from locality_packets_effect [OF l, of q "st\<lparr>loc_nic := e,
    rx_count := (rx_count st)(portid := (rx_count st portid)(q := (rx_count st portid q + length b) mod 2 ^ 64))\<rparr>"]
  show ?thesis using assms(1,2) b by (auto simp: locality_burst_def locality_effect_def)
qed

lemma locality_queues_effect:
  assumes "portid < max_ethports" "n \<le> MAX_RX_QUEUE_PER_LCORE" "\<forall>e p q. \<forall>m \<in> set (fst (rx e p q)). 38 \<le> length m"
  shows "q \<le> n \<Longrightarrow> \<exists>st'. locality_queues max_ethports rx n portid q st = Some st' \<and>
    loc_nic st' = snd (polls rx (map (Pair portid) [q..<n]) (loc_nic st)) \<and>
    locality_effect (fst (polls rx (map (Pair portid) [q..<n]) (loc_nic st))) st st'"
proof (induction "n - q" arbitrary: q st)
  case 0
  then show ?case by (simp add: locality_queues.simps [of _ _ _ _ q] locality_effect_refl)
next
  case (Suc k)
  then have q: "q < n" "q < MAX_RX_QUEUE_PER_LCORE" using assms(2) by auto
  have "\<forall>m \<in> set (fst (rx (loc_nic st) portid q)). 38 \<le> length m" using assms(3) by blast
  from locality_burst_effect [of portid max_ethports q rx st, OF assms(1) q(2) this] obtain st1 where st1: "locality_burst max_ethports rx portid q st = Some st1"
    "loc_nic st1 = snd (rx (loc_nic st) portid q)" "locality_effect [fst (rx (loc_nic st) portid q)] st st1" by blast
  have step: "locality_queues max_ethports rx n portid q st = locality_queues max_ethports rx n portid (q + 1) st1"
    using q st1(1) by (subst locality_queues.simps) simp
  have "k = n - (q + 1)" "q + 1 \<le> n" using Suc.hyps(2) q by auto
  from Suc.hyps(1) [OF this, of st1] obtain st2 where st2: "locality_queues max_ethports rx n portid (q + 1) st1 = Some st2"
    "loc_nic st2 = snd (polls rx (map (Pair portid) [q + 1..<n]) (loc_nic st1))"
    "locality_effect (fst (polls rx (map (Pair portid) [q + 1..<n]) (loc_nic st1))) st1 st2" by blast
  have u: "[q..<n] = q # [q + 1..<n]" using q by (simp add: upt_conv_Cons)
  show ?case using step st2 st1(2) locality_effect_trans [OF st1(3) st2(3)] unfolding u
    by (simp add: Let_def case_prod_beta)
qed

lemma polls_append:
  "polls rx (xs @ ys) e = (fst (polls rx xs e) @ fst (polls rx ys (snd (polls rx xs e))), snd (polls rx ys (snd (polls rx xs e))))"
  by (induction xs arbitrary: e) (auto simp: Let_def split: prod.split)

definition all_queues :: "nat list \<Rightarrow> nat \<Rightarrow> (nat \<times> nat) list" where
  "all_queues ports n = concat (map (\<lambda>p. map (Pair p) [0..<n]) ports)"

lemma locality_ports_effect:
  assumes "n \<le> MAX_RX_QUEUE_PER_LCORE" "\<forall>e p q. \<forall>m \<in> set (fst (rx e p q)). 38 \<le> length m"
  shows "\<forall>p \<in> set ports. p < max_ethports \<Longrightarrow> \<exists>st'. locality_ports max_ethports rx n ports st = Some st' \<and>
    locality_effect (fst (polls rx (all_queues ports n) (loc_nic st))) st st'"
proof (induction ports arbitrary: st)
  case Nil
  then show ?case by (simp add: all_queues_def locality_effect_refl)
next
  case (Cons p ports)
  have p: "p < max_ethports" using Cons.prems by simp
  from locality_queues_effect [OF p assms, of 0 st] obtain st1 where st1: "locality_queues max_ethports rx n p 0 st = Some st1"
    "loc_nic st1 = snd (polls rx (map (Pair p) [0..<n]) (loc_nic st))"
    "locality_effect (fst (polls rx (map (Pair p) [0..<n]) (loc_nic st))) st st1" by auto
  from Cons.IH [of st1] Cons.prems obtain st2 where st2: "locality_ports max_ethports rx n ports st1 = Some st2"
    "locality_effect (fst (polls rx (all_queues ports n) (loc_nic st1))) st1 st2" by auto
  have a: "all_queues (p # ports) n = map (Pair p) [0..<n] @ all_queues ports n" by (simp add: all_queues_def)
  show ?case using st1(1,2) st2(1) locality_effect_trans [OF st1(3) st2(2)] by (simp add: a polls_append)
qed

subsection \<open>Rewritten addresses\<close>

lemma cms_mac_updating_effect:
  assumes "14 \<le> length m" "p < 256" "p < length addrs" "length (addrs ! p) = 6"
  shows "cms_mac_updating addrs m p = Some ([2, 0, 0, 0, 0, of_nat p] @ addrs ! p @ drop 12 m)"
proof -
  have m: "(2 + p * 2 ^ 40) mod 2 ^ 64 = 2 + p * 2 ^ 40" using assms(2) by simp
  have v: "le_val [2, 0, 0, 0, 0, of_nat p, 0, 0] = 2 + p * 2 ^ 40" using assms(2) by (simp add: unat_of_nat take_bit_eq_mod)
  have l: "length [2, 0, 0, 0, 0, of_nat p :: 8 word, 0, 0] = 8" by simp
  have b: "le_bytes 8 (2 + p * 2 ^ 40) = [2, 0, 0, 0, 0, of_nat p, 0, 0]"
    using le_bytes_le_val [of "[2, 0, 0, 0, 0, of_nat p, 0, 0]"] unfolding v l .
  have "store_bytes m 0 [2, 0, 0, 0, 0, of_nat p, 0, 0] = Some ([2, 0, 0, 0, 0, of_nat p, 0, 0] @ drop 8 m)"
    using assms(1) by (simp add: store_bytes_def) (simp add: numeral_eq_Suc)
  moreover have "store_bytes ([2, 0, 0, 0, 0, of_nat p, 0, 0] @ drop 8 m) 6 (addrs ! p) =
      Some ([2, 0, 0, 0, 0, of_nat p] @ addrs ! p @ drop 12 m)"
    using assms(1,4) by (simp add: store_bytes_def)
  ultimately show ?thesis using assms(3) unfolding cms_mac_updating_def m b by (simp add: arr_get_some)
qed

subsection \<open>Properties\<close>

text \<open>The state in which the loop begins.\<close>

definition loc_start :: "'e \<Rightarrow> 'e loc_state" where
  "loc_start e = \<lparr>loc_nic = e, rx_count = (\<lambda>p q. 0), freed = [], printed = [], burst_id = 0, global_total_locality = 0,
     global_flow_blocks = 0, global_packets = 0, global_avg_sum = 0, total_bursts = 0, global_max_locality = 0\<rparr>"

lemma length_polls: "length (fst (polls rx xs e)) = length xs"
  by (induction xs arbitrary: e) (simp_all add: Let_def case_prod_beta)

lemma length_all_queues: "length (all_queues ports n) = length ports * n"
  by (induction ports) (simp_all add: all_queues_def)

text \<open>C33. A pass over the queues of all ports never leaves an array; every packet received is freed exactly once, in
  order; the TCP and UDP flows among them are printed, in order, as the sketch of nf-chain reads them; all
  packets and bursts are counted. But no block of a flow is: the reported localities are always zero.\<close>

theorem locality_pass:
  assumes "n \<le> MAX_RX_QUEUE_PER_LCORE" "\<forall>p \<in> set ports. p < max_ethports"
    and "\<forall>e p q. \<forall>m \<in> set (fst (rx e p q)). 38 \<le> length m"
    and bs: "bs = fst (polls rx (all_queues ports n) e)"
  shows "\<exists>st. locality_ports max_ethports rx n ports (loc_start e) = Some st \<and> freed st = concat bs \<and>
    map (snd \<circ> snd) (printed st) = List.map_filter tcp_udp_flow (concat bs) \<and>
    global_packets st mod 2 ^ 64 = length (concat bs) mod 2 ^ 64 \<and> total_bursts st mod 2 ^ 64 = length ports * n mod 2 ^ 64 \<and>
    global_total_locality st = 0 \<and> global_avg_sum st = 0 \<and> global_max_locality st = 0 \<and> global_flow_blocks st mod 2 ^ 64 = 0"
  using locality_ports_effect [OF assms(1,3,2), of "loc_start e"] bs length_polls [of rx "all_queues ports n" e]
  by (auto simp: locality_effect_def loc_start_def length_all_queues)

theorem locality_pass_witness:
  "\<exists>st. locality_ports 2 (\<lambda>e p q. ([udp_sample, replicate 38 0], ())) 1 [0, 1] (loc_start ()) = Some st \<and>
    freed st = [udp_sample, replicate 38 0, udp_sample, replicate 38 0] \<and>
    map (snd \<circ> snd) (printed st) = [udp_flow, udp_flow] \<and> global_max_locality st = 0"
proof -
  let ?rx = "\<lambda>e (p :: nat) (q :: nat). ([udp_sample, replicate 38 0], ())"
  have l: "\<forall>e p q. \<forall>m \<in> set (fst (?rx e p q)). 38 \<le> length m" by (simp add: length_udp_sample)
  have p: "concat (fst (polls ?rx (all_queues [0, 1] 1) ())) = [udp_sample, replicate 38 0, udp_sample, replicate 38 0]"
    by (simp add: all_queues_def)
  have f: "tcp_udp_flow udp_sample = Some udp_flow" "tcp_udp_flow (replicate 38 0) = None"
  proof -
    show "tcp_udp_flow udp_sample = Some udp_flow" by (simp add: tcp_udp_flow_def udp_sample_tuple udp_flow_def)
    have "load_be16 (replicate 38 0) 12 = Some 0" by (simp add: load_be16_def load_bytes_def numeral_2_eq_2)
    then show "tcp_udp_flow (replicate 38 0) = None" by (simp add: tcp_udp_flow_def packet_tuple_def)
  qed
  have n: "1 \<le> MAX_RX_QUEUE_PER_LCORE" "\<forall>p \<in> set [0, 1]. p < (2 :: nat)" by (simp_all add: MAX_RX_QUEUE_PER_LCORE_def)
  obtain st where "locality_ports 2 ?rx 1 [0, 1] (loc_start ()) = Some st"
    "freed st = concat (fst (polls ?rx (all_queues [0, 1] 1) ()))"
    "map (snd \<circ> snd) (printed st) = List.map_filter tcp_udp_flow (concat (fst (polls ?rx (all_queues [0, 1] 1) ())))"
    "global_max_locality st = 0"
    using locality_pass [OF n l refl, of "()"] by blast
  then show ?thesis unfolding p by (intro exI [of _ st]) (simp add: f List.map_filter_def)
qed

text \<open>Types of the settings. Whatever the options, when they are accepted the columns of the sketch and the descriptors are
  powers of two in range, the other numbers fit their types, the period is below its maximum and the pairs
  of ports fit their array. The documented options for the MAC addresses are never accepted.\<close>

theorem cms_parse_args_typed:
  "(fst (cms_parse_args rte_strsplit m opts initial_loc_args) = - 1 \<or>
    fst (cms_parse_args rte_strsplit m opts initial_loc_args) = 0 \<and> loc_args_ok m (snd (cms_parse_args rte_strsplit m opts initial_loc_args))) \<and>
   (Long_option ''no-mac-updating'' optarg inner \<in> set opts \<or> Long_option ''mac-updating'' optarg inner \<in> set opts \<longrightarrow>
    fst (cms_parse_args rte_strsplit m opts initial_loc_args) = - 1)"
  using cms_parse_args_ok [OF initial_loc_args_ok] mac_option_rejected by fastforce

theorem cms_parse_args_typed_witness:
  "fst (cms_parse_args (\<lambda>s n d. split_at [] d s) 32 [Short_option CHR ''a'' [], Long_option ''no-mac-updating'' [] None] initial_loc_args) = - 1 \<and>
   loc_args_ok 32 (snd (cms_parse_args (\<lambda>s n d. split_at [] d s) 32 [Short_option CHR ''a'' []] initial_loc_args))"
proof -
  have "fst (cms_parse_args (\<lambda>s n d. split_at [] d s) 32 [Short_option CHR ''a'' []] initial_loc_args) = 0"
    by (simp add: loc_option_def)
  then have "loc_args_ok 32 (snd (cms_parse_args (\<lambda>s n d. split_at [] d s) 32 [Short_option CHR ''a'' []] initial_loc_args))"
    using cms_parse_args_typed [of "\<lambda>s n d. split_at [] d s" 32 "[Short_option CHR ''a'' []]"] by auto
  then show ?thesis
    using cms_parse_args_typed [of "\<lambda>s n d. split_at [] d s" 32 "[Short_option CHR ''a'' [], Long_option ''no-mac-updating'' [] None]" "[]" None]
    by auto
qed

end
