(* ===== verification/Shared_Flows.thy ===== *)
theory Shared_Flows
  imports Nat_Main "HOL-Library.Multiset"
begin

section \<open>Several lcores in mode Shared\<close>

text \<open>
  The interleavings of the lcores in mode Shared of \<^verbatim>\<open>nf-chain/src/main.c\<close>. Every lcore polls every queue under a lock
  that it tries to take, releases the lock and then translates the burst in the flow table of the queue, whose
  operations are atomic under a lock of their own. A packet is its \<open>FlowId\<close> and the time at which it is
  translated; it comes from the inner side. The steps of an lcore are those between two accesses to
  shared state, so that the lookup and the allocation of a flow are two steps, as in \<open>nf_process\<close>.
  Policies, the stop packet and sending are left to \<open>Poll\<close> and \<open>Packets\<close>.
\<close>

subsection \<open>The step relation\<close>

type_synonym pkt = "bytes \<times> nat"

text \<open>What an lcore is about to do with queue \<open>q\<close>: try its lock, poll it, release the lock of a received burst,
  look up the first packet of a burst, or allocate a flow for a packet that was not found.\<close>

datatype pc =
    Try nat
  | Polling nat
  | Received nat "pkt list"
  | Handling nat "pkt list"
  | Missed nat pkt "pkt list"

record shared_state =
  locks :: "nat \<Rightarrow> bool"
  rxq :: "nat \<Rightarrow> pkt list"
  shards :: "nat \<Rightarrow> flow_manager"
  pcs :: "nat \<Rightarrow> pc"
  arrived :: "pkt list"
  translated :: "(pkt \<times> nat option) list"

inductive lcore_step :: "nat \<Rightarrow> nat \<Rightarrow> shared_state \<Rightarrow> shared_state \<Rightarrow> bool" for n c where
  try_free: "pcs s c = Try q \<Longrightarrow> q < n \<Longrightarrow> \<not> locks s q \<Longrightarrow>
    lcore_step n c s (s\<lparr>locks := (locks s)(q := True), pcs := (pcs s)(c := Polling q)\<rparr>)"
| try_busy: "pcs s c = Try q \<Longrightarrow> q < n \<Longrightarrow> locks s q \<Longrightarrow>
    lcore_step n c s (s\<lparr>pcs := (pcs s)(c := Try (q + 1))\<rparr>)"
| sweep_end: "pcs s c = Try q \<Longrightarrow> n \<le> q \<Longrightarrow> lcore_step n c s (s\<lparr>pcs := (pcs s)(c := Try 0)\<rparr>)"
| poll: "pcs s c = Polling q \<Longrightarrow> rxq s q = xs @ ys \<Longrightarrow> length xs \<le> 32 \<Longrightarrow>
    lcore_step n c s (s\<lparr>rxq := (rxq s)(q := ys), pcs := (pcs s)(c := Received q xs)\<rparr>)"
| unlock: "pcs s c = Received q xs \<Longrightarrow>
    lcore_step n c s (s\<lparr>locks := (locks s)(q := False), pcs := (pcs s)(c := Handling q xs)\<rparr>)"
| hit: "pcs s c = Handling q (p # ps) \<Longrightarrow> flow_manager_get_internal (shards s q) (fst p) (snd p) = Some (Some port, mg) \<Longrightarrow>
    lcore_step n c s (s\<lparr>shards := (shards s)(q := mg), pcs := (pcs s)(c := Handling q ps),
      translated := translated s @ [(p, Some port)]\<rparr>)"
| miss: "pcs s c = Handling q (p # ps) \<Longrightarrow> flow_manager_get_internal (shards s q) (fst p) (snd p) = Some (None, mg) \<Longrightarrow>
    lcore_step n c s (s\<lparr>shards := (shards s)(q := mg), pcs := (pcs s)(c := Missed q p ps)\<rparr>)"
| alloc: "pcs s c = Missed q p ps \<Longrightarrow> flow_manager_allocate_flow (shards s q) (fst p) dev (snd p) = Some (r, mg) \<Longrightarrow>
    lcore_step n c s (s\<lparr>shards := (shards s)(q := mg), pcs := (pcs s)(c := Handling q ps),
      translated := translated s @ [(p, r)]\<rparr>)"
| burst_end: "pcs s c = Handling q [] \<Longrightarrow> lcore_step n c s (s\<lparr>pcs := (pcs s)(c := Try (q + 1))\<rparr>)"

inductive_cases lcore_stepE: "lcore_step n c s s'"

text \<open>A step of one of \<open>m\<close> lcores, or the arrival of a packet in one of \<open>n\<close> queues.\<close>

inductive shared_step :: "nat \<Rightarrow> nat \<Rightarrow> shared_state \<Rightarrow> shared_state \<Rightarrow> bool" for n m where
  lcore: "c < m \<Longrightarrow> lcore_step n c s s' \<Longrightarrow> shared_step n m s s'"
| arrive: "q < n \<Longrightarrow> shared_step n m s (s\<lparr>rxq := (rxq s)(q := rxq s q @ [p]), arrived := arrived s @ [p]\<rparr>)"

inductive shared_reachable :: "nat \<Rightarrow> nat \<Rightarrow> shared_state \<Rightarrow> shared_state \<Rightarrow> bool" for n m s0 where
  refl: "shared_reachable n m s0 s0"
| step: "shared_reachable n m s0 s \<Longrightarrow> shared_step n m s s' \<Longrightarrow> shared_reachable n m s0 s'"

definition shared_start :: "(nat \<Rightarrow> flow_manager) \<Rightarrow> shared_state" where
  "shared_start mgs = \<lparr>locks = (\<lambda>q. False), rxq = (\<lambda>q. []), shards = mgs, pcs = (\<lambda>c. Try 0), arrived = [], translated = []\<rparr>"

subsection \<open>Mutual exclusion and conservation\<close>

fun holds_lock :: "pc \<Rightarrow> nat \<Rightarrow> bool" where
  "holds_lock (Polling q) r \<longleftrightarrow> q = r"
| "holds_lock (Received q xs) r \<longleftrightarrow> q = r"
| "holds_lock _ r \<longleftrightarrow> False"

fun in_hand :: "pc \<Rightarrow> pkt list" where
  "in_hand (Received q xs) = xs"
| "in_hand (Handling q xs) = xs"
| "in_hand (Missed q p xs) = p # xs"
| "in_hand _ = []"

fun pc_queue :: "nat \<Rightarrow> pc \<Rightarrow> bool" where
  "pc_queue n (Try q) \<longleftrightarrow> True"
| "pc_queue n (Polling q) \<longleftrightarrow> q < n"
| "pc_queue n (Received q xs) \<longleftrightarrow> q < n"
| "pc_queue n (Handling q xs) \<longleftrightarrow> q < n"
| "pc_queue n (Missed q p xs) \<longleftrightarrow> q < n"

definition locks_inv :: "nat \<Rightarrow> nat \<Rightarrow> shared_state \<Rightarrow> bool" where
  "locks_inv n m s \<longleftrightarrow> (\<forall>c < m. pc_queue n (pcs s c)) \<and>
     (\<forall>q. locks s q \<longleftrightarrow> (\<exists>c < m. holds_lock (pcs s c) q)) \<and>
     (\<forall>c d q. c < m \<longrightarrow> d < m \<longrightarrow> holds_lock (pcs s c) q \<longrightarrow> holds_lock (pcs s d) q \<longrightarrow> c = d)"

lemma locks_inv_upd:
  assumes inv: "locks_inv n m s" and c: "c < m" and p: "pc_queue n p"
    and free: "\<And>q. holds_lock p q \<Longrightarrow> \<not> holds_lock (pcs s c) q \<Longrightarrow> \<not> locks s q"
    and l: "\<And>q. locks s' q \<longleftrightarrow> (locks s q \<and> \<not> holds_lock (pcs s c) q) \<or> holds_lock p q" and s': "pcs s' = (pcs s)(c := p)"
  shows "locks_inv n m s'"
proof -
  note i = inv [unfolded locks_inv_def]
  have uniq: "c' = d" if cd: "c' < m" "d < m" "holds_lock (pcs s' c') q" "holds_lock (pcs s' d) q" for c' d q
  proof -
    have other: "e = c" if e: "e < m" "holds_lock (pcs s e) q" "holds_lock p q" for e
    proof (rule ccontr)
      assume "e \<noteq> c"
      then have "\<not> holds_lock (pcs s c) q" using i e(1,2) c by blast
      then have "\<not> locks s q" using free e(3) by blast
      then show False using i e(1,2) by blast
    qed
    show ?thesis using cd other i unfolding s' by (auto split: if_splits)
  qed
  have "locks s' q \<longleftrightarrow> (\<exists>d < m. holds_lock (pcs s' d) q)" for q
  proof
    assume a: "locks s' q"
    show "\<exists>d < m. holds_lock (pcs s' d) q"
    proof (cases "holds_lock p q")
      case True
      then show ?thesis using c unfolding s' by auto
    next
      case False
      then obtain d where "d < m" "holds_lock (pcs s d) q" "d \<noteq> c" using a l i by blast
      then show ?thesis unfolding s' by auto
    qed
  next
    assume "\<exists>d < m. holds_lock (pcs s' d) q"
    then obtain d where d: "d < m" "holds_lock (pcs s' d) q" by blast
    show "locks s' q"
    proof (cases "d = c")
      case True
      then show ?thesis using d(2) l unfolding s' by simp
    next
      case False
      then have h: "holds_lock (pcs s d) q" using d(2) unfolding s' by simp
      then have "\<not> holds_lock (pcs s c) q" using i d(1) c False by blast
      then show ?thesis using h l i d(1) by blast
    qed
  qed
  then show ?thesis using i p uniq unfolding locks_inv_def s' by auto
qed

lemma locks_inv_step:
  assumes inv: "locks_inv n m s" and c: "c < m" and step: "lcore_step n c s s'"
  shows "locks_inv n m s'"
proof -
  have pq: "pc_queue n (pcs s c)" "holds_lock (pcs s c) q \<Longrightarrow> locks s q" for q using inv c by (auto simp: locks_inv_def)
  show ?thesis
    by (rule lcore_stepE [OF step]; rule locks_inv_upd [OF inv c]; use pq in \<open>auto split: if_splits\<close>)
qed


text \<open>Where the packets are.\<close>

definition packets_inv :: "nat \<Rightarrow> nat \<Rightarrow> shared_state \<Rightarrow> bool" where
  "packets_inv n m s \<longleftrightarrow> mset (arrived s) =
     (\<Sum>q < n. mset (rxq s q)) + (\<Sum>c < m. mset (in_hand (pcs s c))) + mset (map fst (translated s))"

lemma sum_upd:
  fixes g :: "'a \<Rightarrow> 'b multiset" and k :: nat
  assumes "k < n"
  shows "(\<Sum>i < n. g ((f(k := x)) i)) + g (f k) = (\<Sum>i < n. g (f i)) + g x"
proof -
  have "(\<Sum>i < n. g ((f(k := x)) i)) = g x + (\<Sum>i \<in> {..<n} - {k}. g ((f(k := x)) i))"
    using sum.remove [of "{..<n}" k "\<lambda>i. g ((f(k := x)) i)"] assms by simp
  moreover have "(\<Sum>i \<in> {..<n} - {k}. g ((f(k := x)) i)) = (\<Sum>i \<in> {..<n} - {k}. g (f i))" by (rule sum.cong) auto
  moreover have "(\<Sum>i < n. g (f i)) = g (f k) + (\<Sum>i \<in> {..<n} - {k}. g (f i))"
    using sum.remove [of "{..<n}" k "\<lambda>i. g (f i)"] assms by simp
  ultimately show ?thesis by (simp add: ac_simps)
qed

lemma packets_inv_upd:
  assumes inv: "packets_inv n m s" and c: "c < m" and s': "pcs s' = (pcs s)(c := p)" "arrived s' = arrived s"
    and q: "q < n" "rxq s' = (rxq s)(q := ys)"
    and bal: "mset (rxq s q) + mset (in_hand (pcs s c)) + mset (map fst (translated s)) =
      mset ys + mset (in_hand p) + mset (map fst (translated s'))"
  shows "packets_inv n m s'"
proof -
  have a: "(\<Sum>i < n. mset (rxq s' i)) + mset (rxq s q) = (\<Sum>i < n. mset (rxq s i)) + mset ys"
    using sum_upd [OF q(1), of mset "rxq s" ys] by (simp add: q(2))
  have b: "(\<Sum>i < m. mset (in_hand (pcs s' i))) + mset (in_hand (pcs s c)) = (\<Sum>i < m. mset (in_hand (pcs s i))) + mset (in_hand p)"
    using sum_upd [OF c, of "\<lambda>p. mset (in_hand p)" "pcs s" p] by (simp add: s'(1))
  let ?A = "mset (rxq s q) + mset (in_hand (pcs s c)) + mset (map fst (translated s))"
  have "(\<Sum>i < n. mset (rxq s' i)) + (\<Sum>i < m. mset (in_hand (pcs s' i))) + mset (map fst (translated s')) + ?A =
    (\<Sum>i < n. mset (rxq s i)) + (\<Sum>i < m. mset (in_hand (pcs s i))) + mset (map fst (translated s)) +
      (mset ys + mset (in_hand p) + mset (map fst (translated s')))"
    using a b by (simp add: ac_simps)
  then have "(\<Sum>i < n. mset (rxq s' i)) + (\<Sum>i < m. mset (in_hand (pcs s' i))) + mset (map fst (translated s')) = mset (arrived s)"
    using inv unfolding packets_inv_def bal by simp
  then show ?thesis using s'(2) by (simp add: packets_inv_def)
qed

lemma packets_inv_step:
  assumes inv: "packets_inv n m s" and lk: "locks_inv n m s" and c: "c < m" and n: "0 < n" and step: "lcore_step n c s s'"
  shows "packets_inv n m s'"
proof -
  have pq: "pc_queue n (pcs s c)" using lk c by (simp add: locks_inv_def)
  show ?thesis
  proof (rule lcore_stepE [OF step], goal_cases)
    case (4 q xs ys)
    then show ?case using pq by (intro packets_inv_upd [OF inv c, of s' "Received q xs" q ys]) auto
  qed (use pq n in \<open>auto intro!: packets_inv_upd [OF inv c, where q = 0 and ys = "rxq s 0"]\<close>)
qed

lemma shared_invs:
  assumes "shared_reachable n m (shared_start mgs) s" "0 < n"
  shows "locks_inv n m s" "packets_inv n m s"
proof -
  have "locks_inv n m s \<and> packets_inv n m s" using assms(1)
  proof (induction rule: shared_reachable.induct)
    case refl
    show ?case by (simp add: locks_inv_def packets_inv_def shared_start_def)
  next
    case (step s s')
    from step.hyps(2) show ?case
    proof cases
      case (lcore c)
      then show ?thesis using locks_inv_step packets_inv_step step.IH assms(2) by blast
    next
      case (arrive q p)
      then have "packets_inv n m s'"
        using step.IH sum_upd [of q n mset "rxq s" "rxq s q @ [p]"] unfolding packets_inv_def by (simp add: ac_simps)
      moreover have "locks_inv n m s'" using arrive step.IH by (simp add: locks_inv_def)
      ultimately show ?thesis by blast
    qed
  qed
  then show "locks_inv n m s" "packets_inv n m s" by simp_all
qed

subsection \<open>The flow tables, while no two lcores miss the same flow\<close>

text \<open>Of every table: it is well formed, and a packet that an lcore missed is still not in it.\<close>

definition table_inv :: "nat \<Rightarrow> shared_state \<Rightarrow> nat \<Rightarrow> bool" where
  "table_inv m s q \<longleftrightarrow> (\<exists>xs. nat_inv (shards s q) xs \<and>
     (\<forall>c < m. \<forall>p ps. pcs s c = Missed q p ps \<longrightarrow> (\<forall>i \<in> fst ` set xs. slot_port (shards s q) i \<noteq> flow_key (fst p))))"

definition shared_inv :: "nat \<Rightarrow> nat \<Rightarrow> shared_state \<Rightarrow> bool" where
  "shared_inv n m s \<longleftrightarrow> locks_inv n m s \<and> (\<forall>q < n. table_inv m s q) \<and>
     (\<forall>q < n. \<forall>p \<in> set (rxq s q). length (fst p) = FLOWID_SIZE) \<and>
     (\<forall>c < m. \<forall>p \<in> set (in_hand (pcs s c)). length (fst p) = FLOWID_SIZE)"

definition no_race :: "nat \<Rightarrow> shared_state \<Rightarrow> bool" where
  "no_race m s \<longleftrightarrow> (\<forall>c d q p p' ps ps'. c < m \<longrightarrow> d < m \<longrightarrow> pcs s c = Missed q p ps \<longrightarrow> pcs s d = Missed q p' ps' \<longrightarrow>
     flow_key (fst p) = flow_key (fst p') \<longrightarrow> c = d)"

lemma table_inv_same:
  assumes "table_inv m s q" "shards s' q = shards s q"
    and "\<And>c p ps. c < m \<Longrightarrow> pcs s' c = Missed q p ps \<Longrightarrow> \<exists>c' p' ps'. c' < m \<and> pcs s c' = Missed q p' ps' \<and> flow_key (fst p') = flow_key (fst p)"
  shows "table_inv m s' q"
  using assms unfolding table_inv_def by metis

lemma shared_inv_local:
  assumes inv: "shared_inv n m s" and lk: "locks_inv n m s'" and c: "c < m"
    and s': "shards s' = shards s" "rxq s' = rxq s" "pcs s' = (pcs s)(c := p)"
    and p: "\<forall>q x ps. p \<noteq> Missed q x ps" "set (in_hand p) \<subseteq> set (in_hand (pcs s c))"
  shows "shared_inv n m s'"
proof -
  note i = inv [unfolded shared_inv_def]
  have "table_inv m s' r" if "r < n" for r
    by (rule table_inv_same [of m s r]) (use i that s' p(1) in \<open>auto split: if_splits\<close>)
  moreover have "\<forall>d < m. \<forall>x \<in> set (in_hand (pcs s' d)). length (fst x) = FLOWID_SIZE"
  proof (intro allI impI ballI)
    fix d x assume d: "d < m" "x \<in> set (in_hand (pcs s' d))"
    then have "x \<in> set (in_hand (pcs s d))" using p(2) c s'(3) by (auto split: if_splits)
    then show "length (fst x) = FLOWID_SIZE" using i d(1) by blast
  qed
  ultimately show ?thesis using i lk s'(2) unfolding shared_inv_def by simp
qed

lemma get_internal_cases:
  assumes inv: "nat_inv mg xs" and l: "length fid = FLOWID_SIZE"
  obtains (found) port mg' xs' where "flow_manager_get_internal mg fid t = Some (Some port, mg')" "nat_inv mg' xs'"
      "fst ` set xs' = fst ` set xs" "slot_port mg' = slot_port mg"
    | (absent) "flow_manager_get_internal mg fid t = Some (None, mg)" "\<forall>i \<in> fst ` set xs. slot_port mg i \<noteq> flow_key fid"
proof (cases "\<exists>i \<in> fst ` set xs. slot_port mg i = flow_key fid")
  case True
  then obtain i t0 where i: "(i, t0) \<in> set xs" "slot_port mg i = flow_key fid" by auto
  then obtain ys zs where xs: "xs = ys @ (i, t0) # zs" by (meson split_list)
  obtain mg' ch where m: "flow_manager_get_internal mg fid t = Some (Some (start_port (fstate mg) + i), mg')"
    "nat_inv mg' (ys @ zs @ [(i, t)])" "mg' = mg\<lparr>fstate := (fstate mg)\<lparr>heap := ch\<rparr>\<rparr>"
    using get_internal_hit [OF inv [unfolded xs] l i(2)] by blast
  have "slot_port mg' = slot_port mg" by (simp add: m(3) slot_port_def nat_mem_def mem_of_def)
  then show ?thesis using found [OF m(1,2)] xs by auto
next
  case False
  then show ?thesis using absent get_internal_miss [OF inv l] by blast
qed

lemma allocate_flow_cases:
  assumes inv: "nat_inv mg xs" and l: "length fid = FLOWID_SIZE" and k: "\<forall>i \<in> fst ` set xs. slot_port mg i \<noteq> flow_key fid"
  obtains r mg' xs' where "flow_manager_allocate_flow mg fid dev t = Some (r, mg')" "nat_inv mg' xs'"
    "\<And>i. i \<in> fst ` set xs' \<Longrightarrow> slot_port mg' i = flow_key fid \<or> (i \<in> fst ` set xs \<and> slot_port mg' i = slot_port mg i)"
proof (cases "length xs < max_flows (fstate mg)")
  case True
  obtain i mg' where a: "flow_manager_allocate_flow mg fid dev t = Some (Some (start_port (fstate mg) + i), mg')"
    "i < max_flows (fstate mg)" "nat_inv mg' (xs @ [(i, t)])"
    "flow_at mg' i = Some (take (if shared mg then FLOWID_PACKED_SIZE else FLOWID_SIZE) fid)"
    "\<forall>j. j \<noteq> i \<longrightarrow> flow_at mg' j = flow_at mg j" "max_flows (fstate mg') = max_flows (fstate mg)"
    using allocate_flow_room [OF inv l True k] by blast
  have own: "slot_port mg' i = flow_key fid"
    using slot_port_flow_at [OF a(4)] by (simp add: flow_key_def min_def)
  have old: "slot_port mg' j = slot_port mg j" if "j \<in> fst ` set xs" "j \<noteq> i" for j
    using flow_at_Some [OF inv nat_inv_index [OF inv that(1)]] slot_port_flow_at [of mg' j] a(5) that(2) by metis
  show ?thesis by (rule that [OF a(1,3)]) (use own old in auto)
next
  case False
  then have "length xs = max_flows (fstate mg)"
    using dc.length_le [OF keyed_poolD(1) [OF nat_invD(1) [OF inv]]] by simp
  then show ?thesis using that [OF allocate_flow_full [OF inv] inv] by blast
qed

lemma shared_inv_step:
  assumes inv: "shared_inv n m s" and nr: "no_race m s" and c: "c < m" and step: "lcore_step n c s s'"
  shows "shared_inv n m s'"
proof -
  note i = inv [unfolded shared_inv_def]
  have lk: "locks_inv n m s'" using locks_inv_step i c step by blast
  have pq: "pc_queue n (pcs s c)" using i c by (simp add: locks_inv_def)
  have hand: "\<forall>p \<in> set (in_hand (pcs s c)). length (fst p) = FLOWID_SIZE" using i c by blast
  from step show ?thesis
  proof cases
    case (poll q xs ys)
    have "\<forall>p \<in> set (xs @ ys). length (fst p) = FLOWID_SIZE" using i pq poll(2,3) by (metis pc_queue.simps(2))
    moreover have "table_inv m s' r" if "r < n" for r
      by (rule table_inv_same [of m s r]) (use i that poll(1) in \<open>auto split: if_splits\<close>)
    ultimately show ?thesis using lk i poll(1) by (auto simp: shared_inv_def)
  next
    case (hit q p ps port mg)
    then have q: "q < n" and l: "length (fst p) = FLOWID_SIZE" using pq hand by auto
    then obtain xs where xs: "nat_inv (shards s q) xs"
      "\<forall>c < m. \<forall>p ps. pcs s c = Missed q p ps \<longrightarrow> (\<forall>i \<in> fst ` set xs. slot_port (shards s q) i \<noteq> flow_key (fst p))"
      using i unfolding table_inv_def by blast
    obtain xs' where "nat_inv mg xs'" "fst ` set xs' = fst ` set xs" "slot_port mg = slot_port (shards s q)"
      by (rule get_internal_cases [OF xs(1) l, of "snd p"]) (use hit(3) in auto)
    then have "table_inv m s' q" using xs(2) hit(1,2) unfolding table_inv_def by (intro exI [of _ xs']) auto
    moreover have "table_inv m s' r" if "r < n" "r \<noteq> q" for r
      by (rule table_inv_same [of m s r]) (use i that hit(1) in \<open>auto split: if_splits\<close>)
    ultimately have "\<forall>r < n. table_inv m s' r" by blast
    then show ?thesis using lk i hand hit(1,2) by (auto simp: shared_inv_def)
  next
    case (miss q p ps mg)
    then have q: "q < n" and l: "length (fst p) = FLOWID_SIZE" using pq hand by auto
    then obtain xs where xs: "nat_inv (shards s q) xs"
      "\<forall>c < m. \<forall>p ps. pcs s c = Missed q p ps \<longrightarrow> (\<forall>i \<in> fst ` set xs. slot_port (shards s q) i \<noteq> flow_key (fst p))"
      using i unfolding table_inv_def by blast
    have "mg = shards s q \<and> (\<forall>i \<in> fst ` set xs. slot_port (shards s q) i \<noteq> flow_key (fst p))"
      by (rule get_internal_cases [OF xs(1) l, of "snd p"]) (use miss(3) in auto)
    then have "table_inv m s' q" using xs miss(1,2) unfolding table_inv_def by (intro exI [of _ xs]) auto
    moreover have "table_inv m s' r" if "r < n" "r \<noteq> q" for r
      by (rule table_inv_same [of m s r]) (use i that miss(1) in \<open>auto split: if_splits\<close>)
    ultimately have "\<forall>r < n. table_inv m s' r" by blast
    then show ?thesis using lk i hand miss(1,2) by (auto simp: shared_inv_def)
  next
    case (alloc q p ps dev r mg)
    then have q: "q < n" and l: "length (fst p) = FLOWID_SIZE" using pq hand by auto
    then obtain xs where xs: "nat_inv (shards s q) xs"
      "\<forall>c < m. \<forall>p ps. pcs s c = Missed q p ps \<longrightarrow> (\<forall>i \<in> fst ` set xs. slot_port (shards s q) i \<noteq> flow_key (fst p))"
      using i unfolding table_inv_def by blast
    have fresh: "\<forall>i \<in> fst ` set xs. slot_port (shards s q) i \<noteq> flow_key (fst p)" using xs(2) c alloc(2) by blast
    obtain xs' where xs': "nat_inv mg xs'"
      "\<And>i. i \<in> fst ` set xs' \<Longrightarrow> slot_port mg i = flow_key (fst p) \<or> (i \<in> fst ` set xs \<and> slot_port mg i = slot_port (shards s q) i)"
      using allocate_flow_cases [OF xs(1) l fresh, of dev "snd p"] alloc(3) by (metis option.inject prod.inject)
    have "flow_key (fst p') \<noteq> flow_key (fst p)" if "d < m" "d \<noteq> c" "pcs s d = Missed q p' ps'" for d p' ps'
      using nr c alloc(2) that unfolding no_race_def by metis
    then have "table_inv m s' q" using xs(2) xs' alloc(1) unfolding table_inv_def
      by (intro exI [of _ xs']) (fastforce split: if_splits)
    moreover have "table_inv m s' r" if "r < n" "r \<noteq> q" for r
      by (rule table_inv_same [of m s r]) (use i that alloc(1) in \<open>auto split: if_splits\<close>)
    ultimately have "\<forall>r < n. table_inv m s' r" by blast
    then show ?thesis using lk i hand alloc(1,2) by (auto simp: shared_inv_def)
  next
    case (try_free q)
    show ?thesis by (rule shared_inv_local [OF inv lk c, where p = "Polling q"]) (use try_free in simp_all)
  next
    case (try_busy q)
    show ?thesis by (rule shared_inv_local [OF inv lk c, where p = "Try (q + 1)"]) (use try_busy in simp_all)
  next
    case (sweep_end q)
    show ?thesis by (rule shared_inv_local [OF inv lk c, where p = "Try 0"]) (use sweep_end in simp_all)
  next
    case (unlock q xs)
    show ?thesis by (rule shared_inv_local [OF inv lk c, where p = "Handling q xs"]) (use unlock in simp_all)
  next
    case (burst_end q)
    show ?thesis by (rule shared_inv_local [OF inv lk c, where p = "Try (q + 1)"]) (use burst_end in simp_all)
  qed
qed

text \<open>Every lcore can go on.\<close>

lemma shared_inv_progress:
  assumes inv: "shared_inv n m s" and c: "c < m"
  shows "\<exists>s'. lcore_step n c s s'"
proof -
  note i = inv [unfolded shared_inv_def]
  have pq: "pc_queue n (pcs s c)" using i c by (simp add: locks_inv_def)
  have hand: "\<forall>p \<in> set (in_hand (pcs s c)). length (fst p) = FLOWID_SIZE" using i c by blast
  show ?thesis
  proof (cases "pcs s c")
    case (Try q)
    then show ?thesis using lcore_step.try_free [of s c q n, OF Try] lcore_step.try_busy [of s c q n, OF Try] lcore_step.sweep_end [of s c q n, OF Try]
      by (cases "n \<le> q"; cases "locks s q") auto
  next
    case (Polling q)
    then show ?thesis using lcore_step.poll [of s c q "[]" "rxq s q"] by auto
  next
    case (Received q xs)
    then show ?thesis using lcore_step.unlock by blast
  next
    case (Handling q ps)
    show ?thesis
    proof (cases ps)
      case Nil
      then show ?thesis using Handling lcore_step.burst_end by blast
    next
      case (Cons p ps')
      then have "q < n" "length (fst p) = FLOWID_SIZE" using pq hand Handling by auto
      then obtain xs where xs: "nat_inv (shards s q) xs" "length (fst p) = FLOWID_SIZE" using i unfolding table_inv_def by blast
      have h: "pcs s c = Handling q (p # ps')" using Handling Cons by simp
      show ?thesis
      proof (rule get_internal_cases [OF xs, of "snd p"])
        fix port mg' xs'
        assume "flow_manager_get_internal (shards s q) (fst p) (snd p) = Some (Some port, mg')"
        then show ?thesis using lcore_step.hit [of s c q p ps' port mg' n, OF h] by blast
      next
        assume "flow_manager_get_internal (shards s q) (fst p) (snd p) = Some (None, shards s q)"
        then show ?thesis using lcore_step.miss [of s c q p ps' "shards s q" n, OF h] by blast
      qed
    qed
  next
    case (Missed q p ps)
    then have l: "q < n" "length (fst p) = FLOWID_SIZE" using pq hand by auto
    then obtain xs where x: "nat_inv (shards s q) xs"
      "\<forall>c < m. \<forall>p ps. pcs s c = Missed q p ps \<longrightarrow> (\<forall>i \<in> fst ` set xs. slot_port (shards s q) i \<noteq> flow_key (fst p))"
      using i unfolding table_inv_def by blast
    have xs: "nat_inv (shards s q) xs" "\<forall>i \<in> fst ` set xs. slot_port (shards s q) i \<noteq> flow_key (fst p)"
      using x(1) x(2) [rule_format, OF c Missed] by auto
    show ?thesis
    proof (rule allocate_flow_cases [OF xs(1) l(2) xs(2), of 0 "snd p"])
      fix r mg' xs'
      assume "flow_manager_allocate_flow (shards s q) (fst p) 0 (snd p) = Some (r, mg')"
      then show ?thesis using lcore_step.alloc [of s c q p ps 0 r mg' n, OF Missed] by blast
    qed
  qed
qed

subsection \<open>The race\<close>

text \<open>Allocation gives an index that was not in use even when the table holds the flow.\<close>

lemma allocate_flow_port:
  assumes inv: "nat_inv mg xs" and l: "length fid = FLOWID_SIZE" and room: "length xs < max_flows (fstate mg)"
  shows "\<exists>i mg'. flow_manager_allocate_flow mg fid dev t = Some (Some (start_port (fstate mg) + i), mg') \<and> i \<notin> fst ` set xs"
proof -
  let ?s = "fstate mg" and ?k = "if shared mg then FLOWID_PACKED_SIZE else FLOWID_SIZE"
  let ?v = "fv ?s"
  note d = nat_invD [OF inv]
  obtain mg1 where mg1: "flow_manager_lock mg = Some mg1" "fstate mg1 = ?s" "shared mg1 = shared mg"
    "\<And>s. flow_manager_unlock (mg1\<lparr>fstate := s\<rparr>) = mg\<lparr>fstate := s\<rparr>" using nat_inv_lock [OF inv] by metis
  obtain i ch where ch: "dchain_allocate_new_index (heap ?s) t = Some (Some (int i), ch)" "i < max_flows ?s"
    "i \<notin> fst ` set xs" "dchain_rel (max_flows ?s) ch (xs @ [(i, t)])"
    using dc.alloc_room [OF keyed_poolD(1) [OF d(1)] room] by blast
  have bs: "load_bytes fid 0 ?k = Some (take ?k fid)" "length (take ?k fid) = ?k" using l by (auto simp: load_bytes_def)
  have "(0::int) \<le> int i" "int i < int (vcapacity ?v)" "int (length (take ?k fid)) \<le> elem_size ?v"
    using ch(2) d(5,6) bs(2) by auto
  from slot_write [OF d(4) this] obtain D where
    D: "store_bytes (vdata ?v) (vector_borrow ?v (int i)) (take ?k fid) = Some D"
    and oth: "\<And>j k. j \<noteq> int i \<Longrightarrow> int k \<le> elem_size ?v \<Longrightarrow>
      load_bytes D (vector_borrow ?v j) k = load_bytes (vdata ?v) (vector_borrow ?v j) k"
    by blast
  have copy: "flowid_copy mg1 (vdata ?v) (vector_borrow ?v (int i)) fid 0 = Some D"
    using bs(1) D mg1(3) by (auto simp: flowid_copy_def split: if_splits)
  let ?s1 = "?s\<lparr>heap := ch, fv := ?v\<lparr>vdata := D\<rparr>\<rparr>"
  have same: "slot_key key_of Slot (mem_of ?s1 fid) ?v j = slot_key key_of Slot (nat_mem mg) ?v j" if "j \<in> fst ` set xs" for j
  proof -
    have "load_bytes D (vector_borrow ?v (int j)) 2 = load_bytes (vdata ?v) (vector_borrow ?v (int j)) 2"
      using ch(3) that d(6) by (intro oth) auto
    then show ?thesis by (simp add: slot_key_def key_of_def load_key_def load_u16_def mem_of_def nat_mem_def)
  qed
  have pool: "keyed_pool key_of (\<lambda>k. k) Slot (mem_of ?s1 fid) ?v (max_flows ?s) (heap ?s) (fm ?s) xs"
    by (rule keyed_pool_frame [OF d(1) same]) (simp_all add: d(2,3) key_fun_eqs)
  have "card (dom (hmap_abs key_of (mem_of ?s1 fid) (fm ?s))) < capacity (fm ?s)"
    using keyed_pool_card [OF pool] keyed_poolD(3) [OF pool] room by simp
  then obtain m where m: "map_put (mem_of ?s1 fid) (fm ?s) (Slot (vector_borrow ?v (int i))) (int i) = Some m"
    using map_put_some [OF keyed_poolD(2) [OF pool]] by blast
  have port: "nat ((int (start_port ?s) + int i) mod 2 ^ 16) = start_port ?s + i"
    using d(7) ch(2) by (simp add: nat_add_distrib)
  have "flow_manager_allocate_flow mg fid dev t = Some (Some (start_port ?s + i), mg\<lparr>fstate := ?s1\<lparr>fm := m\<rparr>\<rparr>)"
    using mg1 ch(1) copy m port by (simp add: flow_manager_allocate_flow_def Let_def vector_return_def)
  then show ?thesis using ch(3) by blast
qed

text \<open>An lcore that is about to try a free, empty queue can come to hold a burst of one packet.\<close>

lemma shared_pick_up:
  assumes r: "shared_reachable n m s0 s" and c: "c < m" "pcs s c = Try q" and q: "q < n" "\<not> locks s q" "rxq s q = []"
  shows "\<exists>s'. shared_reachable n m s0 s' \<and> pcs s' = (pcs s)(c := Handling q [p]) \<and> \<not> locks s' q \<and> rxq s' q = [] \<and>
    shards s' = shards s \<and> translated s' = translated s"
proof -
  let ?s1 = "s\<lparr>rxq := (rxq s)(q := rxq s q @ [p]), arrived := arrived s @ [p]\<rparr>"
  let ?s2 = "?s1\<lparr>locks := (locks ?s1)(q := True), pcs := (pcs ?s1)(c := Polling q)\<rparr>"
  let ?s3 = "?s2\<lparr>rxq := (rxq ?s2)(q := []), pcs := (pcs ?s2)(c := Received q [p])\<rparr>"
  let ?s4 = "?s3\<lparr>locks := (locks ?s3)(q := False), pcs := (pcs ?s3)(c := Handling q [p])\<rparr>"
  have "shared_step n m s ?s1" by (rule shared_step.arrive [OF q(1)])
  moreover have "shared_step n m ?s1 ?s2"
    by (rule shared_step.lcore [OF c(1)], rule lcore_step.try_free) (use c q in simp_all)
  moreover have "shared_step n m ?s2 ?s3"
    by (rule shared_step.lcore [OF c(1)], rule lcore_step.poll) (use q in simp_all)
  moreover have "shared_step n m ?s3 ?s4"
    by (rule shared_step.lcore [OF c(1)], rule lcore_step.unlock) simp
  ultimately have "shared_reachable n m s0 ?s4" using r by (meson shared_reachable.step)
  then show ?thesis by (intro exI [of _ ?s4]) simp
qed

subsection \<open>Properties\<close>

text \<open>Whether the lcores always passed through states without a race, and only flows of full length arrived.\<close>

inductive careful_reachable :: "nat \<Rightarrow> nat \<Rightarrow> shared_state \<Rightarrow> shared_state \<Rightarrow> bool" for n m s0 where
  refl: "careful_reachable n m s0 s0"
| lcore: "careful_reachable n m s0 s \<Longrightarrow> no_race m s \<Longrightarrow> c < m \<Longrightarrow> lcore_step n c s s' \<Longrightarrow> careful_reachable n m s0 s'"
| arrive: "careful_reachable n m s0 s \<Longrightarrow> q < n \<Longrightarrow> length (fst p) = FLOWID_SIZE \<Longrightarrow>
    careful_reachable n m s0 (s\<lparr>rxq := (rxq s)(q := rxq s q @ [p]), arrived := arrived s @ [p]\<rparr>)"

lemma careful_inv:
  assumes start: "\<forall>q < n. nat_inv (mgs q) []" and r: "careful_reachable n m (shared_start mgs) s"
  shows "shared_inv n m s"
  using r
proof (induction rule: careful_reachable.induct)
  case refl
  have "table_inv m (shared_start mgs) q" if "q < n" for q
    using start that unfolding table_inv_def shared_start_def by (intro exI [of _ "[]"]) simp
  then show ?case by (simp add: shared_inv_def locks_inv_def shared_start_def)
next
  case (lcore s c s')
  then show ?case using shared_inv_step by blast
next
  case (arrive s q p)
  note i = arrive.IH [unfolded shared_inv_def]
  let ?s = "s\<lparr>rxq := (rxq s)(q := rxq s q @ [p]), arrived := arrived s @ [p]\<rparr>"
  have "table_inv m ?s r" if "r < n" for r
    by (rule table_inv_same [of m s r]) (use i that in auto)
  then show ?case using i arrive.hyps by (auto simp: shared_inv_def locks_inv_def)
qed

text \<open>C34. Mode Shared under every interleaving. A queue's lock is taken exactly while an lcore polls the queue, by one lcore at
  a time, and every packet that arrived is in its queue, in the hand of one lcore or translated, once.\<close>

theorem shared_polling_safe:
  assumes "shared_reachable n m (shared_start mgs) s" "0 < n"
  shows "(\<forall>q. locks s q \<longleftrightarrow> (\<exists>c < m. holds_lock (pcs s c) q)) \<and>
    (\<forall>c d q. c < m \<longrightarrow> d < m \<longrightarrow> holds_lock (pcs s c) q \<longrightarrow> holds_lock (pcs s d) q \<longrightarrow> c = d) \<and>
    mset (arrived s) = (\<Sum>q < n. mset (rxq s q)) + (\<Sum>c < m. mset (in_hand (pcs s c))) + mset (map fst (translated s))"
  using shared_invs [OF assms] unfolding locks_inv_def packets_inv_def by (intro conjI) blast+

theorem shared_polling_safe_witness:
  "\<exists>s. shared_reachable 1 2 (shared_start (\<lambda>q. demo_manager 2 True)) s \<and> pcs s 1 = Handling 0 [(replicate 16 0, 5)] \<and> \<not> locks s 0 \<and>
    mset (arrived s) = (\<Sum>q < 1. mset (rxq s q)) + (\<Sum>c < 2. mset (in_hand (pcs s c))) + mset (map fst (translated s))"
proof -
  let ?s0 = "shared_start (\<lambda>q. demo_manager 2 True)"
  obtain s where s: "shared_reachable 1 2 ?s0 s" "pcs s = (pcs ?s0)(1 := Handling 0 [(replicate 16 0, 5)])" "\<not> locks s 0"
    using shared_pick_up [OF shared_reachable.refl, of 1 2 ?s0 0 1 "(replicate 16 0, 5)"] by (auto simp: shared_start_def)
  have "pcs s 1 = Handling 0 [(replicate 16 0, 5)]" using s(2) by simp
  moreover note shared_polling_safe [OF s(1) zero_less_one]
  ultimately show ?thesis using s(1,3) by blast
qed



text \<open>C36. The race. The lock of a queue is released before its burst is translated, and the lookup and the allocation of a
  flow are two critical sections: two lcores that hold packets of one new flow both miss it and both
  allocate, so that the packets of one flow leave with two different external ports.\<close>

theorem shared_flows_race:
  assumes mg: "nat_inv (mgs 0) []" and room: "2 \<le> max_flows (fstate (mgs 0))" and l: "length fid = FLOWID_SIZE" and nm: "0 < n" "2 \<le> m"
  shows "\<exists>s a b. shared_reachable n m (shared_start mgs) s \<and>
    translated s = [((fid, t1), Some a), ((fid, t2), Some b)] \<and> a \<noteq> b"
proof -
  let ?s0 = "shared_start mgs" and ?g = "mgs 0"
  obtain s1 where s1: "shared_reachable n m ?s0 s1" "pcs s1 = (pcs ?s0)(0 := Handling 0 [(fid, t1)])" "\<not> locks s1 0" "rxq s1 0 = []"
    "shards s1 = mgs" "translated s1 = []"
    using shared_pick_up [OF shared_reachable.refl, of 0 m ?s0 0 n "(fid, t1)"] nm by (auto simp: shared_start_def)
  obtain s2 where s2: "shared_reachable n m ?s0 s2" "pcs s2 = (pcs s1)(1 := Handling 0 [(fid, t2)])" "shards s2 = mgs" "translated s2 = []"
    using shared_pick_up [OF s1(1), of 1 0 "(fid, t2)"] s1 nm by (auto simp: shared_start_def)
  have miss: "flow_manager_get_internal ?g fid t = Some (None, ?g)" for t
    using get_internal_miss [OF mg l] by simp
  obtain i g1 where g1: "flow_manager_allocate_flow ?g fid 0 t1 = Some (Some (start_port (fstate ?g) + i), g1)"
    "nat_inv g1 [(i, t1)]" "start_port (fstate g1) = start_port (fstate ?g)" "max_flows (fstate g1) = max_flows (fstate ?g)"
    using allocate_flow_room [OF mg l, of 0 t1] room by auto
  obtain j g2 where g2: "flow_manager_allocate_flow g1 fid 0 t2 = Some (Some (start_port (fstate g1) + j), g2)" "j \<noteq> i"
    using allocate_flow_port [OF g1(2) l, of 0 t2] room g1(4) by auto
  let ?s3 = "s2\<lparr>shards := (shards s2)(0 := ?g), pcs := (pcs s2)(0 := Missed 0 (fid, t1) [])\<rparr>"
  let ?s4 = "?s3\<lparr>shards := (shards ?s3)(0 := ?g), pcs := (pcs ?s3)(1 := Missed 0 (fid, t2) [])\<rparr>"
  let ?s5 = "?s4\<lparr>shards := (shards ?s4)(0 := g1), pcs := (pcs ?s4)(0 := Handling 0 []),
    translated := translated ?s4 @ [((fid, t1), Some (start_port (fstate ?g) + i))]\<rparr>"
  let ?s6 = "?s5\<lparr>shards := (shards ?s5)(0 := g2), pcs := (pcs ?s5)(1 := Handling 0 []),
    translated := translated ?s5 @ [((fid, t2), Some (start_port (fstate g1) + j))]\<rparr>"
  have c: "0 < m" "1 < m" using nm by auto
  have "shared_step n m s2 ?s3"
    by (rule shared_step.lcore [OF c(1)], rule lcore_step.miss) (use s1(2) s2 miss in simp_all)
  moreover have "shared_step n m ?s3 ?s4"
    by (rule shared_step.lcore [OF c(2)], rule lcore_step.miss) (use s2 miss in simp_all)
  moreover have "shared_step n m ?s4 ?s5"
    by (rule shared_step.lcore [OF c(1)], rule lcore_step.alloc [where dev = 0]) (use g1 in simp_all)
  moreover have "shared_step n m ?s5 ?s6"
    by (rule shared_step.lcore [OF c(2)], rule lcore_step.alloc [where dev = 0]) (use g2 in simp_all)
  ultimately have "shared_reachable n m ?s0 ?s6" using s2(1) by (meson shared_reachable.step)
  moreover have "translated ?s6 = [((fid, t1), Some (start_port (fstate ?g) + i)), ((fid, t2), Some (start_port (fstate g1) + j))]"
    using s2(4) by simp
  moreover have "start_port (fstate ?g) + i \<noteq> start_port (fstate g1) + j" using g1(3) g2(2) by simp
  ultimately show ?thesis by blast
qed

theorem shared_flows_race_witness:
  "\<exists>s a b. shared_reachable 1 2 (shared_start (\<lambda>q. demo_manager 2 True)) s \<and>
    translated s = [((replicate 16 7, 100), Some a), ((replicate 16 7, 101), Some b)] \<and> a \<noteq> b"
  by (rule shared_flows_race) (simp_all add: demo_two)

end
