(* ===== verification/Statistics.thy ===== *)
theory Statistics
  imports Prelude "HOL-Library.Multiset"
begin

section \<open>Statistics\<close>

text \<open>
  \<open>print_stats\<close> and \<open>print_queue_packet_histogram\<close> of \<^verbatim>\<open>nf-chain/src/main.c\<close>; \<open>print_stats\<close> of the other two programs
  has the same loop. What is printed is the result: the lines of the queues as numbers, the
  totals and their differences. The ratios in floating point are left out. The static variables of \<open>print_stats\<close> are
  fields of the state. \<open>qsort\<close> is an argument. \<open>None\<close> is an access outside the arrays of 2048 queues.
\<close>

subsection \<open>The code\<close>

definition STATS_QUEUES :: nat where "STATS_QUEUES = 2048"

record port_stats =
  st_tx :: nat
  st_rx :: nat
  st_dropped :: nat

record stats_state =
  port_statistics :: "nat \<Rightarrow> nat \<Rightarrow> port_stats"
  prev :: "nat \<Rightarrow> nat \<Rightarrow> port_stats"
  total_prev :: port_stats
  spin_time :: nat
  spin_pkt :: nat
  empty_polls :: nat
  n_bursts :: nat
  n_pkts :: nat
  after_warmup :: bool
  measured_tick :: nat

record stats_report =
  active :: nat
  queue_lines :: "(nat \<times> nat \<times> port_stats \<times> port_stats) list"
  total_packets :: port_stats
  total_diff :: port_stats

definition sub64 :: "nat \<Rightarrow> nat \<Rightarrow> nat" where
  "sub64 a b = nat ((int a - int b) mod 2 ^ 64)"

definition stats_minus :: "port_stats \<Rightarrow> port_stats \<Rightarrow> port_stats" where
  "stats_minus a b = \<lparr>st_tx = sub64 (st_tx a) (st_tx b), st_rx = sub64 (st_rx a) (st_rx b), st_dropped = sub64 (st_dropped a) (st_dropped b)\<rparr>"

definition stats_plus :: "port_stats \<Rightarrow> port_stats \<Rightarrow> port_stats" where
  "stats_plus a b = \<lparr>st_tx = (st_tx a + st_tx b) mod 2 ^ 64, st_rx = (st_rx a + st_rx b) mod 2 ^ 64,
     st_dropped = (st_dropped a + st_dropped b) mod 2 ^ 64\<rparr>"

definition zero_stats :: port_stats where
  "zero_stats = \<lparr>st_tx = 0, st_rx = 0, st_dropped = 0\<rparr>"

text \<open>The loop over the queues of a port, and over the ports.\<close>

fun stats_queues :: "nat \<Rightarrow> nat list \<Rightarrow> stats_report \<Rightarrow> stats_state \<Rightarrow> (stats_report \<times> stats_state) option" where
  "stats_queues portid [] r st = Some (r, st)"
| "stats_queues portid (q # qs) r st =
     (if STATS_QUEUES \<le> q then None
      else
        let cur = port_statistics st portid q; diff = stats_minus cur (prev st portid q)
        in if st_tx diff = 0 \<and> st_rx diff = 0 \<and> st_dropped diff = 0 then stats_queues portid qs r st
           else stats_queues portid qs
             (r\<lparr>active := active r + 1, queue_lines := queue_lines r @ [(portid, q, cur, diff)],
                total_packets := stats_plus (total_packets r) cur\<rparr>)
             (st\<lparr>prev := (prev st)(portid := (prev st portid)(q := cur))\<rparr>))"

fun stats_ports :: "nat \<Rightarrow> nat \<Rightarrow> nat list \<Rightarrow> stats_report \<Rightarrow> stats_state \<Rightarrow> (stats_report \<times> stats_state) option" where
  "stats_ports enabled_mask queues [] r st = Some (r, st)"
| "stats_ports enabled_mask queues (portid # ps) r st =
     (if enabled_mask AND 2 ^ portid = 0 then stats_ports enabled_mask queues ps r st
      else Option.bind (stats_queues portid [0..<queues] r st) (\<lambda>(r, st). stats_ports enabled_mask queues ps r st))"

definition print_stats :: "nat \<Rightarrow> nat \<Rightarrow> nat \<Rightarrow> stats_state \<Rightarrow> (stats_report \<times> stats_state) option" where
  "print_stats max_ethports enabled_mask queues st =
     Option.bind (stats_ports enabled_mask queues [0..<max_ethports]
       \<lparr>active = 0, queue_lines = [], total_packets = zero_stats, total_diff = zero_stats\<rparr> st) (\<lambda>(r, st).
     Some (r\<lparr>total_diff := stats_minus (total_packets r) (total_prev st)\<rparr>,
       st\<lparr>empty_polls := 0, spin_time := 0, spin_pkt := 0, n_bursts := 0, n_pkts := 0,
          measured_tick := (if after_warmup st then (measured_tick st + 1) mod 2 ^ 64 else measured_tick st),
          total_prev := total_packets r\<rparr>))"

datatype queue_pkt_entry = Entry (entry_q: nat) (entry_packets: nat)

definition cmp_desc :: "queue_pkt_entry \<Rightarrow> queue_pkt_entry \<Rightarrow> int" where
  "cmp_desc ea eb =
     (if entry_packets ea < entry_packets eb then 1
      else if entry_packets eb < entry_packets ea then - 1
      else if entry_q ea < entry_q eb then - 1
      else if entry_q eb < entry_q ea then 1
      else 0)"

definition add_port :: "(nat \<Rightarrow> port_stats) \<Rightarrow> queue_pkt_entry \<Rightarrow> queue_pkt_entry" where
  "add_port stats e = Entry (entry_q e) ((entry_packets e + st_rx (stats (entry_q e))) mod 2 ^ 64)"

fun histogram_ports :: "nat \<Rightarrow> nat list \<Rightarrow> (nat \<Rightarrow> nat \<Rightarrow> port_stats) \<Rightarrow> queue_pkt_entry list \<Rightarrow> queue_pkt_entry list" where
  "histogram_ports enabled_mask [] stats es = es"
| "histogram_ports enabled_mask (portid # ps) stats es =
     (if enabled_mask AND 2 ^ portid = 0 then histogram_ports enabled_mask ps stats es
      else histogram_ports enabled_mask ps stats (map (add_port (stats portid)) es))"

fun total_of :: "queue_pkt_entry list \<Rightarrow> nat \<Rightarrow> nat" where
  "total_of [] t = t"
| "total_of (e # es) t = total_of es ((t + entry_packets e) mod 2 ^ 64)"

definition print_queue_packet_histogram ::
  "((queue_pkt_entry \<Rightarrow> queue_pkt_entry \<Rightarrow> int) \<Rightarrow> queue_pkt_entry list \<Rightarrow> queue_pkt_entry list)
    \<Rightarrow> nat \<Rightarrow> nat \<Rightarrow> nat \<Rightarrow> (nat \<Rightarrow> nat \<Rightarrow> port_stats) \<Rightarrow> nat \<times> queue_pkt_entry list" where
  "print_queue_packet_histogram qsort max_ethports enabled_mask queues stats =
     (let n_queues = (if queues < STATS_QUEUES then queues else STATS_QUEUES);
          entries = histogram_ports enabled_mask [0..<max_ethports] stats (map (\<lambda>q. Entry q 0) [0..<n_queues])
      in (total_of entries 0, qsort cmp_desc entries))"

subsection \<open>The order of the histogram\<close>

text \<open>The comparison is a linear order: more packets first, then the lower queue.\<close>

instantiation queue_pkt_entry :: linorder
begin

definition less_eq_queue_pkt_entry :: "queue_pkt_entry \<Rightarrow> queue_pkt_entry \<Rightarrow> bool" where
  "a \<le> b \<longleftrightarrow> cmp_desc a b \<le> 0"

definition less_queue_pkt_entry :: "queue_pkt_entry \<Rightarrow> queue_pkt_entry \<Rightarrow> bool" where
  "a < b \<longleftrightarrow> cmp_desc a b < 0"

instance
proof
  fix x y z :: queue_pkt_entry
  show "x < y \<longleftrightarrow> x \<le> y \<and> \<not> y \<le> x" by (auto simp: less_eq_queue_pkt_entry_def less_queue_pkt_entry_def cmp_desc_def)
  show "x \<le> x" by (simp add: less_eq_queue_pkt_entry_def cmp_desc_def)
  show "x \<le> z" if "x \<le> y" "y \<le> z" using that by (auto simp: less_eq_queue_pkt_entry_def cmp_desc_def split: if_splits)
  show "x = y" if "x \<le> y" "y \<le> x"
    using that by (auto simp: less_eq_queue_pkt_entry_def cmp_desc_def queue_pkt_entry.expand split: if_splits)
  show "x \<le> y \<or> y \<le> x" by (auto simp: less_eq_queue_pkt_entry_def cmp_desc_def)
qed

end

text \<open>What \<open>qsort\<close> is documented to do.\<close>

definition sorts :: "((queue_pkt_entry \<Rightarrow> queue_pkt_entry \<Rightarrow> int) \<Rightarrow> queue_pkt_entry list \<Rightarrow> queue_pkt_entry list) \<Rightarrow> bool" where
  "sorts qsort \<longleftrightarrow> (\<forall>xs. mset (qsort cmp_desc xs) = mset xs \<and> sorted_wrt (\<lambda>a b. cmp_desc a b \<le> 0) (qsort cmp_desc xs))"

lemma qsort_eq_sort: "sorts qsort \<Longrightarrow> qsort cmp_desc xs = sort xs"
proof -
  assume s: "sorts qsort"
  have "(\<lambda>a b. cmp_desc a b \<le> 0) = (\<le>)" by (intro ext) (simp add: less_eq_queue_pkt_entry_def)
  then have "sorted (qsort cmp_desc xs)" "mset (qsort cmp_desc xs) = mset xs" using s by (simp_all add: sorts_def)
  then show ?thesis by (metis properties_for_sort)
qed

definition queue_packets :: "nat \<Rightarrow> nat list \<Rightarrow> (nat \<Rightarrow> nat \<Rightarrow> port_stats) \<Rightarrow> nat \<Rightarrow> nat" where
  "queue_packets enabled_mask ps stats q = (\<Sum>p \<leftarrow> filter (bit enabled_mask) ps. st_rx (stats p q)) mod 2 ^ 64"

lemma histogram_ports_eq:
  "\<forall>q. f q < 2 ^ 64 \<Longrightarrow> histogram_ports e ps stats (map (\<lambda>q. Entry q (f q)) qs) =
    map (\<lambda>q. Entry q ((f q + (\<Sum>p \<leftarrow> filter (bit e) ps. st_rx (stats p q))) mod 2 ^ 64)) qs"
proof (induction ps arbitrary: f)
  case (Cons p ps)
  show ?case
  proof (cases "bit e p")
    case True
    then have on: "e AND 2 ^ p \<noteq> 0" by (simp add: and_exp_eq_0_iff_not_bit)
    have "histogram_ports e (p # ps) stats (map (\<lambda>q. Entry q (f q)) qs) =
        histogram_ports e ps stats (map (\<lambda>q. Entry q ((f q + st_rx (stats p q)) mod 2 ^ 64)) qs)"
      using on by (simp add: add_port_def comp_def)
    then show ?thesis using Cons.IH [of "\<lambda>q. (f q + st_rx (stats p q)) mod 2 ^ 64"] True
      by (simp add: mod_add_left_eq add.assoc)
  next
    case False
    then have "e AND 2 ^ p = 0" by (simp add: and_exp_eq_0_iff_not_bit)
    then show ?thesis using Cons.IH [OF Cons.prems] False by simp
  qed
qed simp

lemma total_of_eq: "t < 2 ^ 64 \<Longrightarrow> total_of es t = (t + sum_list (map entry_packets es)) mod 2 ^ 64"
  by (induction es arbitrary: t) (simp_all add: mod_add_left_eq add.assoc)

subsection \<open>A report\<close>

definition counters_ok :: "stats_state \<Rightarrow> bool" where
  "counters_ok st \<longleftrightarrow> (\<forall>p q. \<forall>x \<in> {port_statistics st p q, prev st p q}. st_tx x < 2 ^ 64 \<and> st_rx x < 2 ^ 64 \<and> st_dropped x < 2 ^ 64)"

lemma sub64_zero: "a < 2 ^ 64 \<Longrightarrow> b < 2 ^ 64 \<Longrightarrow> sub64 a b = 0 \<longleftrightarrow> a = b"
proof -
  assume a: "a < 2 ^ 64" "b < 2 ^ 64"
  have "sub64 a b = 0 \<longleftrightarrow> (int a - int b) mod 2 ^ 64 = 0"
  proof -
    have "0 \<le> (int a - int b) mod 2 ^ 64" by simp
    then show ?thesis unfolding sub64_def by (auto simp: nat_eq_iff)
  qed
  also have "\<dots> \<longleftrightarrow> int a mod 2 ^ 64 = int b mod 2 ^ 64" by (simp only: mod_eq_dvd_iff dvd_eq_mod_eq_0)
  also have "\<dots> \<longleftrightarrow> a = b" using a by simp
  finally show ?thesis .
qed

text \<open>The queues that changed since the last report, in the order of the loops.\<close>

definition changed :: "stats_state \<Rightarrow> nat \<Rightarrow> nat \<Rightarrow> bool" where
  "changed st p q \<longleftrightarrow> port_statistics st p q \<noteq> prev st p q"

lemma unchanged_iff:
  assumes "counters_ok st" "d = stats_minus (port_statistics st p q) (prev st p q)"
  shows "st_tx d = 0 \<and> st_rx d = 0 \<and> st_dropped d = 0 \<longleftrightarrow> \<not> changed st p q"
proof -
  have "\<forall>x \<in> {port_statistics st p q, prev st p q}. st_tx x < 2 ^ 64 \<and> st_rx x < 2 ^ 64 \<and> st_dropped x < 2 ^ 64"
    using assms(1) by (simp add: counters_ok_def)
  then show ?thesis unfolding assms(2) changed_def stats_minus_def
    by (cases "port_statistics st p q"; cases "prev st p q") (auto simp: sub64_zero)
qed

definition line :: "stats_state \<Rightarrow> nat \<times> nat \<Rightarrow> nat \<times> nat \<times> port_stats \<times> port_stats" where
  "line st x = (fst x, snd x, port_statistics st (fst x) (snd x),
     stats_minus (port_statistics st (fst x) (snd x)) (prev st (fst x) (snd x)))"

definition report_adds :: "(nat \<times> nat) list \<Rightarrow> stats_state \<Rightarrow> stats_report \<Rightarrow> stats_state \<Rightarrow> stats_report \<Rightarrow> stats_state \<Rightarrow> bool" where
  "report_adds xs st0 r st r' st' \<longleftrightarrow> active r' = active r + length xs \<and> queue_lines r' = queue_lines r @ map (line st0) xs \<and>
     total_packets r' = fold (\<lambda>x t. stats_plus t (port_statistics st0 (fst x) (snd x))) xs (total_packets r) \<and>
     (\<exists>f. st' = st\<lparr>prev := f\<rparr>) \<and> (\<forall>p q. prev st' p q = (if (p, q) \<in> set xs then port_statistics st0 p q else prev st p q))"

lemma report_adds_trans:
  "report_adds xs st0 r st r1 st1 \<Longrightarrow> report_adds ys st0 r1 st1 r2 st2 \<Longrightarrow> report_adds (xs @ ys) st0 r st r2 st2"
  unfolding report_adds_def by auto

lemma report_adds_refl: "report_adds [] st0 r st r st"
  by (simp add: report_adds_def) (metis stats_state.surjective stats_state.update_convs(2))

text \<open>During the loops only \<open>prev\<close> of visited queues has changed.\<close>

definition agrees :: "stats_state \<Rightarrow> stats_state \<Rightarrow> (nat \<times> nat) list \<Rightarrow> bool" where
  "agrees st0 st xs \<longleftrightarrow> port_statistics st = port_statistics st0 \<and> (\<forall>(p, q) \<in> set xs. prev st p q = prev st0 p q)"

lemma stats_queues_effect:
  assumes ok: "counters_ok st0"
  shows "\<forall>q \<in> set qs. q < STATS_QUEUES \<Longrightarrow> distinct qs \<Longrightarrow> agrees st0 st (map (Pair p) qs) \<Longrightarrow>
    \<exists>r' st'. stats_queues p qs r st = Some (r', st') \<and> report_adds (filter (\<lambda>(p, q). changed st0 p q) (map (Pair p) qs)) st0 r st r' st'"
proof (induction qs arbitrary: r st)
  case Nil
  then show ?case by (simp add: report_adds_refl)
next
  case (Cons q qs)
  let ?cur = "port_statistics st p q" and ?d = "stats_minus (port_statistics st p q) (prev st p q)"
  have a: "port_statistics st = port_statistics st0" "prev st p q = prev st0 p q" using Cons.prems(3) by (auto simp: agrees_def)
  have u: "st_tx ?d = 0 \<and> st_rx ?d = 0 \<and> st_dropped ?d = 0 \<longleftrightarrow> \<not> changed st0 p q"
    using unchanged_iff [OF ok, of ?d p q] a by simp
  have q: "q < STATS_QUEUES" "\<forall>q \<in> set qs. q < STATS_QUEUES" "distinct qs" "q \<notin> set qs" using Cons.prems by auto
  show ?case
  proof (cases "changed st0 p q")
    case False
    then have "stats_queues p (q # qs) r st = stats_queues p qs r st" using q(1) u by (simp add: Let_def)
    then show ?thesis using Cons.IH [of st r] Cons.prems(3) q(2,3) False by (simp add: agrees_def)
  next
    case True
    let ?r = "r\<lparr>active := active r + 1, queue_lines := queue_lines r @ [(p, q, ?cur, ?d)], total_packets := stats_plus (total_packets r) ?cur\<rparr>"
    let ?st = "st\<lparr>prev := (prev st)(p := (prev st p)(q := ?cur))\<rparr>"
    have step: "stats_queues p (q # qs) r st = stats_queues p qs ?r ?st" using q(1) u True by (auto simp: Let_def)
    have "report_adds [(p, q)] st0 r st ?r ?st" using a by (auto simp: report_adds_def line_def)
    moreover have "agrees st0 ?st (map (Pair p) qs)" using Cons.prems(3) q(4) by (auto simp: agrees_def)
    ultimately show ?thesis using Cons.IH [OF q(2,3), of ?st ?r] report_adds_trans step True by fastforce
  qed
qed

definition visited :: "nat \<Rightarrow> nat \<Rightarrow> nat list \<Rightarrow> (nat \<times> nat) list" where
  "visited enabled_mask queues ps = concat (map (\<lambda>p. map (Pair p) [0..<queues]) (filter (bit enabled_mask) ps))"

lemma visited_ports: "(p, q) \<in> set (visited e n ps) \<Longrightarrow> p \<in> set ps"
  by (auto simp: visited_def)

lemma stats_ports_effect:
  assumes ok: "counters_ok st0" and n: "n \<le> STATS_QUEUES"
  shows "distinct ps \<Longrightarrow> agrees st0 st (visited e n ps) \<Longrightarrow>
    \<exists>r' st'. stats_ports e n ps r st = Some (r', st') \<and> report_adds (filter (\<lambda>(p, q). changed st0 p q) (visited e n ps)) st0 r st r' st'"
proof (induction ps arbitrary: r st)
  case Nil
  then show ?case by (simp add: visited_def report_adds_refl)
next
  case (Cons p ps)
  show ?case
  proof (cases "bit e p")
    case False
    then show ?thesis using Cons by (simp add: visited_def and_exp_eq_0_iff_not_bit)
  next
    case True
    let ?xs = "map (Pair p) [0..<n]"
    have v: "visited e n (p # ps) = ?xs @ visited e n ps" using True by (simp add: visited_def)
    have "agrees st0 st ?xs" using Cons.prems(2) by (auto simp: v agrees_def)
    then obtain r1 st1 where s1: "stats_queues p [0..<n] r st = Some (r1, st1)"
      "report_adds (filter (\<lambda>(p, q). changed st0 p q) ?xs) st0 r st r1 st1"
      using stats_queues_effect [OF ok, of "[0..<n]" st p r] n by auto
    have "prev st1 p' q = prev st0 p' q" if "(p', q) \<in> set (visited e n ps)" for p' q
    proof -
      have "p' \<noteq> p" using visited_ports [OF that] Cons.prems(1) by auto
      then show ?thesis using s1(2) Cons.prems(2) that by (auto simp: report_adds_def agrees_def v)
    qed
    moreover have "port_statistics st1 = port_statistics st0" using s1(2) Cons.prems(2) by (auto simp: report_adds_def agrees_def)
    ultimately have "agrees st0 st1 (visited e n ps)" by (auto simp: agrees_def)
    moreover have "distinct ps" using Cons.prems(1) by simp
    ultimately obtain r2 st2 where s2: "stats_ports e n ps r1 st1 = Some (r2, st2)"
      "report_adds (filter (\<lambda>(p, q). changed st0 p q) (visited e n ps)) st0 r1 st1 r2 st2" using Cons.IH by blast
    then show ?thesis using s1(1) report_adds_trans [OF s1(2) s2(2)] True by (simp add: v and_exp_eq_0_iff_not_bit)
  qed
qed

lemma print_stats_effect:
  assumes ok: "counters_ok st" and n: "queues \<le> STATS_QUEUES" and xs: "xs = filter (\<lambda>(p, q). changed st p q) (visited e queues [0..<m])"
  obtains r st' where "print_stats m e queues st = Some (r, st')" "active r = length xs" "queue_lines r = map (line st) xs"
    "total_packets r = fold (\<lambda>x t. stats_plus t (port_statistics st (fst x) (snd x))) xs zero_stats"
    "total_diff r = stats_minus (total_packets r) (total_prev st)" "total_prev st' = total_packets r"
    "port_statistics st' = port_statistics st" "\<And>p q. (p, q) \<in> set (visited e queues [0..<m]) \<Longrightarrow> prev st' p q = port_statistics st p q"
    "\<And>p q. prev st' p q = (if (p, q) \<in> set xs then port_statistics st p q else prev st p q)"
    "n_bursts st' = 0 \<and> n_pkts st' = 0 \<and> spin_time st' = 0 \<and> spin_pkt st' = 0 \<and> empty_polls st' = 0"
proof -
  let ?r = "\<lparr>active = 0, queue_lines = [], total_packets = zero_stats, total_diff = zero_stats\<rparr>"
  have "agrees st st (visited e queues [0..<m])" by (auto simp: agrees_def)
  then obtain r1 st1 where s: "stats_ports e queues [0..<m] ?r st = Some (r1, st1)" "report_adds xs st ?r st r1 st1"
    using stats_ports_effect [OF ok n, of "[0..<m]" st e ?r] xs by auto
  let ?r' = "r1\<lparr>total_diff := stats_minus (total_packets r1) (total_prev st1)\<rparr>"
  let ?st' = "st1\<lparr>empty_polls := 0, spin_time := 0, spin_pkt := 0, n_bursts := 0, n_pkts := 0,
      measured_tick := (if after_warmup st1 then (measured_tick st1 + 1) mod 2 ^ 64 else measured_tick st1), total_prev := total_packets r1\<rparr>"
  have run: "print_stats m e queues st = Some (?r', ?st')" using s(1) by (simp add: print_stats_def)
  have "prev st1 p q = port_statistics st p q" if "(p, q) \<in> set (visited e queues [0..<m])" for p q
    using s(2) that xs by (auto simp: report_adds_def changed_def)
  then show thesis using s(2) by (intro that [OF run]) (auto simp: report_adds_def)
qed

subsection \<open>Properties\<close>

text \<open>C37. The histogram. Up to 2048 queues are listed once each, with the packets received from them on all enabled
  ports, in the order of falling numbers and, among equal ones, of rising queues; the total is their sum.\<close>

theorem histogram_sorted:
  assumes "sorts qsort" "print_queue_packet_histogram qsort m e queues stats = (tot, es)"
  shows "mset es = mset (map (\<lambda>q. Entry q (queue_packets e [0..<m] stats q)) [0..<min queues STATS_QUEUES]) \<and>
    sorted_wrt (\<lambda>a b. entry_packets b < entry_packets a \<or> entry_packets a = entry_packets b \<and> entry_q a < entry_q b) es \<and>
    tot = (\<Sum>q < min queues STATS_QUEUES. queue_packets e [0..<m] stats q) mod 2 ^ 64"
proof -
  let ?n = "min queues STATS_QUEUES"
  let ?es = "map (\<lambda>q. Entry q (queue_packets e [0..<m] stats q)) [0..<?n]"
  have n: "(if queues < STATS_QUEUES then queues else STATS_QUEUES) = ?n" by simp
  have h: "histogram_ports e [0..<m] stats (map (\<lambda>q. Entry q 0) [0..<?n]) = ?es"
    using histogram_ports_eq [of "\<lambda>q. 0" e "[0..<m]" stats "[0..<?n]"] by (simp add: queue_packets_def)
  then have r: "tot = total_of ?es 0" "es = sort ?es"
    using assms(2) qsort_eq_sort [OF assms(1)] by (simp_all add: print_queue_packet_histogram_def n Let_def)
  have ms: "mset es = mset ?es" using r(2) by simp
  have "sum_list (map entry_packets ?es) = (\<Sum>q \<leftarrow> [0..<?n]. queue_packets e [0..<m] stats q)" by (simp add: comp_def)
  also have "\<dots> = (\<Sum>q < ?n. queue_packets e [0..<m] stats q)" by (simp add: sum_list_distinct_conv_sum_set atLeast0LessThan)
  finally have tot: "tot = (\<Sum>q < ?n. queue_packets e [0..<m] stats q) mod 2 ^ 64" using r(1) total_of_eq [of 0 ?es] by simp
  have "distinct ?es" by (simp add: distinct_map inj_on_def)
  then have "sorted_wrt (<) es" using r(2) by (simp add: strict_sorted_iff)
  then have "sorted_wrt (\<lambda>a b. entry_packets b < entry_packets a \<or> entry_packets a = entry_packets b \<and> entry_q a < entry_q b) es"
    by (rule sorted_wrt_mono_rel [rotated]) (auto simp: less_queue_pkt_entry_def cmp_desc_def split: if_splits)
  then show ?thesis using ms tot by blast
qed

theorem histogram_sorted_witness:
  "\<exists>t es. print_queue_packet_histogram (\<lambda>c. sort) 1 1 3 (\<lambda>p q. \<lparr>st_tx = 0, st_rx = q, st_dropped = 0\<rparr>) = (t, es) \<and> t = 3 \<and> length es = 3"
proof -
  have "(\<lambda>a b. cmp_desc a b \<le> 0) = (\<le>)" by (intro ext) (simp add: less_eq_queue_pkt_entry_def)
  then have s: "sorts (\<lambda>c. sort)" by (simp add: sorts_def)
  obtain t es where r: "print_queue_packet_histogram (\<lambda>c. sort) 1 1 3 (\<lambda>p q. \<lparr>st_tx = 0, st_rx = q, st_dropped = 0\<rparr>) = (t, es)" by fastforce
  note h = histogram_sorted [OF s r]
  have len: "length es = 3" using arg_cong [OF h [THEN conjunct1], of size] by (simp add: STATS_QUEUES_def)
  have "min 3 STATS_QUEUES = 3" by (simp add: STATS_QUEUES_def)
  moreover have "queue_packets 1 [0..<1] (\<lambda>p q. \<lparr>st_tx = 0, st_rx = q, st_dropped = 0\<rparr>) q = q mod 2 ^ 64" for q
    by (simp add: queue_packets_def bit_0)
  moreover have "{..<3 :: nat} = {0, 1, 2}" by auto
  ultimately have "t = 3" using h [THEN conjunct2, THEN conjunct2] by simp
  then show ?thesis using r len by blast
qed

text \<open>The report once a second. It shows exactly the queues whose counters have changed since the last one, with their
  counters and the differences; but the totals sum up those queues only, so that they are no totals: a report
  without traffic after another shows zero packets, and as the difference the negation of the last total.\<close>

theorem print_stats_twice:
  assumes "counters_ok st" "queues \<le> STATS_QUEUES"
    and "xs = filter (\<lambda>(p, q). changed st p q) (visited e queues [0..<m])"
  shows "\<exists>r st' r2 st2. print_stats m e queues st = Some (r, st') \<and> queue_lines r = map (line st) xs \<and> active r = length xs \<and>
    total_packets r = fold (\<lambda>x t. stats_plus t (port_statistics st (fst x) (snd x))) xs zero_stats \<and>
    total_diff r = stats_minus (total_packets r) (total_prev st) \<and>
    print_stats m e queues st' = Some (r2, st2) \<and> queue_lines r2 = [] \<and> total_packets r2 = zero_stats \<and>
    total_diff r2 = stats_minus zero_stats (total_packets r)"
proof -
  obtain r st' where r: "print_stats m e queues st = Some (r, st')" "active r = length xs" "queue_lines r = map (line st) xs"
    "total_packets r = fold (\<lambda>x t. stats_plus t (port_statistics st (fst x) (snd x))) xs zero_stats"
    "total_diff r = stats_minus (total_packets r) (total_prev st)" "total_prev st' = total_packets r"
    "port_statistics st' = port_statistics st" "\<And>p q. (p, q) \<in> set (visited e queues [0..<m]) \<Longrightarrow> prev st' p q = port_statistics st p q"
    "\<And>p q. prev st' p q = (if (p, q) \<in> set xs then port_statistics st p q else prev st p q)"
    by (rule print_stats_effect [OF assms]) blast
  have ok: "counters_ok st'" using assms(1) r(7,9) by (simp add: counters_ok_def)
  have nil: "filter (\<lambda>(p, q). changed st' p q) (visited e queues [0..<m]) = []"
    using r(7,8) by (auto simp: filter_empty_conv changed_def)
  obtain r2 st2 where r2: "print_stats m e queues st' = Some (r2, st2)" "queue_lines r2 = map (line st') []"
    "total_packets r2 = fold (\<lambda>x t. stats_plus t (port_statistics st' (fst x) (snd x))) [] zero_stats"
    "total_diff r2 = stats_minus (total_packets r2) (total_prev st')"
    by (rule print_stats_effect [OF ok assms(2) nil [symmetric]]) blast
  then show ?thesis using r(1-6) by (intro exI [of _ r] exI [of _ st'] exI [of _ r2] exI [of _ st2]) simp
qed

definition demo_stats :: stats_state where
  "demo_stats = \<lparr>port_statistics = (\<lambda>p q. \<lparr>st_tx = 0, st_rx = 7, st_dropped = 0\<rparr>), prev = (\<lambda>p q. zero_stats), total_prev = zero_stats,
     spin_time = 0, spin_pkt = 0, empty_polls = 0, n_bursts = 0, n_pkts = 0, after_warmup = False, measured_tick = 0\<rparr>"

theorem print_stats_twice_witness:
  "\<exists>r st' r2 st2. print_stats 1 1 1 demo_stats = Some (r, st') \<and> st_rx (total_packets r) = 7 \<and>
    print_stats 1 1 1 st' = Some (r2, st2) \<and> st_rx (total_diff r2) = 2 ^ 64 - 7"
proof -
  have ok: "counters_ok demo_stats" "1 \<le> STATS_QUEUES" by (simp_all add: counters_ok_def demo_stats_def zero_stats_def STATS_QUEUES_def)
  have xs: "[(0, 0)] = filter (\<lambda>(p, q). changed demo_stats p q) (visited 1 1 [0..<1])"
    by (simp add: visited_def changed_def demo_stats_def zero_stats_def bit_0)
  obtain r st' r2 st2 where "print_stats 1 1 1 demo_stats = Some (r, st')" "print_stats 1 1 1 st' = Some (r2, st2)"
    "total_packets r = fold (\<lambda>x t. stats_plus t (port_statistics demo_stats (fst x) (snd x))) [(0, 0)] zero_stats"
    "total_diff r2 = stats_minus zero_stats (total_packets r)"
    using print_stats_twice [OF ok xs] by blast
  moreover have "nat ((- 7 :: int) mod 2 ^ 64) = 2 ^ 64 - 7" by simp
  ultimately show ?thesis
    by (intro exI [of _ r] exI [of _ st'] exI [of _ r2] exI [of _ st2])
      (simp add: demo_stats_def stats_plus_def stats_minus_def zero_stats_def sub64_def)
qed

end
