(* ===== verification/Lpm.thy ===== *)
theory Lpm
  imports Prelude
begin

section \<open>Longest prefix match: lpm-dir-24-8.c\<close>

text \<open>
  DIR-24-8: a table of \<open>2 ^ 24\<close> entries indexed by the upper 24 bits of an address, whose entries
  are a next hop (bit 15 clear) or the number of a group of 256 entries of a second table (bit 15
  set). Addresses and entries are naturals below \<open>2 ^ 32\<close> and \<open>2 ^ 16\<close>; the arrays, too long
  for lists, are functions with their sizes, and an access outside them is \<open>None\<close>. Writes through
  \<^verbatim>\<open>free\<close> and the messages are not modelled.
\<close>

subsection \<open>The code\<close>

record lpm =
  lpm_24 :: "nat \<Rightarrow> nat"
  lpm_long :: "nat \<Rightarrow> nat"
  lpm_long_index :: nat

definition INVALID :: nat where [simp]: "INVALID = 65535"
definition lpm_24_FLAG_MASK :: nat where [simp]: "lpm_24_FLAG_MASK = 32768"
definition lpm_24_MAX_ENTRIES :: nat where [simp]: "lpm_24_MAX_ENTRIES = 16777216"
definition lpm_LONG_OFFSET_MAX :: nat where [simp]: "lpm_LONG_OFFSET_MAX = 256"
definition lpm_LONG_FACTOR :: nat where [simp]: "lpm_LONG_FACTOR = 256"
definition lpm_LONG_MAX_ENTRIES :: nat where [simp]: "lpm_LONG_MAX_ENTRIES = 65536"

text \<open>The loops \<^verbatim>\<open>for (i = first; ; i++) if (i == last) break; t[i] = v;\<close> over an array of \<open>sz\<close> entries.\<close>

function fill_range :: "nat \<Rightarrow> nat \<Rightarrow> nat \<Rightarrow> nat \<Rightarrow> (nat \<Rightarrow> nat) \<Rightarrow> (nat \<Rightarrow> nat) option" where
  "fill_range sz v i stop t =
    (if i = stop then Some t
     else if i < sz then fill_range sz v (Suc i) stop (t(i := v))
     else None)"
  by pat_completeness auto
termination
  by (relation "measure (\<lambda>(sz, v, i, stop, t). sz - i)") auto

declare fill_range.simps [simp del]

definition fill_invalid :: "nat \<Rightarrow> (nat \<Rightarrow> nat) \<Rightarrow> nat \<Rightarrow> (nat \<Rightarrow> nat) option" where
  "fill_invalid alloc_size t n = fill_range alloc_size INVALID 0 n t"

definition build_mask_from_prefixlen :: "nat \<Rightarrow> nat option" where
  "build_mask_from_prefixlen prefixlen =
     arr_get [0x00000000, 0x80000000, 0xC0000000, 0xE0000000,
              0xF0000000, 0xF8000000, 0xFC000000, 0xFE000000,
              0xFF000000, 0xFF800000, 0xFFC00000, 0xFFE00000,
              0xFFF00000, 0xFFF80000, 0xFFFC0000, 0xFFFE0000,
              0xFFFF0000, 0xFFFF8000, 0xFFFFC000, 0xFFFFE000,
              0xFFFFF000, 0xFFFFF800, 0xFFFFFC00, 0xFFFFFE00,
              0xFFFFFF00, 0xFFFFFF80, 0xFFFFFFC0, 0xFFFFFFE0,
              0xFFFFFFF0, 0xFFFFFFF8, 0xFFFFFFFC, 0xFFFFFFFE,
              0xFFFFFFFF] (int prefixlen)"

definition lpm_24_extract_first_index :: "nat \<Rightarrow> nat" where
  "lpm_24_extract_first_index data = drop_bit 8 data"

definition compute_rule_size :: "nat \<Rightarrow> nat option" where
  "compute_rule_size prefixlen =
     (if prefixlen < 25 then
        arr_get [0x1000000, 0x800000, 0x400000, 0x200000, 0x100000,
                 0x80000, 0x40000, 0x20000, 0x10000, 0x8000,
                 0x4000, 0x2000, 0x1000, 0x800, 0x400,
                 0x200, 0x100, 0x80, 0x40, 0x20,
                 0x10, 0x8, 0x4, 0x2, 0x1] (int prefixlen)
      else arr_get [0x80, 0x40, 0x20, 0x10, 0x8, 0x4, 0x2, 0x1] (int prefixlen - 25))"

definition lpm_24_entry_flag :: "nat \<Rightarrow> bool" where
  "lpm_24_entry_flag entry \<longleftrightarrow> drop_bit 15 entry = 1"

definition lpm_24_entry_set_flag :: "nat \<Rightarrow> nat" where
  "lpm_24_entry_set_flag entry = (entry OR lpm_24_FLAG_MASK) mod 2 ^ 16"

definition lpm_long_extract_first_index :: "nat \<Rightarrow> nat \<Rightarrow> nat \<Rightarrow> nat option" where
  "lpm_long_extract_first_index data prefixlen base_index = do {
     mask \<leftarrow> build_mask_from_prefixlen prefixlen;
     let masked_data = data AND mask;
     let last_byte = masked_data AND 0xFF;
     Some ((base_index * lpm_LONG_FACTOR + last_byte) mod 2 ^ 16)
   }"

text \<open>\<open>lpm_allocate\<close>: \<open>None\<close> inside for a failed \<^verbatim>\<open>malloc\<close>; the fresh arrays have any contents.\<close>

definition lpm_allocate :: "bool \<Rightarrow> (nat \<Rightarrow> nat) option \<Rightarrow> (nat \<Rightarrow> nat) option \<Rightarrow> lpm option option" where
  "lpm_allocate got_lpm fresh24 fresh_long =
     (if \<not> got_lpm then Some None
      else case fresh24 of None \<Rightarrow> Some None
      | Some t24 \<Rightarrow> (case fresh_long of None \<Rightarrow> Some None
        | Some t_long \<Rightarrow> do {
            t24 \<leftarrow> fill_invalid lpm_24_MAX_ENTRIES t24 lpm_24_MAX_ENTRIES;
            t_long \<leftarrow> fill_invalid lpm_LONG_MAX_ENTRIES t_long lpm_LONG_MAX_ENTRIES;
            Some (Some \<lparr>lpm_24 = t24, lpm_long = t_long, lpm_long_index = 0\<rparr>)
          }))"

definition lpm_lookup_elem :: "lpm \<Rightarrow> nat \<Rightarrow> nat option" where
  "lpm_lookup_elem t prefix =
     (let index = lpm_24_extract_first_index prefix
      in if \<not> index < lpm_24_MAX_ENTRIES then None
         else
           let value = lpm_24 t index
           in if value \<noteq> INVALID \<and> lpm_24_entry_flag value then do {
                let extracted_index = value AND 0xFF;
                index_long \<leftarrow> lpm_long_extract_first_index prefix 32 extracted_index;
                if \<not> index_long < lpm_LONG_MAX_ENTRIES then None
                else
                  let value_long = lpm_long t index_long
                  in if value_long = INVALID then Some INVALID else Some value_long
              }
              else if value = INVALID then Some INVALID else Some value)"

definition lpm_update_elem :: "lpm \<Rightarrow> nat \<Rightarrow> nat \<Rightarrow> nat \<Rightarrow> (nat \<times> lpm) option" where
  "lpm_update_elem t prefix prefixlen value = do {
     mask \<leftarrow> build_mask_from_prefixlen prefixlen;
     let masked_ip = prefix AND mask;
     if prefixlen < 25 then do {
       let first_index = lpm_24_extract_first_index masked_ip;
       rule_size \<leftarrow> compute_rule_size prefixlen;
       let last_index = first_index + rule_size;
       t24 \<leftarrow> fill_range lpm_24_MAX_ENTRIES value first_index last_index (lpm_24 t);
       Some (1, t\<lparr>lpm_24 := t24\<rparr>)
     }
     else do {
       let lpm_24_index = lpm_24_extract_first_index prefix;
       if \<not> lpm_24_index < lpm_24_MAX_ENTRIES then None
       else do {
         let lpm_24_value = lpm_24 t lpm_24_index;
         let need_new_index = (if lpm_24_value = INVALID then True else \<not> lpm_24_entry_flag lpm_24_value);
         if need_new_index \<and> lpm_LONG_OFFSET_MAX \<le> lpm_long_index t then Some (0, t)
         else do {
           let (base_index, t) =
             (if need_new_index
              then (lpm_long_index t mod 2 ^ 8,
                    t\<lparr>lpm_long_index := (lpm_long_index t + 1) mod 2 ^ 16,
                      lpm_24 := (lpm_24 t)(lpm_24_index := lpm_24_entry_set_flag (lpm_long_index t mod 2 ^ 8))\<rparr>)
              else ((lpm_24_value AND 0x7FFF) mod 2 ^ 8, t));
           first_index \<leftarrow> lpm_long_extract_first_index prefix prefixlen base_index;
           rule_size \<leftarrow> compute_rule_size prefixlen;
           let last_index = first_index + rule_size;
           t_long \<leftarrow> fill_range lpm_LONG_MAX_ENTRIES value first_index last_index (lpm_long t);
           Some (1, t\<lparr>lpm_long := t_long\<rparr>)
         }
       }
     }
   }"

subsection \<open>Arithmetic of the bit operations\<close>

lemma fill_range_eq:
  assumes "i \<le> stop" "stop \<le> sz"
  shows "fill_range sz v i stop t = Some (\<lambda>j. if i \<le> j \<and> j < stop then v else t j)"
  using assms
proof (induction "stop - i" arbitrary: i t)
  case 0
  then show ?case by (subst fill_range.simps) auto
next
  case (Suc n)
  then have "fill_range sz v (Suc i) stop (t(i := v)) =
    Some (\<lambda>j. if Suc i \<le> j \<and> j < stop then v else (t(i := v)) j)" by simp
  moreover have "(\<lambda>j. if Suc i \<le> j \<and> j < stop then v else (t(i := v)) j) =
    (\<lambda>j. if i \<le> j \<and> j < stop then v else t j)" using Suc.hyps(2) by (auto simp: fun_eq_iff)
  moreover have "i \<noteq> stop" "i < sz" using Suc.hyps(2) Suc.prems by simp_all
  ultimately show ?case by (subst fill_range.simps) (simp only: if_True if_False)
qed

lemma table_value:
  assumes "map f [0..<n] = xs" "i < n"
  shows "arr_get xs (int i) = Some (f i)"
proof -
  have "length xs = n" using assms(1) by (metis length_map length_upt minus_nat.diff_0)
  moreover have "xs ! i = f i" using assms by (metis add_0 length_upt minus_nat.diff_0 nth_map nth_upt)
  ultimately show ?thesis using assms(2) by (simp add: arr_get_def)
qed

lemma mask_value: "p \<le> 32 \<Longrightarrow> build_mask_from_prefixlen p = Some (2 ^ 32 - 2 ^ (32 - p))"
  unfolding build_mask_from_prefixlen_def
  by (rule table_value [where n = 33]) (simp_all add: upt_rec)

lemma rule_size_short: "p \<le> 24 \<Longrightarrow> compute_rule_size p = Some (2 ^ (24 - p))"
  unfolding compute_rule_size_def
  by (rule trans [OF if_P table_value [where n = 25]]) (simp_all add: upt_rec)

lemma rule_size_long:
  assumes "25 \<le> p" "p \<le> 32"
  shows "compute_rule_size p = Some (2 ^ (32 - p))"
proof -
  have "arr_get [0x80, 0x40, 0x20, 0x10, 0x8, 0x4, 0x2, 0x1] (int (p - 25)) =
    Some ((\<lambda>i. 2 ^ (7 - i)) (p - 25) :: nat)"
    by (rule table_value [where n = 8]) (use assms in \<open>simp_all add: upt_rec\<close>)
  moreover have "7 - (p - 25) = 32 - p" "int (p - 25) = int p - 25" using assms by simp_all
  ultimately show ?thesis using assms by (simp only: compute_rule_size_def) simp
qed

lemma and_high_mask:
  assumes "n < 2 ^ 32" "k \<le> 32"
  shows "and n (2 ^ 32 - 2 ^ k) = n div 2 ^ k * (2 ^ k :: nat)"
proof -
  have m: "2 ^ 32 - 2 ^ k = push_bit k (mask (32 - k) :: nat)"
  proof -
    have "(2::nat) ^ 32 = 2 ^ k * 2 ^ (32 - k)" using assms(2) by (simp flip: power_add)
    then show ?thesis by (simp add: mask_eq_exp_minus_1 push_bit_eq_mult algebra_simps diff_mult_distrib2)
  qed
  have "take_bit 32 n = n" using assms(1) by (simp add: take_bit_nat_eq_self)
  then have b: "bit n j \<Longrightarrow> j < 32" for j by (metis bit_take_bit_iff)
  have "and n (push_bit k (mask (32 - k))) = push_bit k (drop_bit k n)"
    by (rule bit_eqI)
      (use b in \<open>auto simp: bit_and_iff bit_push_bit_iff bit_mask_iff bit_drop_bit_eq intro!: diff_less_mono\<close>)
  then show ?thesis by (simp only: m push_bit_eq_mult drop_bit_eq_div)
qed

lemma flag_value: "v < 65536 \<Longrightarrow> lpm_24_entry_flag v \<longleftrightarrow> 32768 \<le> v"
  by (auto simp: lpm_24_entry_flag_def drop_bit_eq_div)

lemma set_flag_value:
  assumes "b < 256"
  shows "lpm_24_entry_set_flag b = 32768 + b"
proof -
  have "b div 2 ^ 15 = 0" using assms by simp
  then have "\<not> bit b 15" by (simp only: bit_iff_odd) simp
  then have "b AND 2 ^ 15 = 0" by (simp only: and_exp_eq_0_iff_not_bit not_False_eq_True)
  then have "b + 2 ^ 15 = b OR 2 ^ 15" by (rule disjunctive_add_eq_or)
  then have "b OR 32768 = b + 32768" by simp
  then show ?thesis using assms by (simp add: lpm_24_entry_set_flag_def)
qed

lemma and_255: "n AND 255 = n mod (256 :: nat)"
  using take_bit_eq_mask [of 8 n] by (simp add: mask_eq_exp_minus_1 take_bit_eq_mod)

subsection \<open>The invariant, and what a table maps an address to\<close>

definition flagged :: "lpm \<Rightarrow> nat \<Rightarrow> bool" where
  "flagged t i \<longleftrightarrow> 32768 \<le> lpm_24 t i \<and> lpm_24 t i \<noteq> INVALID"

definition lpm_ok :: "lpm \<Rightarrow> bool" where
  "lpm_ok t \<longleftrightarrow>
     lpm_long_index t \<le> 256 \<and>
     (\<forall>i < 2 ^ 24. lpm_24 t i < 65536) \<and>
     (\<forall>i < 2 ^ 24. flagged t i \<longrightarrow> lpm_24 t i < 32768 + lpm_long_index t) \<and>
     (\<forall>i < 2 ^ 24. \<forall>j < 2 ^ 24. flagged t i \<longrightarrow> lpm_24 t i = lpm_24 t j \<longrightarrow> i = j) \<and>
     (\<forall>k < 65536. lpm_long t k < 65536) \<and>
     (\<forall>k < 65536. lpm_long_index t * 256 \<le> k \<longrightarrow> lpm_long t k = INVALID)"

definition same_prefix :: "nat \<Rightarrow> nat \<Rightarrow> nat \<Rightarrow> bool" where
  "same_prefix prefixlen prefix ip \<longleftrightarrow> ip div 2 ^ (32 - prefixlen) = prefix div 2 ^ (32 - prefixlen)"

text \<open>The route of an address, \<open>INVALID\<close> where there is none.\<close>

definition route :: "lpm \<Rightarrow> nat \<Rightarrow> nat" where
  "route t ip =
     (if flagged t (ip div 256) then lpm_long t ((lpm_24 t (ip div 256) - 32768) * 256 + ip mod 256)
      else lpm_24 t (ip div 256))"

lemma lpm_okD:
  assumes "lpm_ok t"
  shows "lpm_long_index t \<le> 256"
    and "i < 16777216 \<Longrightarrow> lpm_24 t i < 65536"
    and "i < 16777216 \<Longrightarrow> flagged t i \<Longrightarrow> lpm_24 t i < 32768 + lpm_long_index t"
    and "i < 16777216 \<Longrightarrow> j < 16777216 \<Longrightarrow> flagged t i \<Longrightarrow> lpm_24 t i = lpm_24 t j \<Longrightarrow> i = j"
    and "k < 65536 \<Longrightarrow> lpm_long t k < 65536"
    and "k < 65536 \<Longrightarrow> lpm_long_index t * 256 \<le> k \<Longrightarrow> lpm_long t k = INVALID"
  using assms by (simp_all add: lpm_ok_def)

lemma long_first_index:
  assumes "prefix < 2 ^ 32" "p \<le> 32" "25 \<le> p" "b < 256"
  shows "lpm_long_extract_first_index prefix p b =
    Some (b * 256 + prefix mod 256 div 2 ^ (32 - p) * 2 ^ (32 - p))"
proof -
  let ?d = "2 ^ (32 - p) :: nat"
  have dvd: "?d dvd 2 ^ 8" using assms(3) by (intro le_imp_power_dvd) simp
  have "prefix div ?d * ?d mod 256 = prefix mod 256 div ?d * ?d"
  proof -
    obtain c where c: "256 = ?d * c" using dvd by (auto simp: dvd_def)
    have "prefix mod 256 div ?d = prefix div ?d mod c"
      by (simp only: c) (simp add: mod_mult2_eq)
    then show ?thesis by (simp only: c) (simp add: mult.commute)
  qed
  moreover have "prefix mod 256 div ?d * ?d < 256"
    by (rule le_less_trans [OF div_times_less_eq_dividend]) simp
  moreover have "prefix AND (4294967296 - 2 ^ (32 - p)) = prefix div ?d * ?d"
    using and_high_mask [of prefix "32 - p"] assms by simp
  ultimately show ?thesis
    using assms by (simp add: lpm_long_extract_first_index_def mask_value and_255 Let_def)
qed

lemma group_255: "32768 \<le> e \<Longrightarrow> e < 32768 + 256 \<Longrightarrow> e mod 256 = e - (32768 :: nat)"
  by (simp add: le_iff_add) (auto simp: mod_add_left_eq [symmetric])

lemma lookup_long:
  assumes "lpm_24_extract_first_index ip = i" "i < lpm_24_MAX_ENTRIES"
    "lpm_24 t i \<noteq> INVALID" "lpm_24_entry_flag (lpm_24 t i)"
    "lpm_long_extract_first_index ip 32 (lpm_24 t i AND 255) = Some k" "k < lpm_LONG_MAX_ENTRIES"
  shows "lpm_lookup_elem t ip = Some (lpm_long t k)"
  using assms unfolding lpm_lookup_elem_def Let_def
  by (simp del: lpm_24_MAX_ENTRIES_def lpm_LONG_MAX_ENTRIES_def INVALID_def)

lemma lookup_short:
  assumes "lpm_24_extract_first_index ip = i" "i < lpm_24_MAX_ENTRIES"
    "lpm_24 t i = INVALID \<or> \<not> lpm_24_entry_flag (lpm_24 t i)"
  shows "lpm_lookup_elem t ip = Some (lpm_24 t i)"
  using assms unfolding lpm_lookup_elem_def Let_def
  by (auto simp del: lpm_24_MAX_ENTRIES_def lpm_LONG_MAX_ENTRIES_def INVALID_def)

lemma lookup_route:
  assumes "lpm_ok t" "ip < 2 ^ 32"
  shows "lpm_lookup_elem t ip = Some (route t ip)"
proof -
  let ?i = "ip div 256"
  have i: "?i < 16777216" using assms(2) by simp
  have idx: "lpm_24_extract_first_index ip = ?i"
    by (simp add: lpm_24_extract_first_index_def drop_bit_eq_div)
  show ?thesis
  proof (cases "flagged t ?i")
    case True
    let ?g = "lpm_24 t ?i - 32768"
    have "lpm_24 t ?i < 32768 + 256" "32768 \<le> lpm_24 t ?i"
      using lpm_okD(1,3) [OF assms(1)] True i by (fastforce simp: flagged_def)+
    then have g: "lpm_24 t ?i AND 255 = ?g" "?g < 256" by (auto simp: and_255 group_255)
    have k: "lpm_long_extract_first_index ip 32 ?g = Some (?g * 256 + ip mod 256)"
      using long_first_index [OF assms(2) _ _ g(2), of 32] by simp
    have "lpm_lookup_elem t ip = Some (lpm_long t (?g * 256 + ip mod 256))"
    proof (rule lookup_long [OF idx])
      show "lpm_24_entry_flag (lpm_24 t ?i)" "lpm_24 t ?i \<noteq> INVALID"
        using True flag_value [OF lpm_okD(2) [OF assms(1) i]] by (simp_all only: flagged_def not_False_eq_True)
      show "?g * 256 + ip mod 256 < lpm_LONG_MAX_ENTRIES" using g(2) by simp
    qed (use i k g(1) in simp_all)
    then show ?thesis using True by (simp only: route_def if_True)
  next
    case False
    then have "lpm_24 t ?i = INVALID \<or> \<not> lpm_24_entry_flag (lpm_24 t ?i)"
      using flag_value [OF lpm_okD(2) [OF assms(1) i]] by (simp only: flagged_def) blast
    then have "lpm_lookup_elem t ip = Some (lpm_24 t ?i)"
      using i by (intro lookup_short [OF idx]) simp_all
    then show ?thesis using False by (simp only: route_def if_False)
  qed
qed

subsection \<open>Updates\<close>

lemma block_iff:
  assumes "0 < (s :: nat)"
  shows "b * s \<le> i \<and> i < b * s + s \<longleftrightarrow> i div s = b"
proof
  assume "b * s \<le> i \<and> i < b * s + s"
  then show "i div s = b" by (intro div_nat_eqI) (simp_all add: algebra_simps)
next
  assume "i div s = b"
  then show "b * s \<le> i \<and> i < b * s + s"
    using assms div_times_less_eq_dividend [of i s] dividend_less_div_times [of s i]
    by (auto simp: add.commute)
qed

lemma pow_split_24: "p \<le> 24 \<Longrightarrow> 2 ^ (32 - p) = 256 * (2 ^ (24 - p) :: nat)"
proof -
  assume "p \<le> 24"
  then have "32 - p = 8 + (24 - p)" by simp
  then show ?thesis by (simp only: power_add) simp
qed

lemma update_short:
  assumes p: "p \<le> 24" and pr: "prefix < 2 ^ 32"
  defines "S \<equiv> {i. i div 2 ^ (24 - p) = prefix div 2 ^ (32 - p)}"
  shows "lpm_update_elem t prefix p v = Some (1, t\<lparr>lpm_24 := \<lambda>i. if i \<in> S then v else lpm_24 t i\<rparr>)"
proof -
  let ?s = "2 ^ (24 - p) :: nat" and ?b = "prefix div 2 ^ (32 - p)"
  have "prefix AND (4294967296 - 2 ^ (32 - p)) = ?b * 2 ^ (32 - p)"
    using and_high_mask [of prefix "32 - p"] pr p by simp
  then have fi: "lpm_24_extract_first_index (prefix AND (4294967296 - 2 ^ (32 - p))) = ?b * ?s"
    by (simp add: lpm_24_extract_first_index_def drop_bit_eq_div pow_split_24 [OF p])
  have "?b < 2 ^ p" using pr p by (simp add: less_mult_imp_div_less flip: power_add)
  then have "Suc ?b * ?s \<le> 2 ^ p * ?s" by (intro mult_le_mono) simp_all
  also have "\<dots> = 16777216" using p by (simp flip: power_add)
  finally have "?b * ?s + ?s \<le> 16777216" by simp
  then show ?thesis
    using p fill_range_eq [of "?b * ?s" "?b * ?s + ?s" lpm_24_MAX_ENTRIES v "lpm_24 t"]
    by (simp add: lpm_update_elem_def mask_value Let_def fi rule_size_short S_def block_iff)
qed

lemma same_prefix_short:
  assumes "p \<le> 24"
  shows "ip div 256 div 2 ^ (24 - p) = prefix div 2 ^ (32 - p) \<longleftrightarrow> same_prefix p prefix ip"
  by (simp add: same_prefix_def pow_split_24 [OF assms] div_mult2_eq)

lemma flagged_fill:
  assumes "v < 32768 \<or> v = INVALID"
  shows "flagged (t\<lparr>lpm_24 := \<lambda>i. if i \<in> S then v else lpm_24 t i\<rparr>) i \<longleftrightarrow> i \<notin> S \<and> flagged t i"
  using assms by (auto simp: flagged_def)

lemma route_fill:
  assumes "v < 32768 \<or> v = INVALID"
  shows "route (t\<lparr>lpm_24 := \<lambda>i. if i \<in> S then v else lpm_24 t i\<rparr>) ip =
    (if ip div 256 \<in> S then v else route t ip)"
  unfolding route_def flagged_fill [OF assms] by simp

lemma lpm_okI:
  assumes "lpm_long_index t \<le> 256"
    and "\<And>i. i < 16777216 \<Longrightarrow> lpm_24 t i < 65536"
    and "\<And>i. i < 16777216 \<Longrightarrow> flagged t i \<Longrightarrow> lpm_24 t i < 32768 + lpm_long_index t"
    and "\<And>i j. i < 16777216 \<Longrightarrow> j < 16777216 \<Longrightarrow> flagged t i \<Longrightarrow> lpm_24 t i = lpm_24 t j \<Longrightarrow> i = j"
    and "\<And>k. k < 65536 \<Longrightarrow> lpm_long t k < 65536"
    and "\<And>k. k < 65536 \<Longrightarrow> lpm_long_index t * 256 \<le> k \<Longrightarrow> lpm_long t k = INVALID"
  shows "lpm_ok t"
proof -
  have e: "2 ^ 24 = (16777216 :: nat)" by simp
  show ?thesis unfolding lpm_ok_def e by (intro conjI allI impI) (fact assms)+
qed

lemma lpm_ok_fill:
  assumes ok: "lpm_ok t" and v: "v < 32768 \<or> v = INVALID"
  shows "lpm_ok (t\<lparr>lpm_24 := \<lambda>i. if i \<in> S then v else lpm_24 t i\<rparr>)"
proof (rule lpm_okI, goal_cases)
  case (4 i j)
  then have i: "i \<notin> S" "flagged t i" unfolding flagged_fill [OF v] by blast+
  then have "lpm_24 t i = (if j \<in> S then v else lpm_24 t j)" using 4(4) by simp
  moreover have "j \<notin> S"
  proof
    assume "j \<in> S"
    then have "lpm_24 t i = v" using calculation by simp
    then show False using i(2) v by (auto simp: flagged_def)
  qed
  ultimately show ?case using lpm_okD(4) [OF ok 4(1,2) i(2)] by simp
qed (use lpm_okD [OF ok] v in \<open>simp_all only: flagged_fill [OF v] lpm.simps split: if_split\<close>, auto)

lemma update_short_route:
  assumes "p \<le> 24" "prefix < 2 ^ 32" "lpm_ok t" "v < 32768 \<or> v = INVALID" "ip < 2 ^ 32"
  shows "\<exists>t'. lpm_update_elem t prefix p v = Some (1, t') \<and> lpm_ok t' \<and>
    route t' ip = (if same_prefix p prefix ip then v else route t ip)"
proof -
  let ?S = "{i. i div 2 ^ (24 - p) = prefix div 2 ^ (32 - p)}"
  let ?t = "t\<lparr>lpm_24 := \<lambda>i. if i \<in> ?S then v else lpm_24 t i\<rparr>"
  have m: "ip div 256 \<in> ?S \<longleftrightarrow> same_prefix p prefix ip"
    using same_prefix_short [OF assms(1)] by simp
  have "route ?t ip = (if same_prefix p prefix ip then v else route t ip)"
    unfolding route_fill [OF assms(4)] m ..
  moreover have "lpm_ok ?t" by (rule lpm_ok_fill [OF assms(3,4)])
  ultimately show ?thesis using update_short [OF assms(1,2)] by blast
qed

definition open_group :: "lpm \<Rightarrow> nat \<Rightarrow> lpm" where
  "open_group t i =
     (if flagged t i then t
      else t\<lparr>lpm_long_index := lpm_long_index t + 1, lpm_24 := (lpm_24 t)(i := 32768 + lpm_long_index t)\<rparr>)"

lemma open_group:
  assumes ok: "lpm_ok t" and i: "i < 16777216" and free: "flagged t i \<or> lpm_long_index t < 256"
  shows "lpm_ok (open_group t i)" "flagged (open_group t i) i"
    "lpm_24 (open_group t i) i - 32768 < lpm_long_index (open_group t i)"
proof -
  show "flagged (open_group t i) i" using free by (auto simp: open_group_def flagged_def)
  show "lpm_24 (open_group t i) i - 32768 < lpm_long_index (open_group t i)"
    using lpm_okD(3) [OF ok i] by (auto simp: open_group_def flagged_def)
  show "lpm_ok (open_group t i)"
  proof (cases "flagged t i")
    case False
    then have g: "lpm_long_index t < 256" using free by blast
    let ?t = "t\<lparr>lpm_long_index := lpm_long_index t + 1, lpm_24 := (lpm_24 t)(i := 32768 + lpm_long_index t)\<rparr>"
    have f: "flagged ?t j \<longleftrightarrow> j = i \<or> flagged t j" for j using g by (auto simp: flagged_def)
    have below: "j < 16777216 \<Longrightarrow> lpm_24 t j \<noteq> 32768 + lpm_long_index t" for j
      using lpm_okD(3) [OF ok] g by (fastforce simp: flagged_def)
    have "lpm_ok ?t"
    proof (rule lpm_okI, goal_cases)
      case (3 j)
      then show ?case using f lpm_okD(3) [OF ok 3(1)] by (cases "j = i") auto
    next
      case (4 j k)
      then show ?case using f below lpm_okD(4) [OF ok 4(1,2)] by (cases "j = i"; cases "k = i") auto
    qed (use lpm_okD [OF ok] g in auto)
    then show ?thesis using False by (simp only: open_group_def if_False)
  qed (use ok in \<open>simp add: open_group_def\<close>)
qed

lemma update_long_steps:
  assumes "build_mask_from_prefixlen p = Some m" "25 \<le> p"
    "lpm_24_extract_first_index prefix = i" "i < lpm_24_MAX_ENTRIES"
    "lpm_24 t i < 65536" "flagged t i \<or> lpm_long_index t < lpm_LONG_OFFSET_MAX"
    "g = (if flagged t i then (lpm_24 t i AND 0x7FFF) mod 2 ^ 8 else lpm_long_index t)"
    "lpm_long_extract_first_index prefix p g = Some f" "compute_rule_size p = Some s"
    "fill_range lpm_LONG_MAX_ENTRIES v f (f + s) (lpm_long t) = Some t_long"
  shows "lpm_update_elem t prefix p v = Some (1, (open_group t i)\<lparr>lpm_long := t_long\<rparr>)"
proof -
  have n: "flagged t i \<longleftrightarrow> lpm_24 t i \<noteq> INVALID \<and> lpm_24_entry_flag (lpm_24 t i)"
    using assms(5) by (auto simp: flagged_def flag_value)
  show ?thesis
  proof (cases "flagged t i")
    case True
    then have "lpm_24 t i \<noteq> INVALID" "lpm_24_entry_flag (lpm_24 t i)" unfolding n by blast+
    then show ?thesis
      using assms(1-4,7-10) True
      unfolding lpm_update_elem_def open_group_def Let_def
      by (simp del: lpm_24_MAX_ENTRIES_def lpm_LONG_MAX_ENTRIES_def INVALID_def)
  next
    case False
    then have g: "lpm_long_index t < 256" using assms(6) by simp
    have r: "(lpm_long_index t + 1) mod 2 ^ 16 = lpm_long_index t + 1" "lpm_long_index t mod 2 ^ 8 = lpm_long_index t"
      using g by simp_all
    have "lpm_24 t i = INVALID \<or> lpm_24 t i \<noteq> INVALID \<and> \<not> lpm_24_entry_flag (lpm_24 t i)"
      using False by (simp only: n) blast
    then show ?thesis
      using assms(1-4,7-10) False g
      unfolding lpm_update_elem_def open_group_def Let_def r
      by (elim disjE conjE)
        (simp_all del: lpm_24_MAX_ENTRIES_def lpm_LONG_MAX_ENTRIES_def INVALID_def add: set_flag_value [OF g])
  qed
qed

lemma update_long_full:
  assumes ok: "lpm_ok t" and pr: "prefix < 2 ^ 32" and p: "25 \<le> p" "p \<le> 32"
    and full: "\<not> flagged t (prefix div 256)" "lpm_long_index t = 256"
  shows "lpm_update_elem t prefix p v = Some (0, t)"
proof -
  let ?i = "prefix div 256"
  have i: "?i < lpm_24_MAX_ENTRIES" using pr by simp
  have "lpm_24 t ?i = INVALID \<or> lpm_24 t ?i \<noteq> INVALID \<and> \<not> lpm_24_entry_flag (lpm_24 t ?i)"
    using lpm_okD(2) [OF ok, of ?i] i full(1) by (auto simp: flagged_def flag_value)
  moreover have "lpm_24_extract_first_index prefix = ?i"
    by (simp add: lpm_24_extract_first_index_def drop_bit_eq_div)
  ultimately show ?thesis
    using i p full mask_value [OF p(2)]
    unfolding lpm_update_elem_def Let_def
    by (elim disjE conjE) (simp_all del: lpm_24_MAX_ENTRIES_def lpm_LONG_MAX_ENTRIES_def INVALID_def)
qed

lemma long_block_iff:
  assumes "25 \<le> p" "p \<le> (32 :: nat)" "b < 256"
  defines "d \<equiv> 2 ^ (32 - p) :: nat"
  shows "g * 256 + b div d * d \<le> k \<and> k < g * 256 + b div d * d + d \<longleftrightarrow>
    k div 256 = g \<and> k mod 256 div d = b div d"
    and "b div d * d + d \<le> 256"
proof -
  have "d dvd 2 ^ 8" unfolding d_def using assms(1) by (intro le_imp_power_dvd) simp
  then obtain c where c: "256 = d * c" by (auto simp: dvd_def)
  have d: "0 < d" by (simp add: d_def)
  have "b < d * c" using assms(3) c by simp
  then have bc: "b div d < c" using d by (simp add: less_mult_imp_div_less mult.commute)
  then have "Suc (b div d) * d \<le> c * d" by (intro mult_le_mono) simp_all
  then show le: "b div d * d + d \<le> 256" using c by (simp add: mult.commute)
  have "g * 256 + b div d * d = (g * c + b div d) * d" by (simp only: c) (simp add: algebra_simps)
  then have "g * 256 + b div d * d \<le> k \<and> k < g * 256 + b div d * d + d \<longleftrightarrow> k div d = g * c + b div d"
    using block_iff [OF d, of "g * c + b div d" k] by simp
  also have "\<dots> \<longleftrightarrow> k div d div c = g \<and> k div d mod c = b div d"
    using bc by (auto simp: div_mult_mod_eq)
      (metis div_mult_mod_eq)
  also have "\<dots> \<longleftrightarrow> k div 256 = g \<and> k mod 256 div d = b div d"
  proof -
    have "k mod 256 div d = k div d mod c" "k div 256 = k div d div c"
      by (simp_all only: c div_mult2_eq mod_mult2_eq) (use d in simp)
    then show ?thesis by simp
  qed
  finally show "g * 256 + b div d * d \<le> k \<and> k < g * 256 + b div d * d + d \<longleftrightarrow>
    k div 256 = g \<and> k mod 256 div d = b div d" .
qed

lemma update_long:
  assumes ok: "lpm_ok t" and pr: "prefix < 2 ^ 32" and p: "25 \<le> p" "p \<le> 32"
    and free: "flagged t (prefix div 256) \<or> lpm_long_index t < 256"
  defines "u \<equiv> open_group t (prefix div 256)"
  defines "g \<equiv> lpm_24 u (prefix div 256) - 32768"
  shows "lpm_update_elem t prefix p v = Some (1, u\<lparr>lpm_long := \<lambda>k.
    if k div 256 = g \<and> k mod 256 div 2 ^ (32 - p) = prefix mod 256 div 2 ^ (32 - p)
    then v else lpm_long t k\<rparr>)"
proof -
  let ?i = "prefix div 256" and ?d = "2 ^ (32 - p) :: nat"
  let ?f = "g * 256 + prefix mod 256 div ?d * ?d"
  have i: "?i < 16777216" using pr by simp
  have idx: "lpm_24_extract_first_index prefix = ?i"
    by (simp add: lpm_24_extract_first_index_def drop_bit_eq_div)
  note o = open_group [OF ok i free]
  have g256: "g < 256" using o(3) lpm_okD(1) [OF o(1)] by (simp add: u_def g_def)
  have gv: "g = (if flagged t ?i then (lpm_24 t ?i AND 0x7FFF) mod 2 ^ 8 else lpm_long_index t)"
  proof (cases "flagged t ?i")
    case True
    have "(lpm_24 t ?i AND 32767) mod 256 = lpm_24 t ?i mod 256"
      using take_bit_eq_mask [of 15 "lpm_24 t ?i"] mod_mod_cancel [of 256 32768 "lpm_24 t ?i"]
      by (simp add: mask_eq_exp_minus_1 take_bit_eq_mod)
    also have "\<dots> = lpm_24 t ?i - 32768"
      using g256 True by (intro group_255) (auto simp: g_def u_def open_group_def flagged_def)
    finally show ?thesis using True by (simp add: g_def u_def open_group_def)
  qed (simp add: g_def u_def open_group_def)
  have "?f + ?d \<le> 65536"
    using long_block_iff(2) [OF p, of "prefix mod 256"] g256 by simp
  then have fr: "fill_range lpm_LONG_MAX_ENTRIES v ?f (?f + ?d) (lpm_long t) =
    Some (\<lambda>k. if k div 256 = g \<and> k mod 256 div ?d = prefix mod 256 div ?d then v else lpm_long t k)"
    using long_block_iff(1) [OF p, of "prefix mod 256" g]
    by (subst fill_range_eq) simp_all
  show ?thesis unfolding u_def
  proof (rule update_long_steps [OF mask_value [OF p(2)] p(1) idx _ _ _ gv _ rule_size_long [OF p] fr])
    show "lpm_long_extract_first_index prefix p g = Some ?f" by (rule long_first_index [OF pr p(2,1) g256])
  qed (use i lpm_okD(2) [OF ok i] free in simp_all)
qed

lemma same_prefix_long:
  assumes "25 \<le> p" "p \<le> 32"
  shows "ip div 256 = prefix div 256 \<and> ip mod 256 div 2 ^ (32 - p) = prefix mod 256 div 2 ^ (32 - p)
    \<longleftrightarrow> same_prefix p prefix ip"
proof -
  let ?d = "2 ^ (32 - p) :: nat"
  have "?d dvd 2 ^ 8" using assms(1) by (intro le_imp_power_dvd) simp
  then obtain c where c: "256 = ?d * c" by (auto simp: dvd_def)
  have d: "0 < ?d" by simp
  have "x mod 256 div ?d = x div ?d mod c" "x div 256 = x div ?d div c" for x
    by (simp_all only: c div_mult2_eq mod_mult2_eq) (use d in simp)
  then have "ip div 256 = prefix div 256 \<and> ip mod 256 div ?d = prefix mod 256 div ?d \<longleftrightarrow>
    ip div ?d div c = prefix div ?d div c \<and> ip div ?d mod c = prefix div ?d mod c" by simp
  also have "\<dots> \<longleftrightarrow> ip div ?d = prefix div ?d"
    by (metis div_mult_mod_eq)
  finally show ?thesis by (simp only: same_prefix_def)
qed

lemma open_group_route:
  assumes ok: "lpm_ok t" and i: "i < 16777216" and free: "flagged t i \<or> lpm_long_index t < 256"
    and ip: "ip < 2 ^ 32"
  shows "route (open_group t i) ip = (if ip div 256 = i \<and> \<not> flagged t i then INVALID else route t ip)"
proof (cases "flagged t i")
  case False
  then have g: "lpm_long_index t < 256" using free by blast
  then have "lpm_long t (lpm_long_index t * 256 + ip mod 256) = INVALID"
    by (intro lpm_okD(6) [OF ok]) simp_all
  moreover have "lpm_24 (open_group t i) = (lpm_24 t)(i := 32768 + lpm_long_index t)"
    "lpm_long (open_group t i) = lpm_long t" using False by (simp_all add: open_group_def)
  moreover have "flagged (open_group t i) i" by (rule open_group(2) [OF ok i free])
  moreover have "flagged (open_group t i) j \<longleftrightarrow> flagged t j" if "j \<noteq> i" for j
    using that by (simp add: flagged_def calculation(2))
  ultimately show ?thesis using False
    by (cases "ip div 256 = i") (simp_all only: route_def fun_upd_same fun_upd_other if_True if_False
      add_diff_cancel_left' simp_thms)
qed (simp add: open_group_def)

lemma update_long_route:
  assumes ok: "lpm_ok t" and pr: "prefix < 2 ^ 32" and p: "25 \<le> p" "p \<le> 32" and v: "v < 65536"
    and free: "flagged t (prefix div 256) \<or> lpm_long_index t < 256" and ip: "ip < 2 ^ 32"
  shows "\<exists>t'. lpm_update_elem t prefix p v = Some (1, t') \<and> lpm_ok t' \<and> flagged t' (prefix div 256) \<and>
    route t' ip = (if same_prefix p prefix ip then v
      else if ip div 256 = prefix div 256 \<and> \<not> flagged t (prefix div 256) then INVALID
      else route t ip)"
proof -
  let ?i = "prefix div 256" and ?d = "2 ^ (32 - p) :: nat"
  let ?u = "open_group t ?i"
  let ?g = "lpm_24 ?u ?i - 32768"
  let ?l = "\<lambda>k. if k div 256 = ?g \<and> k mod 256 div ?d = prefix mod 256 div ?d then v else lpm_long t k"
  let ?t = "?u\<lparr>lpm_long := ?l\<rparr>"
  have i: "?i < 16777216" and ii: "ip div 256 < 16777216" using pr ip by simp_all
  note o = open_group [OF ok i free]
  have l: "lpm_long ?u = lpm_long t" by (simp add: open_group_def)
  have f: "flagged ?t j = flagged ?u j" for j by (simp add: flagged_def)
  have "lpm_ok ?t"
  proof (rule lpm_okI, goal_cases)
    case (6 k)
    then have "lpm_long_index ?u * 256 \<le> k" by simp
    then have "lpm_long_index ?u \<le> k div 256" by (simp add: less_eq_div_iff_mult_less_eq)
    then have "k div 256 \<noteq> ?g" using o(3) by linarith
    then show ?case using lpm_okD(6) [OF o(1) 6(1)] 6(2) by (simp add: l)
  qed (use lpm_okD [OF o(1)] v in \<open>auto simp: f l\<close>)
  moreover have "route ?t ip = (if same_prefix p prefix ip then v else route ?u ip)"
  proof (cases "flagged ?u (ip div 256)")
    case True
    let ?h = "lpm_24 ?u (ip div 256) - 32768"
    have "32768 \<le> lpm_24 ?u (ip div 256)" "32768 \<le> lpm_24 ?u ?i"
      using True o(2) by (simp_all add: flagged_def)
    then have "?h = ?g \<longleftrightarrow> lpm_24 ?u (ip div 256) = lpm_24 ?u ?i" by (simp add: eq_diff_iff)
    also have "\<dots> \<longleftrightarrow> ip div 256 = ?i"
      using lpm_okD(4) [OF o(1) ii i True] by metis
    finally have "?h = ?g \<longleftrightarrow> ip div 256 = ?i" .
    then have "?l (?h * 256 + ip mod 256) =
      (if same_prefix p prefix ip then v else lpm_long ?u (?h * 256 + ip mod 256))"
      by (simp only: same_prefix_long [OF p, symmetric] l) simp
    then show ?thesis unfolding route_def f using True by simp
  next
    case False
    then have "ip div 256 \<noteq> ?i" using o(2) by auto
    then have "\<not> same_prefix p prefix ip" using same_prefix_long [OF p, of ip prefix] by blast
    then show ?thesis unfolding route_def f using False by simp
  qed
  moreover have "flagged ?t ?i" using o(2) f by simp
  ultimately show ?thesis
    using update_long [OF ok pr p free] open_group_route [OF ok i free ip] by auto
qed

subsection \<open>Properties\<close>

definition empty_lpm :: lpm where
  "empty_lpm = \<lparr>lpm_24 = \<lambda>i. INVALID, lpm_long = \<lambda>k. INVALID, lpm_long_index = 0\<rparr>"

lemma empty_lpm_ok: "lpm_ok empty_lpm"
  by (rule lpm_okI) (simp_all add: empty_lpm_def flagged_def)

lemma empty_lpm_route: "route empty_lpm ip = INVALID"
  by (simp add: route_def empty_lpm_def flagged_def)

lemma fill_invalid_route:
  assumes "fill_invalid lpm_24_MAX_ENTRIES a lpm_24_MAX_ENTRIES = Some t24"
    "fill_invalid lpm_LONG_MAX_ENTRIES b lpm_LONG_MAX_ENTRIES = Some t_long" "ip < 2 ^ 32"
  defines "t \<equiv> \<lparr>lpm_24 = t24, lpm_long = t_long, lpm_long_index = 0\<rparr>"
  shows "lpm_ok t" "route t ip = INVALID"
proof -
  have e: "t24 = (\<lambda>j. if j < 16777216 then INVALID else a j)" "t_long = (\<lambda>j. if j < 65536 then INVALID else b j)"
    using assms(1,2) by (auto simp: fill_invalid_def fill_range_eq)
  show "lpm_ok t" by (rule lpm_okI) (simp_all add: t_def e flagged_def)
  have "ip div 256 < 16777216" using assms(3) by simp
  then show "route t ip = INVALID" by (simp add: route_def t_def e flagged_def)
qed

text \<open>A fresh table: when the three allocations succeed \<open>lpm_allocate\<close> writes only inside its
  arrays, returns a well-formed table, and every address has no route in it; when one fails it
  returns no table.\<close>

theorem lpm_allocate_no_routes:
  assumes "ip < 2 ^ 32"
  shows "(\<exists>t. lpm_allocate True (Some a) (Some b) = Some (Some t) \<and> lpm_ok t \<and>
      lpm_lookup_elem t ip = Some INVALID) \<and>
    lpm_allocate False x y = Some None \<and> lpm_allocate True None y = Some None \<and>
    lpm_allocate True (Some a) None = Some None"
proof -
  obtain t24 where t24: "fill_invalid lpm_24_MAX_ENTRIES a lpm_24_MAX_ENTRIES = Some t24"
    by (simp add: fill_invalid_def fill_range_eq)
  obtain t_long where tl: "fill_invalid lpm_LONG_MAX_ENTRIES b lpm_LONG_MAX_ENTRIES = Some t_long"
    by (simp add: fill_invalid_def fill_range_eq)
  have "lpm_allocate True (Some a) (Some b) =
    Some (Some \<lparr>lpm_24 = t24, lpm_long = t_long, lpm_long_index = 0\<rparr>)"
    by (simp only: lpm_allocate_def t24 tl option.case bind.bind_lunit not_True_eq_False if_False)
  then show ?thesis
    using fill_invalid_route [OF t24 tl assms] lookup_route assms
    by (simp add: lpm_allocate_def)
qed

theorem lpm_allocate_no_routes_witness:
  "\<exists>t. lpm_allocate True (Some (\<lambda>_. 7)) (Some (\<lambda>_. 7)) = Some (Some t) \<and>
    lpm_lookup_elem t 3232235777 = Some INVALID"
  using lpm_allocate_no_routes [of 3232235777 "\<lambda>_. 7" "\<lambda>_. 7"] by fastforce

text \<open>A rule of at most 24 bits: \<open>lpm_update_elem\<close> returns 1, every address with that prefix then
  has the rule's value and every other address keeps its route (rules longer than 24 bits
  included).\<close>

theorem lpm_update_elem_short:
  assumes "lpm_ok t" "prefix < 2 ^ 32" "p \<le> 24" "v < 32768 \<or> v = INVALID"
  shows "\<exists>t'. lpm_update_elem t prefix p v = Some (1, t') \<and> lpm_ok t' \<and>
    (\<forall>ip < 2 ^ 32. lpm_lookup_elem t' ip =
      (if same_prefix p prefix ip then Some v else lpm_lookup_elem t ip))"
proof -
  obtain t' where t': "lpm_update_elem t prefix p v = Some (1, t')"
    using update_short [OF assms(3,2)] by blast
  have "lpm_ok t'" "\<And>ip. ip < 2 ^ 32 \<Longrightarrow> route t' ip = (if same_prefix p prefix ip then v else route t ip)"
    using update_short_route [OF assms(3,2,1,4)] t' by fastforce+
  then show ?thesis using t' lookup_route assms(1) by auto
qed

theorem lpm_update_elem_short_witness:
  "\<exists>t'. lpm_update_elem empty_lpm 167772160 8 5 = Some (1, t') \<and>
    lpm_lookup_elem t' 167838211 = Some 5"
proof -
  obtain t' where "lpm_update_elem empty_lpm 167772160 8 5 = Some (1, t')"
    "\<forall>ip < 2 ^ 32. lpm_lookup_elem t' ip =
      (if same_prefix 8 167772160 ip then Some 5 else lpm_lookup_elem empty_lpm ip)"
    using lpm_update_elem_short [OF empty_lpm_ok, of 167772160 8 5] by auto
  then show ?thesis by (auto simp: same_prefix_def)
qed

text \<open>A rule of 25 to 32 bits: where the address's /24 has no group and all 256 groups are taken,
  \<open>lpm_update_elem\<close> returns 0 and the table is unchanged; otherwise it returns 1 and every address
  with that prefix has the rule's value. The other addresses keep their route, except that
  those of the same /24 lose theirs when the /24 had no group before: the fresh group is not filled
  with the /24's old next hop.\<close>

theorem lpm_update_elem_long:
  assumes "lpm_ok t" "prefix < 2 ^ 32" "25 \<le> p" "p \<le> 32" "v < 65536"
  shows "if \<not> flagged t (prefix div 256) \<and> lpm_long_index t = 256
    then lpm_update_elem t prefix p v = Some (0, t)
    else \<exists>t'. lpm_update_elem t prefix p v = Some (1, t') \<and> lpm_ok t' \<and> flagged t' (prefix div 256) \<and>
      (\<forall>ip < 2 ^ 32. lpm_lookup_elem t' ip =
        (if same_prefix p prefix ip then Some v
         else if ip div 256 = prefix div 256 \<and> \<not> flagged t (prefix div 256) then Some INVALID
         else lpm_lookup_elem t ip))"
proof (cases "\<not> flagged t (prefix div 256) \<and> lpm_long_index t = 256")
  case True
  then show ?thesis using update_long_full [OF assms(1-4)] by simp
next
  case False
  then have free: "flagged t (prefix div 256) \<or> lpm_long_index t < 256"
    using lpm_okD(1) [OF assms(1)] by linarith
  obtain t' where t': "lpm_update_elem t prefix p v = Some (1, t')"
    using update_long [OF assms(1-4) free] by blast
  have "lpm_ok t'" "flagged t' (prefix div 256)"
    "\<And>ip. ip < 2 ^ 32 \<Longrightarrow> route t' ip = (if same_prefix p prefix ip then v
      else if ip div 256 = prefix div 256 \<and> \<not> flagged t (prefix div 256) then INVALID else route t ip)"
    using update_long_route [OF assms free] t' by (fastforce simp del: INVALID_def)+
  then show ?thesis using t' lookup_route assms(1) False by (auto simp del: INVALID_def)
qed

theorem lpm_update_elem_long_witness:
  "\<exists>t t'. lpm_update_elem empty_lpm 167772160 24 5 = Some (1, t) \<and>
    lpm_update_elem t 167772288 25 6 = Some (1, t') \<and>
    lpm_lookup_elem t' 167772289 = Some 6 \<and>
    lpm_lookup_elem t 167772161 = Some 5 \<and> lpm_lookup_elem t' 167772161 = Some INVALID"
proof -
  let ?t = "empty_lpm\<lparr>lpm_24 := \<lambda>i. if i = 655360 then 5 else INVALID\<rparr>"
  have t: "lpm_update_elem empty_lpm 167772160 24 5 = Some (1, ?t)"
    using update_short [of 24 167772160 empty_lpm 5] by (simp add: empty_lpm_def cong: if_cong)
  have ok: "lpm_ok ?t" by (rule lpm_okI) (auto simp: empty_lpm_def flagged_def split: if_splits)
  have "\<not> flagged ?t 655361" "\<not> flagged ?t 655360" "lpm_long_index ?t = 0"
    by (simp_all add: flagged_def empty_lpm_def)
  then obtain t' where "lpm_update_elem ?t 167772288 25 6 = Some (1, t')"
    "\<forall>ip < 2 ^ 32. lpm_lookup_elem t' ip =
      (if same_prefix 25 167772288 ip then Some 6
       else if ip div 256 = 655360 then Some INVALID else lpm_lookup_elem ?t ip)"
    using lpm_update_elem_long [OF ok, of 167772288 25 6] by (auto simp del: INVALID_def)
  moreover have "lpm_lookup_elem ?t 167772161 = Some 5"
    using lookup_route [OF ok, of 167772161] by (simp add: route_def flagged_def)
  ultimately show ?thesis using t by (auto simp: same_prefix_def simp del: INVALID_def)
qed

text \<open>A history of rules \<open>(prefix, prefixlen, value)\<close> entered one after the other.\<close>

fun enter_rules :: "(nat \<times> nat \<times> nat) list \<Rightarrow> lpm \<Rightarrow> lpm option" where
  "enter_rules [] t = Some t"
| "enter_rules ((prefix, p, v) # rs) t = do {
     (_, t) \<leftarrow> lpm_update_elem t prefix p v;
     enter_rules rs t
   }"

definition covers :: "nat \<times> nat \<times> nat \<Rightarrow> nat \<Rightarrow> bool" where
  "covers r ip \<longleftrightarrow> (case r of (prefix, p, v) \<Rightarrow> same_prefix p prefix ip)"

definition short_rule :: "nat \<times> nat \<times> nat \<Rightarrow> bool" where
  "short_rule r \<longleftrightarrow> (case r of (prefix, p, v) \<Rightarrow> prefix < 2 ^ 32 \<and> p \<le> 24 \<and> v < 32768)"

lemma enter_rules_snoc:
  "enter_rules (rs @ [r]) t = do { t \<leftarrow> enter_rules rs t; enter_rules [r] t }"
  by (induction rs t rule: enter_rules.induct) (auto split: Option.bind_splits)

lemma enter_rules_newest:
  assumes "\<forall>r \<in> set rs. short_rule r"
  shows "\<exists>t. enter_rules rs empty_lpm = Some t \<and> lpm_ok t \<and>
    (\<forall>ip < 2 ^ 32. route t ip = (case filter (\<lambda>r. covers r ip) (rev rs) of [] \<Rightarrow> INVALID
      | (_, _, v) # _ \<Rightarrow> v))"
  using assms
proof (induction rs rule: rev_induct)
  case Nil
  then show ?case using empty_lpm_ok empty_lpm_route by simp
next
  case (snoc r rs)
  then obtain t where t: "enter_rules rs empty_lpm = Some t" "lpm_ok t"
    "\<And>ip. ip < 2 ^ 32 \<Longrightarrow> route t ip = (case filter (\<lambda>r. covers r ip) (rev rs) of [] \<Rightarrow> INVALID
      | (_, _, v) # _ \<Rightarrow> v)" by auto
  obtain prefix p v where r: "r = (prefix, p, v)" by (cases r)
  then have ok: "prefix < 2 ^ 32" "p \<le> 24" "v < 32768 \<or> v = INVALID"
    using snoc.prems by (auto simp: short_rule_def)
  obtain t' where t': "lpm_update_elem t prefix p v = Some (1, t')"
    using update_short [OF ok(2,1)] by blast
  have "lpm_ok t'" "\<And>ip. ip < 2 ^ 32 \<Longrightarrow> route t' ip = (if same_prefix p prefix ip then v else route t ip)"
    using update_short_route [OF ok(2,1) t(2) ok(3)] t' by fastforce+
  then show ?case using t t' by (auto simp: enter_rules_snoc r covers_def simp del: INVALID_def)
qed

text \<open>C7. Longest prefix match: rules of at most 24 bits entered by increasing length into a fresh
  table all succeed, and a lookup then returns the value of a longest rule that covers the address,
  and \<open>INVALID\<close> only when none covers it.\<close>

theorem lpm_longest_prefix_match:
  assumes "\<forall>r \<in> set rs. short_rule r" "sorted (map (\<lambda>(prefix, p, v). p) rs)" "ip < 2 ^ 32"
  shows "\<exists>t. enter_rules rs empty_lpm = Some t \<and>
    (if \<exists>r \<in> set rs. covers r ip
     then \<exists>(prefix, p, v) \<in> set rs. covers (prefix, p, v) ip \<and> lpm_lookup_elem t ip = Some v \<and>
       (\<forall>(prefix', p', v') \<in> set rs. covers (prefix', p', v') ip \<longrightarrow> p' \<le> p)
     else lpm_lookup_elem t ip = Some INVALID)"
proof -
  obtain t where t: "enter_rules rs empty_lpm = Some t" "lpm_ok t"
    "route t ip = (case filter (\<lambda>r. covers r ip) (rev rs) of [] \<Rightarrow> INVALID | (_, _, v) # _ \<Rightarrow> v)"
    using enter_rules_newest [OF assms(1)] assms(3) by blast
  show ?thesis
  proof (cases "filter (\<lambda>r. covers r ip) (rev rs)")
    case Nil
    then have "\<not> (\<exists>r \<in> set rs. covers r ip)" by (auto simp: filter_empty_conv)
    then show ?thesis using t Nil lookup_route [OF t(2) assms(3)] by simp
  next
    case (Cons r xs)
    obtain prefix p v where r: "r = (prefix, p, v)" by (cases r)
    from Cons obtain us vs where split: "rev rs = us @ r # vs" "\<forall>u \<in> set us. \<not> covers u ip" "covers r ip"
      by (auto simp: filter_eq_Cons_iff)
    then have rs: "rs = rev vs @ r # rev us" by (metis append_assoc append_Cons append_Nil rev.simps(2) rev_append rev_rev_ident)
    have "p' \<le> p" if "(prefix', p', v') \<in> set rs" "covers (prefix', p', v') ip" for prefix' p' v'
      using that assms(2) split(2) by (auto simp: rs r sorted_append)
    then show ?thesis using t Cons r split(3) rs lookup_route [OF t(2) assms(3)] by auto
  qed
qed

theorem lpm_longest_prefix_match_witness:
  "\<exists>t. enter_rules [(167772160, 8, 5), (167837696, 16, 6)] empty_lpm = Some t \<and>
    lpm_lookup_elem t 167837697 = Some 6"
  using lpm_longest_prefix_match [of "[(167772160, 8, 5), (167837696, 16, 6)]" 167837697]
  by (auto simp: short_rule_def covers_def same_prefix_def)

end
