(* ===== verification/Double_Map.thy ===== *)
theory Double_Map
  imports Expirator
begin

section \<open>The double map: double-map.c\<close>

text \<open>
  An array of values with two hash maps from keys to indices; the keys of a value are pointers into its
  cell of the array, so what they point to depends on the array: it is the memory the function
  pointers read. Values are modelled as objects of their own, one per cell. The function pointers of the
  client are fields of the record: \<open>exk\<close> gets the offset of a cell, \<open>cpy\<close> the cell and the source,
  \<open>dstr\<close> the cell. \<open>expire_items\<close> of \<^verbatim>\<open>expirator.c\<close>, the release of old indices of a double map, is here as well.
\<close>

subsection \<open>The code\<close>

record ('v, 'p) double_map =
  value_size :: int
  cpy :: "'v \<Rightarrow> 'v \<Rightarrow> 'v"
  dstr :: "'v \<Rightarrow> 'v"
  dvalues :: "'v list"
  arrays_a :: "'p map_arrays"
  eq_a :: "'v list \<Rightarrow> 'p \<Rightarrow> 'p \<Rightarrow> bool"
  hsh_a :: "'v list \<Rightarrow> 'p \<Rightarrow> nat"
  arrays_b :: "'p map_arrays"
  eq_b :: "'v list \<Rightarrow> 'p \<Rightarrow> 'p \<Rightarrow> bool"
  hsh_b :: "'v list \<Rightarrow> 'p \<Rightarrow> nat"
  exk :: "int \<Rightarrow> 'p \<times> 'p"
  n_vals :: nat
  dm_capacity :: nat
  keys_capacity :: nat

text \<open>\<open>fresh\<close> is what the calls of \<^verbatim>\<open>malloc\<close> returned, \<open>None\<close> when one of them failed.\<close>

definition dmap_allocate ::
  "('v list \<Rightarrow> 'p \<Rightarrow> 'p \<Rightarrow> bool) \<Rightarrow> ('v list \<Rightarrow> 'p \<Rightarrow> nat) \<Rightarrow> ('v list \<Rightarrow> 'p \<Rightarrow> 'p \<Rightarrow> bool) \<Rightarrow> ('v list \<Rightarrow> 'p \<Rightarrow> nat) \<Rightarrow>
   int \<Rightarrow> ('v \<Rightarrow> 'v \<Rightarrow> 'v) \<Rightarrow> ('v \<Rightarrow> 'v) \<Rightarrow> (int \<Rightarrow> 'p \<times> 'p) \<Rightarrow> nat \<Rightarrow> nat \<Rightarrow>
   ('v list \<times> 'p map_arrays \<times> 'p map_arrays) option \<Rightarrow> ('v, 'p) double_map option" where
  "dmap_allocate eqa ha eqb hb vsize v_cpy v_destr dexk cap kcap fresh =
     (case fresh of
        None \<Rightarrow> None
      | Some (vs, a, b) \<Rightarrow>
          Some \<lparr>value_size = vsize, cpy = v_cpy, dstr = v_destr, dvalues = vs,
            arrays_a = map_impl_init a kcap 0, eq_a = eqa, hsh_a = ha,
            arrays_b = map_impl_init b kcap 0, eq_b = eqb, hsh_b = hb,
            exk = dexk, n_vals = 0, dm_capacity = cap, keys_capacity = kcap\<rparr>)"

definition dmap_get_a :: "('v, 'p) double_map \<Rightarrow> 'p \<Rightarrow> int option" where
  "dmap_get_a dm key =
     (let hash = hsh_a dm (dvalues dm) key
      in map_impl_get loop (eq_a dm (dvalues dm)) (arrays_a dm) key hash (keys_capacity dm))"

definition dmap_get_b :: "('v, 'p) double_map \<Rightarrow> 'p \<Rightarrow> int option" where
  "dmap_get_b dm key =
     (let hash = hsh_b dm (dvalues dm) key
      in map_impl_get loop (eq_b dm (dvalues dm)) (arrays_b dm) key hash (keys_capacity dm))"

definition dmap_put :: "('v, 'p) double_map \<Rightarrow> 'v \<Rightarrow> int \<Rightarrow> ('v, 'p) double_map option" where
  "dmap_put dm v index = do {
     my_value \<leftarrow> arr_get (dvalues dm) index;
     let vs = (dvalues dm)[nat index := cpy dm my_value v];
     let (key_a, key_b) = exk dm (index * value_size dm);
     let hash1 = hsh_a dm vs key_a;
     a \<leftarrow> map_impl_put loop (arrays_a dm) key_a hash1 index (keys_capacity dm);
     let hash2 = hsh_b dm vs key_b;
     b \<leftarrow> map_impl_put loop (arrays_b dm) key_b hash2 index (keys_capacity dm);
     Some (dm\<lparr>dvalues := vs, arrays_a := a, arrays_b := b, n_vals := u32 (n_vals dm + 1)\<rparr>)
   }"

definition dmap_get_value :: "('v, 'p) double_map \<Rightarrow> int \<Rightarrow> 'v \<Rightarrow> 'v option" where
  "dmap_get_value dm index value_out = do {
     my_value \<leftarrow> arr_get (dvalues dm) index;
     Some (cpy dm value_out my_value)
   }"

definition dmap_erase :: "('v, 'p) double_map \<Rightarrow> int \<Rightarrow> ('v, 'p) double_map option" where
  "dmap_erase dm index = do {
     my_value \<leftarrow> arr_get (dvalues dm) index;
     let vs = dvalues dm;
     let (key_a, key_b) = exk dm (index * value_size dm);
     let hash1 = hsh_a dm vs key_a;
     let (out_key_a, a) = map_impl_erase loop (eq_a dm vs) (arrays_a dm) key_a hash1 (keys_capacity dm);
     let hash2 = hsh_b dm vs key_b;
     let (out_key_b, b) = map_impl_erase loop (eq_b dm vs) (arrays_b dm) key_b hash2 (keys_capacity dm);
     Some (dm\<lparr>dvalues := vs[nat index := dstr dm my_value], arrays_a := a, arrays_b := b,
       n_vals := u32 (n_vals dm + 2 ^ 32 - 1)\<rparr>)
   }"

definition dmap_size :: "('v, 'p) double_map \<Rightarrow> nat" where
  "dmap_size dm = n_vals dm"

partial_function (option) expire_items_loop ::
  "nat \<Rightarrow> dchain \<Rightarrow> ('v, 'p) double_map \<Rightarrow> nat \<Rightarrow> (nat \<times> dchain \<times> ('v, 'p) double_map) option" where
  "expire_items_loop time ch dm count =
     Option.bind (dchain_expire_one_index ch time) (\<lambda>(r, ch').
       case r of
         None \<Rightarrow> Some (count, ch', dm)
       | Some index \<Rightarrow> Option.bind (dmap_erase dm index) (\<lambda>dm'. expire_items_loop time ch' dm' (count + 1)))"

definition expire_items ::
  "dchain \<Rightarrow> ('v, 'p) double_map \<Rightarrow> nat \<Rightarrow> (nat \<times> dchain \<times> ('v, 'p) double_map) option" where
  "expire_items ch dm time = expire_items_loop time ch dm 0"

subsection \<open>One half\<close>

text \<open>The map from the first (or second) keys to indices, as a \<open>struct Map\<close>: what is known of \<open>map.c\<close>
  carries over. \<open>pt i\<close> is the key pointer of the cell \<open>i\<close>, \<open>D\<close> the indices in use.\<close>

definition half_a :: "('v, 'p) double_map \<Rightarrow> ('v list, 'p) hmap" where
  "half_a dm = \<lparr>arrays = arrays_a dm, capacity = keys_capacity dm, msize = n_vals dm,
     keys_eq = eq_a dm, khash = hsh_a dm\<rparr>"

definition half_b :: "('v, 'p) double_map \<Rightarrow> ('v list, 'p) hmap" where
  "half_b dm = \<lparr>arrays = arrays_b dm, capacity = keys_capacity dm, msize = n_vals dm,
     keys_eq = eq_b dm, khash = hsh_b dm\<rparr>"

definition half_inv ::
  "('mem \<Rightarrow> 'p \<Rightarrow> 'k) \<Rightarrow> ('k \<Rightarrow> nat) \<Rightarrow> (nat \<Rightarrow> 'p) \<Rightarrow> 'mem \<Rightarrow> nat set \<Rightarrow> ('mem, 'p) hmap \<Rightarrow> bool" where
  "half_inv keyf hsh pt mem D mp \<longleftrightarrow> hmap_wf keyf hsh mem mp \<and> finite D \<and> hmap_ptrs mp \<subseteq> pt ` D \<and>
     (\<forall>k u. hmap_abs keyf mem mp k = Some u \<longleftrightarrow> (\<exists>i \<in> D. u = int i \<and> keyf mem (pt i) = k))"

lemma half_invD:
  assumes "half_inv keyf hsh pt mem D mp"
  shows "hmap_wf keyf hsh mem mp" "finite D" "hmap_ptrs mp \<subseteq> pt ` D"
    "hmap_abs keyf mem mp k = Some u \<longleftrightarrow> (\<exists>i \<in> D. u = int i \<and> keyf mem (pt i) = k)"
  using assms by (auto simp: half_inv_def)

lemma half_inj:
  assumes "half_inv keyf hsh pt mem D mp" "i \<in> D" "j \<in> D" "keyf mem (pt i) = keyf mem (pt j)"
  shows "i = j"
proof -
  have "hmap_abs keyf mem mp (keyf mem (pt i)) = Some (int i)" "hmap_abs keyf mem mp (keyf mem (pt i)) = Some (int j)"
    using half_invD(4) [OF assms(1)] assms(2-4) by auto
  then show ?thesis by simp
qed

lemma half_card:
  assumes "half_inv keyf hsh pt mem D mp"
  shows "card (dom (hmap_abs keyf mem mp)) = card D" "msize mp = card D"
proof -
  have "dom (hmap_abs keyf mem mp) = (\<lambda>i. keyf mem (pt i)) ` D"
    using half_invD(4) [OF assms] by (fastforce simp: dom_def)
  moreover have "inj_on (\<lambda>i. keyf mem (pt i)) D" using half_inj [OF assms] by (auto simp: inj_on_def)
  ultimately show "card (dom (hmap_abs keyf mem mp)) = card D" by (simp add: card_image)
  then show "msize mp = card D" using half_invD(1) [OF assms] by (simp add: hmap_wf_def)
qed

text \<open>Writes that change none of the keys in use.\<close>

lemma half_frame:
  assumes inv: "half_inv keyf hsh pt mem D mp"
    and same: "\<And>j. j \<in> D \<Longrightarrow> keyf mem' (pt j) = keyf mem (pt j)"
    and fn: "\<And>p q. keys_eq mp mem' p q \<longleftrightarrow> keyf mem' p = keyf mem' q" "\<And>p. khash mp mem' p = hsh (keyf mem' p)"
  shows "half_inv keyf hsh pt mem' D mp"
proof -
  note d = half_invD [OF inv]
  have "keyf mem' q = keyf mem q" if "q \<in> hmap_ptrs mp" for q using d(3) that same by auto
  then show ?thesis using hmap_frame [OF d(1) _ fn] d same by (simp add: half_inv_def)
qed

lemma half_put:
  assumes inv: "half_inv keyf hsh pt mem D mp" and room: "card D < capacity mp"
    and fresh: "\<forall>j \<in> D. keyf mem (pt j) \<noteq> keyf mem (pt i)"
  shows "\<exists>mp'. map_put mem mp (pt i) (int i) = Some mp' \<and> half_inv keyf hsh pt mem (insert i D) mp' \<and>
    capacity mp' = capacity mp \<and> keys_eq mp' = keys_eq mp \<and> khash mp' = khash mp"
proof -
  note d = half_invD [OF inv]
  have none: "hmap_abs keyf mem mp (keyf mem (pt i)) = None" using d(4) fresh by (metis not_Some_eq)
  have c: "card (dom (hmap_abs keyf mem mp)) < capacity mp" using half_card(1) [OF inv] room by simp
  obtain mp' where mp': "map_put mem mp (pt i) (int i) = Some mp'" "hmap_wf keyf hsh mem mp'"
    "hmap_abs keyf mem mp' = (hmap_abs keyf mem mp)(keyf mem (pt i) \<mapsto> int i)" "capacity mp' = capacity mp"
    using hm.put_abs [OF d(1) none c] by blast
  note ptrs = map_put_ptrs [OF d(1) none c mp'(1)]
  have "hmap_abs keyf mem mp' k = Some u \<longleftrightarrow> (\<exists>j \<in> insert i D. u = int j \<and> keyf mem (pt j) = k)" for k u
    using mp'(3) d(4) fresh by (cases "k = keyf mem (pt i)") auto
  then show ?thesis using mp' ptrs d(2,3) by (auto simp: half_inv_def)
qed

lemma half_erase:
  assumes inv: "half_inv keyf hsh pt mem D mp" and i: "i \<in> D"
  shows "half_inv keyf hsh pt mem (D - {i}) (snd (map_erase mem mp (pt i)))"
    "capacity (snd (map_erase mem mp (pt i))) = capacity mp"
proof -
  note d = half_invD [OF inv]
  have some: "hmap_abs keyf mem mp (keyf mem (pt i)) \<noteq> None" using d(4) i by blast
  obtain q mp' where mp': "map_erase mem mp (pt i) = (Some q, mp')" "hmap_wf keyf hsh mem mp'"
    "hmap_abs keyf mem mp' = (hmap_abs keyf mem mp)(keyf mem (pt i) := None)" "capacity mp' = capacity mp"
    using hm.erase_abs [OF d(1) some] by blast
  have "hmap_ptrs mp' \<subseteq> pt ` (D - {i})" using map_erase_ptrs(1) [OF d(1) some] d(3) mp'(1) by auto
  moreover have "hmap_abs keyf mem mp' k = Some u \<longleftrightarrow> (\<exists>j \<in> D - {i}. u = int j \<and> keyf mem (pt j) = k)" for k u
    using mp'(3) d(4) half_inj [OF inv _ i] by (cases "k = keyf mem (pt i)") auto
  ultimately show "half_inv keyf hsh pt mem (D - {i}) (snd (map_erase mem mp (pt i)))"
    "capacity (snd (map_erase mem mp (pt i))) = capacity mp"
    using mp' d(2) by (simp_all add: half_inv_def)
qed

subsection \<open>The double map against a partial function\<close>

text \<open>What the client's function pointers promise: the key pointers of a cell point to the keys \<open>ka\<close> and \<open>kb\<close>
  of the value in it, equality and hash depend on what is pointed to, and \<open>cpy\<close> copies.\<close>

definition dm_client ::
  "('v list \<Rightarrow> 'p \<Rightarrow> 'a) \<Rightarrow> ('a \<Rightarrow> nat) \<Rightarrow> ('v list \<Rightarrow> 'p \<Rightarrow> 'b) \<Rightarrow> ('b \<Rightarrow> nat) \<Rightarrow> ('v \<Rightarrow> 'a) \<Rightarrow> ('v \<Rightarrow> 'b)
    \<Rightarrow> ('v, 'p) double_map \<Rightarrow> bool" where
  "dm_client keyfa hA keyfb hB ka kb dm \<longleftrightarrow>
     (\<forall>vs i. i < length vs \<longrightarrow> keyfa vs (fst (exk dm (int i * value_size dm))) = ka (vs ! i) \<and>
        keyfb vs (snd (exk dm (int i * value_size dm))) = kb (vs ! i)) \<and>
     (\<forall>vs p q. eq_a dm vs p q \<longleftrightarrow> keyfa vs p = keyfa vs q) \<and> (\<forall>vs p. hsh_a dm vs p = hA (keyfa vs p)) \<and>
     (\<forall>vs p q. eq_b dm vs p q \<longleftrightarrow> keyfb vs p = keyfb vs q) \<and> (\<forall>vs p. hsh_b dm vs p = hB (keyfb vs p)) \<and>
     (\<forall>d s. cpy dm d s = s)"

definition dm_inv ::
  "('v list \<Rightarrow> 'p \<Rightarrow> 'a) \<Rightarrow> ('a \<Rightarrow> nat) \<Rightarrow> ('v list \<Rightarrow> 'p \<Rightarrow> 'b) \<Rightarrow> ('b \<Rightarrow> nat) \<Rightarrow> ('v \<Rightarrow> 'a) \<Rightarrow> ('v \<Rightarrow> 'b)
    \<Rightarrow> ('v, 'p) double_map \<Rightarrow> (nat \<Rightarrow> 'v option) \<Rightarrow> bool" where
  "dm_inv keyfa hA keyfb hB ka kb dm S \<longleftrightarrow> dm_client keyfa hA keyfb hB ka kb dm \<and>
     length (dvalues dm) = dm_capacity dm \<and> dom S \<subseteq> {..<dm_capacity dm} \<and>
     (\<forall>i v. S i = Some v \<longrightarrow> dvalues dm ! i = v) \<and>
     half_inv keyfa hA (\<lambda>i. fst (exk dm (int i * value_size dm))) (dvalues dm) (dom S) (half_a dm) \<and>
     half_inv keyfb hB (\<lambda>i. snd (exk dm (int i * value_size dm))) (dvalues dm) (dom S) (half_b dm)"

lemma dm_clientD:
  assumes "dm_client keyfa hA keyfb hB ka kb dm"
  shows "i < length vs \<Longrightarrow> keyfa vs (fst (exk dm (int i * value_size dm))) = ka (vs ! i)"
    "i < length vs \<Longrightarrow> keyfb vs (snd (exk dm (int i * value_size dm))) = kb (vs ! i)"
    "eq_a dm vs p q \<longleftrightarrow> keyfa vs p = keyfa vs q" "hsh_a dm vs p = hA (keyfa vs p)"
    "eq_b dm vs p q \<longleftrightarrow> keyfb vs p = keyfb vs q" "hsh_b dm vs p = hB (keyfb vs p)" "cpy dm d s = s"
  using assms unfolding dm_client_def by blast+

lemma dm_invD:
  assumes "dm_inv keyfa hA keyfb hB ka kb dm S"
  shows "dm_client keyfa hA keyfb hB ka kb dm" "length (dvalues dm) = dm_capacity dm"
    "S i = Some v \<Longrightarrow> i < dm_capacity dm" "S i = Some v \<Longrightarrow> dvalues dm ! i = v"
    "half_inv keyfa hA (\<lambda>i. fst (exk dm (int i * value_size dm))) (dvalues dm) (dom S) (half_a dm)"
    "half_inv keyfb hB (\<lambda>i. snd (exk dm (int i * value_size dm))) (dvalues dm) (dom S) (half_b dm)"
  using assms by (auto simp: dm_inv_def dom_def)

lemma half_simps [simp]:
  "arrays (half_a dm) = arrays_a dm" "capacity (half_a dm) = keys_capacity dm" "msize (half_a dm) = n_vals dm"
  "keys_eq (half_a dm) = eq_a dm" "khash (half_a dm) = hsh_a dm"
  "arrays (half_b dm) = arrays_b dm" "capacity (half_b dm) = keys_capacity dm" "msize (half_b dm) = n_vals dm"
  "keys_eq (half_b dm) = eq_b dm" "khash (half_b dm) = hsh_b dm"
  by (simp_all add: half_a_def half_b_def)

lemma dm_get:
  assumes "dm_inv keyfa hA keyfb hB ka kb dm S"
  shows "dmap_get_a dm p = Some u \<longleftrightarrow> (\<exists>i v. u = int i \<and> S i = Some v \<and> ka v = keyfa (dvalues dm) p)"
    "dmap_get_b dm p = Some u \<longleftrightarrow> (\<exists>i v. u = int i \<and> S i = Some v \<and> kb v = keyfb (dvalues dm) p)"
proof -
  note d = dm_invD [OF assms]
  note c = dm_clientD [OF d(1)]
  have g: "dmap_get_a dm p = map_get (dvalues dm) (half_a dm) p" "dmap_get_b dm p = map_get (dvalues dm) (half_b dm) p"
    by (simp_all add: dmap_get_a_def dmap_get_b_def map_get_def)
  have vals: "keyfa (dvalues dm) (fst (exk dm (int i * value_size dm))) = ka (the (S i))"
    "keyfb (dvalues dm) (snd (exk dm (int i * value_size dm))) = kb (the (S i))" if "i \<in> dom S" for i
    using c(1,2) [of i "dvalues dm"] d(2,3,4) that by auto
  show "dmap_get_a dm p = Some u \<longleftrightarrow> (\<exists>i v. u = int i \<and> S i = Some v \<and> ka v = keyfa (dvalues dm) p)"
    unfolding g(1) hm.get_abs [OF half_invD(1) [OF d(5)]] half_invD(4) [OF d(5)]
    using vals(1) by (fastforce simp: dom_def)
  show "dmap_get_b dm p = Some u \<longleftrightarrow> (\<exists>i v. u = int i \<and> S i = Some v \<and> kb v = keyfb (dvalues dm) p)"
    unfolding g(2) hm.get_abs [OF half_invD(1) [OF d(6)]] half_invD(4) [OF d(6)]
    using vals(2) by (fastforce simp: dom_def)
qed

lemma dm_put:
  assumes inv: "dm_inv keyfa hA keyfb hB ka kb dm S" and i: "i < dm_capacity dm" "S i = None"
    and room: "card (dom S) < keys_capacity dm"
    and fresh: "\<forall>j w. S j = Some w \<longrightarrow> ka w \<noteq> ka v \<and> kb w \<noteq> kb v"
  shows "\<exists>dm'. dmap_put dm v (int i) = Some dm' \<and> dm_inv keyfa hA keyfb hB ka kb dm' (S(i \<mapsto> v)) \<and>
    dm_capacity dm' = dm_capacity dm \<and> keys_capacity dm' = keys_capacity dm"
proof -
  note d = dm_invD [OF inv]
  note c = dm_clientD [OF d(1)]
  let ?vs = "(dvalues dm)[i := v]" and ?pa = "\<lambda>i. fst (exk dm (int i * value_size dm))"
    and ?pb = "\<lambda>i. snd (exk dm (int i * value_size dm))"
  have keys: "keyfa ?vs (?pa j) = (if j = i then ka v else keyfa (dvalues dm) (?pa j))"
    "keyfb ?vs (?pb j) = (if j = i then kb v else keyfb (dvalues dm) (?pb j))" if "j < dm_capacity dm" for j
    using c(1,2) [of j ?vs] c(1,2) [of j "dvalues dm"] d(2) that by simp_all
  have old: "j < dm_capacity dm" "j \<noteq> i" if "j \<in> dom S" for j using that d(3) i(2) by auto
  have vals: "keyfa (dvalues dm) (?pa j) = ka w" "keyfb (dvalues dm) (?pb j) = kb w" if "S j = Some w" for j w
    using c(1,2) [of j "dvalues dm"] d(2,3,4) that by auto
  have ha: "half_inv keyfa hA ?pa ?vs (dom S) (half_a dm)"
    by (rule half_frame [OF d(5)]) (use keys(1) old c(3,4) in auto)
  have hb: "half_inv keyfb hB ?pb ?vs (dom S) (half_b dm)"
    by (rule half_frame [OF d(6)]) (use keys(2) old c(5,6) in auto)
  have fa: "\<forall>j \<in> dom S. keyfa ?vs (?pa j) \<noteq> keyfa ?vs (?pa i)"
    using keys(1) [OF i(1)] keys(1) [OF old(1)] old(2) vals(1) fresh by auto
  have fb: "\<forall>j \<in> dom S. keyfb ?vs (?pb j) \<noteq> keyfb ?vs (?pb i)"
    using keys(2) [OF i(1)] keys(2) [OF old(1)] old(2) vals(2) fresh by auto
  obtain a where a: "map_put ?vs (half_a dm) (?pa i) (int i) = Some a" "half_inv keyfa hA ?pa ?vs (insert i (dom S)) a"
    "capacity a = keys_capacity dm" "keys_eq a = eq_a dm" "khash a = hsh_a dm"
    using half_put [OF ha _ fa] room by auto
  obtain b where b: "map_put ?vs (half_b dm) (?pb i) (int i) = Some b" "half_inv keyfb hB ?pb ?vs (insert i (dom S)) b"
    "capacity b = keys_capacity dm" "keys_eq b = eq_b dm" "khash b = hsh_b dm"
    using half_put [OF hb _ fb] room by auto
  have ia: "map_impl_put loop (arrays_a dm) (?pa i) (hsh_a dm ?vs (?pa i)) (int i) (keys_capacity dm) = Some (arrays a)"
    "msize a = u32 (n_vals dm + 1)"
    using a(1) by (auto simp: map_put_def Let_def split: option.splits)
  have ib: "map_impl_put loop (arrays_b dm) (?pb i) (hsh_b dm ?vs (?pb i)) (int i) (keys_capacity dm) = Some (arrays b)"
    "msize b = u32 (n_vals dm + 1)"
    using b(1) by (auto simp: map_put_def Let_def split: option.splits)
  let ?dm = "dm\<lparr>dvalues := ?vs, arrays_a := arrays a, arrays_b := arrays b, n_vals := u32 (n_vals dm + 1)\<rparr>"
  have put: "dmap_put dm v (int i) = Some ?dm"
    using i d(2) ia(1) ib(1) c(7) by (simp add: dmap_put_def Let_def case_prod_beta)
  have "half_a ?dm = a" "half_b ?dm = b"
    by (cases a, use a(3-5) ia(2) in \<open>simp add: half_a_def\<close>) (cases b, use b(3-5) ib(2) in \<open>simp add: half_b_def\<close>)
  then have "dm_inv keyfa hA keyfb hB ka kb ?dm (S(i \<mapsto> v))"
    using a(2) b(2) d i unfolding dm_inv_def by (auto simp: dm_client_def nth_list_update)
  then show ?thesis using put by auto
qed

lemma dm_erase:
  assumes inv: "dm_inv keyfa hA keyfb hB ka kb dm S" and i: "S i = Some v"
  shows "\<exists>dm'. dmap_erase dm (int i) = Some dm' \<and> dm_inv keyfa hA keyfb hB ka kb dm' (S(i := None)) \<and>
    dm_capacity dm' = dm_capacity dm \<and> keys_capacity dm' = keys_capacity dm"
proof -
  note d = dm_invD [OF inv]
  note c = dm_clientD [OF d(1)]
  have il: "i < dm_capacity dm" "i \<in> dom S" using d(3) i by auto
  let ?vs = "dvalues dm" and ?pa = "\<lambda>i. fst (exk dm (int i * value_size dm))"
    and ?pb = "\<lambda>i. snd (exk dm (int i * value_size dm))"
  let ?ws = "?vs[i := dstr dm (?vs ! i)]"
  define a where "a = snd (map_erase ?vs (half_a dm) (?pa i))"
  define b where "b = snd (map_erase ?vs (half_b dm) (?pb i))"
  have keys: "keyfa ?ws (?pa j) = keyfa ?vs (?pa j)" "keyfb ?ws (?pb j) = keyfb ?vs (?pb j)" if "j \<in> dom S - {i}" for j
  proof -
    have "j < dm_capacity dm" using that d(3) by auto
    then show "keyfa ?ws (?pa j) = keyfa ?vs (?pa j)" "keyfb ?ws (?pb j) = keyfb ?vs (?pb j)"
      using c(1,2) [of j ?ws] c(1,2) [of j ?vs] d(2) that by auto
  qed
  have fa: "keys_eq a = eq_a dm" "khash a = hsh_a dm" "keys_eq b = eq_b dm" "khash b = hsh_b dm"
    by (simp_all add: a_def b_def map_erase_fns)
  have ha: "half_inv keyfa hA ?pa ?ws (dom S - {i}) a"
    by (rule half_frame [OF half_erase(1) [OF d(5) il(2), folded a_def]]) (use keys(1) c(3,4) fa in auto)
  have hb: "half_inv keyfb hB ?pb ?ws (dom S - {i}) b"
    by (rule half_frame [OF half_erase(1) [OF d(6) il(2), folded b_def]]) (use keys(2) c(5,6) fa in auto)
  have ia: "snd (map_impl_erase loop (eq_a dm ?vs) (arrays_a dm) (?pa i) (hsh_a dm ?vs (?pa i)) (keys_capacity dm)) = arrays a"
    "msize a = u32 (n_vals dm + 2 ^ 32 - 1)" "capacity a = keys_capacity dm"
    by (simp_all add: a_def map_erase_def Let_def split: prod.splits)
  have ib: "snd (map_impl_erase loop (eq_b dm ?vs) (arrays_b dm) (?pb i) (hsh_b dm ?vs (?pb i)) (keys_capacity dm)) = arrays b"
    "msize b = u32 (n_vals dm + 2 ^ 32 - 1)" "capacity b = keys_capacity dm"
    by (simp_all add: b_def map_erase_def Let_def split: prod.splits)
  let ?dm = "dm\<lparr>dvalues := ?ws, arrays_a := arrays a, arrays_b := arrays b, n_vals := u32 (n_vals dm + 2 ^ 32 - 1)\<rparr>"
  have er: "dmap_erase dm (int i) = Some ?dm"
    using il(1) d(2) ia(1) ib(1) by (simp add: dmap_erase_def Let_def case_prod_beta)
  have "half_a ?dm = a" "half_b ?dm = b"
    by (cases a, use fa(1,2) ia(2,3) in \<open>simp add: half_a_def\<close>) (cases b, use fa(3,4) ib(2,3) in \<open>simp add: half_b_def\<close>)
  then have "dm_inv keyfa hA keyfb hB ka kb ?dm (S(i := None))"
    using ha hb d il unfolding dm_inv_def by (auto simp: dm_client_def nth_list_update)
  then show ?thesis using er by auto
qed

lemma dm_allocate:
  assumes c: "dm_client keyfa hA keyfb hB ka kb dm" and dm: "dmap_allocate eqa ha eqb hb vsize v_cpy v_destr dexk cap kcap (Some (vs, a, b)) = Some dm"
    and n: "0 < kcap" "kcap \<le> 2147483648" and vs: "length vs = cap"
    and la: "length (busybits a) = kcap" "length (keyps a) = kcap" "length (k_hashes a) = kcap" "length (chns a) = kcap" "length (vals a) = kcap"
    and lb: "length (busybits b) = kcap" "length (keyps b) = kcap" "length (k_hashes b) = kcap" "length (chns b) = kcap" "length (vals b) = kcap"
  shows "dm_inv keyfa hA keyfb hB ka kb dm Map.empty"
proof -
  note cl = dm_clientD [OF c]
  have dm': "dvalues dm = vs" "dm_capacity dm = cap" "keys_capacity dm = kcap" "n_vals dm = 0"
    "arrays_a dm = map_impl_init a kcap 0" "arrays_b dm = map_impl_init b kcap 0"
    using dm by (auto simp: dmap_allocate_def)
  have "map_wf (keyfa vs) hA kcap (arrays_a dm)" "contents (keyfa vs) kcap (arrays_a dm) = Map.empty"
    "map_wf (keyfb vs) hB kcap (arrays_b dm)" "contents (keyfb vs) kcap (arrays_b dm) = Map.empty"
    using map_impl_init_wf [OF n la] map_impl_init_wf [OF n lb] by (simp_all add: dm')
  moreover from this have "hmap_abs keyfa vs (half_a dm) = Map.empty" "hmap_abs keyfb vs (half_b dm) = Map.empty"
    by (simp_all add: hmap_abs_def dm')
  moreover from this have "hmap_ptrs (half_a dm) = {}" "hmap_ptrs (half_b dm) = {}"
    using hmap_dom [of keyfa vs "half_a dm"] hmap_dom [of keyfb vs "half_b dm"] by simp_all
  ultimately show ?thesis
    using c cl dm' vs by (simp add: dm_inv_def half_inv_def hmap_wf_def)
qed

subsection \<open>Histories\<close>

datatype 'v dm_op = Dm_put 'v nat | Dm_erase nat

fun run_dm :: "'v dm_op list \<Rightarrow> ('v, 'p) double_map \<Rightarrow> ('v, 'p) double_map option" where
  "run_dm [] dm = Some dm"
| "run_dm (Dm_put v i # ops) dm = Option.bind (dmap_put dm v (int i)) (run_dm ops)"
| "run_dm (Dm_erase i # ops) dm = Option.bind (dmap_erase dm (int i)) (run_dm ops)"

text \<open>A put needs a free index, room in the hash maps and keys not in use; an erase an index in use.\<close>

fun spec_dm :: "('v \<Rightarrow> 'a) \<Rightarrow> ('v \<Rightarrow> 'b) \<Rightarrow> nat \<Rightarrow> nat \<Rightarrow> 'v dm_op list \<Rightarrow> (nat \<Rightarrow> 'v option) \<Rightarrow> (nat \<Rightarrow> 'v option) option" where
  "spec_dm ka kb cap kcap [] S = Some S"
| "spec_dm ka kb cap kcap (Dm_put v i # ops) S =
     (if i < cap \<and> S i = None \<and> card (dom S) < kcap \<and> (\<forall>w \<in> ran S. ka w \<noteq> ka v \<and> kb w \<noteq> kb v)
      then spec_dm ka kb cap kcap ops (S(i \<mapsto> v)) else None)"
| "spec_dm ka kb cap kcap (Dm_erase i # ops) S =
     (if S i \<noteq> None then spec_dm ka kb cap kcap ops (S(i := None)) else None)"

lemma run_dm_refines:
  assumes "dm_inv keyfa hA keyfb hB ka kb dm S"
    and "spec_dm ka kb (dm_capacity dm) (keys_capacity dm) ops S = Some S'"
  shows "\<exists>dm'. run_dm ops dm = Some dm' \<and> dm_inv keyfa hA keyfb hB ka kb dm' S'"
  using assms
proof (induction ops arbitrary: dm S)
  case Nil
  then show ?case by simp
next
  case (Cons x ops)
  show ?case
  proof (cases x)
    case (Dm_put v i)
    then have p: "i < dm_capacity dm" "S i = None" "card (dom S) < keys_capacity dm"
      "\<forall>w \<in> ran S. ka w \<noteq> ka v \<and> kb w \<noteq> kb v"
      "spec_dm ka kb (dm_capacity dm) (keys_capacity dm) ops (S(i \<mapsto> v)) = Some S'"
      using Cons.prems(2) by (simp_all split: if_splits)
    have "\<forall>j w. S j = Some w \<longrightarrow> ka w \<noteq> ka v \<and> kb w \<noteq> kb v" using p(4) by (auto simp: ran_def)
    from dm_put [OF Cons.prems(1) p(1-3) this] obtain dm1 where "dmap_put dm v (int i) = Some dm1"
      "dm_inv keyfa hA keyfb hB ka kb dm1 (S(i \<mapsto> v))" "dm_capacity dm1 = dm_capacity dm" "keys_capacity dm1 = keys_capacity dm"
      by blast
    note dm1 = this
    have "spec_dm ka kb (dm_capacity dm1) (keys_capacity dm1) ops (S(i \<mapsto> v)) = Some S'"
      using p(5) by (simp only: dm1(3,4))
    from Cons.IH [OF dm1(2) this] show ?thesis by (simp only: Dm_put run_dm.simps dm1(1) bind.bind_lunit)
  next
    case (Dm_erase i)
    then obtain v where "S i = Some v" and sp: "spec_dm ka kb (dm_capacity dm) (keys_capacity dm) ops (S(i := None)) = Some S'"
      using Cons.prems(2) by (auto split: if_splits)
    from dm_erase [OF Cons.prems(1) this(1)] obtain dm1 where "dmap_erase dm (int i) = Some dm1"
      "dm_inv keyfa hA keyfb hB ka kb dm1 (S(i := None))" "dm_capacity dm1 = dm_capacity dm" "keys_capacity dm1 = keys_capacity dm"
      by blast
    note dm1 = this
    have "spec_dm ka kb (dm_capacity dm1) (keys_capacity dm1) ops (S(i := None)) = Some S'"
      using sp by (simp only: dm1(3,4))
    from Cons.IH [OF dm1(2) this] show ?thesis by (simp only: Dm_erase run_dm.simps dm1(1) bind.bind_lunit)
  qed
qed

subsection \<open>Expiry\<close>

lemma expire_items_loop_prefix:
  assumes "dchain_rel n ch xs" "dm_inv keyfa hA keyfb hB ka kb dm S" "fst ` set xs \<subseteq> dom S" "distinct (map fst xs)"
  shows "\<exists>ch' dm'. expire_items_loop time ch dm c =
      Some (c + length (takeWhile (\<lambda>x. snd x < time) xs), ch', dm') \<and>
    dchain_rel n ch' (dropWhile (\<lambda>x. snd x < time) xs) \<and>
    dm_inv keyfa hA keyfb hB ka kb dm' (S |` (- fst ` set (takeWhile (\<lambda>x. snd x < time) xs)))"
  using assms
proof (induction xs arbitrary: ch dm S c)
  case Nil
  then have "dchain_expire_one_index ch time = Some (None, ch)" using dc.expire_none [OF Nil.prems(1)] by simp
  moreover have "S |` UNIV = S" by (simp add: restrict_map_def)
  ultimately show ?case using Nil by (subst expire_items_loop.simps) simp
next
  case (Cons x xs)
  obtain i t0 where x: "x = (i, t0)" by fastforce
  show ?case
  proof (cases "t0 < time")
    case True
    obtain ch1 where ch1: "dchain_expire_one_index ch time = Some (Some (int i), ch1)" "dchain_rel n ch1 xs"
      using dc.expire_stale [of n ch i t0 xs time] Cons.prems(1) x True by auto
    obtain v where "S i = Some v" using Cons.prems(3) x by auto
    from dm_erase [OF Cons.prems(2) this] obtain dm1 where dm1: "dmap_erase dm (int i) = Some dm1"
      "dm_inv keyfa hA keyfb hB ka kb dm1 (S(i := None))" by blast
    have "fst ` set xs \<subseteq> dom (S(i := None))" "distinct (map fst xs)" using Cons.prems(3,4) x by auto
    from Cons.IH [OF ch1(2) dm1(2) this, of "c + 1"] obtain ch' dm' where
      "expire_items_loop time ch1 dm1 (c + 1) = Some (c + 1 + length (takeWhile (\<lambda>x. snd x < time) xs), ch', dm')"
      "dchain_rel n ch' (dropWhile (\<lambda>x. snd x < time) xs)"
      "dm_inv keyfa hA keyfb hB ka kb dm' ((S(i := None)) |` (- fst ` set (takeWhile (\<lambda>x. snd x < time) xs)))" by blast
    moreover have "(S(i := None)) |` (- B) = S |` (- insert i B)" for B by (auto simp: restrict_map_def)
    ultimately show ?thesis using ch1(1) dm1(1) x True by (subst expire_items_loop.simps) simp
  next
    case False
    then have "dchain_expire_one_index ch time = Some (None, ch)" using dc.expire_none [OF Cons.prems(1)] x by auto
    moreover have "S |` UNIV = S" by (simp add: restrict_map_def)
    ultimately show ?thesis using Cons.prems x False by (subst expire_items_loop.simps) simp
  qed
qed

subsection \<open>Properties\<close>


text \<open>A map of pairs of numbers: the keys are the components; a key pointer is an offset with the component, or a number outside the map.\<close>

datatype pair_ptr = Cell_a int | Cell_b int | Outside nat

fun pair_key :: "(nat \<times> nat) list \<Rightarrow> pair_ptr \<Rightarrow> nat" where
  "pair_key vs (Cell_a x) = fst (vs ! nat x)"
| "pair_key vs (Cell_b x) = snd (vs ! nat x)"
| "pair_key vs (Outside k) = k"

definition pair_arrays :: "pair_ptr map_arrays" where
  "pair_arrays = \<lparr>busybits = [7, 7, 7], keyps = replicate 3 (Outside 0), k_hashes = [1, 2, 3], chns = [5, 5, 5], vals = [0, 0, 0]\<rparr>"

definition pair_map :: "((nat \<times> nat), pair_ptr) double_map" where
  "pair_map = the (dmap_allocate (\<lambda>vs p q. pair_key vs p = pair_key vs q) pair_key (\<lambda>vs p q. pair_key vs p = pair_key vs q) pair_key
     1 (\<lambda>d s. s) (\<lambda>d. d) (\<lambda>x. (Cell_a x, Cell_b x)) 3 3 (Some ([(0, 0), (0, 0), (0, 0)], pair_arrays, pair_arrays)))"

lemma pair_map:
  "dmap_allocate (\<lambda>vs p q. pair_key vs p = pair_key vs q) pair_key (\<lambda>vs p q. pair_key vs p = pair_key vs q) pair_key
     1 (\<lambda>d s. s) (\<lambda>d. d) (\<lambda>x. (Cell_a x, Cell_b x)) 3 3 (Some ([(0, 0), (0, 0), (0, 0)], pair_arrays, pair_arrays)) = Some pair_map"
  "dm_client pair_key (\<lambda>k. k) pair_key (\<lambda>k. k) fst snd pair_map"
  by (simp_all add: pair_map_def dmap_allocate_def dm_client_def)


text \<open>Expiry of a double map. When the indices in use are those of the chain and times are in order, the loop ends, stays inside
  the arrays, returns the number of indices last used before \<open>time\<close> and removes exactly their
  values from the double map and them from the chain.\<close>

theorem expire_items_correct:
  assumes "dchain_rel n ch xs" "dm_inv keyfa hA keyfb hB ka kb dm S" "dom S = fst ` set xs" "sorted (map snd xs)"
  shows "\<exists>ch' dm' S'. expire_items ch dm time = Some (length (filter (\<lambda>x. snd x < time) xs), ch', dm') \<and>
    dchain_rel n ch' (filter (\<lambda>x. time \<le> snd x) xs) \<and> dm_inv keyfa hA keyfb hB ka kb dm' S' \<and>
    dom S' = fst ` set (filter (\<lambda>x. time \<le> snd x) xs) \<and> (\<forall>i \<in> dom S'. S' i = S i)"
proof -
  have dis: "distinct (map fst xs)" by (rule dchain_rel_indices(1) [OF assms(1)])
  have s: "sorted (ages xs)" using assms(4) by (simp add: ages_def)
  note pre = dc.stale_prefix [OF s] dc.fresh_suffix [OF s]
  let ?T = "fst ` set (filter (\<lambda>x. snd x < time) xs)" and ?F = "fst ` set (filter (\<lambda>x. time \<le> snd x) xs)"
  obtain ch' dm' where r: "expire_items_loop time ch dm 0 = Some (length (filter (\<lambda>x. snd x < time) xs), ch', dm')"
    "dchain_rel n ch' (filter (\<lambda>x. time \<le> snd x) xs)" "dm_inv keyfa hA keyfb hB ka kb dm' (S |` (- ?T))"
    using expire_items_loop_prefix [OF assms(1,2) _ dis, of time 0] assms(3) by (auto simp: pre)
  have "i \<notin> ?F" if iT: "i \<in> ?T" for i
  proof
    assume "i \<in> ?F"
    then obtain t1 t2 where "(i, t1) \<in> set xs" "t1 < time" "(i, t2) \<in> set xs" "time \<le> t2" using iT by auto
    then show False using dis by (metis distinct_map eq_key_imp_eq_value leD map_of_eq_Some_iff option.inject)
  qed
  moreover have "fst ` set xs = ?T \<union> ?F" by force
  ultimately have dom: "dom (S |` (- ?T)) = ?F" using assms(3) by auto
  have "\<forall>i \<in> dom (S |` A). (S |` A) i = S i" for A by (simp add: restrict_map_def dom_def)
  then show ?thesis unfolding expire_items_def using r dom by blast
qed

theorem expire_items_correct_witness:
  "\<exists>i ch dm ch' dm'. dchain_allocate_new_index demo_chain 10 = Some (Some (int i), ch) \<and>
    dmap_put pair_map (4, 5) (int i) = Some dm \<and> expire_items ch dm 11 = Some (1, ch', dm')"
proof -
  obtain i ch where a: "dchain_allocate_new_index demo_chain 10 = Some (Some (int i), ch)" "i < 3" "dchain_rel 3 ch [(i, 10)]"
    using dc.alloc_room [OF demo_chain, of 10] by auto
  have inv: "dm_inv pair_key (\<lambda>k. k) pair_key (\<lambda>k. k) fst snd pair_map Map.empty"
    by (rule dm_allocate [OF pair_map(2,1)]) (simp_all add: pair_arrays_def)
  have cap: "dm_capacity pair_map = 3" "keys_capacity pair_map = 3" by (simp_all add: pair_map_def dmap_allocate_def)
  obtain dm where dm: "dmap_put pair_map (4, 5) (int i) = Some dm"
    "dm_inv pair_key (\<lambda>k. k) pair_key (\<lambda>k. k) fst snd dm [i \<mapsto> (4, 5)]"
    using dm_put [OF inv, of i "(4, 5)"] a(2) by (auto simp: cap)
  obtain ch' dm' where "expire_items ch dm 11 = Some (1, ch', dm')"
    using expire_items_correct [OF a(3) dm(2), of 11] by auto
  then show ?thesis using a(1) dm(1) by blast
qed

end
