(* ===== verification/Cht.thy ===== *)
theory Cht
  imports DChain Vector
begin

section \<open>Consistent hashing: cht.c\<close>

text \<open>
  A table of \<open>cht_height\<close> buckets; the slots \<open>backend_capacity * b, ...\<close> of a vector of 32 bit integers hold the
  backends in the order in which the bucket \<open>b\<close> prefers them. \<open>cht_fill_cht\<close> lets every backend walk the buckets
  along a permutation of its own and enter itself at the end of the bucket's list;
  \<open>cht_find_preferred_available_backend\<close> searches the list of a hash for a backend that is alive.
\<close>

subsection \<open>The code\<close>

text \<open>The remainder by zero is undefined.\<close>

definition cht_loop :: "nat \<Rightarrow> nat \<Rightarrow> nat option" where
  "cht_loop k capacity = (if capacity = 0 then None else Some (k mod capacity))"

function permute_backend :: "nat \<Rightarrow> nat \<Rightarrow> nat \<Rightarrow> nat \<Rightarrow> nat \<Rightarrow> int list \<Rightarrow> int list option" where
  "permute_backend cht_height offset shift i j permutations =
     (if j < cht_height then do {
        permut \<leftarrow> cht_loop ((offset + shift * j) mod 2 ^ 64) cht_height;
        permutations \<leftarrow> arr_set permutations (int (u32 (i * cht_height + j))) (to_int32 permut);
        permute_backend cht_height offset shift i (Suc j) permutations
      } else Some permutations)"
  by pat_completeness auto
termination
  by (relation "measure (\<lambda>(h, off, sh, i, j, p). h - j)") auto

declare permute_backend.simps [simp del]

function permute_backends :: "nat \<Rightarrow> nat \<Rightarrow> nat \<Rightarrow> int list \<Rightarrow> int list option" where
  "permute_backends cht_height backend_capacity i permutations =
     (if i < backend_capacity then do {
        let offset_absolut = u32 (i * 31);
        offset \<leftarrow> cht_loop offset_absolut cht_height;
        base_shift \<leftarrow> cht_loop i (u32 (cht_height + 2 ^ 32 - 1));
        let shift = base_shift + 1;
        permutations \<leftarrow> permute_backend cht_height offset shift i 0 permutations;
        permute_backends cht_height backend_capacity (Suc i) permutations
      } else Some permutations)"
  by pat_completeness auto
termination
  by (relation "measure (\<lambda>(h, cap, i, p). cap - i)") auto

declare permute_backends.simps [simp del]

function clear_next :: "nat \<Rightarrow> nat \<Rightarrow> int list \<Rightarrow> int list option" where
  "clear_next cht_height i next =
     (if i < cht_height then do {
        next \<leftarrow> arr_set next (int i) 0;
        clear_next cht_height (Suc i) next
      } else Some next)"
  by pat_completeness auto
termination
  by (relation "measure (\<lambda>(h, i, p). h - i)") auto

declare clear_next.simps [simp del]

text \<open>One turn \<open>i\<close>: every backend from \<open>j\<close> on enters itself in its \<open>i\<close>-th bucket.\<close>

function fill_turn :: "nat \<Rightarrow> nat \<Rightarrow> int list \<Rightarrow> nat \<Rightarrow> nat \<Rightarrow> int list \<Rightarrow> vector \<Rightarrow> (int list \<times> vector) option" where
  "fill_turn cht_height backend_capacity permutations i j next cht =
     (if j < backend_capacity then do {
        let index = u32 (j * cht_height + i);
        bucket_id \<leftarrow> arr_get permutations (int index);
        priority \<leftarrow> arr_get next bucket_id;
        next \<leftarrow> arr_set next bucket_id (priority + 1);
        let slot = to_int32 (u32 (backend_capacity * nat (bucket_id mod 2 ^ 32) + nat (priority mod 2 ^ 32)));
        let value = vector_borrow cht slot;
        d \<leftarrow> store_u32 (vdata cht) value j;
        let cht = vector_return (cht\<lparr>vdata := d\<rparr>) slot value;
        fill_turn cht_height backend_capacity permutations i (Suc j) next cht
      } else Some (next, cht))"
  by pat_completeness auto
termination
  by (relation "measure (\<lambda>(h, cap, p, i, j, n, v). cap - j)") auto

declare fill_turn.simps [simp del]

function fill_turns :: "nat \<Rightarrow> nat \<Rightarrow> int list \<Rightarrow> nat \<Rightarrow> int list \<Rightarrow> vector \<Rightarrow> (int list \<times> vector) option" where
  "fill_turns cht_height backend_capacity permutations i next cht =
     (if i < cht_height then do {
        (next, cht) \<leftarrow> fill_turn cht_height backend_capacity permutations i 0 next cht;
        fill_turns cht_height backend_capacity permutations (Suc i) next cht
      } else Some (next, cht))"
  by pat_completeness auto
termination
  by (relation "measure (\<lambda>(h, cap, p, i, n, v). h - i)") auto

declare fill_turns.simps [simp del]

text \<open>\<open>malloc_permutations\<close> and \<open>malloc_next\<close> are what \<^verbatim>\<open>malloc\<close> returned, \<open>None\<close> when it failed.\<close>

definition cht_fill_cht ::
  "vector \<Rightarrow> nat \<Rightarrow> nat \<Rightarrow> int list option \<Rightarrow> int list option \<Rightarrow> (int \<times> vector) option" where
  "cht_fill_cht cht cht_height backend_capacity malloc_permutations malloc_next =
     (case malloc_permutations of
        None \<Rightarrow> Some (0, cht)
      | Some permutations \<Rightarrow> do {
          permutations \<leftarrow> permute_backends cht_height backend_capacity 0 permutations;
          (case malloc_next of
             None \<Rightarrow> Some (0, cht)
           | Some next \<Rightarrow> do {
               next \<leftarrow> clear_next cht_height 0 next;
               (next, cht) \<leftarrow> fill_turns cht_height backend_capacity permutations 0 next cht;
               Some (1, cht)
             })
        })"

text \<open>The result is \<open>None\<close> for 0, the chosen backend for 1.\<close>

function find_preferred_from :: "vector \<Rightarrow> dchain \<Rightarrow> nat \<Rightarrow> nat \<Rightarrow> nat \<Rightarrow> int option option" where
  "find_preferred_from cht active_backends backend_capacity start i =
     (if i < backend_capacity then do {
        let candidate_idx = (start * backend_capacity + i) mod 2 ^ 64;
        candidate \<leftarrow> load_u32 (vdata cht) (vector_borrow cht (to_int32 candidate_idx));
        allocated \<leftarrow> dchain_is_index_allocated active_backends (to_int32 candidate);
        if allocated then Some (Some (to_int32 candidate))
        else find_preferred_from cht active_backends backend_capacity start (Suc i)
      } else Some None)"
  by pat_completeness auto
termination
  by (relation "measure (\<lambda>(v, ch, cap, s, i). cap - i)") auto

declare find_preferred_from.simps [simp del]

definition cht_find_preferred_available_backend ::
  "nat \<Rightarrow> vector \<Rightarrow> dchain \<Rightarrow> nat \<Rightarrow> nat \<Rightarrow> int option option" where
  "cht_find_preferred_available_backend hash cht active_backends cht_height backend_capacity = do {
     start \<leftarrow> cht_loop hash cht_height;
     find_preferred_from cht active_backends backend_capacity start 0
   }"

subsection \<open>The permutations\<close>

text \<open>The bucket that the backend \<open>j\<close> enters in the turn \<open>i\<close>.\<close>

definition turn_bucket :: "nat \<Rightarrow> nat \<Rightarrow> nat \<Rightarrow> nat" where
  "turn_bucket h j i = ((31 * j) mod h + (j mod (h - 1) + 1) * i) mod h"

text \<open>The limits of the header: a prime height, and sizes whose products fit.\<close>

definition cht_dims :: "nat \<Rightarrow> nat \<Rightarrow> bool" where
  "cht_dims h cap \<longleftrightarrow> 2 \<le> h \<and> (\<forall>d \<in> {2..<h}. \<not> d dvd h) \<and> h < 40000 \<and> 4 * 40000 * (cap + 1) < 2147483647"

lemma cht_dimsD:
  assumes "cht_dims h cap"
  shows "2 \<le> h" "0 < s \<Longrightarrow> s < h \<Longrightarrow> coprime h s" "h < 40000" "cap < 13421" "h * cap < 2147483648"
proof -
  show h: "2 \<le> h" "h < 40000" "cap < 13421" using assms by (simp_all add: cht_dims_def)
  have "h * cap \<le> 40000 * 13421" using h by (intro mult_le_mono) auto
  then show "h * cap < 2147483648" by simp
  show "coprime h s" if "0 < s" "s < h"
  proof -
    have "gcd h s \<le> s" using that(1) by (intro dvd_imp_le) auto
    then have "gcd h s < h" using that(2) by (rule le_less_trans)
    moreover have "gcd h s \<notin> {2..<h}" using assms gcd_dvd1 [of h s] unfolding cht_dims_def by blast
    moreover have "gcd h s \<noteq> 0" using that by auto
    moreover have "g < h \<Longrightarrow> g \<notin> {2..<h} \<Longrightarrow> g \<noteq> 0 \<Longrightarrow> g = 1" for g by auto
    ultimately have "gcd h s = 1" by blast
    then show ?thesis by (simp add: coprime_iff_gcd_eq_1)
  qed
qed

lemma turn_bucket_inj:
  assumes "cht_dims h cap" "i < h" "k < h" "turn_bucket h j i = turn_bucket h j k"
  shows "i = k"
proof -
  note d = cht_dimsD [OF assms(1)]
  let ?s = "j mod (h - 1) + 1"
  have s: "0 < ?s" "?s < h" using d(1) mod_less_divisor [of "h - 1" j] by linarith+
  have eq: "i = k" if "k \<le> i" "i < h" "turn_bucket h j i = turn_bucket h j k" for i k
  proof -
    have "?s * k \<le> ?s * i" using that(1) by (rule mult_le_mono2)
    then have "h dvd ((31 * j) mod h + ?s * i) - ((31 * j) mod h + ?s * k)"
      using that(3) unfolding turn_bucket_def by (intro mod_eq_dvd_iff_nat [THEN iffD1]) simp_all
    then have "h dvd ?s * (i - k)" by (simp add: diff_mult_distrib2)
    then have "h dvd i - k" using coprime_dvd_mult_right_iff [OF d(2) [OF s]] by blast
    then have "i - k = 0" using that(2) by (meson dvd_imp_le less_imp_diff_less not_gr_zero not_le)
    then show "i = k" using that(1) by simp
  qed
  show ?thesis using eq [of k i] eq [of i k] assms(2-4) by (cases "k \<le> i") auto
qed

lemma turn_bucket_less: "cht_dims h cap \<Longrightarrow> turn_bucket h j i < h"
  by (simp add: turn_bucket_def cht_dims_def)

lemma turn_bucket_onto:
  assumes "cht_dims h cap" "b < h"
  shows "\<exists>i < h. turn_bucket h j i = b"
proof -
  have "inj_on (turn_bucket h j) {..<h}" using turn_bucket_inj [OF assms(1)] by (auto simp: inj_on_def)
  then have "turn_bucket h j ` {..<h} = {..<h}"
    using turn_bucket_less [OF assms(1)] by (intro endo_inj_surj) auto
  then show ?thesis using assms(2) by (metis imageE lessThan_iff)
qed

lemma permute_backend_row:
  assumes "cht_dims h cap" "i < cap" "offset < h" "shift \<le> h"
  shows "length p = h * cap \<Longrightarrow> j \<le> h \<Longrightarrow> \<exists>p'. permute_backend h offset shift i j p = Some p' \<and> length p' = h * cap \<and>
    (\<forall>k < h * cap. p' ! k = (if i * h + j \<le> k \<and> k < i * h + h
       then int ((offset + shift * (k - i * h)) mod h) else p ! k))"
proof (induction "h - j" arbitrary: j p rule: less_induct)
  case less
  note d = cht_dimsD [OF assms(1)]
  show ?case
  proof (cases "j < h")
    case True
    have "(i + 1) * h \<le> cap * h" using assms(2) by (intro mult_le_mono1) simp
    then have ij: "i * h + j < h * cap" using True by (simp add: mult.commute)
    have "shift * j \<le> 40000 * 40000" using True assms(4) d(3) by (intro mult_le_mono) auto
    then have m: "(offset + shift * j) mod 18446744073709551616 = offset + shift * j" using assms(3) d(3) by simp
    have u: "u32 (i * h + j) = i * h + j" using ij d(5) by (intro u32_small) linarith
    let ?x = "(offset + shift * j) mod h"
    have "?x < h" using d(1) by simp
    then have x: "to_int32 ?x = int ?x" using d(3) by (intro to_int32_small) linarith
    have l: "length (p[i * h + j := int ?x]) = h * cap" using less.prems by simp
    have m1: "h - Suc j < h - j" "Suc j \<le> h" using True by simp_all
    from less.hyps [OF m1(1) l m1(2)] obtain p' where p': "permute_backend h offset shift i (Suc j) (p[i * h + j := int ?x]) = Some p'" "length p' = h * cap"
      "\<forall>k < h * cap. p' ! k = (if i * h + Suc j \<le> k \<and> k < i * h + h
         then int ((offset + shift * (k - i * h)) mod h) else p[i * h + j := int ?x] ! k)"
      by blast
    have "permute_backend h offset shift i j p = Some p'"
      using p'(1) True m u x arr_set_nat [of "i * h + j" p] ij less.prems d(1)
      by (simp add: permute_backend.simps [of _ _ _ _ j] cht_loop_def del: of_nat_add of_nat_mult)
    moreover have "p' ! k = (if i * h + j \<le> k \<and> k < i * h + h
       then int ((offset + shift * (k - i * h)) mod h) else p ! k)" if "k < h * cap" for k
      using p'(3) that less.prems(1) True by (cases "k = i * h + j") (auto simp: nth_list_update)
    ultimately show ?thesis using p'(2) by blast
  next
    case False
    then show ?thesis using less.prems by (subst permute_backend.simps) auto
  qed
qed

lemma permute_backends_rows:
  assumes "cht_dims h cap"
  shows "length p = h * cap \<Longrightarrow> \<exists>p'. permute_backends h cap i p = Some p' \<and> length p' = h * cap \<and>
    (\<forall>j k. i \<le> j \<longrightarrow> j < cap \<longrightarrow> k < h \<longrightarrow> p' ! (j * h + k) = int (turn_bucket h j k)) \<and>
    (\<forall>k < i * h. k < h * cap \<longrightarrow> p' ! k = p ! k)"
proof (induction "cap - i" arbitrary: i p rule: less_induct)
  case less
  note d = cht_dimsD [OF assms]
  show ?case
  proof (cases "i < cap")
    case True
    let ?off = "(31 * i) mod h" and ?s = "i mod (h - 1) + 1"
    have s: "?off < h" "?s \<le> h" using d(1) mod_less_divisor [of "h - 1" i] by (simp, linarith)
    have "u32 (i * 31) = 31 * i" using True d(4) by (simp add: mult.commute)
    moreover have "u32 (h + 2 ^ 32 - 1) = h - 1"
    proof -
      have "h + 2 ^ 32 - 1 = (h - 1) + 2 ^ 32" using d(1) by simp
      then have "u32 (h + 2 ^ 32 - 1) = (h - 1) mod 2 ^ 32" unfolding u32_def by (simp only: mod_add_self2)
      then show ?thesis using d(3) by simp
    qed
    ultimately have l: "cht_loop (u32 (i * 31)) h = Some ?off" "cht_loop i (u32 (h + 2 ^ 32 - 1)) = Some (i mod (h - 1))"
      using d(1) by (simp_all add: cht_loop_def)
    obtain p1 where p1: "permute_backend h ?off ?s i 0 p = Some p1" "length p1 = h * cap"
      "\<forall>k < h * cap. p1 ! k = (if i * h + 0 \<le> k \<and> k < i * h + h then int ((?off + ?s * (k - i * h)) mod h) else p ! k)"
      using permute_backend_row [OF assms True s less.prems, of 0] by blast
    have m1: "cap - Suc i < cap - i" using True by simp
    from less.hyps [OF m1 p1(2)] obtain p' where p': "permute_backends h cap (Suc i) p1 = Some p'" "length p' = h * cap"
      "\<forall>j k. Suc i \<le> j \<longrightarrow> j < cap \<longrightarrow> k < h \<longrightarrow> p' ! (j * h + k) = int (turn_bucket h j k)"
      "\<forall>k < Suc i * h. k < h * cap \<longrightarrow> p' ! k = p1 ! k"
      by blast
    have "permute_backends h cap i p = Some p'"
      using True l p1(1) p'(1) by (simp add: permute_backends.simps [of _ _ i] Let_def)
    moreover have "p' ! (j * h + k) = int (turn_bucket h j k)" if "i \<le> j" "j < cap" "k < h" for j k
    proof (cases "j = i")
      case j: True
      have "Suc i * h \<le> cap * h" using True by (intro mult_le_mono1) simp
      then have "i * h + k < h * cap" "i * h + k < Suc i * h" using that(3) by (simp_all add: mult.commute)
      then show ?thesis using p'(4) p1(3) that(3) j by (simp add: turn_bucket_def)
    qed (use p'(3) that in auto)
    moreover have "p' ! k = p ! k" if "k < i * h" "k < h * cap" for k using p'(4) p1(3) that by simp
    ultimately show ?thesis using p'(2) by blast
  next
    case False
    then show ?thesis using less.prems by (subst permute_backends.simps) auto
  qed
qed

lemma clear_next_zeros:
  "length n = h \<Longrightarrow> i \<le> h \<Longrightarrow> clear_next h i n = Some (take i n @ replicate (h - i) 0)"
proof (induction "h - i" arbitrary: i n rule: less_induct)
  case less
  show ?case
  proof (cases "i < h")
    case True
    then have "take (Suc i) (n[i := 0]) @ replicate (h - Suc i) 0 = take i n @ replicate (h - i) 0"
      using less.prems by (simp add: take_Suc_conv_app_nth Suc_diff_Suc flip: replicate_Suc)
    then show ?thesis using less.hyps [of "Suc i" "n[i := 0]"] less.prems True
      by (simp add: clear_next.simps [of _ i])
  next
    case False
    then show ?thesis using less.prems by (subst clear_next.simps) simp
  qed
qed

subsection \<open>Filling\<close>

text \<open>The backends that entered the bucket \<open>b\<close> in the turns \<open>xs\<close>, in the order of their entry.\<close>

definition entered :: "nat \<Rightarrow> (nat \<times> nat) list \<Rightarrow> nat \<Rightarrow> nat list" where
  "entered h xs b = map snd (filter (\<lambda>(i, j). turn_bucket h j i = b) xs)"

definition cht_slot :: "vector \<Rightarrow> nat \<Rightarrow> nat option" where
  "cht_slot v k = load_u32 (vdata v) (vector_borrow v (int k))"

definition cht_vector :: "nat \<Rightarrow> nat \<Rightarrow> vector \<Rightarrow> bool" where
  "cht_vector h cap v \<longleftrightarrow> vector_wf v \<and> elem_size v = 4 \<and> vcapacity v = h * cap"

definition fill_inv :: "nat \<Rightarrow> nat \<Rightarrow> (nat \<times> nat) list \<Rightarrow> int list \<Rightarrow> vector \<Rightarrow> bool" where
  "fill_inv h cap xs next v \<longleftrightarrow> cht_vector h cap v \<and> length next = h \<and>
     (\<forall>b < h. next ! b = int (length (entered h xs b)) \<and>
        (\<forall>r < length (entered h xs b). cht_slot v (cap * b + r) = Some (entered h xs b ! r)))"

lemma entered_snoc [simp]:
  "entered h (xs @ [(i, j)]) b = entered h xs b @ (if turn_bucket h j i = b then [j] else [])"
  by (simp add: entered_def)

lemma entered_distinct:
  assumes "cht_dims h cap" "distinct xs" "set xs \<subseteq> {..<h} \<times> {..<cap}"
  shows "distinct (entered h xs b)" "set (entered h xs b) \<subseteq> {..<cap}" "length (entered h xs b) \<le> cap"
proof -
  have "inj_on snd (set (filter (\<lambda>(i, j). turn_bucket h j i = b) xs))"
  proof (rule inj_onI)
    fix x y
    assume x: "x \<in> set (filter (\<lambda>(i, j). turn_bucket h j i = b) xs)" and y: "y \<in> set (filter (\<lambda>(i, j). turn_bucket h j i = b) xs)"
      and s: "snd x = snd y"
    have "fst x < h" "fst y < h" "turn_bucket h (snd x) (fst x) = turn_bucket h (snd x) (fst y)"
      using x y s assms(3) by auto
    then show "x = y" using turn_bucket_inj [OF assms(1)] s by (intro prod_eqI) auto
  qed
  then show d: "distinct (entered h xs b)" using assms(2) by (simp add: entered_def distinct_map)
  show s: "set (entered h xs b) \<subseteq> {..<cap}" using assms(3) by (auto simp: entered_def)
  show "length (entered h xs b) \<le> cap"
    using card_mono [OF _ s] distinct_card [OF d] by simp
qed

lemma cht_slot_pos: "b < h \<Longrightarrow> r < cap \<Longrightarrow> cap * b + r < h * (cap :: nat)"
proof -
  assume "b < h" "r < cap"
  moreover from \<open>b < h\<close> have "cap * (b + 1) \<le> cap * h" by (intro mult_le_mono2) simp
  ultimately show ?thesis by (simp add: mult.commute)
qed

lemma cht_slot_eq: "r < cap \<Longrightarrow> s < cap \<Longrightarrow> cap * b + r = cap * c + s \<longleftrightarrow> b = c \<and> r = (s :: nat)"
  by (metis add_left_imp_eq div_mult_self1_is_m div_less gr_implies_not0 add.right_neutral div_mult_self4 less_nat_zero_code)

lemma cht_write:
  assumes v: "cht_vector h cap v" and k: "k < h * cap" and x: "x < 2 ^ 32"
  shows "\<exists>d. store_u32 (vdata v) (vector_borrow v (int k)) x = Some d \<and> cht_vector h cap (v\<lparr>vdata := d\<rparr>) \<and>
    cht_slot (v\<lparr>vdata := d\<rparr>) k = Some x \<and> (\<forall>l. l \<noteq> k \<longrightarrow> cht_slot (v\<lparr>vdata := d\<rparr>) l = cht_slot v l)"
proof -
  have w: "vector_wf v" "elem_size v = 4" "vcapacity v = h * cap" using v by (simp_all add: cht_vector_def)
  have "int k < int (vcapacity v)" "int (length (le_bytes 4 x)) \<le> elem_size v" using k w by (simp_all del: of_nat_mult)
  from slot_write [OF w(1) _ this] obtain d where d: "store_bytes (vdata v) (vector_borrow v (int k)) (le_bytes 4 x) = Some d"
    "vector_wf (v\<lparr>vdata := d\<rparr>)"
    "\<forall>k'. k' \<le> length (le_bytes 4 x) \<longrightarrow> load_bytes d (vector_borrow v (int k)) k' = Some (take k' (le_bytes 4 x))"
    "\<forall>j k'. j \<noteq> int k \<longrightarrow> int k' \<le> elem_size v \<longrightarrow>
       load_bytes d (vector_borrow v j) k' = load_bytes (vdata v) (vector_borrow v j) k'"
    by auto
  have b: "vector_borrow (v\<lparr>vdata := d\<rparr>) l = vector_borrow v l" for l by (simp add: vector_borrow_def)
  have "load_bytes d (vector_borrow v (int k)) 4 = Some (le_bytes 4 x)" using d(3) by simp
  then have "cht_slot (v\<lparr>vdata := d\<rparr>) k = Some x"
    using x by (simp add: cht_slot_def b load_u32_def le_val_le_bytes)
  moreover have "cht_slot (v\<lparr>vdata := d\<rparr>) l = cht_slot v l" if "l \<noteq> k" for l
    using d(4) that w(2) by (simp add: cht_slot_def b load_u32_def)
  ultimately show ?thesis using d(1,2) w by (auto simp: store_u32_def cht_vector_def)
qed

lemma fill_step:
  assumes dims: "cht_dims h cap" and inv: "fill_inv h cap xs next v" and ij: "i < h" "j < cap"
    and xs: "distinct (xs @ [(i, j)])" "set xs \<subseteq> {..<h} \<times> {..<cap}"
  shows "\<exists>k d. next ! turn_bucket h j i = int k \<and> k < cap \<and>
    store_u32 (vdata v) (vector_borrow v (int (cap * turn_bucket h j i + k))) j = Some d \<and>
    fill_inv h cap (xs @ [(i, j)]) (next[turn_bucket h j i := int k + 1]) (v\<lparr>vdata := d\<rparr>)"
proof -
  let ?b = "turn_bucket h j i"
  let ?k = "length (entered h xs ?b)"
  note i = inv [unfolded fill_inv_def]
  have b: "?b < h" by (rule turn_bucket_less [OF dims])
  have sub: "set (xs @ [(i, j)]) \<subseteq> {..<h} \<times> {..<cap}" using xs(2) ij by simp
  have k: "?k < cap" using entered_distinct(3) [OF dims xs(1) sub, of ?b] by simp
  have le: "length (entered h xs c) \<le> cap" for c using entered_distinct(3) [OF dims _ xs(2)] xs(1) by simp
  have "cap * ?b + ?k < h * cap" "j < 2 ^ 32" using cht_slot_pos [OF b k] cht_dimsD(4) [OF dims] ij by simp_all
  with i obtain d where d: "store_u32 (vdata v) (vector_borrow v (int (cap * ?b + ?k))) j = Some d"
    "cht_vector h cap (v\<lparr>vdata := d\<rparr>)" "cht_slot (v\<lparr>vdata := d\<rparr>) (cap * ?b + ?k) = Some j"
    "\<forall>l. l \<noteq> cap * ?b + ?k \<longrightarrow> cht_slot (v\<lparr>vdata := d\<rparr>) l = cht_slot v l"
    using cht_write [of h cap v "cap * ?b + ?k" j] by blast
  have slots: "cht_slot (v\<lparr>vdata := d\<rparr>) (cap * c + r) = Some (entered h (xs @ [(i, j)]) c ! r)"
    if c: "c < h" "r < length (entered h (xs @ [(i, j)]) c)" for c r
  proof (cases "c = ?b \<and> r = ?k")
    case True
    then show ?thesis using d(3) by simp
  next
    case False
    then have r: "r < length (entered h xs c)" using c(2) by (auto split: if_splits)
    then have "r < cap" using le [of c] by simp
    then have "cap * c + r \<noteq> cap * ?b + ?k" using cht_slot_eq [OF _ k] False by metis
    then show ?thesis using d(4) i c(1) r by (simp add: nth_append)
  qed
  have "(next[?b := int ?k + 1]) ! c = int (length (entered h (xs @ [(i, j)]) c))" if "c < h" for c
    using i that by (cases "c = ?b") auto
  then have "fill_inv h cap (xs @ [(i, j)]) (next[?b := int ?k + 1]) (v\<lparr>vdata := d\<rparr>)"
    using slots d(2) i unfolding fill_inv_def by simp
  then show ?thesis using i b k d(1) by blast
qed

lemma product_append: "List.product (xs @ ys) zs = List.product xs zs @ List.product ys zs"
  by (induction xs) auto

lemma fill_turn_correct:
  assumes dims: "cht_dims h cap" and i: "i < h" and p: "length p = h * cap"
    "\<forall>j k. j < cap \<longrightarrow> k < h \<longrightarrow> p ! (j * h + k) = int (turn_bucket h j k)"
  shows "fill_inv h cap (List.product [0..<i] [0..<cap] @ map (Pair i) [0..<j]) next v \<Longrightarrow> j \<le> cap \<Longrightarrow>
    \<exists>next' v'. fill_turn h cap p i j next v = Some (next', v') \<and>
      fill_inv h cap (List.product [0..<Suc i] [0..<cap]) next' v'"
proof (induction "cap - j" arbitrary: j "next" v rule: less_induct)
  case less
  note d = cht_dimsD [OF dims]
  let ?xs = "List.product [0..<i] [0..<cap] @ map (Pair i) [0..<j]"
  show ?case
  proof (cases "j < cap")
    case True
    let ?b = "turn_bucket h j i"
    have xs: "distinct (?xs @ [(i, j)])" "set ?xs \<subseteq> {..<h} \<times> {..<cap}"
      using i True by (auto simp: distinct_product distinct_map inj_on_def)
    from fill_step [OF dims less.prems(1) i True xs] obtain k d' where k: "next ! ?b = int k" "k < cap"
      "store_u32 (vdata v) (vector_borrow v (int (cap * ?b + k))) j = Some d'"
      "fill_inv h cap (?xs @ [(i, j)]) (next[?b := int k + 1]) (v\<lparr>vdata := d'\<rparr>)" by blast
    have ln: "length next = h" using less.prems(1) by (simp add: fill_inv_def)
    have b: "?b < h" by (rule turn_bucket_less [OF dims])
    have ji: "j * h + i < h * cap" using cht_slot_pos [OF True i] by (simp add: mult.commute)
    have bk: "cap * ?b + k < h * cap" by (rule cht_slot_pos [OF b k(2)])
    have u: "u32 (j * h + i) = j * h + i" "u32 (cap * ?b + k) = cap * ?b + k" "to_int32 (cap * ?b + k) = int (cap * ?b + k)"
      using ji bk d(5) by (auto intro!: u32_small to_int32_small)
    have n: "nat (int ?b mod 4294967296) = ?b" "nat (int k mod 4294967296) = k"
      using b k(2) d(3,4) by (simp_all add: nat_mod_as_int)
    have g: "arr_get p (int (j * h + i)) = Some (int ?b)" using p ji True i by (simp del: of_nat_add of_nat_mult)
    have "?xs @ [(i, j)] = List.product [0..<i] [0..<cap] @ map (Pair i) [0..<Suc j]" by simp
    with k(4) have inv: "fill_inv h cap (List.product [0..<i] [0..<cap] @ map (Pair i) [0..<Suc j]) (next[?b := int k + 1]) (v\<lparr>vdata := d'\<rparr>)"
      by (simp only:)
    have m: "cap - Suc j < cap - j" "Suc j \<le> cap" using True by simp_all
    from less.hyps [OF m(1) inv m(2)] obtain next' v' where
      r: "fill_turn h cap p i (Suc j) (next[?b := int k + 1]) (v\<lparr>vdata := d'\<rparr>) = Some (next', v')"
      "fill_inv h cap (List.product [0..<Suc i] [0..<cap]) next' v'" by blast
    have "fill_turn h cap p i j next v = Some (next', v')"
      using True g b k(1,3) ln u n r(1)
      by (simp add: fill_turn.simps [of _ _ _ _ j] Let_def vector_return_def del: of_nat_add of_nat_mult)
    then show ?thesis using r(2) by blast
  next
    case False
    then have "j = cap" using less.prems(2) by simp
    moreover have "List.product [0..<Suc i] [0..<cap] = List.product [0..<i] [0..<cap] @ map (Pair i) [0..<cap]"
      by (simp add: product_append)
    ultimately show ?thesis using less.prems(1) by (simp add: fill_turn.simps [of _ _ _ _ cap])
  qed
qed

lemma fill_turns_correct:
  assumes dims: "cht_dims h cap" and p: "length p = h * cap"
    "\<forall>j k. j < cap \<longrightarrow> k < h \<longrightarrow> p ! (j * h + k) = int (turn_bucket h j k)"
  shows "fill_inv h cap (List.product [0..<i] [0..<cap]) next v \<Longrightarrow> i \<le> h \<Longrightarrow>
    \<exists>next' v'. fill_turns h cap p i next v = Some (next', v') \<and>
      fill_inv h cap (List.product [0..<h] [0..<cap]) next' v'"
proof (induction "h - i" arbitrary: i "next" v rule: less_induct)
  case less
  show ?case
  proof (cases "i < h")
    case True
    have "fill_inv h cap (List.product [0..<i] [0..<cap] @ map (Pair i) [0..<0]) next v" using less.prems(1) by simp
    from fill_turn_correct [OF dims True p this] obtain n1 v1 where
      1: "fill_turn h cap p i 0 next v = Some (n1, v1)" "fill_inv h cap (List.product [0..<Suc i] [0..<cap]) n1 v1" by blast
    have m: "h - Suc i < h - i" "Suc i \<le> h" using True by simp_all
    from less.hyps [OF m(1) 1(2) m(2)] show ?thesis using True 1(1) by (simp add: fill_turns.simps [of _ _ _ i])
  next
    case False
    then show ?thesis using less.prems by (subst fill_turns.simps) auto
  qed
qed

subsection \<open>The table and the search\<close>

text \<open>The order in which the bucket \<open>b\<close> prefers the backends: that of their turns.\<close>

definition preference :: "nat \<Rightarrow> nat \<Rightarrow> nat \<Rightarrow> nat list" where
  "preference h cap b = map snd (filter (\<lambda>(i, j). turn_bucket h j i = b) (List.product [0..<h] [0..<cap]))"

definition cht_filled :: "nat \<Rightarrow> nat \<Rightarrow> vector \<Rightarrow> bool" where
  "cht_filled h cap v \<longleftrightarrow> cht_vector h cap v \<and>
     (\<forall>b < h. \<forall>r < cap. cht_slot v (cap * b + r) = Some (preference h cap b ! r))"

lemma preference_perm:
  assumes "cht_dims h cap" "b < h"
  shows "distinct (preference h cap b)" "set (preference h cap b) = {..<cap}" "length (preference h cap b) = cap"
proof -
  have p: "preference h cap b = entered h (List.product [0..<h] [0..<cap]) b" by (simp add: preference_def entered_def)
  show d: "distinct (preference h cap b)" unfolding p by (rule entered_distinct [OF assms(1)]) (auto simp: distinct_product)
  have "j \<in> set (preference h cap b)" if "j < cap" for j
    using turn_bucket_onto [OF assms, of j] that by (force simp: preference_def)
  then show s: "set (preference h cap b) = {..<cap}" by (auto simp: preference_def)
  show "length (preference h cap b) = cap" using distinct_card [OF d] s by simp
qed

lemma cht_fill:
  assumes dims: "cht_dims h cap" and v: "cht_vector h cap v" and p: "length p = h * cap" and n: "length n = h"
  shows "\<exists>v'. cht_fill_cht v h cap (Some p) (Some n) = Some (1, v') \<and> cht_filled h cap v'"
proof -
  from permute_backends_rows [OF dims p, of 0] obtain p' where p': "permute_backends h cap 0 p = Some p'" "length p' = h * cap"
    "\<forall>j k. j < cap \<longrightarrow> k < h \<longrightarrow> p' ! (j * h + k) = int (turn_bucket h j k)" by auto
  have z: "clear_next h 0 n = Some (replicate h 0)" using clear_next_zeros [OF n, of 0] by simp
  have "fill_inv h cap (List.product [0..<0] [0..<cap]) (replicate h 0) v"
    using v by (simp add: fill_inv_def entered_def)
  from fill_turns_correct [OF dims p'(2,3) this] obtain n' v' where
    r: "fill_turns h cap p' 0 (replicate h 0) v = Some (n', v')" "fill_inv h cap (List.product [0..<h] [0..<cap]) n' v'"
    by blast
  have "entered h (List.product [0..<h] [0..<cap]) b = preference h cap b" for b by (simp add: preference_def entered_def)
  then have "cht_filled h cap v'" using r(2) preference_perm(3) [OF dims] by (simp add: fill_inv_def cht_filled_def)
  then show ?thesis using p'(1) z r(1) by (simp add: cht_fill_cht_def)
qed

lemma find_preferred:
  assumes dims: "cht_dims h cap" and v: "cht_filled h cap v" and ch: "dchain_rel cap ch xs" and b: "b < h"
  shows "i \<le> cap \<Longrightarrow> find_preferred_from v ch cap b i =
    Some (map_option int (find (\<lambda>j. j \<in> fst ` set xs) (drop i (preference h cap b))))"
proof (induction "cap - i" arbitrary: i rule: less_induct)
  case less
  note d = cht_dimsD [OF dims]
  note pp = preference_perm [OF dims b]
  show ?case
  proof (cases "i < cap")
    case True
    let ?c = "preference h cap b ! i"
    have c: "?c < cap" using pp(2,3) True nth_mem [of i "preference h cap b"] by auto
    have pos: "cap * b + i < h * cap" by (rule cht_slot_pos [OF b True])
    have "(b * cap + i) mod 18446744073709551616 = cap * b + i" "to_int32 (cap * b + i) = int (cap * b + i)" "to_int32 ?c = int ?c"
      using pos c d(4,5) by (auto simp: mult.commute intro!: to_int32_small)
    moreover have "load_u32 (vdata v) (vector_borrow v (int (cap * b + i))) = Some ?c"
      using v b True by (simp add: cht_filled_def cht_slot_def del: of_nat_add of_nat_mult)
    moreover have "dchain_is_index_allocated ch (int ?c) = Some (?c \<in> fst ` set xs)" by (rule dc.is_alloc_iff [OF ch c])
    moreover have "drop i (preference h cap b) = ?c # drop (Suc i) (preference h cap b)"
      using True pp(3) by (simp add: Cons_nth_drop_Suc)
    moreover have "find_preferred_from v ch cap b (Suc i) =
        Some (map_option int (find (\<lambda>j. j \<in> fst ` set xs) (drop (Suc i) (preference h cap b))))"
      by (rule less.hyps) (use True in auto)
    ultimately show ?thesis using True
      by (simp add: find_preferred_from.simps [of _ _ _ _ i] Let_def del: of_nat_add of_nat_mult)
  next
    case False
    then show ?thesis using pp(3) less.prems by (subst find_preferred_from.simps) auto
  qed
qed

lemma cht_find:
  assumes "cht_dims h cap" "cht_filled h cap v" "dchain_rel cap ch xs"
  shows "cht_find_preferred_available_backend hash v ch h cap =
    Some (map_option int (find (\<lambda>j. j \<in> fst ` set xs) (preference h cap (hash mod h))))"
  using find_preferred [OF assms, of "hash mod h" 0] cht_dimsD(1) [OF assms(1)]
  by (simp add: cht_find_preferred_available_backend_def cht_loop_def)

lemma find_narrow:
  "find P ys = Some c \<Longrightarrow> \<forall>x. Q x \<longrightarrow> P x \<Longrightarrow> Q c \<Longrightarrow> find Q ys = Some c"
  by (induction ys) (auto split: if_splits)

subsection \<open>Properties\<close>

text \<open>For a prime height the table is filled without leaving an array, and the slots of every bucket
  are a permutation of the backends: the order in which the backends, one after the other in each turn, arrive at the
  bucket on their walks. When an allocation fails the result is 0 and the table is as before.\<close>

theorem cht_fill_permutations:
  assumes "cht_dims h cap" "vector_wf v" "elem_size v = 4" "vcapacity v = h * cap" "length p = h * cap" "length n = h"
  shows "(\<exists>v'. cht_fill_cht v h cap (Some p) (Some n) = Some (1, v') \<and>
      (\<forall>b < h. map (\<lambda>r. load_u32 (vdata v') (vector_borrow v' (int (cap * b + r)))) [0..<cap] = map Some (preference h cap b) \<and>
        distinct (preference h cap b) \<and> set (preference h cap b) = {..<cap})) \<and>
    cht_fill_cht v h cap (Some p) None = Some (0, v) \<and> cht_fill_cht v h cap None mn = Some (0, v)"
proof -
  have "cht_vector h cap v" using assms by (simp add: cht_vector_def)
  from cht_fill [OF assms(1) this assms(5,6)] obtain v' where
    v': "cht_fill_cht v h cap (Some p) (Some n) = Some (1, v')" "cht_filled h cap v'" by blast
  have "map (\<lambda>r. load_u32 (vdata v') (vector_borrow v' (int (cap * b + r)))) [0..<cap] = map Some (preference h cap b)"
    if "b < h" for b
    using v'(2) that preference_perm(3) [OF assms(1) that]
    by (intro nth_equalityI) (simp_all add: cht_filled_def cht_slot_def del: of_nat_add of_nat_mult)
  moreover obtain p' where "permute_backends h cap 0 p = Some p'" using permute_backends_rows [OF assms(1,5), of 0] by blast
  ultimately show ?thesis using v'(1) preference_perm(1,2) [OF assms(1)] by (simp add: cht_fill_cht_def)
qed

text \<open>A table of five buckets and three backends.\<close>

definition demo_cht :: vector where
  "demo_cht = \<lparr>vdata = replicate 60 7, elem_size = 4, vcapacity = 15\<rparr>"

lemma demo_cht: "cht_dims 5 3" "vector_wf demo_cht" "elem_size demo_cht = 4" "vcapacity demo_cht = 5 * 3"
proof -
  have "{2..<5} = {2, 3, 4 :: nat}" by auto
  then show "cht_dims 5 3" by (simp add: cht_dims_def)
qed (simp_all add: demo_cht_def vector_wf_def)

theorem cht_fill_permutations_witness:
  "\<exists>v'. cht_fill_cht demo_cht 5 3 (Some (replicate 15 9)) (Some (replicate 5 9)) = Some (1, v') \<and>
    map (\<lambda>r. load_u32 (vdata v') (vector_borrow v' (int (3 * 1 + r)))) [0..<3] = map Some (preference 5 3 1)"
proof -
  have "length (replicate 15 (9 :: int)) = 5 * 3" "length (replicate 5 (9 :: int)) = 5" by simp_all
  from cht_fill_permutations [OF demo_cht this, THEN conjunct1] obtain v' where
    v': "cht_fill_cht demo_cht 5 3 (Some (replicate 15 9)) (Some (replicate 5 9)) = Some (1, v')"
      "\<forall>b < 5. map (\<lambda>r. load_u32 (vdata v') (vector_borrow v' (int (3 * b + r)))) [0..<3] = map Some (preference 5 3 b)"
    by blast
  from v'(2) [rule_format, of 1] show ?thesis using v'(1) by auto
qed

text \<open>In a table just filled the search never leaves the table, ends, and chooses for a hash the
  first backend in the order of its bucket whose index is allocated; it finds none only when none is.\<close>

theorem cht_finds_first_alive:
  assumes "cht_dims h cap" "vector_wf v" "elem_size v = 4" "vcapacity v = h * cap" "length p = h * cap" "length n = h"
    and "cht_fill_cht v h cap (Some p) (Some n) = Some (1, v')" "dchain_rel cap ch xs"
  shows "cht_find_preferred_available_backend hash v' ch h cap =
      Some (map_option int (find (\<lambda>j. j \<in> fst ` set xs) (preference h cap (hash mod h)))) \<and>
    (cht_find_preferred_available_backend hash v' ch h cap = Some None \<longleftrightarrow> xs = [])"
proof -
  have v': "cht_filled h cap v'" using cht_fill [OF assms(1) _ assms(5,6), of v] assms by (auto simp: cht_vector_def)
  have h: "hash mod h < h" using cht_dimsD(1) [OF assms(1)] by simp
  have "find (\<lambda>j. j \<in> fst ` set xs) (preference h cap (hash mod h)) = None \<longleftrightarrow> xs = []"
    using preference_perm(2) [OF assms(1) h] dchain_rel_indices(2) [OF assms(8)] by (cases xs) (auto simp: find_None_iff)
  then show ?thesis using cht_find [OF assms(1) v' assms(8), of hash] by auto
qed

lemma demo_two_alive:
  obtains i k ch where "dchain_rel 3 ch [(i, 10), (k, 11)]" "i \<noteq> k" "i < 3" "k < 3"
proof -
  obtain i c1 where 1: "i < 3" "dchain_rel 3 c1 [(i, 10)]" using dc.alloc_room [OF demo_chain, of 10] by auto
  obtain k c2 where "k < 3" "k \<noteq> i" "dchain_rel 3 c2 [(i, 10), (k, 11)]" using dc.alloc_room [OF 1(2), of 11] by auto
  then show ?thesis using that 1(1) by blast
qed

theorem cht_finds_first_alive_witness:
  "\<exists>v'. cht_fill_cht demo_cht 5 3 (Some (replicate 15 9)) (Some (replicate 5 9)) = Some (1, v') \<and>
    cht_find_preferred_available_backend 12 v' demo_chain 5 3 = Some None"
proof -
  obtain v' where v': "cht_fill_cht demo_cht 5 3 (Some (replicate 15 9)) (Some (replicate 5 9)) = Some (1, v')"
    using cht_fill [of 5 3 demo_cht "replicate 15 9" "replicate 5 9"] demo_cht by (auto simp: cht_vector_def)
  have "cht_find_preferred_available_backend 12 v' demo_chain 5 3 = Some None \<longleftrightarrow> ([] :: (nat \<times> nat) list) = []"
    by (rule cht_finds_first_alive [OF demo_cht _ _ v' demo_chain, THEN conjunct2]) simp_all
  then show ?thesis using v' by blast
qed

text \<open>C13. Minimal disruption: when a backend other than the one chosen for a hash is released, the hash
  keeps its choice.\<close>

theorem cht_minimal_disruption:
  assumes "cht_dims h cap" "vector_wf v" "elem_size v = 4" "vcapacity v = h * cap" "length p = h * cap" "length n = h"
    and "cht_fill_cht v h cap (Some p) (Some n) = Some (1, v')" "dchain_rel cap ch xs"
    and "cht_find_preferred_available_backend hash v' ch h cap = Some (Some c)"
    and "b < cap" "dchain_free_index ch (int b) = Some (True, ch')" "int b \<noteq> c"
  shows "cht_find_preferred_available_backend hash v' ch' h cap = Some (Some c)"
proof -
  have v': "cht_filled h cap v'" using cht_fill [OF assms(1) _ assms(5,6), of v] assms by (auto simp: cht_vector_def)
  let ?pr = "preference h cap (hash mod h)"
  have "map_option int (find (\<lambda>j. j \<in> fst ` set xs) ?pr) = Some c"
    using cht_find [OF assms(1) v' assms(8), of hash] assms(9) by (simp only: option.inject)
  then obtain c' where c: "find (\<lambda>j. j \<in> fst ` set xs) ?pr = Some c'" "c = int c'" by auto
  obtain zs where zs: "dchain_rel cap ch' zs" "fst ` set zs = fst ` set xs - {b}"
    using dchain_free_rel [OF assms(8,10,11)] by blast
  have "c' \<in> fst ` set xs" using c(1) by (auto simp: find_Some_iff)
  then have "find (\<lambda>j. j \<in> fst ` set zs) ?pr = Some c'"
    using find_narrow [OF c(1)] zs(2) assms(12) c(2) by auto
  then show ?thesis using cht_find [OF assms(1) v' zs(1), of hash] c(2) by simp
qed

theorem cht_minimal_disruption_witness:
  "\<exists>v' ch b c ch'. cht_fill_cht demo_cht 5 3 (Some (replicate 15 9)) (Some (replicate 5 9)) = Some (1, v') \<and>
    dchain_free_index ch (int b) = Some (True, ch') \<and> int b \<noteq> c \<and>
    cht_find_preferred_available_backend 12 v' ch' 5 3 = Some (Some c)"
proof -
  obtain v' where v': "cht_fill_cht demo_cht 5 3 (Some (replicate 15 9)) (Some (replicate 5 9)) = Some (1, v')" "cht_filled 5 3 v'"
    using cht_fill [of 5 3 demo_cht "replicate 15 9" "replicate 5 9"] demo_cht by (auto simp: cht_vector_def)
  obtain i k ch where ch: "dchain_rel 3 ch [(i, 10), (k, 11)]" "i \<noteq> k" "i < 3" "k < 3" by (rule demo_two_alive)
  have "\<exists>j \<in> set (preference 5 3 (12 mod 5)). j \<in> {i, k}" using preference_perm(2) [OF demo_cht(1), of "12 mod 5"] ch(3) by auto
  then obtain c where c: "find (\<lambda>j. j \<in> {i, k}) (preference 5 3 (12 mod 5)) = Some c"
    by (metis find_None_iff option.exhaust)
  then have f: "cht_find_preferred_available_backend 12 v' ch 5 3 = Some (Some (int c))"
    using cht_find [OF demo_cht(1) v'(2) ch(1), of 12] by simp
  have "c \<in> {i, k}" using c by (auto simp: find_Some_iff)
  then obtain b where b: "b < 3" "b \<in> {i, k}" "b \<noteq> c" using ch by auto
  then obtain ch' where fr: "dchain_free_index ch (int b) = Some (True, ch')"
    using dchain_free_ok [OF ch(1), of b] by auto
  have "cht_find_preferred_available_backend 12 v' ch' 5 3 = Some (Some (int c))"
    by (rule cht_minimal_disruption [OF demo_cht _ _ v'(1) ch(1) f b(1) fr]) (use b(3) in simp_all)
  then show ?thesis using v'(1) fr b(3) by (metis of_nat_eq_iff)
qed

end
