(* ===== verification/Mica_Pool.thy ===== *)
theory Mica_Pool
  imports Vector
begin

section \<open>The log of items of mica: alloc\_pool.c\<close>

text \<open>
  Items are appended at the tail of a circular log; the oldest ones are given up when there is no
  room. Head and tail count bytes modulo \<open>2 ^ 64\<close>, the memory is addressed by the count modulo
  the size, and it is mapped a second time behind its end, so that an item may run over it. A pointer
  into the pool is the distance from \<^verbatim>\<open>data\<close>; an access beyond the second mapping is \<open>None\<close>. A
  failed \<^verbatim>\<open>assert\<close> and a lock that is never released are \<open>None\<close> as well.
\<close>

subsection \<open>The code\<close>

definition ROUNDUP8 :: "nat \<Rightarrow> nat" where
  "ROUNDUP8 x = (x + 7) div 8 * 8"

definition ITEM_OFFSET_MASK :: nat where
  "ITEM_OFFSET_MASK = 2 ^ 40 - 1"

definition MINIMUM_POOL_SIZE :: nat where
  "MINIMUM_POOL_SIZE = 2097152"

record pool =
  pool_mode :: nat
  pool_lock :: nat
  pool_data :: "nat \<Rightarrow> 8 word"
  pool_size :: nat
  pool_mask :: nat
  head :: nat
  tail :: nat

definition pool_load :: "pool \<Rightarrow> nat \<Rightarrow> nat \<Rightarrow> bytes option" where
  "pool_load p a k =
     (if a + k \<le> pool_size p + MINIMUM_POOL_SIZE
      then Some (map (\<lambda>j. pool_data p ((a + j) mod pool_size p)) [0..<k]) else None)"

definition pool_store :: "pool \<Rightarrow> nat \<Rightarrow> bytes \<Rightarrow> pool option" where
  "pool_store p a bs =
     (if a + length bs \<le> pool_size p + MINIMUM_POOL_SIZE
      then Some (p\<lparr>pool_data := (\<lambda>i.
        let j = (i + (pool_size p - a mod pool_size p)) mod pool_size p
        in if i < pool_size p \<and> j < length bs then bs ! j else pool_data p i)\<rparr>)
      else None)"

function next_power_of_two_from :: "nat \<Rightarrow> nat \<Rightarrow> nat option" where
  "next_power_of_two_from s v =
    (if 64 \<le> s then None else if 2 ^ s < v then next_power_of_two_from (Suc s) v else Some (2 ^ s))"
  by pat_completeness auto
termination
  by (relation "measure (\<lambda>(s, v). 64 - s)") auto

declare next_power_of_two_from.simps [simp del]

definition mehcached_next_power_of_two :: "nat \<Rightarrow> nat option" where
  "mehcached_next_power_of_two v = next_power_of_two_from 0 v"

definition mehcached_shm_adjust_size :: "nat \<Rightarrow> nat" where
  "mehcached_shm_adjust_size x = (x + 2097151) mod 2 ^ 64 div 2097152 * 2097152"

text \<open>\<open>fresh\<close> is what the mapped huge pages hold, \<open>None\<close> when they cannot be had.\<close>

definition mehcached_pool_init :: "(nat \<Rightarrow> 8 word) option \<Rightarrow> nat \<Rightarrow> bool \<Rightarrow> bool \<Rightarrow> pool option" where
  "mehcached_pool_init fresh size_arg concurrent_alloc_read concurrent_alloc_write = do {
     let sz = (if size_arg < MINIMUM_POOL_SIZE then MINIMUM_POOL_SIZE else size_arg);
     sz \<leftarrow> mehcached_next_power_of_two (mehcached_shm_adjust_size sz);
     if \<not> sz \<le> ITEM_OFFSET_MASK div 2 \<or> sz \<noteq> mehcached_shm_adjust_size sz then None
     else do {
       data \<leftarrow> fresh;
       Some \<lparr>pool_mode = (if \<not> concurrent_alloc_read then 0 else if \<not> concurrent_alloc_write then 1 else 2),
         pool_lock = 0, pool_data = data, pool_size = sz, pool_mask = sz - 1, head = 0, tail = 0\<rparr>
     }
   }"

definition mehcached_pool_reset :: "pool \<Rightarrow> pool" where
  "mehcached_pool_reset p = p\<lparr>head := 0, tail := 0\<rparr>"

definition mehcached_pool_lock :: "pool \<Rightarrow> pool option" where
  "mehcached_pool_lock p =
     (if pool_mode p = 2 then (if pool_lock p = 0 then Some (p\<lparr>pool_lock := 1\<rparr>) else None) else Some p)"

definition mehcached_pool_unlock :: "pool \<Rightarrow> pool option" where
  "mehcached_pool_unlock p =
     (if pool_mode p = 2 then (if pool_lock p AND 1 = 1 then Some (p\<lparr>pool_lock := 0\<rparr>) else None) else Some p)"

definition mehcached_pool_item :: "pool \<Rightarrow> nat \<Rightarrow> nat" where
  "mehcached_pool_item p pool_offset = pool_offset AND pool_mask p"

definition mehcached_pool_check_invariants :: "pool \<Rightarrow> bool" where
  "mehcached_pool_check_invariants p \<longleftrightarrow> (tail p + 2 ^ 64 - head p) mod 2 ^ 64 \<le> pool_size p"

definition mehcached_pool_pop_head :: "pool \<Rightarrow> pool option" where
  "mehcached_pool_pop_head p = do {
     item_size \<leftarrow> pool_load p (mehcached_pool_item p (head p)) 8;
     let p = p\<lparr>head := (head p + le_val item_size) mod 2 ^ 64\<rparr>;
     if mehcached_pool_check_invariants p then Some p else None
   }"

partial_function (option) pop_while :: "nat \<Rightarrow> pool \<Rightarrow> pool option" where
  "pop_while v p =
    (if (head p + pool_size p) mod 2 ^ 64 < v
     then Option.bind (mehcached_pool_pop_head p) (\<lambda>p. pop_while v p)
     else Some p)"

definition mehcached_pool_push_tail :: "pool \<Rightarrow> nat \<Rightarrow> (nat \<times> pool) option" where
  "mehcached_pool_push_tail p item_size =
     (if item_size \<noteq> ROUNDUP8 item_size \<or> \<not> item_size \<le> pool_size p then None
      else do {
        let item_offset = tail p;
        let v = (item_offset + item_size) mod 2 ^ 64;
        p \<leftarrow> pop_while v p;
        p \<leftarrow> pool_store p (mehcached_pool_item p item_offset) (le_bytes 8 item_size);
        let p = p\<lparr>tail := (tail p + item_size) mod 2 ^ 64\<rparr>;
        if mehcached_pool_check_invariants p then Some (item_offset AND ITEM_OFFSET_MASK, p) else None
      })"

definition mehcached_pool_allocate :: "pool \<Rightarrow> nat \<Rightarrow> (nat \<times> pool) option" where
  "mehcached_pool_allocate p item_size = mehcached_pool_push_tail p item_size"

definition mehcached_pool_is_valid :: "pool \<Rightarrow> nat \<Rightarrow> bool" where
  "mehcached_pool_is_valid p pool_offset \<longleftrightarrow>
     (tail p + 2 ^ 64 - pool_offset) mod 2 ^ 64 AND ITEM_OFFSET_MASK \<le> pool_size p"

subsection \<open>Logical addresses\<close>

text \<open>The bytes at a count, wherever the circular memory holds them.\<close>

definition pbytes :: "pool \<Rightarrow> nat \<Rightarrow> nat \<Rightarrow> bytes" where
  "pbytes p x k = map (\<lambda>j. pool_data p ((x + j) mod pool_size p)) [0..<k]"

definition pool_geom :: "pool \<Rightarrow> bool" where
  "pool_geom p \<longleftrightarrow> (\<exists>n. pool_size p = 2 ^ n) \<and> pool_mask p = pool_size p - 1 \<and>
     MINIMUM_POOL_SIZE \<le> pool_size p \<and> pool_size p \<le> ITEM_OFFSET_MASK div 2"

lemma pool_geomD:
  assumes "pool_geom p"
  shows "0 < pool_size p" "2097152 \<le> pool_size p" "pool_size p < 549755813888"
    "mehcached_pool_item p x = x mod pool_size p"
proof -
  obtain n where n: "pool_size p = 2 ^ n" "pool_mask p = pool_size p - 1" using assms by (auto simp: pool_geom_def)
  show "0 < pool_size p" by (simp add: n)
  show "2097152 \<le> pool_size p" "pool_size p < 549755813888"
    using assms by (simp_all add: pool_geom_def MINIMUM_POOL_SIZE_def ITEM_OFFSET_MASK_def)
  show "mehcached_pool_item p x = x mod pool_size p"
    using take_bit_eq_mask [of n x] by (simp add: mehcached_pool_item_def n mask_eq_exp_minus_1 take_bit_eq_mod)
qed

lemma pool_load_logical:
  assumes "pool_geom p" "k \<le> MINIMUM_POOL_SIZE"
  shows "pool_load p (mehcached_pool_item p x) k = Some (pbytes p x k)"
proof -
  have "x mod pool_size p + k \<le> pool_size p + MINIMUM_POOL_SIZE"
    using mod_less_divisor [OF pool_geomD(1) [OF assms(1)], of x] assms(2) by linarith
  then show ?thesis by (simp add: pool_load_def pool_geomD(4) [OF assms(1)] pbytes_def mod_add_left_eq)
qed

lemma circ_inverse:
  assumes "0 < (s :: nat)"
  shows "((x + j) mod s + (s - x mod s)) mod s = j mod s"
    and "i < s \<Longrightarrow> (x + (i + (s - x mod s)) mod s) mod s = i"
proof -
  have le: "x mod s \<le> s" using assms by (simp add: less_imp_le)
  have "((x + j) mod s + (s - x mod s)) mod s = (x + j + (s - x mod s)) mod s" by (simp add: mod_add_left_eq)
  also have "\<dots> = (x mod s + j + (s - x mod s)) mod s"
    by (metis (no_types, lifting) add.assoc mod_add_left_eq)
  also have "x mod s + j + (s - x mod s) = j + s" using le by simp
  finally show "((x + j) mod s + (s - x mod s)) mod s = j mod s" by simp
  assume i: "i < s"
  have "(x + (i + (s - x mod s)) mod s) mod s = (x mod s + (i + (s - x mod s))) mod s"
    by (metis mod_add_eq mod_add_left_eq)
  also have "x mod s + (i + (s - x mod s)) = i + s" using le by simp
  finally show "(x + (i + (s - x mod s)) mod s) mod s = i" using i by simp
qed

lemma circ_apart:
  assumes "x < y" "y < x + (s :: nat)"
  shows "x mod s \<noteq> y mod s"
proof
  assume "x mod s = y mod s"
  then have "s dvd y - x" using assms(1) by (metis less_imp_le mod_eq_dvd_iff_nat)
  then show False using assms by (auto dest: dvd_imp_le)
qed

lemma pool_store_logical:
  assumes g: "pool_geom p" and len: "length bs \<le> MINIMUM_POOL_SIZE"
  shows "\<exists>p'. pool_store p (mehcached_pool_item p x) bs = Some p' \<and>
    p' = p\<lparr>pool_data := pool_data p'\<rparr> \<and> pbytes p' x (length bs) = bs \<and>
    (\<forall>y k. x + length bs \<le> y \<and> y + k \<le> x + pool_size p \<or> y + k \<le> x \<and> x + length bs \<le> y + pool_size p \<longrightarrow>
      pbytes p' y k = pbytes p y k)"
proof -
  let ?s = "pool_size p"
  note s = pool_geomD [OF g]
  let ?d = "\<lambda>i. let j = (i + (?s - x mod ?s mod ?s)) mod ?s in if i < ?s \<and> j < length bs then bs ! j else pool_data p i"
  let ?p = "p\<lparr>pool_data := ?d\<rparr>"
  have fits: "x mod ?s + length bs \<le> ?s + MINIMUM_POOL_SIZE"
    using mod_less_divisor [OF s(1), of x] len by linarith
  have ls: "length bs \<le> ?s" using len s(2) by (simp add: MINIMUM_POOL_SIZE_def)
  have st: "pool_store p (mehcached_pool_item p x) bs = Some ?p"
    using fits by (simp add: pool_store_def s(4))
  have "pbytes ?p x (length bs) = bs"
    using circ_inverse(1) [OF s(1), of x] ls s(1)
    by (intro nth_equalityI) (auto simp: pbytes_def Let_def)
  moreover have same: "pbytes ?p y k = pbytes p y k"
    if apart: "\<And>i j. i < k \<Longrightarrow> j < length bs \<Longrightarrow> (x + j) mod ?s \<noteq> (y + i) mod ?s" for y k
  proof -
    have "?d ((y + i) mod ?s) = pool_data p ((y + i) mod ?s)" if "i < k" for i
      using circ_inverse(2) [OF s(1), of "(y + i) mod ?s" x] apart [OF that] s(1) by (auto simp: Let_def)
    then show ?thesis by (simp add: pbytes_def)
  qed
  moreover have "pbytes ?p y k = pbytes p y k" if "x + length bs \<le> y" "y + k \<le> x + ?s" for y k
    using that by (intro same circ_apart) auto
  moreover have "pbytes ?p y k = pbytes p y k" if "y + k \<le> x" "x + length bs \<le> y + ?s" for y k
    using that by (intro same circ_apart [symmetric]) auto
  moreover have "?p = p\<lparr>pool_data := pool_data ?p\<rparr>" by simp
  ultimately show ?thesis using st by blast
qed

subsection \<open>The log\<close>

text \<open>The items between two counts, one behind the other, oldest first.\<close>

fun in_line :: "nat \<Rightarrow> (nat \<times> nat) list \<Rightarrow> nat \<Rightarrow> bool" where
  "in_line h [] t \<longleftrightarrow> h = t"
| "in_line h ((x, n) # xs) t \<longleftrightarrow> x = h \<and> 8 \<le> n \<and> in_line (h + n) xs t"

definition pool_log :: "pool \<Rightarrow> (nat \<times> nat) list \<Rightarrow> bool" where
  "pool_log p xs \<longleftrightarrow> pool_geom p \<and> in_line (head p) xs (tail p) \<and> tail p \<le> head p + pool_size p \<and>
     (\<forall>(x, n) \<in> set xs. le_val (pbytes p x 8) = n)"

lemma in_line_le: "in_line h xs t \<Longrightarrow> h \<le> t"
  by (induction h xs t rule: in_line.induct) auto

lemma in_line_item: "in_line h xs t \<Longrightarrow> (x, n) \<in> set xs \<Longrightarrow> h \<le> x \<and> x + n \<le> t \<and> 8 \<le> n"
  by (induction h xs t rule: in_line.induct) (auto dest: in_line_le)

lemma in_line_append: "in_line h (xs @ ys) t \<longleftrightarrow> (\<exists>m. in_line h xs m \<and> in_line m ys t)"
  by (induction h xs t rule: in_line.induct) auto

lemma in_line_unique: "in_line h xs t \<Longrightarrow> (x, n) \<in> set xs \<Longrightarrow> (x, m) \<in> set xs \<Longrightarrow> n = m"
proof (induction h xs t rule: in_line.induct)
  case (2 h y k xs t)
  then show ?case using in_line_item [of "h + k" xs t] by fastforce
qed simp

lemma in_line_drop: "in_line h xs t \<Longrightarrow> k \<le> length xs \<Longrightarrow> \<exists>m. in_line h (take k xs) m \<and> in_line m (drop k xs) t"
  using in_line_append [of h "take k xs" "drop k xs" t] by simp

lemma check_invariants_iff:
  "h \<le> tail p \<Longrightarrow> head p = h \<Longrightarrow> tail p < 2 ^ 64 \<Longrightarrow>
    mehcached_pool_check_invariants p \<longleftrightarrow> tail p \<le> h + pool_size p"
proof -
  assume a: "h \<le> tail p" "head p = h" "tail p < 2 ^ 64"
  then have "tail p + 2 ^ 64 - head p = (tail p - h) + 2 ^ 64" by simp
  then have "(tail p + 2 ^ 64 - head p) mod 2 ^ 64 = (tail p - h) mod 2 ^ 64" by (simp only: mod_add_self2)
  also have "\<dots> = tail p - h" using a by (intro mod_less) simp
  finally have "(tail p + 2 ^ 64 - head p) mod 2 ^ 64 = tail p - h" .
  then show ?thesis using a by (auto simp: mehcached_pool_check_invariants_def)
qed

lemma head_same [simp]: "p\<lparr>head := head p\<rparr> = p"
  by (cases p) simp

lemma pool_geom_cong:
  "pool_size p' = pool_size p \<Longrightarrow> pool_mask p' = pool_mask p \<Longrightarrow> pool_geom p' = pool_geom p"
  by (simp add: pool_geom_def)

lemma pbytes_cong:
  "pool_size p' = pool_size p \<Longrightarrow> pool_data p' = pool_data p \<Longrightarrow> pbytes p' = pbytes p"
  by (simp add: pbytes_def fun_eq_iff)

lemma length_pbytes [simp]: "length (pbytes p x k) = k"
  by (simp add: pbytes_def)

lemma pop_while_pops:
  assumes "pool_log p xs" "tail p < 2 ^ 40" "v \<le> tail p + pool_size p"
  shows "\<exists>k h. k \<le> length xs \<and> pop_while v p = Some (p\<lparr>head := h\<rparr>) \<and> pool_log (p\<lparr>head := h\<rparr>) (drop k xs) \<and>
    v \<le> h + pool_size p \<and> head p \<le> h \<and> (\<forall>(x, n) \<in> set (take k xs). x + pool_size p < v)"
  using assms
proof (induction xs arbitrary: p)
  case Nil
  have g: "pool_geom p" "tail p = head p" using Nil.prems(1) by (simp_all add: pool_log_def)
  have "head p + pool_size p < 2 ^ 64" using g(2) Nil.prems(2) pool_geomD(3) [OF g(1)] by simp
  then have "pop_while v p = Some p" using Nil.prems(3) g(2) by (subst pop_while.simps) simp
  then show ?case using Nil.prems g by (rule_tac exI [of _ 0], rule_tac exI [of _ "head p"]) simp
next
  case (Cons i xs)
  obtain x n where i: "i = (x, n)" by (cases i)
  have l: "pool_geom p" "x = head p" "8 \<le> n" "in_line (head p + n) xs (tail p)"
    "tail p \<le> head p + pool_size p" "le_val (pbytes p x 8) = n"
    using Cons.prems(1) by (auto simp: pool_log_def i)
  note lt = in_line_le [OF l(4)]
  have m: "(head p + pool_size p) mod 2 ^ 64 = head p + pool_size p"
    using lt Cons.prems(2) pool_geomD(3) [OF l(1)] by simp
  show ?case
  proof (cases "head p + pool_size p < v")
    case False
    then have "pop_while v p = Some p" by (subst pop_while.simps) (simp only: m if_False not_False_eq_True)
    then show ?thesis using Cons.prems False by (rule_tac exI [of _ 0], rule_tac exI [of _ "head p"]) simp
  next
    case True
    let ?p = "p\<lparr>head := head p + n\<rparr>"
    have "mehcached_pool_check_invariants ?p"
      using check_invariants_iff [of "head p + n" ?p] lt l(5) Cons.prems(2) by simp
    moreover have "(head p + n) mod 2 ^ 64 = head p + n" using lt Cons.prems(2) by simp
    moreover have "pool_load p (mehcached_pool_item p (head p)) 8 = Some (pbytes p (head p) 8)"
      by (rule pool_load_logical [OF l(1)]) (simp add: MINIMUM_POOL_SIZE_def)
    ultimately have pop: "mehcached_pool_pop_head p = Some ?p"
      using l(6) by (simp add: mehcached_pool_pop_head_def l(2) Let_def)
    have log: "pool_log ?p xs"
      using Cons.prems(1) l(4,5) by (auto simp: pool_log_def i pool_geom_cong [of ?p p] pbytes_cong [of ?p p])
    from Cons.IH [OF log] Cons.prems(2,3) obtain k h where k: "k \<le> length xs"
      "pop_while v ?p = Some (p\<lparr>head := h\<rparr>)" "pool_log (p\<lparr>head := h\<rparr>) (drop k xs)"
      "v \<le> h + pool_size p" "head p + n \<le> h" "\<forall>(x, n) \<in> set (take k xs). x + pool_size p < v" by auto
    have "pop_while v p = Some (p\<lparr>head := h\<rparr>)"
      using True pop k(2) by (subst pop_while.simps) (simp add: m)
    then show ?thesis
      using k True by (rule_tac exI [of _ "Suc k"], rule_tac exI [of _ h]) (auto simp: i l(2))
  qed
qed

lemma pool_push:
  assumes log: "pool_log p xs" and n: "n = ROUNDUP8 n" "8 \<le> n" "n \<le> pool_size p" "tail p + n < 2 ^ 40"
  obtains p' k where "mehcached_pool_allocate p n = Some (tail p, p')" "k \<le> length xs"
    "pool_log p' (drop k xs @ [(tail p, n)])" "tail p' = tail p + n" "head p \<le> head p'"
    "p' = p\<lparr>pool_data := pool_data p', head := head p', tail := tail p'\<rparr>"
    "\<And>x m. (x, m) \<in> set (take k xs) \<Longrightarrow> x + pool_size p < tail p'"
    "\<And>x m j. (x, m) \<in> set (drop k xs) \<Longrightarrow> j \<le> m \<Longrightarrow> pbytes p' x j = pbytes p x j"
    "pbytes p' (tail p) 8 = le_bytes 8 n"
proof -
  have g: "pool_geom p" using log by (simp add: pool_log_def)
  note s = pool_geomD [OF g]
  have t: "tail p < 2 ^ 40" "(tail p + n) mod 2 ^ 64 = tail p + n" using n(4) by simp_all
  obtain k h where k: "k \<le> length xs" "pop_while (tail p + n) p = Some (p\<lparr>head := h\<rparr>)"
    "pool_log (p\<lparr>head := h\<rparr>) (drop k xs)" "tail p + n \<le> h + pool_size p" "head p \<le> h"
    "\<forall>(x, m) \<in> set (take k xs). x + pool_size p < tail p + n"
    using pop_while_pops [OF log t(1), of "tail p + n"] n(3) by auto
  have g1: "pool_geom (p\<lparr>head := h\<rparr>)" using k(3) by (simp add: pool_log_def)
  have line: "in_line h (drop k xs) (tail p)" using k(3) by (simp add: pool_log_def)
  have l8: "length (le_bytes 8 n) \<le> MINIMUM_POOL_SIZE" by (simp add: MINIMUM_POOL_SIZE_def)
  obtain p1 where q: "pool_store (p\<lparr>head := h\<rparr>) (mehcached_pool_item (p\<lparr>head := h\<rparr>) (tail p)) (le_bytes 8 n) = Some p1"
    "p1 = (p\<lparr>head := h\<rparr>)\<lparr>pool_data := pool_data p1\<rparr>" "pbytes p1 (tail p) (length (le_bytes 8 n)) = le_bytes 8 n"
    "\<forall>y j. tail p + length (le_bytes 8 n) \<le> y \<and> y + j \<le> tail p + pool_size (p\<lparr>head := h\<rparr>) \<or>
      y + j \<le> tail p \<and> tail p + length (le_bytes 8 n) \<le> y + pool_size (p\<lparr>head := h\<rparr>) \<longrightarrow>
      pbytes p1 y j = pbytes (p\<lparr>head := h\<rparr>) y j"
    using pool_store_logical [OF g1 l8, of "tail p"] by blast
  have p1: "pool_store (p\<lparr>head := h\<rparr>) (mehcached_pool_item (p\<lparr>head := h\<rparr>) (tail p)) (le_bytes 8 n) = Some p1"
    "p1 = p\<lparr>head := h, pool_data := pool_data p1\<rparr>" "pbytes p1 (tail p) 8 = le_bytes 8 n"
    "\<And>y j. y + j \<le> tail p \<Longrightarrow> tail p + 8 \<le> y + pool_size p \<Longrightarrow> pbytes p1 y j = pbytes p y j"
    using q by (simp_all add: pbytes_cong [of "p\<lparr>head := h\<rparr>" p])
  let ?p = "p1\<lparr>tail := tail p + n\<rparr>"
  have f: "head p1 = h" "tail p1 = tail p" "pool_size p1 = pool_size p" "pool_mask p1 = pool_mask p"
    by (subst p1(2), simp)+
  have inv: "mehcached_pool_check_invariants ?p"
    using check_invariants_iff [of h ?p] in_line_le [OF line] k(4) n(4) by (simp add: f)
  have m: "tail p AND ITEM_OFFSET_MASK = tail p"
    using take_bit_eq_mask [of 40 "tail p"] t(1) by (simp add: ITEM_OFFSET_MASK_def mask_eq_exp_minus_1 take_bit_nat_eq_self)
  have alloc: "mehcached_pool_allocate p n = Some (tail p, ?p)"
    using n k(2) p1(1) inv m f t(2)
    by (simp add: mehcached_pool_allocate_def mehcached_pool_push_tail_def Let_def)
  have keep: "pbytes ?p x j = pbytes p x j" if "(x, m) \<in> set (drop k xs)" "j \<le> m" for x m j
    using in_line_item [OF line that(1)] that(2) k(4) n(2) p1(4) [of x j]
    by (simp add: pbytes_cong [of ?p p1])
  have "pool_log ?p (drop k xs @ [(tail p, n)])"
  proof -
    have "le_val (pbytes ?p x 8) = m" if "(x, m) \<in> set (drop k xs)" for x m
      using keep [OF that, of 8] in_line_item [OF line that] k(3) that
      by (auto simp: pool_log_def pbytes_cong [of "p\<lparr>head := h\<rparr>" p])
    moreover have "le_val (pbytes ?p (tail p) 8) = n"
      using p1(3) n(4) by (simp add: pbytes_cong [of ?p p1] le_val_le_bytes)
    moreover have "pool_geom ?p" using g by (simp add: f pool_geom_cong [of ?p p])
    ultimately show ?thesis
      using k(4) line n(2) by (auto simp: pool_log_def f in_line_append)
  qed
  moreover have "?p = p\<lparr>pool_data := pool_data ?p, head := head ?p, tail := tail ?p\<rparr>"
    by (cases p, cases p1) (use p1(2) in simp)
  moreover have "pbytes ?p (tail p) 8 = le_bytes 8 n" using p1(3) by (simp add: pbytes_cong [of ?p p1])
  ultimately show thesis
    using alloc k(1,5,6) keep
    by (intro that [of ?p k]) (auto simp: f)
qed

lemma valid_iff:
  assumes "pool_geom p" "x \<le> tail p" "tail p < 2 ^ 40"
  shows "mehcached_pool_is_valid p x \<longleftrightarrow> tail p \<le> x + pool_size p"
proof -
  have "tail p + 2 ^ 64 - x = (tail p - x) + 2 ^ 64" using assms(2) by simp
  then have "(tail p + 2 ^ 64 - x) mod 2 ^ 64 = (tail p - x) mod 2 ^ 64" by (simp only: mod_add_self2)
  also have "\<dots> = tail p - x" using assms by (intro mod_less) simp
  finally have "(tail p + 2 ^ 64 - x) mod 2 ^ 64 = tail p - x" .
  moreover have "(tail p - x) AND ITEM_OFFSET_MASK = tail p - x"
    using take_bit_eq_mask [of 40 "tail p - x"] assms
    by (simp add: ITEM_OFFSET_MASK_def mask_eq_exp_minus_1 take_bit_nat_eq_self)
  ultimately show ?thesis by (auto simp: mehcached_pool_is_valid_def)
qed

lemma pool_log_item:
  assumes "pool_log p xs" "(x, n) \<in> set xs"
  shows "head p \<le> x" "x + n \<le> tail p" "8 \<le> n" "n \<le> pool_size p" "tail p \<le> x + pool_size p"
  using assms in_line_item [of "head p" xs "tail p" x n] by (auto simp: pool_log_def)

lemma pool_log_line:
  assumes "pool_log p xs"
  shows "pool_geom p" "head p \<le> tail p" "tail p \<le> head p + pool_size p"
  using assms in_line_le by (auto simp: pool_log_def)

subsection \<open>Properties\<close>

text \<open>C16. The log gives up its oldest items first and only as many as needed. Allocating an item that
  fits the pool always ends and succeeds at the tail; what is left is a log: the remaining items
  and the new one. The items given up are no longer valid, the others are valid and their
  bytes untouched. (In the first terabyte of the log, before the 40 bit offsets repeat.)\<close>

theorem mica_allocate_evicts_oldest:
  assumes "pool_log p xs" "n = ROUNDUP8 n" "8 \<le> n" "n \<le> pool_size p" "tail p + n < 2 ^ 40"
  shows "\<exists>p' k. mehcached_pool_allocate p n = Some (tail p, p') \<and> k \<le> length xs \<and>
    pool_log p' (drop k xs @ [(tail p, n)]) \<and> tail p' = tail p + n \<and>
    (\<forall>(x, m) \<in> set (take k xs). \<not> mehcached_pool_is_valid p' x) \<and>
    (\<forall>(x, m) \<in> set (drop k xs). mehcached_pool_is_valid p' x \<and> pbytes p' x m = pbytes p x m)"
proof -
  obtain p' k where p': "mehcached_pool_allocate p n = Some (tail p, p')" "k \<le> length xs"
    "pool_log p' (drop k xs @ [(tail p, n)])" "tail p' = tail p + n"
    "p' = p\<lparr>pool_data := pool_data p', head := head p', tail := tail p'\<rparr>"
    "\<And>x m. (x, m) \<in> set (take k xs) \<Longrightarrow> x + pool_size p < tail p'"
    "\<And>x m j. (x, m) \<in> set (drop k xs) \<Longrightarrow> j \<le> m \<Longrightarrow> pbytes p' x j = pbytes p x j"
    using pool_push [OF assms] by metis
  have s: "pool_size p' = pool_size p" by (subst p'(5)) simp
  have t: "tail p' < 2 ^ 40" using p'(4) assms(5) by simp
  note g = pool_log_line(1) [OF p'(3)]
  have "\<not> mehcached_pool_is_valid p' x" if "(x, m) \<in> set (take k xs)" for x m
  proof -
    have "x \<le> tail p'" using p'(6) [OF that] by simp
    then show ?thesis using valid_iff [OF g _ t, of x] p'(6) [OF that] s by simp
  qed
  moreover have "mehcached_pool_is_valid p' x" if "(x, m) \<in> set (drop k xs)" for x m
    using valid_iff [OF g _ t, of x] pool_log_item [OF p'(3), of x m] that by simp
  ultimately show ?thesis using p'(1-4,7) by blast
qed

definition demo_pool :: pool where
  "demo_pool = \<lparr>pool_mode = 0, pool_lock = 0, pool_data = (\<lambda>i. 0), pool_size = 2097152, pool_mask = 2097151,
     head = 0, tail = 0\<rparr>"

lemma demo_pool_log: "pool_log demo_pool []"
proof -
  have "pool_size demo_pool = 2 ^ 21" by (simp add: demo_pool_def)
  then have "\<exists>n. pool_size demo_pool = 2 ^ n" by blast
  then show ?thesis
    by (simp add: pool_log_def pool_geom_def MINIMUM_POOL_SIZE_def ITEM_OFFSET_MASK_def) (simp add: demo_pool_def)
qed

theorem mica_allocate_evicts_oldest_witness:
  "\<exists>p'. mehcached_pool_allocate demo_pool 2097152 = Some (0, p') \<and> pool_log p' [(0, 2097152)]"
proof -
  have "2097152 = ROUNDUP8 2097152" by (simp add: ROUNDUP8_def)
  from mica_allocate_evicts_oldest [OF demo_pool_log this] show ?thesis
    by (auto simp: demo_pool_def)
qed

end
