(* ===== verification/Mica_Table.thy ===== *)
theory Mica_Table
  imports Mica_Pool
begin

section \<open>The hash table of mica: table.c\<close>

text \<open>
  The key-value store as it is compiled: items in a log, 15 items per bucket, eviction (so buckets
  have no extra buckets) and one allocator, number 0, which is also the \<open>current_alloc_id\<close> of every
  call. A slot of a bucket is a 64 bit number, the tag of the key above the 40 bit offset of the
  item, 0 for an empty slot. Buckets are modelled with the version number that serves as their lock;
  a lock that would spin for ever is \<open>None\<close>, as is a failed \<^verbatim>\<open>assert\<close> and, since no other thread
  runs, a reader that finds the version changed. Statistics and prefetches are left out.
\<close>

subsection \<open>Data\<close>

definition ITEMS_PER_BUCKET :: nat where [simp]: "ITEMS_PER_BUCKET = 15"
definition MAX_KEY_LENGTH :: nat where [simp]: "MAX_KEY_LENGTH = 255"
definition MAX_VALUE_LENGTH :: nat where [simp]: "MAX_VALUE_LENGTH = 1048575"

record mehcached_bucket =
  version :: nat
  next_extra_bucket_index :: nat
  item_vec :: "nat list"

record mehcached_table =
  alloc :: pool
  mth_threshold :: nat
  buckets :: "mehcached_bucket list"
  access_mode :: nat
  num_buckets :: nat
  num_buckets_mask :: nat
  num_extra_buckets :: nat
  free_list_head :: nat
  rshift :: nat

definition TAG :: "nat \<Rightarrow> nat" where "TAG v = drop_bit 48 v"
definition ITEM_OFFSET :: "nat \<Rightarrow> nat" where "ITEM_OFFSET v = v AND ITEM_OFFSET_MASK"
definition ITEM_VEC :: "nat \<Rightarrow> nat \<Rightarrow> nat" where "ITEM_VEC tag x = push_bit 48 tag OR x"
definition KEY_LENGTH :: "nat \<Rightarrow> nat" where "KEY_LENGTH kv = drop_bit 24 kv"
definition VALUE_LENGTH :: "nat \<Rightarrow> nat" where "VALUE_LENGTH kv = kv AND (2 ^ 24 - 1)"
definition KV_LENGTH_VEC :: "nat \<Rightarrow> nat \<Rightarrow> nat" where "KV_LENGTH_VEC kl vl = push_bit 24 kl OR vl"

definition mehcached_calc_bucket_index :: "mehcached_table \<Rightarrow> nat \<Rightarrow> nat" where
  "mehcached_calc_bucket_index t key_hash = drop_bit 16 key_hash mod 2 ^ 32 AND num_buckets_mask t"

definition mehcached_calc_tag :: "nat \<Rightarrow> nat" where
  "mehcached_calc_tag key_hash = (let tag = key_hash AND (2 ^ 16 - 1) in if tag = 0 then 1 else tag)"

subsection \<open>Versions and locks\<close>

definition mehcached_read_version_begin :: "nat \<Rightarrow> mehcached_bucket \<Rightarrow> nat option" where
  "mehcached_read_version_begin md b =
     (if md \<noteq> 0 then (if version b AND 1 \<noteq> 0 then None else Some (version b)) else Some 0)"

definition mehcached_read_version_end :: "nat \<Rightarrow> mehcached_bucket \<Rightarrow> nat" where
  "mehcached_read_version_end md b = (if md \<noteq> 0 then version b else 0)"

definition mehcached_lock_bucket :: "nat \<Rightarrow> mehcached_bucket \<Rightarrow> mehcached_bucket option" where
  "mehcached_lock_bucket md b =
     (if md = 1 then (if version b AND 1 = 0 then Some (b\<lparr>version := u32 (version b + 1)\<rparr>) else None)
      else if md = 2 then
        (if version b AND 1 = 0 then Some (b\<lparr>version := version b OR 1\<rparr>) else None)
      else Some b)"

definition mehcached_unlock_bucket :: "nat \<Rightarrow> mehcached_bucket \<Rightarrow> mehcached_bucket option" where
  "mehcached_unlock_bucket md b =
     (if md \<noteq> 0 then (if version b AND 1 = 1 then Some (b\<lparr>version := u32 (version b + 1)\<rparr>) else None)
      else Some b)"

subsection \<open>Items\<close>

text \<open>An item is a header of 24 bytes, \<open>item_size\<close> (8 bytes), \<open>kv_length_vec\<close> (4), \<open>expire_time\<close> (4) and
  \<open>key_hash\<close> (8), then the key and the value, each rounded up to 8 bytes. The source of a
  \<^verbatim>\<open>memcpy8\<close> and the argument of a \<^verbatim>\<open>memcmp8\<close> is read up to the rounded length.\<close>

definition load_word :: "pool \<Rightarrow> nat \<Rightarrow> nat \<Rightarrow> nat option" where
  "load_word p a k = map_option le_val (pool_load p a k)"

definition mehcached_memcpy8 :: "pool \<Rightarrow> nat \<Rightarrow> bytes \<Rightarrow> nat \<Rightarrow> pool option" where
  "mehcached_memcpy8 p dest src len =
     (if ROUNDUP8 len \<le> length src then pool_store p dest (take (ROUNDUP8 len) src) else None)"

definition mehcached_memcmp8 :: "pool \<Rightarrow> nat \<Rightarrow> bytes \<Rightarrow> nat \<Rightarrow> bool option" where
  "mehcached_memcmp8 p dest src len =
     (if ROUNDUP8 len \<le> length src then do {
        bs \<leftarrow> pool_load p dest (ROUNDUP8 len);
        Some (bs = take (ROUNDUP8 len) src)
      } else None)"

definition mehcached_compare_keys :: "pool \<Rightarrow> nat \<Rightarrow> nat \<Rightarrow> bytes \<Rightarrow> nat \<Rightarrow> bool option" where
  "mehcached_compare_keys p key1 key1_len key2 key2_len =
     (if key1_len = key2_len then mehcached_memcmp8 p key1 key2 key1_len else Some False)"

definition mehcached_set_item ::
  "pool \<Rightarrow> nat \<Rightarrow> nat \<Rightarrow> bytes \<Rightarrow> nat \<Rightarrow> bytes \<Rightarrow> nat \<Rightarrow> nat \<Rightarrow> pool option" where
  "mehcached_set_item p item key_hash key key_length val value_length expire_time =
     (if \<not> key_length \<le> 2 ^ 8 - 1 \<or> \<not> value_length \<le> 2 ^ 24 - 1 then None
      else do {
        p \<leftarrow> pool_store p (item + 8) (le_bytes 4 (KV_LENGTH_VEC key_length value_length));
        p \<leftarrow> pool_store p (item + 16) (le_bytes 8 key_hash);
        p \<leftarrow> pool_store p (item + 12) (le_bytes 4 expire_time);
        p \<leftarrow> mehcached_memcpy8 p (item + 24) key key_length;
        mehcached_memcpy8 p (item + 24 + ROUNDUP8 key_length) val value_length
      })"

definition mehcached_set_item_value :: "pool \<Rightarrow> nat \<Rightarrow> bytes \<Rightarrow> nat \<Rightarrow> nat \<Rightarrow> pool option" where
  "mehcached_set_item_value p item val value_length expire_time =
     (if \<not> value_length \<le> 2 ^ 24 - 1 then None
      else do {
        kv \<leftarrow> load_word p (item + 8) 4;
        let key_length = KEY_LENGTH kv;
        p \<leftarrow> pool_store p (item + 8) (le_bytes 4 (KV_LENGTH_VEC key_length value_length));
        p \<leftarrow> pool_store p (item + 12) (le_bytes 4 expire_time);
        mehcached_memcpy8 p (item + 24 + ROUNDUP8 key_length) val value_length
      })"

subsection \<open>Searching a bucket\<close>

text \<open>Each search returns the index of a slot, or \<open>ITEMS_PER_BUCKET\<close>.\<close>

function find_item_from ::
  "pool \<Rightarrow> mehcached_bucket \<Rightarrow> nat \<Rightarrow> nat \<Rightarrow> bytes \<Rightarrow> nat \<Rightarrow> nat \<Rightarrow> nat option" where
  "find_item_from p b key_hash tag key key_length i =
    (if i < ITEMS_PER_BUCKET then do {
       v \<leftarrow> arr_get (item_vec b) (int i);
       if TAG v \<noteq> tag then find_item_from p b key_hash tag key key_length (Suc i)
       else do {
         let item = mehcached_pool_item p (ITEM_OFFSET v);
         h \<leftarrow> load_word p (item + 16) 8;
         if h \<noteq> key_hash then find_item_from p b key_hash tag key key_length (Suc i)
         else do {
           kv \<leftarrow> load_word p (item + 8) 4;
           same \<leftarrow> mehcached_compare_keys p (item + 24) (KEY_LENGTH kv) key key_length;
           if \<not> same then find_item_from p b key_hash tag key key_length (Suc i)
           else Some i
         }
       }
     } else Some ITEMS_PER_BUCKET)"
  by pat_completeness auto
termination
  by (relation "measure (\<lambda>(p, b, h, tag, key, kl, i). ITEMS_PER_BUCKET - i)") auto

declare find_item_from.simps [simp del]

definition mehcached_find_item_index ::
  "pool \<Rightarrow> mehcached_bucket \<Rightarrow> nat \<Rightarrow> nat \<Rightarrow> bytes \<Rightarrow> nat \<Rightarrow> nat option" where
  "mehcached_find_item_index p b key_hash tag key key_length =
     find_item_from p b key_hash tag key key_length 0"

function find_same_tag_from :: "mehcached_bucket \<Rightarrow> nat \<Rightarrow> nat \<Rightarrow> nat option" where
  "find_same_tag_from b tag i =
    (if i < ITEMS_PER_BUCKET then do {
       v \<leftarrow> arr_get (item_vec b) (int i);
       if TAG v \<noteq> tag then find_same_tag_from b tag (Suc i) else Some i
     } else Some ITEMS_PER_BUCKET)"
  by pat_completeness auto
termination
  by (relation "measure (\<lambda>(b, tag, i). ITEMS_PER_BUCKET - i)") auto

declare find_same_tag_from.simps [simp del]

definition mehcached_find_same_tag :: "mehcached_bucket \<Rightarrow> nat \<Rightarrow> nat option" where
  "mehcached_find_same_tag b tag = find_same_tag_from b tag 0"

function find_oldest_from :: "pool \<Rightarrow> mehcached_bucket \<Rightarrow> nat \<Rightarrow> nat \<Rightarrow> nat \<Rightarrow> nat option" where
  "find_oldest_from p b oldest_item_index oldest_item_distance i =
    (if i < ITEMS_PER_BUCKET then do {
       v \<leftarrow> arr_get (item_vec b) (int i);
       if v = 0 then Some i
       else do {
         let distance = (tail p + 2 ^ 64 - ITEM_OFFSET v) mod 2 ^ 64 AND ITEM_OFFSET_MASK;
         if distance < oldest_item_distance then find_oldest_from p b i distance (Suc i)
         else find_oldest_from p b oldest_item_index oldest_item_distance (Suc i)
       }
     } else Some oldest_item_index)"
  by pat_completeness auto
termination
  by (relation "measure (\<lambda>(p, b, oi, od, i). ITEMS_PER_BUCKET - i)") auto

declare find_oldest_from.simps [simp del]

definition mehcached_find_empty_or_oldest :: "pool \<Rightarrow> mehcached_bucket \<Rightarrow> nat option" where
  "mehcached_find_empty_or_oldest p b = find_oldest_from p b 0 (2 ^ 64 - 1) 0"

subsection \<open>Cleaning\<close>

definition put_bucket :: "mehcached_table \<Rightarrow> nat \<Rightarrow> mehcached_bucket \<Rightarrow> mehcached_table" where
  "put_bucket t i b = t\<lparr>buckets := (buckets t)[i := b]\<rparr>"

definition drop_invalid :: "pool \<Rightarrow> mehcached_bucket \<Rightarrow> mehcached_bucket" where
  "drop_invalid p b = b\<lparr>item_vec :=
     map (\<lambda>v. if v \<noteq> 0 \<and> \<not> mehcached_pool_is_valid p (ITEM_OFFSET v) then 0 else v) (item_vec b)\<rparr>"

partial_function (option) cleanup_from :: "nat \<Rightarrow> nat \<Rightarrow> mehcached_table \<Rightarrow> mehcached_table option" where
  "cleanup_from bucket_index bucket_index_end t =
    (if bucket_index = bucket_index_end then Some t
     else Option.bind (arr_get (buckets t) (int bucket_index)) (\<lambda>b.
       Option.bind (mehcached_lock_bucket (access_mode t) b) (\<lambda>b.
         Option.bind (mehcached_unlock_bucket (access_mode t) (drop_invalid (alloc t) b)) (\<lambda>b.
           cleanup_from ((bucket_index + 1) AND num_buckets_mask t) bucket_index_end
             (put_bucket t bucket_index b)))))"

definition mehcached_cleanup_bucket :: "mehcached_table \<Rightarrow> nat \<Rightarrow> nat \<Rightarrow> mehcached_table option" where
  "mehcached_cleanup_bucket t old_tail new_tail =
     cleanup_from (drop_bit (rshift t) old_tail AND num_buckets_mask t)
       (drop_bit (rshift t) new_tail AND num_buckets_mask t) t"

subsection \<open>Operations\<close>

text \<open>The result of a get: the length written back, the bytes written to the caller's buffer and the
  expiry time; \<open>None\<close> inside for \<^verbatim>\<open>return false\<close>.\<close>

type_synonym get_result = "(nat \<times> bytes \<times> nat) option"

text \<open>Moving an item that is far from the tail to the tail (with the bucket and the pool locked).\<close>

definition move_to_head ::
  "mehcached_table \<Rightarrow> nat \<Rightarrow> mehcached_bucket \<Rightarrow> nat \<Rightarrow> nat \<Rightarrow> nat \<Rightarrow> mehcached_table option" where
  "move_to_head t bucket_index b item_index v item_size = do {
     b \<leftarrow> mehcached_lock_bucket (access_mode t) b;
     p \<leftarrow> mehcached_pool_lock (alloc t);
     v' \<leftarrow> arr_get (item_vec b) (int item_index);
     if v' = v then do {
       let item_offset = ITEM_OFFSET v;
       (new_item_offset, p) \<leftarrow> mehcached_pool_allocate p item_size;
       let new_tail = tail p;
       (p, b) \<leftarrow> (if mehcached_pool_is_valid p item_offset then do {
            bs \<leftarrow> pool_load p (mehcached_pool_item p item_offset) (ROUNDUP8 item_size);
            p \<leftarrow> pool_store p (mehcached_pool_item p new_item_offset) bs;
            Some (p, b\<lparr>item_vec := (item_vec b)[item_index := ITEM_VEC (TAG v) new_item_offset]\<rparr>)
          } else Some (p, b));
       p \<leftarrow> mehcached_pool_unlock p;
       b \<leftarrow> mehcached_unlock_bucket (access_mode t) b;
       mehcached_cleanup_bucket (put_bucket (t\<lparr>alloc := p\<rparr>) bucket_index b) new_item_offset new_tail
     }
     else do {
       p \<leftarrow> mehcached_pool_unlock p;
       b \<leftarrow> mehcached_unlock_bucket (access_mode t) b;
       Some (put_bucket (t\<lparr>alloc := p\<rparr>) bucket_index b)
     }
   }"

definition mehcached_get ::
  "mehcached_table \<Rightarrow> nat \<Rightarrow> bytes \<Rightarrow> nat \<Rightarrow> nat \<Rightarrow> bool \<Rightarrow> (get_result \<times> mehcached_table) option" where
  "mehcached_get t key_hash key key_length in_value_length readonly =
     (if \<not> key_length \<le> MAX_KEY_LENGTH then None
      else do {
        let bucket_index = mehcached_calc_bucket_index t key_hash;
        let tag = mehcached_calc_tag key_hash;
        b \<leftarrow> arr_get (buckets t) (int bucket_index);
        version_start \<leftarrow> mehcached_read_version_begin (access_mode t) b;
        item_index \<leftarrow> mehcached_find_item_index (alloc t) b key_hash tag key key_length;
        if version_start \<noteq> mehcached_read_version_end (access_mode t) b then None
        else if item_index = ITEMS_PER_BUCKET then Some (None, t)
        else do {
          v \<leftarrow> arr_get (item_vec b) (int item_index);
          let item_offset = ITEM_OFFSET v;
          let item = mehcached_pool_item (alloc t) item_offset;
          expire_time \<leftarrow> load_word (alloc t) (item + 12) 4;
          kv \<leftarrow> load_word (alloc t) (item + 8) 4;
          let kl = min (KEY_LENGTH kv) MAX_KEY_LENGTH;
          let vl = min (VALUE_LENGTH kv) MAX_VALUE_LENGTH;
          let item_size = u32 (24 + ROUNDUP8 kl + ROUNDUP8 vl);
          let value_length = (if in_value_length < vl then in_value_length else vl);
          out \<leftarrow> pool_load (alloc t) (item + 24 + ROUNDUP8 kl) (ROUNDUP8 value_length);
          if \<not> mehcached_pool_is_valid (alloc t) item_offset then
            (if readonly then Some (None, t)
             else do {
               b \<leftarrow> mehcached_lock_bucket (access_mode t) b;
               b \<leftarrow> mehcached_unlock_bucket (access_mode t) (b\<lparr>item_vec := (item_vec b)[item_index := 0]\<rparr>);
               Some (None, put_bucket t bucket_index b)
             })
          else if 1500 < value_length then None
          else do {
            t \<leftarrow> (if \<not> readonly
                 \<and> mth_threshold t < (tail (alloc t) + 2 ^ 64 - item_offset) mod 2 ^ 64 AND pool_mask (alloc t)
                 then move_to_head t bucket_index b item_index v item_size
                 else Some t);
            Some (Some (value_length, out, expire_time), t)
          }
        }
      })"

definition mehcached_test ::
  "mehcached_table \<Rightarrow> nat \<Rightarrow> bytes \<Rightarrow> nat \<Rightarrow> bool option" where
  "mehcached_test t key_hash key key_length =
     (if \<not> key_length \<le> MAX_KEY_LENGTH then None
      else do {
        b \<leftarrow> arr_get (buckets t) (int (mehcached_calc_bucket_index t key_hash));
        version_start \<leftarrow> mehcached_read_version_begin (access_mode t) b;
        item_index \<leftarrow> mehcached_find_item_index (alloc t) b key_hash (mehcached_calc_tag key_hash) key key_length;
        if version_start \<noteq> mehcached_read_version_end (access_mode t) b then None
        else Some (item_index \<noteq> ITEMS_PER_BUCKET)
      })"

definition mehcached_set ::
  "mehcached_table \<Rightarrow> nat \<Rightarrow> bytes \<Rightarrow> nat \<Rightarrow> bytes \<Rightarrow> nat \<Rightarrow> nat \<Rightarrow> bool \<Rightarrow> (bool \<times> mehcached_table) option" where
  "mehcached_set t key_hash key key_length val value_length expire_time overwrite =
     (if \<not> key_length \<le> MAX_KEY_LENGTH \<or> \<not> value_length \<le> MAX_VALUE_LENGTH then None
      else do {
        let bucket_index = mehcached_calc_bucket_index t key_hash;
        let tag = mehcached_calc_tag key_hash;
        b \<leftarrow> arr_get (buckets t) (int bucket_index);
        b \<leftarrow> mehcached_lock_bucket (access_mode t) b;
        found \<leftarrow> mehcached_find_item_index (alloc t) b key_hash tag key key_length;
        if found \<noteq> ITEMS_PER_BUCKET \<and> \<not> overwrite then do {
          b \<leftarrow> mehcached_unlock_bucket (access_mode t) b;
          Some (False, put_bucket t bucket_index b)
        }
        else do {
          item_index \<leftarrow> (if found \<noteq> ITEMS_PER_BUCKET then Some found
            else do {
              same \<leftarrow> mehcached_find_same_tag b tag;
              if same = ITEMS_PER_BUCKET then mehcached_find_empty_or_oldest (alloc t) b else Some same
            });
          let new_item_size = u32 (24 + ROUNDUP8 key_length + ROUNDUP8 value_length);
          p \<leftarrow> mehcached_pool_lock (alloc t);
          v \<leftarrow> arr_get (item_vec b) (int item_index);
          let item_offset = ITEM_OFFSET v;
          let item = mehcached_pool_item p item_offset;
          fits \<leftarrow> (if found \<noteq> ITEMS_PER_BUCKET \<and> mehcached_pool_is_valid p item_offset then do {
               item_size \<leftarrow> load_word p item 8;
               Some (new_item_size \<le> item_size)
             } else Some False);
          if fits then do {
            p \<leftarrow> mehcached_set_item_value p item val value_length expire_time;
            p \<leftarrow> mehcached_pool_unlock p;
            b \<leftarrow> mehcached_unlock_bucket (access_mode t) b;
            Some (True, put_bucket (t\<lparr>alloc := p\<rparr>) bucket_index b)
          }
          else do {
            (new_item_offset, p) \<leftarrow> mehcached_pool_allocate p new_item_size;
            let new_tail = tail p;
            p \<leftarrow> mehcached_set_item p (mehcached_pool_item p new_item_offset)
                  key_hash key key_length val value_length expire_time;
            p \<leftarrow> mehcached_pool_unlock p;
            b \<leftarrow> mehcached_unlock_bucket (access_mode t)
                  (b\<lparr>item_vec := (item_vec b)[item_index := ITEM_VEC tag new_item_offset]\<rparr>);
            t \<leftarrow> mehcached_cleanup_bucket (put_bucket (t\<lparr>alloc := p\<rparr>) bucket_index b) new_item_offset new_tail;
            Some (True, t)
          }
        }
      })"

definition mehcached_delete ::
  "mehcached_table \<Rightarrow> nat \<Rightarrow> bytes \<Rightarrow> nat \<Rightarrow> (bool \<times> mehcached_table) option" where
  "mehcached_delete t key_hash key key_length =
     (if \<not> key_length \<le> MAX_KEY_LENGTH then None
      else do {
        let bucket_index = mehcached_calc_bucket_index t key_hash;
        b \<leftarrow> arr_get (buckets t) (int bucket_index);
        b \<leftarrow> mehcached_lock_bucket (access_mode t) b;
        item_index \<leftarrow> mehcached_find_item_index (alloc t) b key_hash (mehcached_calc_tag key_hash) key key_length;
        if item_index = ITEMS_PER_BUCKET then do {
          b \<leftarrow> mehcached_unlock_bucket (access_mode t) b;
          Some (False, put_bucket t bucket_index b)
        }
        else do {
          b \<leftarrow> mehcached_unlock_bucket (access_mode t) (b\<lparr>item_vec := (item_vec b)[item_index := 0]\<rparr>);
          Some (True, put_bucket t bucket_index b)
        }
      })"

definition mehcached_increment ::
  "mehcached_table \<Rightarrow> nat \<Rightarrow> bytes \<Rightarrow> nat \<Rightarrow> nat \<Rightarrow> nat \<Rightarrow> (nat option \<times> mehcached_table) option" where
  "mehcached_increment t key_hash key key_length increment expire_time =
     (if \<not> key_length \<le> MAX_KEY_LENGTH then None
      else do {
        let bucket_index = mehcached_calc_bucket_index t key_hash;
        b \<leftarrow> arr_get (buckets t) (int bucket_index);
        b \<leftarrow> mehcached_lock_bucket (access_mode t) b;
        item_index \<leftarrow> mehcached_find_item_index (alloc t) b key_hash (mehcached_calc_tag key_hash) key key_length;
        let fail = (\<lambda>p. do {
          p \<leftarrow> mehcached_pool_unlock p;
          b \<leftarrow> mehcached_unlock_bucket (access_mode t) b;
          Some (None, put_bucket (t\<lparr>alloc := p\<rparr>) bucket_index b)
        });
        if item_index = ITEMS_PER_BUCKET then do {
          b \<leftarrow> mehcached_unlock_bucket (access_mode t) b;
          Some (None, put_bucket t bucket_index b)
        }
        else do {
          v \<leftarrow> arr_get (item_vec b) (int item_index);
          p \<leftarrow> mehcached_pool_lock (alloc t);
          if \<not> mehcached_pool_is_valid p (ITEM_OFFSET v) then fail p
          else do {
            let item = mehcached_pool_item p (ITEM_OFFSET v);
            kv \<leftarrow> load_word p (item + 8) 4;
            if VALUE_LENGTH kv \<noteq> 8 then fail p
            else do {
              old_value \<leftarrow> load_word p (item + 24 + ROUNDUP8 key_length) 8;
              let new_value = (old_value + increment) mod 2 ^ 64;
              p \<leftarrow> pool_store p (item + 24 + ROUNDUP8 key_length) (le_bytes 8 new_value);
              p \<leftarrow> pool_store p (item + 12) (le_bytes 4 expire_time);
              p \<leftarrow> mehcached_pool_unlock p;
              b \<leftarrow> mehcached_unlock_bucket (access_mode t) b;
              Some (Some new_value, put_bucket (t\<lparr>alloc := p\<rparr>) bucket_index b)
            }
          }
        }
      })"

subsection \<open>Set-up\<close>

definition mehcached_table_reset :: "mehcached_table \<Rightarrow> mehcached_table option" where
  "mehcached_table_reset t = do {
     let n = num_extra_buckets t;
     let bs = map (\<lambda>i. \<lparr>version = 0,
       next_extra_bucket_index =
         (if num_buckets t \<le> i \<and> i - num_buckets t + 1 < n then i - num_buckets t + 2 else 0),
       item_vec = replicate ITEMS_PER_BUCKET 0\<rparr>) [0..<num_buckets t + n];
     p \<leftarrow> mehcached_pool_lock (alloc t);
     p \<leftarrow> mehcached_pool_unlock (mehcached_pool_reset p);
     Some (t\<lparr>alloc := p, buckets := bs, free_list_head := (if n = 0 then 0 else 1)\<rparr>)
   }"

function log_num_buckets_from :: "nat \<Rightarrow> nat \<Rightarrow> nat option" where
  "log_num_buckets_from l n =
    (if 64 \<le> l then None else if 2 ^ l < n then log_num_buckets_from (Suc l) n else Some l)"
  by pat_completeness auto
termination
  by (relation "measure (\<lambda>(l, n). 64 - l)") auto

function rshift_from :: "nat \<Rightarrow> nat \<Rightarrow> nat option" where
  "rshift_from r n =
    (if 64 \<le> r then None
     else if n < drop_bit r (drop_bit 1 (ITEM_OFFSET_MASK + 1)) then rshift_from (Suc r) n else Some r)"
  by pat_completeness auto
termination
  by (relation "measure (\<lambda>(r, n). 64 - r)") auto

declare log_num_buckets_from.simps [simp del] rshift_from.simps [simp del]

text \<open>\<open>pages\<close>: the huge pages of the buckets can be mapped; \<open>fresh\<close>: those of the pool; \<open>scaled\<close>: the
  product of the size of the pool and the threshold, a floating point number.\<close>

definition mehcached_table_init ::
  "bool \<Rightarrow> (nat \<Rightarrow> 8 word) option \<Rightarrow> (nat \<Rightarrow> nat) \<Rightarrow> nat \<Rightarrow> nat \<Rightarrow> nat \<Rightarrow> bool \<Rightarrow> bool \<Rightarrow> bool \<Rightarrow> mehcached_table option" where
  "mehcached_table_init pages fresh scaled nbuckets num_pools psize
      concurrent_table_read concurrent_table_write concurrent_alloc_write =
     (if \<not> 0 < nbuckets \<or> num_pools \<noteq> 1 then None
      else do {
        l \<leftarrow> log_num_buckets_from 0 nbuckets;
        if \<not> l \<le> 32 \<or> \<not> pages then None
        else do {
          let n = u32 (2 ^ l);
          p \<leftarrow> mehcached_pool_init fresh psize concurrent_table_read concurrent_alloc_write;
          r \<leftarrow> rshift_from 0 n;
          mehcached_table_reset \<lparr>alloc = p, mth_threshold = scaled (pool_size p), buckets = [],
            access_mode = (if \<not> concurrent_table_read then 0
              else if concurrent_table_read \<and> \<not> concurrent_table_write then 1 else 2),
            num_buckets = n, num_buckets_mask = (n + 2 ^ 32 - 1) mod 2 ^ 32, num_extra_buckets = 0,
            free_list_head = 0, rshift = r\<rparr>
        }
      })"

end
