(* ===== verification/Mica_Items.thy ===== *)
theory Mica_Items
  imports Mica_Table
begin

section \<open>Items and buckets of the mica table\<close>

text \<open>
  What the operations on single items and single buckets do: the fields packed into 64 bits, the
  bytes of an item after \<open>mehcached_set_item\<close> and \<open>mehcached_set_item_value\<close>, the results of
  the searches in a bucket, the version numbers used as locks. A key is its hash, its length and its bytes up to
  the rounded length, a value its length and its bytes up to the rounded length.
\<close>

subsection \<open>Arithmetic\<close>

lemma ROUNDUP8_facts: "x \<le> ROUNDUP8 x" "ROUNDUP8 x \<le> x + 7" "8 dvd ROUNDUP8 x" "ROUNDUP8 (ROUNDUP8 x) = ROUNDUP8 x"
proof -
  show "x \<le> ROUNDUP8 x" "ROUNDUP8 x \<le> x + 7" unfolding ROUNDUP8_def by presburger+
  show "8 dvd ROUNDUP8 x" by (simp add: ROUNDUP8_def)
  show "ROUNDUP8 (ROUNDUP8 x) = ROUNDUP8 x" unfolding ROUNDUP8_def by presburger
qed

lemma ROUNDUP8_mono: "x \<le> y \<Longrightarrow> ROUNDUP8 x \<le> ROUNDUP8 y"
  unfolding ROUNDUP8_def by (intro mult_le_mono1 div_le_mono add_le_mono1)

lemma ROUNDUP8_dvd: "8 dvd x \<Longrightarrow> ROUNDUP8 x = x"
  unfolding ROUNDUP8_def by presburger

lemma or_shift:
  assumes "(x :: nat) < 2 ^ n"
  shows "push_bit n a OR x = a * 2 ^ n + x"
proof -
  have "take_bit n x = x" using assms by (simp add: take_bit_nat_eq_self)
  then have "\<not> bit x j" if "n \<le> j" for j using that by (metis bit_take_bit_iff not_less)
  then have "push_bit n a AND x = 0" by (intro bit_eqI) (auto simp: bit_and_iff bit_push_bit_iff)
  then have "push_bit n a + x = push_bit n a OR x" by (rule disjunctive_add_eq_or)
  then show ?thesis by (simp add: push_bit_eq_mult)
qed

lemma item_vec_parts:
  assumes "x < 2 ^ 40"
  shows "TAG (ITEM_VEC tag x) = tag" "ITEM_OFFSET (ITEM_VEC tag x) = x"
proof -
  have v: "ITEM_VEC tag x = tag * 2 ^ 48 + x"
    unfolding ITEM_VEC_def by (rule or_shift) (use assms in simp)
  show "TAG (ITEM_VEC tag x) = tag" using assms by (simp add: TAG_def v drop_bit_eq_div)
  have "tag * 2 ^ 48 + x = tag * 2 ^ 8 * 2 ^ 40 + x" by simp
  then have "(tag * 2 ^ 48 + x) mod 2 ^ 40 = (tag * 2 ^ 8 * 2 ^ 40 + x) mod 2 ^ 40" by (rule arg_cong)
  also have "\<dots> = x" using assms by (simp only: mod_mult_self3 mod_less)
  finally have "(tag * 2 ^ 48 + x) mod 2 ^ 40 = x" .
  then show "ITEM_OFFSET (ITEM_VEC tag x) = x"
    using take_bit_eq_mask [of 40 "tag * 2 ^ 48 + x"]
    by (simp add: ITEM_OFFSET_def v ITEM_OFFSET_MASK_def mask_eq_exp_minus_1 take_bit_eq_mod)
qed

lemma kv_parts:
  assumes "vl < 2 ^ 24"
  shows "KEY_LENGTH (KV_LENGTH_VEC kl vl) = kl" "VALUE_LENGTH (KV_LENGTH_VEC kl vl) = vl"
    "KV_LENGTH_VEC kl vl = kl * 2 ^ 24 + vl"
proof -
  show v: "KV_LENGTH_VEC kl vl = kl * 2 ^ 24 + vl"
    unfolding KV_LENGTH_VEC_def by (rule or_shift [OF assms])
  show "KEY_LENGTH (KV_LENGTH_VEC kl vl) = kl" using assms by (simp add: KEY_LENGTH_def v drop_bit_eq_div)
  show "VALUE_LENGTH (KV_LENGTH_VEC kl vl) = vl"
    using take_bit_eq_mask [of 24 "kl * 2 ^ 24 + vl"] assms
    by (simp add: VALUE_LENGTH_def v mask_eq_exp_minus_1 take_bit_eq_mod)
qed

lemma calc_tag_bounds: "mehcached_calc_tag h \<noteq> 0" "mehcached_calc_tag h < 2 ^ 16"
proof -
  have "h AND 65535 < 65536"
    using take_bit_eq_mask [of 16 h] take_bit_nat_less_exp [of 16 h] by (simp add: mask_eq_exp_minus_1)
  then show "mehcached_calc_tag h \<noteq> 0" "mehcached_calc_tag h < 2 ^ 16"
    by (simp_all add: mehcached_calc_tag_def Let_def)
qed

subsection \<open>Loads and stores inside an item\<close>

lemma load_item:
  assumes "pool_geom p" "d + k \<le> MINIMUM_POOL_SIZE"
  shows "pool_load p (mehcached_pool_item p x + d) k = Some (pbytes p (x + d) k)"
proof -
  note s = pool_geomD [OF assms(1)]
  have "x mod pool_size p + d + k \<le> pool_size p + MINIMUM_POOL_SIZE"
    using mod_less_divisor [OF s(1), of x] assms(2) by linarith
  moreover have "(x mod pool_size p + d + j) mod pool_size p = (x + d + j) mod pool_size p" for j
    by (metis add.assoc mod_add_left_eq)
  ultimately show ?thesis by (simp add: pool_load_def s(4) pbytes_def)
qed

lemma pbytes_part: "e + k \<le> m \<Longrightarrow> pbytes p (x + e) k = take k (drop e (pbytes p x m))"
  by (intro nth_equalityI) (auto simp: pbytes_def add.assoc)

definition item_frame :: "pool \<Rightarrow> pool \<Rightarrow> nat \<Rightarrow> nat \<Rightarrow> bool" where
  "item_frame p p' x n \<longleftrightarrow> p' = p\<lparr>pool_data := pool_data p'\<rparr> \<and>
     (\<forall>y k. y + k \<le> x \<and> x + n \<le> y + pool_size p \<or> x + n \<le> y \<and> y + k \<le> x + pool_size p
        \<longrightarrow> pbytes p' y k = pbytes p y k)"

lemma item_frameD:
  assumes "item_frame p p' x n"
  shows "pool_size p' = pool_size p" "pool_mask p' = pool_mask p" "tail p' = tail p" "head p' = head p"
    "pool_mode p' = pool_mode p" "pool_lock p' = pool_lock p" "pool_geom p' = pool_geom p"
    "mehcached_pool_item p' = mehcached_pool_item p"
proof -
  obtain d where e: "p' = p\<lparr>pool_data := d\<rparr>"
    using conjunct1 [OF assms [unfolded item_frame_def]] by (rule that)
  show "pool_size p' = pool_size p" "pool_mask p' = pool_mask p" "tail p' = tail p" "head p' = head p"
    "pool_mode p' = pool_mode p" "pool_lock p' = pool_lock p"
    by (simp_all add: e)
  then show "pool_geom p' = pool_geom p" "mehcached_pool_item p' = mehcached_pool_item p"
    by (simp_all add: pool_geom_def fun_eq_iff mehcached_pool_item_def)
qed

lemma item_frame_trans:
  assumes "item_frame p p1 x n" "item_frame p1 p2 x n"
  shows "item_frame p p2 x n"
proof -
  obtain d where 1: "p1 = p\<lparr>pool_data := d\<rparr>"
    using conjunct1 [OF assms(1) [unfolded item_frame_def]] by (rule that)
  obtain e where 2: "p2 = p1\<lparr>pool_data := e\<rparr>"
    using conjunct1 [OF assms(2) [unfolded item_frame_def]] by (rule that)
  have "p2 = p\<lparr>pool_data := pool_data p2\<rparr>" by (simp add: 2) (simp add: 1)
  then show ?thesis using assms item_frameD(1) [OF assms(1)] unfolding item_frame_def by metis
qed

lemma store_item:
  assumes g: "pool_geom p" and n: "d + length bs \<le> n" "n \<le> MINIMUM_POOL_SIZE"
  shows "\<exists>p'. pool_store p (mehcached_pool_item p x + d) bs = Some p' \<and> item_frame p p' x n \<and>
    pbytes p' (x + d) (length bs) = bs \<and>
    (\<forall>e k. e + k \<le> n \<and> (d + length bs \<le> e \<or> e + k \<le> d) \<longrightarrow> pbytes p' (x + e) k = pbytes p (x + e) k)"
proof -
  note s = pool_geomD [OF g]
  have "x mod pool_size p + d + length bs \<le> pool_size p + MINIMUM_POOL_SIZE"
    "(x + d) mod pool_size p + length bs \<le> pool_size p + MINIMUM_POOL_SIZE"
    using mod_less_divisor [OF s(1), of x] mod_less_divisor [OF s(1), of "x + d"] n by linarith+
  then have st: "pool_store p (mehcached_pool_item p x + d) bs = pool_store p (mehcached_pool_item p (x + d)) bs"
    by (simp add: pool_store_def s(4) mod_add_left_eq)
  have "length bs \<le> MINIMUM_POOL_SIZE" using n by simp
  from pool_store_logical [OF g this, of "x + d"] obtain p' where p':
    "pool_store p (mehcached_pool_item p (x + d)) bs = Some p'" "p' = p\<lparr>pool_data := pool_data p'\<rparr>"
    "pbytes p' (x + d) (length bs) = bs"
    "\<And>y k. x + d + length bs \<le> y \<and> y + k \<le> x + d + pool_size p \<or>
      y + k \<le> x + d \<and> x + d + length bs \<le> y + pool_size p \<Longrightarrow> pbytes p' y k = pbytes p y k" by blast
  have "item_frame p p' x n"
    unfolding item_frame_def using p'(2,4) n(1) by simp
  moreover have "pbytes p' (x + e) k = pbytes p (x + e) k"
    if "e + k \<le> n" "d + length bs \<le> e \<or> e + k \<le> d" for e k
    using that n s(2) p'(4) [of "x + e" k] by (auto simp: MINIMUM_POOL_SIZE_def)
  ultimately show ?thesis using st p'(1,3) by auto
qed

subsection \<open>Contents of an item\<close>

type_synonym mkey = "nat \<times> nat \<times> bytes"
type_synonym mval = "nat \<times> bytes"

fun item_len :: "mkey \<Rightarrow> mval \<Rightarrow> nat" where
  "item_len (kh, kl, kb) (vl, vb) = 24 + ROUNDUP8 kl + ROUNDUP8 vl"

fun holds :: "pool \<Rightarrow> nat \<Rightarrow> mkey \<Rightarrow> mval \<Rightarrow> bool" where
  "holds p x (kh, kl, kb) (vl, vb) \<longleftrightarrow> kl \<le> 255 \<and> vl \<le> 1048575 \<and>
     le_val (pbytes p x 8) = item_len (kh, kl, kb) (vl, vb) \<and>
     le_val (pbytes p (x + 8) 4) = KV_LENGTH_VEC kl vl \<and> le_val (pbytes p (x + 16) 8) = kh \<and>
     pbytes p (x + 24) (ROUNDUP8 kl) = kb \<and> pbytes p (x + 24 + ROUNDUP8 kl) (ROUNDUP8 vl) = vb"

lemma holds_copy:
  assumes "pbytes p' y (item_len k w) = pbytes p x (item_len k w)"
  shows "holds p' y k w = holds p x k w"
proof -
  obtain kh kl kb vl vb where kw: "k = (kh, kl, kb)" "w = (vl, vb)" by (cases k; cases w)
  have "pbytes p' (y + e) j = pbytes p (x + e) j" if "e + j \<le> 24 + ROUNDUP8 kl + ROUNDUP8 vl" for e j
    using assms pbytes_part [OF that] by (simp add: kw)
  from this [of 0 8] this [of 8 4] this [of 16 8] this [of 24 "ROUNDUP8 kl"] this [of "24 + ROUNDUP8 kl" "ROUNDUP8 vl"]
  show ?thesis by (simp add: kw add.assoc)
qed

lemmas holds_cong = holds_copy [where y = x and x = x for x]

lemma item_len_bounds:
  assumes "kl \<le> 255" "vl \<le> 1048575"
  shows "24 + ROUNDUP8 kl + ROUNDUP8 vl \<le> MINIMUM_POOL_SIZE" "u32 (24 + ROUNDUP8 kl + ROUNDUP8 vl) = 24 + ROUNDUP8 kl + ROUNDUP8 vl"
    "24 + ROUNDUP8 kl + ROUNDUP8 vl = ROUNDUP8 (24 + ROUNDUP8 kl + ROUNDUP8 vl)" "KV_LENGTH_VEC kl vl < 2 ^ 32"
proof -
  show "24 + ROUNDUP8 kl + ROUNDUP8 vl \<le> MINIMUM_POOL_SIZE"
    using ROUNDUP8_facts(2) [of kl] ROUNDUP8_facts(2) [of vl] assms by (simp add: MINIMUM_POOL_SIZE_def)
  then show "u32 (24 + ROUNDUP8 kl + ROUNDUP8 vl) = 24 + ROUNDUP8 kl + ROUNDUP8 vl"
    by (intro u32_small) (simp add: MINIMUM_POOL_SIZE_def)
  have "8 dvd 24 + ROUNDUP8 kl + ROUNDUP8 vl" using ROUNDUP8_facts(3) by (intro dvd_add) simp_all
  then show "24 + ROUNDUP8 kl + ROUNDUP8 vl = ROUNDUP8 (24 + ROUNDUP8 kl + ROUNDUP8 vl)"
    by (rule ROUNDUP8_dvd [symmetric])
  show "KV_LENGTH_VEC kl vl < 2 ^ 32" using assms by (simp add: kv_parts(3))
qed

lemma memcpy8_item:
  assumes "ROUNDUP8 len \<le> length src" "pool_geom p" "d + ROUNDUP8 len \<le> n" "n \<le> MINIMUM_POOL_SIZE"
  shows "\<exists>p'. mehcached_memcpy8 p (mehcached_pool_item p x + d) src len = Some p' \<and> item_frame p p' x n \<and>
    pbytes p' (x + d) (ROUNDUP8 len) = take (ROUNDUP8 len) src \<and>
    (\<forall>e k. e + k \<le> n \<and> (d + ROUNDUP8 len \<le> e \<or> e + k \<le> d) \<longrightarrow> pbytes p' (x + e) k = pbytes p (x + e) k)"
proof -
  have len: "length (take (ROUNDUP8 len) src) = ROUNDUP8 len" using assms(1) by simp
  then have "d + length (take (ROUNDUP8 len) src) \<le> n" using assms(3) by (simp only:)
  from store_item [OF assms(2) this assms(4), of x] show ?thesis
    unfolding len mehcached_memcpy8_def using assms(1) by (simp only: if_True)
qed

lemma set_item_holds:
  assumes g: "pool_geom p" and kl: "kl \<le> 255" and vl: "vl \<le> 1048575" and kh: "kh < 2 ^ 64"
    and key: "ROUNDUP8 kl \<le> length key" and val: "ROUNDUP8 vl \<le> length val"
    and sz: "le_val (pbytes p x 8) = 24 + ROUNDUP8 kl + ROUNDUP8 vl"
  shows "\<exists>p'. mehcached_set_item p (mehcached_pool_item p x) kh key kl val vl ex = Some p' \<and>
    item_frame p p' x (24 + ROUNDUP8 kl + ROUNDUP8 vl) \<and>
    holds p' x (kh, kl, take (ROUNDUP8 kl) key) (vl, take (ROUNDUP8 vl) val)"
proof -
  let ?n = "24 + ROUNDUP8 kl + ROUNDUP8 vl" and ?i = "mehcached_pool_item p x"
  note b = item_len_bounds [OF kl vl]
  obtain p1 where 1: "pool_store p (?i + 8) (le_bytes 4 (KV_LENGTH_VEC kl vl)) = Some p1" "item_frame p p1 x ?n"
    "pbytes p1 (x + 8) 4 = le_bytes 4 (KV_LENGTH_VEC kl vl)"
    "\<And>e k. e + k \<le> ?n \<Longrightarrow> 12 \<le> e \<or> e + k \<le> 8 \<Longrightarrow> pbytes p1 (x + e) k = pbytes p (x + e) k"
    using store_item [OF g _ b(1), of 8 "le_bytes 4 (KV_LENGTH_VEC kl vl)" x] by auto
  note f1 = item_frameD [OF 1(2)]
  have g1: "pool_geom p1" using f1(7) g by simp
  obtain p2 where 2: "pool_store p1 (?i + 16) (le_bytes 8 kh) = Some p2" "item_frame p1 p2 x ?n"
    "pbytes p2 (x + 16) 8 = le_bytes 8 kh"
    "\<And>e k. e + k \<le> ?n \<Longrightarrow> 24 \<le> e \<or> e + k \<le> 16 \<Longrightarrow> pbytes p2 (x + e) k = pbytes p1 (x + e) k"
    using store_item [OF g1 _ b(1), of 16 "le_bytes 8 kh" x] f1(8) by auto
  note f2 = item_frameD [OF 2(2)]
  have g2: "pool_geom p2" using f2(7) g1 by simp
  obtain p3 where 3: "pool_store p2 (?i + 12) (le_bytes 4 ex) = Some p3" "item_frame p2 p3 x ?n"
    "\<And>e k. e + k \<le> ?n \<Longrightarrow> 16 \<le> e \<or> e + k \<le> 12 \<Longrightarrow> pbytes p3 (x + e) k = pbytes p2 (x + e) k"
    using store_item [OF g2 _ b(1), of 12 "le_bytes 4 ex" x] f1(8) f2(8) by auto
  note f3 = item_frameD [OF 3(2)]
  have g3: "pool_geom p3" using f3(7) g2 by simp
  obtain p4 where 4: "mehcached_memcpy8 p3 (?i + 24) key kl = Some p4" "item_frame p3 p4 x ?n"
    "pbytes p4 (x + 24) (ROUNDUP8 kl) = take (ROUNDUP8 kl) key"
    "\<And>e k. e + k \<le> ?n \<Longrightarrow> 24 + ROUNDUP8 kl \<le> e \<or> e + k \<le> 24 \<Longrightarrow> pbytes p4 (x + e) k = pbytes p3 (x + e) k"
    using memcpy8_item [OF key g3 _ b(1), of 24 x] f1(8) f2(8) f3(8) by auto
  note f4 = item_frameD [OF 4(2)]
  have g4: "pool_geom p4" using f4(7) g3 by simp
  obtain p5 where 5: "mehcached_memcpy8 p4 (?i + (24 + ROUNDUP8 kl)) val vl = Some p5" "item_frame p4 p5 x ?n"
    "pbytes p5 (x + (24 + ROUNDUP8 kl)) (ROUNDUP8 vl) = take (ROUNDUP8 vl) val"
    "\<And>e k. e + k \<le> ?n \<Longrightarrow> e + k \<le> 24 + ROUNDUP8 kl \<Longrightarrow> pbytes p5 (x + e) k = pbytes p4 (x + e) k"
    using memcpy8_item [OF val g4 _ b(1), of "24 + ROUNDUP8 kl" x] f1(8) f2(8) f3(8) f4(8) by auto
  have "item_frame p p5 x ?n" using 1(2) 2(2) 3(2) 4(2) 5(2) by (blast intro: item_frame_trans)
  moreover have "pbytes p5 (x + 0) 8 = pbytes p (x + 0) 8"
    using 1(4) [of 0 8] 2(4) [of 0 8] 3(3) [of 0 8] 4(4) [of 0 8] 5(4) [of 0 8] by simp
  moreover have "pbytes p5 (x + 8) 4 = le_bytes 4 (KV_LENGTH_VEC kl vl)"
    using 1(3) 2(4) [of 8 4] 3(3) [of 8 4] 4(4) [of 8 4] 5(4) [of 8 4] by simp
  moreover have "pbytes p5 (x + 16) 8 = le_bytes 8 kh"
    using 2(3) 3(3) [of 16 8] 4(4) [of 16 8] 5(4) [of 16 8] by simp
  moreover have "pbytes p5 (x + 24) (ROUNDUP8 kl) = take (ROUNDUP8 kl) key"
    using 4(3) 5(4) [of 24 "ROUNDUP8 kl"] by simp
  moreover have "holds p5 x (kh, kl, take (ROUNDUP8 kl) key) (vl, take (ROUNDUP8 vl) val)"
    using calculation(2-5) 5(3) kl vl kh sz b(4) by (simp add: le_val_le_bytes add.assoc)
  moreover have "mehcached_set_item p ?i kh key kl val vl ex = Some p5"
    using 1(1) 2(1) 3(1) 4(1) 5(1) kl vl by (simp add: mehcached_set_item_def add.assoc)
  ultimately show ?thesis by blast
qed

lemma set_item_value_holds:
  assumes g: "pool_geom p" and h: "holds p x (kh, kl, kb) (vl0, vb0)" and vl: "vl \<le> 1048575"
    and same: "ROUNDUP8 vl0 = ROUNDUP8 vl" and val: "ROUNDUP8 vl \<le> length val"
  shows "\<exists>p'. mehcached_set_item_value p (mehcached_pool_item p x) val vl ex = Some p' \<and>
    item_frame p p' x (24 + ROUNDUP8 kl + ROUNDUP8 vl) \<and>
    holds p' x (kh, kl, kb) (vl, take (ROUNDUP8 vl) val)"
proof -
  let ?n = "24 + ROUNDUP8 kl + ROUNDUP8 vl" and ?i = "mehcached_pool_item p x"
  have kl: "kl \<le> 255" "vl0 \<le> 1048575" using h by simp_all
  note b = item_len_bounds [OF kl(1) vl]
  have "load_word p (?i + 8) 4 = Some (KV_LENGTH_VEC kl vl0)"
    using load_item [OF g, of 8 4 x] h by (simp add: load_word_def MINIMUM_POOL_SIZE_def)
  moreover have "KEY_LENGTH (KV_LENGTH_VEC kl vl0) = kl" using kl(2) by (intro kv_parts) simp
  ultimately have kv: "load_word p (?i + 8) 4 = Some (KV_LENGTH_VEC kl vl0)" "KEY_LENGTH (KV_LENGTH_VEC kl vl0) = kl" .
  obtain p1 where 1: "pool_store p (?i + 8) (le_bytes 4 (KV_LENGTH_VEC kl vl)) = Some p1" "item_frame p p1 x ?n"
    "pbytes p1 (x + 8) 4 = le_bytes 4 (KV_LENGTH_VEC kl vl)"
    "\<And>e k. e + k \<le> ?n \<Longrightarrow> 12 \<le> e \<or> e + k \<le> 8 \<Longrightarrow> pbytes p1 (x + e) k = pbytes p (x + e) k"
    using store_item [OF g _ b(1), of 8 "le_bytes 4 (KV_LENGTH_VEC kl vl)" x] by auto
  note f1 = item_frameD [OF 1(2)]
  have g1: "pool_geom p1" using f1(7) g by simp
  obtain p2 where 2: "pool_store p1 (?i + 12) (le_bytes 4 ex) = Some p2" "item_frame p1 p2 x ?n"
    "\<And>e k. e + k \<le> ?n \<Longrightarrow> 16 \<le> e \<or> e + k \<le> 12 \<Longrightarrow> pbytes p2 (x + e) k = pbytes p1 (x + e) k"
    using store_item [OF g1 _ b(1), of 12 "le_bytes 4 ex" x] f1(8) by auto
  note f2 = item_frameD [OF 2(2)]
  have g2: "pool_geom p2" using f2(7) g1 by simp
  obtain p3 where 3: "mehcached_memcpy8 p2 (?i + (24 + ROUNDUP8 kl)) val vl = Some p3" "item_frame p2 p3 x ?n"
    "pbytes p3 (x + (24 + ROUNDUP8 kl)) (ROUNDUP8 vl) = take (ROUNDUP8 vl) val"
    "\<And>e k. e + k \<le> ?n \<Longrightarrow> e + k \<le> 24 + ROUNDUP8 kl \<Longrightarrow> pbytes p3 (x + e) k = pbytes p2 (x + e) k"
    using memcpy8_item [OF val g2 _ b(1), of "24 + ROUNDUP8 kl" x] f1(8) f2(8) by auto
  have fr: "item_frame p p3 x ?n" using 1(2) 2(2) 3(2) by (blast intro: item_frame_trans)
  have h0: "pbytes p3 (x + 0) 8 = pbytes p (x + 0) 8"
    using 1(4) [of 0 8] 2(3) [of 0 8] 3(4) [of 0 8] by simp
  have h8: "pbytes p3 (x + 8) 4 = le_bytes 4 (KV_LENGTH_VEC kl vl)"
    using 1(3) 2(3) [of 8 4] 3(4) [of 8 4] by simp
  have h16: "pbytes p3 (x + 16) 8 = pbytes p (x + 16) 8"
    using 1(4) [of 16 8] 2(3) [of 16 8] 3(4) [of 16 8] by simp
  have h24: "pbytes p3 (x + 24) (ROUNDUP8 kl) = pbytes p (x + 24) (ROUNDUP8 kl)"
    using 1(4) [of 24 "ROUNDUP8 kl"] 2(3) [of 24 "ROUNDUP8 kl"] 3(4) [of 24 "ROUNDUP8 kl"] by simp
  have "holds p3 x (kh, kl, kb) (vl, take (ROUNDUP8 vl) val)"
    using h h0 h8 h16 h24 3(3) vl b(4) same by (simp add: le_val_le_bytes add.assoc)
  moreover have "mehcached_set_item_value p ?i val vl ex = Some p3"
    using kv 1(1) 2(1) 3(1) vl by (simp add: mehcached_set_item_value_def add.assoc)
  ultimately show ?thesis using fr by blast
qed

subsection \<open>Searching and locking\<close>

definition is_first :: "(nat \<Rightarrow> bool) \<Rightarrow> nat \<Rightarrow> nat \<Rightarrow> bool" where
  "is_first P i j \<longleftrightarrow> i \<le> j \<and> j \<le> 15 \<and> (\<forall>k. i \<le> k \<and> k < j \<longrightarrow> \<not> P k) \<and> (j < 15 \<longrightarrow> P j)"

lemma is_first_step: "i < 15 \<Longrightarrow> \<not> P i \<Longrightarrow> is_first P (Suc i) j \<Longrightarrow> is_first P i j"
  unfolding is_first_def by (metis Suc_leD le_antisym not_less_eq_eq)

lemma is_first_here: "i < 15 \<Longrightarrow> P i \<Longrightarrow> is_first P i i"
  by (auto simp: is_first_def)

lemma is_first_end: "is_first P 15 15"
  by (auto simp: is_first_def)

fun item_matches :: "pool \<Rightarrow> nat \<Rightarrow> mkey \<Rightarrow> bool" where
  "item_matches p v (kh, kl, kb) \<longleftrightarrow> TAG v = mehcached_calc_tag kh \<and>
     le_val (pbytes p (ITEM_OFFSET v + 16) 8) = kh \<and>
     KEY_LENGTH (le_val (pbytes p (ITEM_OFFSET v + 8) 4)) = kl \<and>
     pbytes p (ITEM_OFFSET v + 24) (ROUNDUP8 kl) = kb"

lemma find_item_from_first:
  assumes g: "pool_geom p" and len: "length (item_vec b) = 15" and kl: "kl \<le> 255" "ROUNDUP8 kl \<le> length key"
    and tag: "tag = mehcached_calc_tag kh" and i: "i \<le> 15"
  shows "\<exists>j. find_item_from p b kh tag key kl i = Some j \<and>
    is_first (\<lambda>j. item_matches p (item_vec b ! j) (kh, kl, take (ROUNDUP8 kl) key)) i j"
  using i
proof (induction "15 - i" arbitrary: i)
  case 0
  then show ?case by (subst find_item_from.simps) (simp add: is_first_end)
next
  case (Suc n)
  let ?v = "item_vec b ! i" and ?P = "\<lambda>j. item_matches p (item_vec b ! j) (kh, kl, take (ROUNDUP8 kl) key)"
  let ?o = "ITEM_OFFSET ?v"
  have i: "i < 15" and n: "n = 15 - Suc i" "Suc i \<le> 15" using Suc.hyps(2) by simp_all
  have m: "24 + 256 \<le> MINIMUM_POOL_SIZE" by (simp add: MINIMUM_POOL_SIZE_def)
  have r: "ROUNDUP8 kl \<le> 256" using kl(1) by (simp add: ROUNDUP8_def)
  have ld: "load_word p (mehcached_pool_item p ?o + 16) 8 = Some (le_val (pbytes p (?o + 16) 8))"
    "load_word p (mehcached_pool_item p ?o + 8) 4 = Some (le_val (pbytes p (?o + 8) 4))"
    "pool_load p (mehcached_pool_item p ?o + 24) (ROUNDUP8 kl) = Some (pbytes p (?o + 24) (ROUNDUP8 kl))"
    using m r by (simp_all add: load_word_def load_item [OF g])
  have step: "find_item_from p b kh tag key kl i =
     (if ?P i then Some i else find_item_from p b kh tag key kl (Suc i))"
    by (subst find_item_from.simps)
      (simp add: i len ld tag mehcached_compare_keys_def mehcached_memcmp8_def kl(2) Let_def)
  show ?case
  proof (cases "?P i")
    case True
    then show ?thesis using step is_first_here [of i ?P] i by auto
  next
    case False
    then obtain j where "find_item_from p b kh tag key kl (Suc i) = Some j" "is_first ?P (Suc i) j"
      using Suc.hyps(1) [OF n] by blast
    then show ?thesis using step False is_first_step [OF i, of ?P] by auto
  qed
qed

lemma find_item_first:
  assumes "pool_geom p" "length (item_vec b) = 15" "kl \<le> 255" "ROUNDUP8 kl \<le> length key"
  obtains j where "mehcached_find_item_index p b kh (mehcached_calc_tag kh) key kl = Some j"
    "is_first (\<lambda>j. item_matches p (item_vec b ! j) (kh, kl, take (ROUNDUP8 kl) key)) 0 j"
  using find_item_from_first [OF assms refl, of 0] by (auto simp: mehcached_find_item_index_def)

lemma find_same_tag_first:
  assumes "length (item_vec b) = 15"
  obtains j where "mehcached_find_same_tag b tag = Some j" "is_first (\<lambda>j. TAG (item_vec b ! j) = tag) 0 j"
proof -
  let ?P = "\<lambda>j. TAG (item_vec b ! j) = tag"
  have "\<exists>j. find_same_tag_from b tag i = Some j \<and> is_first ?P i j" if "i \<le> 15" for i
    using that
  proof (induction "15 - i" arbitrary: i)
    case 0
    then show ?case by (subst find_same_tag_from.simps) (simp add: is_first_end)
  next
    case (Suc n)
    then have i: "i < 15" and n: "n = 15 - Suc i" "Suc i \<le> 15" by simp_all
    have step: "find_same_tag_from b tag i = (if ?P i then Some i else find_same_tag_from b tag (Suc i))"
      by (subst find_same_tag_from.simps) (simp add: i assms)
    show ?case
    proof (cases "?P i")
      case True
      then show ?thesis using step is_first_here [of i ?P] i by auto
    next
      case False
      then obtain j where "find_same_tag_from b tag (Suc i) = Some j" "is_first ?P (Suc i) j"
        using Suc.hyps(1) [OF n] by blast
      then show ?thesis using step False is_first_step [OF i, of ?P] by auto
    qed
  qed
  from this [of 0] show thesis by (auto simp: mehcached_find_same_tag_def intro: that)
qed

definition slot_distance :: "pool \<Rightarrow> nat \<Rightarrow> nat" where
  "slot_distance p v = (tail p + 2 ^ 64 - ITEM_OFFSET v) mod 2 ^ 64 AND ITEM_OFFSET_MASK"

lemma slot_distance_less: "slot_distance p v < 2 ^ 40"
proof -
  have "x AND ITEM_OFFSET_MASK < 2 ^ 40" for x
    using take_bit_eq_mask [of 40 x] take_bit_nat_less_exp [of 40 x]
    by (simp add: ITEM_OFFSET_MASK_def mask_eq_exp_minus_1)
  then show ?thesis by (simp only: slot_distance_def)
qed

text \<open>The search for a victim: an empty slot if there is one, else the slot least far from the tail.\<close>

lemma find_oldest_from_result:
  assumes "length (item_vec b) = 15" "i \<le> 15" "i = 0 \<and> oi = 0 \<and> od = 2 ^ 64 - 1 \<or>
    oi < i \<and> od = slot_distance p (item_vec b ! oi) \<and> (\<forall>j<i. item_vec b ! j \<noteq> 0 \<and> od \<le> slot_distance p (item_vec b ! j))"
  shows "\<exists>j<15. find_oldest_from p b oi od i = Some j \<and>
    (item_vec b ! j = 0 \<or> (\<forall>k<15. item_vec b ! k \<noteq> 0 \<and> slot_distance p (item_vec b ! j) \<le> slot_distance p (item_vec b ! k)))"
  using assms
proof (induction "15 - i" arbitrary: i oi od)
  case 0
  then show ?case by (subst find_oldest_from.simps) auto
next
  case (Suc n)
  then have i: "i < 15" by simp
  let ?v = "item_vec b ! i"
  have step: "find_oldest_from p b oi od i = (if ?v = 0 then Some i
      else if slot_distance p ?v < od then find_oldest_from p b i (slot_distance p ?v) (Suc i)
      else find_oldest_from p b oi od (Suc i))"
    by (subst find_oldest_from.simps) (simp add: i Suc.prems(1) slot_distance_def Let_def)
  show ?case
  proof (cases "?v = 0")
    case True
    then show ?thesis using step i by auto
  next
    case False
    note IH = Suc.hyps(1) [of "Suc i", OF _ Suc.prems(1)]
    have n: "n = 15 - Suc i" "Suc i \<le> 15" using Suc.hyps(2) i by simp_all
    show ?thesis
    proof (cases "slot_distance p ?v < od")
      case True
      have "\<forall>j<Suc i. item_vec b ! j \<noteq> 0 \<and> slot_distance p ?v \<le> slot_distance p (item_vec b ! j)"
        using Suc.prems(3) True False by (auto simp: less_Suc_eq)
      then show ?thesis using IH [OF n, of i "slot_distance p ?v"] step True False by simp
    next
      case ge: False
      then have "oi < i" "od = slot_distance p (item_vec b ! oi)"
          "\<forall>j<i. item_vec b ! j \<noteq> 0 \<and> od \<le> slot_distance p (item_vec b ! j)"
        using Suc.prems(3) slot_distance_less [of p ?v] by auto
      then have "oi < Suc i \<and> od = slot_distance p (item_vec b ! oi) \<and>
          (\<forall>j<Suc i. item_vec b ! j \<noteq> 0 \<and> od \<le> slot_distance p (item_vec b ! j))"
        using ge False by (auto simp: less_Suc_eq)
      from IH [OF n disjI2 [OF this]] show ?thesis using step ge False by simp
    qed
  qed
qed

lemma find_empty_or_oldest_result:
  assumes "length (item_vec b) = 15"
  obtains j where "j < 15" "mehcached_find_empty_or_oldest p b = Some j"
    "item_vec b ! j = 0 \<or> (\<forall>k<15. item_vec b ! k \<noteq> 0 \<and> slot_distance p (item_vec b ! j) \<le> slot_distance p (item_vec b ! k))"
  using find_oldest_from_result [OF assms, of 0 0 "2 ^ 64 - 1" p] by (auto simp: mehcached_find_empty_or_oldest_def)

definition bucket_free :: "mehcached_bucket \<Rightarrow> bool" where
  "bucket_free b \<longleftrightarrow> even (version b) \<and> version b < 2 ^ 32"

lemma lock_unlock_bucket:
  assumes "bucket_free b" "md \<le> 2"
  obtains b1 where "mehcached_lock_bucket md b = Some b1" "item_vec b1 = item_vec b"
    "\<And>vs. \<exists>b2. mehcached_unlock_bucket md (b1\<lparr>item_vec := vs\<rparr>) = Some b2 \<and> item_vec b2 = vs \<and> bucket_free b2"
proof -
  have "version b OR 1 = version b + 1"
    using or_one_eq [of "version b"] assms(1) by (simp add: bucket_free_def)
  moreover have "version b AND 1 = 0" "u32 (version b + 1) = version b + 1"
    using assms(1) by (auto simp: bucket_free_def and_one_eq mod_2_eq_odd elim!: evenE intro!: u32_small)
  ultimately have v: "version b AND 1 = 0" "u32 (version b + 1) = version b + 1" "version b OR 1 = version b + 1"
    by simp_all
  have w: "(version b + 1) AND 1 = 1" "even (u32 (version b + 2))" "u32 (version b + 2) < 2 ^ 32"
    using assms(1) by (auto simp: bucket_free_def and_one_eq mod_2_eq_odd u32_def dvd_mod_iff)
  show thesis
    by (rule that [of "if md = 0 then b else b\<lparr>version := version b + 1\<rparr>"])
      (use assms v w in \<open>auto simp: mehcached_lock_bucket_def mehcached_unlock_bucket_def bucket_free_def\<close>)
qed

lemma read_version_free:
  assumes "bucket_free b"
  shows "mehcached_read_version_begin md b = Some (mehcached_read_version_end md b)"
  using assms by (auto simp: mehcached_read_version_begin_def mehcached_read_version_end_def bucket_free_def
      and_one_eq mod_2_eq_odd)

end
