(* ===== verification/Mica_Refine.thy ===== *)
theory Mica_Refine
  imports Mica_Items
begin

section \<open>The key-value store never returns a wrong value\<close>

text \<open>
  The relation \<open>mica_rel\<close> between a table and the partial function \<open>A\<close> that maps each key to the
  value last set for it: whatever the table still holds agrees with \<open>A\<close>. The table may forget
  (the log gives up old items, a full bucket an item), so lookups may miss, but they never return
  anything else than the last value.
\<close>

subsection \<open>Slots\<close>

definition live_slot ::
  "pool \<Rightarrow> (nat \<times> nat) list \<Rightarrow> (mkey \<Rightarrow> mval option) \<Rightarrow> (nat \<Rightarrow> nat) \<Rightarrow> nat \<Rightarrow> nat \<Rightarrow> mkey \<Rightarrow> mval \<Rightarrow> bool" where
  "live_slot p xs A f i v k w \<longleftrightarrow> (ITEM_OFFSET v, item_len k w) \<in> set xs \<and> holds p (ITEM_OFFSET v) k w \<and>
     TAG v = mehcached_calc_tag (fst k) \<and> f (fst k) = i \<and> A k = Some w"

definition stale_slot :: "pool \<Rightarrow> nat \<Rightarrow> bool" where
  "stale_slot p v \<longleftrightarrow> TAG v \<noteq> 0 \<and> ITEM_OFFSET v + pool_size p < tail p"

definition slot_ok ::
  "pool \<Rightarrow> (nat \<times> nat) list \<Rightarrow> (mkey \<Rightarrow> mval option) \<Rightarrow> (nat \<Rightarrow> nat) \<Rightarrow> nat \<Rightarrow> nat \<Rightarrow> bool" where
  "slot_ok p xs A f i v \<longleftrightarrow> v = 0 \<or> stale_slot p v \<or> (\<exists>k w. live_slot p xs A f i v k w)"

definition tags_distinct :: "nat list \<Rightarrow> bool" where
  "tags_distinct vs \<longleftrightarrow> (\<forall>j<15. \<forall>j'<15. j \<noteq> j' \<longrightarrow> vs ! j \<noteq> 0 \<longrightarrow> TAG (vs ! j) \<noteq> TAG (vs ! j'))"

definition slots_ok ::
  "pool \<Rightarrow> (nat \<times> nat) list \<Rightarrow> (mkey \<Rightarrow> mval option) \<Rightarrow> (nat \<Rightarrow> nat) \<Rightarrow> nat \<Rightarrow> nat list \<Rightarrow> bool" where
  "slots_ok p xs A f i vs \<longleftrightarrow> length vs = 15 \<and> tags_distinct vs \<and> (\<forall>j<15. slot_ok p xs A f i (vs ! j))"

lemma slot_tag: "slot_ok p xs A f i v \<Longrightarrow> v \<noteq> 0 \<Longrightarrow> TAG v \<noteq> 0"
  using calc_tag_bounds(1) by (auto simp: slot_ok_def stale_slot_def live_slot_def)

lemma TAG_0 [simp]: "TAG 0 = 0"
  by (simp add: TAG_def)

lemma slot_valid:
  assumes "pool_log p xs" "tail p < 2 ^ 40"
  shows "stale_slot p v \<Longrightarrow> \<not> mehcached_pool_is_valid p (ITEM_OFFSET v)"
    "live_slot p xs A f i v k w \<Longrightarrow> mehcached_pool_is_valid p (ITEM_OFFSET v)"
proof -
  note g = pool_log_line(1) [OF assms(1)]
  show "\<not> mehcached_pool_is_valid p (ITEM_OFFSET v)" if "stale_slot p v"
    using valid_iff [OF g _ assms(2), of "ITEM_OFFSET v"] that by (simp add: stale_slot_def)
  show "mehcached_pool_is_valid p (ITEM_OFFSET v)" if "live_slot p xs A f i v k w"
    using valid_iff [OF g _ assms(2), of "ITEM_OFFSET v"] that pool_log_item [OF assms(1), of "ITEM_OFFSET v" "item_len k w"]
    by (simp add: live_slot_def)
qed

lemma holds_matches:
  assumes "holds p x (kh, kl, kb) (vl, vb)" "ITEM_OFFSET v = x"
  shows "item_matches p v (kh', kl', kb') \<longleftrightarrow>
    TAG v = mehcached_calc_tag kh' \<and> (kh, kl, kb) = (kh', kl', kb')"
proof -
  have "KEY_LENGTH (KV_LENGTH_VEC kl vl) = kl" using assms(1) by (intro kv_parts) simp
  then show ?thesis using assms by auto
qed

lemma holds_unique:
  assumes "holds p x k w" "holds p x k' w'"
  shows "k = k'" "w = w'"
proof -
  obtain kh kl kb vl vb where k: "k = (kh, kl, kb)" "w = (vl, vb)" by (cases k; cases w)
  obtain kh' kl' kb' vl' vb' where k': "k' = (kh', kl', kb')" "w' = (vl', vb')" by (cases k'; cases w')
  have "vl < 2 ^ 24" "vl' < 2 ^ 24" and e: "KV_LENGTH_VEC kl vl = KV_LENGTH_VEC kl' vl'" using assms by (auto simp: k k')
  note kv_parts(1,2) [OF this(1), of kl] kv_parts(1,2) [OF this(2), of kl']
  then have "kl = kl'" "vl = vl'" using e by simp_all
  then show "k = k'" "w = w'" using assms by (auto simp: k k')
qed

lemma slot_transfer:
  assumes "slot_ok p xs A f i v" "pool_size p' = pool_size p" "tail p \<le> tail p'"
    and "\<And>k w. live_slot p xs A f i v k w \<Longrightarrow> live_slot p' xs' A' f i v k w \<or> ITEM_OFFSET v + pool_size p < tail p'"
  shows "slot_ok p' xs' A' f i v"
proof -
  consider "v = 0" | "stale_slot p v" | k w where "live_slot p xs A f i v k w" using assms(1) by (auto simp: slot_ok_def)
  then show ?thesis
  proof cases
    case 3
    then have "TAG v \<noteq> 0" using calc_tag_bounds(1) by (simp add: live_slot_def)
    then show ?thesis using assms(2) assms(4) [OF 3] unfolding slot_ok_def stale_slot_def by metis
  qed (use assms(2,3) in \<open>auto simp: slot_ok_def stale_slot_def\<close>)
qed

lemma slots_update:
  assumes vs: "slots_ok p xs A f i vs" and j: "j < 15"
    and rest: "\<And>j'. j' < 15 \<Longrightarrow> j' \<noteq> j \<Longrightarrow> slot_ok p' xs' A' f i (vs ! j')" and v: "slot_ok p' xs' A' f i v"
    and tag: "v = 0 \<or> (\<forall>j'<15. j' \<noteq> j \<longrightarrow> TAG (vs ! j') \<noteq> TAG v)"
  shows "slots_ok p' xs' A' f i (vs[j := v])"
proof -
  have l: "length vs = 15" using vs by (simp add: slots_ok_def)
  have nz: "TAG (vs ! j') \<noteq> 0" if "j' < 15" "vs ! j' \<noteq> 0" for j'
    using slot_tag [of p xs A f i "vs ! j'"] vs that by (simp add: slots_ok_def)
  have "tags_distinct (vs[j := v])"
    unfolding tags_distinct_def
  proof (intro allI impI)
    fix a b assume a: "a < 15" "b < 15" "a \<noteq> b" "vs[j := v] ! a \<noteq> 0"
    consider "a = j" | "b = j" | "a \<noteq> j" "b \<noteq> j" by blast
    then show "TAG (vs[j := v] ! a) \<noteq> TAG (vs[j := v] ! b)"
      using a l tag nz [of a] vs by cases (force simp: slots_ok_def tags_distinct_def nth_list_update)+
  qed
  moreover have "slot_ok p' xs' A' f i (vs[j := v] ! j')" if "j' < 15" for j'
    using rest [OF that] v j l by (cases "j' = j") auto
  ultimately show ?thesis using l by (simp add: slots_ok_def)
qed

text \<open>At most one slot of a bucket can hold a given key.\<close>

lemma first_unique:
  assumes "slots_ok p xs A f i vs" "is_first (\<lambda>j. item_matches p (vs ! j) (kh, kl, kb)) 0 a"
    "j < 15" "TAG (vs ! j) = mehcached_calc_tag kh" "a < 15"
  shows "j = a"
proof (rule ccontr)
  assume "j \<noteq> a"
  have t: "TAG (vs ! a) = mehcached_calc_tag kh" using assms(2,5) by (simp add: is_first_def)
  then have "vs ! a \<noteq> 0" using calc_tag_bounds(1) [of kh] by (metis TAG_0)
  moreover have "tags_distinct vs" using assms(1) by (simp add: slots_ok_def)
  ultimately have "TAG (vs ! a) \<noteq> TAG (vs ! j)"
    using assms(3,5) \<open>j \<noteq> a\<close> unfolding tags_distinct_def by blast
  then show False using t assms(4) by simp
qed

subsection \<open>The lock of the pool\<close>

lemma pool_lock_frame [simp]:
  "pbytes (p\<lparr>pool_lock := l\<rparr>) = pbytes p" "pool_geom (p\<lparr>pool_lock := l\<rparr>) = pool_geom p"
  "mehcached_pool_item (p\<lparr>pool_lock := l\<rparr>) = mehcached_pool_item p"
  "mehcached_pool_is_valid (p\<lparr>pool_lock := l\<rparr>) = mehcached_pool_is_valid p"
  "load_word (p\<lparr>pool_lock := l\<rparr>) = load_word p"
  "stale_slot (p\<lparr>pool_lock := l\<rparr>) = stale_slot p"
  by (simp_all add: fun_eq_iff pbytes_def pool_geom_def mehcached_pool_item_def mehcached_pool_is_valid_def
      load_word_def pool_load_def stale_slot_def)

lemma pool_lock_log [simp]: "pool_log (p\<lparr>pool_lock := l\<rparr>) xs = pool_log p xs"
  by (simp add: pool_log_def)

lemma pool_lock_slots [simp]:
  "holds (p\<lparr>pool_lock := l\<rparr>) x k w = holds p x k w"
  "live_slot (p\<lparr>pool_lock := l\<rparr>) xs A f i v k w = live_slot p xs A f i v k w"
  "slot_ok (p\<lparr>pool_lock := l\<rparr>) xs A f i v = slot_ok p xs A f i v"
  "slots_ok (p\<lparr>pool_lock := l\<rparr>) xs A f i vs = slots_ok p xs A f i vs"
proof -
  show h: "holds (p\<lparr>pool_lock := l\<rparr>) x k w = holds p x k w" for x k w by (cases k; cases w) simp
  show l: "live_slot (p\<lparr>pool_lock := l\<rparr>) xs A f i v k w = live_slot p xs A f i v k w" for v k w
    by (simp add: live_slot_def h)
  show s: "slot_ok (p\<lparr>pool_lock := l\<rparr>) xs A f i v = slot_ok p xs A f i v" for v by (simp add: slot_ok_def l)
  show "slots_ok (p\<lparr>pool_lock := l\<rparr>) xs A f i vs = slots_ok p xs A f i vs" by (simp add: slots_ok_def s)
qed

lemma pool_lock_free:
  assumes "pool_lock p = 0"
  obtains l where "mehcached_pool_lock p = Some (p\<lparr>pool_lock := l\<rparr>)"
    "\<And>q. pool_mode q = pool_mode p \<Longrightarrow> pool_lock q = l \<Longrightarrow> mehcached_pool_unlock q = Some (q\<lparr>pool_lock := 0\<rparr>)"
proof (rule that [of "if pool_mode p = 2 then 1 else 0"])
  show "mehcached_pool_lock p = Some (p\<lparr>pool_lock := if pool_mode p = 2 then 1 else 0\<rparr>)"
    using assms by (cases p) (simp add: mehcached_pool_lock_def)
  show "mehcached_pool_unlock q = Some (q\<lparr>pool_lock := 0\<rparr>)"
    if "pool_mode q = pool_mode p" "pool_lock q = (if pool_mode p = 2 then 1 else 0)" for q
    using that by (cases q) (simp add: mehcached_pool_unlock_def)
qed

subsection \<open>Cleaning\<close>

definition clear_invalid :: "pool \<Rightarrow> nat list \<Rightarrow> nat list" where
  "clear_invalid p = map (\<lambda>v. if v \<noteq> 0 \<and> \<not> mehcached_pool_is_valid p (ITEM_OFFSET v) then 0 else v)"

lemma clear_invalid_idem: "clear_invalid p (clear_invalid p vs) = clear_invalid p vs"
  by (simp add: clear_invalid_def)

lemma clear_invalid_slots:
  assumes "slots_ok p xs A f i vs"
  shows "slots_ok p xs A f i (clear_invalid p vs)"
proof -
  have "length vs = 15" using assms by (simp add: slots_ok_def)
  then show ?thesis
    using assms slot_tag [OF conjunct2 [OF conjunct2 [OF assms [unfolded slots_ok_def]], rule_format]]
    by (auto simp: slots_ok_def tags_distinct_def clear_invalid_def slot_ok_def)
qed

definition cleaned :: "pool \<Rightarrow> mehcached_bucket \<Rightarrow> mehcached_bucket \<Rightarrow> bool" where
  "cleaned p b b' \<longleftrightarrow> bucket_free b' \<and> (item_vec b' = item_vec b \<or> item_vec b' = clear_invalid p (item_vec b))"

lemma mask_mod: "x AND (2 ^ m - Suc 0) = x mod (2 ^ m :: nat)"
  using take_bit_eq_mask [of m x] by (simp add: mask_eq_exp_minus_1 take_bit_eq_mod)

lemma off_next:
  assumes "s < n" "i < n" "i \<noteq> s"
  shows "Suc (off n ((s + 1) mod n) i) = off n s i"
proof -
  have n0: "off n s i \<noteq> 0" using at_off [OF assms(1,2)] assms by (metis add_0_right mod_less)
  then obtain d where d: "off n s i = Suc d" using not0_implies_Suc by blast
  have "((s + 1) mod n + d) mod n = i" using at_off [OF assms(1,2)] by (simp add: d mod_simps)
  moreover have "d < n" using off_less [of n s i] d assms(1) by simp
  ultimately have "off n ((s + 1) mod n) i = d" using off_at [of "(s + 1) mod n" n d] assms(1) by simp
  then show ?thesis using d by simp
qed

text \<open>The loop visits the buckets from the first to the last index once and clears their stale slots.\<close>

lemma cleanup_from_exact:
  assumes "num_buckets_mask t = 2 ^ m - 1" "length (buckets t) = 2 ^ m" "access_mode t \<le> 2"
    "\<And>i. i < 2 ^ m \<Longrightarrow> bucket_free (buckets t ! i)" "s < 2 ^ m" "d < 2 ^ m" "e = (s + d) mod 2 ^ m"
  shows "\<exists>bs. cleanup_from s e t = Some (t\<lparr>buckets := bs\<rparr>) \<and> length bs = 2 ^ m \<and>
    (\<forall>i<2 ^ m. bucket_free (bs ! i) \<and> item_vec (bs ! i) =
      (if off (2 ^ m) s i < d then clear_invalid (alloc t) (item_vec (buckets t ! i)) else item_vec (buckets t ! i)))"
  using assms
proof (induction d arbitrary: s t)
  case 0
  then show ?case
    by (subst cleanup_from.simps) (rule exI [of _ "buckets t"], simp)
next
  case (Suc d)
  let ?b = "buckets t ! s"
  have "s \<noteq> e"
  proof
    assume "s = e"
    then have "(s + Suc d) mod 2 ^ m = (s + 0) mod 2 ^ m" using Suc.prems(5,7) by simp
    then show False using off_at [of s "2 ^ m" "Suc d"] off_at [of s "2 ^ m" 0] Suc.prems(5,6) by simp
  qed
  obtain b1 where b1: "mehcached_lock_bucket (access_mode t) ?b = Some b1" "item_vec b1 = item_vec ?b"
    "\<And>vs. \<exists>b2. mehcached_unlock_bucket (access_mode t) (b1\<lparr>item_vec := vs\<rparr>) = Some b2 \<and> item_vec b2 = vs \<and> bucket_free b2"
    using lock_unlock_bucket [OF Suc.prems(4) [OF Suc.prems(5)] Suc.prems(3)] by metis
  from b1(3) [of "clear_invalid (alloc t) (item_vec ?b)"] obtain b2 where
    b2: "mehcached_unlock_bucket (access_mode t) (drop_invalid (alloc t) b1) = Some b2"
      "item_vec b2 = clear_invalid (alloc t) (item_vec ?b)" "bucket_free b2"
    by (auto simp: drop_invalid_def clear_invalid_def b1(2))
  let ?t = "put_bucket t s b2" and ?s = "(s + 1) mod 2 ^ m"
  have step: "cleanup_from s e t = cleanup_from ?s e ?t"
    using \<open>s \<noteq> e\<close> b1(1) b2(1) Suc.prems(1,2,5)
    by (subst cleanup_from.simps) (simp add: mask_mod)
  have t: "num_buckets_mask ?t = 2 ^ m - 1" "length (buckets ?t) = 2 ^ m" "access_mode ?t \<le> 2" "alloc ?t = alloc t"
    using Suc.prems(1-3) by (simp_all add: put_bucket_def)
  have free: "bucket_free (buckets ?t ! i)" if "i < 2 ^ m" for i
    using Suc.prems(2,4) that b2(3) by (cases "i = s") (simp_all add: put_bucket_def)
  have "e = (?s + d) mod 2 ^ m" using Suc.prems(7) by (simp add: mod_simps)
  from Suc.IH [OF t(1-3) free _ _ this] Suc.prems(6)
  obtain bs where bs: "cleanup_from ?s e ?t = Some (?t\<lparr>buckets := bs\<rparr>)" "length bs = 2 ^ m"
    "\<forall>i<2 ^ m. bucket_free (bs ! i) \<and> item_vec (bs ! i) =
      (if off (2 ^ m) ?s i < d then clear_invalid (alloc t) (item_vec (buckets ?t ! i)) else item_vec (buckets ?t ! i))"
    unfolding t(4) by (metis Suc_lessD mod_less_divisor zero_less_numeral zero_less_power)
  have "item_vec (bs ! i) =
      (if off (2 ^ m) s i < Suc d then clear_invalid (alloc t) (item_vec (buckets t ! i)) else item_vec (buckets t ! i))"
    if i: "i < 2 ^ m" for i
  proof (cases "i = s")
    case True
    have "off (2 ^ m) s s = 0" using off_at [OF Suc.prems(5), of 0] Suc.prems(5) by simp
    then show ?thesis
      using bs(3) [rule_format, OF i] b2(2) Suc.prems(2,5) True by (simp add: put_bucket_def clear_invalid_idem)
  next
    case False
    have "off (2 ^ m) ?s i < d \<longleftrightarrow> off (2 ^ m) s i < Suc d"
      using off_next [OF Suc.prems(5) i False] by (metis Suc_less_eq)
    then show ?thesis using bs(3) [rule_format, OF i] False by (simp add: put_bucket_def)
  qed
  then show ?case using step bs by (auto simp: put_bucket_def)
qed

lemma cleanup_from_ends:
  assumes "num_buckets_mask t = 2 ^ m - 1" "length (buckets t) = 2 ^ m" "access_mode t \<le> 2"
    "\<And>i. i < 2 ^ m \<Longrightarrow> bucket_free (buckets t ! i)" "s < 2 ^ m" "d < 2 ^ m" "e = (s + d) mod 2 ^ m"
  shows "\<exists>bs. cleanup_from s e t = Some (t\<lparr>buckets := bs\<rparr>) \<and> length bs = 2 ^ m \<and>
    (\<forall>i<2 ^ m. cleaned (alloc t) (buckets t ! i) (bs ! i))"
  using cleanup_from_exact [OF assms] unfolding cleaned_def by metis

lemma cleanup_bucket_ends:
  assumes "num_buckets_mask t = 2 ^ m - 1" "length (buckets t) = 2 ^ m" "access_mode t \<le> 2"
    "\<And>i. i < 2 ^ m \<Longrightarrow> bucket_free (buckets t ! i)"
  obtains bs where "mehcached_cleanup_bucket t old new = Some (t\<lparr>buckets := bs\<rparr>)" "length bs = 2 ^ m"
    "\<And>i. i < 2 ^ m \<Longrightarrow> cleaned (alloc t) (buckets t ! i) (bs ! i)"
proof -
  let ?s = "drop_bit (rshift t) old mod 2 ^ m" and ?e = "drop_bit (rshift t) new mod 2 ^ m"
  have "?e = (?s + off (2 ^ m) ?s ?e) mod 2 ^ m" by (rule at_off [symmetric]) simp_all
  from cleanup_from_ends [OF assms _ _ this] obtain bs where bs: "cleanup_from ?s ?e t = Some (t\<lparr>buckets := bs\<rparr>)"
    "length bs = 2 ^ m" "\<forall>i<2 ^ m. cleaned (alloc t) (buckets t ! i) (bs ! i)"
    by (auto simp: off_less)
  then have "mehcached_cleanup_bucket t old new = Some (t\<lparr>buckets := bs\<rparr>)"
    by (simp add: mehcached_cleanup_bucket_def assms(1) mask_mod)
  then show thesis using that [of bs] bs(2,3) by blast
qed

subsection \<open>Writing an item of the log\<close>

lemma in_line_disjoint:
  "in_line h xs t \<Longrightarrow> (x, n) \<in> set xs \<Longrightarrow> (y, m) \<in> set xs \<Longrightarrow> y \<noteq> x \<Longrightarrow> y + m \<le> x \<or> x + n \<le> y"
proof (induction h xs t rule: in_line.induct)
  case (2 h z k xs t)
  then show ?case using in_line_item [of "h + k" xs t] by fastforce
qed simp

lemma frame_log:
  assumes log: "pool_log p xs" and x: "(x, n) \<in> set xs" and fr: "item_frame p p' x n"
    and hd: "le_val (pbytes p' x 8) = n"
  shows "pool_log p' xs" "\<And>y m. (y, m) \<in> set xs \<Longrightarrow> y \<noteq> x \<Longrightarrow> pbytes p' y m = pbytes p y m"
proof -
  have line: "in_line (head p) xs (tail p)" using log by (simp add: pool_log_def)
  note xi = pool_log_item [OF log x]
  note f = item_frameD [OF fr]
  have keep: "pbytes p' y j = pbytes p y j" if y: "(y, m) \<in> set xs" "y \<noteq> x" and "j \<le> m" for y m j
  proof -
    note yi = pool_log_item [OF log y(1)]
    consider "y + m \<le> x" | "x + n \<le> y" using in_line_disjoint [OF line x y] by blast
    then have "y + j \<le> x \<and> x + n \<le> y + pool_size p \<or> x + n \<le> y \<and> y + j \<le> x + pool_size p"
      using xi yi \<open>j \<le> m\<close> by cases linarith+
    then show ?thesis using conjunct2 [OF fr [unfolded item_frame_def]] by blast
  qed
  then show "\<And>y m. (y, m) \<in> set xs \<Longrightarrow> y \<noteq> x \<Longrightarrow> pbytes p' y m = pbytes p y m" by blast
  have "le_val (pbytes p' y 8) = m" if y: "(y, m) \<in> set xs" for y m
  proof (cases "y = x")
    case True
    then show ?thesis using hd in_line_unique [OF line x, of m] y by simp
  next
    case False
    then show ?thesis using keep [OF y False, of 8] pool_log_item(3) [OF log y] log y by (auto simp: pool_log_def)
  qed
  then show "pool_log p' xs" using log f by (auto simp: pool_log_def)
qed

definition log_grows :: "pool \<Rightarrow> (nat \<times> nat) list \<Rightarrow> pool \<Rightarrow> (nat \<times> nat) list \<Rightarrow> bool" where
  "log_grows p xs p' xs' \<longleftrightarrow> pool_size p' = pool_size p \<and> pool_mode p' = pool_mode p \<and> pool_lock p' = pool_lock p \<and>
     tail p \<le> tail p' \<and> (\<forall>x m. (x, m) \<in> set xs \<longrightarrow>
       (x, m) \<in> set xs' \<and> pbytes p' x m = pbytes p x m \<or> x + pool_size p < tail p')"

lemma grows_slot:
  assumes gr: "log_grows p xs p' xs'" and ok: "slot_ok p xs A f i v"
    and A: "\<And>k w. f (fst k) = i \<Longrightarrow> TAG v = mehcached_calc_tag (fst k) \<Longrightarrow> A k = Some w \<Longrightarrow> A' k = Some w"
  shows "slot_ok p' xs' A' f i v"
proof (rule slot_transfer [OF ok])
  show "pool_size p' = pool_size p" "tail p \<le> tail p'" using gr by (simp_all add: log_grows_def)
  fix k w assume l: "live_slot p xs A f i v k w"
  then have "(ITEM_OFFSET v, item_len k w) \<in> set xs" by (simp add: live_slot_def)
  then consider "(ITEM_OFFSET v, item_len k w) \<in> set xs'" "pbytes p' (ITEM_OFFSET v) (item_len k w) = pbytes p (ITEM_OFFSET v) (item_len k w)"
    | "ITEM_OFFSET v + pool_size p < tail p'" using gr unfolding log_grows_def by blast
  then show "live_slot p' xs' A' f i v k w \<or> ITEM_OFFSET v + pool_size p < tail p'"
  proof cases
    case 1
    then show ?thesis using holds_cong [OF 1(2)] l A [of k w] by (auto simp: live_slot_def)
  qed simp
qed

text \<open>Appending an item and filling it in leaves the other items alone.\<close>

lemma append_frame:
  assumes log: "pool_log p xs" and n: "n = ROUNDUP8 n" "8 \<le> n" "n \<le> MINIMUM_POOL_SIZE" "tail p + n < 2 ^ 40"
  obtains p1 xs' where "mehcached_pool_allocate p n = Some (tail p, p1)" "tail p1 = tail p + n"
    "(tail p, n) \<in> set xs'" "pool_log p1 xs'" "log_grows p xs p1 xs'" "le_val (pbytes p1 (tail p) 8) = n"
    "\<And>x m. (x, m) \<in> set xs' \<Longrightarrow> x \<noteq> tail p \<Longrightarrow> (x, m) \<in> set xs"
    "\<And>p2. item_frame p1 p2 (tail p) n \<Longrightarrow> le_val (pbytes p2 (tail p) 8) = n \<Longrightarrow>
      pool_log p2 xs' \<and> log_grows p xs p2 xs' \<and> tail p2 = tail p + n"
proof -
  have "n \<le> pool_size p" using pool_geomD(2) [OF pool_log_line(1) [OF log]] n(3) by (simp add: MINIMUM_POOL_SIZE_def)
  from pool_push [OF log n(1,2) this n(4)] obtain p1 k where p1: "mehcached_pool_allocate p n = Some (tail p, p1)"
    "k \<le> length xs" "pool_log p1 (drop k xs @ [(tail p, n)])" "tail p1 = tail p + n"
    "p1 = p\<lparr>pool_data := pool_data p1, head := head p1, tail := tail p1\<rparr>"
    "\<And>x m. (x, m) \<in> set (take k xs) \<Longrightarrow> x + pool_size p < tail p1"
    "\<And>x m j. (x, m) \<in> set (drop k xs) \<Longrightarrow> j \<le> m \<Longrightarrow> pbytes p1 x j = pbytes p x j"
    "pbytes p1 (tail p) 8 = le_bytes 8 n"
    by metis
  let ?xs = "drop k xs @ [(tail p, n)]"
  have f: "pool_size p1 = pool_size p" "pool_mode p1 = pool_mode p" "pool_lock p1 = pool_lock p" by (subst p1(5), simp)+
  have split: "set xs = set (take k xs) \<union> set (drop k xs)" by (metis append_take_drop_id set_append)
  have gr: "log_grows p xs p1 ?xs"
    using p1(4,6,7) f by (auto simp: log_grows_def split)
  have "pool_log p2 ?xs \<and> log_grows p xs p2 ?xs \<and> tail p2 = tail p + n"
    if fr: "item_frame p1 p2 (tail p) n" "le_val (pbytes p2 (tail p) 8) = n" for p2
  proof -
    note fl = frame_log [OF p1(3) _ fr]
    have "pbytes p2 x m = pbytes p x m" if x: "(x, m) \<in> set (drop k xs)" for x m
    proof -
      have "(x, m) \<in> set xs" using x split by blast
      then have "x \<noteq> tail p" using pool_log_item [OF log] by fastforce
      then show ?thesis using fl(2) [of x m] p1(7) [OF x] x by simp
    qed
    then have "log_grows p xs p2 ?xs"
      using p1(4,6) f item_frameD [OF fr(1)] by (auto simp: log_grows_def split)
    then show ?thesis using fl(1) p1(4) item_frameD(3) [OF fr(1)] by simp
  qed
  moreover have "le_val (pbytes p1 (tail p) 8) = n" using p1(8) n(4) by (simp add: le_val_le_bytes)
  moreover have "(x, m) \<in> set xs" if "(x, m) \<in> set ?xs" "x \<noteq> tail p" for x m
    using that split by auto
  ultimately show thesis using that [OF p1(1,4) _ p1(3) gr] by simp
qed

subsection \<open>The invariant\<close>

definition mica_inv :: "mehcached_table \<Rightarrow> (nat \<times> nat) list \<Rightarrow> (mkey \<Rightarrow> mval option) \<Rightarrow> bool" where
  "mica_inv t xs A \<longleftrightarrow> pool_log (alloc t) xs \<and> pool_lock (alloc t) = 0 \<and> tail (alloc t) < 2 ^ 40 \<and> access_mode t \<le> 2 \<and>
     (\<exists>m. num_buckets t = 2 ^ m) \<and> num_buckets_mask t = num_buckets t - 1 \<and> length (buckets t) = num_buckets t \<and>
     (\<forall>i<num_buckets t. bucket_free (buckets t ! i) \<and>
       slots_ok (alloc t) xs A (mehcached_calc_bucket_index t) i (item_vec (buckets t ! i)))"

definition mica_rel :: "mehcached_table \<Rightarrow> (mkey \<Rightarrow> mval option) \<Rightarrow> bool" where
  "mica_rel t A \<longleftrightarrow> (\<exists>xs. mica_inv t xs A)"

text \<open>The table holds the value \<open>w\<close> for the key \<open>k\<close>.\<close>

definition cached :: "mehcached_table \<Rightarrow> mkey \<Rightarrow> mval \<Rightarrow> bool" where
  "cached t k w \<longleftrightarrow> (\<exists>j<15. let v = item_vec (buckets t ! mehcached_calc_bucket_index t (fst k)) ! j
     in TAG v = mehcached_calc_tag (fst k) \<and> mehcached_pool_is_valid (alloc t) (ITEM_OFFSET v) \<and>
       holds (alloc t) (ITEM_OFFSET v) k w)"

lemma mica_invD [wf_simps]:
  assumes "mica_inv t xs A"
  shows "pool_log (alloc t) xs" "pool_geom (alloc t)" "pool_lock (alloc t) = 0" "tail (alloc t) < 2 ^ 40"
    "access_mode t \<le> 2" "mehcached_calc_bucket_index t h < num_buckets t" "length (buckets t) = num_buckets t"
    "i < num_buckets t \<Longrightarrow> bucket_free (buckets t ! i)"
    "i < num_buckets t \<Longrightarrow> length (item_vec (buckets t ! i)) = 15"
    "i < num_buckets t \<Longrightarrow> slots_ok (alloc t) xs A (mehcached_calc_bucket_index t) i (item_vec (buckets t ! i))"
proof -
  obtain m where m: "num_buckets t = 2 ^ m" "num_buckets_mask t = 2 ^ m - 1" using assms by (auto simp: mica_inv_def)
  show "mehcached_calc_bucket_index t h < num_buckets t"
    using mask_mod [of _ m] by (simp add: mehcached_calc_bucket_index_def m)
qed (use assms pool_log_line(1) in \<open>auto simp: mica_inv_def slots_ok_def\<close>)

lemma bucket_index_frame [simp]:
  "mehcached_calc_bucket_index (put_bucket t i b) = mehcached_calc_bucket_index t"
  "mehcached_calc_bucket_index (t\<lparr>alloc := p\<rparr>) = mehcached_calc_bucket_index t"
  "mehcached_calc_bucket_index (t\<lparr>buckets := bs\<rparr>) = mehcached_calc_bucket_index t"
  by (simp_all add: fun_eq_iff mehcached_calc_bucket_index_def put_bucket_def)

lemma put_bucket_frame [simp]:
  "alloc (put_bucket t i b) = alloc t" "access_mode (put_bucket t i b) = access_mode t"
  "num_buckets (put_bucket t i b) = num_buckets t" "num_buckets_mask (put_bucket t i b) = num_buckets_mask t"
  "buckets (put_bucket t i b) = (buckets t)[i := b]"
  by (simp_all add: put_bucket_def)

lemma inv_put:
  assumes "mica_inv t xs A" "i < num_buckets t" "bucket_free b"
    and "pool_log p xs'" "pool_lock p = 0" "tail p < 2 ^ 40"
    and "slots_ok p xs' A' (mehcached_calc_bucket_index t) i (item_vec b)"
    and "\<And>i' v. i' < num_buckets t \<Longrightarrow> i' \<noteq> i \<Longrightarrow> slot_ok (alloc t) xs A (mehcached_calc_bucket_index t) i' v \<Longrightarrow>
      slot_ok p xs' A' (mehcached_calc_bucket_index t) i' v"
  shows "mica_inv (put_bucket (t\<lparr>alloc := p\<rparr>) i b) xs' A'"
proof -
  have "slots_ok p xs' A' (mehcached_calc_bucket_index t) i' (item_vec (buckets t ! i'))"
    if "i' < num_buckets t" "i' \<noteq> i" for i'
    using assms(8) [OF that] mica_invD(10) [OF assms(1) that(1)] by (simp add: slots_ok_def)
  then show ?thesis
    using assms(1-7) by (auto simp: mica_inv_def nth_list_update)
qed

lemma slots_live_nth: "slots_ok p xs A f i vs \<Longrightarrow> j < 15 \<Longrightarrow> slot_ok p xs A f i (vs ! j)"
  by (simp add: slots_ok_def)

text \<open>A valid slot is live.\<close>

lemma valid_live:
  assumes "mica_inv t xs A" "i < num_buckets t" "j < 15" "v = item_vec (buckets t ! i) ! j" "v \<noteq> 0"
    "mehcached_pool_is_valid (alloc t) (ITEM_OFFSET v)"
  obtains k w where "live_slot (alloc t) xs A (mehcached_calc_bucket_index t) i v k w"
  using slots_live_nth [OF mica_invD(10) [OF assms(1,2)] assms(3)] assms(4-6)
    slot_valid(1) [OF mica_invD(1,4) [OF assms(1)], of v]
  by (auto simp: slot_ok_def)

lemma cached_value:
  assumes inv: "mica_inv t xs A" and c: "cached t k w"
  shows "A k = Some w"
proof -
  let ?i = "mehcached_calc_bucket_index t (fst k)"
  obtain j where j: "j < 15" "TAG (item_vec (buckets t ! ?i) ! j) = mehcached_calc_tag (fst k)"
    "mehcached_pool_is_valid (alloc t) (ITEM_OFFSET (item_vec (buckets t ! ?i) ! j))"
    "holds (alloc t) (ITEM_OFFSET (item_vec (buckets t ! ?i) ! j)) k w"
    using c by (auto simp: cached_def Let_def)
  have "item_vec (buckets t ! ?i) ! j \<noteq> 0" using j(2) calc_tag_bounds(1) [of "fst k"] by (metis TAG_0)
  from valid_live [OF inv mica_invD(6) [OF inv] j(1) refl this j(3)] obtain k' w' where
    l: "live_slot (alloc t) xs A (mehcached_calc_bucket_index t) ?i (item_vec (buckets t ! ?i) ! j) k' w'" .
  then have "holds (alloc t) (ITEM_OFFSET (item_vec (buckets t ! ?i) ! j)) k' w'" "A k' = Some w'"
    by (simp_all add: live_slot_def)
  then show ?thesis using holds_unique [OF j(4), of k' w'] by simp
qed

lemma clear_invalid_valid:
  "j < length vs \<Longrightarrow> mehcached_pool_is_valid p (ITEM_OFFSET (vs ! j)) \<Longrightarrow> clear_invalid p vs ! j = vs ! j"
  by (simp add: clear_invalid_def)

lemma inv_cleanup:
  assumes inv: "mica_inv t xs A"
  obtains t' where "mehcached_cleanup_bucket t old new = Some t'" "mica_inv t' xs A"
    "\<forall>k w. cached t k w \<longrightarrow> cached t' k w" "alloc t' = alloc t"
proof -
  obtain m where m: "num_buckets t = 2 ^ m" "num_buckets_mask t = 2 ^ m - 1" using inv by (auto simp: mica_inv_def)
  note d = mica_invD [OF inv, unfolded m(1)]
  obtain bs where bs: "mehcached_cleanup_bucket t old new = Some (t\<lparr>buckets := bs\<rparr>)" "length bs = 2 ^ m"
    "\<And>i. i < 2 ^ m \<Longrightarrow> cleaned (alloc t) (buckets t ! i) (bs ! i)"
    using cleanup_bucket_ends [OF m(2) d(7,5,8)] by metis
  have "mica_inv (t\<lparr>buckets := bs\<rparr>) xs A"
    using inv bs(2,3) clear_invalid_slots m(1) unfolding mica_inv_def by (fastforce simp: cleaned_def)
  moreover have "cached (t\<lparr>buckets := bs\<rparr>) k w" if c: "cached t k w" for k w
  proof -
    let ?i = "mehcached_calc_bucket_index t (fst k)"
    obtain j where j: "j < 15" "TAG (item_vec (buckets t ! ?i) ! j) = mehcached_calc_tag (fst k)"
      "mehcached_pool_is_valid (alloc t) (ITEM_OFFSET (item_vec (buckets t ! ?i) ! j))"
      "holds (alloc t) (ITEM_OFFSET (item_vec (buckets t ! ?i) ! j)) k w"
      using c by (auto simp: cached_def Let_def)
    have "item_vec (bs ! ?i) ! j = item_vec (buckets t ! ?i) ! j"
      using bs(3) [OF d(6), of "fst k"] clear_invalid_valid [OF _ j(3)] d(9) [OF d(6), of "fst k"] j(1)
      unfolding cleaned_def by metis
    then show ?thesis using j by (auto simp: cached_def Let_def)
  qed
  ultimately show thesis using that [OF bs(1)] by simp
qed

subsection \<open>Setting a value\<close>

lemma slots_tag_other:
  assumes "slots_ok p xs A f i vs" "j < 15" "TAG (vs ! j) = mehcached_calc_tag h" "j' < 15" "j' \<noteq> j"
  shows "TAG (vs ! j') \<noteq> mehcached_calc_tag h"
proof -
  have "vs ! j \<noteq> 0" using assms(3) calc_tag_bounds(1) [of h] by (metis TAG_0)
  moreover have "tags_distinct vs" using assms(1) by (simp add: slots_ok_def)
  ultimately have "TAG (vs ! j) \<noteq> TAG (vs ! j')" using assms(2,4,5) unfolding tags_distinct_def by blast
  then show ?thesis using assms(3) by simp
qed

text \<open>The slot a set writes to is the only one in the bucket that can have the tag of the key.\<close>

lemma set_slot:
  assumes ok: "slots_ok p xs A f i vs" and b: "item_vec b = vs"
    and found: "is_first (\<lambda>j. item_matches q (vs ! j) (kh, kl, kb)) 0 found"
  obtains j where "j < 15" "\<And>j'. j' < 15 \<Longrightarrow> j' \<noteq> j \<Longrightarrow> TAG (vs ! j') \<noteq> mehcached_calc_tag kh"
    "(if found \<noteq> ITEMS_PER_BUCKET then Some found
      else do {
        same \<leftarrow> mehcached_find_same_tag b (mehcached_calc_tag kh);
        if same = ITEMS_PER_BUCKET then mehcached_find_empty_or_oldest q b else Some same
      }) = Some j"
    "found < 15 \<Longrightarrow> j = found"
proof (cases "found < 15")
  case True
  then have "TAG (vs ! found) = mehcached_calc_tag kh" using found by (simp add: is_first_def)
  then show thesis using that [of found] True slots_tag_other [OF ok True] by auto
next
  case False
  then have f: "found = 15" using found by (simp add: is_first_def)
  have len: "length (item_vec b) = 15" using ok b by (simp add: slots_ok_def)
  obtain same where s: "mehcached_find_same_tag b (mehcached_calc_tag kh) = Some same"
    "is_first (\<lambda>j. TAG (item_vec b ! j) = mehcached_calc_tag kh) 0 same"
    using find_same_tag_first [OF len] by metis
  obtain o1 where o1: "o1 < 15" "mehcached_find_empty_or_oldest q b = Some o1"
    using find_empty_or_oldest_result [OF len, of q] by metis
  show thesis
  proof (cases "same < 15")
    case True
    then have "TAG (vs ! same) = mehcached_calc_tag kh" using s(2) b by (simp add: is_first_def)
    then show thesis using that [of same] True slots_tag_other [OF ok True] s(1) f by auto
  next
    case False
    then have "same = 15" using s(2) by (simp add: is_first_def)
    then show thesis using that [of o1] o1 s b f by (auto simp: is_first_def)
  qed
qed

text \<open>Slots of other keys stay as they were when an item is rewritten in place.\<close>

lemma inplace_slot:
  assumes log: "pool_log p xs" and x: "(x, n) \<in> set xs" and fr: "item_frame p p' x n"
    and hd: "le_val (pbytes p' x 8) = n" and K: "holds p x K w0"
    and ok: "slot_ok p xs A f i v" and other: "i \<noteq> f (fst K) \<or> TAG v \<noteq> mehcached_calc_tag (fst K)"
  shows "slot_ok p' xs (A(K \<mapsto> w)) f i v"
proof (rule slot_transfer [OF ok])
  show "pool_size p' = pool_size p" "tail p \<le> tail p'" using item_frameD [OF fr] by simp_all
  fix k w1 assume l: "live_slot p xs A f i v k w1"
  have "k \<noteq> K" using l other by (auto simp: live_slot_def)
  then have "ITEM_OFFSET v \<noteq> x" using holds_unique(1) [OF K, of k w1] l by (auto simp: live_slot_def)
  then have "pbytes p' (ITEM_OFFSET v) (item_len k w1) = pbytes p (ITEM_OFFSET v) (item_len k w1)"
    using frame_log(2) [OF log x fr hd] l by (simp add: live_slot_def)
  then show "live_slot p' xs (A(K \<mapsto> w)) f i v k w1 \<or> ITEM_OFFSET v + pool_size p < tail p'"
    using l \<open>k \<noteq> K\<close> holds_cong [of p' "ITEM_OFFSET v" k w1 p] by (simp add: live_slot_def)
qed

text \<open>Publishing an appended item in a slot of its bucket.\<close>

lemma publish:
  assumes inv: "mica_inv t xs A" and gr: "log_grows (alloc t) xs p xs'" and log: "pool_log p xs'"
    and lock: "pool_lock p = 0" and room: "tail p < 2 ^ 40" and x: "x < 2 ^ 40"
    and K: "i = mehcached_calc_bucket_index t (fst K)" "(x, item_len K w) \<in> set xs'" "holds p x K w"
    and j: "j < 15" "\<And>j'. j' < 15 \<Longrightarrow> j' \<noteq> j \<Longrightarrow> TAG (item_vec (buckets t ! i) ! j') \<noteq> mehcached_calc_tag (fst K)"
    and b: "bucket_free b" "item_vec b = (item_vec (buckets t ! i))[j := ITEM_VEC (mehcached_calc_tag (fst K)) x]"
  shows "mica_inv (put_bucket (t\<lparr>alloc := p\<rparr>) i b) xs' (A(K \<mapsto> w))"
    "cached (put_bucket (t\<lparr>alloc := p\<rparr>) i b) K w"
proof -
  let ?v = "ITEM_VEC (mehcached_calc_tag (fst K)) x" and ?f = "mehcached_calc_bucket_index t"
  note d = mica_invD [OF inv]
  have i: "i < num_buckets t" using d(6) K(1) by simp
  note v = item_vec_parts [OF x, of "mehcached_calc_tag (fst K)"]
  have live: "live_slot p xs' (A(K \<mapsto> w)) ?f i ?v K w" using K v by (simp add: live_slot_def)
  have rest: "slot_ok p xs' (A(K \<mapsto> w)) ?f i' v'"
    if "slot_ok (alloc t) xs A ?f i' v'" "i' \<noteq> i \<or> TAG v' \<noteq> mehcached_calc_tag (fst K)" for i' v'
    by (rule grows_slot [OF gr that(1)]) (use that(2) K(1) in \<open>auto split: if_splits\<close>)
  have "slots_ok p xs' (A(K \<mapsto> w)) ?f i (item_vec b)"
    unfolding b(2)
  proof (rule slots_update [OF d(10) [OF i] j(1)])
    show "slot_ok p xs' (A(K \<mapsto> w)) ?f i (item_vec (buckets t ! i) ! j')" if "j' < 15" "j' \<noteq> j" for j'
      using rest [OF slots_live_nth [OF d(10) [OF i] that(1)]] j(2) [OF that] by blast
    show "slot_ok p xs' (A(K \<mapsto> w)) ?f i ?v" using live unfolding slot_ok_def by blast
  qed (use j(2) v in auto)
  then show inv': "mica_inv (put_bucket (t\<lparr>alloc := p\<rparr>) i b) xs' (A(K \<mapsto> w))"
    using inv_put [OF inv i b(1) log lock room] rest by blast
  show "cached (put_bucket (t\<lparr>alloc := p\<rparr>) i b) K w"
    using j(1) slot_valid(2) [OF log room live] v K i d(7,9) b(2)
    by (auto simp: cached_def Let_def intro!: exI [of _ j])
qed

lemma set_in_place:
  assumes inv: "mica_inv t xs A" and kl: "kl \<le> 255" "ROUNDUP8 kl \<le> length key" and vl: "vl \<le> 1048575" "ROUNDUP8 vl \<le> length val"
    and K: "K = (kh, kl, take (ROUNDUP8 kl) key)" and w: "w = (vl, take (ROUNDUP8 vl) val)"
    and i: "i = mehcached_calc_bucket_index t kh" and v: "v = item_vec (buckets t ! i) ! j" "j < 15"
    and m: "item_matches (alloc t) v K" "mehcached_pool_is_valid (alloc t) (ITEM_OFFSET v)"
    and same: "\<And>w0. A K = Some w0 \<Longrightarrow> ROUNDUP8 (fst w0) = ROUNDUP8 vl"
    and b: "bucket_free b" "item_vec b = item_vec (buckets t ! i)"
  shows "\<exists>p. load_word (alloc t) (mehcached_pool_item (alloc t) (ITEM_OFFSET v)) 8 = Some (item_len K w) \<and>
    mehcached_set_item_value (alloc t\<lparr>pool_lock := l\<rparr>) (mehcached_pool_item (alloc t) (ITEM_OFFSET v)) val vl ex = Some p \<and>
    pool_mode p = pool_mode (alloc t) \<and> pool_lock p = l \<and> tail p = tail (alloc t) \<and>
    mica_inv (put_bucket (t\<lparr>alloc := p\<lparr>pool_lock := 0\<rparr>\<rparr>) i b) xs (A(K \<mapsto> w)) \<and>
    cached (put_bucket (t\<lparr>alloc := p\<lparr>pool_lock := 0\<rparr>\<rparr>) i b) K w"
proof -
  note d = mica_invD [OF inv]
  let ?p = "alloc t" and ?x = "ITEM_OFFSET v" and ?f = "mehcached_calc_bucket_index t"
  have iN: "i < num_buckets t" using d(6) i by simp
  have tag: "TAG v = mehcached_calc_tag kh" using m(1) by (simp add: K)
  then have "v \<noteq> 0" using calc_tag_bounds(1) [of kh] by (metis TAG_0)
  from valid_live [OF inv iN v(2,1) this m(2)] obtain k0 w0 where live: "live_slot ?p xs A ?f i v k0 w0" .
  obtain kh0 kl0 kb0 vl0 vb0 where k0: "k0 = (kh0, kl0, kb0)" "w0 = (vl0, vb0)" by (cases k0; cases w0)
  have "holds ?p ?x k0 w0" using live by (simp add: live_slot_def)
  then have "k0 = K" using holds_matches [of ?p ?x kh0 kl0 kb0 vl0 vb0 v] m(1) by (simp add: k0 K)
  then have h: "holds ?p ?x K w0" and x: "(?x, item_len K w0) \<in> set xs" and A: "A K = Some w0"
    using live by (simp_all add: live_slot_def)
  have r: "ROUNDUP8 vl0 = ROUNDUP8 vl" using same [OF A] k0 by simp
  then have len: "item_len K w0 = item_len K w" by (simp add: K w k0)
  have "load_word ?p (mehcached_pool_item ?p ?x) 8 = Some (item_len K w)"
    using load_item [OF d(2), of 0 8 ?x] h len by (simp add: load_word_def MINIMUM_POOL_SIZE_def K k0)
  moreover obtain p where p: "mehcached_set_item_value (?p\<lparr>pool_lock := l\<rparr>) (mehcached_pool_item ?p ?x) val vl ex = Some p"
    "item_frame (?p\<lparr>pool_lock := l\<rparr>) p ?x (item_len K w)" "holds p ?x K w"
    using set_item_value_holds [of "?p\<lparr>pool_lock := l\<rparr>" ?x kh kl "take (ROUNDUP8 kl) key" vl0 vb0 vl val ex] d(2) h vl r
    by (auto simp: K w k0)
  note fr = item_frameD [OF p(2)]
  have hd: "le_val (pbytes p ?x 8) = item_len K w" using p(3) by (simp add: K w)
  have log0: "pool_log (?p\<lparr>pool_lock := l\<rparr>) xs" using d(1) by simp
  have x': "(?x, item_len K w) \<in> set xs" using x len by simp
  have log: "pool_log p xs" by (rule frame_log(1) [OF log0 x' p(2) hd])
  let ?q = "p\<lparr>pool_lock := 0\<rparr>"
  have other: "slot_ok ?q xs (A(K \<mapsto> w)) ?f i' v'"
    if "slot_ok ?p xs A ?f i' v'" "i' \<noteq> i \<or> TAG v' \<noteq> mehcached_calc_tag kh" for i' v'
    using inplace_slot [OF log0 x' p(2) hd, of K w0 A ?f i' v' w] that h i by (auto simp: K)
  have live': "live_slot ?q xs (A(K \<mapsto> w)) ?f i v K w" using p(3) x' tag i by (simp add: live_slot_def K)
  have "slots_ok ?q xs (A(K \<mapsto> w)) ?f i ((item_vec (buckets t ! i))[j := v])"
  proof (rule slots_update [OF d(10) [OF iN] v(2)])
    show "slot_ok ?q xs (A(K \<mapsto> w)) ?f i (item_vec (buckets t ! i) ! j')" if "j' < 15" "j' \<noteq> j" for j'
      using other [OF slots_live_nth [OF d(10) [OF iN] that(1)]] slots_tag_other [OF d(10) [OF iN] v(2) _ that] tag v(1)
      by auto
    show "slot_ok ?q xs (A(K \<mapsto> w)) ?f i v" using live' unfolding slot_ok_def by blast
    show "v = 0 \<or> (\<forall>j'<15. j' \<noteq> j \<longrightarrow> TAG (item_vec (buckets t ! i) ! j') \<noteq> TAG v)"
      using slots_tag_other [OF d(10) [OF iN] v(2)] tag v(1) by auto
  qed
  then have "slots_ok ?q xs (A(K \<mapsto> w)) ?f i (item_vec b)" using v(1) b(2) by simp
  then have "mica_inv (put_bucket (t\<lparr>alloc := ?q\<rparr>) i b) xs (A(K \<mapsto> w))"
    using inv_put [OF inv iN b(1), of ?q] log other d(4) fr(3) by auto
  moreover have "cached (put_bucket (t\<lparr>alloc := ?q\<rparr>) i b) K w"
    using slot_valid(2) [OF _ _ live'] log d(4,7,9) fr(3) p(3) tag v iN i b(2)
    by (auto simp: cached_def Let_def K)
  ultimately show ?thesis using p(1) fr by auto
qed

lemma set_append:
  assumes inv: "mica_inv t xs A" and kl: "kl \<le> 255" "ROUNDUP8 kl \<le> length key" and vl: "vl \<le> 1048575" "ROUNDUP8 vl \<le> length val"
    and kh: "kh < 2 ^ 64" and K: "K = (kh, kl, take (ROUNDUP8 kl) key)" and w: "w = (vl, take (ROUNDUP8 vl) val)"
    and room: "tail (alloc t) + item_len K w < 2 ^ 40"
    and i: "i = mehcached_calc_bucket_index t kh" and j: "j < 15"
      "\<And>j'. j' < 15 \<Longrightarrow> j' \<noteq> j \<Longrightarrow> TAG (item_vec (buckets t ! i) ! j') \<noteq> mehcached_calc_tag kh"
    and b: "bucket_free b" "item_vec b = (item_vec (buckets t ! i))[j := ITEM_VEC (mehcached_calc_tag kh) (tail (alloc t))]"
  shows "\<exists>p1 p2 xs'. mehcached_pool_allocate (alloc t\<lparr>pool_lock := l\<rparr>) (item_len K w) = Some (tail (alloc t), p1) \<and>
    mehcached_set_item p1 (mehcached_pool_item p1 (tail (alloc t))) kh key kl val vl ex = Some p2 \<and>
    pool_mode p2 = pool_mode (alloc t) \<and> pool_lock p2 = l \<and> tail p2 = tail (alloc t) + item_len K w \<and>
    mica_inv (put_bucket (t\<lparr>alloc := p2\<lparr>pool_lock := 0\<rparr>\<rparr>) i b) xs' (A(K \<mapsto> w)) \<and>
    cached (put_bucket (t\<lparr>alloc := p2\<lparr>pool_lock := 0\<rparr>\<rparr>) i b) K w"
proof -
  note d = mica_invD [OF inv]
  let ?p = "alloc t" and ?n = "item_len K w"
  have n: "?n = 24 + ROUNDUP8 kl + ROUNDUP8 vl" by (simp add: K w)
  note lb = item_len_bounds [OF kl(1) vl(1), folded n]
  have log: "pool_log (?p\<lparr>pool_lock := l\<rparr>) xs" using d(1) by simp
  have n8: "8 \<le> ?n" and tl: "tail (?p\<lparr>pool_lock := l\<rparr>) = tail ?p" and room': "tail (?p\<lparr>pool_lock := l\<rparr>) + ?n < 2 ^ 40"
    using room n by simp_all
  obtain p1 xs' where p1: "mehcached_pool_allocate (?p\<lparr>pool_lock := l\<rparr>) ?n = Some (tail ?p, p1)"
    "(tail ?p, ?n) \<in> set xs'" "pool_log p1 xs'" "log_grows (?p\<lparr>pool_lock := l\<rparr>) xs p1 xs'" "le_val (pbytes p1 (tail ?p) 8) = ?n"
    "\<And>p2. item_frame p1 p2 (tail ?p) ?n \<Longrightarrow> le_val (pbytes p2 (tail ?p) 8) = ?n \<Longrightarrow>
      pool_log p2 xs' \<and> log_grows (?p\<lparr>pool_lock := l\<rparr>) xs p2 xs' \<and> tail p2 = tail ?p + ?n"
    using append_frame [OF log lb(3) n8 lb(1) room', unfolded tl] by metis
  obtain p2 where p2: "mehcached_set_item p1 (mehcached_pool_item p1 (tail ?p)) kh key kl val vl ex = Some p2"
    "item_frame p1 p2 (tail ?p) ?n" "holds p2 (tail ?p) K w"
    using set_item_holds [OF pool_log_line(1) [OF p1(3)] kl(1) vl(1) kh kl(2) vl(2), of "tail ?p" ex] p1(5) n
    by (auto simp: K w)
  have "le_val (pbytes p2 (tail ?p) 8) = ?n" using p2(3) by (simp add: K w)
  with p1(6) [OF p2(2)] have g: "pool_log p2 xs'" "log_grows (?p\<lparr>pool_lock := l\<rparr>) xs p2 xs'" "tail p2 = tail ?p + ?n" by auto
  let ?q = "p2\<lparr>pool_lock := 0\<rparr>"
  have gq: "log_grows ?p xs ?q xs'" using g(2) d(3) by (auto simp: log_grows_def)
  have fst: "fst K = kh" by (simp add: K)
  have q: "pool_log ?q xs'" "pool_lock ?q = 0" "tail ?q < 2 ^ 40" "holds ?q (tail ?p) K w"
    using g(1,3) room p2(3) by simp_all
  note pub = publish [OF inv gq q(1,2,3) d(4) i [folded fst] p1(2) q(4) j [folded fst] b [folded fst]]
  show ?thesis using p1(1) p2(1) g(2,3) pub by (auto simp: log_grows_def)
qed

lemma set_ok:
  assumes inv: "mica_inv t xs A" and kl: "kl \<le> 255" "ROUNDUP8 kl \<le> length key" and vl: "vl \<le> 1048575" "ROUNDUP8 vl \<le> length val"
    and kh: "kh < 2 ^ 64" and K: "K = (kh, kl, take (ROUNDUP8 kl) key)" and w: "w = (vl, take (ROUNDUP8 vl) val)"
    and room: "tail (alloc t) + item_len K w < 2 ^ 40"
    and same: "\<And>w0. A K = Some w0 \<Longrightarrow> ROUNDUP8 (fst w0) = ROUNDUP8 vl"
  shows "\<exists>t' xs'. mehcached_set t kh key kl val vl ex True = Some (True, t') \<and> mica_inv t' xs' (A(K \<mapsto> w)) \<and>
    cached t' K w \<and> tail (alloc t') \<le> tail (alloc t) + item_len K w"
proof -
  note d = mica_invD [OF inv]
  let ?i = "mehcached_calc_bucket_index t kh" and ?p = "alloc t" and ?tag = "mehcached_calc_tag kh"
  let ?b = "buckets t ! ?i" let ?vs = "item_vec ?b"
  have iN: "?i < num_buckets t" using d(6) .
  obtain b1 where b1: "mehcached_lock_bucket (access_mode t) ?b = Some b1" "item_vec b1 = ?vs"
    "\<And>vs. \<exists>b2. mehcached_unlock_bucket (access_mode t) (b1\<lparr>item_vec := vs\<rparr>) = Some b2 \<and> item_vec b2 = vs \<and> bucket_free b2"
    using lock_unlock_bucket [OF d(8) [OF iN] d(5)] by metis
  have len: "length (item_vec b1) = 15" using d(9) [OF iN] b1(2) by simp
  obtain found where found: "mehcached_find_item_index ?p b1 kh ?tag key kl = Some found"
    "is_first (\<lambda>j. item_matches ?p (?vs ! j) K) 0 found"
    by (rule find_item_first [OF d(2) len kl, where kh = kh, unfolded b1(2), folded K])
  obtain j where j: "j < 15" "\<And>j'. j' < 15 \<Longrightarrow> j' \<noteq> j \<Longrightarrow> TAG (?vs ! j') \<noteq> ?tag"
    "(if found \<noteq> ITEMS_PER_BUCKET then Some found
      else do {
        same \<leftarrow> mehcached_find_same_tag b1 ?tag;
        if same = ITEMS_PER_BUCKET then mehcached_find_empty_or_oldest ?p b1 else Some same
      }) = Some j" "found < 15 \<Longrightarrow> j = found"
    using set_slot [OF d(10) [OF iN] b1(2) found(2) [unfolded K]] by blast
  obtain l where l: "mehcached_pool_lock ?p = Some (?p\<lparr>pool_lock := l\<rparr>)"
    "\<And>q. pool_mode q = pool_mode ?p \<Longrightarrow> pool_lock q = l \<Longrightarrow> mehcached_pool_unlock q = Some (q\<lparr>pool_lock := 0\<rparr>)"
    using pool_lock_free [OF d(3)] by metis
  have n: "u32 (24 + ROUNDUP8 kl + ROUNDUP8 vl) = item_len K w"
    using item_len_bounds(2) [OF kl(1) vl(1)] by (simp add: K w)
  let ?v = "?vs ! j"
  have set_eq: "mehcached_set t kh key kl val vl ex True = do {
      fits \<leftarrow> (if found \<noteq> 15 \<and> mehcached_pool_is_valid ?p (ITEM_OFFSET ?v)
               then do { sz \<leftarrow> load_word ?p (mehcached_pool_item ?p (ITEM_OFFSET ?v)) 8; Some (item_len K w \<le> sz) }
               else Some False);
      if fits then do {
        p \<leftarrow> mehcached_set_item_value (?p\<lparr>pool_lock := l\<rparr>) (mehcached_pool_item ?p (ITEM_OFFSET ?v)) val vl ex;
        p \<leftarrow> mehcached_pool_unlock p;
        b \<leftarrow> mehcached_unlock_bucket (access_mode t) b1;
        Some (True, put_bucket (t\<lparr>alloc := p\<rparr>) ?i b)
      }
      else do {
        (x, p) \<leftarrow> mehcached_pool_allocate (?p\<lparr>pool_lock := l\<rparr>) (item_len K w);
        let new_tail = tail p;
        p \<leftarrow> mehcached_set_item p (mehcached_pool_item p x) kh key kl val vl ex;
        p \<leftarrow> mehcached_pool_unlock p;
        b \<leftarrow> mehcached_unlock_bucket (access_mode t) (b1\<lparr>item_vec := ?vs[j := ITEM_VEC ?tag x]\<rparr>);
        t \<leftarrow> mehcached_cleanup_bucket (put_bucket (t\<lparr>alloc := p\<rparr>) ?i b) x new_tail;
        Some (True, t)
      }
    }"
    using kl(1) vl(1) iN d(7) b1(1,2) found(1) j(1) j(3) l(1) len
    by (cases "found = 15") (simp_all add: mehcached_set_def Let_def n cong: if_cong)
  show ?thesis
  proof (cases "found \<noteq> 15 \<and> mehcached_pool_is_valid ?p (ITEM_OFFSET ?v)")
    case True
    then have f: "found < 15" "j = found" using found(2) j(4) by (auto simp: is_first_def)
    have m: "item_matches ?p ?v K" using found(2) f by (simp add: is_first_def)
    obtain b2 where b2: "mehcached_unlock_bucket (access_mode t) b1 = Some b2" "item_vec b2 = ?vs" "bucket_free b2"
      using b1(3) [of ?vs] b1(2) by (cases b1) auto
    from set_in_place [OF inv kl vl K w refl refl j(1) m conjunct2 [OF True] same b2(3,2)] obtain p where
      p: "load_word ?p (mehcached_pool_item ?p (ITEM_OFFSET ?v)) 8 = Some (item_len K w)"
        "mehcached_set_item_value (?p\<lparr>pool_lock := l\<rparr>) (mehcached_pool_item ?p (ITEM_OFFSET ?v)) val vl ex = Some p"
        "pool_mode p = pool_mode ?p" "pool_lock p = l" "tail p = tail ?p"
        "mica_inv (put_bucket (t\<lparr>alloc := p\<lparr>pool_lock := 0\<rparr>\<rparr>) ?i b2) xs (A(K \<mapsto> w))"
        "cached (put_bucket (t\<lparr>alloc := p\<lparr>pool_lock := 0\<rparr>\<rparr>) ?i b2) K w" by blast
    have "mehcached_set t kh key kl val vl ex True = Some (True, put_bucket (t\<lparr>alloc := p\<lparr>pool_lock := 0\<rparr>\<rparr>) ?i b2)"
      unfolding set_eq using True p(1,2) l(2) [OF p(3,4)] b2(1) by simp
    then show ?thesis using p(5-7) by fastforce
  next
    case False
    obtain b2 where b2: "mehcached_unlock_bucket (access_mode t) (b1\<lparr>item_vec := ?vs[j := ITEM_VEC ?tag (tail ?p)]\<rparr>) = Some b2"
      "item_vec b2 = ?vs[j := ITEM_VEC ?tag (tail ?p)]" "bucket_free b2"
      using b1(3) by blast
    from set_append [OF inv kl vl kh K w room refl j(1,2) b2(3,2)] obtain p1 p2 xs' where
      p: "mehcached_pool_allocate (?p\<lparr>pool_lock := l\<rparr>) (item_len K w) = Some (tail ?p, p1)"
        "mehcached_set_item p1 (mehcached_pool_item p1 (tail ?p)) kh key kl val vl ex = Some p2"
        "pool_mode p2 = pool_mode ?p" "pool_lock p2 = l" "tail p2 = tail ?p + item_len K w"
        "mica_inv (put_bucket (t\<lparr>alloc := p2\<lparr>pool_lock := 0\<rparr>\<rparr>) ?i b2) xs' (A(K \<mapsto> w))"
        "cached (put_bucket (t\<lparr>alloc := p2\<lparr>pool_lock := 0\<rparr>\<rparr>) ?i b2) K w" by blast
    obtain t' where t': "mehcached_cleanup_bucket (put_bucket (t\<lparr>alloc := p2\<lparr>pool_lock := 0\<rparr>\<rparr>) ?i b2) (tail ?p) (tail p1) = Some t'"
      "mica_inv t' xs' (A(K \<mapsto> w))"
      "\<forall>k w. cached (put_bucket (t\<lparr>alloc := p2\<lparr>pool_lock := 0\<rparr>\<rparr>) ?i b2) k w \<longrightarrow> cached t' k w"
      "alloc t' = alloc (put_bucket (t\<lparr>alloc := p2\<lparr>pool_lock := 0\<rparr>\<rparr>) ?i b2)"
      by (rule inv_cleanup [OF p(6), where old = "tail ?p" and new = "tail p1"])
    have "cached t' K w" using t'(3) p(7) by blast
    moreover have "mehcached_set t kh key kl val vl ex True = Some (True, t')"
      unfolding set_eq using p(1,2) l(2) [OF p(3,4)] b2(1) t'(1) by (simp only: False if_False bind.bind_lunit prod.case Let_def)
    moreover have "tail (alloc t') \<le> tail ?p + item_len K w" using t'(4) p(5) by simp
    ultimately show ?thesis using t'(2) by blast
  qed
qed

end
