(* ===== verification/Mica_Store.thy ===== *)
theory Mica_Store
  imports Mica_Refine
begin

section \<open>The operations of the key-value store against a partial function\<close>

text \<open>
  Gets (with the move of items far from the tail), deletes and the set-up of an empty table against
  the relation of \<open>Mica_Refine\<close>, and the behaviour of whole sequences of operations.
\<close>

subsection \<open>Moving an item to the tail\<close>

lemma move_ok:
  assumes inv: "mica_inv t xs A" and i: "i < num_buckets t" and j: "j < 15" "v = item_vec (buckets t ! i) ! j"
    and live: "live_slot (alloc t) xs A (mehcached_calc_bucket_index t) i v K w"
    and room: "tail (alloc t) + item_len K w < 2 ^ 40"
  shows "\<exists>t' xs'. move_to_head t i (buckets t ! i) j v (item_len K w) = Some t' \<and> mica_inv t' xs' A \<and>
    tail (alloc t') \<le> tail (alloc t) + item_len K w"
proof -
  note d = mica_invD [OF inv]
  let ?p = "alloc t" and ?n = "item_len K w" and ?x = "ITEM_OFFSET v" and ?f = "mehcached_calc_bucket_index t"
  obtain kh kl kb vl vb where K: "K = (kh, kl, kb)" "w = (vl, vb)" by (cases K; cases w)
  have lv: "(?x, ?n) \<in> set xs" "holds ?p ?x K w" "TAG v = mehcached_calc_tag kh" "?f kh = i" "A K = Some w"
    using live by (simp_all add: live_slot_def K)
  have n: "?n = 24 + ROUNDUP8 kl + ROUNDUP8 vl" and kl: "kl \<le> 255" "vl \<le> 1048575" using lv(2) by (simp_all add: K)
  note lb = item_len_bounds [OF kl, folded n]
  obtain b1 where b1: "mehcached_lock_bucket (access_mode t) (buckets t ! i) = Some b1" "item_vec b1 = item_vec (buckets t ! i)"
    "\<And>vs. \<exists>b2. mehcached_unlock_bucket (access_mode t) (b1\<lparr>item_vec := vs\<rparr>) = Some b2 \<and> item_vec b2 = vs \<and> bucket_free b2"
    using lock_unlock_bucket [OF d(8) [OF i] d(5)] by metis
  obtain l where l: "mehcached_pool_lock ?p = Some (?p\<lparr>pool_lock := l\<rparr>)"
    "\<And>q. pool_mode q = pool_mode ?p \<Longrightarrow> pool_lock q = l \<Longrightarrow> mehcached_pool_unlock q = Some (q\<lparr>pool_lock := 0\<rparr>)"
    using pool_lock_free [OF d(3)] by metis
  have log: "pool_log (?p\<lparr>pool_lock := l\<rparr>) xs" using d(1) by simp
  have n8: "8 \<le> ?n" and tl: "tail (?p\<lparr>pool_lock := l\<rparr>) = tail ?p" and room': "tail (?p\<lparr>pool_lock := l\<rparr>) + ?n < 2 ^ 40"
    using room n by simp_all
  obtain p1 xs' where p1: "mehcached_pool_allocate (?p\<lparr>pool_lock := l\<rparr>) ?n = Some (tail ?p, p1)" "tail p1 = tail ?p + ?n"
    "(tail ?p, ?n) \<in> set xs'" "pool_log p1 xs'" "log_grows (?p\<lparr>pool_lock := l\<rparr>) xs p1 xs'"
    "\<And>p2. item_frame p1 p2 (tail ?p) ?n \<Longrightarrow> le_val (pbytes p2 (tail ?p) 8) = ?n \<Longrightarrow>
      pool_log p2 xs' \<and> log_grows (?p\<lparr>pool_lock := l\<rparr>) xs p2 xs' \<and> tail p2 = tail ?p + ?n"
    using append_frame [OF log lb(3) n8 lb(1) room', unfolded tl] by metis
  have grown: "log_grows ?p xs (q\<lparr>pool_lock := 0\<rparr>) xs'" "pool_mode q = pool_mode ?p" "pool_lock q = l"
    if "log_grows (?p\<lparr>pool_lock := l\<rparr>) xs q xs'" for q
    using that d(3) by (auto simp: log_grows_def)
  have room1: "tail p1 < 2 ^ 40" using p1(2) room by simp
  have mv: "move_to_head t i (buckets t ! i) j v ?n = do {
      (p, b) \<leftarrow> (if mehcached_pool_is_valid p1 ?x then do {
           bs \<leftarrow> pool_load p1 (mehcached_pool_item p1 ?x) ?n;
           p \<leftarrow> pool_store p1 (mehcached_pool_item p1 (tail ?p)) bs;
           Some (p, b1\<lparr>item_vec := (item_vec b1)[j := ITEM_VEC (TAG v) (tail ?p)]\<rparr>)
         } else Some (p1, b1));
      p \<leftarrow> mehcached_pool_unlock p;
      b \<leftarrow> mehcached_unlock_bucket (access_mode t) b;
      mehcached_cleanup_bucket (put_bucket (t\<lparr>alloc := p\<rparr>) i b) (tail ?p) (tail p1)
    }"
    using b1(1,2) l(1) p1(1) d(9) [OF i] j lb(3)
    by (simp add: move_to_head_def Let_def cong: if_cong)
  have finish: "\<exists>t' xs'. mehcached_cleanup_bucket u (tail ?p) (tail p1) = Some t' \<and> mica_inv t' xs' A \<and>
      tail (alloc t') \<le> tail ?p + ?n" if "mica_inv u xs' A" "tail (alloc u) = tail ?p + ?n" for u
    using inv_cleanup [OF that(1), where old = "tail ?p" and new = "tail p1"] that(2) by (metis order_refl)
  show ?thesis
  proof (cases "mehcached_pool_is_valid p1 ?x")
    case False
    obtain b2 where b2: "mehcached_unlock_bucket (access_mode t) b1 = Some b2" "item_vec b2 = item_vec (buckets t ! i)" "bucket_free b2"
      using b1(3) [of "item_vec b1"] b1(2) by (cases b1) auto
    let ?q = "p1\<lparr>pool_lock := 0\<rparr>"
    note g = grown [OF p1(5)]
    have slots: "slot_ok ?q xs' A ?f i' v'" if "slot_ok ?p xs A ?f i' v'" for i' v'
      by (rule grows_slot [OF g(1) that])
    have "mica_inv (put_bucket (t\<lparr>alloc := ?q\<rparr>) i b2) xs' A"
    proof (rule inv_put [OF inv i b2(3)])
      show "slots_ok ?q xs' A ?f i (item_vec b2)"
        using d(10) [OF i] slots unfolding slots_ok_def b2(2) by blast
    qed (use p1(4) room1 slots in auto)
    from finish [OF this] show ?thesis
      unfolding mv using False l(2) [OF g(2,3)] b2(1) p1(2) by simp
  next
    case True
    have x1: "(?x, ?n) \<in> set xs'" "pbytes p1 ?x ?n = pbytes ?p ?x ?n"
    proof -
      have "\<not> ?x + pool_size ?p < tail p1"
        using True valid_iff [OF pool_log_line(1) [OF p1(4)] _ room1, of ?x] pool_log_item [OF d(1) lv(1)] p1(2,5)
        by (auto simp: log_grows_def)
      then show "(?x, ?n) \<in> set xs'" "pbytes p1 ?x ?n = pbytes ?p ?x ?n"
        using p1(5) lv(1) by (auto simp: log_grows_def)
    qed
    let ?bs = "pbytes p1 ?x ?n"
    note g1 = pool_log_line(1) [OF p1(4)]
    obtain q where q: "pool_store p1 (mehcached_pool_item p1 (tail ?p)) ?bs = Some q" "item_frame p1 q (tail ?p) ?n"
      "pbytes q (tail ?p) ?n = ?bs"
      using store_item [OF g1 _ lb(1), of 0 ?bs "tail ?p"] by auto
    have hq: "holds q (tail ?p) K w"
      using holds_copy [of q "tail ?p" K w ?p ?x] q(3) x1(2) lv(2) by simp
    then have "le_val (pbytes q (tail ?p) 8) = ?n" by (simp add: K)
    with p1(6) [OF q(2)] have gq: "pool_log q xs'" "log_grows (?p\<lparr>pool_lock := l\<rparr>) xs q xs'" "tail q = tail ?p + ?n" by auto
    let ?r = "q\<lparr>pool_lock := 0\<rparr>"
    note g = grown [OF gq(2)]
    obtain b2 where b2: "mehcached_unlock_bucket (access_mode t) (b1\<lparr>item_vec := (item_vec b1)[j := ITEM_VEC (TAG v) (tail ?p)]\<rparr>) = Some b2"
      "item_vec b2 = (item_vec (buckets t ! i))[j := ITEM_VEC (mehcached_calc_tag (fst K)) (tail ?p)]" "bucket_free b2"
      using b1(3) b1(2) lv(3) by (auto simp: K)
    have other: "TAG (item_vec (buckets t ! i) ! j') \<noteq> mehcached_calc_tag (fst K)" if "j' < 15" "j' \<noteq> j" for j'
      using slots_tag_other [OF d(10) [OF i] j(1) _ that] lv(3) j(2) by (simp add: K)
    have "i = ?f (fst K)" "pool_log ?r xs'" "pool_lock ?r = 0" "tail ?r < 2 ^ 40" "holds ?r (tail ?p) K w"
      using lv(4) gq room hq by (simp_all add: K)
    note pub = publish [OF inv g(1) this(2,3,4) d(4) this(1) p1(3) this(5) j(1) other b2(3,2)]
    have "A(K \<mapsto> w) = A" using lv(5) by (simp add: fun_upd_idem)
    then have "mica_inv (put_bucket (t\<lparr>alloc := ?r\<rparr>) i b2) xs' A" using pub(1) by simp
    from finish [OF this] gq(3) obtain t' ys where "mehcached_cleanup_bucket (put_bucket (t\<lparr>alloc := ?r\<rparr>) i b2) (tail ?p) (tail p1) = Some t'"
      "mica_inv t' ys A" "tail (alloc t') \<le> tail ?p + ?n" by auto
    then show ?thesis
      unfolding mv using True l(2) [OF g(2,3)] b2(1) q(1) load_item [OF g1, of 0 ?n ?x] lb(1) by auto
  qed
qed

subsection \<open>Getting a value\<close>

lemma cached_slot:
  assumes inv: "mica_inv t xs A" and K: "K = (kh, kl, kb)" and c: "cached t K w"
    and found: "is_first (\<lambda>j. item_matches (alloc t) (item_vec (buckets t ! mehcached_calc_bucket_index t kh) ! j) K) 0 found"
  shows "found < 15" "mehcached_pool_is_valid (alloc t)
    (ITEM_OFFSET (item_vec (buckets t ! mehcached_calc_bucket_index t kh) ! found))"
proof -
  let ?vs = "item_vec (buckets t ! mehcached_calc_bucket_index t kh)"
  obtain vl vb where w: "w = (vl, vb)" by (cases w)
  obtain j where j: "j < 15" "TAG (?vs ! j) = mehcached_calc_tag kh"
    "mehcached_pool_is_valid (alloc t) (ITEM_OFFSET (?vs ! j))" "holds (alloc t) (ITEM_OFFSET (?vs ! j)) K w"
    using c by (auto simp: cached_def Let_def K)
  have m: "item_matches (alloc t) (?vs ! j) K"
    unfolding K using holds_matches [OF j(4) [unfolded K w] refl, of kh kl kb] j(2) by blast
  show f: "found < 15"
  proof (rule ccontr)
    assume "\<not> found < 15"
    then show False using found m j(1) by (simp add: is_first_def)
  qed
  have "j = found"
    by (rule first_unique [OF mica_invD(10) [OF inv mica_invD(6) [OF inv]] found [unfolded K] j(1,2) f])
  then show "mehcached_pool_is_valid (alloc t) (ITEM_OFFSET (?vs ! found))" using j(3) by simp
qed

text \<open>The value found in a valid slot whose item matches the key.\<close>

lemma found_live:
  assumes inv: "mica_inv t xs A" and K: "K = (kh, kl, kb)" and i: "i = mehcached_calc_bucket_index t kh"
    and v: "v = item_vec (buckets t ! i) ! j" "j < 15"
    and m: "item_matches (alloc t) v K" "mehcached_pool_is_valid (alloc t) (ITEM_OFFSET v)"
  obtains vl vb where "live_slot (alloc t) xs A (mehcached_calc_bucket_index t) i v K (vl, vb)" "cached t K (vl, vb)"
proof -
  have tag: "TAG v = mehcached_calc_tag kh" using m(1) by (simp add: K)
  then have "v \<noteq> 0" using calc_tag_bounds(1) [of kh] by (metis TAG_0)
  have "i < num_buckets t" using mica_invD(6) [OF inv] i by simp
  from valid_live [OF inv this v(2,1) \<open>v \<noteq> 0\<close> m(2)] obtain k0 w0 where
    live: "live_slot (alloc t) xs A (mehcached_calc_bucket_index t) i v k0 w0" .
  obtain kh0 kl0 kb0 vl0 vb0 where k0: "k0 = (kh0, kl0, kb0)" "w0 = (vl0, vb0)" by (cases k0; cases w0)
  have h: "holds (alloc t) (ITEM_OFFSET v) k0 w0" using live by (simp add: live_slot_def)
  then have "k0 = K" unfolding K k0 using holds_matches [of "alloc t" "ITEM_OFFSET v" kh0 kl0 kb0 vl0 vb0 v] m(1) K by blast
  moreover have "cached t K (vl0, vb0)"
    unfolding cached_def Let_def using v m(2) h tag i \<open>k0 = K\<close> by (intro exI [of _ j]) (simp add: K k0)
  ultimately show thesis using that live k0 by simp
qed

fun get_answer :: "nat \<Rightarrow> mval option \<Rightarrow> get_result \<Rightarrow> bool" where
  "get_answer iv (Some (vl, vb)) (Some (n, out, ex)) \<longleftrightarrow> n = min iv vl \<and> out = take (ROUNDUP8 n) vb"
| "get_answer iv m None \<longleftrightarrow> True"
| "get_answer iv None (Some r) \<longleftrightarrow> False"

definition move_cost :: "mkey \<Rightarrow> mval option \<Rightarrow> nat" where
  "move_cost k m = (case m of None \<Rightarrow> 0 | Some w \<Rightarrow> item_len k w)"

lemma get_ok:
  assumes inv: "mica_inv t xs A" and kl: "kl \<le> 255" "ROUNDUP8 kl \<le> length key" and iv: "iv \<le> 1500"
    and K: "K = (kh, kl, take (ROUNDUP8 kl) key)"
    and room: "tail (alloc t) + move_cost K (A K) < 2 ^ 40"
  shows "\<exists>r t' xs'. mehcached_get t kh key kl iv ro = Some (r, t') \<and> mica_inv t' xs' A \<and> get_answer iv (A K) r \<and>
    (r = None \<longleftrightarrow> (\<forall>w. \<not> cached t K w)) \<and> tail (alloc t') \<le> tail (alloc t) + move_cost K (A K)"
proof -
  note d = mica_invD [OF inv]
  let ?i = "mehcached_calc_bucket_index t kh" and ?p = "alloc t"
  let ?b = "buckets t ! ?i" let ?vs = "item_vec ?b"
  have iN: "?i < num_buckets t" using d(6) .
  have len: "length ?vs = 15" using d(9) [OF iN] .
  obtain found where found: "mehcached_find_item_index ?p ?b kh (mehcached_calc_tag kh) key kl = Some found"
    "is_first (\<lambda>j. item_matches ?p (?vs ! j) K) 0 found"
    by (rule find_item_first [OF d(2) len kl, where kh = kh, folded K])
  note start = read_version_free [OF d(8) [OF iN], of "access_mode t"]
  show ?thesis
  proof (cases "found < 15")
    case False
    then have f: "found = 15" using found(2) by (simp add: is_first_def)
    have "mehcached_get t kh key kl iv ro = Some (None, t)"
      using kl(1) d(7) iN start found(1) f by (simp add: mehcached_get_def Let_def)
    then show ?thesis using inv cached_slot(1) [OF inv K _ found(2)] False by fastforce
  next
    case True
    let ?v = "?vs ! found" let ?x = "ITEM_OFFSET ?v"
    have m: "item_matches ?p ?v K" using found(2) True by (simp add: is_first_def)
    define kv where "kv = le_val (pbytes ?p (?x + 8) 4)"
    define et where "et = le_val (pbytes ?p (?x + 12) 4)"
    let ?kl = "min (KEY_LENGTH kv) 255" and ?vl = "min (VALUE_LENGTH kv) 1048575"
    let ?n = "min iv ?vl"
    have sz: "24 + ROUNDUP8 ?kl + ROUNDUP8 ?vl \<le> MINIMUM_POOL_SIZE"
      by (rule item_len_bounds(1)) simp_all
    have "ROUNDUP8 ?n \<le> ROUNDUP8 ?vl" by (rule ROUNDUP8_mono, rule min.cobounded2)
    then have out: "pool_load ?p (mehcached_pool_item ?p ?x + (24 + ROUNDUP8 ?kl)) (ROUNDUP8 ?n) =
        Some (pbytes ?p (?x + (24 + ROUNDUP8 ?kl)) (ROUNDUP8 ?n))"
      using sz by (intro load_item [OF d(2)]) simp
    have ld: "load_word ?p (mehcached_pool_item ?p ?x + 12) 4 = Some et" "load_word ?p (mehcached_pool_item ?p ?x + 8) 4 = Some kv"
      by (simp_all add: load_word_def load_item [OF d(2)] MINIMUM_POOL_SIZE_def kv_def et_def)
    have n: "(if iv < x then iv else x) = min iv x" for x by simp
    have get: "mehcached_get t kh key kl iv ro =
      (if \<not> mehcached_pool_is_valid ?p ?x then
         (if ro then Some (None, t)
          else do {
            b \<leftarrow> mehcached_lock_bucket (access_mode t) ?b;
            b \<leftarrow> mehcached_unlock_bucket (access_mode t) (b\<lparr>item_vec := (item_vec b)[found := 0]\<rparr>);
            Some (None, put_bucket t ?i b)
          })
       else do {
         t' \<leftarrow> (if \<not> ro \<and> mth_threshold t < (tail ?p + 2 ^ 64 - ?x) mod 2 ^ 64 AND pool_mask ?p
                then move_to_head t ?i ?b found ?v (u32 (24 + ROUNDUP8 ?kl + ROUNDUP8 ?vl)) else Some t);
         Some (Some (?n, pbytes ?p (?x + (24 + ROUNDUP8 ?kl)) (ROUNDUP8 ?n), et), t')
       })"
      using kl(1) d(7) iN start found(1) True len out ld iv
      by (simp add: mehcached_get_def Let_def add.assoc n cong: if_cong)
    show ?thesis
    proof (cases "mehcached_pool_is_valid ?p ?x")
      case valid: True
      from found_live [OF inv K refl refl True m valid] obtain vl vb where
        live: "live_slot ?p xs A (mehcached_calc_bucket_index t) ?i ?v K (vl, vb)" and c: "cached t K (vl, vb)" .
      have A: "A K = Some (vl, vb)" and h: "holds ?p ?x K (vl, vb)" using live by (simp_all add: live_slot_def)
      have "kv = KV_LENGTH_VEC kl vl" and vl: "vl \<le> 1048575" using h by (simp_all add: kv_def K)
      then have kv: "?kl = kl" "?vl = vl" using kv_parts [of vl kl] kl(1) by simp_all
      have n: "u32 (24 + ROUNDUP8 ?kl + ROUNDUP8 ?vl) = item_len K (vl, vb)"
        using item_len_bounds(2) [OF kl(1) vl] by (simp add: kv K)
      have cost: "move_cost K (A K) = item_len K (vl, vb)" by (simp add: move_cost_def A)
      have "ROUNDUP8 (min iv vl) \<le> ROUNDUP8 vl" by (rule ROUNDUP8_mono, rule min.cobounded2)
      then have "pbytes ?p (?x + (24 + ROUNDUP8 kl)) (ROUNDUP8 (min iv vl)) = take (ROUNDUP8 (min iv vl)) vb"
        using h pbytes_part [of 0 "ROUNDUP8 (min iv vl)" "ROUNDUP8 vl" ?p "?x + (24 + ROUNDUP8 kl)"] by (simp add: K add.assoc)
      then have ans: "get_answer iv (A K) (Some (min iv vl, pbytes ?p (?x + (24 + ROUNDUP8 kl)) (ROUNDUP8 (min iv vl)), et))"
        by (simp add: A)
      obtain t' ys where mv: "move_to_head t ?i ?b found ?v (item_len K (vl, vb)) = Some t'" "mica_inv t' ys A"
        "tail (alloc t') \<le> tail ?p + item_len K (vl, vb)"
        using move_ok [OF inv iN True refl live] room cost by auto
      have "\<exists>t' ys. mehcached_get t kh key kl iv ro =
          Some (Some (min iv vl, pbytes ?p (?x + (24 + ROUNDUP8 kl)) (ROUNDUP8 (min iv vl)), et), t') \<and>
          mica_inv t' ys A \<and> tail (alloc t') \<le> tail ?p + item_len K (vl, vb)"
        unfolding get n unfolding kv using valid mv inv by auto
      then show ?thesis using ans c cost by fastforce
    next
      case stale: False
      have none: "\<not> cached t K w" for w using cached_slot(2) [OF inv K _ found(2)] stale by blast
      obtain b1 where b1: "mehcached_lock_bucket (access_mode t) ?b = Some b1" "item_vec b1 = ?vs"
        "\<And>vs. \<exists>b2. mehcached_unlock_bucket (access_mode t) (b1\<lparr>item_vec := vs\<rparr>) = Some b2 \<and> item_vec b2 = vs \<and> bucket_free b2"
        using lock_unlock_bucket [OF d(8) [OF iN] d(5)] by metis
      obtain b2 where b2: "mehcached_unlock_bucket (access_mode t) (b1\<lparr>item_vec := ?vs[found := 0]\<rparr>) = Some b2"
        "item_vec b2 = ?vs[found := 0]" "bucket_free b2"
        using b1(3) by blast
      have "slots_ok ?p xs A (mehcached_calc_bucket_index t) ?i (?vs[found := 0])"
        by (rule slots_update [OF d(10) [OF iN] True])
          (use slots_live_nth [OF d(10) [OF iN]] in \<open>auto simp: slot_ok_def\<close>)
      then have "mica_inv (put_bucket (t\<lparr>alloc := ?p\<rparr>) ?i b2) xs A"
        using inv_put [OF inv iN b2(3) d(1,3,4)] b2(2) by auto
      then have "mica_inv (put_bucket t ?i b2) xs A" by (cases t) simp
      then have "\<exists>t' ys. mehcached_get t kh key kl iv ro = Some (None, t') \<and> mica_inv t' ys A \<and> tail (alloc t') \<le> tail ?p"
        unfolding get using stale b1(1,2) b2(1) inv by auto
      then show ?thesis using none by fastforce
    qed
  qed
qed

subsection \<open>Deleting a key\<close>

lemma delete_ok:
  assumes inv: "mica_inv t xs A" and kl: "kl \<le> 255" "ROUNDUP8 kl \<le> length key"
    and K: "K = (kh, kl, take (ROUNDUP8 kl) key)"
  shows "\<exists>r t'. mehcached_delete t kh key kl = Some (r, t') \<and> mica_inv t' xs (A(K := None)) \<and> alloc t' = alloc t"
proof -
  note d = mica_invD [OF inv]
  let ?i = "mehcached_calc_bucket_index t kh" and ?p = "alloc t" and ?A = "A(K := None)"
  let ?b = "buckets t ! ?i" let ?vs = "item_vec ?b"
  have iN: "?i < num_buckets t" using d(6) .
  obtain b1 where b1: "mehcached_lock_bucket (access_mode t) ?b = Some b1" "item_vec b1 = ?vs"
    "\<And>vs. \<exists>b2. mehcached_unlock_bucket (access_mode t) (b1\<lparr>item_vec := vs\<rparr>) = Some b2 \<and> item_vec b2 = vs \<and> bucket_free b2"
    using lock_unlock_bucket [OF d(8) [OF iN] d(5)] by metis
  have len: "length (item_vec b1) = 15" using d(9) [OF iN] b1(2) by simp
  obtain found where found: "mehcached_find_item_index ?p b1 kh (mehcached_calc_tag kh) key kl = Some found"
    "is_first (\<lambda>j. item_matches ?p (?vs ! j) K) 0 found"
    by (rule find_item_first [OF d(2) len kl, where kh = kh, unfolded b1(2), folded K])
  define vs' where "vs' = (if found = 15 then ?vs else ?vs[found := 0])"
  obtain b2 where b2: "mehcached_unlock_bucket (access_mode t) (b1\<lparr>item_vec := vs'\<rparr>) = Some b2"
    "item_vec b2 = vs'" "bucket_free b2"
    using b1(3) by blast
  have "b1\<lparr>item_vec := ?vs\<rparr> = b1" using b1(2) by (cases b1) simp
  then have "found = 15 \<Longrightarrow> mehcached_unlock_bucket (access_mode t) b1 = Some b2" using b2(1) by (simp only: vs'_def if_True simp_thms)
  then have del: "mehcached_delete t kh key kl = Some (found \<noteq> 15, put_bucket t ?i b2)"
    using kl(1) d(7) iN b1(1,2) found(1) b2(1)
    by (cases "found = 15") (simp_all add: mehcached_delete_def Let_def vs'_def)
  have gone: "slot_ok ?p xs ?A (mehcached_calc_bucket_index t) i v"
    if "slot_ok ?p xs A (mehcached_calc_bucket_index t) i v" "i \<noteq> ?i \<or> TAG v \<noteq> mehcached_calc_tag kh \<or> \<not> item_matches ?p v K" for i v
  proof (rule slot_transfer [OF that(1)])
    fix k w assume l: "live_slot ?p xs A (mehcached_calc_bucket_index t) i v k w"
    obtain kh0 kl0 kb0 vl0 vb0 where k0: "k = (kh0, kl0, kb0)" "w = (vl0, vb0)" by (cases k; cases w)
    have "k \<noteq> K"
    proof
      assume k: "k = K"
      have h: "holds ?p (ITEM_OFFSET v) k w" and t: "TAG v = mehcached_calc_tag (fst k)" "mehcached_calc_bucket_index t (fst k) = i"
        using l by (simp_all add: live_slot_def)
      have "item_matches ?p v K"
        using holds_matches [OF h [unfolded k0] refl, of kh0 kl0 kb0] t k k0 by auto
      then show False using that(2) t k by (simp add: K)
    qed
    then show "live_slot ?p xs ?A (mehcached_calc_bucket_index t) i v k w \<or> ITEM_OFFSET v + pool_size ?p < tail ?p"
      using l by (simp add: live_slot_def)
  qed simp_all
  have slots: "slots_ok ?p xs ?A (mehcached_calc_bucket_index t) ?i vs'"
  proof (cases "found < 15")
    case True
    have "TAG (?vs ! found) = mehcached_calc_tag kh" using found(2) True by (simp add: is_first_def K)
    then have "slots_ok ?p xs ?A (mehcached_calc_bucket_index t) ?i (?vs[found := 0])"
      using slots_tag_other [OF d(10) [OF iN] True] gone [OF slots_live_nth [OF d(10) [OF iN]]]
      by (intro slots_update [OF d(10) [OF iN] True]) (auto simp: slot_ok_def)
    then show ?thesis using True by (simp add: vs'_def)
  next
    case False
    then have "found = 15" using found(2) by (simp add: is_first_def)
    then have "slot_ok ?p xs ?A (mehcached_calc_bucket_index t) ?i (?vs ! j)" if "j < 15" for j
      using gone [OF slots_live_nth [OF d(10) [OF iN] that]] found(2) that by (simp add: is_first_def)
    then show ?thesis using d(10) [OF iN] \<open>found = 15\<close> by (simp add: slots_ok_def vs'_def)
  qed
  have "mica_inv (put_bucket (t\<lparr>alloc := ?p\<rparr>) ?i b2) xs ?A"
    using slots b2(2) gone by (intro inv_put [OF inv iN b2(3) d(1,3,4)]) auto
  then have "mica_inv (put_bucket t ?i b2) xs ?A" by (cases t) simp
  then show ?thesis using del by simp
qed

subsection \<open>An empty table\<close>

lemma next_power_of_two_from_result:
  assumes "s \<le> n" "v \<le> 2 ^ n" "n < 64"
  shows "\<exists>k. s \<le> k \<and> k \<le> n \<and> next_power_of_two_from s v = Some (2 ^ k) \<and> v \<le> 2 ^ k"
  using assms
proof (induction "n - s" arbitrary: s)
  case 0
  then show ?case by (subst next_power_of_two_from.simps) auto
next
  case (Suc d)
  show ?case
  proof (cases "2 ^ s < v")
    case True
    have "d = n - Suc s" "Suc s \<le> n" using Suc.hyps(2) by simp_all
    then obtain k where "Suc s \<le> k" "k \<le> n" "next_power_of_two_from (Suc s) v = Some (2 ^ k)" "v \<le> 2 ^ k"
      using Suc.hyps(1) [of "Suc s"] Suc.prems by blast
    then show ?thesis using True Suc.prems by (subst next_power_of_two_from.simps) (auto dest: Suc_leD)
  next
    case False
    then show ?thesis using Suc.prems by (subst next_power_of_two_from.simps) auto
  qed
qed

lemma log_num_buckets_result:
  assumes "s \<le> n" "v \<le> 2 ^ n" "n < 64"
  shows "\<exists>k. s \<le> k \<and> k \<le> n \<and> log_num_buckets_from s v = Some k \<and> v \<le> 2 ^ k"
  using assms
proof (induction "n - s" arbitrary: s)
  case 0
  then show ?case by (subst log_num_buckets_from.simps) auto
next
  case (Suc d)
  show ?case
  proof (cases "2 ^ s < v")
    case True
    have "d = n - Suc s" "Suc s \<le> n" using Suc.hyps(2) by simp_all
    then obtain k where "Suc s \<le> k" "k \<le> n" "log_num_buckets_from (Suc s) v = Some k" "v \<le> 2 ^ k"
      using Suc.hyps(1) [of "Suc s"] Suc.prems by blast
    then show ?thesis using True Suc.prems by (subst log_num_buckets_from.simps) (auto dest: Suc_leD)
  next
    case False
    then show ?thesis using Suc.prems by (subst log_num_buckets_from.simps) auto
  qed
qed

lemma rshift_result:
  assumes "0 < n" "s \<le> 40"
  shows "\<exists>r. rshift_from s n = Some r"
  using assms(2)
proof (induction "40 - s" arbitrary: s)
  case 0
  then have s: "s = 40" by simp
  have "drop_bit 40 (drop_bit 1 (ITEM_OFFSET_MASK + 1)) = 0" by (simp add: ITEM_OFFSET_MASK_def drop_bit_eq_div)
  then show ?case unfolding s by (subst rshift_from.simps) simp
next
  case (Suc d)
  have "d = 40 - Suc s" "Suc s \<le> 40" using Suc.hyps(2) by simp_all
  then obtain r where "rshift_from (Suc s) n = Some r" using Suc.hyps(1) [of "Suc s"] by blast
  then show ?case using Suc.prems by (subst rshift_from.simps) simp
qed

lemma adjust_size_facts:
  assumes "x \<le> 2 ^ 38"
  shows "x \<le> mehcached_shm_adjust_size x" "mehcached_shm_adjust_size x \<le> x + 2097151"
    "2097152 dvd mehcached_shm_adjust_size x"
    "2097152 dvd x \<Longrightarrow> mehcached_shm_adjust_size x = x"
proof -
  have e: "mehcached_shm_adjust_size x = (x + 2097151) div 2097152 * 2097152"
    unfolding mehcached_shm_adjust_size_def by (subst mod_less) (use assms in simp_all)
  have "(x + 2097151) div 2097152 * 2097152 + (x + 2097151) mod 2097152 = x + 2097151" by (rule div_mult_mod_eq)
  moreover have "(x + 2097151) mod 2097152 < 2097152" by (rule mod_less_divisor) simp
  ultimately show "x \<le> mehcached_shm_adjust_size x" "mehcached_shm_adjust_size x \<le> x + 2097151" unfolding e by linarith+
  show "2097152 dvd mehcached_shm_adjust_size x" unfolding e by simp
  show "mehcached_shm_adjust_size x = x" if dv: "2097152 dvd x"
  proof -
    obtain k where "x = 2097152 * k" using dv unfolding dvd_def by blast
    then show ?thesis unfolding e by simp
  qed
qed

lemma pool_init_ok:
  assumes "x \<le> 2 ^ 38"
  obtains p where "mehcached_pool_init (Some data) x r w = Some p" "pool_log p []" "pool_lock p = 0"
    "tail p = 0" "x \<le> pool_size p"
proof -
  define y where "y = (if x < MINIMUM_POOL_SIZE then MINIMUM_POOL_SIZE else x)"
  have y: "y \<le> 2 ^ 38" "x \<le> y" "2097152 \<le> y" using assms by (auto simp: y_def MINIMUM_POOL_SIZE_def)
  note a = adjust_size_facts [OF y(1)]
  have "mehcached_shm_adjust_size y < 2 ^ 38 + 2097152" using a(2) y(1) by simp
  moreover obtain c where c: "mehcached_shm_adjust_size y = 2097152 * c" using a(3) by (auto elim: dvdE)
  ultimately have "c < 131073" by simp
  then have "mehcached_shm_adjust_size y \<le> 2 ^ 38" unfolding c by simp
  then obtain k where k: "k \<le> 38" "mehcached_next_power_of_two (mehcached_shm_adjust_size y) = Some (2 ^ k)"
    "mehcached_shm_adjust_size y \<le> 2 ^ k"
    using next_power_of_two_from_result [of 0 38 "mehcached_shm_adjust_size y"]
    by (auto simp: mehcached_next_power_of_two_def)
  have le: "y \<le> 2 ^ k" using a(1) k(3) by simp
  have "(2 :: nat) ^ 21 \<le> 2 ^ k" using le y(3) by simp
  then have "21 \<le> k" by (rule power_le_imp_le_exp [rotated]) simp
  then have "(2 :: nat) ^ 21 dvd 2 ^ k" by (rule le_imp_power_dvd)
  then have dv: "2097152 dvd (2 :: nat) ^ k" by simp
  have k38: "(2 :: nat) ^ k \<le> 2 ^ 38" using k(1) by (intro power_increasing) simp_all
  define p where "p = \<lparr>pool_mode = (if \<not> r then 0 else if \<not> w then 1 else 2), pool_lock = 0, pool_data = data,
    pool_size = 2 ^ k, pool_mask = 2 ^ k - 1, head = 0, tail = 0\<rparr>"
  have m: "2 ^ k \<le> ITEM_OFFSET_MASK div 2" using k38 by (simp add: ITEM_OFFSET_MASK_def)
  have "mehcached_pool_init (Some data) x r w = Some p"
    unfolding mehcached_pool_init_def y_def [symmetric] Let_def k(2)
    using adjust_size_facts(4) [OF k38 dv] m by (simp add: p_def)
  moreover have "MINIMUM_POOL_SIZE \<le> 2 ^ k" using le y(3) by (simp add: MINIMUM_POOL_SIZE_def)
  then have "pool_log p []" using m by (auto simp: pool_log_def pool_geom_def p_def)
  moreover have "pool_lock p = 0" "tail p = 0" "x \<le> pool_size p" using le y(2) by (simp_all add: p_def)
  ultimately show thesis by (rule that)
qed

lemma table_init_ok:
  assumes "0 < nb" "nb \<le> 2 ^ 31" "x \<le> 2 ^ 38"
  obtains t where "mehcached_table_init True (Some data) scaled nb 1 x r w aw = Some t" "mica_inv t [] (\<lambda>_. None)"
    "nb \<le> num_buckets t" "x \<le> pool_size (alloc t)" "tail (alloc t) = 0"
    "mth_threshold t = scaled (pool_size (alloc t))"
proof -
  obtain l where l: "l \<le> 31" "log_num_buckets_from 0 nb = Some l" "nb \<le> 2 ^ l"
    using log_num_buckets_result [of 0 31 nb] assms(2) by auto
  have "(2 :: nat) ^ l \<le> 2 ^ 31" using l(1) by (intro power_increasing) simp_all
  then have u: "u32 (2 ^ l) = 2 ^ l" "(2 ^ l + 2 ^ 32 - 1) mod 2 ^ 32 = (2 :: nat) ^ l - 1"
  proof -
    assume le: "(2 :: nat) ^ l \<le> 2 ^ 31"
    show "u32 (2 ^ l) = 2 ^ l" using le by (intro u32_small) simp
    have "(2 ^ l + 2 ^ 32 - 1) mod 2 ^ 32 = (2 ^ l - 1 + 2 ^ 32) mod (2 ^ 32 :: nat)" by simp
    also have "\<dots> = (2 ^ l - 1) mod 2 ^ 32" by (simp only: mod_add_self2)
    also have "\<dots> = 2 ^ l - 1" using le by (intro mod_less) simp
    finally show "(2 ^ l + 2 ^ 32 - 1) mod 2 ^ 32 = (2 :: nat) ^ l - 1" .
  qed
  obtain p where p: "mehcached_pool_init (Some data) x r aw = Some p" "pool_log p []" "pool_lock p = 0"
    "tail p = 0" "x \<le> pool_size p"
    by (rule pool_init_ok [OF assms(3)])
  have hd: "head p = 0" using p(2,4) by (simp add: pool_log_def)
  obtain s where s: "rshift_from 0 (2 ^ l) = Some s" using rshift_result [of "2 ^ l" 0] by auto
  obtain lk where lk: "mehcached_pool_lock p = Some (p\<lparr>pool_lock := lk\<rparr>)"
    "\<And>q. pool_mode q = pool_mode p \<Longrightarrow> pool_lock q = lk \<Longrightarrow> mehcached_pool_unlock q = Some (q\<lparr>pool_lock := 0\<rparr>)"
    using pool_lock_free [OF p(3)] by metis
  have "mehcached_pool_unlock (mehcached_pool_reset (p\<lparr>pool_lock := lk\<rparr>)) = Some p"
    by (subst lk(2)) (use p(3,4) hd in \<open>simp_all add: mehcached_pool_reset_def\<close>)
  note pl = lk(1) this
  define bs where "bs = replicate (2 ^ l) \<lparr>version = 0, next_extra_bucket_index = 0, item_vec = replicate 15 0\<rparr>"
  let ?t = "\<lparr>alloc = p, mth_threshold = scaled (pool_size p), buckets = bs,
    access_mode = (if \<not> r then 0 else if r \<and> \<not> w then 1 else 2),
    num_buckets = 2 ^ l, num_buckets_mask = 2 ^ l - 1, num_extra_buckets = 0, free_list_head = 0, rshift = s\<rparr>"
  have "map (\<lambda>i. \<lparr>version = 0, next_extra_bucket_index = 0, item_vec = replicate 15 0\<rparr>) [0..<2 ^ l] = bs"
    by (simp add: bs_def map_replicate_const)
  then have "mehcached_table_init True (Some data) scaled nb 1 x r w aw = Some ?t"
    using assms(1) l(1,2) pl p(1) s u
    by (simp add: mehcached_table_init_def mehcached_table_reset_def Let_def)
  moreover have "mica_inv ?t [] (\<lambda>_. None)"
    using p(2,3,4) unfolding mica_inv_def
    by (auto simp: bs_def bucket_free_def slots_ok_def tags_distinct_def slot_ok_def)
  ultimately show thesis using that [of ?t] l(3) p(4,5) by simp
qed

end
