(* ===== verification/Mica_Spec.thy ===== *)
theory Mica_Spec
  imports Mica_Store
begin

section \<open>What the key-value store promises\<close>

text \<open>
  Histories of operations on a fresh table against the partial function they build up, and the properties
  of single operations.
\<close>

subsection \<open>Histories\<close>

datatype store_op =
    Set_op nat nat bytes nat bytes
  | Get_op nat nat bytes nat bool
  | Delete_op nat nat bytes

fun op_key :: "store_op \<Rightarrow> mkey" where
  "op_key (Set_op kh kl key vl val) = (kh, kl, take (ROUNDUP8 kl) key)"
| "op_key (Get_op kh kl key iv ro) = (kh, kl, take (ROUNDUP8 kl) key)"
| "op_key (Delete_op kh kl key) = (kh, kl, take (ROUNDUP8 kl) key)"

fun run_op :: "mehcached_table \<Rightarrow> store_op \<Rightarrow> (get_result \<times> mehcached_table) option" where
  "run_op t (Set_op kh kl key vl val) =
     map_option (\<lambda>(ok, t). (None, t)) (mehcached_set t kh key kl val vl 0 True)"
| "run_op t (Get_op kh kl key iv ro) = mehcached_get t kh key kl iv ro"
| "run_op t (Delete_op kh kl key) = map_option (\<lambda>(ok, t). (None, t)) (mehcached_delete t kh key kl)"

fun run_ops :: "mehcached_table \<Rightarrow> store_op list \<Rightarrow> (get_result list \<times> mehcached_table) option" where
  "run_ops t [] = Some ([], t)"
| "run_ops t (x # xs) = do {
     (r, t) \<leftarrow> run_op t x;
     (rs, t) \<leftarrow> run_ops t xs;
     Some (r # rs, t)
   }"

text \<open>What the operations do to the partial function, and the answers it allows.\<close>

fun spec_op :: "(mkey \<Rightarrow> mval option) \<Rightarrow> store_op \<Rightarrow> (mkey \<Rightarrow> mval option)" where
  "spec_op A (Set_op kh kl key vl val) = A((kh, kl, take (ROUNDUP8 kl) key) \<mapsto> (vl, take (ROUNDUP8 vl) val))"
| "spec_op A (Get_op kh kl key iv ro) = A"
| "spec_op A (Delete_op kh kl key) = A((kh, kl, take (ROUNDUP8 kl) key) := None)"

fun answer_ok :: "(mkey \<Rightarrow> mval option) \<Rightarrow> store_op \<Rightarrow> get_result \<Rightarrow> bool" where
  "answer_ok A (Get_op kh kl key iv ro) r = get_answer iv (A (kh, kl, take (ROUNDUP8 kl) key)) r"
| "answer_ok A _ r = (r = None)"

fun answers_ok :: "(mkey \<Rightarrow> mval option) \<Rightarrow> store_op list \<Rightarrow> get_result list \<Rightarrow> bool" where
  "answers_ok A [] [] = True"
| "answers_ok A (x # xs) (r # rs) = (answer_ok A x r \<and> answers_ok (spec_op A x) xs rs)"
| "answers_ok A _ _ = False"

text \<open>Operations within the limits of the store, with values of one rounded length \<open>R\<close>.\<close>

fun op_ok :: "nat \<Rightarrow> store_op \<Rightarrow> bool" where
  "op_ok R (Set_op kh kl key vl val) \<longleftrightarrow> kl \<le> 255 \<and> ROUNDUP8 kl \<le> length key \<and> kh < 2 ^ 64 \<and>
     vl \<le> 1048575 \<and> ROUNDUP8 vl = R \<and> R \<le> length val"
| "op_ok R (Get_op kh kl key iv ro) \<longleftrightarrow> kl \<le> 255 \<and> ROUNDUP8 kl \<le> length key \<and> iv \<le> 1500"
| "op_ok R (Delete_op kh kl key) \<longleftrightarrow> kl \<le> 255 \<and> ROUNDUP8 kl \<le> length key"

definition uniform :: "nat \<Rightarrow> (mkey \<Rightarrow> mval option) \<Rightarrow> bool" where
  "uniform R A \<longleftrightarrow> (\<forall>k w. A k = Some w \<longrightarrow> ROUNDUP8 (fst w) = R)"

lemma item_len_uniform: "kl \<le> 255 \<Longrightarrow> ROUNDUP8 vl = R \<Longrightarrow> item_len (kh, kl, kb) (vl, vb) \<le> 280 + R"
  using ROUNDUP8_mono [of kl 255] by (simp add: ROUNDUP8_def)

lemma move_cost_uniform: "uniform R A \<Longrightarrow> kl \<le> 255 \<Longrightarrow> move_cost (kh, kl, kb) (A (kh, kl, kb)) \<le> 280 + R"
  using item_len_uniform by (auto simp: move_cost_def uniform_def split: option.splits)

lemma run_op_ok:
  assumes inv: "mica_inv t xs A" and u: "uniform R A" and ok: "op_ok R x"
    and room: "tail (alloc t) + (280 + R) < 2 ^ 40"
  shows "\<exists>r t' xs'. run_op t x = Some (r, t') \<and> mica_inv t' xs' (spec_op A x) \<and> answer_ok A x r \<and>
    uniform R (spec_op A x) \<and> tail (alloc t') \<le> tail (alloc t) + (280 + R)"
proof (cases x)
  case (Set_op kh kl key vl val)
  let ?k = "(kh, kl, take (ROUNDUP8 kl) key)" and ?w = "(vl, take (ROUNDUP8 vl) val)"
  have o: "kl \<le> 255" "ROUNDUP8 kl \<le> length key" "kh < 2 ^ 64" "vl \<le> 1048575" "ROUNDUP8 vl = R" "R \<le> length val"
    using ok by (simp_all add: Set_op)
  have le: "item_len ?k ?w \<le> 280 + R" by (rule item_len_uniform [OF o(1,5)])
  have same: "ROUNDUP8 (fst w0) = ROUNDUP8 vl" if "A ?k = Some w0" for w0
    using u that o(5) unfolding uniform_def by metis
  have rm: "tail (alloc t) + item_len ?k ?w < 2 ^ 40" using le room by linarith
  obtain t' xs' where "mehcached_set t kh key kl val vl 0 True = Some (True, t')" "mica_inv t' xs' (A(?k \<mapsto> ?w))"
    "tail (alloc t') \<le> tail (alloc t) + item_len ?k ?w"
    using set_ok [OF inv o(1,2,4) _ o(3) refl refl rm same, of 0] o(5,6) by blast
  then show ?thesis using u o(5) le by (auto simp: Set_op uniform_def)
next
  case (Get_op kh kl key iv ro)
  let ?k = "(kh, kl, take (ROUNDUP8 kl) key)"
  have o: "kl \<le> 255" "ROUNDUP8 kl \<le> length key" "iv \<le> 1500" using ok by (simp_all add: Get_op)
  have le: "move_cost ?k (A ?k) \<le> 280 + R" by (rule move_cost_uniform [OF u o(1)])
  have rm: "tail (alloc t) + move_cost ?k (A ?k) < 2 ^ 40" using le room by linarith
  obtain r t' xs' where "mehcached_get t kh key kl iv ro = Some (r, t')" "mica_inv t' xs' A" "get_answer iv (A ?k) r"
    "tail (alloc t') \<le> tail (alloc t) + move_cost ?k (A ?k)"
    using get_ok [OF inv o refl rm, of ro] by blast
  then show ?thesis using u le by (auto simp: Get_op)
next
  case (Delete_op kh kl key)
  have o: "kl \<le> 255" "ROUNDUP8 kl \<le> length key" using ok by (simp_all add: Delete_op)
  from delete_ok [OF inv o refl, of kh] u show ?thesis by (fastforce simp: Delete_op uniform_def)
qed

lemma run_ops_ok:
  assumes "mica_inv t xs A" "uniform R A" "\<forall>x \<in> set ops. op_ok R x"
    "tail (alloc t) + length ops * (280 + R) < 2 ^ 40"
  shows "\<exists>rs t' xs'. run_ops t ops = Some (rs, t') \<and> mica_inv t' xs' (foldl spec_op A ops) \<and> answers_ok A ops rs"
  using assms
proof (induction ops arbitrary: t xs A)
  case Nil
  then show ?case by auto
next
  case (Cons x ops)
  have "tail (alloc t) + (280 + R) < 2 ^ 40" "op_ok R x" using Cons.prems(3,4) by simp_all
  from run_op_ok [OF Cons.prems(1,2) this(2,1)] obtain r t1 xs1 where
    1: "run_op t x = Some (r, t1)" "mica_inv t1 xs1 (spec_op A x)" "answer_ok A x r" "uniform R (spec_op A x)"
      "tail (alloc t1) \<le> tail (alloc t) + (280 + R)" by blast
  have "tail (alloc t1) + length ops * (280 + R) < 2 ^ 40" using 1(5) Cons.prems(4) by simp
  moreover have "\<forall>x \<in> set ops. op_ok R x" using Cons.prems(3) by simp
  ultimately obtain rs t2 xs2 where
    "run_ops t1 ops = Some (rs, t2)" "mica_inv t2 xs2 (foldl spec_op (spec_op A x) ops)" "answers_ok (spec_op A x) ops rs"
    using Cons.IH [OF 1(2,4)] by blast
  then show ?case using 1(1,3) by auto
qed

subsection \<open>Properties\<close>

text \<open>C10. Setting a value always succeeds, evicting if it has to, and the very next get of the key returns
  exactly that value, whatever else is in the table; the table then still agrees with the partial function of
  all values last set. (Within the first terabyte of the log; a value that replaces another one has
  the same rounded length.)\<close>

theorem mica_set_then_get:
  assumes rel: "mica_rel t A" and kl: "kl \<le> 255" "ROUNDUP8 kl \<le> length key"
    and vl: "vl \<le> iv" "iv \<le> 1500" "ROUNDUP8 vl \<le> length val" and kh: "kh < 2 ^ 64"
    and K: "K = (kh, kl, take (ROUNDUP8 kl) key)" and w: "w = (vl, take (ROUNDUP8 vl) val)"
    and room: "tail (alloc t) + 2 * item_len K w < 2 ^ 40"
    and same: "\<forall>w0. A K = Some w0 \<longrightarrow> ROUNDUP8 (fst w0) = ROUNDUP8 vl"
  shows "\<exists>t1 t2 ex'. mehcached_set t kh key kl val vl ex True = Some (True, t1) \<and> mica_rel t1 (A(K \<mapsto> w)) \<and>
    mehcached_get t1 kh key kl iv ro = Some (Some (vl, take (ROUNDUP8 vl) val, ex'), t2) \<and> mica_rel t2 (A(K \<mapsto> w))"
proof -
  obtain xs where inv: "mica_inv t xs A" using rel by (auto simp: mica_rel_def)
  have vl': "vl \<le> 1048575" and rm: "tail (alloc t) + item_len K w < 2 ^ 40" using vl(1,2) room by simp_all
  obtain t1 xs1 where 1: "mehcached_set t kh key kl val vl ex True = Some (True, t1)" "mica_inv t1 xs1 (A(K \<mapsto> w))"
    "cached t1 K w" "tail (alloc t1) \<le> tail (alloc t) + item_len K w"
    using set_ok [OF inv kl vl' vl(3) kh K w rm] same by blast
  have "tail (alloc t1) + move_cost K ((A(K \<mapsto> w)) K) < 2 ^ 40" using 1(4) room by (simp add: move_cost_def)
  from get_ok [OF 1(2) kl vl(2) K this, of ro] obtain r t2 xs2 where
    2: "mehcached_get t1 kh key kl iv ro = Some (r, t2)" "mica_inv t2 xs2 (A(K \<mapsto> w))"
      "get_answer iv ((A(K \<mapsto> w)) K) r" "r = None \<longleftrightarrow> (\<forall>w'. \<not> cached t1 K w')" by blast
  have "r \<noteq> None" using 2(4) 1(3) by blast
  then obtain n out ex' where "r = Some (n, out, ex')" by auto
  then have "r = Some (vl, take (ROUNDUP8 vl) val, ex')" using 2(3) vl(1) by (simp add: w min_absorb2)
  then show ?thesis using 1(1,2) 2(1,2) unfolding mica_rel_def by blast
qed

lemma fresh_table:
  obtains t where "mehcached_table_init True (Some (\<lambda>i. 0)) (\<lambda>s. 0) 8 1 2097152 True True True = Some t"
    "mica_rel t (\<lambda>_. None)" "tail (alloc t) = 0"
  by (rule table_init_ok [of 8 2097152 "\<lambda>i. 0" "\<lambda>s. 0" True True True]) (auto simp: mica_rel_def)

theorem mica_set_then_get_witness:
  "\<exists>t t1 t2 ex'. mehcached_table_init True (Some (\<lambda>i. 0)) (\<lambda>s. 0) 8 1 2097152 True True True = Some t \<and>
    mehcached_set t 77 (replicate 8 1) 5 (replicate 8 2) 6 0 True = Some (True, t1) \<and>
    mehcached_get t1 77 (replicate 8 1) 5 6 False = Some (Some (6, replicate 8 2, ex'), t2)"
proof -
  obtain t where t: "mehcached_table_init True (Some (\<lambda>i. 0)) (\<lambda>s. 0) 8 1 2097152 True True True = Some t"
    "mica_rel t (\<lambda>_. None)" "tail (alloc t) = 0" by (rule fresh_table)
  from mica_set_then_get [OF t(2), of 5 "replicate 8 1" 6 6 "replicate 8 2" 77, OF _ _ _ _ _ _ refl refl, of 0 False]
  show ?thesis using t(1,3) by (auto simp: ROUNDUP8_def)
qed



text \<open>When a bucket is full the search for the oldest item to evict picks the newest one: the slot
  chosen holds the largest offset of all, that of the item written last.\<close>

theorem mica_full_bucket_evicts_newest:
  assumes "length (item_vec b) = 15" "\<forall>v \<in> set (item_vec b). v \<noteq> 0 \<and> ITEM_OFFSET v \<le> tail p" "tail p < 2 ^ 40"
  shows "\<exists>j<15. mehcached_find_empty_or_oldest p b = Some j \<and>
    (\<forall>k<15. ITEM_OFFSET (item_vec b ! k) \<le> ITEM_OFFSET (item_vec b ! j))"
proof -
  have d: "slot_distance p v = tail p - ITEM_OFFSET v" if "v \<in> set (item_vec b)" for v
  proof -
    have le: "ITEM_OFFSET v \<le> tail p" using assms(2) that by blast
    then have "tail p + 2 ^ 64 - ITEM_OFFSET v = tail p - ITEM_OFFSET v + 2 ^ 64" by simp
    then have "(tail p + 2 ^ 64 - ITEM_OFFSET v) mod 2 ^ 64 = (tail p - ITEM_OFFSET v) mod 2 ^ 64" by (simp only: mod_add_self2)
    also have "\<dots> = tail p - ITEM_OFFSET v" using assms(3) by (intro mod_less) simp
    finally show ?thesis
      using take_bit_eq_mask [of 40 "tail p - ITEM_OFFSET v"] assms(3)
      by (simp add: slot_distance_def ITEM_OFFSET_MASK_def mask_eq_exp_minus_1 take_bit_nat_eq_self)
  qed
  obtain j where j: "j < 15" "mehcached_find_empty_or_oldest p b = Some j"
    "item_vec b ! j = 0 \<or> (\<forall>k<15. item_vec b ! k \<noteq> 0 \<and> slot_distance p (item_vec b ! j) \<le> slot_distance p (item_vec b ! k))"
    by (rule find_empty_or_oldest_result [OF assms(1), of p])
  have mem: "item_vec b ! k \<in> set (item_vec b)" if "k < 15" for k using that assms(1) by simp
  then have "\<forall>k<15. slot_distance p (item_vec b ! j) \<le> slot_distance p (item_vec b ! k)" using j(1,3) assms(2) by blast
  then have "ITEM_OFFSET (item_vec b ! k) \<le> ITEM_OFFSET (item_vec b ! j)" if "k < 15" for k
    using d [OF mem [OF that]] d [OF mem [OF j(1)]] assms(2) mem [OF that] that by fastforce
  then show ?thesis using j(1,2) by blast
qed

definition full_bucket :: mehcached_bucket where
  "full_bucket = \<lparr>version = 0, next_extra_bucket_index = 0,
     item_vec = map (\<lambda>i. ITEM_VEC (i + 1) (32 * i)) [0..<15]\<rparr>"

theorem mica_full_bucket_evicts_newest_witness:
  "mehcached_find_empty_or_oldest (demo_pool\<lparr>tail := 480\<rparr>) full_bucket = Some 14"
proof -
  have o: "ITEM_OFFSET (item_vec full_bucket ! k) = 32 * k" "TAG (item_vec full_bucket ! k) = k + 1" if "k < 15" for k
    using that item_vec_parts [of "32 * k" "k + 1"] by (simp_all add: full_bucket_def)
  have l: "length (item_vec full_bucket) = 15" by (simp add: full_bucket_def)
  have "v \<noteq> 0 \<and> ITEM_OFFSET v \<le> tail (demo_pool\<lparr>tail := 480\<rparr>)" if v: "v \<in> set (item_vec full_bucket)" for v
  proof -
    obtain k where "k < 15" "v = item_vec full_bucket ! k" using v l by (auto simp: in_set_conv_nth)
    moreover from this have "TAG v \<noteq> 0" using o(2) [of k] by simp
    then have "v \<noteq> 0" by (metis TAG_0)
    ultimately show ?thesis using o(1) [of k] by simp
  qed
  then obtain j where "j < 15" "mehcached_find_empty_or_oldest (demo_pool\<lparr>tail := 480\<rparr>) full_bucket = Some j"
    "\<forall>k<15. ITEM_OFFSET (item_vec full_bucket ! k) \<le> ITEM_OFFSET (item_vec full_bucket ! j)"
    using mica_full_bucket_evicts_newest [OF l, of "demo_pool\<lparr>tail := 480\<rparr>"] by auto
  then show ?thesis using o [of 14] o [of j] by (auto dest!: spec [of _ 14])
qed

text \<open>C27. Cleaning always ends, without running twice through the table: it visits exactly the buckets of the
  circular range that the two tails determine, clears their slots of items the log has given up, and changes nothing else.\<close>

theorem mica_cleanup_clears_range:
  assumes "mica_rel t A" "n = num_buckets t" "s = drop_bit (rshift t) old mod n" "e = drop_bit (rshift t) new mod n"
  shows "\<exists>bs. mehcached_cleanup_bucket t old new = Some (t\<lparr>buckets := bs\<rparr>) \<and> length bs = n \<and>
    (\<forall>i<n. item_vec (bs ! i) = (if off n s i < off n s e
      then map (\<lambda>v. if v \<noteq> 0 \<and> \<not> mehcached_pool_is_valid (alloc t) (ITEM_OFFSET v) then 0 else v) (item_vec (buckets t ! i))
      else item_vec (buckets t ! i)))"
proof -
  obtain xs where inv: "mica_inv t xs A" using assms(1) by (auto simp: mica_rel_def)
  obtain m where m: "num_buckets t = 2 ^ m" "num_buckets_mask t = 2 ^ m - 1" using inv by (auto simp: mica_inv_def)
  note d = mica_invD [OF inv, unfolded m(1)]
  have n: "n = 2 ^ m" using assms(2) m(1) by simp
  have se: "s < 2 ^ m" "e < 2 ^ m" using assms(3,4) by (simp_all add: n)
  have "e = (s + off (2 ^ m) s e) mod 2 ^ m" by (rule at_off [symmetric]) (use se in auto)
  from cleanup_from_exact [OF m(2) d(7,5,8) se(1) off_less this] obtain bs where
    bs: "cleanup_from s e t = Some (t\<lparr>buckets := bs\<rparr>)" "length bs = 2 ^ m"
      "\<forall>i<2 ^ m. bucket_free (bs ! i) \<and> item_vec (bs ! i) =
        (if off (2 ^ m) s i < off (2 ^ m) s e then clear_invalid (alloc t) (item_vec (buckets t ! i)) else item_vec (buckets t ! i))"
    by auto
  have "mehcached_cleanup_bucket t old new = cleanup_from s e t"
    using assms(3,4) by (simp add: mehcached_cleanup_bucket_def m(2) mask_mod n)
  then show ?thesis using bs by (auto simp: n clear_invalid_def)
qed

theorem mica_cleanup_clears_range_witness:
  "\<exists>t bs. mehcached_table_init True (Some (\<lambda>i. 0)) (\<lambda>s. 0) 8 1 2097152 True True True = Some t \<and>
    mehcached_cleanup_bucket t 0 (2 ^ 39 - 1) = Some (t\<lparr>buckets := bs\<rparr>)"
proof -
  obtain t where t: "mehcached_table_init True (Some (\<lambda>i. 0)) (\<lambda>s. 0) 8 1 2097152 True True True = Some t"
    "mica_rel t (\<lambda>_. None)" "tail (alloc t) = 0" by (rule fresh_table)
  from mica_cleanup_clears_range [OF t(2) refl refl refl, of 0 "2 ^ 39 - 1"] show ?thesis using t(1) by blast
qed

end
