(* ===== verification/City.thy ===== *)
theory City
  imports Vector
begin

section \<open>The hash of the keys of mica: city.c and hash.h\<close>

text \<open>
  \<open>CityHash64\<close>, to which \<^verbatim>\<open>hash\<close> of \<^verbatim>\<open>hash.h\<close> delegates, on a string given as a list of bytes; a pointer
  into it is an offset and a load outside it is \<open>None\<close>. The 128 bit and the seeded variants of
  \<^verbatim>\<open>city.c\<close> and the other hashes of \<^verbatim>\<open>hash.h\<close> are not called.
\<close>

definition Fetch64 :: "bytes \<Rightarrow> int \<Rightarrow> 64 word option" where
  "Fetch64 s p = map_option (word_of_nat \<circ> le_val) (load_bytes s p 8)"

definition Fetch32 :: "bytes \<Rightarrow> int \<Rightarrow> 64 word option" where
  "Fetch32 s p = map_option (word_of_nat \<circ> le_val) (load_bytes s p 4)"

definition city_k0 :: "64 word" where "city_k0 = 0xc3a5c85c97cb3127"
definition city_k1 :: "64 word" where "city_k1 = 0xb492b66fbe98f273"
definition city_k2 :: "64 word" where "city_k2 = 0x9ae16a3b2f90404f"
definition city_k3 :: "64 word" where "city_k3 = 0xc949d7c7509e6557"

text \<open>The two words are the fields \<^verbatim>\<open>first\<close> (low) and \<^verbatim>\<open>second\<close> (high) of a \<^verbatim>\<open>uint128\<close>.\<close>

definition Hash128to64 :: "64 word \<times> 64 word \<Rightarrow> 64 word" where
  "Hash128to64 x = (let
     kMul = 0x9ddfea08eb382d69;
     a = (fst x XOR snd x) * kMul;
     a = a XOR drop_bit 47 a;
     b = (snd x XOR a) * kMul;
     b = b XOR drop_bit 47 b
   in b * kMul)"

definition Rotate :: "64 word \<Rightarrow> nat \<Rightarrow> 64 word" where
  "Rotate val shift = (if shift = 0 then val else drop_bit shift val OR push_bit (64 - shift) val)"

definition RotateByAtLeast1 :: "64 word \<Rightarrow> nat \<Rightarrow> 64 word" where
  "RotateByAtLeast1 val shift = drop_bit shift val OR push_bit (64 - shift) val"

definition ShiftMix :: "64 word \<Rightarrow> 64 word" where
  "ShiftMix val = val XOR drop_bit 47 val"

definition HashLen16 :: "64 word \<Rightarrow> 64 word \<Rightarrow> 64 word" where
  "HashLen16 u v = Hash128to64 (u, v)"

definition HashLen0to16 :: "bytes \<Rightarrow> nat \<Rightarrow> 64 word option" where
  "HashLen0to16 s len =
     (if 8 < len then do {
        a \<leftarrow> Fetch64 s 0;
        b \<leftarrow> Fetch64 s (int len - 8);
        Some (HashLen16 a (RotateByAtLeast1 (b + word_of_nat len) len) XOR b)
      }
      else if 4 \<le> len then do {
        a \<leftarrow> Fetch32 s 0;
        b \<leftarrow> Fetch32 s (int len - 4);
        Some (HashLen16 (word_of_nat len + push_bit 3 a) b)
      }
      else if 0 < len then do {
        a \<leftarrow> arr_get s 0;
        b \<leftarrow> arr_get s (int (len div 2));
        c \<leftarrow> arr_get s (int len - 1);
        let y = (ucast a :: 32 word) + push_bit 8 (ucast b);
        let z = (word_of_nat len :: 32 word) + push_bit 2 (ucast c);
        Some (ShiftMix (ucast y * city_k2 XOR ucast z * city_k3) * city_k2)
      }
      else Some city_k2)"

definition HashLen17to32 :: "bytes \<Rightarrow> nat \<Rightarrow> 64 word option" where
  "HashLen17to32 s len = do {
     a \<leftarrow> Fetch64 s 0;
     let a = a * city_k1;
     b \<leftarrow> Fetch64 s 8;
     c \<leftarrow> Fetch64 s (int len - 8);
     let c = c * city_k2;
     d \<leftarrow> Fetch64 s (int len - 16);
     let d = d * city_k0;
     Some (HashLen16 (Rotate (a - b) 43 + Rotate c 30 + d)
       (a + Rotate (b XOR city_k3) 20 - c + word_of_nat len))
   }"

definition WeakHashLen32WithSeeds6 ::
  "64 word \<Rightarrow> 64 word \<Rightarrow> 64 word \<Rightarrow> 64 word \<Rightarrow> 64 word \<Rightarrow> 64 word \<Rightarrow> 64 word \<times> 64 word" where
  "WeakHashLen32WithSeeds6 w x y z a b = (let
     a = a + w;
     b = Rotate (b + a + z) 21;
     c = a;
     a = a + x;
     a = a + y;
     b = b + Rotate a 44
   in (a + z, b + c))"

definition WeakHashLen32WithSeeds :: "bytes \<Rightarrow> int \<Rightarrow> 64 word \<Rightarrow> 64 word \<Rightarrow> (64 word \<times> 64 word) option" where
  "WeakHashLen32WithSeeds s p a b = do {
     w \<leftarrow> Fetch64 s p;
     x \<leftarrow> Fetch64 s (p + 8);
     y \<leftarrow> Fetch64 s (p + 16);
     z \<leftarrow> Fetch64 s (p + 24);
     Some (WeakHashLen32WithSeeds6 w x y z a b)
   }"

definition HashLen33to64 :: "bytes \<Rightarrow> nat \<Rightarrow> 64 word option" where
  "HashLen33to64 s len = do {
     z \<leftarrow> Fetch64 s 24;
     a \<leftarrow> Fetch64 s 0;
     e \<leftarrow> Fetch64 s (int len - 16);
     let a = a + (word_of_nat len + e) * city_k0;
     let b = Rotate (a + z) 52;
     let c = Rotate a 37;
     f \<leftarrow> Fetch64 s 8;
     let a = a + f;
     let c = c + Rotate a 7;
     g \<leftarrow> Fetch64 s 16;
     let a = a + g;
     let vf = a + z;
     let vs = b + Rotate a 31 + c;
     h \<leftarrow> Fetch64 s (int len - 32);
     let a = g + h;
     z \<leftarrow> Fetch64 s (int len - 8);
     let b = Rotate (a + z) 52;
     let c = Rotate a 37;
     i \<leftarrow> Fetch64 s (int len - 24);
     let a = a + i;
     let c = c + Rotate a 7;
     let a = a + e;
     let wf = a + z;
     let ws = b + Rotate a 31 + c;
     let r = ShiftMix ((vf + ws) * city_k2 + (wf + vs) * city_k0);
     Some (ShiftMix (r * city_k0 + vs) * city_k2)
   }"

text \<open>The \<^verbatim>\<open>do\<close> loop over the chunks of 64 bytes: \<open>p\<close> is the position of \<open>s\<close>, \<open>len\<close> what remains.\<close>

function city_chunks ::
  "bytes \<Rightarrow> int \<Rightarrow> nat \<Rightarrow> 64 word \<times> 64 word \<Rightarrow> 64 word \<times> 64 word \<Rightarrow> 64 word \<Rightarrow> 64 word \<Rightarrow> 64 word \<Rightarrow> 64 word option"
  where
  "city_chunks s p len v w x y z = do {
     f8 \<leftarrow> Fetch64 s (p + 8);
     let x = Rotate (x + y + fst v + f8) 37 * city_k1;
     f48 \<leftarrow> Fetch64 s (p + 48);
     let y = Rotate (y + snd v + f48) 42 * city_k1;
     let x = x XOR snd w;
     f40 \<leftarrow> Fetch64 s (p + 40);
     let y = y + (fst v + f40);
     let z = Rotate (z + fst w) 33 * city_k1;
     v \<leftarrow> WeakHashLen32WithSeeds s p (snd v * city_k1) (x + fst w);
     f16 \<leftarrow> Fetch64 s (p + 16);
     w \<leftarrow> WeakHashLen32WithSeeds s (p + 32) (z + snd w) (y + f16);
     let (x, z) = (z, x);
     if len - 64 \<noteq> 0 then city_chunks s (p + 64) (len - 64) v w x y z
     else Some (HashLen16 (HashLen16 (fst v) (fst w) + ShiftMix y * city_k1 + z)
       (HashLen16 (snd v) (snd w) + x))
   }"
  by pat_completeness auto
termination
  by (relation "measure (\<lambda>(s, p, len, v, w, x, y, z). len)") auto

declare city_chunks.simps [simp del]

definition CityHash64 :: "bytes \<Rightarrow> nat \<Rightarrow> 64 word option" where
  "CityHash64 s len =
     (if len \<le> 32 then (if len \<le> 16 then HashLen0to16 s len else HashLen17to32 s len)
      else if len \<le> 64 then HashLen33to64 s len
      else do {
        x \<leftarrow> Fetch64 s (int len - 40);
        e \<leftarrow> Fetch64 s (int len - 16);
        f \<leftarrow> Fetch64 s (int len - 56);
        let y = e + f;
        g \<leftarrow> Fetch64 s (int len - 48);
        h \<leftarrow> Fetch64 s (int len - 24);
        let z = HashLen16 (g + word_of_nat len) h;
        v \<leftarrow> WeakHashLen32WithSeeds s (int len - 64) (word_of_nat len) z;
        w \<leftarrow> WeakHashLen32WithSeeds s (int len - 32) (y + city_k1) x;
        i \<leftarrow> Fetch64 s 0;
        let x = x * city_k1 + i;
        city_chunks s 0 ((len - 1) div 64 * 64) v w x y z
      })"

definition hash :: "bytes \<Rightarrow> nat \<Rightarrow> 64 word option" where
  "hash key len = CityHash64 key len"

subsection \<open>The hash reads only the string\<close>

lemma Fetch64_in: "0 \<le> p \<Longrightarrow> p + 8 \<le> int (length s) \<Longrightarrow> \<exists>x. Fetch64 s p = Some x"
  by (simp add: Fetch64_def load_bytes_def)

lemma Fetch32_in: "0 \<le> p \<Longrightarrow> p + 4 \<le> int (length s) \<Longrightarrow> \<exists>x. Fetch32 s p = Some x"
  by (simp add: Fetch32_def load_bytes_def)

lemma Weak_in: "0 \<le> p \<Longrightarrow> p + 32 \<le> int (length s) \<Longrightarrow> \<exists>x. WeakHashLen32WithSeeds s p a b = Some x"
  using Fetch64_in [of p s] Fetch64_in [of "p + 8" s] Fetch64_in [of "p + 16" s] Fetch64_in [of "p + 24" s]
  by (auto simp: WeakHashLen32WithSeeds_def)

lemma bind_some: "\<exists>x. m = Some x \<Longrightarrow> (\<And>x. \<exists>y. f x = Some y) \<Longrightarrow> \<exists>y. Option.bind m f = Some y"
  by auto

lemma HashLen0to16_in: "len \<le> length s \<Longrightarrow> \<exists>h. HashLen0to16 s len = Some h"
  unfolding HashLen0to16_def Let_def
  by (auto intro!: bind_some Fetch64_in Fetch32_in simp: arr_get_def)

lemma HashLen17to32_in: "16 \<le> len \<Longrightarrow> len \<le> length s \<Longrightarrow> \<exists>h. HashLen17to32 s len = Some h"
  unfolding HashLen17to32_def Let_def by (intro bind_some Fetch64_in exI refl) auto

lemma HashLen33to64_in: "32 \<le> len \<Longrightarrow> len \<le> length s \<Longrightarrow> \<exists>h. HashLen33to64 s len = Some h"
  unfolding HashLen33to64_def Let_def by (intro bind_some Fetch64_in exI refl) auto

lemma city_chunks_in:
  "0 \<le> p \<Longrightarrow> p + 64 * int (Suc n) \<le> int (length s) \<Longrightarrow> \<exists>h. city_chunks s p (64 * Suc n) v w x y z = Some h"
proof (induction n arbitrary: p v w x y z)
  case 0
  show ?case
    by (subst city_chunks.simps) (use 0 in \<open>auto intro!: bind_some Fetch64_in Weak_in simp: Let_def\<close>)
next
  case (Suc n)
  have "64 * Suc (Suc n) - 64 = 64 * Suc n" by simp
  then show ?case
    by (subst city_chunks.simps)
      (use Suc.prems in \<open>auto intro!: bind_some Fetch64_in Weak_in Suc.IH [of "p + 64"] simp: Let_def simp del: mult_Suc_right\<close>)
qed

lemma CityHash64_in: "len \<le> length s \<Longrightarrow> \<exists>h. CityHash64 s len = Some h"
proof (cases "len \<le> 64")
  case True
  then show "len \<le> length s \<Longrightarrow> \<exists>h. CityHash64 s len = Some h"
    by (simp add: CityHash64_def HashLen0to16_in HashLen17to32_in HashLen33to64_in)
next
  case False
  define n where "n = (len - 1) div 64 - 1"
  have n: "(len - 1) div 64 * 64 = 64 * Suc n" "64 * Suc n \<le> len" using False by (simp_all add: n_def)
  then have le: "64 * int (Suc n) \<le> int len" by linarith
  show "len \<le> length s \<Longrightarrow> \<exists>h. CityHash64 s len = Some h"
    unfolding CityHash64_def Let_def n(1)
    using False le by (auto intro!: bind_some Fetch64_in Weak_in city_chunks_in simp del: mult_Suc_right)
qed

text \<open>The hash of a key always ends and reads nothing outside the key, whatever its length.\<close>

theorem city_hash_in_bounds: "\<exists>h. hash key (length key) = Some h"
  unfolding hash_def by (rule CityHash64_in) simp

end
