(* ===== verification/Mica_Main.thy ===== *)
theory Mica_Main
  imports Mica_Spec City QFlow
begin

section \<open>Packet handling of the mica application: mica/main.c\<close>

text \<open>
  \<open>mica_process5tuple\<close> turns each packet into a set or, alternately, a get of the key made of its
  five-tuple, and writes the value into the packet; \<open>mica_process_burst\<close> does so for a burst. The
  key is a packed struct of 13 bytes on the stack; the hash reads exactly these, but the store
  reads the key in units of 8 bytes, so that the three bytes that follow it on the stack are an
  argument, as are the contents of the uninitialised \<^verbatim>\<open>value\<close>. At the end, the properties of the key-value
  store.
\<close>

subsection \<open>The code\<close>

definition VALUE_SIZE :: nat where "VALUE_SIZE = 1400"

record mica_state =
  store :: mehcached_table
  flag :: bool
  get_set_toggle :: "nat \<Rightarrow> bool"

definition five_tuple_key :: "bytes \<Rightarrow> bytes option" where
  "five_tuple_key pkt = do {
     src_ip \<leftarrow> load_bytes pkt 26 4;
     dst_ip \<leftarrow> load_bytes pkt 30 4;
     src_port \<leftarrow> load_bytes pkt 34 2;
     dst_port \<leftarrow> load_bytes pkt 36 2;
     prt \<leftarrow> arr_get pkt 23;
     Some (src_ip @ dst_ip @ src_port @ dst_port @ [prt])
   }"

definition mica_process5tuple ::
  "qflow_mode \<Rightarrow> nat \<Rightarrow> bytes \<times> bytes \<Rightarrow> bytes \<Rightarrow> mica_state \<Rightarrow> (bytes \<times> mica_state) option" where
  "mica_process5tuple mode lcore_id stack pkt st = do {
     key \<leftarrow> five_tuple_key pkt;
     let do_get = (if mode = QFLOW_SINGLE then flag st else get_set_toggle st lcore_id);
     let st = (if mode = QFLOW_SINGLE then st\<lparr>flag := \<not> flag st\<rparr>
       else st\<lparr>get_set_toggle := (get_set_toggle st)(lcore_id := \<not> get_set_toggle st lcore_id)\<rparr>);
     key_hash \<leftarrow> hash key 13;
     if do_get then do {
       (r, t) \<leftarrow> mehcached_get (store st) (unat key_hash) (key @ fst stack) 13 VALUE_SIZE False;
       value \<leftarrow> (case r of None \<Rightarrow> Some (snd stack)
         | Some (value_length, out, _) \<Rightarrow>
             if value_length = VALUE_SIZE then Some (out @ drop (length out) (snd stack)) else None);
       pkt \<leftarrow> store_bytes pkt 50 value;
       Some (pkt, st\<lparr>store := t\<rparr>)
     }
     else do {
       let value = replicate (VALUE_SIZE - 1) 0x41 @ [0];
       (ok, t) \<leftarrow> mehcached_set (store st) (unat key_hash) (key @ fst stack) 13 value VALUE_SIZE 0 True;
       if \<not> ok then None
       else do {
         pkt \<leftarrow> store_bytes pkt 50 value;
         Some (pkt, st\<lparr>store := t\<rparr>)
       }
     }
   }"

text \<open>The stack differs from packet to packet.\<close>

fun process5tuple_from ::
  "qflow_mode \<Rightarrow> nat \<Rightarrow> (nat \<Rightarrow> bytes \<times> bytes) \<Rightarrow> nat \<Rightarrow> bytes list \<Rightarrow> mica_state \<Rightarrow> (bytes list \<times> mica_state) option" where
  "process5tuple_from mode lcore_id stack i [] st = Some ([], st)"
| "process5tuple_from mode lcore_id stack i (pkt # pkts) st = do {
     (pkt, st) \<leftarrow> mica_process5tuple mode lcore_id (stack i) pkt st;
     (pkts, st) \<leftarrow> process5tuple_from mode lcore_id stack (Suc i) pkts st;
     Some (pkt # pkts, st)
   }"

definition mica_process_burst ::
  "qflow_mode \<Rightarrow> nat \<Rightarrow> (nat \<Rightarrow> bytes \<times> bytes) \<Rightarrow> bytes list \<Rightarrow> mica_state \<Rightarrow> (nat \<times> bytes list \<times> mica_state) option" where
  "mica_process_burst mode lcore_id stack pkts_burst st = do {
     (pkts, st) \<leftarrow> process5tuple_from mode lcore_id stack 0 pkts_burst st;
     Some (0, pkts, st)
   }"

subsection \<open>One packet\<close>

definition default_value :: bytes where
  "default_value = replicate (VALUE_SIZE - 1) 0x41 @ [0]"

definition turn_get :: "qflow_mode \<Rightarrow> nat \<Rightarrow> mica_state \<Rightarrow> bool" where
  "turn_get mode lcore_id st = (if mode = QFLOW_SINGLE then flag st else get_set_toggle st lcore_id)"

definition only_default :: "(mkey \<Rightarrow> mval option) \<Rightarrow> bool" where
  "only_default A \<longleftrightarrow> (\<forall>k w. A k = Some w \<longrightarrow> w = (1400, default_value))"

definition app_ok :: "mica_state \<Rightarrow> bool" where
  "app_ok st \<longleftrightarrow> (\<exists>A. mica_rel (store st) A \<and> only_default A)"

definition stack_ok :: "bytes \<times> bytes \<Rightarrow> bool" where
  "stack_ok s \<longleftrightarrow> length (fst s) = 3 \<and> length (snd s) = 1400"

lemma length_default [simp]: "length default_value = 1400"
  by (simp add: default_value_def VALUE_SIZE_def)

lemma default_bytes: "replicate 1399 65 @ [0] = default_value"
  by (simp add: default_value_def VALUE_SIZE_def)

lemma r13: "ROUNDUP8 13 = 16" "ROUNDUP8 1400 = 1400"
  by (simp_all add: ROUNDUP8_def)

lemma five_tuple_key_some:
  assumes "38 \<le> length pkt"
  obtains key where "five_tuple_key pkt = Some key" "length key = 13"
  using assms that by (simp add: five_tuple_key_def load_bytes_def arr_get_def)

lemma hash_some:
  assumes "length key = 13"
  obtains h where "hash key 13 = Some h"
  using city_hash_in_bounds [of key] assms by auto

lemma key_take [simp]: "length key = 13 \<Longrightarrow> length tl3 = 3 \<Longrightarrow> take 16 (key @ tl3) = key @ tl3"
  by simp

lemma store_1400: "1450 \<le> length pkt \<Longrightarrow> length v = 1400 \<Longrightarrow> \<exists>p'. store_bytes pkt 50 v = Some p' \<and> length p' = length pkt"
  by (simp add: store_bytes_def)

lemma take_1400: "length vb = 1400 \<Longrightarrow> take (ROUNDUP8 (min 1400 1400)) vb = vb"
  by (simp add: r13)

lemma process_set:
  assumes inv: "mica_inv (store st) xs A" and A: "only_default A" and set: "\<not> turn_get mode lcore_id st"
    and pkt: "1450 \<le> length pkt" and st: "length tl3 = 3"
    and key: "five_tuple_key pkt = Some key" "length key = 13" "hash key 13 = Some h"
    and room: "tail (alloc (store st)) + 1440 < 2 ^ 40"
  shows "\<exists>pkt' st' xs'. mica_process5tuple mode lcore_id (tl3, junk) pkt st = Some (pkt', st') \<and>
    mica_inv (store st') xs' (A((unat h, 13, key @ tl3) \<mapsto> (1400, default_value))) \<and>
    cached (store st') (unat h, 13, key @ tl3) (1400, default_value) \<and>
    tail (alloc (store st')) \<le> tail (alloc (store st)) + 1440 \<and> turn_get mode lcore_id st' \<and>
    store_bytes pkt 50 default_value = Some pkt'"
proof -
  let ?K = "(unat h, 13, key @ tl3)" and ?w = "(1400, default_value)"
  have len: "item_len ?K ?w = 1440" by (simp add: r13)
  have rm: "tail (alloc (store st)) + item_len ?K ?w < 2 ^ 40" using room by (simp only: len)
  have same: "ROUNDUP8 (fst w0) = ROUNDUP8 1400" if "A ?K = Some w0" for w0
    using A that unfolding only_default_def by (metis fst_conv)
  have eqs: "?K = (unat h, 13, take (ROUNDUP8 13) (key @ tl3))" "?w = (1400, take (ROUNDUP8 1400) default_value)"
    "ROUNDUP8 13 \<le> length (key @ tl3)" "ROUNDUP8 1400 \<le> length default_value"
    using key(2) st by (simp_all add: r13)
  have h: "unat h < 2 ^ 64" using unsigned_less [of h, where ?'a = nat] by simp
  obtain t' xs' where t': "mehcached_set (store st) (unat h) (key @ tl3) 13 default_value 1400 0 True = Some (True, t')"
    "mica_inv t' xs' (A(?K \<mapsto> ?w))" "cached t' ?K ?w" "tail (alloc t') \<le> tail (alloc (store st)) + 1440"
    using set_ok [OF inv _ eqs(3) _ eqs(4) h eqs(1,2) rm same, of 0] len by auto
  obtain pkt' where p: "store_bytes pkt 50 default_value = Some pkt'" using store_1400 [OF pkt length_default] by blast
  show ?thesis
    using key t' p set
    by (auto simp: mica_process5tuple_def Let_def turn_get_def VALUE_SIZE_def default_bytes split: if_splits)
qed

lemma process_get:
  assumes inv: "mica_inv (store st) xs A" and A: "only_default A" and turn: "turn_get mode lcore_id st"
    and pkt: "1450 \<le> length pkt" and st: "length tl3 = 3" "length junk = 1400"
    and key: "five_tuple_key pkt = Some key" "length key = 13" "hash key 13 = Some h"
    and room: "tail (alloc (store st)) + 1440 < 2 ^ 40"
  shows "\<exists>pkt' st' xs' v. mica_process5tuple mode lcore_id (tl3, junk) pkt st = Some (pkt', st') \<and>
    mica_inv (store st') xs' A \<and>
    tail (alloc (store st')) \<le> tail (alloc (store st)) + 1440 \<and> \<not> turn_get mode lcore_id st' \<and>
    store_bytes pkt 50 v = Some pkt' \<and>
    v = (if \<exists>w. cached (store st) (unat h, 13, key @ tl3) w then default_value else junk)"
proof -
  let ?K = "(unat h, 13, key @ tl3)"
  have cost: "move_cost ?K (A ?K) \<le> 1440"
  proof (cases "A ?K")
    case (Some w)
    then have "w = (1400, default_value)" using A unfolding only_default_def by blast
    then show ?thesis using Some by (simp add: move_cost_def r13)
  qed (simp add: move_cost_def)
  have eqs: "?K = (unat h, 13, take (ROUNDUP8 13) (key @ tl3))" "ROUNDUP8 13 \<le> length (key @ tl3)"
    using key(2) st(1) by (simp_all add: r13)
  have rm: "tail (alloc (store st)) + move_cost ?K (A ?K) < 2 ^ 40" using room cost by linarith
  obtain r t' xs' where t': "mehcached_get (store st) (unat h) (key @ tl3) 13 1400 False = Some (r, t')" "mica_inv t' xs' A"
    "get_answer 1400 (A ?K) r" "r = None \<longleftrightarrow> (\<forall>w. \<not> cached (store st) ?K w)"
    "tail (alloc t') \<le> tail (alloc (store st)) + 1440"
    using get_ok [OF inv _ eqs(2) _ eqs(1) rm, of 1400 False] cost by fastforce
  obtain p0 where p0: "store_bytes pkt 50 junk = Some p0" using store_1400 [OF pkt st(2)] by blast
  obtain p1 where p1: "store_bytes pkt 50 default_value = Some p1" using store_1400 [OF pkt length_default] by blast
  show ?thesis
  proof (cases r)
    case None
    then have "\<not> (\<exists>w. cached (store st) ?K w)" using t'(4) by blast
    then show ?thesis
      using key t'(1,2,5) p0 turn None
      by (auto simp: mica_process5tuple_def Let_def turn_get_def VALUE_SIZE_def split: if_splits)
  next
    case (Some a)
    then obtain n out ex where r: "r = Some (n, out, ex)" by (cases a) auto
    then have c: "\<exists>w. cached (store st) ?K w" using t'(4) by blast
    obtain vl vb where "A ?K = Some (vl, vb)" using t'(3) r by (cases "A ?K") auto
    then have "A ?K = Some (1400, default_value)" using A unfolding only_default_def by metis
    then have out: "n = 1400" "out = default_value" using t'(3) r by (simp_all add: r13)
    show ?thesis
      using key t'(1,2,5) p1 turn r c out st(2)
      by (auto simp: mica_process5tuple_def Let_def turn_get_def VALUE_SIZE_def split: if_splits)
  qed
qed

subsection \<open>Bursts\<close>

lemma process_one:
  assumes "app_ok st" "1450 \<le> length pkt" "stack_ok s" "tail (alloc (store st)) + 1440 < 2 ^ 40"
  shows "\<exists>pkt' st' v. mica_process5tuple mode lcore_id s pkt st = Some (pkt', st') \<and> app_ok st' \<and>
    tail (alloc (store st')) \<le> tail (alloc (store st)) + 1440 \<and> turn_get mode lcore_id st' = (\<not> turn_get mode lcore_id st) \<and>
    store_bytes pkt 50 v = Some pkt' \<and> (v = default_value \<or> turn_get mode lcore_id st \<and> v = snd s)"
proof -
  obtain A xs where A: "mica_inv (store st) xs A" "only_default A" using assms(1) by (auto simp: app_ok_def mica_rel_def)
  obtain tl3 junk where s: "s = (tl3, junk)" "length tl3 = 3" "length junk = 1400"
    using assms(3) by (cases s) (simp add: stack_ok_def)
  have "38 \<le> length pkt" using assms(2) by simp
  then obtain key where k: "five_tuple_key pkt = Some key" "length key = 13" by (rule five_tuple_key_some)
  obtain h where h: "hash key 13 = Some h" by (rule hash_some [OF k(2)])
  show ?thesis
  proof (cases "turn_get mode lcore_id st")
    case True
    from process_get [OF A True assms(2) s(2,3) k h assms(4)] True A(2) show ?thesis
      unfolding s(1) app_ok_def mica_rel_def by (metis snd_conv)
  next
    case False
    have "only_default (A((unat h, 13, key @ tl3) \<mapsto> (1400, default_value)))" using A(2) by (simp add: only_default_def)
    with process_set [OF A False assms(2) s(2) k h assms(4), of junk] False show ?thesis
      unfolding s(1) app_ok_def mica_rel_def by blast
  qed
qed

lemma process_from_ok:
  assumes "app_ok st" "\<forall>p \<in> set pkts. 1450 \<le> length p" "\<forall>i. stack_ok (stack i)"
    "tail (alloc (store st)) + length pkts * 1440 < 2 ^ 40"
  shows "\<exists>out st'. process5tuple_from mode lcore_id stack i pkts st = Some (out, st') \<and> app_ok st' \<and>
    length out = length pkts \<and> (\<forall>k<length pkts. \<exists>v. store_bytes (pkts ! k) 50 v = Some (out ! k) \<and>
      (v = default_value \<or> turn_get mode lcore_id st = even k \<and> v = snd (stack (i + k))))"
  using assms
proof (induction pkts arbitrary: i st)
  case Nil
  then show ?case by simp
next
  case (Cons p pkts)
  have "1450 \<le> length p" "stack_ok (stack i)" "tail (alloc (store st)) + 1440 < 2 ^ 40" using Cons.prems by simp_all
  from process_one [OF Cons.prems(1) this, of mode lcore_id] obtain p' st1 v where
    1: "mica_process5tuple mode lcore_id (stack i) p st = Some (p', st1)" "app_ok st1"
      "tail (alloc (store st1)) \<le> tail (alloc (store st)) + 1440"
      "turn_get mode lcore_id st1 = (\<not> turn_get mode lcore_id st)"
      "store_bytes p 50 v = Some p'" "v = default_value \<or> turn_get mode lcore_id st \<and> v = snd (stack i)" by blast
  have "\<forall>p \<in> set pkts. 1450 \<le> length p" "tail (alloc (store st1)) + length pkts * 1440 < 2 ^ 40"
    using Cons.prems(2,4) 1(3) by simp_all
  from Cons.IH [OF 1(2) this(1) Cons.prems(3) this(2), of "Suc i"] obtain out st2 where
    2: "process5tuple_from mode lcore_id stack (Suc i) pkts st1 = Some (out, st2)" "app_ok st2" "length out = length pkts"
      "\<forall>k<length pkts. \<exists>v. store_bytes (pkts ! k) 50 v = Some (out ! k) \<and>
        (v = default_value \<or> turn_get mode lcore_id st1 = even k \<and> v = snd (stack (Suc i + k)))" by blast
  have "\<exists>v. store_bytes ((p # pkts) ! k) 50 v = Some ((p' # out) ! k) \<and>
      (v = default_value \<or> turn_get mode lcore_id st = even k \<and> v = snd (stack (i + k)))" if k: "k < length (p # pkts)" for k
  proof (cases k)
    case 0
    then show ?thesis using 1(5,6) by auto
  next
    case (Suc j)
    then show ?thesis using 2(4) [rule_format, of j] k 1(4) by auto
  qed
  then show ?case using 1(1) 2(1-3) by auto
qed

subsection \<open>Properties\<close>


definition demo_stack :: "nat \<Rightarrow> bytes \<times> bytes" where
  "demo_stack i = (replicate 3 (word_of_nat i), replicate 1400 7)"

lemma fresh_app:
  assumes "mica_rel t (\<lambda>_. None)"
  shows "app_ok \<lparr>store = t, flag = f, get_set_toggle = g\<rparr>"
  unfolding app_ok_def by (rule exI [of _ "\<lambda>_. None"]) (simp add: assms only_default_def)


text \<open>Because the store reads 16 bytes of a key of 13, a packet that sets a value and a packet of the
  same five-tuple that gets it find each other exactly when the three bytes that follow the key on
  the stack are the same both times.\<close>

theorem mica_key_reads_past_end:
  assumes "mica_rel (store st) (\<lambda>_. None)" "\<not> turn_get mode lcore_id st"
    and "1450 \<le> length p" "1450 \<le> length q" "five_tuple_key p = five_tuple_key q"
    and "stack_ok a" "stack_ok b" "tail (alloc (store st)) + 2880 < 2 ^ 40"
  shows "\<exists>p' q' st1 st2. mica_process5tuple mode lcore_id a p st = Some (p', st1) \<and>
    mica_process5tuple mode lcore_id b q st1 = Some (q', st2) \<and>
    store_bytes q 50 (if fst a = fst b then default_value else snd b) = Some q'"
proof -
  obtain xs where inv: "mica_inv (store st) xs (\<lambda>_. None)" using assms(1) by (auto simp: mica_rel_def)
  obtain a3 ja b3 jb where s: "a = (a3, ja)" "b = (b3, jb)" "length a3 = 3" "length b3 = 3" "length jb = 1400"
    using assms(6,7) by (cases a; cases b) (simp add: stack_ok_def)
  have "38 \<le> length p" using assms(3) by simp
  then obtain key where k: "five_tuple_key p = Some key" "length key = 13" by (rule five_tuple_key_some)
  then have kq: "five_tuple_key q = Some key" using assms(5) by simp
  obtain h where h: "hash key 13 = Some h" by (rule hash_some [OF k(2)])
  let ?A = "(\<lambda>_. None)((unat h, 13, key @ a3) \<mapsto> (1400, default_value))"
  have "only_default (\<lambda>_. None)" "tail (alloc (store st)) + 1440 < 2 ^ 40" using assms(8) by (simp_all add: only_default_def)
  from process_set [OF inv this(1) assms(2,3) s(3) k h this(2), of ja] obtain p' st1 xs1 where
    1: "mica_process5tuple mode lcore_id (a3, ja) p st = Some (p', st1)" "mica_inv (store st1) xs1 ?A"
      "cached (store st1) (unat h, 13, key @ a3) (1400, default_value)"
      "tail (alloc (store st1)) \<le> tail (alloc (store st)) + 1440" "turn_get mode lcore_id st1" by blast
  have "only_default ?A" "tail (alloc (store st1)) + 1440 < 2 ^ 40" using 1(4) assms(8) by (simp_all add: only_default_def)
  from process_get [OF 1(2) this(1) 1(5) assms(4) s(4,5) kq k(2) h this(2)] obtain q' st2 where
    2: "mica_process5tuple mode lcore_id (b3, jb) q st1 = Some (q', st2)"
      "store_bytes q 50 (if \<exists>w. cached (store st1) (unat h, 13, key @ b3) w then default_value else jb) = Some q'" by blast
  have "(\<exists>w. cached (store st1) (unat h, 13, key @ b3) w) \<longleftrightarrow> a3 = b3"
  proof (cases "a3 = b3")
    case True
    then show ?thesis using 1(3) by blast
  next
    case False
    then have "?A (unat h, 13, key @ b3) = None" by simp
    then show ?thesis using cached_value [OF 1(2), of "(unat h, 13, key @ b3)"] False by auto
  qed
  then have "store_bytes q 50 (if a3 = b3 then default_value else jb) = Some q'" using 2(2) by (simp only:)
  then show ?thesis using 1(1) 2(1) unfolding s(1,2) fst_conv snd_conv by blast
qed

theorem mica_key_reads_past_end_witness:
  "\<exists>t p' q' st1 st2. mehcached_table_init True (Some (\<lambda>i. 0)) (\<lambda>s. 0) 8 1 2097152 True True True = Some t \<and>
    mica_process5tuple QFLOW_SHARED 3 (demo_stack 0) (replicate 1500 0)
      \<lparr>store = t, flag = False, get_set_toggle = (\<lambda>i. False)\<rparr> = Some (p', st1) \<and>
    mica_process5tuple QFLOW_SHARED 3 (demo_stack 1) (replicate 1500 0) st1 = Some (q', st2) \<and>
    store_bytes (replicate 1500 0) 50 (replicate 1400 7) = Some q'"
proof -
  obtain t where t: "mehcached_table_init True (Some (\<lambda>i. 0)) (\<lambda>s. 0) 8 1 2097152 True True True = Some t"
    "mica_rel t (\<lambda>_. None)" "tail (alloc t) = 0" by (rule fresh_table)
  let ?st = "\<lparr>store = t, flag = False, get_set_toggle = (\<lambda>i. False)\<rparr>"
  have s: "stack_ok (demo_stack i)" for i by (simp add: stack_ok_def demo_stack_def)
  have d: "fst (demo_stack 0) \<noteq> fst (demo_stack 1)" "snd (demo_stack 1) = replicate 1400 7"
    by (simp_all add: demo_stack_def numeral_3_eq_3)
  have "mica_rel (store ?st) (\<lambda>_. None)" "\<not> turn_get QFLOW_SHARED 3 ?st" using t(2) by (simp_all add: turn_get_def)
  from mica_key_reads_past_end [OF this _ _ refl s [of 0] s [of 1], of "replicate 1500 0"] t(1,3) d
  show ?thesis by simp
qed

end
