(* ===== verification/Mica_Shm.thy ===== *)
theory Mica_Shm
  imports Mica_Store C_Strings
begin

section \<open>Shared memory of mica: shm.c\<close>

text \<open>
  Huge pages are files. \<open>mehcached_shm_init\<close> creates and sorts them; a segment (an entry) owns some of them; a
  segment is mapped at addresses of the process, and goes when it is scheduled for removal and no mapping refers
  to it. Pointers and sizes are numbers below \<open>2 ^ 64\<close>, \<^verbatim>\<open>NULL\<close> is 0. The state has the arrays of the file and,
  for what the operating system keeps, the file that is mapped at a page address (\<open>space\<close>), the contents of the
  files, and the ranges that \<open>mehcached_shm_find_free_address\<close> leaves mapped. The answers of the system
  are a record of functions of the number of calls made before. A failed \<^verbatim>\<open>assert\<close>, a lock that is never
  released and an access outside an array are \<open>None\<close>. Messages are left out.
\<close>

subsection \<open>State\<close>

record shm_page =
  pg_path :: string
  pg_addr :: nat
  pg_paddr :: nat
  pg_numa :: nat
  pg_in_use :: nat

record shm_entry =
  refcount :: nat
  to_remove :: nat
  seg_length :: nat
  seg_num_pages :: nat
  seg_pages :: "nat list option"

record shm_mapping =
  map_entry :: nat
  map_addr :: nat
  map_length :: nat
  map_page_offset :: nat
  map_num_pages :: nat

definition MAX_PAGES :: nat where "MAX_PAGES = 65536"
definition MAX_ENTRIES :: nat where "MAX_ENTRIES = 8192"
definition MAX_MAPPINGS :: nat where "MAX_MAPPINGS = 16384"

record shm =
  page_size :: nat
  state_lock :: nat
  shm_pages :: "nat \<Rightarrow> shm_page"
  shm_entries :: "nat \<Rightarrow> shm_entry"
  shm_mappings :: "nat \<Rightarrow> shm_mapping"
  used_memory :: nat
  space :: "nat \<Rightarrow> string option"
  files :: "string \<Rightarrow> nat \<Rightarrow> 8 word"
  left_mapped :: "(nat \<times> nat) list"
  ticks :: nat

record os =
  os_open :: "nat \<Rightarrow> string \<Rightarrow> bool"
  os_mmap :: "nat \<Rightarrow> nat \<Rightarrow> nat option"
  os_mmap_fixed :: "nat \<Rightarrow> nat \<Rightarrow> bool"
  os_malloc :: "nat \<Rightarrow> nat \<Rightarrow> bool"
  numa_maps :: "string list option"
  pagemap :: "nat \<Rightarrow> nat option"
  normal_page_size :: nat

definition zero_page :: shm_page where
  "zero_page = \<lparr>pg_path = [], pg_addr = 0, pg_paddr = 0, pg_numa = 0, pg_in_use = 0\<rparr>"

definition zero_entry :: shm_entry where
  "zero_entry = \<lparr>refcount = 0, to_remove = 0, seg_length = 0, seg_num_pages = 0, seg_pages = None\<rparr>"

definition zero_mapping :: shm_mapping where
  "zero_mapping = \<lparr>map_entry = 0, map_addr = 0, map_length = 0, map_page_offset = 0, map_num_pages = 0\<rparr>"

definition u64 :: "nat \<Rightarrow> nat" where
  "u64 n = n mod 2 ^ 64"

definition tick :: "shm \<Rightarrow> shm" where
  "tick s = s\<lparr>ticks := Suc (ticks s)\<rparr>"

definition mehcached_shm_path :: "nat \<Rightarrow> string" where
  "mehcached_shm_path page_id = ''/mnt/huge/mehcached_shm_'' @ num 10 page_id"

definition mehcached_shm_lock :: "shm \<Rightarrow> shm option" where
  "mehcached_shm_lock s = (if state_lock s = 0 then Some (s\<lparr>state_lock := 1\<rparr>) else None)"

definition mehcached_shm_unlock :: "shm \<Rightarrow> shm" where
  "mehcached_shm_unlock s = s\<lparr>state_lock := 0\<rparr>"

definition page_mask :: "shm \<Rightarrow> nat" where
  "page_mask s = (if page_size s = 0 then 0 else 2 ^ 64 - page_size s)"

definition pages_for :: "shm \<Rightarrow> nat \<Rightarrow> nat option" where
  "pages_for s len = (if page_size s = 0 then None else Some (u64 (len + (page_size s - 1)) div page_size s))"

definition munmap_page :: "shm \<Rightarrow> nat \<Rightarrow> shm" where
  "munmap_page s a = s\<lparr>space := (space s)(a := None)\<rparr>"

text \<open>\<open>for (i = 0; i < n; i++) if (P(i)) break;\<close>\<close>

function first_index :: "(nat \<Rightarrow> bool) \<Rightarrow> nat \<Rightarrow> nat \<Rightarrow> nat" where
  "first_index P n i = (if i < n \<and> \<not> P i then first_index P n (Suc i) else i)"
  by pat_completeness auto
termination
  by (relation "measure (\<lambda>(P, n, i). n - i)") auto

declare first_index.simps [simp del]

subsection \<open>Free addresses\<close>

definition mehcached_shm_find_free_address :: "os \<Rightarrow> nat \<Rightarrow> shm \<Rightarrow> (nat \<times> shm) option" where
  "mehcached_shm_find_free_address os size_arg s = do {
     let alignment = (if page_size s = 0 then 1 else page_size s);
     p2 \<leftarrow> mehcached_next_power_of_two alignment;
     if p2 \<noteq> alignment then Some (0, s)
     else if \<not> os_open os (ticks s) ''/dev/zero'' then None
     else do {
       let s = tick s;
       case os_mmap os (ticks s) (u64 (size_arg + alignment)) of
         None \<Rightarrow> Some (0, tick s)
       | Some p \<Rightarrow> Some (u64 (p + (alignment - 1)) AND (2 ^ 64 - 1 - (alignment - 1)),
           (tick s)\<lparr>left_mapped := (u64 (p + size_arg), alignment) # left_mapped s\<rparr>)
     }
   }"

subsection \<open>Segments\<close>

function take_pages :: "shm \<Rightarrow> nat \<Rightarrow> nat \<Rightarrow> nat \<Rightarrow> nat list \<Rightarrow> nat list" where
  "take_pages s numa_node num_pages page_id got =
     (if \<not> page_id < MAX_PAGES \<or> length got = num_pages then got
      else if pg_addr (shm_pages s page_id) = 0 then take_pages s numa_node num_pages (Suc page_id) got
      else if pg_in_use (shm_pages s page_id) \<noteq> 0 \<or> pg_numa (shm_pages s page_id) \<noteq> numa_node
      then take_pages s numa_node num_pages (Suc page_id) got
      else take_pages s numa_node num_pages (Suc page_id) (got @ [page_id]))"
  by pat_completeness auto
termination
  by (relation "measure (\<lambda>(s, n, m, i, got). MAX_PAGES - i)") auto

declare take_pages.simps [simp del]

definition set_in_use :: "nat list \<Rightarrow> nat \<Rightarrow> shm \<Rightarrow> shm" where
  "set_in_use ids v s = s\<lparr>shm_pages := fold (\<lambda>i f. f(i := (f i)\<lparr>pg_in_use := v\<rparr>)) ids (shm_pages s)\<rparr>"

definition mehcached_shm_alloc :: "os \<Rightarrow> nat \<Rightarrow> nat \<Rightarrow> shm \<Rightarrow> (nat \<times> shm) option" where
  "mehcached_shm_alloc os len numa_arg s = do {
     let numa_node = (if numa_arg = 2 ^ 64 - 1 then 0 else numa_arg);
     s \<leftarrow> mehcached_shm_lock s;
     let entry_id = first_index (\<lambda>e. seg_pages (shm_entries s e) = None) MAX_ENTRIES 0;
     if entry_id = MAX_ENTRIES then Some (2 ^ 64 - 1, mehcached_shm_unlock s)
     else do {
       num_pages \<leftarrow> pages_for s len;
       let bytes = u64 (8 * num_pages);
       let had = os_malloc os (ticks s) bytes;
       let s = tick s;
       let ids = take_pages s numa_node num_pages 0 [];
       if ids \<noteq> [] \<and> (\<not> had \<or> bytes < 8 * length ids) then None
       else if num_pages \<noteq> length ids
       then Some (2 ^ 64 - 1, mehcached_shm_unlock (s\<lparr>shm_entries := (shm_entries s)(entry_id := zero_entry)\<rparr>))
       else do {
         let s = s\<lparr>shm_entries := (shm_entries s)(entry_id := (shm_entries s entry_id)
                 \<lparr>seg_length := len, seg_num_pages := num_pages, seg_pages := (if had then Some ids else None)\<rparr>)\<rparr>;
         Some (entry_id, mehcached_shm_unlock (set_in_use ids 1 s))
       }
     }
   }"

text \<open>The memory of a removed entry is subtracted after the entry has been cleared.\<close>

definition entry_pages :: "shm_entry \<Rightarrow> nat list" where
  "entry_pages e = (case seg_pages e of None \<Rightarrow> [] | Some ids \<Rightarrow> ids)"

definition mehcached_shm_check_remove :: "nat \<Rightarrow> shm \<Rightarrow> shm option" where
  "mehcached_shm_check_remove entry_id s =
     (if \<not> entry_id < MAX_ENTRIES then None
      else if refcount (shm_entries s entry_id) = 0 \<and> to_remove (shm_entries s entry_id) \<noteq> 0 then do {
        let n = seg_num_pages (shm_entries s entry_id);
        let ids = entry_pages (shm_entries s entry_id);
        if length ids < n \<or> \<not> list_all (\<lambda>i. i < MAX_PAGES) (take n ids) then None
        else do {
          let s = set_in_use (take n ids) 0 s;
          let s = s\<lparr>shm_entries := (shm_entries s)(entry_id := zero_entry)\<rparr>;
          let released = u64 (seg_num_pages (shm_entries s entry_id) * page_size s);
          Some (s\<lparr>used_memory := u64 (used_memory s + (2 ^ 64 - released))\<rparr>)
        }
      }
      else Some s)"

definition mehcached_shm_schedule_remove :: "nat \<Rightarrow> shm \<Rightarrow> (bool \<times> shm) option" where
  "mehcached_shm_schedule_remove entry_id s = do {
     s \<leftarrow> mehcached_shm_lock s;
     if \<not> entry_id < MAX_ENTRIES then None
     else if seg_pages (shm_entries s entry_id) = None then Some (False, mehcached_shm_unlock s)
     else do {
       s \<leftarrow> mehcached_shm_check_remove entry_id
         (s\<lparr>shm_entries := (shm_entries s)(entry_id := (shm_entries s entry_id)\<lparr>to_remove := 1\<rparr>)\<rparr>);
       Some (True, mehcached_shm_unlock s)
     }
   }"

subsection \<open>Mappings\<close>

function map_pages :: "os \<Rightarrow> nat list \<Rightarrow> nat \<Rightarrow> nat \<Rightarrow> nat \<Rightarrow> shm \<Rightarrow> (bool \<times> nat \<times> shm) option" where
  "map_pages os ids page_index page_index_end p s =
     (if page_index < page_index_end then
        if \<not> page_index < length ids \<or> \<not> ids ! page_index < MAX_PAGES then None
        else if \<not> os_open os (ticks s) (pg_path (shm_pages s (ids ! page_index))) then None
        else if \<not> os_mmap_fixed os (Suc (ticks s)) p then Some (True, page_index, tick (tick s))
        else map_pages os ids (Suc page_index) page_index_end (u64 (p + page_size s))
               ((tick (tick s))\<lparr>space := (space s)(p \<mapsto> pg_path (shm_pages s (ids ! page_index)))\<rparr>)
      else Some (False, page_index, s))"
  by pat_completeness auto
termination
  by (relation "measure (\<lambda>(os, ids, i, n, p, s). n - i)") auto

declare map_pages.simps [simp del]

primrec unmap_pages :: "nat \<Rightarrow> nat \<Rightarrow> shm \<Rightarrow> shm" where
  "unmap_pages 0 p s = s"
| "unmap_pages (Suc k) p s = unmap_pages k (u64 (p + page_size s)) (munmap_page s p)"

definition mehcached_shm_map :: "os \<Rightarrow> nat \<Rightarrow> nat \<Rightarrow> nat \<Rightarrow> nat \<Rightarrow> shm \<Rightarrow> (bool \<times> shm) option" where
  "mehcached_shm_map os entry_id ptr offset len s =
     (if ptr AND page_mask s \<noteq> ptr then Some (False, s)
      else if offset AND page_mask s \<noteq> offset then Some (False, s)
      else do {
        s \<leftarrow> mehcached_shm_lock s;
        if \<not> entry_id < MAX_ENTRIES then None
        else if seg_pages (shm_entries s entry_id) = None then Some (False, mehcached_shm_unlock s)
        else if seg_length (shm_entries s entry_id) < offset then Some (False, mehcached_shm_unlock s)
        else if seg_length (shm_entries s entry_id) < u64 (offset + len) then Some (False, mehcached_shm_unlock s)
        else do {
          let mapping_id = first_index (\<lambda>m. map_addr (shm_mappings s m) = 0) MAX_MAPPINGS 0;
          if mapping_id = MAX_MAPPINGS then Some (False, mehcached_shm_unlock s)
          else do {
            num_pages \<leftarrow> pages_for s len;
            let page_offset = offset div page_size s;
            (error, page_index, s) \<leftarrow> map_pages os (entry_pages (shm_entries s entry_id))
              page_offset (u64 (page_offset + num_pages)) ptr s;
            if error then Some (False, mehcached_shm_unlock (unmap_pages (page_index - page_offset) ptr s))
            else do {
              let s = (if refcount (shm_entries s entry_id) = 0
                then s\<lparr>used_memory := u64 (used_memory s + seg_num_pages (shm_entries s entry_id) * page_size s)\<rparr>
                else s);
              let s = s\<lparr>shm_entries := (shm_entries s)(entry_id := (shm_entries s entry_id)
                \<lparr>refcount := u64 (refcount (shm_entries s entry_id) + 1)\<rparr>)\<rparr>;
              let s = s\<lparr>shm_mappings := (shm_mappings s)(mapping_id :=
                \<lparr>map_entry = entry_id, map_addr = ptr, map_length = len, map_page_offset = page_offset,
                  map_num_pages = num_pages\<rparr>)\<rparr>;
              Some (True, mehcached_shm_unlock s)
            }
          }
        }
      })"

definition mehcached_shm_unmap :: "nat \<Rightarrow> shm \<Rightarrow> (bool \<times> shm) option" where
  "mehcached_shm_unmap ptr s = do {
     s \<leftarrow> mehcached_shm_lock s;
     let mapping_id = first_index (\<lambda>m. map_addr (shm_mappings s m) = ptr) MAX_MAPPINGS 0;
     if mapping_id = MAX_MAPPINGS then Some (False, mehcached_shm_unlock s)
     else do {
       let s = unmap_pages (map_num_pages (shm_mappings s mapping_id)) ptr s;
       let e = map_entry (shm_mappings s mapping_id);
       if \<not> e < MAX_ENTRIES then None
       else do {
         s \<leftarrow> mehcached_shm_check_remove e (s\<lparr>shm_entries := (shm_entries s)(e := (shm_entries s e)
           \<lparr>refcount := u64 (refcount (shm_entries s e) + (2 ^ 64 - 1))\<rparr>)\<rparr>);
         Some (True, mehcached_shm_unlock (s\<lparr>shm_mappings := (shm_mappings s)(mapping_id := zero_mapping)\<rparr>))
       }
     }
   }"

definition mehcached_shm_get_memuse :: "shm \<Rightarrow> nat" where
  "mehcached_shm_get_memuse s = used_memory s"

definition mehcached_shm_dump_page_info :: "shm \<Rightarrow> ((nat \<times> nat \<times> nat \<times> nat) list \<times> shm) option" where
  "mehcached_shm_dump_page_info s = do {
     s \<leftarrow> mehcached_shm_lock s;
     Some (map (\<lambda>i. (i, pg_addr (shm_pages s i), pg_numa (shm_pages s i), pg_in_use (shm_pages s i)))
             (filter (\<lambda>i. pg_addr (shm_pages s i) \<noteq> 0) [0..<MAX_PAGES]), mehcached_shm_unlock s)
   }"

subsection \<open>The mapped memory\<close>

definition page_of :: "shm \<Rightarrow> nat \<Rightarrow> nat" where
  "page_of s a = a - a mod page_size s"

definition mem_byte :: "shm \<Rightarrow> nat \<Rightarrow> 8 word option" where
  "mem_byte s a = map_option (\<lambda>f. files s f (a mod page_size s)) (space s (page_of s a))"

fun mem_load :: "shm \<Rightarrow> nat \<Rightarrow> nat \<Rightarrow> bytes option" where
  "mem_load s a 0 = Some []"
| "mem_load s a (Suc k) = do { b \<leftarrow> mem_byte s a; bs \<leftarrow> mem_load s (Suc a) k; Some (b # bs) }"

fun mem_store :: "shm \<Rightarrow> nat \<Rightarrow> bytes \<Rightarrow> shm option" where
  "mem_store s a [] = Some s"
| "mem_store s a (b # bs) = (case space s (page_of s a) of
     None \<Rightarrow> None
   | Some f \<Rightarrow> mem_store (s\<lparr>files := (files s)(f := (files s f)(a mod page_size s := b))\<rparr>) (Suc a) bs)"

subsection \<open>Allocation in pages\<close>

partial_function (option) contiguous_loop :: "os \<Rightarrow> nat \<Rightarrow> nat \<Rightarrow> shm \<Rightarrow> (nat \<times> shm) option" where
  "contiguous_loop os entry_id sz s =
     Option.bind (mehcached_shm_find_free_address os sz s) (\<lambda>(p, s).
       if p = 0 then Option.bind (mehcached_shm_schedule_remove entry_id s) (\<lambda>(_, s). Some (0, s))
       else Option.bind (mehcached_shm_map os entry_id p 0 sz s) (\<lambda>(ok, s).
         if ok then Option.bind (mehcached_shm_schedule_remove entry_id s) (\<lambda>(_, s). Some (p, s))
         else contiguous_loop os entry_id sz s))"

definition mehcached_shm_malloc_contiguous :: "os \<Rightarrow> nat \<Rightarrow> nat \<Rightarrow> shm \<Rightarrow> (nat \<times> shm) option" where
  "mehcached_shm_malloc_contiguous os size_arg lcore s = do {
     let sz = mehcached_shm_adjust_size size_arg;
     (entry_id, s) \<leftarrow> mehcached_shm_alloc os sz 0 s;
     if entry_id = 2 ^ 64 - 1 then Some (0, s) else contiguous_loop os entry_id sz s
   }"

definition mehcached_shm_malloc_contiguous_local :: "os \<Rightarrow> nat \<Rightarrow> shm \<Rightarrow> (nat \<times> shm) option" where
  "mehcached_shm_malloc_contiguous_local os size_arg s = mehcached_shm_malloc_contiguous os size_arg 0 s"

definition mehcached_shm_malloc_contiguous_any :: "os \<Rightarrow> nat \<Rightarrow> shm \<Rightarrow> (nat \<times> shm) option" where
  "mehcached_shm_malloc_contiguous_any os size_arg s = do {
     (p, s) \<leftarrow> mehcached_shm_malloc_contiguous os size_arg 0 s;
     if p = 0 then mehcached_shm_malloc_contiguous os size_arg 1 s else Some (p, s)
   }"

definition mehcached_shm_free_contiguous :: "nat \<Rightarrow> shm \<Rightarrow> shm option" where
  "mehcached_shm_free_contiguous ptr s = map_option snd (mehcached_shm_unmap ptr s)"

text \<open>Pages of two segments in turn; \<open>mapped\<close> counts the bytes mapped so far.\<close>

partial_function (option) map_stripes ::
  "os \<Rightarrow> nat \<Rightarrow> nat \<Rightarrow> nat \<Rightarrow> nat \<Rightarrow> nat \<Rightarrow> nat \<Rightarrow> nat \<Rightarrow> shm \<Rightarrow> (nat \<times> shm) option" where
  "map_stripes os e0 e1 sz mapped numa_node offset_in_stripe p s =
     (if mapped < sz then
        Option.bind (mehcached_shm_map os (if numa_node = 0 then e0 else e1) p offset_in_stripe (page_size s) s) (\<lambda>(ok, s).
          if \<not> ok then Some (mapped, s)
          else map_stripes os e0 e1 sz (u64 (mapped + page_size s)) (1 - numa_node)
            (if 1 - numa_node = 0 then u64 (offset_in_stripe + page_size s) else offset_in_stripe)
            (u64 (p + page_size s)) s)
      else Some (mapped, s))"

partial_function (option) unmap_stripes :: "nat \<Rightarrow> nat \<Rightarrow> nat \<Rightarrow> shm \<Rightarrow> shm option" where
  "unmap_stripes mapped clean p s =
     (if clean < mapped then
        Option.bind (mehcached_shm_unmap p s) (\<lambda>(_, s).
          unmap_stripes mapped (u64 (clean + page_size s)) (u64 (p + page_size s)) s)
      else Some s)"

partial_function (option) striped_loop :: "os \<Rightarrow> nat \<Rightarrow> nat \<Rightarrow> nat \<Rightarrow> shm \<Rightarrow> (nat \<times> shm) option" where
  "striped_loop os e0 e1 sz s =
     Option.bind (mehcached_shm_find_free_address os sz s) (\<lambda>(base, s).
       if base = 0 then
         Option.bind (mehcached_shm_schedule_remove e0 s) (\<lambda>(_, s).
         Option.bind (mehcached_shm_schedule_remove e1 s) (\<lambda>(_, s). Some (0, s)))
       else
         Option.bind (map_stripes os e0 e1 sz 0 0 0 base s) (\<lambda>(mapped, s).
         Option.bind (mehcached_shm_schedule_remove e0 s) (\<lambda>(_, s).
         Option.bind (mehcached_shm_schedule_remove e1 s) (\<lambda>(_, s).
           if mapped < sz then
             Option.bind (unmap_stripes mapped 0 base s) (\<lambda>s. striped_loop os e0 e1 sz s)
           else
             Option.bind (mem_store s base (le_bytes 8 sz)) (\<lambda>s. Some (u64 (base + 2 * page_size s), s))))))"

definition mehcached_shm_malloc_striped :: "os \<Rightarrow> nat \<Rightarrow> shm \<Rightarrow> (nat \<times> shm) option" where
  "mehcached_shm_malloc_striped os size_arg s = do {
     let sz = u64 (size_arg + 2 * page_size s);
     let size_2 = mehcached_shm_adjust_size (u64 (sz + 1) div 2);
     (e0, s) \<leftarrow> mehcached_shm_alloc os size_2 0 s;
     if e0 = 2 ^ 64 - 1 then Some (0, s)
     else do {
       (e1, s) \<leftarrow> mehcached_shm_alloc os size_2 (1 - 0) s;
       if e1 = 2 ^ 64 - 1 then do {
         (_, s) \<leftarrow> mehcached_shm_schedule_remove e0 s;
         Some (0, s)
       } else striped_loop os e0 e1 sz s
     }
   }"

definition mehcached_shm_free_striped :: "nat \<Rightarrow> shm \<Rightarrow> shm option" where
  "mehcached_shm_free_striped ptr s = do {
     let base = u64 (ptr + (2 ^ 64 - u64 (2 * page_size s)));
     sz \<leftarrow> mem_load s base 8;
     unmap_stripes (le_val sz) 0 base s
   }"

lemma mehcached_shm_path_inject: "mehcached_shm_path i = mehcached_shm_path j \<longleftrightarrow> i = j"
proof -
  have "digits 10 (num 10 k) = k" for k by (rule digits_num) simp_all
  then show ?thesis unfolding mehcached_shm_path_def same_append_eq by metis
qed

subsection \<open>Searching and masking\<close>

lemma first_index_bounds: "i \<le> n \<Longrightarrow> i \<le> first_index P n i \<and> first_index P n i \<le> n"
proof (induction P n i rule: first_index.induct)
  case (1 P n i)
  then show ?case by (subst (1 2) first_index.simps) (auto dest: Suc_leI)
qed

lemma first_index_found: "first_index P n i < n \<Longrightarrow> P (first_index P n i)"
proof (induction P n i rule: first_index.induct)
  case (1 P n i)
  then show ?case by (subst first_index.simps) (auto simp: first_index.simps [of P n i] split: if_splits)
qed

lemma first_index_before: "i \<le> j \<Longrightarrow> j < first_index P n i \<Longrightarrow> \<not> P j"
proof (induction P n i rule: first_index.induct)
  case (1 P n i)
  then show ?case by (cases "j = i") (auto simp: first_index.simps [of P n i] split: if_splits)
qed

lemma first_index_exists: "P j \<Longrightarrow> j < n \<Longrightarrow> first_index P n 0 \<le> j"
  using first_index_before [of 0 j P n] by (meson leI zero_le)

lemma first_index_eq: "P j \<Longrightarrow> j < n \<Longrightarrow> (\<And>i. i < j \<Longrightarrow> \<not> P i) \<Longrightarrow> first_index P n 0 = j"
  by (metis first_index_exists first_index_found le_less_trans linorder_neqE_nat not_le)

lemma and_high_bits:
  assumes "x < 2 ^ 64" "k \<le> 64"
  shows "(x :: nat) AND (2 ^ 64 - 2 ^ k) = x div 2 ^ k * 2 ^ k"
proof -
  have m: "(2 :: nat) ^ 64 - 2 ^ k = push_bit k (mask (64 - k))"
    using assms(2) by (simp add: push_bit_eq_mult mask_eq_exp_minus_1 diff_mult_distrib flip: power_add)
  have "x AND push_bit k (mask (64 - k)) = push_bit k (take_bit (64 - k) (drop_bit k x))"
    by (rule bit_eqI) (auto simp: bit_simps)
  also have "take_bit (64 - k) (drop_bit k x) = drop_bit k (take_bit 64 x)"
    using assms(2) by (simp add: drop_bit_take_bit)
  also have "take_bit 64 x = x" using assms(1) by (simp add: take_bit_nat_eq_self_iff)
  finally show ?thesis unfolding m by (simp add: push_bit_eq_mult drop_bit_eq_div mult.commute)
qed

lemma page_aligned:
  assumes "page_size s = 2 ^ k" "k < 64" "x < 2 ^ 64"
  shows "x AND page_mask s = x \<longleftrightarrow> page_size s dvd x"
proof -
  have "page_mask s = 2 ^ 64 - 2 ^ k" using assms(1) by (simp add: page_mask_def)
  then have "x AND page_mask s = x div 2 ^ k * 2 ^ k"
    by (simp only: and_high_bits [OF assms(3) less_imp_le [OF assms(2)]])
  then show ?thesis using assms(1) by (metis dvd_div_mult_self dvd_triv_right)
qed

lemma pages_for_eq:
  assumes "0 < page_size s" "len + page_size s \<le> 2 ^ 64"
  shows "pages_for s len = Some ((len + (page_size s - 1)) div page_size s)"
proof -
  have "len + (page_size s - 1) < 2 ^ 64" using assms by linarith
  then show ?thesis using assms(1) by (simp add: pages_for_def u64_def)
qed

lemma pages_for_dvd:
  assumes "0 < page_size s" "len + page_size s \<le> 2 ^ 64" "page_size s dvd len"
  shows "pages_for s len = Some (len div page_size s)"
proof -
  obtain n where n: "len = page_size s * n" using assms(3) by (elim dvdE)
  have "(page_size s * n + (page_size s - 1)) div page_size s = n"
    by (rule div_nat_eqI) (use assms(1) in simp_all)
  then show ?thesis using pages_for_eq [OF assms(1,2)] n assms(1) by simp
qed

subsection \<open>What a segment gets\<close>

definition available :: "shm \<Rightarrow> nat \<Rightarrow> nat \<Rightarrow> bool" where
  "available s numa_node i \<longleftrightarrow> pg_addr (shm_pages s i) \<noteq> 0 \<and> pg_in_use (shm_pages s i) = 0 \<and>
     pg_numa (shm_pages s i) = numa_node"

definition free_pages :: "shm \<Rightarrow> nat \<Rightarrow> nat list" where
  "free_pages s numa_node = filter (available s numa_node) [0..<MAX_PAGES]"

lemma take_pages_eq:
  "length got \<le> n \<Longrightarrow> take_pages s node n i got = got @ take (n - length got) (filter (available s node) [i..<MAX_PAGES])"
proof (induction s node n i got rule: take_pages.induct)
  case (1 s node n i got)
  show ?case
  proof (cases "i < MAX_PAGES \<and> length got \<noteq> n")
    case False
    then show ?thesis by (subst take_pages.simps) auto
  next
    case True
    then have u: "[i..<MAX_PAGES] = i # [Suc i..<MAX_PAGES]" by (simp add: upt_conv_Cons)
    have "length got < n" using True "1.prems" by linarith
    then have n: "n - length got = Suc (n - Suc (length got))" "length (got @ [i]) \<le> n" by simp_all
    have a: "available s node i \<longleftrightarrow> pg_addr (shm_pages s i) \<noteq> 0 \<and> \<not> (pg_in_use (shm_pages s i) \<noteq> 0 \<or> pg_numa (shm_pages s i) \<noteq> node)"
      by (auto simp: available_def)
    show ?thesis using True 1 n unfolding u by (subst take_pages.simps) (auto simp: a)
  qed
qed

lemma take_pages_free: "take_pages s node n 0 [] = take n (free_pages s node)"
  by (simp add: take_pages_eq free_pages_def)

lemma set_in_use_pages:
  "shm_pages (set_in_use ids v s) i =
     (if i \<in> set ids then (shm_pages s i)\<lparr>pg_in_use := v\<rparr> else shm_pages s i)"
proof -
  have "fold (\<lambda>i f. f(i := (f i)\<lparr>pg_in_use := v\<rparr>)) ids f i = (if i \<in> set ids then (f i)\<lparr>pg_in_use := v\<rparr> else f i)" for f
    by (induction ids arbitrary: f) auto
  from this [of "shm_pages s"] show ?thesis by (simp add: set_in_use_def)
qed

lemma set_in_use_frame [simp]:
  "page_size (set_in_use ids v s) = page_size s" "state_lock (set_in_use ids v s) = state_lock s"
  "shm_entries (set_in_use ids v s) = shm_entries s" "shm_mappings (set_in_use ids v s) = shm_mappings s"
  "used_memory (set_in_use ids v s) = used_memory s" "space (set_in_use ids v s) = space s"
  "files (set_in_use ids v s) = files s" "ticks (set_in_use ids v s) = ticks s"
  "left_mapped (set_in_use ids v s) = left_mapped s"
  by (simp_all add: set_in_use_def)

subsection \<open>What a mapping changes\<close>

lemma tick_frame [simp]:
  "page_size (tick s) = page_size s" "state_lock (tick s) = state_lock s" "shm_pages (tick s) = shm_pages s"
  "shm_entries (tick s) = shm_entries s" "shm_mappings (tick s) = shm_mappings s" "space (tick s) = space s"
  "used_memory (tick s) = used_memory s" "files (tick s) = files s" "left_mapped (tick s) = left_mapped s"
  by (simp_all add: tick_def)

lemma unmap_pages_frame [simp]:
  "page_size (unmap_pages k p s) = page_size s" "state_lock (unmap_pages k p s) = state_lock s"
  "shm_pages (unmap_pages k p s) = shm_pages s" "shm_entries (unmap_pages k p s) = shm_entries s"
  "shm_mappings (unmap_pages k p s) = shm_mappings s" "used_memory (unmap_pages k p s) = used_memory s"
  "files (unmap_pages k p s) = files s" "ticks (unmap_pages k p s) = ticks s"
  "left_mapped (unmap_pages k p s) = left_mapped s"
  by (induction k arbitrary: p s) (simp_all add: munmap_page_def)

definition in_range :: "shm \<Rightarrow> nat \<Rightarrow> nat \<Rightarrow> nat \<Rightarrow> bool" where
  "in_range s p n a \<longleftrightarrow> (\<exists>j<n. a = p + j * page_size s)"

lemma in_range_Suc:
  "in_range s p (Suc k) a \<longleftrightarrow> a = p \<or> in_range s (p + page_size s) k a"
  by (auto simp: in_range_def less_Suc_eq_0_disj algebra_simps)

lemma in_range_frame: "page_size s' = page_size s \<Longrightarrow> in_range s' = in_range s"
  by (simp add: in_range_def fun_eq_iff)

lemma unmap_pages_space:
  assumes "0 < page_size s" "p + k * page_size s \<le> 2 ^ 64"
  shows "space (unmap_pages k p s) = (\<lambda>a. if in_range s p k a then None else space s a)"
  using assms
proof (induction k arbitrary: p s)
  case 0
  then show ?case by (simp add: in_range_def)
next
  case (Suc k)
  let ?s = "munmap_page s p"
  have ps: "page_size ?s = page_size s" "space ?s = (space s)(p := None)" by (simp_all add: munmap_page_def)
  show ?case
  proof (cases k)
    case 0
    then show ?thesis using ps by (auto simp: in_range_def)
  next
    case (Suc k')
    then have "p + page_size s < 2 ^ 64" using Suc.prems by simp
    then have u: "u64 (p + page_size s) = p + page_size s" by (simp add: u64_def)
    show ?thesis using Suc.IH [of ?s "p + page_size s"] Suc.prems u
      by (auto simp: ps in_range_Suc in_range_frame [OF ps(1)] fun_eq_iff algebra_simps)
  qed
qed

definition calls_succeed :: "os \<Rightarrow> bool" where
  "calls_succeed os \<longleftrightarrow> (\<forall>t f. os_open os t f) \<and> (\<forall>t n. os_malloc os t n)"

lemma map_pages_frame:
  assumes "map_pages os ids i n p s = Some (err, k, s')" "i \<le> n"
  shows "i \<le> k" "k \<le> n" "page_size s' = page_size s" "state_lock s' = state_lock s" "shm_pages s' = shm_pages s"
    "shm_entries s' = shm_entries s" "shm_mappings s' = shm_mappings s" "used_memory s' = used_memory s"
    "files s' = files s" "left_mapped s' = left_mapped s" "\<not> err \<Longrightarrow> k = n"
proof -
  have "i \<le> k \<and> k \<le> n \<and> page_size s' = page_size s \<and> state_lock s' = state_lock s \<and> shm_pages s' = shm_pages s \<and>
    shm_entries s' = shm_entries s \<and> shm_mappings s' = shm_mappings s \<and> used_memory s' = used_memory s \<and>
    files s' = files s \<and> left_mapped s' = left_mapped s \<and> (\<not> err \<longrightarrow> k = n)"
    using assms
  proof (induction os ids i n p s rule: map_pages.induct)
    case (1 os ids i n p s)
    show ?case
    proof (cases "i < n")
      case False
      then have "map_pages os ids i n p s = Some (False, i, s)" by (subst map_pages.simps) simp
      then show ?thesis using "1.prems" False by auto
    next
      case True
      show ?thesis using "1.prems" "1.IH" True
        by (simp add: map_pages.simps [of os ids i n p s] tick_def Let_def Suc_le_eq split: if_splits) (auto simp: tick_def)
    qed
  qed
  then show "i \<le> k" "k \<le> n" "page_size s' = page_size s" "state_lock s' = state_lock s" "shm_pages s' = shm_pages s"
    "shm_entries s' = shm_entries s" "shm_mappings s' = shm_mappings s" "used_memory s' = used_memory s"
    "files s' = files s" "left_mapped s' = left_mapped s" "\<not> err \<Longrightarrow> k = n" by blast+
qed

text \<open>The pages of a mapping, in order; the last page of the address space is never reached.\<close>

definition file_at :: "shm \<Rightarrow> nat list \<Rightarrow> nat \<Rightarrow> string" where
  "file_at s ids j = pg_path (shm_pages s (ids ! j))"

lemma map_pages_space:
  assumes "map_pages os ids i n p s = Some (err, k, s')" "0 < page_size s" "i \<le> n" "p + (n - i) * page_size s \<le> 2 ^ 64"
  shows "space s' = (\<lambda>a. if in_range s p (k - i) a then Some (file_at s ids (i + (a - p) div page_size s)) else space s a)"
  using assms
proof (induction os ids i n p s rule: map_pages.induct)
  case (1 os ids i n p s)
  note st = map_pages.simps [of os ids i n p s]
  show ?case
  proof (cases "i < n \<and> os_mmap_fixed os (Suc (ticks s)) p")
    case False
    then show ?thesis using "1.prems"(1) by (auto simp: st in_range_def tick_def split: if_splits)
  next
    case True
    let ?s = "(tick (tick s))\<lparr>space := (space s)(p \<mapsto> pg_path (shm_pages s (ids ! i)))\<rparr>"
    have ps: "page_size ?s = page_size s" "shm_pages ?s = shm_pages s" by (simp_all add: tick_def)
    have go: "map_pages os ids (Suc i) n (u64 (p + page_size s)) ?s = Some (err, k, s')"
      and c: "\<not> (\<not> i < length ids \<or> \<not> ids ! i < MAX_PAGES)" "os_open os (ticks s) (pg_path (shm_pages s (ids ! i)))"
      using "1.prems"(1) True by (simp_all add: st split: if_splits)
    have ki: "Suc i \<le> k" using map_pages_frame(1) [OF go] True by simp
    then have ks: "k - i = Suc (k - Suc i)" by simp
    have "p + page_size s + (n - Suc i) * page_size s \<le> 2 ^ 64" using "1.prems"(4) True
      by (metis (no_types, lifting) Suc_diff_Suc add.assoc mult_Suc)
    show ?thesis
    proof (cases "Suc i = n")
      case True
      then have "k = n" "space s' = space ?s" using go ki by (simp_all add: map_pages.simps [of os ids n n])
      then show ?thesis using True "1.prems"(2) by (auto simp: in_range_def file_at_def fun_eq_iff)
    next
      case False
      then have "0 < (n - Suc i) * page_size s" using True "1.prems"(2) by simp
      then have "p + page_size s < 2 ^ 64"
        using \<open>p + page_size s + (n - Suc i) * page_size s \<le> 2 ^ 64\<close> by linarith
      then have u: "u64 (p + page_size s) = p + page_size s" by (simp add: u64_def)
      have IH: "space s' = (\<lambda>a. if in_range ?s (p + page_size s) (k - Suc i) a
          then Some (file_at ?s ids (Suc i + (a - (p + page_size s)) div page_size ?s)) else space ?s a)"
        using "1.IH" [OF _ _ _ _ go] c True \<open>p + page_size s + (n - Suc i) * page_size s \<le> 2 ^ 64\<close> "1.prems"(2)
        unfolding u by (simp add: ps)
      have f: "file_at ?s = file_at s" by (simp add: file_at_def ps fun_eq_iff)
      have d: "(a - p) div page_size s = Suc ((a - (p + page_size s)) div page_size s)"
        if "in_range s (p + page_size s) (k - Suc i) a" for a
        using that "1.prems"(2) by (auto simp: in_range_def)
      have np: "\<not> in_range s (p + page_size s) (k - Suc i) p" using "1.prems"(2) by (auto simp: in_range_def)
      show ?thesis unfolding IH f in_range_frame [OF ps(1)] ks in_range_Suc ps(1)
        using np by (auto simp: fun_eq_iff file_at_def d)
    qed
  qed
qed

lemma map_pages_total:
  assumes "calls_succeed os" "n \<le> length ids" "\<forall>j<n. ids ! j < MAX_PAGES" "i \<le> n"
  shows "\<exists>err k s'. map_pages os ids i n p s = Some (err, k, s') \<and> ((\<forall>t q. os_mmap_fixed os t q) \<longrightarrow> \<not> err)"
  using assms
proof (induction os ids i n p s rule: map_pages.induct)
  case (1 os ids i n p s)
  have "os_open os t f" for t f using "1.prems"(1) unfolding calls_succeed_def by blast
  then show ?case using 1 by (subst map_pages.simps) auto
qed

end
