(* ===== verification/Shm_Segments.thy ===== *)
theory Shm_Segments
  imports Mica_Shm
begin

section \<open>Segments, references and pages\<close>

text \<open>
  The invariant of the segments of \<^verbatim>\<open>shm.c\<close>: a page is in use exactly if one segment owns it, the reference count
  of a segment is the number of its mappings, a mapping stays within its segment, and a segment that is to go
  has a mapping left. \<open>seg_core\<close> is the part that holds in the middle of the operations too.
\<close>

subsection \<open>The invariant\<close>

definition owned :: "shm \<Rightarrow> nat \<Rightarrow> nat list" where
  "owned s e = entry_pages (shm_entries s e)"

definition refs :: "shm \<Rightarrow> nat \<Rightarrow> nat set" where
  "refs s e = {m. m < MAX_MAPPINGS \<and> map_addr (shm_mappings s m) \<noteq> 0 \<and> map_entry (shm_mappings s m) = e}"

definition entry_ok :: "shm \<Rightarrow> nat \<Rightarrow> bool" where
  "entry_ok s e \<longleftrightarrow> refcount (shm_entries s e) = card (refs s e) \<and>
     (seg_pages (shm_entries s e) = None \<longrightarrow> shm_entries s e = zero_entry) \<and>
     length (owned s e) = seg_num_pages (shm_entries s e) \<and> distinct (owned s e) \<and>
     (\<forall>i\<in>set (owned s e). i < MAX_PAGES \<and> pg_addr (shm_pages s i) \<noteq> 0) \<and>
     seg_length (shm_entries s e) \<le> seg_num_pages (shm_entries s e) * page_size s"

definition mapping_ok :: "shm \<Rightarrow> nat \<Rightarrow> bool" where
  "mapping_ok s m \<longleftrightarrow>
     (if map_addr (shm_mappings s m) = 0 then shm_mappings s m = zero_mapping
      else map_entry (shm_mappings s m) < MAX_ENTRIES \<and> seg_pages (shm_entries s (map_entry (shm_mappings s m))) \<noteq> None \<and>
        map_page_offset (shm_mappings s m) + map_num_pages (shm_mappings s m) \<le>
          seg_num_pages (shm_entries s (map_entry (shm_mappings s m))))"

definition owner_exists :: "shm \<Rightarrow> nat \<Rightarrow> bool" where
  "owner_exists s i \<longleftrightarrow> (\<exists>e<MAX_ENTRIES. i \<in> set (owned s e))"

definition seg_core :: "shm \<Rightarrow> bool" where
  "seg_core s \<longleftrightarrow> (\<exists>k<48. page_size s = 2 ^ k) \<and> (\<forall>e<MAX_ENTRIES. entry_ok s e) \<and>
     (\<forall>e<MAX_ENTRIES. \<forall>e'<MAX_ENTRIES. e \<noteq> e' \<longrightarrow> set (owned s e) \<inter> set (owned s e') = {}) \<and>
     (\<forall>i<MAX_PAGES. pg_in_use (shm_pages s i) = (if owner_exists s i then 1 else 0)) \<and>
     (\<forall>m<MAX_MAPPINGS. mapping_ok s m)"

definition no_dead :: "shm \<Rightarrow> nat \<Rightarrow> bool" where
  "no_dead s e \<longleftrightarrow> to_remove (shm_entries s e) \<noteq> 0 \<longrightarrow> refcount (shm_entries s e) \<noteq> 0"

definition shm_ok :: "shm \<Rightarrow> bool" where
  "shm_ok s \<longleftrightarrow> state_lock s = 0 \<and> seg_core s \<and> (\<forall>e<MAX_ENTRIES. no_dead s e)"

lemma seg_core_cong:
  assumes "page_size s' = page_size s" "shm_pages s' = shm_pages s" "shm_entries s' = shm_entries s"
    "shm_mappings s' = shm_mappings s"
  shows "seg_core s' = seg_core s" "no_dead s' = no_dead s" "owned s' = owned s" "refs s' = refs s"
proof -
  show o: "owned s' = owned s" "refs s' = refs s" using assms by (simp_all add: owned_def refs_def fun_eq_iff)
  show "seg_core s' = seg_core s" "no_dead s' = no_dead s"
    using assms o by (simp_all add: seg_core_def entry_ok_def mapping_ok_def owner_exists_def no_dead_def fun_eq_iff)
qed

lemma seg_coreD:
  assumes "seg_core s"
  shows "0 < page_size s" "page_size s < 2 ^ 48" "e < MAX_ENTRIES \<Longrightarrow> entry_ok s e" "m < MAX_MAPPINGS \<Longrightarrow> mapping_ok s m"
    "e < MAX_ENTRIES \<Longrightarrow> e' < MAX_ENTRIES \<Longrightarrow> e \<noteq> e' \<Longrightarrow> set (owned s e) \<inter> set (owned s e') = {}"
    "i < MAX_PAGES \<Longrightarrow> pg_in_use (shm_pages s i) = (if owner_exists s i then 1 else 0)"
proof -
  obtain k where k: "k < 48" "page_size s = 2 ^ k" using assms unfolding seg_core_def by blast
  show "0 < page_size s" "page_size s < 2 ^ 48" using k by (simp_all only: zero_less_power power_strict_increasing_iff)
qed (use assms in \<open>auto simp: seg_core_def\<close>)

lemma finite_refs [simp]: "finite (refs s e)"
  by (rule finite_subset [of _ "{..<MAX_MAPPINGS}"]) (auto simp: refs_def)

lemma card_refs: "card (refs s e) \<le> MAX_MAPPINGS"
  using card_mono [of "{..<MAX_MAPPINGS}" "refs s e"] by (auto simp: refs_def)

lemma free_entry:
  assumes "seg_core s" "e < MAX_ENTRIES" "seg_pages (shm_entries s e) = None"
  shows "shm_entries s e = zero_entry" "refs s e = {}" "owned s e = []"
proof -
  show z: "shm_entries s e = zero_entry" using seg_coreD(3) [OF assms(1,2)] assms(3) by (simp add: entry_ok_def)
  show "refs s e = {}" using seg_coreD(3) [OF assms(1,2)] z by (simp add: entry_ok_def zero_entry_def)
  show "owned s e = []" using z by (simp add: owned_def entry_pages_def zero_entry_def)
qed

subsection \<open>Allocation\<close>

lemma free_pages_facts:
  "distinct (free_pages s node)" "i \<in> set (free_pages s node) \<longleftrightarrow> i < MAX_PAGES \<and> available s node i"
  by (auto simp: free_pages_def)

lemma free_pages_cong: "shm_pages s' = shm_pages s \<Longrightarrow> free_pages s' = free_pages s"
proof
  fix node
  assume "shm_pages s' = shm_pages s"
  then have "available s' node = available s node" by (intro ext) (simp add: available_def)
  then show "free_pages s' node = free_pages s node" by (simp add: free_pages_def)
qed

lemma new_segment_core:
  assumes c: "seg_core s" and e: "e < MAX_ENTRIES" "seg_pages (shm_entries s e) = None"
    and ids: "distinct ids" "\<And>i. i \<in> set ids \<Longrightarrow> i < MAX_PAGES \<and> pg_addr (shm_pages s i) \<noteq> 0 \<and> pg_in_use (shm_pages s i) = 0"
    and len: "len \<le> length ids * page_size s"
  shows "seg_core (set_in_use ids 1 (s\<lparr>shm_entries := (shm_entries s)(e := (shm_entries s e)
    \<lparr>seg_length := len, seg_num_pages := length ids, seg_pages := Some ids\<rparr>)\<rparr>))" (is "seg_core ?s")
proof -
  note z = free_entry [OF c e]
  have o: "owned ?s x = (if x = e then ids else owned s x)" for x by (simp add: owned_def entry_pages_def)
  have r: "refs ?s x = refs s x" for x by (simp add: refs_def)
  have fresh: "\<not> owner_exists s i" if "i \<in> set ids" for i
    using ids(2) [OF that] seg_coreD(6) [OF c, of i] by (auto split: if_splits)
  have d: "set ids \<inter> set (owned s x) = {}" if "x < MAX_ENTRIES" for x
    using fresh that unfolding owner_exists_def by blast
  have "entry_ok ?s x" if x: "x < MAX_ENTRIES" for x
  proof (cases "x = e")
    case True
    then show ?thesis using ids len z
      unfolding entry_ok_def o r by (simp add: zero_entry_def set_in_use_pages)
  next
    case False
    then show ?thesis using seg_coreD(3) [OF c x]
      unfolding entry_ok_def o r by (simp add: set_in_use_pages)
  qed
  moreover have "set (owned ?s x) \<inter> set (owned ?s y) = {}" if "x < MAX_ENTRIES" "y < MAX_ENTRIES" "x \<noteq> y" for x y
    using d [OF that(1)] d [OF that(2)] seg_coreD(5) [OF c that] that(3) unfolding o by auto
  moreover have "owner_exists ?s i \<longleftrightarrow> i \<in> set ids \<or> owner_exists s i" for i
    unfolding owner_exists_def o using e(1) z(3) by (metis empty_iff empty_set)
  then have "pg_in_use (shm_pages ?s i) = (if owner_exists ?s i then 1 else 0)" if "i < MAX_PAGES" for i
    using seg_coreD(6) [OF c that] by (simp add: set_in_use_pages)
  moreover have "mapping_ok ?s m" if "m < MAX_MAPPINGS" for m
    using seg_coreD(4) [OF c that] e(2) by (auto simp: mapping_ok_def)
  moreover have "\<exists>k<48. page_size ?s = 2 ^ k" using c by (simp add: seg_core_def)
  ultimately show ?thesis unfolding seg_core_def by blast
qed

lemma alloc_result:
  fixes numa :: nat
  assumes ok: "shm_ok s" and os: "calls_succeed os" and len: "len \<le> 2 ^ 60"
  defines "node \<equiv> (if numa = 2 ^ 64 - 1 then 0 else numa)"
  defines "e \<equiv> first_index (\<lambda>e. seg_pages (shm_entries s e) = None) MAX_ENTRIES 0"
  defines "n \<equiv> (len + (page_size s - 1)) div page_size s"
  shows "mehcached_shm_alloc os len numa s = Some
    (if e = MAX_ENTRIES then (2 ^ 64 - 1, s)
     else if length (free_pages s node) < n then (2 ^ 64 - 1, tick s)
     else (e, set_in_use (take n (free_pages s node)) 1
       ((tick s)\<lparr>shm_entries := (shm_entries s)(e := zero_entry
         \<lparr>seg_length := len, seg_num_pages := n, seg_pages := Some (take n (free_pages s node))\<rparr>)\<rparr>)))"
proof -
  have lock: "state_lock s = 0" and c: "seg_core s" using ok by (simp_all add: shm_ok_def)
  have c1: "seg_core (s\<lparr>state_lock := 1\<rparr>)" using c by (subst seg_core_cong(1) [of _ s]) simp_all
  note ps = seg_coreD(1,2) [OF c]
  have pf: "pages_for (s\<lparr>state_lock := 1\<rparr>) len = Some n"
    unfolding n_def by (subst pages_for_eq) (use ps len in simp_all)
  have tk: "take_pages (tick (s\<lparr>state_lock := 1\<rparr>)) node n 0 [] = take n (free_pages s node)"
    unfolding take_pages_free by (subst free_pages_cong [of _ s]) simp_all
  have "e \<le> MAX_ENTRIES" unfolding e_def using first_index_bounds [of 0 MAX_ENTRIES] by simp
  have z: "shm_entries s e = zero_entry" if "e \<noteq> MAX_ENTRIES"
  proof -
    have "e < MAX_ENTRIES" using that \<open>e \<le> MAX_ENTRIES\<close> by simp
    moreover have "seg_pages (shm_entries s e) = None"
      using \<open>e < MAX_ENTRIES\<close> first_index_found [of "\<lambda>e. seg_pages (shm_entries s e) = None" MAX_ENTRIES 0] unfolding e_def by simp
    ultimately show ?thesis by (rule free_entry(1) [OF c])
  qed
  have "page_size s * len = len + (page_size s - 1) * len" using ps(1) by (cases "page_size s") simp_all
  then have "len + (page_size s - 1) < page_size s * Suc len" using ps(1) by (cases len) (auto simp: algebra_simps)
  then have "n < Suc len" unfolding n_def using ps(1) by (simp add: div_less_iff_less_mult mult.commute)
  then have "u64 (8 * n) = 8 * n" using len by (simp add: u64_def)
  then have cap: "\<not> u64 (8 * n) < 8 * length (take n (free_pages s node))" by simp
  have m: "os_malloc os t b" for t b using os unfolding calls_succeed_def by blast
  have restored: "set_in_use ids v ((tick (s\<lparr>state_lock := 1\<rparr>))\<lparr>shm_entries := E\<rparr>)\<lparr>state_lock := 0\<rparr> =
      set_in_use ids v ((tick s)\<lparr>shm_entries := E\<rparr>)"
    "(tick (s\<lparr>state_lock := 1\<rparr>))\<lparr>shm_entries := E, state_lock := 0\<rparr> = (tick s)\<lparr>shm_entries := E\<rparr>"
    "s\<lparr>state_lock := 0\<rparr> = s" "(tick s)\<lparr>shm_entries := shm_entries s\<rparr> = tick s" for ids v E
    using lock by (simp_all add: set_in_use_def tick_def)
  have same: "e \<noteq> MAX_ENTRIES \<Longrightarrow> (shm_entries s)(e := zero_entry) = shm_entries s" using z by (metis fun_upd_triv)
  note facts = pf tk restored
  show ?thesis
    using cap lock z unfolding mehcached_shm_alloc_def mehcached_shm_lock_def node_def [symmetric]
    by (auto simp: Let_def facts [unfolded One_nat_def] e_def [symmetric] m same mehcached_shm_unlock_def)
qed

lemma ceil_bound: "0 < (p :: nat) \<Longrightarrow> len \<le> (len + (p - 1)) div p * p"
  using div_mult_mod_eq [of "len + (p - 1)" p] mod_less_divisor [of p "len + (p - 1)"] by linarith

lemma alloc_ok:
  assumes ok: "shm_ok s" and os: "calls_succeed os" and len: "len \<le> 2 ^ 60"
    and al: "mehcached_shm_alloc os len numa s = Some (r, s')"
  shows "shm_ok s'" "shm_mappings s' = shm_mappings s" "seg_pages (shm_entries s x) \<noteq> None \<Longrightarrow> shm_entries s' x = shm_entries s x"
proof -
  define node where "node = (if numa = 2 ^ 64 - 1 then 0 else numa)"
  define e where "e = first_index (\<lambda>e. seg_pages (shm_entries s e) = None) MAX_ENTRIES 0"
  define n where "n = (len + (page_size s - 1)) div page_size s"
  define ids where "ids = take n (free_pages s node)"
  have c: "seg_core s" using ok by (simp add: shm_ok_def)
  note res = alloc_result [OF ok os len, of numa, folded node_def e_def n_def, folded ids_def, unfolded al]
  have t: "shm_ok (tick s)"
    using ok seg_core_cong(1,2) [of "tick s" s] by (simp add: shm_ok_def)
  have "e \<le> MAX_ENTRIES" unfolding e_def using first_index_bounds [of 0 MAX_ENTRIES] by simp
  then consider (full) "e = MAX_ENTRIES" | (few) "e < MAX_ENTRIES" "length (free_pages s node) < n"
    | (got) "e < MAX_ENTRIES" "n \<le> length (free_pages s node)" by linarith
  then have "shm_ok s' \<and> shm_mappings s' = shm_mappings s \<and>
    (\<forall>x. seg_pages (shm_entries s x) \<noteq> None \<longrightarrow> shm_entries s' x = shm_entries s x)"
  proof cases
    case full
    then show ?thesis using res ok by simp
  next
    case few
    then show ?thesis using res t by simp
  next
    case got
    have z: "seg_pages (shm_entries s e) = None" "shm_entries s e = zero_entry"
      using first_index_found [of "\<lambda>e. seg_pages (shm_entries s e) = None" MAX_ENTRIES 0] free_entry(1) [OF c got(1)] got(1)
      unfolding e_def by simp_all
    have li: "length ids = n" using got(2) by (simp add: ids_def)
    define s1 where "s1 = (tick s)\<lparr>shm_entries := (shm_entries s)(e := zero_entry
      \<lparr>seg_length := len, seg_num_pages := n, seg_pages := Some ids\<rparr>)\<rparr>"
    have s': "s' = set_in_use ids 1 s1" "r = e" using res got unfolding s1_def by simp_all
    have "seg_core (set_in_use ids 1 ((tick s)\<lparr>shm_entries := (shm_entries (tick s))(e := (shm_entries (tick s) e)
        \<lparr>seg_length := len, seg_num_pages := length ids, seg_pages := Some ids\<rparr>)\<rparr>))"
    proof (rule new_segment_core)
      show "seg_core (tick s)" using t by (simp add: shm_ok_def)
      show "distinct ids" by (simp add: ids_def free_pages_facts(1))
      show "len \<le> length ids * page_size (tick s)"
        unfolding li n_def using ceil_bound [OF seg_coreD(1) [OF c]] by simp
      show "i < MAX_PAGES \<and> pg_addr (shm_pages (tick s) i) \<noteq> 0 \<and> pg_in_use (shm_pages (tick s) i) = 0" if "i \<in> set ids" for i
        using that in_set_takeD [of i n "free_pages s node"] by (simp add: ids_def free_pages_facts(2) available_def)
    qed (use got z in simp_all)
    then have "seg_core s'" unfolding s' s1_def by (simp add: z li)
    moreover have "no_dead s' x" if "x < MAX_ENTRIES" for x
      using ok that by (simp add: shm_ok_def no_dead_def s' s1_def zero_entry_def)
    ultimately show ?thesis using ok z by (auto simp: shm_ok_def s' s1_def)
  qed
  then show "shm_ok s'" "shm_mappings s' = shm_mappings s" "seg_pages (shm_entries s x) \<noteq> None \<Longrightarrow> shm_entries s' x = shm_entries s x"
    by blast+
qed

subsection \<open>Removal\<close>

lemma check_remove_eq:
  assumes e: "e < MAX_ENTRIES" and ok: "length (owned s e) = seg_num_pages (shm_entries s e)" "\<forall>i\<in>set (owned s e). i < MAX_PAGES"
  shows "mehcached_shm_check_remove e s = Some
    (if no_dead s e then s
     else (set_in_use (owned s e) 0 s)\<lparr>shm_entries := (shm_entries s)(e := zero_entry), used_memory := u64 (used_memory s)\<rparr>)"
proof -
  have "list_all (\<lambda>i. i < MAX_PAGES) (owned s e)" using ok(2) by (auto simp: list_all_iff)
  moreover have "u64 (x + 2 ^ 64) = u64 x" for x by (simp add: u64_def)
  ultimately show ?thesis using e ok(1)
    by (simp add: mehcached_shm_check_remove_def no_dead_def Let_def zero_entry_def set_in_use_def owned_def [symmetric] u64_def)
qed

lemma check_remove_core:
  assumes c: "seg_core s" and e: "e < MAX_ENTRIES"
  shows "mehcached_shm_check_remove e s = Some
    (if no_dead s e then s
     else (set_in_use (owned s e) 0 s)\<lparr>shm_entries := (shm_entries s)(e := zero_entry), used_memory := u64 (used_memory s)\<rparr>)"
  using seg_coreD(3) [OF c e] by (intro check_remove_eq [OF e]) (auto simp: entry_ok_def)

lemma remove_core:
  assumes c: "seg_core s" and e: "e < MAX_ENTRIES" "refs s e = {}"
  shows "seg_core ((set_in_use (owned s e) 0 s)\<lparr>shm_entries := (shm_entries s)(e := zero_entry), used_memory := u\<rparr>)"
    (is "seg_core ?s")
proof -
  have o: "owned ?s x = (if x = e then [] else owned s x)" for x by (simp add: owned_def entry_pages_def zero_entry_def)
  have r: "refs ?s x = refs s x" for x by (simp add: refs_def)
  have "entry_ok ?s x" if x: "x < MAX_ENTRIES" for x
  proof (cases "x = e")
    case True
    then show ?thesis using e(2) unfolding entry_ok_def o r by (simp add: zero_entry_def)
  next
    case False
    then show ?thesis using seg_coreD(3) [OF c x] unfolding entry_ok_def o r by (simp add: set_in_use_pages)
  qed
  moreover have "set (owned ?s x) \<inter> set (owned ?s y) = {}" if "x < MAX_ENTRIES" "y < MAX_ENTRIES" "x \<noteq> y" for x y
    using seg_coreD(5) [OF c that] unfolding o by auto
  moreover have "pg_in_use (shm_pages ?s i) = (if owner_exists ?s i then 1 else 0)" if "i < MAX_PAGES" for i
  proof (cases "i \<in> set (owned s e)")
    case True
    then have "\<not> owner_exists ?s i" using seg_coreD(5) [OF c e(1)] unfolding owner_exists_def o by auto
    then show ?thesis using True by (simp add: set_in_use_pages)
  next
    case False
    then have "owner_exists ?s i \<longleftrightarrow> owner_exists s i" unfolding owner_exists_def o by (metis empty_iff empty_set)
    then show ?thesis using False seg_coreD(6) [OF c that] by (simp add: set_in_use_pages)
  qed
  moreover have "mapping_ok ?s m" if "m < MAX_MAPPINGS" for m
    using seg_coreD(4) [OF c that] e(2) that unfolding mapping_ok_def by (auto simp: refs_def)
  moreover have "\<exists>k<48. page_size ?s = 2 ^ k" using c by (simp add: seg_core_def)
  ultimately show ?thesis unfolding seg_core_def by blast
qed

text \<open>The check gives up a dead segment and repairs the invariant; other segments stay as they are.\<close>

lemma check_remove_ok:
  assumes c: "seg_core s" and e: "e < MAX_ENTRIES" and nd: "\<And>x. x < MAX_ENTRIES \<Longrightarrow> x \<noteq> e \<Longrightarrow> no_dead s x"
  obtains s' where "mehcached_shm_check_remove e s = Some s'" "seg_core s'" "\<And>x. x < MAX_ENTRIES \<Longrightarrow> no_dead s' x"
    "shm_mappings s' = shm_mappings s" "state_lock s' = state_lock s" "space s' = space s"
    "\<And>x. x \<noteq> e \<or> refs s e \<noteq> {} \<Longrightarrow> shm_entries s' x = shm_entries s x"
proof (cases "no_dead s e")
  case True
  then show ?thesis using that [of s] check_remove_core [OF c e] c nd by auto
next
  case False
  then have "refcount (shm_entries s e) = 0" by (simp add: no_dead_def)
  then have r: "refs s e = {}" using seg_coreD(3) [OF c e] by (simp add: entry_ok_def)
  show ?thesis using that [OF check_remove_core [OF c e, simplified False if_False] remove_core [OF c e r]] nd r
    by (auto simp: no_dead_def zero_entry_def)
qed

lemma schedule_remove_ok:
  assumes ok: "shm_ok s" and e: "e < MAX_ENTRIES"
  obtains r s' where "mehcached_shm_schedule_remove e s = Some (r, s')" "shm_ok s'" "shm_mappings s' = shm_mappings s"
    "r \<longleftrightarrow> seg_pages (shm_entries s e) \<noteq> None" "\<And>x. refs s x \<noteq> {} \<Longrightarrow> owned s' x = owned s x"
proof -
  let ?l = "s\<lparr>state_lock := 1\<rparr>"
  let ?t = "?l\<lparr>shm_entries := (shm_entries s)(e := (shm_entries s e)\<lparr>to_remove := 1\<rparr>)\<rparr>"
  have c: "seg_core s" and lock: "state_lock s = 0" using ok by (simp_all add: shm_ok_def)
  show thesis
  proof (cases "seg_pages (shm_entries s e) = None")
    case True
    then have "mehcached_shm_schedule_remove e s = Some (False, s)"
      using lock e by (simp add: mehcached_shm_schedule_remove_def mehcached_shm_lock_def mehcached_shm_unlock_def)
    then show ?thesis using that [of False s] ok True by simp
  next
    case False
    have o: "owned ?t = owned s" "refs ?t = refs s" by (auto simp: owned_def refs_def entry_pages_def fun_eq_iff)
    have "seg_core ?t" using c False unfolding seg_core_def owner_exists_def o entry_ok_def mapping_ok_def
      by (auto simp: zero_entry_def)
    moreover have "no_dead ?t x" if "x < MAX_ENTRIES" "x \<noteq> e" for x using ok that by (simp add: shm_ok_def no_dead_def)
    ultimately obtain s' where s': "mehcached_shm_check_remove e ?t = Some s'" "seg_core s'" "\<And>x. x < MAX_ENTRIES \<Longrightarrow> no_dead s' x"
      "shm_mappings s' = shm_mappings ?t" "\<And>x. x \<noteq> e \<or> refs ?t e \<noteq> {} \<Longrightarrow> shm_entries s' x = shm_entries ?t x"
      by (rule check_remove_ok [OF _ e]) blast+
    have "mehcached_shm_schedule_remove e s = Some (True, s'\<lparr>state_lock := 0\<rparr>)"
      using lock e False s'(1) by (simp add: mehcached_shm_schedule_remove_def mehcached_shm_lock_def mehcached_shm_unlock_def)
    moreover have "shm_ok (s'\<lparr>state_lock := 0\<rparr>)"
      using s'(2,3) seg_core_cong(1,2) [of "s'\<lparr>state_lock := 0\<rparr>" s'] by (simp add: shm_ok_def)
    moreover have "owned (s'\<lparr>state_lock := 0\<rparr>) x = owned s x" if "refs s x \<noteq> {}" for x
      using s'(5) [of x] that unfolding o by (cases "x = e") (simp_all add: owned_def entry_pages_def)
    ultimately show ?thesis using that [of True "s'\<lparr>state_lock := 0\<rparr>"] s'(4) False by simp
  qed
qed

subsection \<open>Mapping and unmapping\<close>

lemma add_mapping_core:
  assumes c: "seg_core s" and e: "e < MAX_ENTRIES" "seg_pages (shm_entries s e) \<noteq> None"
    and m: "m < MAX_MAPPINGS" "map_addr (shm_mappings s m) = 0" and p: "p \<noteq> 0" and b: "k + n \<le> seg_num_pages (shm_entries s e)"
  shows "seg_core (s\<lparr>shm_entries := (shm_entries s)(e := (shm_entries s e)\<lparr>refcount := u64 (refcount (shm_entries s e) + 1)\<rparr>),
    shm_mappings := (shm_mappings s)(m := \<lparr>map_entry = e, map_addr = p, map_length = l, map_page_offset = k, map_num_pages = n\<rparr>)\<rparr>)"
    (is "seg_core ?s")
proof -
  have o: "owned ?s = owned s" by (simp add: owned_def entry_pages_def fun_eq_iff)
  have r: "refs ?s x = (if x = e then insert m (refs s x) else refs s x)" for x using m p by (auto simp: refs_def)
  have "refcount (shm_entries s e) = card (refs s e)" using seg_coreD(3) [OF c e(1)] by (simp add: entry_ok_def)
  moreover have "m \<notin> refs s e" using m by (simp add: refs_def)
  ultimately have n: "u64 (refcount (shm_entries s e) + 1) = card (insert m (refs s e))"
    using card_refs [of s e] by (simp add: u64_def MAX_MAPPINGS_def)
  have "entry_ok ?s x" if x: "x < MAX_ENTRIES" for x
    using seg_coreD(3) [OF c x] e n unfolding entry_ok_def o r by (cases "x = e") (auto simp del: One_nat_def)
  moreover have "mapping_ok ?s j" if "j < MAX_MAPPINGS" for j
    using seg_coreD(4) [OF c that] e b p by (auto simp: mapping_ok_def split: if_splits)
  ultimately show ?thesis using c unfolding seg_core_def o owner_exists_def by simp
qed

lemma drop_mapping_core:
  assumes c: "seg_core s" and m: "m < MAX_MAPPINGS" "map_addr (shm_mappings s m) \<noteq> 0" "map_entry (shm_mappings s m) = e"
  shows "seg_core (s\<lparr>shm_entries := (shm_entries s)(e := (shm_entries s e)\<lparr>refcount := u64 (refcount (shm_entries s e) + (2 ^ 64 - 1))\<rparr>),
    shm_mappings := (shm_mappings s)(m := zero_mapping)\<rparr>)" (is "seg_core ?s")
    and "e < MAX_ENTRIES"
proof -
  have e: "e < MAX_ENTRIES" "seg_pages (shm_entries s e) \<noteq> None" using seg_coreD(4) [OF c m(1)] m by (auto simp: mapping_ok_def)
  then show "e < MAX_ENTRIES" by simp
  have o: "owned ?s = owned s" by (simp add: owned_def entry_pages_def fun_eq_iff)
  have r: "refs ?s x = (if x = e then refs s x - {m} else refs s x)" for x using m by (auto simp: refs_def zero_mapping_def)
  have "refcount (shm_entries s e) = card (refs s e)" using seg_coreD(3) [OF c e(1)] by (simp add: entry_ok_def)
  moreover have "m \<in> refs s e" using m by (simp add: refs_def)
  ultimately obtain d where d: "refcount (shm_entries s e) = Suc d" "card (refs s e - {m}) = d"
    by (metis card_Suc_Diff1 finite_refs)
  moreover have "Suc d \<le> 16384" using card_refs [of s e] d \<open>refcount _ = card _\<close> by (simp add: MAX_MAPPINGS_def)
  then have "u64 (Suc d + (2 ^ 64 - 1)) = d" by (simp add: u64_def)
  ultimately have n: "u64 (refcount (shm_entries s e) + (2 ^ 64 - 1)) = card (refs s e - {m})" by simp
  have "entry_ok ?s x" if x: "x < MAX_ENTRIES" for x
    using seg_coreD(3) [OF c x] e(2) n unfolding entry_ok_def o r by (cases "x = e") (auto simp del: One_nat_def)
  moreover have "mapping_ok ?s j" if "j < MAX_MAPPINGS" for j
    using seg_coreD(4) [OF c that] e(2) by (auto simp: mapping_ok_def zero_mapping_def)
  ultimately show "seg_core ?s" using c unfolding seg_core_def o owner_exists_def by simp
qed

lemma check_remove_mappings:
  "mehcached_shm_check_remove e (s\<lparr>shm_mappings := x\<rparr>) = map_option (\<lambda>s. s\<lparr>shm_mappings := x\<rparr>) (mehcached_shm_check_remove e s)"
  by (simp add: mehcached_shm_check_remove_def Let_def set_in_use_def)

lemma unmap_ok:
  assumes ok: "shm_ok s" and p: "p \<noteq> 0"
  obtains r s' where "mehcached_shm_unmap p s = Some (r, s')" "shm_ok s'"
    "\<And>m. m < MAX_MAPPINGS \<Longrightarrow> map_addr (shm_mappings s m) \<noteq> 0 \<Longrightarrow> map_addr (shm_mappings s m) \<noteq> p \<Longrightarrow>
      shm_mappings s' m = shm_mappings s m \<and> owned s' (map_entry (shm_mappings s m)) = owned s (map_entry (shm_mappings s m))"
    "r \<longleftrightarrow> (\<exists>m<MAX_MAPPINGS. map_addr (shm_mappings s m) = p)"
proof -
  have c: "seg_core s" and lock: "state_lock s = 0" using ok by (simp_all add: shm_ok_def)
  define m where "m = first_index (\<lambda>m. map_addr (shm_mappings s m) = p) MAX_MAPPINGS 0"
  have mb: "m \<le> MAX_MAPPINGS" unfolding m_def using first_index_bounds [of 0 MAX_MAPPINGS] by simp
  have m': "first_index (\<lambda>m. map_addr (shm_mappings (s\<lparr>state_lock := 1\<rparr>) m) = p) MAX_MAPPINGS 0 = m" by (simp add: m_def)
  show thesis
  proof (cases "m = MAX_MAPPINGS")
    case True
    then have "map_addr (shm_mappings s j) \<noteq> p" if "j < MAX_MAPPINGS" for j
      using first_index_before [of 0 j "\<lambda>m. map_addr (shm_mappings s m) = p" MAX_MAPPINGS] that by (simp add: m_def)
    moreover have "mehcached_shm_unmap p s = Some (False, s)"
      using lock True m' by (simp add: mehcached_shm_unmap_def mehcached_shm_lock_def mehcached_shm_unlock_def)
    ultimately show ?thesis using that [of False s] ok by simp
  next
    case False
    then have m: "m < MAX_MAPPINGS" "map_addr (shm_mappings s m) = p"
      using mb first_index_found [of "\<lambda>m. map_addr (shm_mappings s m) = p" MAX_MAPPINGS 0] unfolding m_def by simp_all
    define e where "e = map_entry (shm_mappings s m)"
    define u where "u = unmap_pages (map_num_pages (shm_mappings s m)) p (s\<lparr>state_lock := 1\<rparr>)"
    define d where "d = u\<lparr>shm_entries := (shm_entries u)(e := (shm_entries u e)\<lparr>refcount := u64 (refcount (shm_entries u e) + (2 ^ 64 - 1))\<rparr>)\<rparr>"
    have uf: "shm_entries u = shm_entries s" "shm_mappings u = shm_mappings s" "seg_core u" "owned u = owned s" "refs u = refs s"
      using c seg_core_cong [of u s] by (simp_all add: u_def)
    note dc = drop_mapping_core [OF uf(3) m(1), unfolded uf, OF _ e_def [symmetric], unfolded m(2), OF p]
    let ?d = "d\<lparr>shm_mappings := (shm_mappings s)(m := zero_mapping)\<rparr>"
    have dd: "seg_core ?d" using dc(1) by (simp add: d_def uf)
    have od: "owned ?d = owned s" by (simp add: d_def owned_def entry_pages_def uf fun_eq_iff)
    have nd: "no_dead ?d x" if "x < MAX_ENTRIES" "x \<noteq> e" for x using ok that by (simp add: shm_ok_def no_dead_def d_def uf)
    obtain t where t: "mehcached_shm_check_remove e ?d = Some t" "seg_core t" "\<And>x. x < MAX_ENTRIES \<Longrightarrow> no_dead t x"
      "shm_mappings t = shm_mappings ?d" "\<And>x. x \<noteq> e \<or> refs ?d e \<noteq> {} \<Longrightarrow> shm_entries t x = shm_entries ?d x"
      by (rule check_remove_ok [OF dd dc(2) nd]) blast+
    have "d\<lparr>shm_mappings := shm_mappings s\<rparr> = d" by (simp add: d_def uf flip: uf(2))
    then have k: "mehcached_shm_check_remove e d = map_option (\<lambda>s'. s'\<lparr>shm_mappings := shm_mappings s\<rparr>) (mehcached_shm_check_remove e d)"
      using check_remove_mappings [of e "shm_mappings s" d] by simp
    obtain t0 where t0: "mehcached_shm_check_remove e d = Some t0" "t = t0\<lparr>shm_mappings := (shm_mappings s)(m := zero_mapping)\<rparr>"
      using t(1) check_remove_mappings [of e "(shm_mappings s)(m := zero_mapping)" d] by auto
    have "t0 = t0\<lparr>shm_mappings := shm_mappings s\<rparr>" using k t0(1) by simp
    from arg_cong [OF this, of shm_mappings] have t0m: "shm_mappings t0 = shm_mappings s" by simp
    have "mehcached_shm_unmap p s = Some (True, t\<lparr>state_lock := 0\<rparr>)"
      using lock False m' t0 t0m dc(2) t0(1) [unfolded d_def uf(1), unfolded u_def] unfolding mehcached_shm_unmap_def mehcached_shm_lock_def mehcached_shm_unlock_def
      by (simp add: Let_def m_def [symmetric] e_def [symmetric] u_def [symmetric] d_def [symmetric] uf)
    moreover have "shm_ok (t\<lparr>state_lock := 0\<rparr>)"
      using t(2,3) seg_core_cong(1,2) [of "t\<lparr>state_lock := 0\<rparr>" t] by (simp add: shm_ok_def)
    moreover have "shm_mappings (t\<lparr>state_lock := 0\<rparr>) j = shm_mappings s j \<and>
        owned (t\<lparr>state_lock := 0\<rparr>) (map_entry (shm_mappings s j)) = owned s (map_entry (shm_mappings s j))"
      if "j < MAX_MAPPINGS" "map_addr (shm_mappings s j) \<noteq> 0" "map_addr (shm_mappings s j) \<noteq> p" for j
    proof -
      have "j \<noteq> m" using that m by auto
      moreover have "map_entry (shm_mappings s j) \<noteq> e \<or> refs ?d e \<noteq> {}"
        using that \<open>j \<noteq> m\<close> by (auto simp: refs_def)
      then have "owned t (map_entry (shm_mappings s j)) = owned ?d (map_entry (shm_mappings s j))"
        using t(5) by (auto simp: owned_def)
      ultimately show ?thesis using t(4) od by (simp add: owned_def)
    qed
    ultimately show ?thesis using that [of True "t\<lparr>state_lock := 0\<rparr>"] m by blast
  qed
qed

text \<open>A mapping either fails and leaves the segments alone, or registers one mapping more.\<close>

lemma map_cases:
  assumes ok: "shm_ok s" and os: "calls_succeed os" and e: "e < MAX_ENTRIES" and p: "p \<noteq> 0"
    and b: "ofs < 2 ^ 62" "len < 2 ^ 62" and r: "mehcached_shm_map os e p ofs len s = r"
  obtains (refused) s' where "r = Some (False, s')" "page_size s' = page_size s" "shm_pages s' = shm_pages s"
      "shm_entries s' = shm_entries s" "shm_mappings s' = shm_mappings s" "state_lock s' = 0"
      "(\<forall>t q. os_mmap_fixed os t q) \<Longrightarrow> p AND page_mask s \<noteq> p \<or> ofs AND page_mask s \<noteq> ofs \<or> seg_pages (shm_entries s e) = None \<or>
        seg_length (shm_entries s e) < ofs + len \<or>
        first_index (\<lambda>m. map_addr (shm_mappings s m) = 0) MAX_MAPPINGS 0 = MAX_MAPPINGS"
  | (mapped) s' m n where "r = Some (True, s'\<lparr>state_lock := 0\<rparr>)" "m < MAX_MAPPINGS" "map_addr (shm_mappings s m) = 0"
      "n = (len + (page_size s - 1)) div page_size s" "ofs div page_size s + n \<le> seg_num_pages (shm_entries s e)"
      "seg_pages (shm_entries s e) \<noteq> None" "page_size s' = page_size s" "shm_pages s' = shm_pages s"
      "shm_entries s' = (shm_entries s)(e := (shm_entries s e)\<lparr>refcount := u64 (refcount (shm_entries s e) + 1)\<rparr>)"
      "shm_mappings s' = (shm_mappings s)(m := \<lparr>map_entry = e, map_addr = p, map_length = len,
        map_page_offset = ofs div page_size s, map_num_pages = n\<rparr>)"
      "m = first_index (\<lambda>m. map_addr (shm_mappings s m) = 0) MAX_MAPPINGS 0"
      "used_memory s' = (if refcount (shm_entries s e) = 0
        then u64 (used_memory s + seg_num_pages (shm_entries s e) * page_size s) else used_memory s)"
      "\<exists>t u. map_pages os (owned s e) (ofs div page_size s) (ofs div page_size s + n) p (s\<lparr>state_lock := 1\<rparr>) =
        Some (False, u, t) \<and> space s' = space t \<and> ticks s' = ticks t \<and> files s' = files t \<and> left_mapped s' = left_mapped t"
proof -
  have c: "seg_core s" and lock: "state_lock s = 0" using ok by (simp_all add: shm_ok_def)
  note ps = seg_coreD(1,2) [OF c]
  define m where "m = first_index (\<lambda>m. map_addr (shm_mappings s m) = 0) MAX_MAPPINGS 0"
  define o' where "o' = ofs div page_size s"
  define n where "n = (len + (page_size s - 1)) div page_size s"
  have unl: "s\<lparr>state_lock := 0\<rparr> = s" using lock by simp
  show thesis
  proof (cases "p AND page_mask s \<noteq> p \<or> ofs AND page_mask s \<noteq> ofs \<or> seg_pages (shm_entries s e) = None \<or>
      seg_length (shm_entries s e) < ofs + len \<or> m = MAX_MAPPINGS")
    case True
    have "u64 (ofs + len) = ofs + len" using b by (simp add: u64_def)
    then have "r = Some (False, s)"
      using True r lock e unl by (auto simp: mehcached_shm_map_def mehcached_shm_lock_def mehcached_shm_unlock_def m_def)
    then show ?thesis by (rule refused) (use True lock in \<open>simp_all add: m_def\<close>)
  next
    case False
    have al: "ofs AND page_mask s = ofs" "p AND page_mask s = p" using False by blast+
    have np: "\<not> seg_length (shm_entries s e) < ofs" using False by linarith
    obtain k where k: "page_size s = 2 ^ k" "k < 48" using c unfolding seg_core_def by blast
    have "page_size s dvd ofs"
      using al(1) page_aligned [OF k(1), of ofs] k(2) b(1) by simp
    then obtain q where q: "ofs = page_size s * q" by (elim dvdE)
    then have o': "o' = q" using ps(1) by (simp add: o'_def)
    have eo: "entry_ok s e" by (rule seg_coreD(3) [OF c e])
    have "page_size s * q + len \<le> seg_num_pages (shm_entries s e) * page_size s"
      using False eo q unfolding entry_ok_def by linarith
    then have "len \<le> (seg_num_pages (shm_entries s e) - q) * page_size s"
      and "q * page_size s \<le> seg_num_pages (shm_entries s e) * page_size s"
      by (simp add: diff_mult_distrib algebra_simps, metis add_leD1 mult.commute)
    then have "len \<le> (seg_num_pages (shm_entries s e) - q) * page_size s" "q \<le> seg_num_pages (shm_entries s e)"
      using ps(1) by simp_all
    then have "len + (page_size s - 1) < Suc (seg_num_pages (shm_entries s e) - q) * page_size s"
      using ps(1) by simp
    then have "n \<le> seg_num_pages (shm_entries s e) - q"
      unfolding n_def using ps(1) by (simp add: div_less_iff_less_mult flip: less_Suc_eq_le)
    then have on: "o' + n \<le> seg_num_pages (shm_entries s e)" using \<open>q \<le> _\<close> unfolding o' by linarith
    have "seg_num_pages (shm_entries s e) \<le> MAX_PAGES"
    proof -
      have "set (owned s e) \<subseteq> {..<MAX_PAGES}" "distinct (owned s e)" "length (owned s e) = seg_num_pages (shm_entries s e)"
        using eo by (auto simp: entry_ok_def)
      then show ?thesis using card_mono [of "{..<MAX_PAGES}" "set (owned s e)"] distinct_card [of "owned s e"] by simp
    qed
    then have u: "u64 (o' + n) = o' + n" using on by (simp add: u64_def MAX_PAGES_def)
    have "\<exists>err i t. map_pages os (owned s e) o' (o' + n) p (s\<lparr>state_lock := 1\<rparr>) = Some (err, i, t) \<and>
        ((\<forall>t q. os_mmap_fixed os t q) \<longrightarrow> \<not> err)"
      using map_pages_total [OF os, of "o' + n" "owned s e" o' p "s\<lparr>state_lock := 1\<rparr>"] eo on
      unfolding entry_ok_def by (metis le_add1 less_le_trans nth_mem)
    then obtain err i t where mp: "map_pages os (owned s e) o' (o' + n) p (s\<lparr>state_lock := 1\<rparr>) = Some (err, i, t)"
      and me: "(\<forall>t q. os_mmap_fixed os t q) \<Longrightarrow> \<not> err" by blast
    note fr = map_pages_frame [OF mp le_add1]
    have "pages_for (s\<lparr>state_lock := 1\<rparr>) len = Some n"
      unfolding n_def by (subst pages_for_eq) (use ps b in simp_all)
    note facts = this mp u
    obtain ids where sp: "seg_pages (shm_entries s e) = Some ids" using False by auto
    have lf: "\<not> seg_length (shm_entries s e) < ofs + len" "m \<noteq> MAX_MAPPINGS" using False by blast+
    have ul: "u64 (ofs + len) = ofs + len" using b by (simp add: u64_def)
    show ?thesis
    proof (cases err)
      case True
      then have "r = Some (False, (unmap_pages (i - o') p t)\<lparr>state_lock := 0\<rparr>)"
        using al sp lf np True r [symmetric] lock e unfolding mehcached_shm_map_def mehcached_shm_lock_def mehcached_shm_unlock_def
        by (simp add: Let_def m_def [symmetric] o'_def [symmetric] owned_def [symmetric] ul fr(3-8) facts [unfolded One_nat_def])
      then show ?thesis by (rule refused) (use True fr me in simp_all)
    next
      case err: False
      define s' where "s' = (if refcount (shm_entries s e) = 0
          then t\<lparr>used_memory := u64 (used_memory s + seg_num_pages (shm_entries s e) * page_size s)\<rparr> else t)
        \<lparr>shm_entries := (shm_entries s)(e := (shm_entries s e)\<lparr>refcount := u64 (refcount (shm_entries s e) + 1)\<rparr>),
         shm_mappings := (shm_mappings s)(m := \<lparr>map_entry = e, map_addr = p, map_length = len,
           map_page_offset = o', map_num_pages = n\<rparr>)\<rparr>"
      have "r = Some (True, s'\<lparr>state_lock := 0\<rparr>)"
        using al sp lf np r [symmetric] lock e err unfolding mehcached_shm_map_def mehcached_shm_lock_def mehcached_shm_unlock_def
        by (simp add: Let_def m_def [symmetric] o'_def [symmetric] owned_def [symmetric] ul fr(3-8) facts [unfolded One_nat_def] s'_def)
      moreover have "m < MAX_MAPPINGS" "map_addr (shm_mappings s m) = 0"
        using False first_index_bounds [of 0 MAX_MAPPINGS "\<lambda>m. map_addr (shm_mappings s m) = 0"]
          first_index_found [of "\<lambda>m. map_addr (shm_mappings s m) = 0" MAX_MAPPINGS 0] unfolding m_def by simp_all
      moreover have "\<exists>t u. map_pages os (owned s e) o' (o' + n) p (s\<lparr>state_lock := 1\<rparr>) = Some (False, u, t) \<and>
          space s' = space t \<and> ticks s' = ticks t \<and> files s' = files t \<and> left_mapped s' = left_mapped t"
        using mp err by (auto simp: s'_def)
      ultimately show ?thesis
        by (intro mapped [of s' m n]) (use False on fr in \<open>simp_all add: s'_def n_def o'_def m_def\<close>)
    qed
  qed
qed

lemma map_ok:
  assumes ok: "shm_ok s" and os: "calls_succeed os" and e: "e < MAX_ENTRIES" and p: "p \<noteq> 0"
    and b: "ofs < 2 ^ 62" "len < 2 ^ 62"
  obtains r s' where "mehcached_shm_map os e p ofs len s = Some (r, s')" "shm_ok s'"
    "\<And>m. map_addr (shm_mappings s m) \<noteq> 0 \<Longrightarrow> shm_mappings s' m = shm_mappings s m" "owned s' = owned s"
proof -
  have c: "seg_core s" and nd: "\<And>x. x < MAX_ENTRIES \<Longrightarrow> no_dead s x" using ok by (simp_all add: shm_ok_def)
  show thesis
  proof (cases rule: map_cases [OF ok os e p b refl, case_names refused mapped])
    case (refused s')
    then have "shm_ok s'" "owned s' = owned s"
      using ok seg_core_cong [of s' s] by (simp_all add: shm_ok_def)
    then show ?thesis using that [of False s'] refused by simp
  next
    case (mapped s' m n)
    let ?t = "s\<lparr>shm_entries := (shm_entries s)(e := (shm_entries s e)\<lparr>refcount := u64 (refcount (shm_entries s e) + 1)\<rparr>),
      shm_mappings := (shm_mappings s)(m := \<lparr>map_entry = e, map_addr = p, map_length = len,
        map_page_offset = ofs div page_size s, map_num_pages = n\<rparr>)\<rparr>"
    have t: "seg_core ?t" by (rule add_mapping_core [OF c e mapped(6,2,3) p mapped(5)])
    have s': "seg_core (s'\<lparr>state_lock := 0\<rparr>)" "no_dead (s'\<lparr>state_lock := 0\<rparr>) = no_dead ?t"
      "owned (s'\<lparr>state_lock := 0\<rparr>) = owned ?t"
      using t seg_core_cong [of "s'\<lparr>state_lock := 0\<rparr>" ?t] mapped by simp_all
    have "refcount (shm_entries s e) = card (refs s e)" using seg_coreD(3) [OF c e] by (simp add: entry_ok_def)
    then have "u64 (refcount (shm_entries s e) + 1) \<noteq> 0" using card_refs [of s e] by (simp add: u64_def MAX_MAPPINGS_def)
    then have "no_dead ?t x" if "x < MAX_ENTRIES" for x using nd [OF that] by (auto simp: no_dead_def)
    then have "shm_ok (s'\<lparr>state_lock := 0\<rparr>)" using s' by (simp add: shm_ok_def)
    moreover have "owned ?t = owned s" by (simp add: owned_def entry_pages_def fun_eq_iff)
    moreover have "shm_mappings (s'\<lparr>state_lock := 0\<rparr>) j = shm_mappings s j" if "map_addr (shm_mappings s j) \<noteq> 0" for j
      using that mapped(3,10) by auto
    ultimately show ?thesis using that [OF mapped(1)] s'(3) by metis
  qed
qed

subsection \<open>Histories\<close>

text \<open>
  The calls of any number of threads: every operation holds the lock from its first access to its last, so that an
  interleaving is a sequence of calls.
\<close>

datatype shm_op = Alloc nat nat | Map nat nat nat nat | Unmap nat | Remove nat

fun shm_call :: "os \<Rightarrow> shm_op \<Rightarrow> shm \<Rightarrow> shm option" where
  "shm_call os (Alloc len node) s = map_option snd (mehcached_shm_alloc os len node s)"
| "shm_call os (Map e p ofs len) s = map_option snd (mehcached_shm_map os e p ofs len s)"
| "shm_call os (Unmap p) s = map_option snd (mehcached_shm_unmap p s)"
| "shm_call os (Remove e) s = map_option snd (mehcached_shm_schedule_remove e s)"

fun shm_run :: "os \<Rightarrow> shm_op list \<Rightarrow> shm \<Rightarrow> shm option" where
  "shm_run os [] s = Some s"
| "shm_run os (c # cs) s = Option.bind (shm_call os c s) (shm_run os cs)"

fun call_ok :: "shm_op \<Rightarrow> bool" where
  "call_ok (Alloc len node) \<longleftrightarrow> len \<le> 2 ^ 60"
| "call_ok (Map e p ofs len) \<longleftrightarrow> e < MAX_ENTRIES \<and> p \<noteq> 0 \<and> ofs < 2 ^ 62 \<and> len < 2 ^ 62"
| "call_ok (Unmap p) \<longleftrightarrow> p \<noteq> 0"
| "call_ok (Remove e) \<longleftrightarrow> e < MAX_ENTRIES"

lemma shm_call_ok:
  assumes ok: "shm_ok s" and os: "calls_succeed os" and c: "call_ok c"
  obtains s' where "shm_call os c s = Some s'" "shm_ok s'"
    "\<And>m. m < MAX_MAPPINGS \<Longrightarrow> map_addr (shm_mappings s m) \<noteq> 0 \<Longrightarrow> c \<noteq> Unmap (map_addr (shm_mappings s m)) \<Longrightarrow>
      shm_mappings s' m = shm_mappings s m \<and> owned s' (map_entry (shm_mappings s m)) = owned s (map_entry (shm_mappings s m))"
proof (cases c)
  case (Alloc len node)
  then have len: "len \<le> 2 ^ 60" using c by simp
  obtain r s' where a: "mehcached_shm_alloc os len node s = Some (r, s')" 
    using alloc_result [OF ok os len, of node] surj_pair by metis
  note al = alloc_ok [OF ok os len a]
  have "owned s' (map_entry (shm_mappings s m)) = owned s (map_entry (shm_mappings s m))"
    if "m < MAX_MAPPINGS" "map_addr (shm_mappings s m) \<noteq> 0" for m
  proof -
    have "seg_pages (shm_entries s (map_entry (shm_mappings s m))) \<noteq> None"
      using ok seg_coreD(4) that by (simp add: shm_ok_def mapping_ok_def)
    from al(3) [OF this] show ?thesis by (simp add: owned_def)
  qed
  then show ?thesis using that [of s'] a al Alloc by simp
next
  case (Map e p ofs len)
  then have "e < MAX_ENTRIES" "p \<noteq> 0" "ofs < 2 ^ 62" "len < 2 ^ 62" using c by simp_all
  then obtain r s' where "mehcached_shm_map os e p ofs len s = Some (r, s')" "shm_ok s'"
    "\<And>m. map_addr (shm_mappings s m) \<noteq> 0 \<Longrightarrow> shm_mappings s' m = shm_mappings s m" "owned s' = owned s"
    by (rule map_ok [OF ok os]) blast+
  then show ?thesis using that [of s'] Map by simp
next
  case (Unmap p)
  then have "p \<noteq> 0" using c by simp
  then obtain r s' where "mehcached_shm_unmap p s = Some (r, s')" "shm_ok s'"
    "\<And>m. m < MAX_MAPPINGS \<Longrightarrow> map_addr (shm_mappings s m) \<noteq> 0 \<Longrightarrow> map_addr (shm_mappings s m) \<noteq> p \<Longrightarrow>
      shm_mappings s' m = shm_mappings s m \<and> owned s' (map_entry (shm_mappings s m)) = owned s (map_entry (shm_mappings s m))"
    by (rule unmap_ok [OF ok]) blast+
  then show ?thesis using that [of s'] Unmap by auto
next
  case (Remove e)
  then have "e < MAX_ENTRIES" using c by simp
  then obtain r s' where "mehcached_shm_schedule_remove e s = Some (r, s')" "shm_ok s'" "shm_mappings s' = shm_mappings s"
    "\<And>x. refs s x \<noteq> {} \<Longrightarrow> owned s' x = owned s x"
    by (rule schedule_remove_ok [OF ok]) blast+
  then show ?thesis using that [of s'] Remove by (auto simp: refs_def)
qed

lemma shm_run_ok:
  assumes "shm_ok s" "calls_succeed os" "list_all call_ok cs"
  shows "\<exists>s'. shm_run os cs s = Some s' \<and> shm_ok s' \<and>
    (\<forall>m<MAX_MAPPINGS. map_addr (shm_mappings s m) \<noteq> 0 \<and> Unmap (map_addr (shm_mappings s m)) \<notin> set cs \<longrightarrow>
      shm_mappings s' m = shm_mappings s m \<and> owned s' (map_entry (shm_mappings s m)) = owned s (map_entry (shm_mappings s m)))"
  using assms(1,3)
proof (induction cs arbitrary: s)
  case (Cons c cs)
  obtain t where t: "shm_call os c s = Some t" "shm_ok t"
    "\<And>m. m < MAX_MAPPINGS \<Longrightarrow> map_addr (shm_mappings s m) \<noteq> 0 \<Longrightarrow> c \<noteq> Unmap (map_addr (shm_mappings s m)) \<Longrightarrow>
      shm_mappings t m = shm_mappings s m \<and> owned t (map_entry (shm_mappings s m)) = owned s (map_entry (shm_mappings s m))"
    using shm_call_ok [OF Cons.prems(1) assms(2), of c] Cons.prems(2) by auto
  from Cons.IH [OF t(2)] Cons.prems(2) obtain s' where s': "shm_run os cs t = Some s'" "shm_ok s'"
    "\<And>m. m < MAX_MAPPINGS \<Longrightarrow> map_addr (shm_mappings t m) \<noteq> 0 \<Longrightarrow> Unmap (map_addr (shm_mappings t m)) \<notin> set cs \<Longrightarrow>
      shm_mappings s' m = shm_mappings t m \<and> owned s' (map_entry (shm_mappings t m)) = owned t (map_entry (shm_mappings t m))"
    by auto
  have "shm_mappings s' m = shm_mappings s m \<and> owned s' (map_entry (shm_mappings s m)) = owned s (map_entry (shm_mappings s m))"
    if "m < MAX_MAPPINGS" "map_addr (shm_mappings s m) \<noteq> 0" "Unmap (map_addr (shm_mappings s m)) \<notin> set (c # cs)" for m
    using t(3) [of m] s'(3) [of m] that by simp metis
  then show ?case using t(1) s'(1,2) by auto
qed auto


lemma fresh_ok:
  assumes "page_size s = 2 ^ k" "k < 48" "state_lock s = 0" "shm_entries s = (\<lambda>e. zero_entry)" "shm_mappings s = (\<lambda>m. zero_mapping)"
    "\<And>i. i < MAX_PAGES \<Longrightarrow> pg_in_use (shm_pages s i) = 0"
  shows "shm_ok s"
proof -
  have "refs s e = {}" "owned s e = []" for e using assms(4,5) by (simp_all add: refs_def owned_def entry_pages_def zero_mapping_def zero_entry_def)
  then show ?thesis using assms
    by (auto simp: shm_ok_def seg_core_def entry_ok_def mapping_ok_def no_dead_def owner_exists_def) (simp_all add: zero_entry_def zero_mapping_def)
qed

text \<open>Four free pages of 2 MB, and a system that grants everything.\<close>

definition demo_shm :: shm where
  "demo_shm = \<lparr>page_size = 2 ^ 21, state_lock = 0,
     shm_pages = (\<lambda>i. if i < 4 then \<lparr>pg_path = mehcached_shm_path i, pg_addr = Suc i * 2 ^ 21, pg_paddr = i * 2 ^ 21,
       pg_numa = 0, pg_in_use = 0\<rparr> else zero_page),
     shm_entries = (\<lambda>e. zero_entry), shm_mappings = (\<lambda>m. zero_mapping), used_memory = 0,
     space = (\<lambda>a. if a \<in> {2097152, 4194304, 6291456, 8388608} then Some (mehcached_shm_path (a div 2097152 - 1)) else None),
     files = (\<lambda>f i. 0), left_mapped = [], ticks = 0\<rparr>"

definition demo_os :: os where
  "demo_os = \<lparr>os_open = (\<lambda>t f. True), os_mmap = (\<lambda>t n. Some 10485760), os_mmap_fixed = (\<lambda>t p. True),
     os_malloc = (\<lambda>t n. True), numa_maps = None, pagemap = (\<lambda>i. None), normal_page_size = 4096\<rparr>"

lemma demo_shm_ok: "shm_ok demo_shm"
  by (rule fresh_ok [of _ 21]) (simp_all add: demo_shm_def zero_page_def)


subsection \<open>Two defects\<close>

text \<open>
  Free slots of the table of mappings have address \<^verbatim>\<open>NULL\<close> and entry 0, so that unmapping \<^verbatim>\<open>NULL\<close> succeeds and takes a
  reference from entry 0: with one mapping left and a removal scheduled, its pages are given up while they are mapped.
\<close>

lemma unmap_null_gives_up_mapped_pages:
  assumes ok: "shm_ok s" and m: "m < MAX_MAPPINGS" "map_addr (shm_mappings s m) = 0"
    and e: "refcount (shm_entries s 0) = 1" "to_remove (shm_entries s 0) \<noteq> 0"
  shows "\<exists>s'. mehcached_shm_unmap 0 s = Some (True, s') \<and> refs s 0 \<noteq> {} \<and> refs s' 0 = refs s 0 \<and>
    space s' = space s \<and> (\<forall>i\<in>set (owned s 0). pg_in_use (shm_pages s' i) = 0)"
proof -
  have c: "seg_core s" and lock: "state_lock s = 0" using ok by (simp_all add: shm_ok_def)
  define f where "f = first_index (\<lambda>m. map_addr (shm_mappings s m) = 0) MAX_MAPPINGS 0"
  have f: "f < MAX_MAPPINGS" "map_addr (shm_mappings s f) = 0"
    using first_index_exists [of "\<lambda>m. map_addr (shm_mappings s m) = 0" m MAX_MAPPINGS] m
      first_index_found [of "\<lambda>m. map_addr (shm_mappings s m) = 0" MAX_MAPPINGS 0] unfolding f_def by simp_all
  have z: "shm_mappings s f = zero_mapping" using seg_coreD(4) [OF c f(1)] f(2) by (simp add: mapping_ok_def)
  have e0: "0 < MAX_ENTRIES" by (simp add: MAX_ENTRIES_def)
  have eo: "entry_ok s 0" by (rule seg_coreD(3) [OF c e0])
  let ?d = "s\<lparr>state_lock := 1, shm_entries := (shm_entries s)(0 := (shm_entries s 0)\<lparr>refcount := 0\<rparr>)\<rparr>"
  have o: "owned ?d 0 = owned s 0" by (simp add: owned_def entry_pages_def)
  have cr: "mehcached_shm_check_remove 0 ?d = Some (if no_dead ?d 0 then ?d
      else (set_in_use (owned s 0) 0 ?d)\<lparr>shm_entries := (shm_entries ?d)(0 := zero_entry), used_memory := u64 (used_memory ?d)\<rparr>)"
    using check_remove_eq [OF e0, of ?d] eo unfolding o by (simp add: entry_ok_def)
  have nd: "\<not> no_dead ?d 0" using e(2) by (simp add: no_dead_def)
  have u: "u64 (refcount (shm_entries s 0) + (2 ^ 64 - 1)) = 0" by (simp add: e(1) u64_def)
  let ?s = "(set_in_use (owned s 0) 0 ?d)\<lparr>shm_entries := (shm_entries ?d)(0 := zero_entry), used_memory := u64 (used_memory ?d),
    shm_mappings := (shm_mappings s)(f := zero_mapping), state_lock := 0\<rparr>"
  have "mehcached_shm_unmap 0 s = Some (True, ?s)"
    using lock f(1) z e0 u cr nd unfolding mehcached_shm_unmap_def mehcached_shm_lock_def mehcached_shm_unlock_def
    by (simp add: f_def [symmetric] zero_mapping_def)
  moreover have "refs s 0 \<noteq> {}" using eo e(1) by (auto simp: entry_ok_def)
  moreover have "refs ?s 0 = refs s 0" using z by (auto simp: refs_def)
  ultimately show ?thesis by (intro exI [of _ ?s]) (simp add: set_in_use_pages)
qed

end
