(* ===== verification/Shm_Pool.thy ===== *)
theory Shm_Pool
  imports Shm_Segments
begin

section \<open>The memory of the pool: alloc\_pool.c on shm.c\<close>

text \<open>
  \<open>mehcached_pool_init\<close> gets its memory from \<^verbatim>\<open>shm.c\<close>: one segment, mapped once in full and its first huge page
  once more behind the end. \<open>pool_ring\<close> relates the mapped pages to the circular memory that \<open>Mica_Pool\<close> works with.
\<close>

subsection \<open>The code\<close>

partial_function (option) map_pool_loop :: "os \<Rightarrow> nat \<Rightarrow> nat \<Rightarrow> shm \<Rightarrow> (nat \<times> shm) option" where
  "map_pool_loop os shm_id sz s =
     Option.bind (mehcached_shm_find_free_address os (u64 (sz + MINIMUM_POOL_SIZE)) s) (\<lambda>(data, s).
       if data = 0 then None
       else Option.bind (mehcached_shm_map os shm_id data 0 sz s) (\<lambda>(ok, s).
         if \<not> ok then map_pool_loop os shm_id sz s
         else Option.bind (mehcached_shm_map os shm_id (u64 (data + sz)) 0 MINIMUM_POOL_SIZE s) (\<lambda>(ok, s).
           if \<not> ok then Option.bind (mehcached_shm_unmap data s) (\<lambda>(_, s). map_pool_loop os shm_id sz s)
           else Some (data, s))))"

definition map_pool :: "os \<Rightarrow> nat \<Rightarrow> nat \<Rightarrow> shm \<Rightarrow> (nat \<times> shm) option" where
  "map_pool os sz numa_node s = do {
     (shm_id, s) \<leftarrow> mehcached_shm_alloc os sz numa_node s;
     if shm_id = 2 ^ 64 - 1 then None
     else do {
       (data, s) \<leftarrow> map_pool_loop os shm_id sz s;
       (ok, s) \<leftarrow> mehcached_shm_schedule_remove shm_id s;
       if \<not> ok then None else Some (data, s)
     }
   }"

definition mehcached_pool_free :: "nat \<Rightarrow> nat \<Rightarrow> shm \<Rightarrow> shm option" where
  "mehcached_pool_free data sz s = do {
     (ok, s) \<leftarrow> mehcached_shm_unmap data s;
     if \<not> ok then None
     else do {
       (ok, s) \<leftarrow> mehcached_shm_unmap (u64 (data + sz)) s;
       if \<not> ok then None else Some s
     }
   }"

text \<open>What the pool finds in its memory.\<close>

definition pool_view :: "shm \<Rightarrow> nat \<Rightarrow> nat \<Rightarrow> 8 word" where
  "pool_view s data i = (case mem_byte s (data + i) of None \<Rightarrow> 0 | Some b \<Rightarrow> b)"

definition pool_init_on :: "os \<Rightarrow> nat \<Rightarrow> bool \<Rightarrow> bool \<Rightarrow> nat \<Rightarrow> shm \<Rightarrow> (nat \<times> pool \<times> shm) option" where
  "pool_init_on os size_arg concurrent_alloc_read concurrent_alloc_write numa_node s = do {
     p \<leftarrow> mehcached_pool_init (Some (\<lambda>i. 0)) size_arg concurrent_alloc_read concurrent_alloc_write;
     (data, s) \<leftarrow> map_pool os (pool_size p) numa_node s;
     Some (data, p\<lparr>pool_data := pool_view s data\<rparr>, s)
   }"

subsection \<open>What the operations do when they succeed\<close>

lemma unmap_result:
  assumes ok: "shm_ok s" and p: "p \<noteq> 0" and m: "m < MAX_MAPPINGS" "map_addr (shm_mappings s m) = p"
    "\<And>j. j < m \<Longrightarrow> map_addr (shm_mappings s j) \<noteq> p"
    and mm: "shm_mappings s m = \<lparr>map_entry = e, map_addr = p, map_length = l, map_page_offset = k, map_num_pages = n\<rparr>"
    and rg: "p + n * page_size s \<le> 2 ^ 64"
  shows "mehcached_shm_unmap p s = Some (True,
    (if to_remove (shm_entries s e) \<noteq> 0 \<and> refcount (shm_entries s e) = 1
     then (set_in_use (owned s e) 0 s)\<lparr>used_memory := u64 (used_memory s), shm_entries := (shm_entries s)(e := zero_entry)\<rparr>
     else s\<lparr>shm_entries := (shm_entries s)(e := (shm_entries s e)\<lparr>refcount := refcount (shm_entries s e) - 1\<rparr>)\<rparr>)
    \<lparr>shm_mappings := (shm_mappings s)(m := zero_mapping), space := (\<lambda>a. if in_range s p n a then None else space s a)\<rparr>)"
proof -
  have c: "seg_core s" and lock: "state_lock s = 0" using ok by (simp_all add: shm_ok_def)
  have fi: "first_index (\<lambda>m. map_addr (shm_mappings s m) = p) MAX_MAPPINGS 0 = m"
    using m by (intro first_index_eq) simp_all
  have e: "e < MAX_ENTRIES" using seg_coreD(4) [OF c m(1)] p mm by (simp add: mapping_ok_def)
  have eo: "entry_ok s e" by (rule seg_coreD(3) [OF c e])
  have "m \<in> refs s e" using m mm p by (simp add: refs_def)
  then have "0 < refcount (shm_entries s e)" using eo by (auto simp: entry_ok_def card_gt_0_iff)
  moreover have "refcount (shm_entries s e) \<le> MAX_MAPPINGS" using eo card_refs by (simp add: entry_ok_def)
  ultimately have dec: "u64 (refcount (shm_entries s e) + (2 ^ 64 - 1)) = refcount (shm_entries s e) - 1"
    by (cases "refcount (shm_entries s e)") (simp_all add: u64_def MAX_MAPPINGS_def)
  let ?u = "unmap_pages n p (s\<lparr>state_lock := 1\<rparr>)"
  let ?d = "?u\<lparr>shm_entries := (shm_entries s)(e := (shm_entries s e)\<lparr>refcount := refcount (shm_entries s e) - 1\<rparr>)\<rparr>"
  have o: "owned ?d e = owned s e" by (simp add: owned_def entry_pages_def)
  have cr: "mehcached_shm_check_remove e ?d = Some (if no_dead ?d e then ?d
      else (set_in_use (owned s e) 0 ?d)\<lparr>shm_entries := (shm_entries ?d)(e := zero_entry), used_memory := u64 (used_memory ?d)\<rparr>)"
    using check_remove_eq [OF e, of ?d] eo unfolding o by (simp add: entry_ok_def)
  have sp: "space ?u = (\<lambda>a. if in_range s p n a then None else space s a)"
    using unmap_pages_space [of "s\<lparr>state_lock := 1\<rparr>" p n] seg_coreD(1) [OF c] rg in_range_frame [of "s\<lparr>state_lock := 1\<rparr>" s]
    by (simp add: fun_eq_iff)
  have u: "?u = s\<lparr>state_lock := 1, space := (\<lambda>a. if in_range s p n a then None else space s a)\<rparr>"
    by (rule shm.equality) (simp_all add: sp del: One_nat_def)
  have nd: "no_dead ?d e \<longleftrightarrow> \<not> (to_remove (shm_entries s e) \<noteq> 0 \<and> refcount (shm_entries s e) = 1)"
    using \<open>0 < refcount _\<close> by (auto simp: no_dead_def)
  have st: "mehcached_shm_unmap p s = Option.bind (mehcached_shm_check_remove e ?d)
      (\<lambda>s. Some (True, s\<lparr>shm_mappings := (shm_mappings s)(m := zero_mapping), state_lock := 0\<rparr>))"
    using lock m(1) e dec fi by (simp add: mehcached_shm_unmap_def mehcached_shm_lock_def mehcached_shm_unlock_def Let_def mm)
  show ?thesis unfolding st cr nd unfolding u using lock by (auto simp: set_in_use_def)
qed

definition always_maps :: "os \<Rightarrow> bool" where
  "always_maps os \<longleftrightarrow> calls_succeed os \<and> (\<forall>t q. os_mmap_fixed os t q)"

lemma map_result:
  assumes ok: "shm_ok s" and os: "always_maps os" and e: "e < MAX_ENTRIES" "seg_pages (shm_entries s e) \<noteq> None"
    and p: "p \<noteq> 0" "page_size s dvd p" and n: "n * page_size s \<le> seg_length (shm_entries s e)" "n * page_size s < 2 ^ 62"
    and rg: "p + n * page_size s < 2 ^ 64"
    and m: "m < MAX_MAPPINGS" "map_addr (shm_mappings s m) = 0" "\<And>j. j < m \<Longrightarrow> map_addr (shm_mappings s j) \<noteq> 0"
  obtains t where "mehcached_shm_map os e p 0 (n * page_size s) s = Some (True, s\<lparr>
      shm_entries := (shm_entries s)(e := (shm_entries s e)\<lparr>refcount := refcount (shm_entries s e) + 1\<rparr>),
      shm_mappings := (shm_mappings s)(m := \<lparr>map_entry = e, map_addr = p, map_length = n * page_size s,
        map_page_offset = 0, map_num_pages = n\<rparr>),
      used_memory := (if refcount (shm_entries s e) = 0
        then u64 (used_memory s + seg_num_pages (shm_entries s e) * page_size s) else used_memory s),
      space := (\<lambda>a. if in_range s p n a then Some (file_at s (owned s e) ((a - p) div page_size s)) else space s a), ticks := t\<rparr>)"
proof -
  have c: "seg_core s" and lock: "state_lock s = 0" using ok by (simp_all add: shm_ok_def)
  have cs: "calls_succeed os" and fx: "\<forall>t q. os_mmap_fixed os t q" using os unfolding always_maps_def by blast+
  note ps = seg_coreD(1,2) [OF c]
  obtain k where k: "page_size s = 2 ^ k" "k < 48" using c unfolding seg_core_def by blast
  have al: "p AND page_mask s = p" using page_aligned [OF k(1), of p] k(2) rg p(2) by simp
  have fi: "first_index (\<lambda>m. map_addr (shm_mappings s m) = 0) MAX_MAPPINGS 0 = m"
    using m by (intro first_index_eq) simp_all
  have "refcount (shm_entries s e) = card (refs s e)" using seg_coreD(3) [OF c e(1)] by (simp add: entry_ok_def)
  then have rc: "u64 (refcount (shm_entries s e) + 1) = refcount (shm_entries s e) + 1"
    using card_refs [of s e] by (simp add: u64_def MAX_MAPPINGS_def)
  have nn: "(n * page_size s + (page_size s - 1)) div page_size s = n"
    by (rule div_nat_eqI) (use ps(1) in \<open>simp_all add: algebra_simps\<close>)
  show thesis
  proof (cases rule: map_cases [OF ok cs e(1) p(1) _ n(2) refl, of 0, case_names bnd refused mapped])
    case bnd
    show ?case by simp
  next
    case (refused s')
    from refused(7) [OF fx] show ?thesis using al e(2) n(1) fi m(1) by simp
  next
    case (mapped s' m' n')
    then have m': "m' = m" "n' = n" using fi nn by simp_all
    obtain t u where t: "map_pages os (owned s e) 0 n p (s\<lparr>state_lock := 1\<rparr>) = Some (False, u, t)"
      "space s' = space t" "ticks s' = ticks t" "files s' = files t" "left_mapped s' = left_mapped t"
      using mapped(13) by (auto simp: m')
    note fr = map_pages_frame [OF t(1) le0]
    have u: "u = n" using fr(11) by simp
    have "space t = (\<lambda>a. if in_range (s\<lparr>state_lock := 1\<rparr>) p (u - 0) a
        then Some (file_at (s\<lparr>state_lock := 1\<rparr>) (owned s e) (0 + (a - p) div page_size (s\<lparr>state_lock := 1\<rparr>)))
        else space (s\<lparr>state_lock := 1\<rparr>) a)"
      by (rule map_pages_space [OF t(1)]) (use ps rg in simp_all)
    then have sp: "space s' = (\<lambda>a. if in_range s p n a then Some (file_at s (owned s e) ((a - p) div page_size s)) else space s a)"
      using in_range_frame [of "s\<lparr>state_lock := 1\<rparr>" s] by (simp add: t(2) u file_at_def fun_eq_iff)
    have "s'\<lparr>state_lock := 0\<rparr> = s\<lparr>
      shm_entries := (shm_entries s)(e := (shm_entries s e)\<lparr>refcount := refcount (shm_entries s e) + 1\<rparr>),
      shm_mappings := (shm_mappings s)(m := \<lparr>map_entry = e, map_addr = p, map_length = n * page_size s,
        map_page_offset = 0, map_num_pages = n\<rparr>),
      used_memory := (if refcount (shm_entries s e) = 0
        then u64 (used_memory s + seg_num_pages (shm_entries s e) * page_size s) else used_memory s),
      space := (\<lambda>a. if in_range s p n a then Some (file_at s (owned s e) ((a - p) div page_size s)) else space s a),
      ticks := ticks s'\<rparr>"
      by (rule shm.equality) (use mapped rc lock fr t in \<open>simp_all add: sp m'\<close>)
    then show ?thesis using that mapped(1) by simp
  qed
qed

subsection \<open>The memory of a pool\<close>

text \<open>
  What \<^verbatim>\<open>mmap\<close> promises of an address that it chooses: nothing is mapped there. \<open>registered\<close>: every mapping of the
  table is in the address space.
\<close>

definition gives_free :: "os \<Rightarrow> shm \<Rightarrow> nat \<Rightarrow> bool" where
  "gives_free os s len \<longleftrightarrow> (\<forall>t. \<exists>p. os_mmap os t (len + page_size s) = Some p \<and> 0 < p \<and> p + len + page_size s < 2 ^ 64 \<and>
     (\<forall>a. p \<le> a \<and> a < p + len + page_size s \<longrightarrow> space s a = None))"

definition registered :: "shm \<Rightarrow> bool" where
  "registered s \<longleftrightarrow> (\<forall>m<MAX_MAPPINGS. map_addr (shm_mappings s m) \<noteq> 0 \<longrightarrow> space s (map_addr (shm_mappings s m)) \<noteq> None)"

definition huge :: nat where "huge = 2097152"

lemma find_free_result:
  assumes ps: "page_size s = huge" and os: "always_maps os" and g: "gives_free os s len"
  obtains q l t where "mehcached_shm_find_free_address os len s = Some (q, s\<lparr>left_mapped := l, ticks := t\<rparr>)"
    "huge dvd q" "0 < q" "q + len < 2 ^ 64" "\<And>a. q \<le> a \<Longrightarrow> a < q + len \<Longrightarrow> space s a = None"
proof -
  have op: "os_open os t f" for t f using os unfolding always_maps_def calls_succeed_def by blast
  obtain p where p: "os_mmap os (Suc (ticks s)) (len + huge) = Some p" "0 < p" "p + len + huge < 2 ^ 64"
    "\<And>a. p \<le> a \<Longrightarrow> a < p + len + huge \<Longrightarrow> space s a = None"
    using g unfolding gives_free_def ps by blast
  have n2: "mehcached_next_power_of_two huge = Some huge"
    by (simp add: huge_def mehcached_next_power_of_two_def next_power_of_two_from.simps)
  have k: "huge = 2 ^ 21" by (simp add: huge_def)
  define q where "q = (p + (huge - 1)) div huge * huge"
  have u: "u64 (len + huge) = len + huge" "u64 (p + (huge - 1)) = p + (huge - 1)"
    using p(3) by (simp_all add: u64_def huge_def)
  have "u64 (p + (huge - 1)) AND (2 ^ 64 - 1 - (huge - 1)) = q"
    unfolding u q_def using and_high_bits [of "p + (huge - 1)" 21] p(3) by (simp add: huge_def)
  then have f: "mehcached_shm_find_free_address os len s =
      Some (q, s\<lparr>left_mapped := (u64 (p + len), huge) # left_mapped s, ticks := Suc (Suc (ticks s))\<rparr>)"
    using op p(1) n2 u(1) by (simp add: mehcached_shm_find_free_address_def ps tick_def huge_def)
  have b: "p \<le> q" "q < p + huge"
    unfolding q_def using div_mult_mod_eq [of "p + (huge - 1)" huge] mod_less_divisor [of huge "p + (huge - 1)"]
    by (simp_all add: huge_def)
  have dv: "huge dvd q" by (simp add: q_def)
  show thesis
    by (rule that [OF f dv]) (use b p in auto)
qed

lemma two_free_mappings:
  assumes "2 \<le> card {m. m < MAX_MAPPINGS \<and> P m}"
  obtains m1 m2 where "m1 < m2" "m2 < MAX_MAPPINGS" "P m1" "P m2" "\<And>j. j < m1 \<Longrightarrow> \<not> P j" "\<And>j. j < m2 \<Longrightarrow> j \<noteq> m1 \<Longrightarrow> \<not> P j"
proof -
  let ?S = "{m. m < MAX_MAPPINGS \<and> P m}"
  have "?S \<noteq> {}" using assms by (metis card.empty not_numeral_le_zero)
  then obtain m where m: "m < MAX_MAPPINGS \<and> P m" by blast
  define m1 where "m1 = (LEAST m. m < MAX_MAPPINGS \<and> P m)"
  have m1: "m1 < MAX_MAPPINGS" "P m1" using LeastI [of "\<lambda>m. m < MAX_MAPPINGS \<and> P m", OF m] by (simp_all add: m1_def)
  have b1: "\<not> P j" if "j < m1" for j
    using not_less_Least [of j "\<lambda>m. m < MAX_MAPPINGS \<and> P m"] that m1(1) by (auto simp: m1_def)
  have "?S \<noteq> {m1}" using assms by (metis card_1_singleton_iff numeral_le_one_iff One_nat_def semiring_norm(69))
  then obtain m' where m': "m' < MAX_MAPPINGS \<and> P m' \<and> m' \<noteq> m1" using m1 by blast
  define m2 where "m2 = (LEAST m. m < MAX_MAPPINGS \<and> P m \<and> m \<noteq> m1)"
  have m2: "m2 < MAX_MAPPINGS \<and> P m2 \<and> m2 \<noteq> m1"
    using LeastI [of "\<lambda>m. m < MAX_MAPPINGS \<and> P m \<and> m \<noteq> m1", OF m'] by (simp add: m2_def)
  have b2: "\<not> P j" if "j < m2" "j \<noteq> m1" for j
    using not_less_Least [of j "\<lambda>m. m < MAX_MAPPINGS \<and> P m \<and> m \<noteq> m1"] that m2 by (auto simp: m2_def)
  have "m1 < m2" using b1 m2 by (metis linorder_neqE_nat)
  then show thesis using that [of m1 m2] m1 m2 b1 b2 by blast
qed

text \<open>The state with a pool: its segment is scheduled for removal and held by the two mappings.\<close>

definition with_pool :: "shm \<Rightarrow> nat \<Rightarrow> nat list \<Rightarrow> nat \<Rightarrow> nat \<Rightarrow> nat \<Rightarrow> (nat \<times> nat) list \<Rightarrow> nat \<Rightarrow> shm" where
  "with_pool s e ids data m1 m2 l t =
     (set_in_use ids 1 s)\<lparr>
      shm_entries := (shm_entries s)(e := \<lparr>refcount = 2, to_remove = 1, seg_length = length ids * huge,
        seg_num_pages = length ids, seg_pages = Some ids\<rparr>),
      shm_mappings := (shm_mappings s)
        (m1 := \<lparr>map_entry = e, map_addr = data, map_length = length ids * huge, map_page_offset = 0, map_num_pages = length ids\<rparr>,
         m2 := \<lparr>map_entry = e, map_addr = data + length ids * huge, map_length = huge, map_page_offset = 0, map_num_pages = 1\<rparr>),
      used_memory := u64 (used_memory s + length ids * huge),
      space := (\<lambda>a. if a = data + length ids * huge then Some (file_at s ids 0)
        else if in_range s data (length ids) a then Some (file_at s ids ((a - data) div huge)) else space s a),
      left_mapped := l, ticks := t\<rparr>"

lemma file_at_cong: "shm_pages s' = shm_pages s \<Longrightarrow> file_at s' = file_at s"
  by (simp add: file_at_def fun_eq_iff)

lemma file_at_in_use [simp]: "file_at (set_in_use ids v s) js j = file_at s js j"
  by (simp add: file_at_def set_in_use_pages)

text \<open>
  What a pool needs: an entry, two mappings and enough pages of its node free; an address space that gives free
  addresses.
\<close>

definition room_for_pool :: "os \<Rightarrow> shm \<Rightarrow> nat \<Rightarrow> nat \<Rightarrow> bool" where
  "room_for_pool os s n node \<longleftrightarrow> shm_ok s \<and> page_size s = huge \<and> registered s \<and> always_maps os \<and>
     gives_free os s (n * huge + huge) \<and> n \<le> length (free_pages s node) \<and>
     (\<exists>e<MAX_ENTRIES. seg_pages (shm_entries s e) = None) \<and>
     2 \<le> card {m. m < MAX_MAPPINGS \<and> map_addr (shm_mappings s m) = 0}"

lemma map_pool_loop_result:
  assumes ok: "shm_ok s" and ps: "page_size s = huge" and os: "always_maps os" and e: "e < MAX_ENTRIES"
    and en: "shm_entries s e = zero_entry\<lparr>seg_length := n * huge, seg_num_pages := n, seg_pages := Some ids\<rparr>" "length ids = n"
    and n: "0 < n" "n \<le> MAX_PAGES" and g: "gives_free os s (n * huge + huge)"
    and two: "2 \<le> card {m. m < MAX_MAPPINGS \<and> map_addr (shm_mappings s m) = 0}"
  obtains data m1 m2 l t u where "map_pool_loop os e (n * huge) s = Some (data, u)" "shm_ok u" "huge dvd data" "0 < data"
    "m1 < m2" "m2 < MAX_MAPPINGS" "map_addr (shm_mappings s m1) = 0" "map_addr (shm_mappings s m2) = 0"
    "data + n * huge + huge < 2 ^ 64" "\<And>a. data \<le> a \<Longrightarrow> a < data + n * huge + huge \<Longrightarrow> space s a = None"
    "u = s\<lparr>
      shm_entries := (shm_entries s)(e := \<lparr>refcount = 2, to_remove = 0, seg_length = n * huge, seg_num_pages = n, seg_pages = Some ids\<rparr>),
      shm_mappings := (shm_mappings s)
        (m1 := \<lparr>map_entry = e, map_addr = data, map_length = n * huge, map_page_offset = 0, map_num_pages = n\<rparr>,
         m2 := \<lparr>map_entry = e, map_addr = data + n * huge, map_length = huge, map_page_offset = 0, map_num_pages = 1\<rparr>),
      used_memory := u64 (used_memory s + n * huge),
      space := (\<lambda>a. if a = data + n * huge then Some (file_at s ids 0)
        else if in_range s data n a then Some (file_at s ids ((a - data) div huge)) else space s a),
      left_mapped := l, ticks := t\<rparr>"
proof -
  have mh: "MINIMUM_POOL_SIZE = huge" by (simp add: MINIMUM_POOL_SIZE_def huge_def)
  have u: "u64 (n * huge + huge) = n * huge + huge" using n by (simp add: u64_def huge_def MAX_PAGES_def)
  have cs: "calls_succeed os" using os unfolding always_maps_def by blast
  obtain data l t0 where f: "mehcached_shm_find_free_address os (n * huge + huge) s = Some (data, s\<lparr>left_mapped := l, ticks := t0\<rparr>)"
    and d: "huge dvd data" "0 < data" "data + (n * huge + huge) < 2 ^ 64"
      "\<And>a. data \<le> a \<Longrightarrow> a < data + (n * huge + huge) \<Longrightarrow> space s a = None"
    by (rule find_free_result [OF ps os g]) blast
  obtain m1 m2 where m: "m1 < m2" "m2 < MAX_MAPPINGS" "map_addr (shm_mappings s m1) = 0" "map_addr (shm_mappings s m2) = 0"
    "\<And>j. j < m1 \<Longrightarrow> map_addr (shm_mappings s j) \<noteq> 0" "\<And>j. j < m2 \<Longrightarrow> j \<noteq> m1 \<Longrightarrow> map_addr (shm_mappings s j) \<noteq> 0"
    by (rule two_free_mappings [OF two]) blast
  have nb: "n * huge < 2 ^ 62" using n by (simp add: huge_def MAX_PAGES_def)
  define s1 where "s1 = s\<lparr>left_mapped := l, ticks := t0\<rparr>"
  have s1: "shm_ok s1" using ok seg_core_cong(1,2) [of s1 s] by (simp add: shm_ok_def s1_def)
  have pz: "page_size s1 = huge" by (simp add: s1_def ps)
  have o1: "owned s1 e = ids" by (simp add: owned_def entry_pages_def s1_def en)
  have p1: "seg_pages (shm_entries s1 e) \<noteq> None" "data \<noteq> 0" "page_size s1 dvd data" "n * page_size s1 \<le> seg_length (shm_entries s1 e)"
    "n * page_size s1 < 2 ^ 62" "data + n * page_size s1 < 2 ^ 64" "m1 < MAX_MAPPINGS" "map_addr (shm_mappings s1 m1) = 0"
    "\<And>j. j < m1 \<Longrightarrow> map_addr (shm_mappings s1 j) \<noteq> 0"
    unfolding pz using d(1-3) m nb by (simp_all add: s1_def en)
  obtain t1 where r1: "mehcached_shm_map os e data 0 (n * huge) s1 = Some (True, s1\<lparr>
      shm_entries := (shm_entries s1)(e := (shm_entries s1 e)\<lparr>refcount := refcount (shm_entries s1 e) + 1\<rparr>),
      shm_mappings := (shm_mappings s1)(m1 := \<lparr>map_entry = e, map_addr = data, map_length = n * huge,
        map_page_offset = 0, map_num_pages = n\<rparr>),
      used_memory := (if refcount (shm_entries s1 e) = 0
        then u64 (used_memory s1 + seg_num_pages (shm_entries s1 e) * huge) else used_memory s1),
      space := (\<lambda>a. if in_range s1 data n a then Some (file_at s1 ids ((a - data) div huge)) else space s1 a), ticks := t1\<rparr>)"
    (is "_ = Some (True, ?s2)")
    by (rule map_result [OF s1 os e p1, unfolded pz o1])
  define s2 where "s2 = ?s2"
  have "shm_ok s2"
    using map_ok [OF s1 cs e p1(2), of 0 "n * huge"] r1 nb unfolding s2_def by fastforce
  have pz2: "page_size s2 = huge" and o2: "owned s2 e = ids" by (simp_all add: owned_def entry_pages_def s2_def s1_def en ps)
  have ir: "in_range s2 p 1 a \<longleftrightarrow> a = p" for p a by (simp add: in_range_def)
  have p2: "seg_pages (shm_entries s2 e) \<noteq> None" "data + n * huge \<noteq> 0" "page_size s2 dvd data + n * huge"
    "1 * page_size s2 \<le> seg_length (shm_entries s2 e)"
    "1 * page_size s2 < 2 ^ 62" "data + n * huge + 1 * page_size s2 < 2 ^ 64" "m2 < MAX_MAPPINGS" "map_addr (shm_mappings s2 m2) = 0"
    "\<And>j. j < m2 \<Longrightarrow> map_addr (shm_mappings s2 j) \<noteq> 0"
    unfolding pz2 using d(1-3) m n by (auto simp: s2_def s1_def en huge_def)
  obtain t2 where r2: "mehcached_shm_map os e (data + n * huge) 0 huge s2 = Some (True, s2\<lparr>
      shm_entries := (shm_entries s2)(e := (shm_entries s2 e)\<lparr>refcount := refcount (shm_entries s2 e) + 1\<rparr>),
      shm_mappings := (shm_mappings s2)(m2 := \<lparr>map_entry = e, map_addr = data + n * huge, map_length = huge,
        map_page_offset = 0, map_num_pages = 1\<rparr>),
      used_memory := (if refcount (shm_entries s2 e) = 0
        then u64 (used_memory s2 + seg_num_pages (shm_entries s2 e) * huge) else used_memory s2),
      space := (\<lambda>a. if a = data + n * huge then Some (file_at s2 ids ((a - (data + n * huge)) div huge)) else space s2 a), ticks := t2\<rparr>)"
    (is "_ = Some (True, ?s3)")
    by (rule map_result [OF \<open>shm_ok s2\<close> os e p2, unfolded pz2 o2 ir nat_mult_1])
  define s3 where "s3 = ?s3"
  have ok3: "shm_ok s3"
    using map_ok [OF \<open>shm_ok s2\<close> cs e p2(2), of 0 huge] r2 unfolding s3_def by (fastforce simp: huge_def)
  have u2: "u64 (data + n * huge) = data + n * huge" using d(3) by (simp add: u64_def)
  have lp: "map_pool_loop os e (n * huge) s = Some (data, s3)"
    using f d(2) r1 [folded s2_def] r2 [folded s3_def] unfolding s1_def [symmetric]
    by (subst map_pool_loop.simps) (simp add: mh u u2)
  have s3: "s3 = s\<lparr>
      shm_entries := (shm_entries s)(e := \<lparr>refcount = 2, to_remove = 0, seg_length = n * huge, seg_num_pages = n, seg_pages = Some ids\<rparr>),
      shm_mappings := (shm_mappings s)
        (m1 := \<lparr>map_entry = e, map_addr = data, map_length = n * huge, map_page_offset = 0, map_num_pages = n\<rparr>,
         m2 := \<lparr>map_entry = e, map_addr = data + n * huge, map_length = huge, map_page_offset = 0, map_num_pages = 1\<rparr>),
      used_memory := u64 (used_memory s + n * huge),
      space := (\<lambda>a. if a = data + n * huge then Some (file_at s ids 0)
        else if in_range s data n a then Some (file_at s ids ((a - data) div huge)) else space s a),
      left_mapped := l, ticks := t2\<rparr>"
    using file_at_cong [of s2 s] file_at_cong [of s1 s] in_range_frame [of s1 s]
    by (intro shm.equality) (simp_all add: s3_def s2_def s1_def en zero_entry_def fun_eq_iff)
  show thesis
    by (rule that [OF lp ok3 d(1,2) m(1-4) _ _ s3]) (use d(3,4) in \<open>simp_all add: add.assoc\<close>)
qed

lemma schedule_remove_referenced:
  assumes lock: "state_lock s = 0" and e: "e < MAX_ENTRIES" "seg_pages (shm_entries s e) \<noteq> None" "refcount (shm_entries s e) \<noteq> 0"
  shows "mehcached_shm_schedule_remove e s =
    Some (True, s\<lparr>shm_entries := (shm_entries s)(e := (shm_entries s e)\<lparr>to_remove := 1\<rparr>)\<rparr>)"
  using assms by (auto simp: mehcached_shm_schedule_remove_def mehcached_shm_lock_def mehcached_shm_unlock_def
      mehcached_shm_check_remove_def Let_def)

lemma map_pool_result:
  assumes room: "room_for_pool os s n (if node = 2 ^ 64 - 1 then 0 else node)" and n: "0 < n"
  defines "e \<equiv> first_index (\<lambda>e. seg_pages (shm_entries s e) = None) MAX_ENTRIES 0"
  defines "ids \<equiv> take n (free_pages s (if node = 2 ^ 64 - 1 then 0 else node))"
  obtains data m1 m2 l t where "map_pool os (n * huge) node s = Some (data, with_pool s e ids data m1 m2 l t)"
    "shm_ok (with_pool s e ids data m1 m2 l t)" "huge dvd data" "0 < data" "m1 < m2" "m2 < MAX_MAPPINGS"
    "map_addr (shm_mappings s m1) = 0" "map_addr (shm_mappings s m2) = 0"
    "data + n * huge + huge < 2 ^ 64" "\<And>a. data \<le> a \<Longrightarrow> a < data + n * huge + huge \<Longrightarrow> space s a = None"
proof -
  define nd where "nd = (if node = 2 ^ 64 - 1 then 0 else node)"
  have ok: "shm_ok s" and ps: "page_size s = huge" and os: "always_maps os" and g: "gives_free os s (n * huge + huge)"
    and fp: "n \<le> length (free_pages s nd)" and two: "2 \<le> card {m. m < MAX_MAPPINGS \<and> map_addr (shm_mappings s m) = 0}"
    using room by (simp_all add: room_for_pool_def nd_def)
  have cs: "calls_succeed os" using os unfolding always_maps_def by blast
  obtain e0 where "e0 < MAX_ENTRIES" "seg_pages (shm_entries s e0) = None" using room unfolding room_for_pool_def by blast
  then have e: "e < MAX_ENTRIES" "seg_pages (shm_entries s e) = None"
    using first_index_exists [of "\<lambda>e. seg_pages (shm_entries s e) = None" e0 MAX_ENTRIES]
      first_index_found [of "\<lambda>e. seg_pages (shm_entries s e) = None" MAX_ENTRIES 0] unfolding e_def by simp_all
  have z: "shm_entries s e = zero_entry" using ok e by (simp add: shm_ok_def free_entry)
  have ids: "ids = take n (free_pages s nd)" "length ids = n" using fp by (simp_all add: ids_def nd_def)
  have "length (free_pages s nd) \<le> MAX_PAGES" unfolding free_pages_def by (metis diff_zero length_filter_le length_upt)
  then have nm: "n \<le> MAX_PAGES" using fp by simp
  then have len: "n * huge \<le> 2 ^ 60" by (simp add: huge_def MAX_PAGES_def)
  have ceil: "(n * huge + (page_size s - 1)) div page_size s = n"
    unfolding ps by (rule div_nat_eqI) (simp_all add: huge_def)
  define s1 where "s1 = set_in_use ids 1 ((tick s)\<lparr>shm_entries := (shm_entries s)(e := zero_entry
    \<lparr>seg_length := n * huge, seg_num_pages := n, seg_pages := Some ids\<rparr>)\<rparr>)"
  have al: "mehcached_shm_alloc os (n * huge) node s = Some (e, s1)"
    using alloc_result [OF ok cs len, of node] e(1) fp unfolding ceil e_def [symmetric] nd_def [symmetric] s1_def ids(1) by simp
  have s1: "shm_ok s1" by (rule alloc_ok(1) [OF ok cs len al])
  have f1: "page_size s1 = huge" "shm_entries s1 e = zero_entry\<lparr>seg_length := n * huge, seg_num_pages := n, seg_pages := Some ids\<rparr>"
    "shm_mappings s1 = shm_mappings s" "space s1 = space s" by (simp_all add: s1_def ps)
  have g1: "gives_free os s1 (n * huge + huge)" using g by (simp add: gives_free_def f1 ps)
  obtain data m1 m2 l t u where lp: "map_pool_loop os e (n * huge) s1 = Some (data, u)" "shm_ok u" "huge dvd data" "0 < data"
    "m1 < m2" "m2 < MAX_MAPPINGS" "map_addr (shm_mappings s m1) = 0" "map_addr (shm_mappings s m2) = 0"
    "data + n * huge + huge < 2 ^ 64" "\<And>a. data \<le> a \<Longrightarrow> a < data + n * huge + huge \<Longrightarrow> space s a = None"
    and u: "u = s1\<lparr>
      shm_entries := (shm_entries s1)(e := \<lparr>refcount = 2, to_remove = 0, seg_length = n * huge, seg_num_pages = n, seg_pages = Some ids\<rparr>),
      shm_mappings := (shm_mappings s)
        (m1 := \<lparr>map_entry = e, map_addr = data, map_length = n * huge, map_page_offset = 0, map_num_pages = n\<rparr>,
         m2 := \<lparr>map_entry = e, map_addr = data + n * huge, map_length = huge, map_page_offset = 0, map_num_pages = 1\<rparr>),
      used_memory := u64 (used_memory s1 + n * huge),
      space := (\<lambda>a. if a = data + n * huge then Some (file_at s1 ids 0)
        else if in_range s1 data n a then Some (file_at s1 ids ((a - data) div huge)) else space s a),
      left_mapped := l, ticks := t\<rparr>"
    by (rule map_pool_loop_result [OF s1 f1(1) os e(1) f1(2) ids(2) n nm g1, unfolded f1, OF two]) blast
  let ?w = "with_pool s e ids data m1 m2 l t"
  have "mehcached_shm_schedule_remove e u = Some (True, u\<lparr>shm_entries := (shm_entries u)(e := (shm_entries u e)\<lparr>to_remove := 1\<rparr>)\<rparr>)"
    by (rule schedule_remove_referenced) (use lp(2) e in \<open>simp_all add: u shm_ok_def\<close>)
  moreover have "u\<lparr>shm_entries := (shm_entries u)(e := (shm_entries u e)\<lparr>to_remove := 1\<rparr>)\<rparr> = ?w"
  proof -
    have fa: "file_at s1 = file_at s" by (simp add: s1_def file_at_def set_in_use_pages fun_eq_iff)
    have pg: "shm_pages s1 = shm_pages (set_in_use ids 1 s)" by (simp add: s1_def set_in_use_def)
    have ir: "in_range s1 = in_range s" by (rule in_range_frame) (simp add: s1_def)
    show ?thesis unfolding u with_pool_def fa ir ids(2)
      by (intro shm.equality) (simp_all add: pg, simp_all add: s1_def)
  qed
  ultimately have sr: "mehcached_shm_schedule_remove e u = Some (True, ?w)" by simp
  have "shm_ok ?w" using schedule_remove_ok [OF lp(2) e(1)] sr by fastforce
  moreover have "map_pool os (n * huge) node s = Some (data, ?w)"
    using al lp(1) sr e(1) by (simp add: map_pool_def MAX_ENTRIES_def)
  ultimately show thesis using that lp(3-10) by blast
qed

lemma pool_free_result:
  assumes ok: "shm_ok (with_pool s e ids data m1 m2 l t)" and s: "shm_ok s" "page_size s = huge" "registered s"
    and e: "shm_entries s e = zero_entry" and n: "0 < length ids"
    and ids: "\<And>i. i \<in> set ids \<Longrightarrow> pg_in_use (shm_pages s i) = 0"
    and d: "0 < data" "data + length ids * huge + huge < 2 ^ 64"
      "\<And>a. data \<le> a \<Longrightarrow> a < data + length ids * huge + huge \<Longrightarrow> space s a = None"
    and m: "m1 < m2" "m2 < MAX_MAPPINGS" "map_addr (shm_mappings s m1) = 0" "map_addr (shm_mappings s m2) = 0"
  shows "mehcached_pool_free data (length ids * huge) (with_pool s e ids data m1 m2 l t) =
    Some (s\<lparr>used_memory := u64 (used_memory s + length ids * huge), left_mapped := l, ticks := t\<rparr>)"
proof -
  let ?w = "with_pool s e ids data m1 m2 l t" and ?n = "length ids" and ?q = "data + length ids * huge"
  have h0: "0 < huge" by (simp add: huge_def)
  have pw: "page_size ?w = huge" "to_remove (shm_entries ?w e) = 1" "refcount (shm_entries ?w e) = 2" by (simp_all add: with_pool_def s(2))
  have away: "map_addr (shm_mappings s j) \<noteq> a" if "j < m2" "0 < a" "space s a = None" for j a
  proof
    assume "map_addr (shm_mappings s j) = a"
    moreover have "j < MAX_MAPPINGS" using that(1) m(2) by simp
    ultimately show False using s(3) that(2,3) unfolding registered_def by auto
  qed
  have "space s data = None" "space s ?q = None" using d(3) [of data] d(3) [of ?q] h0 by simp_all
  then have far: "map_addr (shm_mappings s j) \<noteq> data" "map_addr (shm_mappings s j) \<noteq> ?q" if "j < m2" for j
    using away [OF that] d(1) by simp_all
  have r1: "mehcached_shm_unmap data ?w = Some (True, ?w\<lparr>
      shm_entries := (shm_entries ?w)(e := (shm_entries ?w e)\<lparr>refcount := 1\<rparr>),
      shm_mappings := (shm_mappings ?w)(m1 := zero_mapping),
      space := (\<lambda>a. if in_range ?w data ?n a then None else space ?w a)\<rparr>)" (is "_ = Some (True, ?u)")
    by (subst unmap_result [OF ok, of data m1 e "?n * huge" 0 ?n])
      (use d m far pw in \<open>auto simp: with_pool_def\<close>)
  define u where "u = ?u"
  have ou: "shm_ok u" using unmap_ok [OF ok, of data] d(1) r1 unfolding u_def [symmetric] by fastforce
  have pu: "page_size u = huge" "to_remove (shm_entries u e) = 1" "refcount (shm_entries u e) = 1" "owned u e = ids"
    by (simp_all add: u_def with_pool_def s(2) owned_def entry_pages_def)
  have r2: "mehcached_shm_unmap ?q u = Some (True, (set_in_use ids 0 u)\<lparr>used_memory := u64 (used_memory u),
      shm_entries := (shm_entries u)(e := zero_entry), shm_mappings := (shm_mappings u)(m2 := zero_mapping),
      space := (\<lambda>a. if in_range u ?q 1 a then None else space u a)\<rparr>)" (is "_ = Some (True, ?v)")
    by (subst unmap_result [OF ou, of ?q m2 e huge 0 1])
      (use d m far pu in \<open>auto simp: u_def with_pool_def zero_mapping_def\<close>)
  have uq: "u64 ?q = ?q" using d(2) by (simp add: u64_def)
  have z: "shm_mappings s m1 = zero_mapping" "shm_mappings s m2 = zero_mapping"
    using s(1) seg_coreD(4) [of s m1] seg_coreD(4) [of s m2] m by (simp_all add: shm_ok_def mapping_ok_def)
  have ir: "in_range u = in_range s" "in_range ?w = in_range s" using pu(1) pw(1) s(2) by (auto intro!: in_range_frame)
  have "?v = s\<lparr>used_memory := u64 (used_memory s + ?n * huge), left_mapped := l, ticks := t\<rparr>"
  proof (rule shm.equality)
    have "shm_pages ?v i = shm_pages s i" for i
      using ids by (simp add: u_def with_pool_def set_in_use_pages)
    then show "shm_pages ?v = shm_pages (s\<lparr>used_memory := u64 (used_memory s + ?n * huge), left_mapped := l, ticks := t\<rparr>)" by auto
    have "space ?v a = space s a" for a
    proof -
      have "space s a = None" if r: "in_range s data ?n a"
      proof -
        obtain j where j: "j < ?n" "a = data + j * huge" using r by (auto simp: in_range_def s(2))
        then have "j * huge < ?n * huge" using h0 by simp
        then have "data \<le> a" "a < data + ?n * huge + huge" unfolding j(2) by linarith+
        then show ?thesis by (rule d(3))
      qed
      moreover have "space s ?q = None" using d(3) h0 by simp
      ultimately show ?thesis by (auto simp: ir, auto simp: in_range_def u_def with_pool_def)
    qed
    then show "space ?v = space (s\<lparr>used_memory := u64 (used_memory s + ?n * huge), left_mapped := l, ticks := t\<rparr>)" by auto
  qed (use z e in \<open>auto simp: u_def with_pool_def u64_def\<close>)
  then show ?thesis using r1 [folded u_def] r2 by (simp add: mehcached_pool_free_def uq)
qed

subsection \<open>The ring\<close>

text \<open>
  The pages of the pool, and the first one again behind them, are mapped from \<open>data\<close> on, and hold the data of the
  circular pool.
\<close>

definition ring_files :: "shm \<Rightarrow> nat \<Rightarrow> string list \<Rightarrow> bool" where
  "ring_files s data fs \<longleftrightarrow> page_size s = huge \<and> huge dvd data \<and> distinct fs \<and> fs \<noteq> [] \<and>
     (\<forall>j\<le>length fs. space s (data + j * huge) = Some (fs ! (j mod length fs)))"

definition pool_ring :: "shm \<Rightarrow> nat \<Rightarrow> pool \<Rightarrow> bool" where
  "pool_ring s data p \<longleftrightarrow> (\<exists>fs. ring_files s data fs \<and> pool_size p = length fs * huge \<and>
     (\<forall>i<pool_size p. pool_data p i = files s (fs ! (i div huge)) (i mod huge)))"

lemma huge_pos [simp]: "0 < huge" "huge \<noteq> 0"
  by (simp_all add: huge_def)

lemma ring_address:
  assumes "ring_files s data fs" "i < length fs * huge + huge"
  shows "(data + i) mod page_size s = i mod huge" "space s (page_of s (data + i)) = Some (fs ! (i div huge mod length fs))"
proof -
  obtain q where q: "data = huge * q" and ps: "page_size s = huge" using assms(1) unfolding ring_files_def by (auto elim: dvdE)
  show m: "(data + i) mod page_size s = i mod huge" by (simp add: q ps)
  have "data + i - i mod huge = data + i div huge * huge" by (simp add: minus_mod_eq_div_mult [symmetric])
  moreover have "i div huge \<le> length fs" using assms(2) by (simp add: div_less_iff_less_mult flip: less_Suc_eq_le)
  ultimately show "space s (page_of s (data + i)) = Some (fs ! (i div huge mod length fs))"
    using assms(1) m unfolding page_of_def ring_files_def by simp
qed

lemma ring_index: "i mod (n * huge) div huge = i div huge mod n" "i mod (n * huge) mod huge = i mod huge"
  by (simp_all add: mult.commute [of n] mod_mult2_eq)

lemma ring_byte:
  assumes r: "ring_files s data fs" and i: "i < length fs * huge + huge"
    and d: "\<forall>i<length fs * huge. f i = files s (fs ! (i div huge)) (i mod huge)"
  shows "mem_byte s (data + i) = Some (f (i mod (length fs * huge)))"
proof -
  have "i mod (length fs * huge) < length fs * huge" using r by (simp add: ring_files_def)
  then show ?thesis using d ring_address [OF r i] by (simp add: mem_byte_def ring_index)
qed

lemma mem_load_eq: "(\<And>j. j < k \<Longrightarrow> mem_byte s (a + j) = Some (f j)) \<Longrightarrow> mem_load s a k = Some (map f [0..<k])"
proof (induction k arbitrary: a f)
  case (Suc k)
  have "mem_load s (Suc a) k = Some (map (f \<circ> Suc) [0..<k])"
    by (rule Suc.IH) (use Suc.prems [of "Suc _"] in simp)
  moreover have "[0..<Suc k] = 0 # map Suc [0..<k]" by (metis map_Suc_upt upt_conv_Cons zero_less_Suc)
  ultimately show ?case using Suc.prems [of 0] by (simp del: upt_Suc)
qed simp

text \<open>One more byte of a store is one place further in the ring.\<close>

lemma ring_distance:
  assumes "i < n" "x < (n :: nat)"
  shows "(i + (n - x)) mod n = (if x \<le> i then i - x else i + n - x)"
proof (cases "x \<le> i")
  case True
  then have "i + (n - x) = (i - x) + n" using assms by simp
  then have "(i + (n - x)) mod n = (i - x) mod n" by (simp only: mod_add_self2)
  then show ?thesis using True assms by simp
qed (use assms in simp)

lemma ring_step:
  assumes "0 < (n :: nat)" "i < n"
  shows "(i + (n - Suc a mod n)) mod n = (if (i + (n - a mod n)) mod n = 0 then n - 1 else (i + (n - a mod n)) mod n - 1)"
proof -
  have r: "a mod n < n" using assms(1) by simp
  note v = ring_distance [OF assms(2)]
  show ?thesis
  proof (cases "Suc (a mod n) = n")
    case True
    then have "Suc a mod n = 0" by (simp add: mod_Suc)
    moreover have "a mod n = n - 1" using True by simp
    ultimately show ?thesis using v [OF r] v [of 0] assms by auto
  next
    case False
    then have "Suc a mod n = Suc (a mod n)" by (simp add: mod_Suc)
    moreover have "Suc (a mod n) < n" using r False by simp
    ultimately show ?thesis unfolding v [OF r] using v [of "Suc (a mod n)"] assms r by (simp; linarith)
  qed
qed

lemma ring_store:
  assumes "ring_files s data fs" "a + length bs \<le> length fs * huge + huge" "length bs \<le> length fs * huge"
    "\<forall>i<length fs * huge. f i = files s (fs ! (i div huge)) (i mod huge)"
  shows "\<exists>fl. mem_store s (data + a) bs = Some (s\<lparr>files := fl\<rparr>) \<and> (\<forall>i<length fs * huge.
    fl (fs ! (i div huge)) (i mod huge) =
      (let j = (i + (length fs * huge - a mod (length fs * huge))) mod (length fs * huge) in if j < length bs then bs ! j else f i))"
  using assms
proof (induction bs arbitrary: a s f)
  case Nil
  show ?case using Nil.prems(4) by (intro exI [of _ "files s"]) simp
next
  case (Cons b bs)
  let ?N = "length fs * huge"
  let ?p = "fs ! (a div huge mod length fs)"
  let ?s = "s\<lparr>files := (files s)(?p := (files s ?p)(a mod huge := b))\<rparr>"
  have N: "0 < ?N" using Cons.prems(1) by (simp add: ring_files_def)
  have a: "a < ?N + huge" using Cons.prems(2) by simp
  note ad = ring_address [OF Cons.prems(1) a]
  have rf: "ring_files ?s data fs" using Cons.prems(1) by (simp add: ring_files_def)
  have upd: "files ?s (fs ! (i div huge)) (i mod huge) = (if i = a mod ?N then b else files s (fs ! (i div huge)) (i mod huge))"
    if "i < ?N" for i
  proof -
    have l: "i div huge < length fs" using that by (simp add: div_less_iff_less_mult)
    have l': "a div huge mod length fs < length fs" using Cons.prems(1) by (simp add: ring_files_def)
    have "fs ! (i div huge) = ?p \<longleftrightarrow> i div huge = a div huge mod length fs"
      using Cons.prems(1) l l' unfolding ring_files_def by (simp add: nth_eq_iff_index_eq)
    moreover have "i = a mod ?N \<longleftrightarrow> i div huge = a div huge mod length fs \<and> i mod huge = a mod huge"
      using ring_index [of a "length fs"] by (metis div_mult_mod_eq)
    ultimately show ?thesis by auto
  qed
  have st: "mem_store s (data + a) (b # bs) = mem_store ?s (data + Suc a) bs" using ad by simp
  define g where "g = (\<lambda>i. if i = a mod ?N then b else f i)"
  have "\<forall>i<?N. g i = files ?s (fs ! (i div huge)) (i mod huge)" using upd Cons.prems(4) by (simp add: g_def)
  from Cons.IH [OF rf _ _ this, of "Suc a"] Cons.prems(2,3)
  obtain fl where fl: "mem_store ?s (data + Suc a) bs = Some (?s\<lparr>files := fl\<rparr>)"
    "\<And>i. i < ?N \<Longrightarrow> fl (fs ! (i div huge)) (i mod huge) =
      (let j = (i + (?N - Suc a mod ?N)) mod ?N in if j < length bs then bs ! j else g i)" by auto
  have "fl (fs ! (i div huge)) (i mod huge) = (let j = (i + (?N - a mod ?N)) mod ?N in if j < length (b # bs) then (b # bs) ! j else f i)"
    if i: "i < ?N" for i
  proof -
    have z: "(i + (?N - a mod ?N)) mod ?N = 0 \<longleftrightarrow> i = a mod ?N"
    proof -
      have "a mod ?N < ?N" using N by simp
      from ring_distance [OF i this] this show ?thesis using i by auto
    qed
    show ?thesis unfolding fl(2) [OF i] ring_step [OF N i] using z Cons.prems(3)
      by (auto simp: g_def Let_def nth_Cons')
  qed
  then show ?case using st fl(1) by (intro exI [of _ fl]) simp
qed

subsection \<open>Properties\<close>


definition demo_ring :: shm where
  "demo_ring = demo_shm\<lparr>space := (\<lambda>a. if a = 10485760 \<or> a = 12582912 then Some ''a'' else None)\<rparr>"

definition demo_pool :: pool where
  "demo_pool = \<lparr>pool_mode = 0, pool_lock = 0, pool_data = (\<lambda>i. 0), pool_size = 2097152, pool_mask = 2097151, head = 0, tail = 0\<rparr>"

lemma demo_pool_ring: "pool_ring demo_ring 10485760 demo_pool"
proof -
  have "ring_files demo_ring 10485760 [''a'']"
    by (auto simp: ring_files_def demo_ring_def demo_shm_def huge_def le_Suc_eq)
  then show ?thesis
    unfolding pool_ring_def by (intro exI [of _ "[''a'']"]) (simp add: demo_pool_def demo_ring_def demo_shm_def huge_def)
qed


definition distinct_files :: "shm \<Rightarrow> bool" where
  "distinct_files s \<longleftrightarrow> inj_on (\<lambda>i. pg_path (shm_pages s i)) {i. i < MAX_PAGES \<and> pg_addr (shm_pages s i) \<noteq> 0}"

lemma with_pool_ring:
  assumes df: "distinct_files s" and ps: "page_size s = huge" and d: "huge dvd data"
    and ids: "distinct ids" "ids \<noteq> []" "\<And>i. i \<in> set ids \<Longrightarrow> i < MAX_PAGES \<and> pg_addr (shm_pages s i) \<noteq> 0"
    and p: "pool_size p = length ids * huge" and w: "w = with_pool s e ids data m1 m2 l t"
  shows "pool_ring w data (p\<lparr>pool_data := pool_view w data\<rparr>)"
proof -
  define fs where "fs = map (\<lambda>i. pg_path (shm_pages s i)) ids"
  have fa: "file_at s ids j = fs ! j" if "j < length ids" for j using that by (simp add: fs_def file_at_def)
  have l: "length fs = length ids" "fs \<noteq> []" using ids(2) by (simp_all add: fs_def)
  have "distinct fs" unfolding fs_def distinct_map
    using ids(1,3) df unfolding distinct_files_def by (auto elim!: inj_on_subset)
  moreover have "space w (data + j * huge) = Some (fs ! (j mod length fs))" if "j \<le> length fs" for j
  proof (cases "j = length fs")
    case True
    then show ?thesis using l fa [of 0] ids(2) by (simp add: w with_pool_def)
  next
    case False
    then have j: "j < length ids" using that l by simp
    then have "data + j * huge \<noteq> data + length ids * huge" by simp
    moreover have "in_range s data (length ids) (data + j * huge)" using j ps by (auto simp: in_range_def)
    ultimately show ?thesis using j l fa [OF j] by (simp add: w with_pool_def)
  qed
  ultimately have r: "ring_files w data fs" using l ps d by (simp add: ring_files_def w with_pool_def)
  have "pool_view w data i = files w (fs ! (i div huge)) (i mod huge)" if "i < length fs * huge" for i
  proof -
    have "i div huge < length fs" using that by (simp add: div_less_iff_less_mult)
    then show ?thesis using ring_address [OF r, of i] that by (simp add: pool_view_def mem_byte_def)
  qed
  then show ?thesis unfolding pool_ring_def using r p l by (intro exI [of _ fs]) simp
qed

lemma next_power_of_two_from_some: "next_power_of_two_from s v = Some x \<Longrightarrow> \<exists>k. x = 2 ^ k"
proof (induction s v rule: next_power_of_two_from.induct)
  case (1 s v)
  then show ?case by (cases "64 \<le> s"; cases "2 ^ s < v") (auto simp: next_power_of_two_from.simps [of s v])
qed

text \<open>C22. With room for it (an entry, two mappings and pages of the node free) the pool gets its memory: the set-up returns, the pages
  form the ring of C4, and the segments stay well formed. Freeing the pool afterwards gives back every page, entry, mapping and
  address; but the count of used memory, which grew by the size of the pool, never goes down again.
\<close>

theorem pool_pages_roundtrip:
  assumes room: "room_for_pool os s n (if node = 2 ^ 64 - 1 then 0 else node)" and df: "distinct_files s"
    and init: "mehcached_pool_init (Some (\<lambda>i. 0)) size_arg r w = Some p0" and n: "pool_size p0 = n * huge"
  shows "\<exists>data p s'. pool_init_on os size_arg r w node s = Some (data, p, s') \<and> p = p0\<lparr>pool_data := pool_data p\<rparr> \<and>
    pool_ring s' data p \<and> shm_ok s' \<and> mehcached_shm_get_memuse s' = u64 (mehcached_shm_get_memuse s + pool_size p) \<and>
    (\<exists>l t. mehcached_pool_free data (pool_size p) s' =
      Some (s\<lparr>used_memory := mehcached_shm_get_memuse s', left_mapped := l, ticks := t\<rparr>))"
proof -
  define nd where "nd = (if node = 2 ^ 64 - 1 then 0 else node)"
  define e where "e = first_index (\<lambda>e. seg_pages (shm_entries s e) = None) MAX_ENTRIES 0"
  define ids where "ids = take n (free_pages s nd)"
  have ok: "shm_ok s" and ps: "page_size s = huge" and reg: "registered s" and fp: "n \<le> length (free_pages s nd)"
    using room by (simp_all add: room_for_pool_def nd_def)
  have "0 < pool_size p0"
    using init by (auto simp: mehcached_pool_init_def mehcached_next_power_of_two_def Let_def
        dest!: next_power_of_two_from_some split: if_splits bind_splits)
  then have n0: "0 < n" using n by (cases n) simp_all
  have li: "length ids = n" "ids \<noteq> []" using fp n0 by (auto simp: ids_def)
  have mem: "i < MAX_PAGES" "pg_addr (shm_pages s i) \<noteq> 0" "pg_in_use (shm_pages s i) = 0" if "i \<in> set ids" for i
    using in_set_takeD [of i n "free_pages s nd"] that by (simp_all add: ids_def free_pages_facts(2) available_def)
  have e: "shm_entries s e = zero_entry"
  proof -
    obtain e0 where "e0 < MAX_ENTRIES" "seg_pages (shm_entries s e0) = None" using room unfolding room_for_pool_def by blast
    then have "e < MAX_ENTRIES" "seg_pages (shm_entries s e) = None"
      using first_index_exists [of "\<lambda>e. seg_pages (shm_entries s e) = None" e0 MAX_ENTRIES]
        first_index_found [of "\<lambda>e. seg_pages (shm_entries s e) = None" MAX_ENTRIES 0] unfolding e_def by simp_all
    then show ?thesis using ok by (simp add: shm_ok_def free_entry)
  qed
  obtain data m1 m2 l t where mp: "map_pool os (n * huge) node s = Some (data, with_pool s e ids data m1 m2 l t)"
    "shm_ok (with_pool s e ids data m1 m2 l t)" "huge dvd data" "0 < data" "m1 < m2" "m2 < MAX_MAPPINGS"
    "map_addr (shm_mappings s m1) = 0" "map_addr (shm_mappings s m2) = 0"
    "data + n * huge + huge < 2 ^ 64" "\<And>a. data \<le> a \<Longrightarrow> a < data + n * huge + huge \<Longrightarrow> space s a = None"
    by (rule map_pool_result [OF room n0]) (simp add: e_def ids_def nd_def)
  let ?w = "with_pool s e ids data m1 m2 l t"
  let ?p = "p0\<lparr>pool_data := pool_view ?w data\<rparr>"
  have "pool_init_on os size_arg r w node s = Some (data, ?p, ?w)" using init mp(1) n by (simp add: pool_init_on_def)
  moreover have "pool_ring ?w data ?p"
    by (rule with_pool_ring [OF df ps mp(3) _ li(2) _ _ refl]) (use mem li n in \<open>simp_all add: ids_def free_pages_facts(1)\<close>)
  moreover have um: "used_memory ?w = u64 (used_memory s + n * huge)" by (simp add: with_pool_def li)
  moreover have "mehcached_pool_free data (n * huge) ?w = Some (s\<lparr>used_memory := u64 (used_memory s + n * huge), left_mapped := l, ticks := t\<rparr>)"
    using pool_free_result [OF mp(2) ok ps reg e] mem(3) n0 mp li by simp
  ultimately show ?thesis using mp(2) n by (auto simp: mehcached_shm_get_memuse_def)
qed

theorem pool_pages_roundtrip_witness:
  "\<exists>data p s'. pool_init_on demo_os 1000000 True True 0 demo_shm = Some (data, p, s') \<and> pool_ring s' data p \<and>
    mehcached_shm_get_memuse s' = 2097152 \<and>
    (\<exists>l t. mehcached_pool_free data (pool_size p) s' = Some (demo_shm\<lparr>used_memory := 2097152, left_mapped := l, ticks := t\<rparr>))"
proof -
  have fp: "0 \<in> set (free_pages demo_shm 0)"
    by (simp add: free_pages_facts available_def demo_shm_def MAX_PAGES_def)
  then have l: "1 \<le> length (free_pages demo_shm 0)" by (cases "free_pages demo_shm 0") simp_all
  have "{m. m < MAX_MAPPINGS \<and> map_addr (shm_mappings demo_shm m) = 0} = {..<MAX_MAPPINGS}"
    by (auto simp: demo_shm_def zero_mapping_def)
  then have two: "2 \<le> card {m. m < MAX_MAPPINGS \<and> map_addr (shm_mappings demo_shm m) = 0}" by (simp add: MAX_MAPPINGS_def)
  have "registered demo_shm" "always_maps demo_os" "page_size demo_shm = huge"
    by (simp_all add: registered_def demo_shm_def zero_mapping_def always_maps_def calls_succeed_def demo_os_def huge_def)
  moreover have "gives_free demo_os demo_shm (1 * huge + huge)"
    by (auto simp: gives_free_def demo_os_def demo_shm_def huge_def)
  moreover have "\<exists>e<MAX_ENTRIES. seg_pages (shm_entries demo_shm e) = None"
    by (intro exI [of _ 0]) (simp add: demo_shm_def zero_entry_def MAX_ENTRIES_def)
  ultimately have "room_for_pool demo_os demo_shm 1 0"
    unfolding room_for_pool_def using demo_shm_ok l two by blast
  then have room: "room_for_pool demo_os demo_shm 1 (if (0 :: nat) = 2 ^ 64 - 1 then 0 else 0)" by simp
  have df: "distinct_files demo_shm"
  proof (unfold distinct_files_def, rule inj_onI)
    fix i j
    assume "i \<in> {i. i < MAX_PAGES \<and> pg_addr (shm_pages demo_shm i) \<noteq> 0}" "j \<in> {i. i < MAX_PAGES \<and> pg_addr (shm_pages demo_shm i) \<noteq> 0}"
      "pg_path (shm_pages demo_shm i) = pg_path (shm_pages demo_shm j)"
    then show "i = j" by (auto simp: demo_shm_def zero_page_def mehcached_shm_path_inject split: if_splits)
  qed
  have "\<exists>p0. mehcached_pool_init (Some (\<lambda>i. 0)) 1000000 True True = Some p0 \<and> pool_size p0 = 1 * huge"
    by (simp add: mehcached_pool_init_def mehcached_next_power_of_two_def next_power_of_two_from.simps Let_def
        mehcached_shm_adjust_size_def MINIMUM_POOL_SIZE_def ITEM_OFFSET_MASK_def huge_def)
  then obtain p0 where p0: "mehcached_pool_init (Some (\<lambda>i. 0)) 1000000 True True = Some p0" "pool_size p0 = 1 * huge" by blast
  from pool_pages_roundtrip [OF room df p0] obtain data p s' where
    "pool_init_on demo_os 1000000 True True 0 demo_shm = Some (data, p, s')" "p = p0\<lparr>pool_data := pool_data p\<rparr>" "pool_ring s' data p"
    "mehcached_shm_get_memuse s' = u64 (mehcached_shm_get_memuse demo_shm + pool_size p)"
    "\<exists>l t. mehcached_pool_free data (pool_size p) s' = Some (demo_shm\<lparr>used_memory := mehcached_shm_get_memuse s', left_mapped := l, ticks := t\<rparr>)"
    by blast
  moreover from this(2) have "pool_size p = huge" using p0(2) by (metis mult_1 pool.select_convs(4) pool.simps(4) pool.surjective pool.update_convs(3))
  ultimately show ?thesis by (auto simp: huge_def mehcached_shm_get_memuse_def demo_shm_def u64_def)
qed

subsection \<open>A loop that never ends\<close>

text \<open>
  \<open>mehcached_shm_malloc_striped\<close> schedules both segments for removal after its first attempt, also when a mapping failed; once
  the mapped pages are unmapped the segments are gone, and it tries again with their numbers. From then on every
  attempt fails, and as long as addresses are had the function does not return.
\<close>

lemma striped_never_returns:
  assumes "state_lock s = 0" "page_size s = huge" "e0 < MAX_ENTRIES" "e1 < MAX_ENTRIES" "0 < sz" "always_maps os" "gives_free os s sz"
    "seg_pages (shm_entries s e0) = None" "seg_pages (shm_entries s e1) = None"
  shows "striped_loop os e0 e1 sz s = None"
proof -
  define gone where "gone = (\<lambda>os e0 e1 sz s. state_lock s = 0 \<and> page_size s = huge \<and> e0 < MAX_ENTRIES \<and> e1 < MAX_ENTRIES \<and> 0 < sz \<and>
    always_maps os \<and> gives_free os s sz \<and> seg_pages (shm_entries s e0) = None \<and> seg_pages (shm_entries s e1) = None)"
  have refused: "mehcached_shm_map os e p 0 len s = Some (False, s)" if "state_lock s = 0" "e < MAX_ENTRIES" "seg_pages (shm_entries s e) = None"
    for os e p len s
    using that by (auto simp: mehcached_shm_map_def mehcached_shm_lock_def mehcached_shm_unlock_def)
  have removed: "mehcached_shm_schedule_remove e s = Some (False, s)" if "state_lock s = 0" "e < MAX_ENTRIES" "seg_pages (shm_entries s e) = None"
    for e s
    using that by (simp add: mehcached_shm_schedule_remove_def mehcached_shm_lock_def mehcached_shm_unlock_def)
  have "\<not> gone os e0 e1 sz s" if "striped_loop os e0 e1 sz s = Some y" for y
  proof (rule striped_loop.raw_induct [OF _ that])
    fix loop os e0 e1 sz s y
    assume IH: "\<And>os e0 e1 sz s y. loop os e0 e1 sz s = Some y \<Longrightarrow> \<not> gone os e0 e1 sz s"
      and body: "Option.bind (mehcached_shm_find_free_address os sz s) (\<lambda>(base, s).
        if base = 0 then
          Option.bind (mehcached_shm_schedule_remove e0 s) (\<lambda>(_, s).
          Option.bind (mehcached_shm_schedule_remove e1 s) (\<lambda>(_, s). Some (0, s)))
        else
          Option.bind (map_stripes os e0 e1 sz 0 0 0 base s) (\<lambda>(mapped, s).
          Option.bind (mehcached_shm_schedule_remove e0 s) (\<lambda>(_, s).
          Option.bind (mehcached_shm_schedule_remove e1 s) (\<lambda>(_, s).
            if mapped < sz then
              Option.bind (unmap_stripes mapped 0 base s) (\<lambda>s. loop os e0 e1 sz s)
            else
              Option.bind (mem_store s base (le_bytes 8 sz)) (\<lambda>s. Some (u64 (base + 2 * page_size s), s)))))) = Some y"
    show "\<not> gone os e0 e1 sz s"
    proof
      assume g: "gone os e0 e1 sz s"
      then obtain q l t where f: "mehcached_shm_find_free_address os sz s = Some (q, s\<lparr>left_mapped := l, ticks := t\<rparr>)" "0 < q"
        using find_free_result [of s os sz] unfolding gone_def by metis
      let ?s = "s\<lparr>left_mapped := l, ticks := t\<rparr>"
      have "gives_free os ?s sz = gives_free os s sz" by (simp add: gives_free_def)
      then have g': "gone os e0 e1 sz ?s" using g by (simp add: gone_def)
      have "map_stripes os e0 e1 sz 0 0 0 q ?s = Some (0, ?s)"
        using g refused [of ?s e0 os q] by (subst map_stripes.simps) (simp add: gone_def)
      moreover have "unmap_stripes 0 0 q ?s = Some ?s" by (subst unmap_stripes.simps) simp
      ultimately have "loop os e0 e1 sz ?s = Some y"
        using body f g removed [of ?s e0] removed [of ?s e1] by (simp add: gone_def)
      then show False using IH g' by blast
    qed
  qed
  then show ?thesis using assms unfolding gone_def by (cases "striped_loop os e0 e1 sz s") auto
qed

end
