(* ===== verification/Shm_Init.thy ===== *)
theory Shm_Init
  imports Shm_Pool "HOL-Library.Multiset"
begin

section \<open>The set-up of the huge pages: mehcached\_shm\_init\<close>

text \<open>
  \<open>mehcached_shm_init\<close> maps files until it has enough or the system has no more pages, finds out the NUMA node and
  the physical address of every page, sorts the pages by physical address and gives back what exceeds the share of
  a node. The pages obtained are a list, which fills the array from its start. \<^verbatim>\<open>qsort\<close> needs a comparison that is
  consistent; the comparisons of \<^verbatim>\<open>shm.c\<close> are so on different addresses only, so that equal ones are \<open>None\<close>.
\<close>

subsection \<open>The code\<close>

fun strstr :: "string \<Rightarrow> string \<Rightarrow> string option" where
  "strstr [] n = (if n = [] then Some [] else None)"
| "strstr (c # cs) n = (if take (length n) (c # cs) = n then Some (c # cs) else strstr cs n)"

definition scan_zu :: "string \<Rightarrow> (nat \<times> string) option" where
  "scan_zu t = (let (v, rest, _) = strtoul 10 t in if rest = t then None else Some (v, rest))"

text \<open>\<^verbatim>\<open>sscanf(p, " N%zu=%zu", ...)\<close> on the text from the first \<^verbatim>\<open>" N"\<close> of a line; what follows the first blank may be
  blank as well.\<close>

definition numa_field :: "string \<Rightarrow> nat option" where
  "numa_field line = do {
     p \<leftarrow> strstr line '' N'';
     (numa_node, p) \<leftarrow> scan_zu (drop 2 p);
     if char_at p \<noteq> CHR ''='' then None
     else do {
       (page_count, p) \<leftarrow> scan_zu (tl p);
       Some numa_node
     }
   }"

function map_files :: "os \<Rightarrow> nat \<Rightarrow> nat \<Rightarrow> shm \<Rightarrow> shm_page list \<Rightarrow> (shm_page list \<times> shm) option" where
  "map_files os num_pages_to_try page_id s got =
     (if \<not> page_id < num_pages_to_try then Some (got, s)
      else if \<not> os_open os (ticks s) (mehcached_shm_path page_id) then None
      else (case os_mmap os (Suc (ticks s)) (page_size s) of
          None \<Rightarrow> Some (got, tick (tick s))
        | Some p \<Rightarrow> map_files os num_pages_to_try (Suc page_id)
            ((tick (tick s))\<lparr>space := (space s)(p \<mapsto> mehcached_shm_path page_id),
               files := (files s)(mehcached_shm_path page_id := (\<lambda>i. if i < 8 then 0 else files s (mehcached_shm_path page_id) i))\<rparr>)
            (got @ [zero_page\<lparr>pg_path := mehcached_shm_path page_id, pg_addr := p\<rparr>])))"
  by pat_completeness auto
termination
  by (relation "measure (\<lambda>(os, n, i, s, got). n - i)") auto

declare map_files.simps [simp del]

definition qsort_pages :: "(shm_page \<Rightarrow> nat) \<Rightarrow> shm_page list \<Rightarrow> shm_page list option" where
  "qsort_pages key xs = (if distinct (map key xs) then Some (sort_key key xs) else None)"

fun detect_numa :: "string list \<Rightarrow> shm_page list \<Rightarrow> shm_page list option" where
  "detect_numa ls [] = Some []"
| "detect_numa [] (p # ps) = None"
| "detect_numa (l # ls) (p # ps) =
     (if pg_addr p = fst (strtoul 16 l)
      then do { n \<leftarrow> numa_field l; ps \<leftarrow> detect_numa ls ps; Some (p\<lparr>pg_numa := n\<rparr> # ps) }
      else detect_numa ls (p # ps))"

fun find_paddrs :: "os \<Rightarrow> shm_page list \<Rightarrow> shm_page list option" where
  "find_paddrs os [] = Some []"
| "find_paddrs os (p # ps) = do {
     entry \<leftarrow> pagemap os (8 * (pg_addr p div normal_page_size os));
     ps \<leftarrow> find_paddrs os ps;
     Some (p\<lparr>pg_paddr := u64 ((entry AND 0x7fffffffffffff) * normal_page_size os)\<rparr> # ps)
   }"

fun release_surplus :: "nat \<Rightarrow> nat \<Rightarrow> (nat \<Rightarrow> nat) \<Rightarrow> shm_page list \<Rightarrow> shm \<Rightarrow> (shm_page list \<times> shm) option" where
  "release_surplus num_numa_nodes share reserved [] s = Some ([], s)"
| "release_surplus num_numa_nodes share reserved (p # ps) s =
     (if \<not> pg_numa p < num_numa_nodes then None
      else if reserved (pg_numa p) < share then do {
        (ps, s) \<leftarrow> release_surplus num_numa_nodes share (reserved(pg_numa p := Suc (reserved (pg_numa p)))) ps s;
        Some (p # ps, s)
      } else do {
        (ps, s) \<leftarrow> release_surplus num_numa_nodes share reserved ps (munmap_page s (pg_addr p));
        Some (zero_page # ps, s)
      })"

definition pages_of :: "shm_page list \<Rightarrow> nat \<Rightarrow> shm_page" where
  "pages_of ps i = (if i < length ps then ps ! i else zero_page)"

definition mehcached_shm_init :: "os \<Rightarrow> nat \<Rightarrow> nat \<Rightarrow> nat \<Rightarrow> nat \<Rightarrow> shm \<Rightarrow> shm option" where
  "mehcached_shm_init os ps num_numa_nodes num_pages_to_try num_pages_to_reserve s = do {
     p2 \<leftarrow> mehcached_next_power_of_two ps;
     if p2 \<noteq> ps \<or> \<not> 1 \<le> num_numa_nodes \<or> \<not> num_pages_to_try \<le> MAX_PAGES \<or> \<not> num_pages_to_reserve \<le> num_pages_to_try then None
     else do {
       let s = s\<lparr>state_lock := 0, page_size := ps, shm_pages := (\<lambda>i. zero_page), shm_entries := (\<lambda>e. zero_entry),
         shm_mappings := (\<lambda>m. zero_mapping), used_memory := 0\<rparr>;
       (pages, s) \<leftarrow> map_files os num_pages_to_try 0 s [];
       pages \<leftarrow> qsort_pages pg_addr pages;
       lines \<leftarrow> numa_maps os;
       pages \<leftarrow> detect_numa lines pages;
       pages \<leftarrow> find_paddrs os pages;
       pages \<leftarrow> qsort_pages pg_paddr pages;
       (pages, s) \<leftarrow> release_surplus num_numa_nodes (num_pages_to_reserve div num_numa_nodes) (\<lambda>n. 0) pages s;
       Some (s\<lparr>shm_pages := pages_of pages\<rparr>)
     }
   }"

subsection \<open>The pages through the steps\<close>

definition own_pages :: "shm \<Rightarrow> shm_page list \<Rightarrow> bool" where
  "own_pages s ps \<longleftrightarrow> distinct (map pg_path ps) \<and>
     (\<forall>p\<in>set ps. pg_in_use p = 0 \<and> pg_addr p \<noteq> 0 \<and> space s (pg_addr p) = Some (pg_path p))"

lemma map_files_prefix: "map_files os n i s got = Some (ps, s') \<Longrightarrow> \<exists>zs. ps = got @ zs"
proof (induction os n i s got rule: map_files.induct)
  case (1 os n i s got)
  then show ?case
    by (cases "i < n \<and> os_open os (ticks s) (mehcached_shm_path i)"; cases "os_mmap os (Suc (ticks s)) (page_size s)")
      (auto simp: map_files.simps [of os n i s got] split: if_splits)
qed

lemma map_files_result:
  assumes "map_files os n i s got = Some (ps, s')" "\<forall>t len. os_mmap os t len \<noteq> Some 0"
    and "map pg_path got = map mehcached_shm_path [0..<i]" "\<forall>p\<in>set got. pg_in_use p = 0 \<and> pg_addr p \<noteq> 0"
    and "distinct (map pg_addr ps)" "\<forall>p\<in>set got. space s (pg_addr p) = Some (pg_path p)" "i \<le> n"
  shows "own_pages s' ps \<and> (\<exists>sp fl t. s' = s\<lparr>space := sp, files := fl, ticks := t\<rparr>) \<and> length ps \<le> n \<and>
    map pg_path ps = map mehcached_shm_path [0..<length ps]"
  using assms
proof (induction os n i s got rule: map_files.induct)
  case (1 os n i s got)
  note st = map_files.simps [of os n i s got]
  have len: "length got = i" using arg_cong [OF "1.prems"(3), of length] by simp
  have fin: "own_pages s got"
    using "1.prems"(3,4,6) by (auto simp: own_pages_def distinct_map inj_on_def mehcached_shm_path_inject)
  show ?case
  proof (cases "i < n")
    case False
    then have "ps = got" "s' = s" using "1.prems"(1) by (simp_all add: st)
    moreover have "\<exists>sp fl t. s = s\<lparr>space := sp, files := fl, ticks := t\<rparr>"
      by (intro exI [of _ "space s"] exI [of _ "files s"] exI [of _ "ticks s"]) simp
    ultimately show ?thesis using fin len "1.prems"(3,7) by auto
  next
    case True
    have op: "os_open os (ticks s) (mehcached_shm_path i)" using "1.prems"(1) True by (simp add: st split: if_splits)
    show ?thesis
    proof (cases "os_mmap os (Suc (ticks s)) (page_size s)")
      case None
      then have "ps = got" "s' = tick (tick s)" using "1.prems"(1) True op by (simp_all add: st)
      moreover have "\<exists>sp fl t. tick (tick s) = s\<lparr>space := sp, files := fl, ticks := t\<rparr>"
        by (intro exI [of _ "space s"] exI [of _ "files s"] exI [of _ "Suc (Suc (ticks s))"]) (simp add: tick_def)
      moreover have "own_pages (tick (tick s)) got" using fin by (simp add: own_pages_def)
      ultimately show ?thesis using len "1.prems"(3,7) by auto
    next
      case (Some p)
      let ?t = "(tick (tick s))\<lparr>space := (space s)(p \<mapsto> mehcached_shm_path i),
        files := (files s)(mehcached_shm_path i := (\<lambda>j. if j < 8 then 0 else files s (mehcached_shm_path i) j))\<rparr>"
      let ?g = "got @ [zero_page\<lparr>pg_path := mehcached_shm_path i, pg_addr := p\<rparr>]"
      have go: "map_files os n (Suc i) ?t ?g = Some (ps, s')" using "1.prems"(1) True op Some by (simp add: st)
      obtain zs where "ps = ?g @ zs" using map_files_prefix [OF go] by blast
      then have new: "p \<notin> pg_addr ` set got" using "1.prems"(5) by auto
      have "own_pages s' ps \<and> (\<exists>sp fl u. s' = ?t\<lparr>space := sp, files := fl, ticks := u\<rparr>) \<and> length ps \<le> n \<and>
        map pg_path ps = map mehcached_shm_path [0..<length ps]"
        by (rule "1.IH" [OF _ _ Some go])
          (use "1.prems" True op new Some in \<open>auto simp: zero_page_def\<close>)
      then show ?thesis by (auto simp: tick_def)
    qed
  qed
qed

lemma qsort_pages_result:
  assumes "qsort_pages key xs = Some ys"
  shows "set ys = set xs" "mset ys = mset xs" "length ys = length xs" "sorted_wrt (\<lambda>p q. key p < key q) ys"
proof -
  have d: "distinct (map key xs)" "ys = sort_key key xs" using assms by (auto simp: qsort_pages_def split: if_splits)
  show m: "set ys = set xs" "mset ys = mset xs" "length ys = length xs" using d(2) by simp_all
  have "mset (map key ys) = mset (map key xs)" using m(2) by simp
  then have "distinct (map key ys)" using d(1) by (metis mset_eq_imp_distinct_iff)
  moreover have "sorted (map key ys)" using d(2) by simp
  ultimately have "sorted_wrt (<) (map key ys)" by (simp add: strict_sorted_iff)
  then show "sorted_wrt (\<lambda>p q. key p < key q) ys" by (simp add: sorted_wrt_map)
qed

lemma detect_numa_result:
  "detect_numa ls ps = Some qs \<Longrightarrow> map pg_path qs = map pg_path ps \<and> map pg_addr qs = map pg_addr ps \<and> map pg_in_use qs = map pg_in_use ps"
  by (induction ls ps arbitrary: qs rule: detect_numa.induct) (auto split: if_splits bind_splits)

lemma find_paddrs_result:
  "find_paddrs os ps = Some qs \<Longrightarrow> map pg_path qs = map pg_path ps \<and> map pg_addr qs = map pg_addr ps \<and> map pg_in_use qs = map pg_in_use ps"
  by (induction os ps arbitrary: qs rule: find_paddrs.induct) (auto split: bind_splits)

lemma own_pages_cong:
  assumes "map pg_path qs = map pg_path ps" "map pg_addr qs = map pg_addr ps" "map pg_in_use qs = map pg_in_use ps"
  shows "own_pages s qs = own_pages s ps"
proof -
  have l: "length qs = length ps" using arg_cong [OF assms(1), of length] by simp
  have "pg_path (qs ! i) = pg_path (ps ! i) \<and> pg_addr (qs ! i) = pg_addr (ps ! i) \<and> pg_in_use (qs ! i) = pg_in_use (ps ! i)"
    if "i < length ps" for i
    using assms l that by (metis nth_map)
  then show ?thesis using assms(1) l by (auto simp: own_pages_def all_set_conv_all_nth)
qed

lemma own_pages_perm: "mset ps = mset qs \<Longrightarrow> own_pages s ps = own_pages s qs"
  unfolding own_pages_def by (metis mset_eq_imp_distinct_iff mset_eq_setD mset_map)

lemma own_pages_addr: "own_pages s ps \<Longrightarrow> p \<in> set ps \<Longrightarrow> q \<in> set ps \<Longrightarrow> pg_addr p = pg_addr q \<Longrightarrow> p = q"
  unfolding own_pages_def distinct_map by (metis inj_onD option.inject)

lemma release_surplus_result:
  assumes "release_surplus nn share res ps s = Some (qs, s')" "\<forall>p\<in>set ps. pg_addr p \<noteq> 0"
  shows "list_all2 (\<lambda>p q. q = p \<or> q = zero_page) ps qs \<and> (\<forall>p\<in>set ps. pg_numa p < nn) \<and>
    (\<forall>node. filter (\<lambda>p. pg_addr p \<noteq> 0 \<and> pg_numa p = node) qs = take (share - res node) (filter (\<lambda>p. pg_numa p = node) ps)) \<and>
    s' = s\<lparr>space := (\<lambda>a. if \<exists>p. (p, zero_page) \<in> set (zip ps qs) \<and> a = pg_addr p then None else space s a)\<rparr>"
  using assms
proof (induction ps arbitrary: res s qs s')
  case Nil
  then show ?case by simp
next
  case (Cons p ps)
  have a: "pg_addr p \<noteq> 0" "\<forall>p\<in>set ps. pg_addr p \<noteq> 0" using Cons.prems(2) by simp_all
  then have pz: "p \<noteq> zero_page" by (auto simp: zero_page_def)
  have z: "pg_addr zero_page = 0" by (simp add: zero_page_def)
  have nn: "pg_numa p < nn" using Cons.prems(1) by (simp split: if_splits)
  show ?case
  proof (cases "res (pg_numa p) < share")
    case True
    then obtain rs where rs: "release_surplus nn share (res(pg_numa p := Suc (res (pg_numa p)))) ps s = Some (rs, s')" "qs = p # rs"
      using Cons.prems(1) nn by (auto split: bind_splits)
    have sh: "share - res (pg_numa p) = Suc (share - Suc (res (pg_numa p)))" using True by simp
    show ?thesis using Cons.IH [OF rs(1) a(2)] nn a(1) pz sh by (auto simp: rs(2))
  next
    case False
    then obtain rs where rs: "release_surplus nn share res ps (munmap_page s (pg_addr p)) = Some (rs, s')" "qs = zero_page # rs"
      using Cons.prems(1) nn by (auto split: bind_splits)
    have "(\<lambda>a. if \<exists>p. (p, zero_page) \<in> set (zip ps rs) \<and> a = pg_addr p then None else space (munmap_page s (pg_addr p)) a) =
        (\<lambda>a. if \<exists>r. (r, zero_page) \<in> set (zip (p # ps) qs) \<and> a = pg_addr r then None else space s a)"
      by (auto simp: rs(2) munmap_page_def fun_eq_iff)
    moreover have "(munmap_page s (pg_addr p))\<lparr>space := f\<rparr> = s\<lparr>space := f\<rparr>" for f by (simp add: munmap_page_def)
    ultimately show ?thesis using Cons.IH [OF rs(1) a(2)] nn False z by (simp add: rs(2))
  qed
qed

text \<open>C23. When the set-up returns, the segments are well formed and empty, and every page kept is unused, on an existing node and
  mapped at its address. Of the pages that were mapped, sorted by physical address, every node keeps the first ones up to its
  share, in this order; the others are unmapped.
\<close>

theorem shm_init_shares:
  assumes init: "mehcached_shm_init os ps nn try reserve s0 = Some s"
    and addr: "\<forall>t len. os_mmap os t len \<noteq> Some 0" and small: "ps < 2 ^ 48"
  shows "shm_ok s \<and> distinct_files s \<and> registered s \<and> (\<exists>xs. length xs \<le> try \<and>
    mset (map pg_path xs) = mset (map mehcached_shm_path [0..<length xs]) \<and> sorted_wrt (\<lambda>p q. pg_paddr p < pg_paddr q) xs \<and>
    (\<forall>node. filter (\<lambda>p. pg_addr p \<noteq> 0 \<and> pg_numa p = node) (map (shm_pages s) [0..<MAX_PAGES]) =
      take (reserve div nn) (filter (\<lambda>p. pg_numa p = node) xs)) \<and>
    (\<forall>p\<in>set xs. pg_in_use p = 0 \<and> pg_numa p < nn \<and>
      space s (pg_addr p) = (if p \<in> shm_pages s ` {..<MAX_PAGES} then Some (pg_path p) else None)))"
proof -
  let ?s = "s0\<lparr>state_lock := 0, page_size := ps, shm_pages := (\<lambda>i. zero_page), shm_entries := (\<lambda>e. zero_entry),
         shm_mappings := (\<lambda>m. zero_mapping), used_memory := 0\<rparr>"
  obtain a s1 b ls c d xs qs s2 where st: "map_files os try 0 ?s [] = Some (a, s1)" "qsort_pages pg_addr a = Some b"
      "detect_numa ls b = Some c" "find_paddrs os c = Some d" "qsort_pages pg_paddr d = Some xs"
      "release_surplus nn (reserve div nn) (\<lambda>n. 0) xs s1 = Some (qs, s2)" "s = s2\<lparr>shm_pages := pages_of qs\<rparr>"
    and chk: "mehcached_next_power_of_two ps = Some ps" "try \<le> MAX_PAGES"
    using init unfolding mehcached_shm_init_def Let_def by (auto split: bind_splits if_splits prod.splits)
  have da: "distinct (map pg_addr a)" using st(2) by (simp add: qsort_pages_def split: if_splits)
  have mf: "own_pages s1 a" "length a \<le> try" "map pg_path a = map mehcached_shm_path [0..<length a]"
    and fr: "\<exists>sp fl t. s1 = ?s\<lparr>space := sp, files := fl, ticks := t\<rparr>"
    using map_files_result [OF st(1) addr _ _ da] by simp_all
  note q1 = qsort_pages_result [OF st(2)] and q2 = qsort_pages_result [OF st(5)]
  note dn = detect_numa_result [OF st(3)] and fp = find_paddrs_result [OF st(4)]
  have own: "own_pages s1 xs"
    using mf(1) q1(2) q2(2) dn fp own_pages_perm [of b a s1] own_pages_perm [of xs d s1] own_pages_cong [of c b s1] own_pages_cong [of d c s1] by simp
  have paths: "mset (map pg_path xs) = mset (map pg_path a)"
    using q1(2) q2(2) dn fp by (metis mset_map)
  have lx: "length xs = length a" using arg_cong [OF paths, of size] by simp
  have "\<forall>p\<in>set xs. pg_addr p \<noteq> 0" using own by (simp add: own_pages_def)
  note rel = release_surplus_result [OF st(6) this]
  have lq: "length qs = length xs" using rel by (auto dest: list_all2_lengthD)
  have sp: "shm_pages s = pages_of qs" by (simp add: st(7))
  have "map (shm_pages s) [0..<MAX_PAGES] = qs @ replicate (MAX_PAGES - length qs) zero_page"
  proof (rule nth_equalityI)
    show "length (map (shm_pages s) [0..<MAX_PAGES]) = length (qs @ replicate (MAX_PAGES - length qs) zero_page)"
      using lq lx mf(2) chk(2) by simp
  qed (simp add: sp pages_of_def nth_append)
  then have fill: "filter P (map (shm_pages s) [0..<MAX_PAGES]) = filter P qs" if "\<not> P zero_page" for P
    using that by simp
  have zp: "pg_addr zero_page = 0" "pg_in_use zero_page = 0" by (simp_all add: zero_page_def)
  have each: "qs ! i = xs ! i \<or> qs ! i = zero_page" if "i < length xs" for i using rel that by (auto simp: list_all2_conv_all_nth)
  obtain sp0 fl0 t0 where s1: "s1 = ?s\<lparr>space := sp0, files := fl0, ticks := t0\<rparr>" using fr by blast
  have s2: "s2 = s1\<lparr>space := (\<lambda>a. if \<exists>p. (p, zero_page) \<in> set (zip xs qs) \<and> a = pg_addr p then None else space s1 a)\<rparr>"
    using rel by blast
  have spc: "space s a = (if \<exists>p. (p, zero_page) \<in> set (zip xs qs) \<and> a = pg_addr p then None else space s1 a)" for a
    by (simp add: st(7) s2)
  have in_qs: "shm_pages s i = zero_page \<or> i < length xs \<and> shm_pages s i = xs ! i" for i
    using each [of i] lq by (auto simp: sp pages_of_def)
  obtain k where k: "ps = 2 ^ k" using chk(1) next_power_of_two_from_some unfolding mehcached_next_power_of_two_def by blast
  then have "(2 :: nat) ^ k < 2 ^ 48" using small by simp
  then have k48: "k < 48" by (rule power_less_imp_less_exp [rotated]) simp
  have fresh: "page_size s = ps" "state_lock s = 0" "shm_entries s = (\<lambda>e. zero_entry)" "shm_mappings s = (\<lambda>m. zero_mapping)"
    by (simp_all add: st(7) s2 s1)
  have "shm_ok s"
    by (rule fresh_ok [OF _ k48]) (use fresh k own in_qs zp in \<open>auto simp: own_pages_def, metis nth_mem\<close>)
  moreover have "registered s" using fresh(4) by (simp add: registered_def zero_mapping_def)
  moreover have "distinct_files s"
  proof (unfold distinct_files_def, rule inj_onI)
    fix i j
    assume i: "i \<in> {i. i < MAX_PAGES \<and> pg_addr (shm_pages s i) \<noteq> 0}" and j: "j \<in> {i. i < MAX_PAGES \<and> pg_addr (shm_pages s i) \<noteq> 0}"
      and eq: "pg_path (shm_pages s i) = pg_path (shm_pages s j)"
    then have "i < length xs" "j < length xs" "shm_pages s i = xs ! i" "shm_pages s j = xs ! j" using in_qs [of i] in_qs [of j] zp by auto
    then show "i = j" using eq own unfolding own_pages_def by (metis length_map nth_eq_iff_index_eq nth_map)
  qed
  moreover have "space s (pg_addr p) = (if p \<in> shm_pages s ` {..<MAX_PAGES} then Some (pg_path p) else None)" if p: "p \<in> set xs" for p
  proof -
    obtain i where i: "i < length xs" "p = xs ! i" using p by (auto simp: in_set_conv_nth)
    have dx: "distinct xs" using own unfolding own_pages_def by (metis distinct_map)
    have pz: "p \<noteq> zero_page" using own p zp by (auto simp: own_pages_def)
    have kept: "p \<in> shm_pages s ` {..<MAX_PAGES} \<longleftrightarrow> qs ! i = p"
    proof
      assume "p \<in> shm_pages s ` {..<MAX_PAGES}"
      then obtain j where j: "shm_pages s j = p" by auto
      then have "j < length xs" "xs ! j = xs ! i" using in_qs [of j] pz i(2) by auto
      then have "j = i" using dx i(1) by (simp add: nth_eq_iff_index_eq)
      then show "qs ! i = p" using j i(1) lq by (simp add: sp pages_of_def)
    next
      assume "qs ! i = p"
      then have "shm_pages s i = p" using i(1) lq by (simp add: sp pages_of_def)
      moreover have "i < MAX_PAGES" using i(1) lx mf(2) chk(2) by simp
      ultimately show "p \<in> shm_pages s ` {..<MAX_PAGES}" by blast
    qed
    have gone: "(\<exists>r. (r, zero_page) \<in> set (zip xs qs) \<and> pg_addr p = pg_addr r) \<longleftrightarrow> qs ! i = zero_page"
    proof
      assume "\<exists>r. (r, zero_page) \<in> set (zip xs qs) \<and> pg_addr p = pg_addr r"
      then obtain j where j: "j < length xs" "qs ! j = zero_page" "pg_addr p = pg_addr (xs ! j)"
        by (auto simp: in_set_zip lq)
      then have "xs ! j = xs ! i" using own_pages_addr [OF own p, of "xs ! j"] i(2) by simp
      then have "j = i" using dx i(1) j(1) by (simp add: nth_eq_iff_index_eq)
      then show "qs ! i = zero_page" using j(2) by simp
    next
      assume "qs ! i = zero_page"
      then have "(xs ! i, zero_page) \<in> set (zip xs qs)" using i(1) lq by (auto simp: in_set_zip)
      then show "\<exists>r. (r, zero_page) \<in> set (zip xs qs) \<and> pg_addr p = pg_addr r" using i(2) by blast
    qed
    have "space s1 (pg_addr p) = Some (pg_path p)" using own p by (simp add: own_pages_def)
    then show ?thesis unfolding kept spc gone using each [OF i(1)] i(2) pz by auto
  qed
  moreover have "\<forall>node. filter (\<lambda>p. pg_addr p \<noteq> 0 \<and> pg_numa p = node) (map (shm_pages s) [0..<MAX_PAGES]) =
      take (reserve div nn) (filter (\<lambda>p. pg_numa p = node) xs)"
    using rel zp by (subst fill) auto
  moreover have "\<forall>p\<in>set xs. pg_in_use p = 0 \<and> pg_numa p < nn" using own rel by (simp add: own_pages_def)
  moreover have "mset (map pg_path xs) = mset (map mehcached_shm_path [0..<length xs])" using paths mf(3) lx by simp
  ultimately show ?thesis using q2(4) mf(2) lx by (intro conjI exI [of _ xs]) auto
qed

text \<open>Three pages, the second of them with the lowest physical address; two are kept.\<close>

definition demo_boot :: os where
  "demo_boot = \<lparr>os_open = (\<lambda>t f. True), os_mmap = (\<lambda>t n. Some (Suc t * 2097152)), os_mmap_fixed = (\<lambda>t p. True),
     os_malloc = (\<lambda>t n. True),
     numa_maps = Some [''400000 default file=/mnt/huge/mehcached_shm_0 huge dirty=1 N0=1'', ''600000 default'',
       ''800000 default file=/mnt/huge/mehcached_shm_1 huge dirty=1 N0=1'',
       ''c00000 default file=/mnt/huge/mehcached_shm_2 huge dirty=1 N0=1''],
     pagemap = (\<lambda>a. Some (if a = 16384 then 512 else a)), normal_page_size = 4096\<rparr>"

lemma demo_numa_lines:
  "fst (strtoul 16 ''400000 default file=/mnt/huge/mehcached_shm_0 huge dirty=1 N0=1'') = 4194304"
  "fst (strtoul 16 ''600000 default'') = 6291456"
  "fst (strtoul 16 ''800000 default file=/mnt/huge/mehcached_shm_1 huge dirty=1 N0=1'') = 8388608"
  "fst (strtoul 16 ''c00000 default file=/mnt/huge/mehcached_shm_2 huge dirty=1 N0=1'') = 12582912"
  "numa_field ''400000 default file=/mnt/huge/mehcached_shm_0 huge dirty=1 N0=1'' = Some 0"
  "numa_field ''800000 default file=/mnt/huge/mehcached_shm_1 huge dirty=1 N0=1'' = Some 0"
  "numa_field ''c00000 default file=/mnt/huge/mehcached_shm_2 huge dirty=1 N0=1'' = Some 0"
  by (simp_all add: strtoul_def strtoul_base_def digits_def digit_value_def char_at_def isspace_def Let_def numa_field_def scan_zu_def)

lemma demo_boot_returns: "\<exists>s. mehcached_shm_init demo_boot 2097152 1 3 2 demo_shm = Some s"
  by (simp add: mehcached_shm_init_def mehcached_next_power_of_two_def next_power_of_two_from.simps demo_boot_def map_files.simps
      tick_def Let_def qsort_pages_def zero_page_def MAX_PAGES_def u64_def demo_numa_lines demo_shm_def)

theorem shm_init_shares_witness:
  "\<exists>s xs. mehcached_shm_init demo_boot 2097152 1 3 2 demo_shm = Some s \<and> shm_ok s \<and> length xs \<le> 3 \<and>
    filter (\<lambda>p. pg_addr p \<noteq> 0 \<and> pg_numa p = 0) (map (shm_pages s) [0..<MAX_PAGES]) = take 2 (filter (\<lambda>p. pg_numa p = 0) xs)"
proof -
  obtain s where s: "mehcached_shm_init demo_boot 2097152 1 3 2 demo_shm = Some s" using demo_boot_returns by blast
  have a: "\<forall>t len. os_mmap demo_boot t len \<noteq> Some 0" by (simp add: demo_boot_def)
  have b: "(2097152 :: nat) < 2 ^ 48" by simp
  note r = shm_init_shares [OF s a b]
  then obtain xs where "length xs \<le> 3" "\<forall>node. filter (\<lambda>p. pg_addr p \<noteq> 0 \<and> pg_numa p = node) (map (shm_pages s) [0..<MAX_PAGES]) =
      take (2 div 1) (filter (\<lambda>p. pg_numa p = node) xs)" by (elim conjE exE) blast
  then have "length xs \<le> 3 \<and> filter (\<lambda>p. pg_addr p \<noteq> 0 \<and> pg_numa p = 0) (map (shm_pages s) [0..<MAX_PAGES]) =
      take 2 (filter (\<lambda>p. pg_numa p = 0) xs)" by simp
  then show ?thesis using s r by blast
qed

end
