(* ===== verification/Spec2Isabelle.thy ===== *)
theory Spec2Isabelle
  imports Startup Locality Shared_Flows Statistics Lpm Double_Map Cht Mica_Main Shm_Init
begin

text \<open>
  \<^bold>\<open>The program.\<close> queueDPDK polls the receive queues of a programmable network card under different
  queue selection policies and runs two applications over them: \<^verbatim>\<open>src/nf-chain\<close>, a chain of access
  control list, count-min sketch and network address translation, and \<^verbatim>\<open>src/mica\<close>, a key-value
  store; \<^verbatim>\<open>src/locality\<close> lists the flows in the order in which the card delivers them. The development models
  the polling loop, the chain, the containers under it, the store, the locality program and the options of all three.

  \<^bold>\<open>Conventions.\<close> C structs are records, pointers into an array are indices, arrays are lists (long
  ones are functions with their sizes) and an access outside its array, the undefined behaviour of
  C, is \<open>None\<close>. Unsigned arithmetic wraps where the code's does, written with \<open>mod\<close> or at a word
  type. What the code gets from outside (DPDK, the allocator, the clock, the contents of uninitialised
  variables) is an argument of the definitions. Messages and freeing are left out.

  \<^bold>\<open>Theories.\<close>
  \<^item> \<open>Prelude\<close>: unsigned 32 bit arithmetic, checked array access, circular indices.
  \<^item> \<open>Map_Impl\<close>: \<^verbatim>\<open>nf-chain/src/utils/map-impl.c\<close>, open addressing over five arrays; the invariant of
    the chain counters and the effect of every operation on the partial function it stands for.
  \<^item> \<open>Map_Api\<close>: \<^verbatim>\<open>map.c\<close> and the power of two variant \<^verbatim>\<open>map-impl-pow2.c\<close>; the locale \<open>index_map\<close> states
    the contract of a bounded map, and its interpretation \<open>hm\<close> discharges it for the C map.
  \<^item> \<open>DChain\<close>: \<^verbatim>\<open>double-chain-impl.c\<close> and \<^verbatim>\<open>double-chain.c\<close>, two linked lists in one array of cells; the
    locale \<open>aging_index\<close> states the contract of an index allocator that knows the oldest index, the
    interpretation \<open>dc\<close> discharges it.
  \<^item> \<open>Vector\<close>: \<^verbatim>\<open>vector.c\<close> and blocks of bytes with checked loads and stores.
  \<^item> \<open>Expirator\<close>: \<^verbatim>\<open>expirator.c\<close>, the release of stale indices together with their keys; the invariant
    \<open>keyed_pool\<close> ties an index allocator, a vector of keys and a map.
  \<^item> \<open>Double_Map\<close>: \<^verbatim>\<open>double-map.c\<close>, values found under two keys, and \<open>expire_items\<close>, which releases its stale
    indices; each of the two maps of keys satisfies \<open>half_inv\<close>, both together \<open>dm_inv\<close>.
  \<^item> \<open>Cht\<close>: \<^verbatim>\<open>cht.c\<close>, a consistent hashing table; the walks of the backends are permutations because
    the height is prime, so that every bucket lists every backend.
  \<^item> \<open>Nat_Flow\<close>: \<^verbatim>\<open>state.c\<close> and \<^verbatim>\<open>nat_flowmanager.c\<close>, the flow table of the NAT, with its invariant
    \<open>nat_inv\<close>.
  \<^item> \<open>Nat_Main\<close>: \<^verbatim>\<open>nat_main.c\<close>, the set-up of the shards and the processing of one packet.
  \<^item> \<open>Sketch\<close>: \<^verbatim>\<open>xxhash64.h\<close> and \<open>count_add\<close> of \<^verbatim>\<open>nf-chain/src/main.c\<close>.
  \<^item> \<open>Acl_Prepare\<close>: \<open>prepare_acl_parameter\<close> of \<^verbatim>\<open>main.c\<close>, the sorting of a burst for the ACL.
  \<^item> \<open>C_Strings\<close>, \<open>Acl_Rules\<close>, \<open>Acl_Files\<close>: \<open>strtoul\<close>, \<open>strtok\<close> and number printing of the C library; the parsers and printers
    of single rules in \<^verbatim>\<open>main.c\<close>; \<open>add_rules\<close>, which loads a rule file in two passes.
  \<^item> \<open>Lcore_Config\<close>: the option \<open>config\<close> of \<^verbatim>\<open>main.c\<close>, its checks and the queue lists of the lcores.
  \<^item> \<open>Nf_Args\<close>: \<open>parse_args\<close> of \<^verbatim>\<open>nf-chain/src/main.c\<close> and of \<^verbatim>\<open>mica/main.c\<close>; \<open>args_ok\<close> is the type of the settings.
  \<^item> \<open>Stop_Packet\<close>: \<open>create_udp_packet\<close> and \<open>create_latency_packet\<close>, byte for byte, against the reader of \<open>Packets\<close>.
  \<^item> \<open>Port_Pairs\<close>, \<open>Locality\<close>: \<^verbatim>\<open>locality/main.c\<close>. \<open>Port_Pairs\<close> has the forwarding table and the ports of the lcores, a
    table of disjoint pairs being its own inverse; \<open>Locality\<close> the options and the packet loop.
  \<^item> \<open>Packets\<close>: \<open>nf_process_burst\<close> of \<^verbatim>\<open>main.c\<close>, which joins translation, sketch and stop packet.
  \<^item> \<open>QFlow\<close>: \<^verbatim>\<open>common/qflow.h\<close>, the options of the queue selection.
  \<^item> \<open>Poll\<close>: \<open>poll_loop\<close> of \<^verbatim>\<open>nf-chain/src/main.c\<close> and \<^verbatim>\<open>mica/main.c\<close>, one operation per block of its
    body. The network card is a record of functions over an environment; the handling of a burst is
    an argument, so that one model serves both applications.
  \<^item> \<open>Poll_Policies\<close>: what the policies and the multicore modes make of the loop.
  \<^item> \<open>Acl_Init\<close>, \<open>Port_Setup\<close>, \<open>Startup\<close>: \<^verbatim>\<open>main\<close> of \<^verbatim>\<open>nf-chain/src/main.c\<close> up to the launch of the loops. \<open>Acl_Init\<close> has
    \<open>app_acl_init\<close> and the combinators of steps that may end the program (\<open>andthen\<close>, \<open>for_each\<close> with its rule); \<open>Port_Setup\<close> the
    pools, the ports and the check of the links; \<open>Startup\<close> composes the parts in \<open>nf_main\<close> and derives with \<open>loop_config\<close> what an lcore polls.
  \<^item> \<open>Shared_Flows\<close>: mode Shared of \<open>poll_loop\<close> as a step relation over all lcores, with the locks of the queues and the
    flow tables as shared state; invariants by rule induction over every interleaving.
  \<^item> \<open>Statistics\<close>: \<open>print_stats\<close> and \<open>print_queue_packet_histogram\<close> of \<^verbatim>\<open>nf-chain/src/main.c\<close>, as the numbers they print.
  \<^item> \<open>Lpm\<close>: \<^verbatim>\<open>lpm-dir-24-8.c\<close>, longest prefix match with two tables.
  \<^item> \<open>Mica_Pool\<close>: \<^verbatim>\<open>mica/ported-mica/alloc_pool.c\<close>, the circular log of items; \<open>pool_log\<close> lists the items in it.
  \<^item> \<open>Mica_Shm\<close>, \<open>Shm_Segments\<close>, \<open>Shm_Pool\<close>, \<open>Shm_Init\<close>: \<^verbatim>\<open>shm.c\<close>, the huge pages under the store. \<open>Mica_Shm\<close> has the state (pages,
    segments, mappings, and of the system the mapped files) and the operations; \<open>Shm_Segments\<close> the invariant \<open>shm_ok\<close> and histories of calls;
    \<open>Shm_Pool\<close> the memory of the pool, with \<open>pool_ring\<close>, which relates mapped pages to the circular memory of \<open>Mica_Pool\<close>; \<open>Shm_Init\<close>
    the set-up. The system is a record of functions of the number of calls made before.
  \<^item> \<open>Mica_Table\<close>: \<^verbatim>\<open>table.c\<close> and the memory helpers of \<^verbatim>\<open>util.h\<close>, the hash table whose buckets point into
    the log, as it is compiled: eviction, one pool, 15 items in a bucket.
  \<^item> \<open>Mica_Items\<close>, \<open>Mica_Refine\<close>, \<open>Mica_Store\<close>, \<open>Mica_Spec\<close>: the store against a partial function from keys to
    values. \<open>Mica_Items\<close> has the bytes of an item and the searches in a bucket; \<open>Mica_Refine\<close> the relation
    \<open>mica_rel\<close> (every slot is empty, stale or holds what the partial function says) and \<open>set\<close>; \<open>Mica_Store\<close>
    \<open>get\<close> with the move of old items to the tail, \<open>delete\<close> and the set-up; \<open>Mica_Spec\<close> histories.
  \<^item> \<open>City\<close>: \<open>CityHash64\<close> of \<^verbatim>\<open>city.c\<close>, the hash of the keys.
  \<^item> \<open>Mica_Main\<close>: \<open>mica_process5tuple\<close> and \<open>mica_process_burst\<close> of \<^verbatim>\<open>mica/main.c\<close>.

  \<^bold>\<open>What the properties show.\<close> The containers implement their abstract contracts for whole histories of
  operations; a packet of a new flow gets a free external port, its reply comes back to the right host,
  and the ways in which the code breaks this (full tables, shared source ports, expiry windows) are
  stated as they are; the polling loop neither loses nor duplicates a packet, each policy polls the
  queues it says, the slices of the cores partition the queues, and a start-up that reaches the loops has set up every ring, pool, sketch and
  flow table they use; a burst is translated and counted
  up to the stop packet; the sketch never underestimates; the LPM table returns the longest match. The
  key-value store never returns a wrong or stale value in any history, a value just set is found, and
  its flaws (a full bucket evicts its newest item, keys are read past their end, misses send
  uninitialised memory) are stated as they are. Its pages are never in two segments and stay while they are mapped, and the
  doubly mapped pages of the pool behave as the circular memory on which the proofs of the store rest. Rule files and configurations are read back as they were
  printed, accepted options give well-formed settings, queues and ports are given to the lcores completely, and
  the locality program frees what it receives but counts no locality. In mode Shared no interleaving loses a packet or polls a
  queue twice at once, but two lcores can translate one new flow to two external ports; the totals of the statistics are
  those of the active queues only.

  \<^bold>\<open>Loops and bounds.\<close> Every loop over an array is a \<open>function\<close> with the distance to the array's end
  as measure. The expiry loop, which ends because an index is released in each round, is a
  \<open>partial_function\<close>, and its property includes that it returns. A sweep of the polling loop recurses on
  fuel; the property of a sweep includes that the fuel of \<open>sweep\<close> is enough, since a queue is
  polled again at most \<open>QFLOW_MAX_CONSECUTIVE_POLLS\<close> times. The loops of the store that pop the head of the
  log and that clean buckets are \<open>partial_function\<close>s too, and its properties include that they return. The
  properties of the store hold for the first \<open>2 ^ 40\<close> bytes ever appended to the log, before the
  offsets of items repeat, and for values of one rounded length per key (the application's are all of
  1400 bytes).

  \<^bold>\<open>Not modelled.\<close> \<^verbatim>\<open>main()\<close> of the applications apart from the parts named above (mica and locality: options, packet loop and assignment of queues or ports), the
  ratios of the statistics in floating point and the parsing of the NAT options in \<^verbatim>\<open>nat_config.c\<close>, which nothing calls: these are calls into DPDK and libc; the ACL classification, which is DPDK's
  and whose results the loop does not use; interleavings of several cores outside \<open>Shared_Flows\<close> (in \<open>Poll\<close> the locks of the
  queues are an argument, the lock of a flow table is a flag, the version numbers of the store are run by one
  thread, and the calls of \<^verbatim>\<open>shm.c\<close> are taken one after the other, since each holds its lock); the mapping of the
  buckets of the store, the allocators that the configuration compiles out, and
  \<^verbatim>\<open>mehcached_process_batch\<close>, which nothing calls; the Python scripts and the
  VeriFast annotations in the C files.
\<close>

end
